(* ===== verification/Prelude.thy ===== *)
theory Prelude
  imports Complex_Main "HOL-Library.AList" "HOL-Library.Sublist"
begin

text \<open>
  What every component theory shares: the named collections the proofs use, the JavaScript
  string and array operations the sources call, insertion-ordered maps (the source's
  \<^verbatim>\<open>Map\<close>), and two interfaces stated as locales: a deterministic machine with an invariant,
  and a linear rank on an enumeration.

  A JavaScript string is a \<^typ>\<open>string\<close> whose characters are code units below 256 (Latin-1);
  a \<^verbatim>\<open>number\<close> holding an id, a count or a time in milliseconds is an \<^typ>\<open>int\<close> or \<^typ>\<open>nat\<close>,
  and one holding US dollars is a \<^typ>\<open>rat\<close> (exact arithmetic: IEEE rounding is not modelled).
\<close>

section \<open>Collections\<close>

named_theorems inv_intros \<open>preservation lemmas of component invariants\<close>
named_theorems frame_simps \<open>fields an operation leaves unchanged\<close>

section \<open>JavaScript strings\<close>

definition code_unit :: "char \<Rightarrow> nat" where
  "code_unit c = (of_char c :: nat)"

text \<open>\<^verbatim>\<open>String.prototype.trim\<close> strips these code units (the Latin-1 part of WhiteSpace and
  LineTerminator).\<close>

definition js_space :: "char \<Rightarrow> bool" where
  "js_space c \<longleftrightarrow> (let n = code_unit c in (9 \<le> n \<and> n \<le> 13) \<or> n = 32 \<or> n = 160)"

definition js_trim :: "string \<Rightarrow> string" where
  "js_trim s = rev (dropWhile js_space (rev (dropWhile js_space s)))"

definition js_trim_start :: "string \<Rightarrow> string" where
  "js_trim_start s = dropWhile js_space s"

text \<open>\<^verbatim>\<open>toLowerCase\<close> on Latin-1: A-Z, and the accented capitals except the multiplication sign.\<close>

definition js_lower_char :: "char \<Rightarrow> char" where
  "js_lower_char c =
     (let n = code_unit c
      in if (65 \<le> n \<and> n \<le> 90) \<or> (192 \<le> n \<and> n \<le> 222 \<and> n \<noteq> 215) then char_of (n + 32) else c)"

definition js_lower :: "string \<Rightarrow> string" where
  "js_lower s = map js_lower_char s"

definition starts_with :: "string \<Rightarrow> string \<Rightarrow> bool" where
  "starts_with s p \<longleftrightarrow> take (length p) s = p"

definition ends_with :: "string \<Rightarrow> string \<Rightarrow> bool" where
  "ends_with s p \<longleftrightarrow> length p \<le> length s \<and> drop (length s - length p) s = p"

fun js_includes :: "string \<Rightarrow> string \<Rightarrow> bool" where
  "js_includes [] p = (p = [])"
| "js_includes (c # s) p = (starts_with (c # s) p \<or> js_includes s p)"

lemma starts_with_prefix: "starts_with s p = prefix p s"
  by (metis append_eq_conv_conj prefix_def starts_with_def)

lemma starts_with_self [simp]: "starts_with s s"
  by (simp add: starts_with_def)

lemma starts_with_append [simp]: "starts_with (p @ s) p"
  by (simp add: starts_with_def)

text \<open>An optional string tested for truth: \<^verbatim>\<open>null\<close>, \<^verbatim>\<open>undefined\<close> and the empty string are false.\<close>

definition truthy :: "string option \<Rightarrow> string option" where
  "truthy v = (case v of None \<Rightarrow> None | Some s \<Rightarrow> if s = [] then None else Some s)"

lemma truthy_simps [simp]:
  "truthy None = None"
  "truthy (Some []) = None"
  "s \<noteq> [] \<Longrightarrow> truthy (Some s) = Some s"
  by (simp_all add: truthy_def)

lemma truthy_Some_iff: "truthy v = Some s \<longleftrightarrow> v = Some s \<and> s \<noteq> []"
  by (auto simp: truthy_def split: option.splits if_splits)

section \<open>JavaScript dates\<close>

text \<open>
  A \<^verbatim>\<open>Date\<close> is its time value in milliseconds. \<^verbatim>\<open>getUTCFullYear\<close>, \<^verbatim>\<open>getUTCMonth\<close> (0-based) and
  \<^verbatim>\<open>getUTCDate\<close> follow the proleptic Gregorian calendar; the computation goes through the day
  number within a 400-year era that starts on 1 March.
\<close>

definition day_ms :: int where
  "day_ms = 86400000"

definition civil_of_day :: "int \<Rightarrow> int \<times> int \<times> int" where
  "civil_of_day days =
     (let z = days + 719468;
          era = z div 146097;
          doe = z mod 146097;
          yoe = (doe - doe div 1460 + doe div 36524 - doe div 146096) div 365;
          doy = doe - (365 * yoe + yoe div 4 - yoe div 100);
          mp = (5 * doy + 2) div 153;
          d = doy - (153 * mp + 2) div 5 + 1;
          m = (if mp < 10 then mp + 3 else mp - 9);
          y = yoe + era * 400 + (if m \<le> 2 then 1 else 0)
      in (y, m - 1, d))"

definition utc_year :: "int \<Rightarrow> int" where
  "utc_year t = fst (civil_of_day (t div day_ms))"

definition utc_month :: "int \<Rightarrow> int" where
  "utc_month t = fst (snd (civil_of_day (t div day_ms)))"

definition utc_date :: "int \<Rightarrow> int" where
  "utc_date t = snd (snd (civil_of_day (t div day_ms)))"

section \<open>JavaScript arrays\<close>

text \<open>\<^verbatim>\<open>xs.slice(-n)\<close> for a non-negative \<open>n\<close>: the last \<open>n\<close> elements, and the whole array for
  \<open>n = 0\<close> (\<^verbatim>\<open>slice(-0)\<close> is \<^verbatim>\<open>slice(0)\<close>).\<close>

definition slice_last :: "nat \<Rightarrow> 'a list \<Rightarrow> 'a list" where
  "slice_last n xs = (if n = 0 then xs else drop (length xs - n) xs)"

lemma length_slice_last [simp]: "0 < n \<Longrightarrow> n \<le> length xs \<Longrightarrow> length (slice_last n xs) = n"
  by (simp add: slice_last_def)

lemma set_slice_last: "set (slice_last n xs) \<subseteq> set xs"
  by (auto simp: slice_last_def dest: in_set_dropD)

lemma slice_last_append [simp]: "slice_last (length ys) (xs @ ys) = (if ys = [] then xs else ys)"
  by (simp add: slice_last_def)

text \<open>\<^verbatim>\<open>findIndex\<close>-style search from the end: the largest index below \<open>n\<close> that satisfies \<open>P\<close>.\<close>

fun last_index_below :: "(nat \<Rightarrow> bool) \<Rightarrow> nat \<Rightarrow> nat option" where
  "last_index_below P 0 = None"
| "last_index_below P (Suc n) = (if P n then Some n else last_index_below P n)"

lemma last_index_below_Some:
  "last_index_below P n = Some i \<Longrightarrow> i < n \<and> P i \<and> (\<forall>j. i < j \<and> j < n \<longrightarrow> \<not> P j)"
proof (induction n)
  case 0
  then show ?case by simp
next
  case (Suc n)
  then show ?case by (auto split: if_splits simp: less_Suc_eq)
qed

lemma last_index_below_None: "last_index_below P n = None \<longleftrightarrow> (\<forall>j < n. \<not> P j)"
  by (induction n) (auto simp: less_Suc_eq)

section \<open>Insertion-ordered maps\<close>

text \<open>
  A JavaScript \<^verbatim>\<open>Map\<close> iterates in insertion order and keeps a key's place when its value is
  replaced: \<^const>\<open>AList.update\<close> on an association list does the same, and \<^const>\<open>AList.delete\<close>
  is \<^verbatim>\<open>Map.delete\<close>.
\<close>

type_synonym ('k, 'v) ordmap = "('k \<times> 'v) list"

abbreviation om_get :: "('k, 'v) ordmap \<Rightarrow> 'k \<Rightarrow> 'v option" where
  "om_get m k \<equiv> map_of m k"

abbreviation om_set :: "'k \<Rightarrow> 'v \<Rightarrow> ('k, 'v) ordmap \<Rightarrow> ('k, 'v) ordmap" where
  "om_set k v m \<equiv> AList.update k v m"

abbreviation om_delete :: "'k \<Rightarrow> ('k, 'v) ordmap \<Rightarrow> ('k, 'v) ordmap" where
  "om_delete k m \<equiv> AList.delete k m"

definition om_ok :: "('k, 'v) ordmap \<Rightarrow> bool" where
  "om_ok m \<longleftrightarrow> distinct (map fst m)"

lemma om_get_set [simp]: "om_get (om_set k v m) k' = (if k' = k then Some v else om_get m k')"
  by (simp add: update_conv')

lemma om_get_delete [simp]: "om_get (om_delete k m) k' = (if k' = k then None else om_get m k')"
  by (simp add: delete_conv')

lemma om_ok_Nil [simp]: "om_ok []"
  by (simp add: om_ok_def)

lemma om_ok_set [simp]: "om_ok m \<Longrightarrow> om_ok (om_set k v m)"
  by (simp add: om_ok_def distinct_update)

lemma om_ok_delete [simp]: "om_ok m \<Longrightarrow> om_ok (om_delete k m)"
  by (simp add: om_ok_def distinct_delete)

lemma om_get_filter:
  "om_ok m \<Longrightarrow>
   om_get (filter P m) k = (case om_get m k of None \<Rightarrow> None | Some v \<Rightarrow> if P (k, v) then Some v else None)"
proof (induction m)
  case Nil
  then show ?case by simp
next
  case (Cons p m)
  obtain a b where p: "p = (a, b)" by (cases p)
  from Cons.prems p have ok: "om_ok m" and fresh: "a \<notin> fst ` set m"
    by (auto simp: om_ok_def)
  from fresh have "om_get m a = None" by (simp add: map_of_eq_None_iff)
  with Cons.IH [OF ok] p show ?case by (auto split: option.splits)
qed

lemma om_ok_filter [simp]: "om_ok m \<Longrightarrow> om_ok (filter P m)"
  by (simp add: om_ok_def distinct_map_filter)

section \<open>Machines with an invariant\<close>

text \<open>
  A component whose operations are total functions on its state: \<open>step e s\<close> applies operation
  \<open>e\<close>. The provider shows that each operation keeps \<open>inv\<close>; every run then keeps it.
\<close>

locale machine =
  fixes step :: "'e \<Rightarrow> 's \<Rightarrow> 's"
    and inv :: "'s \<Rightarrow> bool"
  assumes step_inv: "inv s \<Longrightarrow> inv (step e s)"
begin

lemma run_inv: "inv s \<Longrightarrow> inv (fold step es s)"
  by (induction es arbitrary: s) (auto intro: step_inv)

lemma run_split: "fold step (es @ fs) s = fold step fs (fold step es s)"
  by simp

end

text \<open>A machine in which, besides, some fact once true stays true.\<close>

locale latching_machine = machine step inv for step :: "'e \<Rightarrow> 's \<Rightarrow> 's" and inv +
  fixes latched :: "'s \<Rightarrow> bool"
  assumes step_latched: "inv s \<Longrightarrow> latched s \<Longrightarrow> latched (step e s)"
begin

lemma run_latched: "inv s \<Longrightarrow> latched s \<Longrightarrow> latched (fold step es s)"
  by (induction es arbitrary: s) (auto intro: step_inv step_latched)

end

section \<open>Ranked enumerations\<close>

text \<open>
  Roles and plans are compared through a table of numbers. \<open>None\<close> stands for the source's
  \<^verbatim>\<open>null\<close>, below every member.
\<close>

locale ranked =
  fixes rank :: "'a option \<Rightarrow> nat"
  assumes rank_None: "rank None = 0"
    and rank_pos: "0 < rank (Some a)"
    and rank_inj: "rank (Some a) = rank (Some b) \<Longrightarrow> a = b"
begin

lemma rank_zero_iff: "rank x = 0 \<longleftrightarrow> x = None"
proof (cases x)
  case None
  then show ?thesis by (simp add: rank_None)
next
  case (Some a)
  then show ?thesis using rank_pos [of a] by simp
qed

lemma rank_eq_iff: "rank x = rank y \<longleftrightarrow> x = y"
proof
  assume eq: "rank x = rank y"
  show "x = y"
  proof (cases x)
    case None
    with eq have "rank y = 0" by (simp add: rank_None)
    with None show ?thesis by (simp add: rank_zero_iff)
  next
    case (Some a)
    with eq rank_pos [of a] have "rank y \<noteq> 0" by simp
    then obtain b where "y = Some b" by (cases y) (auto simp: rank_None)
    with Some eq show ?thesis by (auto dest: rank_inj)
  qed
qed simp

text \<open>The larger of two members, the second one when they are equal.\<close>

definition higher :: "'a option \<Rightarrow> 'a option \<Rightarrow> 'a option" where
  "higher x y = (if rank x > rank y then x else y)"

lemma rank_higher: "rank (higher x y) = max (rank x) (rank y)"
  by (simp add: higher_def max_def)

lemma higher_commute: "higher x y = higher y x"
  using rank_eq_iff [of x y] by (auto simp: higher_def)

lemma higher_eq_None_iff: "higher x y = None \<longleftrightarrow> x = None \<and> y = None"
proof -
  have "rank (higher x y) = 0 \<longleftrightarrow> rank x = 0 \<and> rank y = 0"
    by (auto simp: rank_higher)
  then show ?thesis by (simp add: rank_zero_iff)
qed

end

end
