(* ===== verification/Authz.thy ===== *)
theory Authz
  imports Prelude
begin

text \<open>
  Access control: \<^verbatim>\<open>packages/authz/src/permissions.ts\<close>, \<^verbatim>\<open>roles.ts\<close> and \<^verbatim>\<open>resolve.ts\<close>. The
  permission catalogue and the role bundles are data; \<^verbatim>\<open>resolveAccess\<close> turns membership facts
  into a permission set, and the \<^verbatim>\<open>canAssign*\<close> / \<^verbatim>\<open>canManage*\<close> predicates are the rules the
  routes ask before they change a membership. A \<^verbatim>\<open>Set<Permission>\<close> is a \<^typ>\<open>'a set\<close>; the
  optional booleans of \<^verbatim>\<open>AccessFacts\<close> are read as \<^const>\<open>False\<close> when absent, as the code's
  truthiness tests read them.
\<close>

section \<open>permissions.ts\<close>

datatype permission =
    WorkspaceRead | WorkspaceUpdate | WorkspaceDelete
  | MembersRead | MembersManage | OwnersManage | BillingManage | SettingsManage
  | ApiKeysManage | AnalyticsRead | WorkspaceExport | WorkspaceMove | ProjectCreate
  | ProjectRead | ProjectUpdate | ProjectDelete | ProjectMembersManage | ProjectPublish
  | ProjectSettingsManage | ProjectCredentialsManage | ProjectExport

definition workspace_permissions :: "permission list" where
  "workspace_permissions =
     [WorkspaceRead, WorkspaceUpdate, WorkspaceDelete, MembersRead, MembersManage, OwnersManage,
      BillingManage, SettingsManage, ApiKeysManage, AnalyticsRead, WorkspaceExport, WorkspaceMove,
      ProjectCreate]"

definition project_permissions :: "permission list" where
  "project_permissions =
     [ProjectRead, ProjectUpdate, ProjectDelete, ProjectMembersManage, ProjectPublish,
      ProjectSettingsManage, ProjectCredentialsManage, ProjectExport]"

definition all_permissions :: "permission list" where
  "all_permissions = workspace_permissions @ project_permissions"

text \<open>The string each constructor stands for in the source.\<close>

fun permission_string :: "permission \<Rightarrow> string" where
  "permission_string WorkspaceRead = ''workspace:read''"
| "permission_string WorkspaceUpdate = ''workspace:update''"
| "permission_string WorkspaceDelete = ''workspace:delete''"
| "permission_string MembersRead = ''workspace.members:read''"
| "permission_string MembersManage = ''workspace.members:manage''"
| "permission_string OwnersManage = ''workspace.owners:manage''"
| "permission_string BillingManage = ''workspace.billing:manage''"
| "permission_string SettingsManage = ''workspace.settings:manage''"
| "permission_string ApiKeysManage = ''workspace.api_keys:manage''"
| "permission_string AnalyticsRead = ''workspace.analytics:read''"
| "permission_string WorkspaceExport = ''workspace:export''"
| "permission_string WorkspaceMove = ''workspace:move''"
| "permission_string ProjectCreate = ''project:create''"
| "permission_string ProjectRead = ''project:read''"
| "permission_string ProjectUpdate = ''project:update''"
| "permission_string ProjectDelete = ''project:delete''"
| "permission_string ProjectMembersManage = ''project.members:manage''"
| "permission_string ProjectPublish = ''project:publish''"
| "permission_string ProjectSettingsManage = ''project.settings:manage''"
| "permission_string ProjectCredentialsManage = ''project.credentials:manage''"
| "permission_string ProjectExport = ''project:export''"

definition is_project_permission :: "permission \<Rightarrow> bool" where
  "is_project_permission p = (p \<in> set project_permissions)"

text \<open>\<^verbatim>\<open>isPermission\<close> tests an unknown value; \<^const>\<open>None\<close> is any value that is not a string.\<close>

definition is_permission :: "string option \<Rightarrow> bool" where
  "is_permission v = (case v of None \<Rightarrow> False | Some s \<Rightarrow> s \<in> set (map permission_string all_permissions))"

section \<open>roles.ts\<close>

datatype workspace_role = Owner | Admin | Member | Viewer

datatype project_role = PAdmin | PMember | PViewer

fun workspace_role_string :: "workspace_role \<Rightarrow> string" where
  "workspace_role_string Owner = ''owner''"
| "workspace_role_string Admin = ''admin''"
| "workspace_role_string Member = ''member''"
| "workspace_role_string Viewer = ''viewer''"

fun project_role_string :: "project_role \<Rightarrow> string" where
  "project_role_string PAdmin = ''admin''"
| "project_role_string PMember = ''member''"
| "project_role_string PViewer = ''viewer''"

definition workspace_roles :: "workspace_role list" where
  "workspace_roles = [Owner, Admin, Member, Viewer]"

definition project_roles :: "project_role list" where
  "project_roles = [PAdmin, PMember, PViewer]"

definition role_label :: "workspace_role \<Rightarrow> string" where
  "role_label r = (case r of Owner \<Rightarrow> ''Owner'' | Admin \<Rightarrow> ''Admin'' | Member \<Rightarrow> ''Editor''
     | Viewer \<Rightarrow> ''Viewer'')"

fun workspace_role_rank :: "workspace_role option \<Rightarrow> nat" where
  "workspace_role_rank None = 0"
| "workspace_role_rank (Some Owner) = 4"
| "workspace_role_rank (Some Admin) = 3"
| "workspace_role_rank (Some Member) = 2"
| "workspace_role_rank (Some Viewer) = 1"

fun project_role_rank :: "project_role option \<Rightarrow> nat" where
  "project_role_rank None = 0"
| "project_role_rank (Some PAdmin) = 3"
| "project_role_rank (Some PMember) = 2"
| "project_role_rank (Some PViewer) = 1"

definition governs_all_projects :: "workspace_role option \<Rightarrow> bool" where
  "governs_all_projects r = (r = Some Owner \<or> r = Some Admin)"

definition is_workspace_role :: "string option \<Rightarrow> bool" where
  "is_workspace_role v =
     (case v of None \<Rightarrow> False | Some s \<Rightarrow> s \<in> set (map workspace_role_string workspace_roles))"

definition is_project_role :: "string option \<Rightarrow> bool" where
  "is_project_role v =
     (case v of None \<Rightarrow> False | Some s \<Rightarrow> s \<in> set (map project_role_string project_roles))"

definition to_project_role :: "string option \<Rightarrow> project_role option" where
  "to_project_role v =
     (if v = Some ''owner'' then Some PAdmin
      else if is_project_role v
      then (case v of None \<Rightarrow> None | Some s \<Rightarrow> find (\<lambda>r. project_role_string r = s) project_roles)
      else None)"

fun workspace_role_permissions :: "workspace_role \<Rightarrow> permission list" where
  "workspace_role_permissions Owner = workspace_permissions"
| "workspace_role_permissions Admin =
     filter (\<lambda>p. p \<noteq> WorkspaceDelete \<and> p \<noteq> OwnersManage \<and> p \<noteq> BillingManage) workspace_permissions"
| "workspace_role_permissions Member = [WorkspaceRead, MembersRead, ProjectCreate]"
| "workspace_role_permissions Viewer = [WorkspaceRead, MembersRead]"

definition billing_admin_permissions :: "permission list" where
  "billing_admin_permissions = [WorkspaceRead, BillingManage]"

definition editor_project :: "permission list" where
  "editor_project = [ProjectRead, ProjectUpdate, ProjectPublish, ProjectExport]"

fun project_role_permissions :: "project_role \<Rightarrow> permission list" where
  "project_role_permissions PAdmin = project_permissions"
| "project_role_permissions PMember = editor_project"
| "project_role_permissions PViewer = [ProjectRead]"

fun workspace_to_project_role :: "workspace_role \<Rightarrow> project_role" where
  "workspace_to_project_role Owner = PAdmin"
| "workspace_to_project_role Admin = PAdmin"
| "workspace_to_project_role Member = PMember"
| "workspace_to_project_role Viewer = PViewer"

section \<open>resolve.ts\<close>

datatype visibility = VWorkspace | VRestricted

record project_facts =
  pf_visibility :: visibility
  pf_role :: "project_role option"

record access_facts =
  af_super :: bool
  af_workspace_role :: "workspace_role option"
  af_billing_admin :: bool
  af_project :: "project_facts option"

record effective_access =
  ea_permissions :: "permission set"
  ea_workspace_role :: "workspace_role option"
  ea_project_role :: "project_role option"
  ea_guest :: bool
  ea_super :: bool

text \<open>The role a workspace role confers on the project in scope (the code's \<^verbatim>\<open>inherited\<close>), and the
  larger of it and the explicit one (\<^verbatim>\<open>projectRole\<close>).\<close>

definition inherited_role :: "workspace_role option \<Rightarrow> project_facts \<Rightarrow> project_role option" where
  "inherited_role wr pf =
     (case wr of
        None \<Rightarrow> None
      | Some r \<Rightarrow>
          if governs_all_projects wr \<or> pf_visibility pf = VWorkspace
          then Some (workspace_to_project_role r) else None)"

definition effective_project_role :: "workspace_role option \<Rightarrow> project_facts \<Rightarrow> project_role option" where
  "effective_project_role wr pf =
     (if project_role_rank (pf_role pf) > project_role_rank (inherited_role wr pf)
      then pf_role pf else inherited_role wr pf)"

definition resolve_access :: "access_facts \<Rightarrow> effective_access" where
  "resolve_access facts =
     (let wr = af_workspace_role facts;
          explicit = (case af_project facts of None \<Rightarrow> None | Some pf \<Rightarrow> pf_role pf)
      in if af_super facts
         then \<lparr>ea_permissions = set all_permissions, ea_workspace_role = wr,
               ea_project_role = (case af_project facts of None \<Rightarrow> None | Some _ \<Rightarrow> Some PAdmin),
               ea_guest = False, ea_super = True\<rparr>
         else
           let ws = (case wr of
                       None \<Rightarrow> {}
                     | Some r \<Rightarrow> set (workspace_role_permissions r)
                         \<union> (if af_billing_admin facts then set billing_admin_permissions else {}));
               pr = (case af_project facts of None \<Rightarrow> None | Some pf \<Rightarrow> effective_project_role wr pf);
               ps = (case pr of None \<Rightarrow> {} | Some r \<Rightarrow> set (project_role_permissions r))
           in \<lparr>ea_permissions = ws \<union> ps, ea_workspace_role = wr, ea_project_role = pr,
               ea_guest = (wr = None \<and> explicit \<noteq> None), ea_super = False\<rparr>)"

definition has_permission :: "effective_access \<Rightarrow> permission \<Rightarrow> bool" where
  "has_permission a p = (p \<in> ea_permissions a)"

definition permission_list :: "effective_access \<Rightarrow> permission list" where
  "permission_list a = filter (\<lambda>p. p \<in> ea_permissions a) all_permissions"

definition can_manage_workspace_owner :: "effective_access \<Rightarrow> bool" where
  "can_manage_workspace_owner actor = (ea_workspace_role actor = Some Owner)"

definition can_assign_workspace_role :: "effective_access \<Rightarrow> workspace_role \<Rightarrow> bool" where
  "can_assign_workspace_role actor role =
     (if role = Owner then can_manage_workspace_owner actor
      else if ea_super actor then True
      else if MembersManage \<notin> ea_permissions actor then False
      else workspace_role_rank (Some role) \<le> workspace_role_rank (ea_workspace_role actor))"

definition can_assign_project_role :: "effective_access \<Rightarrow> project_role \<Rightarrow> bool" where
  "can_assign_project_role actor role =
     (if ea_super actor then True
      else if ProjectMembersManage \<notin> ea_permissions actor then False
      else project_role_rank (Some role) \<le> project_role_rank (ea_project_role actor))"

definition can_manage_workspace_member :: "effective_access \<Rightarrow> workspace_role option \<Rightarrow> bool" where
  "can_manage_workspace_member actor target =
     (case target of
        Some r \<Rightarrow> can_assign_workspace_role actor r
      | None \<Rightarrow> ea_super actor \<or> MembersManage \<in> ea_permissions actor)"

definition can_manage_project_member :: "effective_access \<Rightarrow> project_role option \<Rightarrow> bool" where
  "can_manage_project_member actor target =
     (case target of
        Some r \<Rightarrow> can_assign_project_role actor r
      | None \<Rightarrow> ea_super actor \<or> ProjectMembersManage \<in> ea_permissions actor)"

section \<open>The role tables are ranks\<close>

interpretation wsrank: ranked workspace_role_rank
proof
  fix a b :: workspace_role
  show "workspace_role_rank (Some a) = workspace_role_rank (Some b) \<Longrightarrow> a = b"
    by (cases a; cases b) auto
  show "0 < workspace_role_rank (Some a)" by (cases a) auto
qed simp

interpretation prrank: ranked project_role_rank
proof
  fix a b :: project_role
  show "project_role_rank (Some a) = project_role_rank (Some b) \<Longrightarrow> a = b"
    by (cases a; cases b) auto
  show "0 < project_role_rank (Some a)" by (cases a) auto
qed simp

lemma effective_project_role_higher:
  "effective_project_role wr pf = prrank.higher (pf_role pf) (inherited_role wr pf)"
  by (simp add: effective_project_role_def prrank.higher_def)

section \<open>Lemmas on the bundles\<close>

lemmas permission_tables =
  workspace_permissions_def project_permissions_def all_permissions_def billing_admin_permissions_def
  editor_project_def

lemma all_permissions_complete [simp]: "p \<in> set all_permissions"
  by (cases p) (simp_all add: permission_tables)

lemma workspace_bundle_scope: "p \<in> set (workspace_role_permissions r) \<Longrightarrow> \<not> is_project_permission p"
  by (cases r) (auto simp: permission_tables is_project_permission_def)

lemma project_bundle_scope: "p \<in> set (project_role_permissions r) \<Longrightarrow> is_project_permission p"
  by (cases r) (auto simp: permission_tables is_project_permission_def)

lemma billing_bundle_scope: "p \<in> set billing_admin_permissions \<Longrightarrow> \<not> is_project_permission p"
  by (auto simp: permission_tables is_project_permission_def)

text \<open>The bundles grow with the rank.\<close>

lemma workspace_bundle_mono:
  "workspace_role_rank (Some r) \<le> workspace_role_rank (Some r') \<Longrightarrow>
   set (workspace_role_permissions r) \<subseteq> set (workspace_role_permissions r')"
  by (cases r; cases r') (auto simp: permission_tables)

lemma project_bundle_mono:
  "project_role_rank (Some r) \<le> project_role_rank (Some r') \<Longrightarrow>
   set (project_role_permissions r) \<subseteq> set (project_role_permissions r')"
  by (cases r; cases r') (auto simp: permission_tables)

lemma members_manage_role: "MembersManage \<in> set (workspace_role_permissions r) \<longleftrightarrow> r = Owner \<or> r = Admin"
  by (cases r) (simp_all add: permission_tables)

lemma project_members_manage_role: "ProjectMembersManage \<in> set (project_role_permissions r) \<longleftrightarrow> r = PAdmin"
  by (cases r) (simp_all add: permission_tables)

lemma inherited_role_mono:
  "workspace_role_rank wr \<le> workspace_role_rank wr' \<Longrightarrow>
   project_role_rank (inherited_role wr pf) \<le> project_role_rank (inherited_role wr' pf)"
proof (cases wr; cases wr')
  fix r r' assume "wr = Some r" "wr' = Some r'"
    and "workspace_role_rank wr \<le> workspace_role_rank wr'"
  then show ?thesis
    by (cases r; cases r') (auto simp: inherited_role_def governs_all_projects_def)
qed (auto simp: inherited_role_def wsrank.rank_zero_iff simp del: workspace_role_rank.simps(2-5))

text \<open>The permission set of a caller who is not a super admin, split by scope.\<close>

lemma resolve_super: "af_super f \<Longrightarrow> ea_permissions (resolve_access f) = set all_permissions"
  by (simp add: resolve_access_def)

lemma resolve_fields [simp]:
  "ea_workspace_role (resolve_access f) = af_workspace_role f"
  "ea_super (resolve_access f) = af_super f"
  by (simp_all add: resolve_access_def Let_def)

lemma resolve_project_role:
  "ea_project_role (resolve_access f) =
     (case af_project f of None \<Rightarrow> None
      | Some pf \<Rightarrow> if af_super f then Some PAdmin else effective_project_role (af_workspace_role f) pf)"
  by (simp add: resolve_access_def Let_def split: option.splits)

lemma resolve_workspace_scope:
  "\<not> af_super f \<Longrightarrow> \<not> is_project_permission p \<Longrightarrow>
   p \<in> ea_permissions (resolve_access f) \<longleftrightarrow>
     (\<exists>r. af_workspace_role f = Some r \<and>
        (p \<in> set (workspace_role_permissions r) \<or> af_billing_admin f \<and> p \<in> set billing_admin_permissions))"
  by (auto simp: resolve_access_def Let_def dest: project_bundle_scope split: option.splits if_splits)

lemma resolve_project_scope:
  "\<not> af_super f \<Longrightarrow> is_project_permission p \<Longrightarrow>
   p \<in> ea_permissions (resolve_access f) \<longleftrightarrow>
     (\<exists>r. ea_project_role (resolve_access f) = Some r \<and> p \<in> set (project_role_permissions r))"
  by (auto simp: resolve_access_def Let_def dest: workspace_bundle_scope billing_bundle_scope
      split: option.splits if_splits)

section \<open>What access means\<close>

text \<open>
  The access rules as a person states them (the table at the head of \<^verbatim>\<open>resolve.ts\<close>), one rule per
  source of a permission. There is no maximum of roles here: a permission held through any source
  is held.
\<close>

inductive entitled :: "access_facts \<Rightarrow> permission \<Rightarrow> bool" where
  super_admin: "af_super f \<Longrightarrow> entitled f p"
| workspace_seat:
    "af_workspace_role f = Some r \<Longrightarrow> p \<in> set (workspace_role_permissions r) \<Longrightarrow> entitled f p"
| billing_seat:
    "af_workspace_role f = Some r \<Longrightarrow> af_billing_admin f \<Longrightarrow> p \<in> set billing_admin_permissions \<Longrightarrow>
     entitled f p"
| governs:
    "af_workspace_role f = Some r \<Longrightarrow> r = Owner \<or> r = Admin \<Longrightarrow> af_project f = Some pf \<Longrightarrow>
     is_project_permission p \<Longrightarrow> entitled f p"
| open_project:
    "af_workspace_role f = Some r \<Longrightarrow> af_project f = Some pf \<Longrightarrow> pf_visibility pf = VWorkspace \<Longrightarrow>
     p \<in> set (project_role_permissions (workspace_to_project_role r)) \<Longrightarrow> entitled f p"
| project_seat:
    "af_project f = Some pf \<Longrightarrow> pf_role pf = Some q \<Longrightarrow> p \<in> set (project_role_permissions q) \<Longrightarrow>
     entitled f p"

inductive_simps entitled_iff: "entitled f p"

lemma project_admin_bundle: "p \<in> set (project_role_permissions PAdmin) \<longleftrightarrow> is_project_permission p"
  by (simp add: is_project_permission_def)

lemma inherited_role_entitled:
  assumes "af_project f = Some pf" and "inherited_role (af_workspace_role f) pf = Some q"
    and "p \<in> set (project_role_permissions q)"
  shows "entitled f p"
proof -
  from assms(2) obtain r where r: "af_workspace_role f = Some r"
    and q: "q = workspace_to_project_role r"
    and seen: "r = Owner \<or> r = Admin \<or> pf_visibility pf = VWorkspace"
    by (auto simp: inherited_role_def governs_all_projects_def split: option.splits if_splits)
  show ?thesis
  proof (cases "pf_visibility pf = VWorkspace")
    case True
    with assms r q show ?thesis by (auto intro: entitled.open_project)
  next
    case False
    with seen assms r q show ?thesis
      by (auto intro!: entitled.governs dest: project_bundle_scope)
  qed
qed

lemma effective_role_perms:
  "(\<exists>q. effective_project_role wr pf = Some q \<and> p \<in> set (project_role_permissions q)) \<longleftrightarrow>
   (\<exists>q. pf_role pf = Some q \<and> p \<in> set (project_role_permissions q)) \<or>
   (\<exists>q. inherited_role wr pf = Some q \<and> p \<in> set (project_role_permissions q))" (is "?l \<longleftrightarrow> ?r")
proof
  show "?l \<Longrightarrow> ?r" by (auto simp: effective_project_role_def split: if_splits)
  have up: "\<exists>q. effective_project_role wr pf = Some q \<and> p \<in> set (project_role_permissions q)"
    if "project_role_rank (Some q) \<le> project_role_rank (effective_project_role wr pf)"
      and "p \<in> set (project_role_permissions q)" for q
  proof -
    from that(1) prrank.rank_pos [of q] obtain q' where q': "effective_project_role wr pf = Some q'"
      by (cases "effective_project_role wr pf") auto
    with that project_bundle_mono [of q q'] show ?thesis by auto
  qed
  have le: "project_role_rank (pf_role pf) \<le> project_role_rank (effective_project_role wr pf)"
    "project_role_rank (inherited_role wr pf) \<le> project_role_rank (effective_project_role wr pf)"
    by (simp_all add: effective_project_role_higher prrank.rank_higher)
  show "?r \<Longrightarrow> ?l"
    using up le by metis
qed

lemma entitled_project:
  assumes "\<not> af_super f" and "is_project_permission p" and "af_project f = Some pf"
  shows "entitled f p \<longleftrightarrow>
    (\<exists>q. pf_role pf = Some q \<and> p \<in> set (project_role_permissions q)) \<or>
    (\<exists>q. inherited_role (af_workspace_role f) pf = Some q \<and> p \<in> set (project_role_permissions q))"
    (is "_ \<longleftrightarrow> ?r")
proof
  assume "entitled f p"
  then show ?r
    using assms
    by (cases rule: entitled.cases)
      (auto simp: inherited_role_def governs_all_projects_def project_admin_bundle
        simp del: project_role_permissions.simps(1) dest: workspace_bundle_scope billing_bundle_scope)
next
  show "?r \<Longrightarrow> entitled f p"
    using assms(3) by (auto intro: entitled.project_seat inherited_role_entitled)
qed

lemma resolve_entitled: "p \<in> ea_permissions (resolve_access f) \<longleftrightarrow> entitled f p"
proof (cases "af_super f")
  case True
  then show ?thesis by (simp add: resolve_super entitled.super_admin)
next
  case False
  show ?thesis
  proof (cases "is_project_permission p")
    case True
    with False show ?thesis
    proof (cases "af_project f")
      case None
      with False True show ?thesis
        by (auto simp: resolve_project_scope resolve_project_role entitled_iff
            dest: workspace_bundle_scope billing_bundle_scope)
    next
      case (Some pf)
      with False True show ?thesis
        by (simp add: resolve_project_scope resolve_project_role entitled_project effective_role_perms)
    qed
  next
    case ws: False
    with False show ?thesis
      by (auto simp: resolve_workspace_scope entitled_iff dest: project_bundle_scope)
  qed
qed

section \<open>Properties\<close>

text \<open>C4: \<^verbatim>\<open>resolveAccess\<close> grants a permission exactly when one of the documented sources entitles
  the caller to it: taking the larger of the inherited and the explicit project role loses nothing
  and adds nothing.\<close>

theorem resolve_access_iff_entitled:
  "p \<in> ea_permissions (resolve_access f) \<longleftrightarrow> entitled f p"
  by (rule resolve_entitled)

text \<open>C38: no escalation. Whoever may give a workspace role, or a project role on the project in
  scope, already holds every permission that role carries, and only owners may give \<^verbatim>\<open>owner\<close>.\<close>

theorem assign_no_escalation:
  assumes "actor = resolve_access f"
  shows "(can_assign_workspace_role actor r \<longrightarrow> set (workspace_role_permissions r) \<subseteq> ea_permissions actor)
    \<and> (can_assign_workspace_role actor Owner \<longrightarrow> af_workspace_role f = Some Owner)
    \<and> (can_assign_project_role actor q \<longrightarrow> set (project_role_permissions q) \<subseteq> ea_permissions actor)"
proof (cases "af_super f")
  case True
  with assms show ?thesis
    by (auto simp: resolve_super can_assign_workspace_role_def can_manage_workspace_owner_def)
next
  case False
  have "set (workspace_role_permissions r) \<subseteq> ea_permissions actor" if can: "can_assign_workspace_role actor r"
  proof -
    from can assms False obtain r' where r': "af_workspace_role f = Some r'"
      and le: "workspace_role_rank (Some r) \<le> workspace_role_rank (Some r')"
      by (cases "af_workspace_role f")
        (auto simp: can_assign_workspace_role_def can_manage_workspace_owner_def
          wsrank.rank_zero_iff split: if_splits)
    from r' assms False have "set (workspace_role_permissions r') \<subseteq> ea_permissions actor"
      by (auto simp: resolve_access_def Let_def)
    with workspace_bundle_mono [OF le] show ?thesis by blast
  qed
  moreover have "set (project_role_permissions q) \<subseteq> ea_permissions actor"
    if can: "can_assign_project_role actor q"
  proof -
    from can assms False have "ProjectMembersManage \<in> ea_permissions actor"
      by (auto simp: can_assign_project_role_def split: if_splits)
    with assms False have "ea_project_role actor = Some PAdmin"
      by (auto simp: resolve_project_scope is_project_permission_def project_permissions_def
          project_members_manage_role)
    with assms False have "p \<in> ea_permissions actor" if "is_project_permission p" for p
      using that by (simp add: resolve_project_scope is_project_permission_def)
    then show ?thesis by (blast dest: project_bundle_scope)
  qed
  ultimately show ?thesis
    using assms by (simp add: can_assign_workspace_role_def can_manage_workspace_owner_def)
qed

lemma assign_no_escalation_witness:
  "\<exists>actor. actor = resolve_access \<lparr>af_super = False, af_workspace_role = Some Admin,
       af_billing_admin = False, af_project = None\<rparr>
     \<and> set (workspace_role_permissions Member) \<subseteq> ea_permissions actor
     \<and> \<not> can_assign_workspace_role actor Owner"
proof -
  define f where "f = \<lparr>af_super = False, af_workspace_role = Some Admin,
       af_billing_admin = False, af_project = None\<rparr>"
  define actor where "actor = resolve_access f"
  have "can_assign_workspace_role actor Member"
    by (simp add: actor_def f_def resolve_access_def can_assign_workspace_role_def
        workspace_permissions_def Let_def)
  with assign_no_escalation [OF actor_def, of Member PViewer]
  have "set (workspace_role_permissions Member) \<subseteq> ea_permissions actor"
    and "\<not> can_assign_workspace_role actor Owner" by (auto simp: f_def)
  then show ?thesis unfolding f_def [symmetric] actor_def by blast
qed

text \<open>One set of membership facts grants at least what another does.\<close>

definition facts_le :: "access_facts \<Rightarrow> access_facts \<Rightarrow> bool" where
  "facts_le f g \<longleftrightarrow>
     (af_super f \<longrightarrow> af_super g)
     \<and> workspace_role_rank (af_workspace_role f) \<le> workspace_role_rank (af_workspace_role g)
     \<and> (af_billing_admin f \<longrightarrow> af_billing_admin g)
     \<and> (case af_project f of None \<Rightarrow> True
        | Some p \<Rightarrow> (case af_project g of None \<Rightarrow> False
            | Some q \<Rightarrow> project_role_rank (pf_role p) \<le> project_role_rank (pf_role q)
                \<and> (pf_visibility p = VWorkspace \<longrightarrow> pf_visibility q = VWorkspace)))"

lemma workspace_role_leD:
  "workspace_role_rank (Some r) \<le> workspace_role_rank wr \<Longrightarrow>
   \<exists>r'. wr = Some r' \<and> workspace_role_rank (Some r) \<le> workspace_role_rank (Some r')"
  using wsrank.rank_pos [of r] by (cases wr) auto

lemma project_role_leD:
  "project_role_rank (Some r) \<le> project_role_rank pr \<Longrightarrow>
   \<exists>r'. pr = Some r' \<and> set (project_role_permissions r) \<subseteq> set (project_role_permissions r')"
  using prrank.rank_pos [of r] by (cases pr) (auto dest: project_bundle_mono)

lemma to_project_role_mono:
  "workspace_role_rank (Some r) \<le> workspace_role_rank (Some r') \<Longrightarrow>
   set (project_role_permissions (workspace_to_project_role r))
     \<subseteq> set (project_role_permissions (workspace_to_project_role r'))"
  by (intro project_bundle_mono) (cases r; cases r'; simp)

lemma governs_mono:
  "workspace_role_rank (Some r) \<le> workspace_role_rank (Some r') \<Longrightarrow> r = Owner \<or> r = Admin \<Longrightarrow>
   r' = Owner \<or> r' = Admin"
  by (cases r; cases r') auto

lemma entitled_mono:
  assumes "entitled f p" and "facts_le f g"
  shows "entitled g p"
  using assms(1)
proof cases
  case super_admin
  with assms(2) show ?thesis by (auto simp: facts_le_def intro: entitled.super_admin)
next
  case (workspace_seat r)
  with assms(2) obtain r' where "af_workspace_role g = Some r'"
    and "set (workspace_role_permissions r) \<subseteq> set (workspace_role_permissions r')"
    unfolding facts_le_def by (metis workspace_bundle_mono workspace_role_leD)
  with workspace_seat show ?thesis by (blast intro: entitled.workspace_seat)
next
  case (billing_seat r)
  with assms(2) obtain r' where "af_workspace_role g = Some r'" and "af_billing_admin g"
    unfolding facts_le_def by (metis workspace_role_leD)
  with billing_seat show ?thesis by (blast intro: entitled.billing_seat)
next
  case (governs r pf)
  with assms(2) obtain r' where "af_workspace_role g = Some r'" "r' = Owner \<or> r' = Admin"
    unfolding facts_le_def by (metis governs_mono workspace_role_leD)
  with governs assms(2) show ?thesis
    by (auto simp: facts_le_def split: option.splits intro: entitled.governs)
next
  case (open_project r pf)
  with assms(2) obtain r' where "af_workspace_role g = Some r'"
    and "p \<in> set (project_role_permissions (workspace_to_project_role r'))"
    unfolding facts_le_def by (metis (no_types, lifting) subsetD to_project_role_mono workspace_role_leD)
  with open_project assms(2) show ?thesis
    by (auto simp: facts_le_def split: option.splits intro: entitled.open_project)
next
  case (project_seat pf q)
  with assms(2) obtain pf' where pf': "af_project g = Some pf'"
    and "project_role_rank (Some q) \<le> project_role_rank (pf_role pf')"
    by (auto simp: facts_le_def split: option.splits)
  then obtain q' where "pf_role pf' = Some q'" "p \<in> set (project_role_permissions q')"
    using project_seat project_role_leD by blast
  with pf' show ?thesis by (auto intro: entitled.project_seat)
qed

text \<open>Access is monotone. Raising a workspace role or a project role, adding the billing flag
  or opening a restricted project never takes a permission away.\<close>

theorem resolve_access_mono:
  assumes "facts_le f g"
  shows "ea_permissions (resolve_access f) \<subseteq> ea_permissions (resolve_access g)"
  using assms by (auto simp: resolve_entitled intro: entitled_mono)

lemma resolve_access_mono_witness:
  "ea_permissions (resolve_access \<lparr>af_super = False, af_workspace_role = Some Viewer, af_billing_admin = False,
       af_project = Some \<lparr>pf_visibility = VRestricted, pf_role = Some PViewer\<rparr>\<rparr>)
   \<subseteq> ea_permissions (resolve_access \<lparr>af_super = False, af_workspace_role = Some Admin, af_billing_admin = True,
       af_project = Some \<lparr>pf_visibility = VWorkspace, pf_role = Some PMember\<rparr>\<rparr>)"
  by (rule resolve_access_mono) (simp add: facts_le_def)

end
