(* ===== verification/Usage_Plans.thy ===== *)
theory Usage_Plans
  imports Prelude
begin

text \<open>
  Plans, prices and allowances: \<^verbatim>\<open>apps/api/src/config/usage-plans.ts\<close> and the price-id tests of
  \<^verbatim>\<open>config/stripe-prices.ts\<close>. Dollar amounts are exact rationals. \<^verbatim>\<open>Infinity\<close> (no cap) and
  \<^verbatim>\<open>null\<close> limits are \<^const>\<open>None\<close>. Seat counts are integers (the column is an \<^verbatim>\<open>Int\<close>), so
  \<^verbatim>\<open>Math.floor\<close> on them is the identity.
\<close>

section \<open>Plan ids\<close>

datatype plan_id = Free | Basic | Pro | Business | Enterprise

fun plan_name :: "plan_id \<Rightarrow> string" where
  "plan_name Free = ''free''"
| "plan_name Basic = ''basic''"
| "plan_name Pro = ''pro''"
| "plan_name Business = ''business''"
| "plan_name Enterprise = ''enterprise''"

fun plan_rank :: "plan_id \<Rightarrow> nat" where
  "plan_rank Free = 0"
| "plan_rank Basic = 1"
| "plan_rank Pro = 2"
| "plan_rank Business = 3"
| "plan_rank Enterprise = 4"

text \<open>\<^verbatim>\<open>normalizePlanId\<close>: prefix match on the trimmed lower-case id, longest tiers first.\<close>

definition normalize_plan_id :: "string option \<Rightarrow> plan_id option" where
  "normalize_plan_id v =
     (case truthy v of
        None \<Rightarrow> None
      | Some s \<Rightarrow>
          let lc = js_trim (js_lower s)
          in if starts_with lc ''enterprise'' then Some Enterprise
             else if starts_with lc ''business'' then Some Business
             else if starts_with lc ''pro'' then Some Pro
             else if starts_with lc ''basic'' then Some Basic
             else if starts_with lc ''free'' then Some Free
             else None)"

text \<open>The recurring \<^verbatim>\<open>normalizePlanId(x) ?? 'free'\<close>.\<close>

definition plan_or_free :: "string option \<Rightarrow> plan_id" where
  "plan_or_free v = (case normalize_plan_id v of None \<Rightarrow> Free | Some p \<Rightarrow> p)"

definition compare_plan_rank :: "string option \<Rightarrow> string option \<Rightarrow> int" where
  "compare_plan_rank a b = int (plan_rank (plan_or_free a)) - int (plan_rank (plan_or_free b))"

instantiation plan_id :: linorder
begin

definition less_eq_plan_id :: "plan_id \<Rightarrow> plan_id \<Rightarrow> bool" where
  "less_eq_plan_id a b \<longleftrightarrow> plan_rank a \<le> plan_rank b"

definition less_plan_id :: "plan_id \<Rightarrow> plan_id \<Rightarrow> bool" where
  "less_plan_id a b \<longleftrightarrow> plan_rank a < plan_rank b"

instance
proof
  fix x y z :: plan_id
  show "x \<le> y \<Longrightarrow> y \<le> x \<Longrightarrow> x = y"
    by (cases x; cases y) (simp_all add: less_eq_plan_id_def)
qed (auto simp: less_eq_plan_id_def less_plan_id_def)

end

lemma paid_iff: "plan_rank p \<ge> plan_rank Basic \<longleftrightarrow> p \<noteq> Free"
  by (cases p) simp_all

section \<open>Included amounts\<close>

definition free_daily_included_usd :: rat where
  "free_daily_included_usd = 1"

fun seat_included_usd :: "plan_id \<Rightarrow> rat" where
  "seat_included_usd Free = 0"
| "seat_included_usd Basic = 10"
| "seat_included_usd Pro = 20"
| "seat_included_usd Business = 20"
| "seat_included_usd Enterprise = 2000"

fun seat_price_monthly_usd :: "plan_id \<Rightarrow> rat option" where
  "seat_price_monthly_usd Free = Some 0"
| "seat_price_monthly_usd Basic = Some 8"
| "seat_price_monthly_usd Pro = Some 20"
| "seat_price_monthly_usd Business = Some 16"
| "seat_price_monthly_usd Enterprise = None"

definition get_daily_included_for_plan :: "string option \<Rightarrow> rat" where
  "get_daily_included_for_plan v = (if plan_or_free v = Free then free_daily_included_usd else 0)"

text \<open>\<^verbatim>\<open>Math.max(1, Math.floor(seats || 1))\<close>.\<close>

definition safe_seats :: "int \<Rightarrow> int" where
  "safe_seats seats = max 1 (if seats = 0 then 1 else seats)"

text \<open>\<^verbatim>\<open>planId in SEAT_INCLUDED_USD\<close>: the exact tier names.\<close>

definition exact_plan :: "string \<Rightarrow> plan_id option" where
  "exact_plan s = find (\<lambda>p. plan_name p = s) [Free, Basic, Pro, Business, Enterprise]"

definition is_digit :: "char \<Rightarrow> bool" where
  "is_digit c \<longleftrightarrow> 48 \<le> code_unit c \<and> code_unit c \<le> 57"

definition digits_value :: "string \<Rightarrow> nat" where
  "digits_value s = foldl (\<lambda>n c. 10 * n + (code_unit c - 48)) 0 s"

text \<open>The match of \<^verbatim>\<open>/^(basic|pro|business)_(\d+)$/\<close>: the credit count.\<close>

definition legacy_tier_credits :: "string \<Rightarrow> nat option" where
  "legacy_tier_credits s =
     (case find (\<lambda>p. starts_with s p) [''basic_'', ''pro_'', ''business_''] of
        None \<Rightarrow> None
      | Some p \<Rightarrow>
          let d = drop (length p) s
          in if d \<noteq> [] \<and> list_all is_digit d then Some (digits_value d) else None)"

definition get_monthly_included_for_plan :: "string \<Rightarrow> int \<Rightarrow> rat" where
  "get_monthly_included_for_plan plan seats =
     (case exact_plan plan of
        Some p \<Rightarrow>
          if p = Free \<or> p = Basic then seat_included_usd p
          else seat_included_usd p * of_int (safe_seats seats)
      | None \<Rightarrow>
          (case legacy_tier_credits plan of
             Some n \<Rightarrow> of_nat n * (1 / 10)
           | None \<Rightarrow> 0))"

section \<open>Always-on slots and published-app caps\<close>

fun always_on_slots_per_seat :: "plan_id \<Rightarrow> int option" where
  "always_on_slots_per_seat Free = Some 0"
| "always_on_slots_per_seat Basic = Some 0"
| "always_on_slots_per_seat Pro = Some 1"
| "always_on_slots_per_seat Business = Some 1"
| "always_on_slots_per_seat Enterprise = None"

definition per_seat_always_on :: "plan_id \<Rightarrow> bool" where
  "per_seat_always_on p = (p = Pro \<or> p = Business)"

definition get_always_on_allowance :: "string option \<Rightarrow> int \<Rightarrow> int option" where
  "get_always_on_allowance v seats =
     (let p = plan_or_free v
      in case always_on_slots_per_seat p of
           None \<Rightarrow> None
         | Some n \<Rightarrow> if \<not> per_seat_always_on p then Some n else Some (n * safe_seats seats))"

fun agent_reply_concurrency :: "plan_id \<Rightarrow> nat" where
  "agent_reply_concurrency Free = 2"
| "agent_reply_concurrency Basic = 4"
| "agent_reply_concurrency Pro = 8"
| "agent_reply_concurrency Business = 12"
| "agent_reply_concurrency Enterprise = 24"

datatype size_tier = SizeS | SizeM | SizeL

record published_caps =
  pc_plan :: plan_id
  pc_max_replicas :: "nat option"
  pc_sizes :: "size_tier list"
  pc_staging :: bool

definition get_published_plan_caps :: "string option \<Rightarrow> published_caps" where
  "get_published_plan_caps v =
     (let p = plan_or_free v
      in \<lparr>pc_plan = p,
          pc_max_replicas = (case p of Free \<Rightarrow> Some 1 | Basic \<Rightarrow> Some 1 | Pro \<Rightarrow> Some 5
             | Business \<Rightarrow> Some 20 | Enterprise \<Rightarrow> None),
          pc_sizes = (case p of Free \<Rightarrow> [SizeS] | Basic \<Rightarrow> [SizeS] | Pro \<Rightarrow> [SizeS, SizeM]
             | Business \<Rightarrow> [SizeS, SizeM, SizeL] | Enterprise \<Rightarrow> [SizeS, SizeM, SizeL]),
          pc_staging = (case p of Free \<Rightarrow> False | Basic \<Rightarrow> False | _ \<Rightarrow> True)\<rparr>)"

section \<open>Rolling windows and allowances\<close>

definition five_hour_ms :: int where
  "five_hour_ms = 5 * 60 * 60 * 1000"

definition seven_day_ms :: int where
  "seven_day_ms = 7 * 24 * 60 * 60 * 1000"

definition weeks_per_month :: rat where
  "weeks_per_month = 36525 / 100 / 12 / 7"

definition markup_multiplier :: rat where
  "markup_multiplier = 12 / 10"

record window_limits =
  wl_five :: rat
  wl_week :: rat

fun rolling_window_limits :: "plan_id \<Rightarrow> window_limits option" where
  "rolling_window_limits Free = Some \<lparr>wl_five = 2 / 10, wl_week = 5 / 10\<rparr>"
| "rolling_window_limits Basic = Some \<lparr>wl_five = 92 / 100, wl_week = 23 / 10\<rparr>"
| "rolling_window_limits Pro = Some \<lparr>wl_five = 196 / 100, wl_week = 49 / 10\<rparr>"
| "rolling_window_limits Business = Some \<lparr>wl_five = 184 / 100, wl_week = 46 / 10\<rparr>"
| "rolling_window_limits Enterprise = None"

definition legacy_business_window_limits :: window_limits where
  "legacy_business_window_limits = \<lparr>wl_five = 396 / 100, wl_week = 99 / 10\<rparr>"

definition legacy_business_seat_included_usd :: rat where
  "legacy_business_seat_included_usd = 40"

definition get_window_limits_for_plan :: "string option \<Rightarrow> window_limits option" where
  "get_window_limits_for_plan v = rolling_window_limits (plan_or_free v)"

subsection \<open>stripe-prices.ts: which prices are legacy\<close>

text \<open>\<open>production\<close> is \<^verbatim>\<open>NODE_ENV === 'production'\<close>; the three v2.5.0 ids come from the environment,
  trimmed, and are empty when unset.\<close>

record price_env =
  pe_production :: bool
  pe_basic_annual_v2 :: string
  pe_business_monthly_v2 :: string
  pe_business_annual_v2 :: string

record price_tier =
  pt_monthly :: string
  pt_annual :: string

datatype plan_type = TBasic | TPro | TBusiness

fun current_prices :: "price_env \<Rightarrow> plan_type \<Rightarrow> price_tier" where
  "current_prices e TBasic =
     \<lparr>pt_monthly = (if pe_production e then ''price_1TEdi4ADDMNd95Ggym2MWpEQ''
                    else ''price_1TRH5XAp5PDuxitp1Uqkjbcx''),
      pt_annual = pe_basic_annual_v2 e\<rparr>"
| "current_prices e TPro =
     (if pe_production e
      then \<lparr>pt_monthly = ''price_1TTIOfADDMNd95GgDyGQlaqH'', pt_annual = ''price_1TTIOgADDMNd95GgwQGlpBLa''\<rparr>
      else \<lparr>pt_monthly = ''price_1TRH5kAp5PDuxitpwN3MHPhD'', pt_annual = ''price_1TRH5kAp5PDuxitpyUIn1Fh6''\<rparr>)"
| "current_prices e TBusiness =
     \<lparr>pt_monthly = pe_business_monthly_v2 e, pt_annual = pe_business_annual_v2 e\<rparr>"

fun legacy_prices :: "price_env \<Rightarrow> plan_type \<Rightarrow> price_tier" where
  "legacy_prices e TBasic =
     (if pe_production e
      then \<lparr>pt_monthly = ''price_1TEdi4ADDMNd95Ggym2MWpEQ'', pt_annual = ''price_1TEdi6ADDMNd95GgYZaoUHiQ''\<rparr>
      else \<lparr>pt_monthly = ''price_1TRH5XAp5PDuxitp1Uqkjbcx'', pt_annual = ''price_1TRH5XAp5PDuxitptfGAK6PB''\<rparr>)"
| "legacy_prices e TPro =
     (if pe_production e
      then \<lparr>pt_monthly = ''price_1TTIOfADDMNd95GgDyGQlaqH'', pt_annual = ''price_1TTIOgADDMNd95GgwQGlpBLa''\<rparr>
      else \<lparr>pt_monthly = ''price_1TRH5kAp5PDuxitpwN3MHPhD'', pt_annual = ''price_1TRH5kAp5PDuxitpyUIn1Fh6''\<rparr>)"
| "legacy_prices e TBusiness =
     (if pe_production e
      then \<lparr>pt_monthly = ''price_1TTIOgADDMNd95Gg5DgR006y'', pt_annual = ''price_1TTIOhADDMNd95Gg6JaJzKzZ''\<rparr>
      else \<lparr>pt_monthly = ''price_1TRH5lAp5PDuxitpCRkOKz4h'', pt_annual = ''price_1TRH5lAp5PDuxitpM51P3JNm''\<rparr>)"

definition price_in :: "string \<Rightarrow> price_tier \<Rightarrow> bool" where
  "price_in s t = (s = pt_monthly t \<or> s = pt_annual t)"

definition is_legacy_plan_price_id :: "price_env \<Rightarrow> string option \<Rightarrow> bool \<Rightarrow> bool" where
  "is_legacy_plan_price_id e v null_is_legacy =
     (case truthy v of
        None \<Rightarrow> null_is_legacy
      | Some s \<Rightarrow>
          (case find (\<lambda>p. price_in s (legacy_prices e p)) [TBasic, TPro, TBusiness] of
             None \<Rightarrow> False
           | Some p \<Rightarrow> \<not> price_in s (current_prices e p)))"

definition is_legacy_business_price_id :: "price_env \<Rightarrow> string option \<Rightarrow> bool" where
  "is_legacy_business_price_id e v =
     (case truthy v of
        None \<Rightarrow> True
      | Some s \<Rightarrow>
          if price_in s (current_prices e TBusiness) then False
          else price_in s (legacy_prices e TBusiness))"

record plan_allowance =
  pa_limits :: "window_limits option"
  pa_monthly_per_seat :: rat
  pa_legacy :: bool

definition get_plan_allowance :: "price_env \<Rightarrow> string option \<Rightarrow> string option \<Rightarrow> plan_allowance" where
  "get_plan_allowance e plan price =
     (let p = plan_or_free plan;
          legacy = (if p = Business then is_legacy_business_price_id e price
                    else is_legacy_plan_price_id e price False)
      in if legacy \<and> p = Business
         then \<lparr>pa_limits = Some legacy_business_window_limits,
               pa_monthly_per_seat = legacy_business_seat_included_usd, pa_legacy = True\<rparr>
         else \<lparr>pa_limits = get_window_limits_for_plan (Some (plan_name p)),
               pa_monthly_per_seat = seat_included_usd p, pa_legacy = False\<rparr>)"

definition get_monthly_included_for_plan_and_price ::
  "price_env \<Rightarrow> string \<Rightarrow> int \<Rightarrow> string option \<Rightarrow> rat" where
  "get_monthly_included_for_plan_and_price e plan seats price =
     (if legacy_tier_credits plan \<noteq> None then get_monthly_included_for_plan plan seats
      else
        let p = plan_or_free (Some plan);
            a = get_plan_allowance e (Some plan) price
        in if p = Free \<or> p = Basic then pa_monthly_per_seat a
           else pa_monthly_per_seat a * of_int (safe_seats seats))"

definition get_monthly_included_equivalent :: "string option \<Rightarrow> int \<Rightarrow> rat option" where
  "get_monthly_included_equivalent v seats =
     (case get_window_limits_for_plan v of
        None \<Rightarrow> None
      | Some l \<Rightarrow>
          let p = plan_or_free v;
              n = (if p = Basic \<or> p = Free then 1 else safe_seats seats)
          in Some (wl_week l * weeks_per_month * of_int n))"

definition get_utilization_for_margin :: "string option \<Rightarrow> rat \<Rightarrow> rat option" where
  "get_utilization_for_margin v margin =
     (let p = plan_or_free v
      in case get_window_limits_for_plan (Some (plan_name p)) of
           None \<Rightarrow> None
         | Some l \<Rightarrow>
             (case seat_price_monthly_usd p of
                None \<Rightarrow> None
              | Some price \<Rightarrow>
                  if price \<le> 0 then None
                  else
                    let cogs = wl_week l * weeks_per_month / markup_multiplier
                    in if cogs \<le> 0 then None else Some (price * (1 - margin) / cogs)))"

definition get_break_even_utilization :: "string option \<Rightarrow> rat option" where
  "get_break_even_utilization v = get_utilization_for_margin v 0"

text \<open>Promo credit still spendable at \<open>now\<close>: the wallet's balance while its expiry is ahead.\<close>

definition promo_credit_available_usd :: "rat \<Rightarrow> int option \<Rightarrow> int \<Rightarrow> rat" where
  "promo_credit_available_usd credit expires now =
     (case expires of
        None \<Rightarrow> 0
      | Some t \<Rightarrow> if t \<le> now then 0 else max 0 credit)"

section \<open>Lemmas\<close>

lemma normalize_plan_names:
  "normalize_plan_id (Some ''free'') = Some Free"
  "normalize_plan_id (Some ''basic'') = Some Basic"
  "normalize_plan_id (Some ''pro'') = Some Pro"
  "normalize_plan_id (Some ''business'') = Some Business"
  "normalize_plan_id (Some ''enterprise'') = Some Enterprise"
  by code_simp+

lemma normalize_plan_name [simp]: "normalize_plan_id (Some (plan_name p)) = Some p"
  by (cases p) (simp_all add: normalize_plan_names)

lemma plan_or_free_name [simp]: "plan_or_free (Some (plan_name p)) = p"
  by (simp add: plan_or_free_def)

lemma plan_or_free_None [simp]: "plan_or_free None = Free"
  by (simp add: plan_or_free_def normalize_plan_id_def)

lemma safe_seats_pos: "1 \<le> safe_seats n"
  by (simp add: safe_seats_def)

lemma promo_credit_nonneg: "0 \<le> promo_credit_available_usd c e now"
  by (auto simp: promo_credit_available_usd_def split: option.splits)

lemma promo_credit_pos_iff:
  "0 < promo_credit_available_usd c e now \<longleftrightarrow> 0 < c \<and> (\<exists>t. e = Some t \<and> now < t)"
  by (auto simp: promo_credit_available_usd_def split: option.splits)

lemma promo_credit_pos_eq:
  "0 < promo_credit_available_usd c e now \<Longrightarrow> promo_credit_available_usd c e now = c"
  by (auto simp: promo_credit_available_usd_def split: option.splits if_splits)

lemma window_limits_pos:
  "rolling_window_limits p = Some l \<Longrightarrow> 0 < wl_five l \<and> wl_five l < wl_week l"
  by (cases p) auto

lemma plan_allowance_limits_pos:
  "pa_limits (get_plan_allowance e v price) = Some l \<Longrightarrow> 0 < wl_five l \<and> wl_five l < wl_week l"
  by (auto simp: get_plan_allowance_def Let_def legacy_business_window_limits_def
      get_window_limits_for_plan_def dest!: window_limits_pos split: if_splits)

text \<open>Trimming and lower-casing leave a tier's name at the front of a decorated id.\<close>

lemma lower_plan_names:
  "js_lower ''free'' = ''free''" "js_lower ''basic'' = ''basic''" "js_lower ''pro'' = ''pro''"
  "js_lower ''business'' = ''business''" "js_lower ''enterprise'' = ''enterprise''"
  by code_simp+

lemma lower_plan_name: "js_lower (plan_name p) = plan_name p"
  by (cases p) (simp_all add: lower_plan_names)

lemma plan_name_head: "\<exists>c cs. plan_name p = c # cs \<and> \<not> js_space c"
  by (cases p) (simp_all add: js_space_def code_unit_def)

lemma js_trim_append:
  assumes "s = c # cs" and "\<not> js_space c" and "\<not> js_space (last s)"
  shows "\<exists>t'. js_trim (s @ t) = s @ t'"
proof -
  have "dropWhile js_space (s @ t) = s @ t" using assms by simp
  moreover have "\<exists>u. dropWhile js_space (rev t @ rev s) = u @ rev s"
  proof (cases "\<forall>x \<in> set t. js_space x")
    case True
    then have "dropWhile js_space (rev t @ rev s) = dropWhile js_space (rev s)"
      by (simp add: dropWhile_append)
    also have "\<dots> = rev s"
      using assms(3) by (cases s rule: rev_cases) simp_all
    finally show ?thesis by auto
  next
    case False
    then show ?thesis by (auto simp: dropWhile_append)
  qed
  then obtain u where "dropWhile js_space (rev t @ rev s) = u @ rev s" by blast
  ultimately show ?thesis by (simp add: js_trim_def)
qed

lemma plan_name_last: "\<not> js_space (last (plan_name p))"
  by (cases p) (simp_all add: js_space_def code_unit_def)

lemma normalize_decorated [simp]: "normalize_plan_id (Some (plan_name p @ s)) = Some p"
proof -
  obtain c cs where hd: "plan_name p = c # cs" "\<not> js_space c" using plan_name_head by blast
  have "js_lower (plan_name p @ s) = plan_name p @ js_lower s"
    using lower_plan_name [of p] by (simp add: js_lower_def)
  with js_trim_append [OF hd plan_name_last, of "js_lower s"] obtain t
    where t: "js_trim (js_lower (plan_name p @ s)) = plan_name p @ t" by auto
  have ne: "plan_name p @ s \<noteq> []" using hd by simp
  show ?thesis
    unfolding normalize_plan_id_def truthy_simps(3) [OF ne] option.case t Let_def
    by (cases p) (simp_all add: starts_with_def)
qed

section \<open>Properties\<close>

text \<open>Every decoration of a plan id (\<^verbatim>\<open>pro_200\<close>, \<^verbatim>\<open>business-monthly\<close>) resolves to its tier, and
  \<^verbatim>\<open>comparePlanRank\<close> orders two decorated ids as their tiers are ordered.\<close>

theorem compare_plan_rank_tiers:
  "normalize_plan_id (Some (plan_name p @ s)) = Some p
   \<and> (0 < compare_plan_rank (Some (plan_name p @ s)) (Some (plan_name q @ t)) \<longleftrightarrow> q < p)
   \<and> (compare_plan_rank (Some (plan_name p @ s)) (Some (plan_name q @ t)) = 0 \<longleftrightarrow> p = q)"
proof -
  have "plan_rank p = plan_rank q \<longleftrightarrow> p = q" by (cases p; cases q) simp_all
  then show ?thesis
    by (auto simp: compare_plan_rank_def plan_or_free_def less_plan_id_def)
qed

text \<open>The pricing claim the file's comments make. Basic and Business break even between 95.9\<percent>
  and 96\<percent> of a fully used weekly allowance, earn a 50\<percent> margin at half of that, and legacy Pro
  never loses money.\<close>

theorem break_even_utilization:
  "\<exists>b. get_break_even_utilization (Some ''basic'') = Some b
     \<and> get_break_even_utilization (Some ''business'') = Some b
     \<and> 959 / 1000 < b \<and> b < 96 / 100
     \<and> get_utilization_for_margin (Some ''basic'') (1 / 2) = Some (b / 2)
     \<and> get_utilization_for_margin (Some ''business'') (1 / 2) = Some (b / 2)
     \<and> (\<exists>u. get_break_even_utilization (Some ''pro'') = Some u \<and> 1 < u)
     \<and> get_break_even_utilization (Some ''enterprise'') = None"
proof -
  have n: "plan_or_free (Some ''basic'') = Basic" "plan_or_free (Some ''business'') = Business"
    "plan_or_free (Some ''pro'') = Pro" "plan_or_free (Some ''enterprise'') = Enterprise"
    by code_simp+
  show ?thesis
    by (rule exI [of _ "10752 / 11201"])
      (simp add: get_break_even_utilization_def get_utilization_for_margin_def n Let_def
        get_window_limits_for_plan_def weeks_per_month_def markup_multiplier_def,
       rule exI [of _ "3840 / 3409"], simp)
qed

text \<open>A Business seat keeps the allowance it was sold at. On the legacy price, or with no price
  id, it resolves to $9.90 a week and $40 a month; on any other price to today's ladder; no other
  plan is ever legacy.\<close>

theorem legacy_business_allowance:
  "(plan_or_free v = Business \<longrightarrow> is_legacy_business_price_id e price \<longrightarrow>
      pa_limits (get_plan_allowance e v price) = Some \<lparr>wl_five = 396 / 100, wl_week = 99 / 10\<rparr>
      \<and> pa_monthly_per_seat (get_plan_allowance e v price) = 40)
   \<and> (plan_or_free v \<noteq> Business \<or> \<not> is_legacy_business_price_id e price \<longrightarrow>
      pa_limits (get_plan_allowance e v price) = rolling_window_limits (plan_or_free v)
      \<and> pa_monthly_per_seat (get_plan_allowance e v price) = seat_included_usd (plan_or_free v)
      \<and> \<not> pa_legacy (get_plan_allowance e v price))
   \<and> (truthy price = None \<longrightarrow> is_legacy_business_price_id e price)"
  by (auto simp: get_plan_allowance_def Let_def legacy_business_window_limits_def
      legacy_business_seat_included_usd_def get_window_limits_for_plan_def
      is_legacy_business_price_id_def)

lemma legacy_business_allowance_witness:
  "pa_monthly_per_seat (get_plan_allowance
     \<lparr>pe_production = True, pe_basic_annual_v2 = [], pe_business_monthly_v2 = ''price_new'',
      pe_business_annual_v2 = []\<rparr> (Some ''business'') None) = 40"
  using legacy_business_allowance [of "Some ''business''" _ None] normalize_plan_names
  by (simp add: plan_or_free_def)

end
