(* ===== verification/Billing_Store.thy ===== *)
theory Billing_Store
  imports Usage_Plans
begin

text \<open>
  The rows the billing service reads and writes (\<^verbatim>\<open>prisma/schema.prisma\<close>), and its shared lookups:
  \<^verbatim>\<open>resolveBillingWorkspaceId\<close>, \<^verbatim>\<open>getActiveGrantsForWorkspace\<close>, \<^verbatim>\<open>getEffectivePlanId\<close>,
  \<^verbatim>\<open>resolveEffectivePlan\<close>, \<^verbatim>\<open>findSeatWindow\<close>, \<^verbatim>\<open>resolvePromoCreditSource\<close> of
  \<^verbatim>\<open>apps/api/src/services/billing.service.ts\<close>.

  A table with a unique column is a map from that column (wallets and subscriptions by workspace);
  the others are lists, in the order the database returns rows when the query gives none.
\<close>

section \<open>Rows\<close>

type_synonym ws_id = string

datatype ws_kind = Personal | Team

record workspace =
  w_kind :: ws_kind
  w_parent :: "ws_id option"

datatype member_role = Role_Owner | Role_Admin | Role_Member | Role_Viewer

text \<open>The two rolling windows; a wallet and a member row each hold a pair.\<close>

record counters =
  five_start :: "int option"
  five_used :: rat
  week_start :: "int option"
  week_used :: rat

record member =
  m_id :: string
  m_user :: string
  m_role :: member_role
  m_workspace :: "ws_id option"
  m_project :: "string option"
  m_created :: int
  m_counters :: counters

datatype sub_status = Active | Past_Due | Canceled | Trialing | Paused

record subscription =
  s_stripe_subscription :: string
  s_stripe_customer :: string
  s_plan :: string
  s_price :: "string option"
  s_seats :: int
  s_status :: sub_status
  s_annual :: bool
  s_period_start :: int
  s_period_end :: int
  s_cancel_at_end :: bool

record grant =
  g_workspace :: ws_id
  g_free_seats :: int
  g_monthly :: rat
  g_plan :: "string option"
  g_starts :: int
  g_expires :: "int option"

record wallet =
  uw_monthly_included :: rat
  uw_daily_included :: rat
  uw_monthly_allocation :: rat
  uw_daily_used :: rat
  uw_overage_enabled :: bool
  uw_hard_limit :: "rat option"
  uw_accumulated :: rat
  uw_billed :: rat
  uw_paid_blocks :: int
  uw_outstanding :: "string option"
  uw_outstanding_usd :: rat
  uw_outstanding_url :: "string option"
  uw_alerts :: "string list"
  uw_anniversary :: int
  uw_last_daily :: int
  uw_last_monthly :: int
  uw_counters :: counters
  uw_promo :: rat
  uw_promo_expires :: "int option"

datatype usage_source = Src_Daily | Src_Monthly | Src_Overage | Src_Window | Src_Promo

record usage_event =
  e_workspace :: ws_id
  e_project :: "string option"
  e_member :: string
  e_action :: string
  e_raw :: "rat option"
  e_billed :: rat
  e_source :: usage_source
  e_before :: rat
  e_after :: rat

text \<open>\<^verbatim>\<open>promoSourceCache\<close> is module state of the service, not a table: a rolled-back transaction
  leaves it as it is.\<close>

record promo_entry =
  pe_kind :: "ws_kind option"
  pe_credit_workspace :: "ws_id option"
  pe_expires :: int

record billing =
  b_workspaces :: "(ws_id \<times> workspace) list"
  b_projects :: "string list"
  b_members :: "member list"
  b_subs :: "ws_id \<rightharpoonup> subscription"
  b_grants :: "grant list"
  b_wallets :: "ws_id \<rightharpoonup> wallet"
  b_events :: "usage_event list"
  b_promo_cache :: "ws_id \<rightharpoonup> promo_entry"

text \<open>\<^verbatim>\<open>isLocalMode\<close>, the environment's prices, and whether \<^verbatim>\<open>STRIPE_SECRET_KEY\<close> is set.\<close>

record billing_env =
  be_local :: bool
  be_prices :: price_env
  be_stripe_key :: bool

text \<open>Schema defaults of a new wallet row.\<close>

definition fresh_counters :: counters where
  "fresh_counters = \<lparr>five_start = None, five_used = 0, week_start = None, week_used = 0\<rparr>"

definition new_wallet :: "int \<Rightarrow> wallet" where
  "new_wallet now =
     \<lparr>uw_monthly_included = 0, uw_daily_included = 0, uw_monthly_allocation = 0, uw_daily_used = 0,
      uw_overage_enabled = True, uw_hard_limit = None, uw_accumulated = 0, uw_billed = 0,
      uw_paid_blocks = 0, uw_outstanding = None, uw_outstanding_usd = 0, uw_outstanding_url = None,
      uw_alerts = [], uw_anniversary = utc_date now, uw_last_daily = now, uw_last_monthly = now,
      uw_counters = fresh_counters, uw_promo = 0, uw_promo_expires = None\<rparr>"

section \<open>Writes\<close>

text \<open>\<^verbatim>\<open>update\<close> of a wallet that exists; \<^verbatim>\<open>updateMany\<close> with an empty match is the identity too.\<close>

definition update_wallet :: "ws_id \<Rightarrow> (wallet \<Rightarrow> wallet) \<Rightarrow> billing \<Rightarrow> billing" where
  "update_wallet ws f b =
     (case b_wallets b ws of
        None \<Rightarrow> b
      | Some w \<Rightarrow> b\<lparr>b_wallets := (b_wallets b)(ws \<mapsto> f w)\<rparr>)"

text \<open>\<^verbatim>\<open>create\<close> and the create branch of \<^verbatim>\<open>upsert\<close>: the foreign key needs the workspace row.\<close>

definition put_wallet :: "ws_id \<Rightarrow> wallet \<Rightarrow> billing \<Rightarrow> billing option" where
  "put_wallet ws w b =
     (if om_get (b_workspaces b) ws = None then None
      else Some (b\<lparr>b_wallets := (b_wallets b)(ws \<mapsto> w)\<rparr>))"

definition update_member :: "string \<Rightarrow> counters \<Rightarrow> billing \<Rightarrow> billing" where
  "update_member i c b =
     b\<lparr>b_members := map (\<lambda>m. if m_id m = i then m\<lparr>m_counters := c\<rparr> else m) (b_members b)\<rparr>"

lemma update_wallet_get:
  "b_wallets (update_wallet ws f b) ws' =
     (if ws' = ws then map_option f (b_wallets b ws) else b_wallets b ws')"
  by (auto simp: update_wallet_def split: option.splits)

lemma update_wallet_frame [frame_simps, simp]:
  "b_workspaces (update_wallet ws f b) = b_workspaces b"
  "b_projects (update_wallet ws f b) = b_projects b"
  "b_members (update_wallet ws f b) = b_members b"
  "b_subs (update_wallet ws f b) = b_subs b"
  "b_grants (update_wallet ws f b) = b_grants b"
  "b_events (update_wallet ws f b) = b_events b"
  "b_promo_cache (update_wallet ws f b) = b_promo_cache b"
  by (simp_all add: update_wallet_def split: option.splits)

lemma update_member_frame [frame_simps, simp]:
  "b_workspaces (update_member i c b) = b_workspaces b"
  "b_projects (update_member i c b) = b_projects b"
  "b_wallets (update_member i c b) = b_wallets b"
  "b_subs (update_member i c b) = b_subs b"
  "b_grants (update_member i c b) = b_grants b"
  "b_events (update_member i c b) = b_events b"
  "b_promo_cache (update_member i c b) = b_promo_cache b"
  by (simp_all add: update_member_def)

section \<open>Plans and entitlements\<close>

definition system_workspace_id :: ws_id where
  "system_workspace_id = ''system''"

definition resolve_billing_workspace_id :: "billing_env \<Rightarrow> billing \<Rightarrow> ws_id \<Rightarrow> ws_id" where
  "resolve_billing_workspace_id env b ws =
     (if be_local env then ws
      else if ws = system_workspace_id then ws
      else case om_get (b_workspaces b) ws of
             None \<Rightarrow> ws
           | Some r \<Rightarrow> (case w_parent r of None \<Rightarrow> ws | Some p \<Rightarrow> p))"

text \<open>\<^verbatim>\<open>subscription.findFirst\<close> with status active or trialing.\<close>

definition active_sub :: "billing \<Rightarrow> ws_id \<Rightarrow> subscription option" where
  "active_sub b ws =
     (case b_subs b ws of
        None \<Rightarrow> None
      | Some s \<Rightarrow> if s_status s = Active \<or> s_status s = Trialing then Some s else None)"

definition grant_active :: "int \<Rightarrow> grant \<Rightarrow> bool" where
  "grant_active now g \<longleftrightarrow>
     g_starts g \<le> now \<and> (case g_expires g of None \<Rightarrow> True | Some t \<Rightarrow> now < t)"

record grant_sum =
  gs_free_seats :: int
  gs_monthly :: rat
  gs_plan :: "string option"
  gs_rows :: nat

definition add_grant :: "grant_sum \<Rightarrow> grant \<Rightarrow> grant_sum" where
  "add_grant acc r =
     \<lparr>gs_free_seats = gs_free_seats acc + g_free_seats r,
      gs_monthly = gs_monthly acc + g_monthly r,
      gs_plan = (if truthy (g_plan r) \<noteq> None \<and> 0 < compare_plan_rank (g_plan r) (gs_plan acc)
                 then g_plan r else gs_plan acc),
      gs_rows = gs_rows acc + 1\<rparr>"

definition get_active_grants_for_workspace :: "billing \<Rightarrow> ws_id \<Rightarrow> int \<Rightarrow> grant_sum" where
  "get_active_grants_for_workspace b ws now =
     foldl add_grant \<lparr>gs_free_seats = 0, gs_monthly = 0, gs_plan = None, gs_rows = 0\<rparr>
       (filter (\<lambda>g. g_workspace g = ws \<and> grant_active now g) (b_grants b))"

definition get_effective_plan_id :: "billing_env \<Rightarrow> billing \<Rightarrow> ws_id \<Rightarrow> int \<Rightarrow> plan_id" where
  "get_effective_plan_id env b ws now =
     (let bws = resolve_billing_workspace_id env b ws
      in case active_sub b bws of
           Some s \<Rightarrow> plan_or_free (Some (s_plan s))
         | None \<Rightarrow> plan_or_free (gs_plan (get_active_grants_for_workspace b bws now)))"

definition is_paid_plan :: "plan_id \<Rightarrow> bool" where
  "is_paid_plan p \<longleftrightarrow> plan_rank Basic \<le> plan_rank p"

record effective_plan =
  ep_limits :: "window_limits option"
  ep_paid_tier :: bool

definition resolve_effective_plan :: "billing_env \<Rightarrow> billing \<Rightarrow> ws_id \<Rightarrow> int \<Rightarrow> effective_plan" where
  "resolve_effective_plan env b ws now =
     (case active_sub b ws of
        Some s \<Rightarrow>
          let p = plan_or_free (Some (s_plan s))
          in \<lparr>ep_limits = pa_limits (get_plan_allowance (be_prices env) (Some (plan_name p)) (s_price s)),
              ep_paid_tier = is_paid_plan p\<rparr>
      | None \<Rightarrow>
          let p = plan_or_free (gs_plan (get_active_grants_for_workspace b ws now))
          in \<lparr>ep_limits = get_window_limits_for_plan (Some (plan_name p)),
              ep_paid_tier = is_paid_plan p\<rparr>)"

text \<open>The plan gates (\<^verbatim>\<open>hasPaidSubscription\<close> and the four beside it).\<close>

definition plan_at_least :: "plan_id \<Rightarrow> billing_env \<Rightarrow> billing \<Rightarrow> ws_id \<Rightarrow> int \<Rightarrow> bool" where
  "plan_at_least least env b ws now \<longleftrightarrow>
     be_local env \<or> plan_rank least \<le> plan_rank (get_effective_plan_id env b ws now)"

definition has_paid_subscription :: "billing_env \<Rightarrow> billing \<Rightarrow> ws_id \<Rightarrow> int \<Rightarrow> bool" where
  "has_paid_subscription = plan_at_least Basic"

definition has_advanced_model_access :: "billing_env \<Rightarrow> billing \<Rightarrow> ws_id \<Rightarrow> int \<Rightarrow> bool" where
  "has_advanced_model_access = plan_at_least Pro"

definition can_publish_subdomain :: "billing_env \<Rightarrow> billing \<Rightarrow> ws_id \<Rightarrow> int \<Rightarrow> bool" where
  "can_publish_subdomain = plan_at_least Pro"

definition can_use_native_release :: "billing_env \<Rightarrow> billing \<Rightarrow> ws_id \<Rightarrow> int \<Rightarrow> bool" where
  "can_use_native_release = plan_at_least Basic"

definition is_business_or_higher_plan :: "billing_env \<Rightarrow> billing \<Rightarrow> ws_id \<Rightarrow> int \<Rightarrow> bool" where
  "is_business_or_higher_plan = plan_at_least Business"

definition get_always_on_allowance_for_workspace ::
  "billing_env \<Rightarrow> billing \<Rightarrow> ws_id \<Rightarrow> int \<Rightarrow> int option" where
  "get_always_on_allowance_for_workspace env b ws now =
     (if be_local env then None
      else
        let bws = resolve_billing_workspace_id env b ws;
            plan = get_effective_plan_id env b bws now;
            sub_seats = (case active_sub b bws of None \<Rightarrow> 0 | Some s \<Rightarrow> s_seats s);
            seats = max 1 (sub_seats + gs_free_seats (get_active_grants_for_workspace b bws now))
        in get_always_on_allowance (Some (plan_name plan)) seats)"

text \<open>\<^verbatim>\<open>canEnableAlwaysOn\<close>; \<open>used\<close> is the count of other live always-on projects, a query on the
  project table.\<close>

record always_on_check =
  ao_allowed :: bool
  ao_plan_allows :: bool
  ao_allowance :: "int option"
  ao_used :: nat

definition can_enable_always_on :: "billing_env \<Rightarrow> billing \<Rightarrow> ws_id \<Rightarrow> nat \<Rightarrow> int \<Rightarrow> always_on_check" where
  "can_enable_always_on env b ws used now =
     (if be_local env
      then \<lparr>ao_allowed = True, ao_plan_allows = True, ao_allowance = None, ao_used = 0\<rparr>
      else
        let a = get_always_on_allowance_for_workspace env b ws now
        in \<lparr>ao_allowed = (case a of None \<Rightarrow> True | Some n \<Rightarrow> int used < n),
            ao_plan_allows = (case a of None \<Rightarrow> True | Some n \<Rightarrow> 0 < n),
            ao_allowance = a, ao_used = used\<rparr>)"

section \<open>Windows and seats\<close>

record rolled =
  ro_start :: int
  ro_used :: rat

definition roll_window :: "int option \<Rightarrow> rat \<Rightarrow> int \<Rightarrow> int \<Rightarrow> rolled" where
  "roll_window start used now duration =
     (case start of
        None \<Rightarrow> \<lparr>ro_start = now, ro_used = 0\<rparr>
      | Some s \<Rightarrow>
          if duration \<le> now - s then \<lparr>ro_start = now, ro_used = 0\<rparr>
          else \<lparr>ro_start = s, ro_used = used\<rparr>)"

definition roll_five :: "counters \<Rightarrow> int \<Rightarrow> rolled" where
  "roll_five c now = roll_window (five_start c) (five_used c) now five_hour_ms"

definition roll_week :: "counters \<Rightarrow> int \<Rightarrow> rolled" where
  "roll_week c now = roll_window (week_start c) (week_used c) now seven_day_ms"

text \<open>The row of the caller's own seat.\<close>

definition is_seat :: "string \<Rightarrow> ws_id \<Rightarrow> member \<Rightarrow> bool" where
  "is_seat user ws m \<longleftrightarrow> m_user m = user \<and> m_workspace m = Some ws \<and> m_project m = None"

definition find_seat_window :: "billing \<Rightarrow> string option \<Rightarrow> ws_id \<Rightarrow> member option" where
  "find_seat_window b member ws =
     (case truthy member of
        None \<Rightarrow> None
      | Some u \<Rightarrow> if u = ''system'' then None else find (is_seat u ws) (b_members b))"

datatype window_kind = Five_Hour | Weekly

definition blocking_window :: "bool \<Rightarrow> bool \<Rightarrow> int \<Rightarrow> int \<Rightarrow> window_kind \<times> int" where
  "blocking_window fits_five fits_week five week =
     (let five_resets = five + five_hour_ms;
          week_resets = week + seven_day_ms
      in if \<not> fits_five \<and> \<not> fits_week
         then (if five_resets \<le> week_resets then (Weekly, week_resets) else (Five_Hour, five_resets))
         else if \<not> fits_week then (Weekly, week_resets)
         else (Five_Hour, five_resets))"

section \<open>Signup promo credit\<close>

definition promo_source_ttl_ms :: int where
  "promo_source_ttl_ms = 5 * 60 * 1000"

record promo_source =
  ps_wallet :: ws_id
  ps_available :: rat

definition wallet_promo :: "wallet option \<Rightarrow> int \<Rightarrow> rat" where
  "wallet_promo w now =
     (case w of
        None \<Rightarrow> 0
      | Some x \<Rightarrow> promo_credit_available_usd (uw_promo x) (uw_promo_expires x) now)"

text \<open>The two member queries: the personal workspace's owner, and that user's first (oldest)
  top-level team workspace.\<close>

definition owner_of :: "billing \<Rightarrow> ws_id \<Rightarrow> string option" where
  "owner_of b ws =
     map_option m_user
       (find (\<lambda>m. m_workspace m = Some ws \<and> m_role m = Role_Owner \<and> m_project m = None) (b_members b))"

definition is_top_level_team :: "billing \<Rightarrow> ws_id option \<Rightarrow> bool" where
  "is_top_level_team b ws =
     (case ws of
        None \<Rightarrow> False
      | Some i \<Rightarrow>
          (case om_get (b_workspaces b) i of
             None \<Rightarrow> False
           | Some r \<Rightarrow> w_kind r = Team \<and> w_parent r = None))"

definition credit_workspace_of :: "billing \<Rightarrow> string \<Rightarrow> ws_id option" where
  "credit_workspace_of b user =
     (case sort_key m_created
             (filter (\<lambda>m. m_user m = user \<and> m_role m = Role_Owner \<and> m_project m = None
                \<and> is_top_level_team b (m_workspace m)) (b_members b)) of
        [] \<Rightarrow> None
      | m # _ \<Rightarrow> m_workspace m)"

definition lookup_promo_entry :: "billing \<Rightarrow> ws_id \<Rightarrow> int \<Rightarrow> promo_entry" where
  "lookup_promo_entry b ws now =
     (let kind = map_option w_kind (om_get (b_workspaces b) ws);
          credit =
            (if kind = Some Personal
             then (case truthy (owner_of b ws) of
                     None \<Rightarrow> None
                   | Some u \<Rightarrow>
                       (case truthy (credit_workspace_of b u) of
                          None \<Rightarrow> None
                        | Some i \<Rightarrow> if i = ws then None else Some i))
             else None)
      in \<lparr>pe_kind = kind, pe_credit_workspace = credit, pe_expires = now + promo_source_ttl_ms\<rparr>)"

definition live_promo_entry :: "billing \<Rightarrow> ws_id \<Rightarrow> int \<Rightarrow> promo_entry option" where
  "live_promo_entry b ws now =
     (case b_promo_cache b ws of
        None \<Rightarrow> None
      | Some e \<Rightarrow> if now < pe_expires e then Some e else None)"

definition resolve_promo_credit_source ::
  "billing \<Rightarrow> ws_id \<Rightarrow> wallet option \<Rightarrow> int \<Rightarrow> promo_source option \<times> billing" where
  "resolve_promo_credit_source b ws own now =
     (let own_available = wallet_promo own now
      in if 0 < own_available then (Some \<lparr>ps_wallet = ws, ps_available = own_available\<rparr>, b)
         else
           let (entry, b') =
                 (case live_promo_entry b ws now of
                    Some e \<Rightarrow> (e, b)
                  | None \<Rightarrow>
                      let e = lookup_promo_entry b ws now
                      in (e, b\<lparr>b_promo_cache := (b_promo_cache b)(ws \<mapsto> e)\<rparr>))
           in case (pe_kind entry, truthy (pe_credit_workspace entry)) of
                (Some Personal, Some i) \<Rightarrow>
                  let available = wallet_promo (b_wallets b' i) now
                  in (if 0 < available then Some \<lparr>ps_wallet = i, ps_available = available\<rparr> else None, b')
              | _ \<Rightarrow> (None, b'))"

section \<open>Lemmas\<close>

subsection \<open>Windows\<close>

lemma roll_window_cases:
  obtains (reopened) "roll_window start used now d = \<lparr>ro_start = now, ro_used = 0\<rparr>"
  | (kept) s where "start = Some s" "now < s + d"
      "roll_window start used now d = \<lparr>ro_start = s, ro_used = used\<rparr>"
  by (cases start; cases "\<forall>s. start = Some s \<longrightarrow> d \<le> now - s") (auto simp: roll_window_def)

lemma roll_window_ahead: "0 < d \<Longrightarrow> now < ro_start (roll_window start used now d) + d"
  by (cases rule: roll_window_cases [of start used now d]) auto

lemma roll_window_used_le: "0 \<le> l \<Longrightarrow> used \<le> l \<Longrightarrow> ro_used (roll_window start used now d) \<le> l"
  by (cases rule: roll_window_cases [of start used now d]) auto

lemma roll_window_used_nonneg: "0 \<le> used \<Longrightarrow> 0 \<le> ro_used (roll_window start used now d)"
  by (cases rule: roll_window_cases [of start used now d]) auto

text \<open>Once the window read at \<open>now\<close> has elapsed, it reads as empty; before, it reads the same or empty.\<close>

lemma roll_window_later_used:
  "now \<le> t \<Longrightarrow> ro_used (roll_window start used t d)
     \<in> {0, ro_used (roll_window start used now d)}"
  by (auto simp: roll_window_def split: option.splits)

lemma roll_window_elapsed:
  "now \<le> t \<Longrightarrow> ro_start (roll_window start used now d) + d \<le> t \<Longrightarrow>
   ro_used (roll_window start used t d) = 0"
  by (auto simp: roll_window_def split: option.splits if_splits)

lemma five_hour_pos [simp]: "0 < five_hour_ms"
  by (simp add: five_hour_ms_def)

lemma seven_day_pos [simp]: "0 < seven_day_ms"
  by (simp add: seven_day_ms_def)

lemmas roll_defs = roll_five_def roll_week_def

text \<open>\<^verbatim>\<open>blockingWindow\<close> names a window that does not fit, and the latest reset of those that do not.\<close>

lemma blocking_window_spec:
  assumes "\<not> (ff \<and> fw)" and "blocking_window ff fw five week = (k, r)"
  shows "(k = Five_Hour \<longrightarrow> \<not> ff) \<and> (k = Weekly \<longrightarrow> \<not> fw)
    \<and> (\<not> ff \<longrightarrow> five + five_hour_ms \<le> r) \<and> (\<not> fw \<longrightarrow> week + seven_day_ms \<le> r)
    \<and> (r = five + five_hour_ms \<or> r = week + seven_day_ms)"
  using assms by (auto simp: blocking_window_def Let_def split: if_splits)

subsection \<open>Seats\<close>

lemma find_seat_window_Some:
  assumes "find_seat_window b u ws = Some m"
  shows "m \<in> set (b_members b) \<and> m_workspace m = Some ws \<and> m_project m = None \<and> u = Some (m_user m)
    \<and> m_user m \<noteq> [] \<and> m_user m \<noteq> ''system''"
proof -
  from assms obtain v where v: "truthy u = Some v" "v \<noteq> ''system''"
    and f: "find (is_seat v ws) (b_members b) = Some m"
    by (auto simp: find_seat_window_def split: option.splits if_splits)
  from f have "is_seat v ws m \<and> m \<in> set (b_members b)"
    by (auto simp: find_Some_iff)
  with v show ?thesis by (auto simp: is_seat_def truthy_Some_iff)
qed

lemma find_seat_window_cong:
  "b_members b' = b_members b \<Longrightarrow> find_seat_window b' u ws = find_seat_window b u ws"
  by (simp add: find_seat_window_def split: option.split)

lemma find_map_inert:
  "(\<And>x. x \<in> set xs \<Longrightarrow> P (f x) = P x) \<Longrightarrow> find P (map f xs) = map_option f (find P xs)"
  by (induction xs) auto

subsection \<open>Promo credit\<close>

lemma resolve_promo_pos:
  "resolve_promo_credit_source b ws own now = (Some p, b') \<Longrightarrow> 0 < ps_available p"
  by (auto simp: resolve_promo_credit_source_def Let_def split: if_splits prod.splits option.splits ws_kind.splits)

lemma resolve_promo_available:
  assumes "resolve_promo_credit_source b ws (b_wallets b ws) now = (Some p, b')"
  shows "0 < ps_available p \<and> ps_available p = wallet_promo (b_wallets b (ps_wallet p)) now"
  using assms
  by (auto simp: resolve_promo_credit_source_def Let_def split: if_splits prod.splits option.splits ws_kind.splits)

lemma resolve_promo_wallet:
  assumes "resolve_promo_credit_source b ws (b_wallets b ws) now = (Some p, b')"
  shows "\<exists>w t. b_wallets b (ps_wallet p) = Some w \<and> ps_available p = uw_promo w
    \<and> uw_promo_expires w = Some t \<and> now < t \<and> 0 < uw_promo w"
proof -
  from resolve_promo_available [OF assms]
  have pos: "0 < wallet_promo (b_wallets b (ps_wallet p)) now"
    and eq: "ps_available p = wallet_promo (b_wallets b (ps_wallet p)) now" by simp_all
  from pos obtain w where w: "b_wallets b (ps_wallet p) = Some w"
    by (auto simp: wallet_promo_def split: option.splits)
  with pos eq show ?thesis
    using promo_credit_pos_iff [of "uw_promo w" "uw_promo_expires w" now]
      promo_credit_pos_eq [of "uw_promo w" "uw_promo_expires w" now]
    by (auto simp: wallet_promo_def)
qed

lemma resolve_promo_frame:
  assumes "resolve_promo_credit_source b ws own now = (p, b')"
  shows "b_workspaces b' = b_workspaces b \<and> b_projects b' = b_projects b
    \<and> b_members b' = b_members b \<and> b_subs b' = b_subs b \<and> b_grants b' = b_grants b
    \<and> b_wallets b' = b_wallets b \<and> b_events b' = b_events b"
  using assms
  by (auto simp: resolve_promo_credit_source_def Let_def split: if_splits prod.splits option.splits ws_kind.splits)

subsection \<open>Plans\<close>

lemma effective_limits_pos:
  "ep_limits (resolve_effective_plan env b ws now) = Some l \<Longrightarrow> 0 < wl_five l \<and> wl_five l < wl_week l"
  by (auto simp: resolve_effective_plan_def Let_def get_window_limits_for_plan_def
      dest: plan_allowance_limits_pos window_limits_pos split: option.splits)

lemma effective_plan_cong:
  "b_subs b' = b_subs b \<Longrightarrow> b_grants b' = b_grants b \<Longrightarrow>
   resolve_effective_plan env b' ws now = resolve_effective_plan env b ws now"
  by (simp add: resolve_effective_plan_def active_sub_def get_active_grants_for_workspace_def Let_def
      split: option.split)

lemma paid_plan_iff [simp]: "is_paid_plan p \<longleftrightarrow> p \<noteq> Free"
  by (cases p) (simp_all add: is_paid_plan_def)

text \<open>A workspace with an active subscription: the plan is the subscription's, at every time.\<close>

lemma effective_plan_sub:
  "active_sub b ws = Some s \<Longrightarrow>
   resolve_effective_plan env b ws now =
     \<lparr>ep_limits = pa_limits (get_plan_allowance (be_prices env)
        (Some (plan_name (plan_or_free (Some (s_plan s))))) (s_price s)),
      ep_paid_tier = is_paid_plan (plan_or_free (Some (s_plan s)))\<rparr>"
  by (simp add: resolve_effective_plan_def Let_def)

end
