(* ===== verification/Billing_Wallet.thy ===== *)
theory Billing_Wallet
  imports Billing_Store
begin

text \<open>
  Provisioning a usage wallet and settling its overage (\<^verbatim>\<open>billing.service.ts\<close>): the free, grant and
  subscription allocations, \<^verbatim>\<open>setUsageBasedPricing\<close>, the paid-trust ladder, the block charge split at
  its awaits (read, invoice, conditional claim), and the settle and release of an invoice. Stripe
  is a record of functions (what the calls return); everything else is the store of
  \<^verbatim>\<open>Billing_Store\<close>. A write that violates the workspace foreign key raises: \<^const>\<open>None\<close>.
\<close>

section \<open>Overage ladder\<close>

definition overage_starter_block_usd :: rat where "overage_starter_block_usd = 25"
definition overage_starter_blocks :: int where "overage_starter_blocks = 4"
definition overage_block_step_usd :: rat where "overage_block_step_usd = 100"
definition overage_block_max_usd :: rat where "overage_block_max_usd = 500"

definition overage_block_usd :: "int \<Rightarrow> rat" where
  "overage_block_usd paid_blocks =
     (let paid = max 0 paid_blocks
      in if paid < overage_starter_blocks then overage_starter_block_usd
         else min overage_block_max_usd
                (overage_block_step_usd * of_int (paid - overage_starter_blocks + 1)))"

definition carry_overage_into_new_period :: "wallet \<Rightarrow> wallet" where
  "carry_overage_into_new_period w =
     w\<lparr>uw_accumulated := max 0 (uw_accumulated w - uw_billed w), uw_billed := 0\<rparr>"

definition grant_only_overage_hard_limit_usd :: rat where
  "grant_only_overage_hard_limit_usd = 5"

section \<open>Provisioning\<close>

definition apply_grant_monthly_allocation_local :: "billing \<Rightarrow> ws_id \<Rightarrow> int \<Rightarrow> billing option" where
  "apply_grant_monthly_allocation_local b ws now =
     (let grant = get_active_grants_for_workspace b ws now;
          plan = plan_or_free (gs_plan grant);
          seats = max 1 (gs_free_seats grant);
          included = get_monthly_included_for_plan (plan_name plan) seats + gs_monthly grant;
          paid_grant = is_paid_plan plan;
          cap_applies = paid_grant \<and> active_sub b ws = None;
          cap = (if cap_applies then Some grant_only_overage_hard_limit_usd else None)
      in case b_wallets b ws of
           None \<Rightarrow>
             put_wallet ws ((new_wallet now)
               \<lparr>uw_monthly_included := included, uw_monthly_allocation := included,
                uw_daily_included := get_daily_included_for_plan (Some (plan_name plan)),
                uw_overage_enabled := paid_grant, uw_hard_limit := cap\<rparr>) b
         | Some w \<Rightarrow>
             Some (update_wallet ws (\<lambda>w. w
               \<lparr>uw_monthly_included := included, uw_monthly_allocation := included,
                uw_daily_used := 0, uw_accumulated := 0, uw_billed := 0, uw_last_monthly := now,
                uw_overage_enabled := (if paid_grant then True else uw_overage_enabled w),
                uw_hard_limit := (if cap_applies then cap else uw_hard_limit w)\<rparr>) b))"

definition allocate_free_wallet_local :: "billing_env \<Rightarrow> billing \<Rightarrow> ws_id \<Rightarrow> int \<Rightarrow> billing option" where
  "allocate_free_wallet_local env b ws0 now =
     (let ws = resolve_billing_workspace_id env b ws0
      in case b_wallets b ws of
           Some w \<Rightarrow> Some b
         | None \<Rightarrow>
             let grant = get_active_grants_for_workspace b ws now
             in (case normalize_plan_id (gs_plan grant) of
                   Some p \<Rightarrow>
                     if is_paid_plan p then apply_grant_monthly_allocation_local b ws now
                     else put_wallet ws ((new_wallet now)
                       \<lparr>uw_monthly_included := seat_included_usd Free + gs_monthly grant,
                        uw_monthly_allocation := seat_included_usd Free + gs_monthly grant,
                        uw_daily_included := free_daily_included_usd, uw_overage_enabled := False\<rparr>) b
                 | None \<Rightarrow>
                     put_wallet ws ((new_wallet now)
                       \<lparr>uw_monthly_included := seat_included_usd Free + gs_monthly grant,
                        uw_monthly_allocation := seat_included_usd Free + gs_monthly grant,
                        uw_daily_included := free_daily_included_usd, uw_overage_enabled := False\<rparr>) b))"

text \<open>\<open>price\<close>: \<^const>\<open>None\<close> is an absent argument (look it up), \<open>Some v\<close> the value passed.\<close>

definition allocate_monthly_included_local ::
  "billing_env \<Rightarrow> billing \<Rightarrow> ws_id \<Rightarrow> string \<Rightarrow> int \<Rightarrow> string option option \<Rightarrow> int \<Rightarrow> billing option" where
  "allocate_monthly_included_local env b ws plan seats price now =
     (let grant = get_active_grants_for_workspace b ws now;
          price_id = (case price of
              Some v \<Rightarrow> v
            | None \<Rightarrow> (case active_sub b ws of None \<Rightarrow> None | Some s \<Rightarrow> s_price s));
          total_seats = safe_seats seats + gs_free_seats grant;
          included =
            get_monthly_included_for_plan_and_price (be_prices env) plan total_seats price_id
            + gs_monthly grant
      in case b_wallets b ws of
           None \<Rightarrow>
             put_wallet ws ((new_wallet now)
               \<lparr>uw_monthly_included := included, uw_monthly_allocation := included,
                uw_daily_included := get_daily_included_for_plan (Some plan),
                uw_overage_enabled := True\<rparr>) b
         | Some w \<Rightarrow>
             Some (update_wallet ws (\<lambda>w. (carry_overage_into_new_period w)
               \<lparr>uw_monthly_included := included, uw_monthly_allocation := included,
                uw_alerts := [], uw_overage_enabled := True,
                uw_hard_limit := (if uw_hard_limit w = Some grant_only_overage_hard_limit_usd
                                  then None else uw_hard_limit w),
                uw_last_monthly := now\<rparr>) b))"

datatype billing_error = Overage_Requires_Subscription | Foreign_Key_Violation

definition raise_on_None :: "'e \<Rightarrow> 'a option \<Rightarrow> 'e + 'a" where
  "raise_on_None e r = (case r of None \<Rightarrow> Inl e | Some x \<Rightarrow> Inr x)"

definition set_usage_based_pricing_local ::
  "billing_env \<Rightarrow> billing \<Rightarrow> ws_id \<Rightarrow> bool \<Rightarrow> rat option \<Rightarrow> int \<Rightarrow> billing_error + billing" where
  "set_usage_based_pricing_local env b ws0 enabled limit now =
     (let ws = resolve_billing_workspace_id env b ws0;
          write = (\<lambda>hard. case b_wallets b ws of
              None \<Rightarrow>
                raise_on_None Foreign_Key_Violation
                  (put_wallet ws ((new_wallet now)\<lparr>uw_overage_enabled := enabled, uw_hard_limit := hard\<rparr>) b)
            | Some w \<Rightarrow>
                Inr (update_wallet ws (\<lambda>w. w\<lparr>uw_overage_enabled := enabled, uw_hard_limit := hard\<rparr>) b))
      in if enabled \<and> active_sub b ws = None
         then (case normalize_plan_id (gs_plan (get_active_grants_for_workspace b ws now)) of
                 None \<Rightarrow> Inl Overage_Requires_Subscription
               | Some p \<Rightarrow>
                   if \<not> is_paid_plan p then Inl Overage_Requires_Subscription
                   else write (Some (min (case limit of None \<Rightarrow> grant_only_overage_hard_limit_usd | Some l \<Rightarrow> l)
                                         grant_only_overage_hard_limit_usd)))
         else write limit)"

section \<open>Charging a block\<close>

text \<open>What \<^verbatim>\<open>chargeOverageBlocks\<close> holds between its awaits: the snapshot it read, the amount it asks
  Stripe for, and the idempotency key (workspace, trust level, cents already billed).\<close>

definition js_round :: "rat \<Rightarrow> int" where
  "js_round x = \<lfloor>x + 1 / 2\<rfloor>"

record charge_intent =
  ci_workspace :: ws_id
  ci_amount :: rat
  ci_cents :: int
  ci_billed :: rat
  ci_key :: "ws_id \<times> int \<times> int"
  ci_customer :: string

definition charge_begin :: "billing_env \<Rightarrow> billing \<Rightarrow> ws_id \<Rightarrow> charge_intent option" where
  "charge_begin env b ws =
     (if \<not> be_stripe_key env then None
      else case b_wallets b ws of
        None \<Rightarrow> None
      | Some w \<Rightarrow>
          if truthy (uw_outstanding w) \<noteq> None then None
          else
            let total = overage_block_usd (uw_paid_blocks w)
            in if uw_accumulated w - uw_billed w < total then None
               else case active_sub b ws of
                      None \<Rightarrow> None
                    | Some s \<Rightarrow>
                        (case truthy (Some (s_stripe_customer s)) of
                           None \<Rightarrow> None
                         | Some c \<Rightarrow>
                             Some \<lparr>ci_workspace = ws, ci_amount = total, ci_cents = js_round (total * 100),
                                   ci_billed = uw_billed w,
                                   ci_key = (ws, uw_paid_blocks w, js_round (uw_billed w * 100)),
                                   ci_customer = c\<rparr>))"

text \<open>A finalized invoice, and what Stripe answers: \<open>None\<close> stands for a call that throws.\<close>

record invoice =
  iv_id :: string
  iv_total :: "int option"
  iv_paid :: bool
  iv_url :: "string option"

record stripe =
  st_finalize :: "charge_intent \<Rightarrow> invoice option"
  st_pay :: "string \<Rightarrow> bool option"

definition charge_amount_ok :: "charge_intent \<Rightarrow> invoice \<Rightarrow> bool" where
  "charge_amount_ok i v = (case iv_total v of None \<Rightarrow> True | Some t \<Rightarrow> t = ci_cents i)"

text \<open>The conditional \<^verbatim>\<open>updateMany\<close>; the flag is \<^verbatim>\<open>claimed.count > 0\<close>.\<close>

definition charge_claim :: "billing \<Rightarrow> charge_intent \<Rightarrow> invoice \<Rightarrow> billing \<times> bool" where
  "charge_claim b i v =
     (case b_wallets b (ci_workspace i) of
        None \<Rightarrow> (b, False)
      | Some w \<Rightarrow>
          if uw_outstanding w = None \<and> uw_billed w = ci_billed i
          then (update_wallet (ci_workspace i) (\<lambda>w. w
                  \<lparr>uw_billed := uw_billed w + ci_amount i, uw_outstanding := Some (iv_id v),
                   uw_outstanding_usd := ci_amount i, uw_outstanding_url := iv_url v\<rparr>) b, True)
          else (b, False))"

text \<open>The settle and the release: conditional on the invoice that is outstanding.\<close>

definition settle_wallet :: "wallet \<Rightarrow> wallet" where
  "settle_wallet w =
     w\<lparr>uw_outstanding := None, uw_outstanding_usd := 0, uw_outstanding_url := None,
       uw_paid_blocks := uw_paid_blocks w + 1\<rparr>"

definition release_wallet :: "wallet \<Rightarrow> wallet" where
  "release_wallet w = w\<lparr>uw_outstanding := None, uw_outstanding_usd := 0, uw_outstanding_url := None\<rparr>"

record overage_notice =
  on_workspace :: ws_id
  on_block :: rat
  on_period :: rat
  on_invoice :: string

definition mark_overage_invoice_paid_local ::
  "billing \<Rightarrow> ws_id \<Rightarrow> string \<Rightarrow> billing \<times> overage_notice option" where
  "mark_overage_invoice_paid_local b ws i =
     (case b_wallets b ws of
        None \<Rightarrow> (b, None)
      | Some w \<Rightarrow>
          if uw_outstanding w = Some i
          then (update_wallet ws settle_wallet b,
                Some \<lparr>on_workspace = ws, on_block = uw_outstanding_usd w,
                      on_period = uw_accumulated w, on_invoice = i\<rparr>)
          else (b, None))"

definition release_overage_invoice_local :: "billing \<Rightarrow> ws_id \<Rightarrow> string \<Rightarrow> billing \<times> bool" where
  "release_overage_invoice_local b ws i =
     (case b_wallets b ws of
        None \<Rightarrow> (b, False)
      | Some w \<Rightarrow>
          if uw_outstanding w = Some i then (update_wallet ws release_wallet b, True) else (b, False))"

text \<open>The whole of \<^verbatim>\<open>chargeOverageBlocks\<close> with nothing interleaved: the number of blocks invoiced.\<close>

definition charge_overage_blocks :: "stripe \<Rightarrow> billing_env \<Rightarrow> billing \<Rightarrow> ws_id \<Rightarrow> billing \<times> nat" where
  "charge_overage_blocks st env b ws =
     (case charge_begin env b ws of
        None \<Rightarrow> (b, 0)
      | Some i \<Rightarrow>
          (case st_finalize st i of
             None \<Rightarrow> (b, 0)
           | Some v \<Rightarrow>
               if \<not> charge_amount_ok i v then (b, 0)
               else
                 let (b1, claimed) = charge_claim b i v
                 in if \<not> claimed then (b1, 0)
                    else
                      let paid = iv_paid v \<or> st_pay st (iv_id v) = Some True
                      in (if paid then fst (mark_overage_invoice_paid_local b1 ws (iv_id v)) else b1, 1)))"

text \<open>\<^verbatim>\<open>reconcileOutstandingOverage\<close>: the last check per workspace throttles it.\<close>

datatype invoice_status = Inv_Paid | Inv_Void | Inv_Uncollectible | Inv_Open

definition overage_reconcile_interval_ms :: int where
  "overage_reconcile_interval_ms = 60000"

definition reconcile_outstanding_overage ::
  "(string \<Rightarrow> invoice_status) \<Rightarrow> billing_env \<Rightarrow> (ws_id \<rightharpoonup> int) \<Rightarrow> billing \<Rightarrow> ws_id \<Rightarrow> string \<Rightarrow> int
   \<Rightarrow> billing \<times> (ws_id \<rightharpoonup> int) \<times> bool" where
  "reconcile_outstanding_overage retrieve env last_check b ws i now =
     (if \<not> be_stripe_key env then (b, last_check, False)
      else if now - (case last_check ws of None \<Rightarrow> 0 | Some t \<Rightarrow> t) < overage_reconcile_interval_ms
      then (b, last_check, False)
      else
        let checked = last_check(ws \<mapsto> now)
        in case retrieve i of
             Inv_Paid \<Rightarrow>
               let (b', notice) = mark_overage_invoice_paid_local b ws i in (b', checked, notice \<noteq> None)
           | Inv_Open \<Rightarrow> (b, checked, False)
           | _ \<Rightarrow> let (b', released) = release_overage_invoice_local b ws i in (b', checked, released))"

section \<open>Subscriptions and seats\<close>

text \<open>\<^verbatim>\<open>syncFromStripe\<close>: one row per workspace. \<open>price = None\<close> is an omitted field.\<close>

definition sync_from_stripe ::
  "billing \<Rightarrow> ws_id \<Rightarrow> subscription \<Rightarrow> int option \<Rightarrow> string option option \<Rightarrow> bool option \<Rightarrow> billing" where
  "sync_from_stripe b ws data seats price cancel =
     (let s = data\<lparr>s_seats := max 1 (case seats of None \<Rightarrow> 1 | Some n \<Rightarrow> n),
                   s_cancel_at_end := (case cancel of None \<Rightarrow> False | Some c \<Rightarrow> c),
                   s_price := (case price of
                       Some v \<Rightarrow> v
                     | None \<Rightarrow> (case b_subs b ws of None \<Rightarrow> None | Some old \<Rightarrow> s_price old))\<rparr>
      in b\<lparr>b_subs := (b_subs b)(ws \<mapsto> s)\<rparr>)"

definition count_active_workspace_members :: "billing_env \<Rightarrow> billing \<Rightarrow> ws_id \<Rightarrow> int" where
  "count_active_workspace_members env b ws =
     (let bws = resolve_billing_workspace_id env b ws;
          family = bws # map fst (filter (\<lambda>(i, r). w_parent r = Some bws) (b_workspaces b));
          rows = filter (\<lambda>m. m_project m = None \<and> (\<exists>i \<in> set family. m_workspace m = Some i)) (b_members b)
      in max 1 (int (length (remdups (map m_user rows)))))"

datatype seat_sync_reason =
  Local_Mode | No_Active_Subscription | Basic_Plan_Single_Seat | No_Seat_Item | Stripe_Unconfigured
| Sync_Error

record seat_sync =
  ss_ok :: bool
  ss_plan :: "string option"
  ss_seats :: "int option"
  ss_reason :: "seat_sync_reason option"

definition seat_sync_skip :: "seat_sync_reason \<Rightarrow> seat_sync" where
  "seat_sync_skip r = \<lparr>ss_ok = False, ss_plan = None, ss_seats = None, ss_reason = Some r\<rparr>"

definition seat_sync_done :: "subscription \<Rightarrow> int \<Rightarrow> seat_sync_reason option \<Rightarrow> seat_sync" where
  "seat_sync_done s n r = \<lparr>ss_ok = True, ss_plan = Some (s_plan s), ss_seats = Some n, ss_reason = r\<rparr>"

definition set_included :: "ws_id \<Rightarrow> rat \<Rightarrow> billing \<Rightarrow> billing" where
  "set_included ws usd b =
     update_wallet ws (\<lambda>w. w\<lparr>uw_monthly_included := usd, uw_monthly_allocation := usd\<rparr>) b"

definition set_seats :: "ws_id \<Rightarrow> subscription \<Rightarrow> int \<Rightarrow> billing \<Rightarrow> billing" where
  "set_seats ws s n b = b\<lparr>b_subs := (b_subs b)(ws \<mapsto> s\<lparr>s_seats := n\<rparr>)\<rparr>"

text \<open>\<open>seat_item\<close> is what Stripe answers: \<^const>\<open>None\<close> when a call throws, otherwise whether the
  subscription carries a licensed seat item. The second result is the quantity sent, if any.\<close>

definition sync_seats_from_membership ::
  "billing_env \<Rightarrow> bool option \<Rightarrow> billing \<Rightarrow> ws_id \<Rightarrow> int \<Rightarrow> billing \<times> int option \<times> seat_sync" where
  "sync_seats_from_membership env seat_item b ws0 now =
     (if be_local env then (b, None, seat_sync_skip Local_Mode)
      else
        let ws = resolve_billing_workspace_id env b ws0
        in case active_sub b ws of
             None \<Rightarrow> (b, None, seat_sync_skip No_Active_Subscription)
           | Some s \<Rightarrow>
               if starts_with (js_lower (s_plan s)) ''basic''
               then (b, None, seat_sync_skip Basic_Plan_Single_Seat)
               else
                 let members = count_active_workspace_members env b ws;
                     grant = get_active_grants_for_workspace b ws now;
                     desired = max 1 (members - gs_free_seats grant);
                     included = get_monthly_included_for_plan (s_plan s) (desired + gs_free_seats grant)
                                + gs_monthly grant
                 in if desired = s_seats s
                    then (set_included ws included b, None, seat_sync_done s desired None)
                    else if \<not> be_stripe_key env
                    then (set_included ws included (set_seats ws s desired b), None,
                          seat_sync_done s desired (Some Stripe_Unconfigured))
                    else (case seat_item of
                            None \<Rightarrow> (b, None, seat_sync_skip Sync_Error)
                          | Some False \<Rightarrow> (b, None, seat_sync_skip No_Seat_Item)
                          | Some True \<Rightarrow>
                              (set_included ws included (set_seats ws s desired b), Some desired,
                               seat_sync_done s desired None)))"

section \<open>Lemmas\<close>

lemma overage_block_bounds: "25 \<le> overage_block_usd n \<and> overage_block_usd n \<le> 500"
proof (cases "max 0 n < 4")
  case True
  then show ?thesis
    by (simp add: overage_block_usd_def overage_starter_blocks_def overage_starter_block_usd_def)
next
  case False
  then have "1 \<le> max 0 n - 4 + 1" by simp
  then have "(of_int 1 :: rat) \<le> of_int (max 0 n - 4 + 1)" by (simp only: of_int_le_iff)
  then show ?thesis using False
    by (simp add: overage_block_usd_def overage_starter_blocks_def overage_block_max_usd_def
        overage_block_step_usd_def min_def)
qed

lemma overage_block_mono: "m \<le> n \<Longrightarrow> overage_block_usd m \<le> overage_block_usd n"
proof -
  assume le: "m \<le> n"
  show ?thesis
  proof (cases "max 0 m < 4")
    case True
    then have "overage_block_usd m = 25"
      by (simp add: overage_block_usd_def overage_starter_blocks_def overage_starter_block_usd_def)
    then show ?thesis using overage_block_bounds [of n] by simp
  next
    case False
    with le have "\<not> max 0 n < 4" and "(of_int (max 0 m) :: rat) \<le> of_int (max 0 n)" by simp_all
    with False show ?thesis
      by (simp add: overage_block_usd_def overage_starter_blocks_def overage_block_max_usd_def
          overage_block_step_usd_def min_def)
  qed
qed

lemma put_wallet_Some:
  "put_wallet ws w b = Some b' \<longleftrightarrow>
     om_get (b_workspaces b) ws \<noteq> None \<and> b' = b\<lparr>b_wallets := (b_wallets b)(ws \<mapsto> w)\<rparr>"
  by (auto simp: put_wallet_def)

lemma js_round_of_int: "js_round (of_int n) = n"
  by (simp add: js_round_def floor_unique)

lemma js_round_cents: "js_round 2500 = 2500" "js_round 0 = 0"
  using js_round_of_int [of 2500] js_round_of_int [of 0] by simp_all

subsection \<open>Ledger of block invoices\<close>

text \<open>The three conditional updates, in any order and any number of times: the inline pay path, the
  webhook and the reconciler all issue them.\<close>

datatype overage_op = Claim charge_intent invoice | Settle ws_id string | Release ws_id string

fun overage_step :: "overage_op \<Rightarrow> billing \<Rightarrow> billing \<times> bool" where
  "overage_step (Claim i v) b = charge_claim b i v"
| "overage_step (Settle ws i) b = (let (b', n) = mark_overage_invoice_paid_local b ws i in (b', n \<noteq> None))"
| "overage_step (Release ws i) b = release_overage_invoice_local b ws i"

fun op_workspace :: "overage_op \<Rightarrow> ws_id" where
  "op_workspace (Claim i v) = ci_workspace i"
| "op_workspace (Settle ws i) = ws"
| "op_workspace (Release ws i) = ws"

record tally =
  t_claimed :: nat
  t_settled :: nat
  t_released :: nat

definition count_op :: "overage_op \<Rightarrow> tally \<Rightarrow> tally" where
  "count_op e t =
     (case e of
        Claim _ _ \<Rightarrow> t\<lparr>t_claimed := t_claimed t + 1\<rparr>
      | Settle _ _ \<Rightarrow> t\<lparr>t_settled := t_settled t + 1\<rparr>
      | Release _ _ \<Rightarrow> t\<lparr>t_released := t_released t + 1\<rparr>)"

text \<open>Run a sequence, counting the operations on \<open>ws\<close> that took effect.\<close>

fun overage_run :: "ws_id \<Rightarrow> overage_op list \<Rightarrow> billing \<Rightarrow> billing \<times> tally" where
  "overage_run ws [] b = (b, \<lparr>t_claimed = 0, t_settled = 0, t_released = 0\<rparr>)"
| "overage_run ws (e # es) b =
     (let (b1, hit) = overage_step e b; (b2, t) = overage_run ws es b1
      in (b2, if hit \<and> op_workspace e = ws then count_op e t else t))"

definition open_invoices :: "wallet \<Rightarrow> nat" where
  "open_invoices w = (if uw_outstanding w = None then 0 else 1)"

lemma overage_step_other:
  assumes "overage_step e b = (b', hit)" and "op_workspace e \<noteq> ws"
  shows "b_wallets b' ws = b_wallets b ws"
  using assms
  by (cases e)
    (auto simp: charge_claim_def mark_overage_invoice_paid_local_def release_overage_invoice_local_def
      update_wallet_get split: option.splits if_splits)

lemma overage_step_effect:
  assumes "overage_step e b = (b', hit)" and "op_workspace e = ws" and "b_wallets b ws = Some w"
  obtains w' where "b_wallets b' ws = Some w'" and "\<not> hit \<Longrightarrow> w' = w"
    and "hit \<Longrightarrow> (\<exists>i v. e = Claim i v) \<Longrightarrow>
           uw_outstanding w = None \<and> uw_outstanding w' \<noteq> None \<and> uw_paid_blocks w' = uw_paid_blocks w"
    and "hit \<Longrightarrow> (\<exists>u i. e = Settle u i) \<Longrightarrow>
           uw_outstanding w \<noteq> None \<and> uw_outstanding w' = None \<and> uw_paid_blocks w' = uw_paid_blocks w + 1"
    and "hit \<Longrightarrow> (\<exists>u i. e = Release u i) \<Longrightarrow>
           uw_outstanding w \<noteq> None \<and> uw_outstanding w' = None \<and> uw_paid_blocks w' = uw_paid_blocks w"
  using assms
  by (cases e)
    (auto simp: charge_claim_def mark_overage_invoice_paid_local_def release_overage_invoice_local_def
      update_wallet_get settle_wallet_def release_wallet_def split: option.splits if_splits)

lemma overage_run_ledger:
  assumes "overage_run ws es b = (b', t)" and "b_wallets b ws = Some w"
  shows "\<exists>w'. b_wallets b' ws = Some w'
    \<and> open_invoices w + t_claimed t = t_settled t + t_released t + open_invoices w'
    \<and> uw_paid_blocks w' = uw_paid_blocks w + int (t_settled t)"
  using assms
proof (induction es arbitrary: b w t)
  case Nil
  then show ?case by auto
next
  case (Cons e es)
  obtain b1 hit where s: "overage_step e b = (b1, hit)" by (cases "overage_step e b")
  obtain b2 t2 where r: "overage_run ws es b1 = (b2, t2)" by (cases "overage_run ws es b1")
  from Cons.prems s r have b2: "b2 = b'" and t: "t = (if hit \<and> op_workspace e = ws then count_op e t2 else t2)"
    by auto
  show ?case
  proof (cases "op_workspace e = ws")
    case False
    with overage_step_other [OF s] Cons.prems have "b_wallets b1 ws = Some w" by simp
    from Cons.IH [OF r [unfolded b2] this] t False show ?thesis by simp
  next
    case True
    from overage_step_effect [OF s True Cons.prems(2)] obtain w1 where w1: "b_wallets b1 ws = Some w1"
      and eff: "\<not> hit \<Longrightarrow> w1 = w"
        "hit \<Longrightarrow> (\<exists>i v. e = Claim i v) \<Longrightarrow>
           uw_outstanding w = None \<and> uw_outstanding w1 \<noteq> None \<and> uw_paid_blocks w1 = uw_paid_blocks w"
        "hit \<Longrightarrow> (\<exists>u i. e = Settle u i) \<Longrightarrow>
           uw_outstanding w \<noteq> None \<and> uw_outstanding w1 = None \<and> uw_paid_blocks w1 = uw_paid_blocks w + 1"
        "hit \<Longrightarrow> (\<exists>u i. e = Release u i) \<Longrightarrow>
           uw_outstanding w \<noteq> None \<and> uw_outstanding w1 = None \<and> uw_paid_blocks w1 = uw_paid_blocks w"
      by metis
    from Cons.IH [OF r [unfolded b2] w1] t True eff show ?thesis
      by (cases hit; cases e) (auto simp: count_op_def open_invoices_def)
  qed
qed

text \<open>A block is read only when it is fully unbilled, and charged at the trust level read.\<close>

lemma charge_begin_Some:
  assumes "charge_begin env b ws = Some i"
  shows "ci_workspace i = ws \<and> (\<exists>w. b_wallets b ws = Some w \<and> ci_amount i = overage_block_usd (uw_paid_blocks w)
    \<and> ci_billed i = uw_billed w \<and> uw_billed w + ci_amount i \<le> uw_accumulated w
    \<and> truthy (uw_outstanding w) = None)"
  using assms
  by (auto simp: charge_begin_def Let_def split: if_splits option.splits)

lemma charge_claim_shape:
  "charge_claim b i v = (b', True) \<Longrightarrow>
   \<exists>w w'. b_wallets b (ci_workspace i) = Some w \<and> b_wallets b' (ci_workspace i) = Some w'
     \<and> uw_billed w' = uw_billed w + ci_amount i \<and> uw_outstanding w' = Some (iv_id v)"
  by (auto simp: charge_claim_def update_wallet_get split: option.splits if_splits)

section \<open>Properties\<close>

text \<open>The paid-trust ladder. The unpaid exposure a workspace can reach is between $25 and $500,
  never shrinks as blocks get paid, stays $25 for the first four blocks, then follows the steps
  100, 200, 300, 400, 500.\<close>

theorem overage_ladder:
  "25 \<le> overage_block_usd n \<and> overage_block_usd n \<le> 500
   \<and> overage_block_usd n \<le> overage_block_usd (n + 1)
   \<and> (overage_block_usd n = 25 \<longleftrightarrow> n < 4)
   \<and> (overage_block_usd n = 500 \<longleftrightarrow> 8 \<le> n)
   \<and> map overage_block_usd [4, 5, 6, 7, 8] = [100, 200, 300, 400, 500]"
proof -
  have low: "overage_block_usd n = 25" if "n < 4"
    using that by (simp add: overage_block_usd_def overage_starter_blocks_def overage_starter_block_usd_def)
  have four: "overage_block_usd 4 = 100" and seven: "overage_block_usd 7 = 400"
    and steps: "map overage_block_usd [4, 5, 6, 7, 8] = [100, 200, 300, 400, 500]"
    by (simp_all add: overage_block_usd_def overage_starter_blocks_def overage_block_max_usd_def
        overage_block_step_usd_def overage_starter_block_usd_def min_def)
  have "100 \<le> overage_block_usd n" if "\<not> n < 4"
    using overage_block_mono [of 4 n] that four by simp
  moreover have "overage_block_usd n \<le> 400" if "\<not> 8 \<le> n"
    using overage_block_mono [of n 7] that seven by simp
  moreover have "500 \<le> overage_block_usd n" if "8 \<le> n"
    using overage_block_mono [of 8 n] that steps by simp
  ultimately show ?thesis
    using low overage_block_bounds [of n] overage_block_mono [of n "n + 1"] steps
    by (cases "n < 4"; cases "8 \<le> n") force+
qed

text \<open>C9: the block ledger. However claims, settlements and releases interleave and repeat (the inline
  pay path, the webhook and the reconciler), at most one block is outstanding, every block ends at
  most once, and trust advances exactly once per block settled.\<close>

theorem overage_ledger:
  assumes "overage_run ws es b = (b', t)" and "b_wallets b ws = Some w"
  shows "\<exists>w'. b_wallets b' ws = Some w'
    \<and> open_invoices w + t_claimed t = t_settled t + t_released t + open_invoices w'
    \<and> uw_paid_blocks w' = uw_paid_blocks w + int (t_settled t)"
  using assms by (rule overage_run_ledger)

definition demo_wallet :: wallet where
  "demo_wallet = (new_wallet 0)\<lparr>uw_accumulated := 30\<rparr>"

definition demo_sub :: "string \<Rightarrow> string option \<Rightarrow> int \<Rightarrow> subscription" where
  "demo_sub plan price seats =
     \<lparr>s_stripe_subscription = ''sub_1'', s_stripe_customer = ''cus_1'', s_plan = plan, s_price = price,
      s_seats = seats, s_status = Active, s_annual = False, s_period_start = 0, s_period_end = 0,
      s_cancel_at_end = False\<rparr>"

definition demo_billing :: "subscription option \<Rightarrow> grant list \<Rightarrow> wallet option \<Rightarrow> billing" where
  "demo_billing s gs w =
     \<lparr>b_workspaces = [(''w'', \<lparr>w_kind = Team, w_parent = None\<rparr>)], b_projects = [''p''], b_members = [],
      b_subs = (\<lambda>i. if i = ''w'' then s else None), b_grants = gs,
      b_wallets = (\<lambda>i. if i = ''w'' then w else None),
      b_events = [], b_promo_cache = (\<lambda>_. None)\<rparr>"

definition demo_env :: billing_env where
  "demo_env =
     \<lparr>be_local = False,
      be_prices = \<lparr>pe_production = True, pe_basic_annual_v2 = [], pe_business_monthly_v2 = ''price_new'',
                   pe_business_annual_v2 = []\<rparr>,
      be_stripe_key = True\<rparr>"

lemmas demo_defs = demo_wallet_def demo_sub_def demo_billing_def demo_env_def new_wallet_def
  fresh_counters_def

lemma overage_ledger_witness:
  "\<exists>w'. b_wallets (fst (overage_run ''w''
      [Claim \<lparr>ci_workspace = ''w'', ci_amount = 25, ci_cents = 2500, ci_billed = 0, ci_key = (''w'', 0, 0),
              ci_customer = ''c''\<rparr> \<lparr>iv_id = ''in_1'', iv_total = None, iv_paid = False, iv_url = None\<rparr>,
       Settle ''w'' ''in_1'', Settle ''w'' ''in_1'']
      (demo_billing None [] (Some demo_wallet)))) ''w'' = Some w' \<and> uw_paid_blocks w' = 1"
proof -
  define es where "es = [Claim \<lparr>ci_workspace = ''w'', ci_amount = 25, ci_cents = 2500, ci_billed = 0,
      ci_key = (''w'', 0, 0), ci_customer = ''c''\<rparr>
      \<lparr>iv_id = ''in_1'', iv_total = None, iv_paid = False, iv_url = None\<rparr>,
      Settle ''w'' ''in_1'', Settle ''w'' ''in_1'']"
  obtain b' t where r: "overage_run ''w'' es (demo_billing None [] (Some demo_wallet)) = (b', t)"
    by (cases "overage_run ''w'' es (demo_billing None [] (Some demo_wallet))")
  then have "t_settled t = 1"
    by (auto simp: es_def demo_defs charge_claim_def mark_overage_invoice_paid_local_def update_wallet_def
        settle_wallet_def count_op_def)
  moreover have "b_wallets (demo_billing None [] (Some demo_wallet)) ''w'' = Some demo_wallet"
    by (simp add: demo_billing_def)
  moreover have "uw_paid_blocks demo_wallet = 0" by (simp add: demo_defs)
  ultimately show ?thesis
    using overage_ledger [OF r, of demo_wallet] unfolding es_def [symmetric] r by auto
qed

text \<open>Two overlapping \<^verbatim>\<open>chargeOverageBlocks\<close> calls that read the same wallet record one block
  between them: they ask Stripe for the same idempotency key, and once one has claimed, the other's
  claim changes nothing.\<close>

theorem charge_race:
  assumes "charge_begin env b ws = Some i" and "charge_begin env b ws = Some j"
    and "charge_claim b i v = (b1, True)"
  shows "ci_key i = ci_key j \<and> charge_claim b1 j v' = (b1, False)"
proof -
  have ij: "i = j" using assms(1,2) by simp
  from charge_claim_shape [OF assms(3)] obtain w1 where "b_wallets b1 (ci_workspace i) = Some w1"
    and "uw_outstanding w1 = Some (iv_id v)" by blast
  with ij show ?thesis by (simp add: charge_claim_def)
qed

lemma charge_race_witness:
  "\<exists>i v b1. charge_begin demo_env (demo_billing (Some (demo_sub ''pro'' None 1)) [] (Some demo_wallet)) ''w'' = Some i
     \<and> charge_claim b1 i v = (b1, False)"
proof -
  define b where "b = demo_billing (Some (demo_sub ''pro'' None 1)) [] (Some demo_wallet)"
  define i where "i = \<lparr>ci_workspace = ''w'', ci_amount = 25, ci_cents = 2500, ci_billed = 0,
     ci_key = (''w'', 0, 0), ci_customer = ''cus_1''\<rparr>"
  define v where "v = \<lparr>iv_id = ''in_1'', iv_total = None, iv_paid = False, iv_url = None\<rparr>"
  have r: "js_round 2500 = 2500" "js_round 0 = 0" by (rule js_round_cents)+
  have beg: "charge_begin demo_env b ''w'' = Some i"
    by (simp add: b_def i_def demo_defs charge_begin_def active_sub_def overage_block_usd_def
        overage_starter_blocks_def overage_starter_block_usd_def r)
  obtain b1 where cl: "charge_claim b i v = (b1, True)"
    by (simp add: b_def i_def v_def demo_defs charge_claim_def)
  from charge_race [OF beg beg cl, of v] have "charge_claim b1 i v = (b1, False)" by simp
  with beg show ?thesis unfolding b_def by blast
qed

text \<open>One call with nothing interleaved invoices at most one block, the one the trust level
  allows, never more than the unbilled overage; a paid block leaves nothing outstanding and advances
  the ladder, an unpaid one pauses overage on its invoice.\<close>

theorem charge_overage_blocks_spec:
  assumes "charge_overage_blocks st env b ws = (b', n)" and "b_wallets b ws = Some w"
  shows "(n = 0 \<and> b' = b) \<or>
    (n = 1 \<and> (\<exists>w' (v :: invoice). b_wallets b' ws = Some w' \<and> uw_accumulated w' = uw_accumulated w
       \<and> uw_billed w' = uw_billed w + overage_block_usd (uw_paid_blocks w) \<and> uw_billed w' \<le> uw_accumulated w'
       \<and> (if iv_paid v \<or> st_pay st (iv_id v) = Some True
          then uw_outstanding w' = None \<and> uw_paid_blocks w' = uw_paid_blocks w + 1
          else uw_outstanding w' = Some (iv_id v) \<and> uw_outstanding_usd w' = overage_block_usd (uw_paid_blocks w)
               \<and> uw_paid_blocks w' = uw_paid_blocks w)))"
proof (cases "charge_begin env b ws")
  case None
  with assms show ?thesis by (simp add: charge_overage_blocks_def)
next
  case (Some i)
  with charge_begin_Some [OF Some] assms(2)
  have i: "ci_workspace i = ws" "ci_amount i = overage_block_usd (uw_paid_blocks w)"
    "uw_billed w + ci_amount i \<le> uw_accumulated w" by auto
  show ?thesis
  proof (cases "n = 0")
    case True
    with assms Some i show ?thesis
      by (auto simp: charge_overage_blocks_def charge_claim_def split: option.splits if_splits prod.splits)
  next
    case False
    with assms Some obtain v b1 where v: "st_finalize st i = Some v"
      and cl: "charge_claim b i v = (b1, True)" and n: "n = 1"
      and b': "b' = (if iv_paid v \<or> st_pay st (iv_id v) = Some True
                     then fst (mark_overage_invoice_paid_local b1 ws (iv_id v)) else b1)"
      by (auto simp: charge_overage_blocks_def Let_def split: option.splits if_splits prod.splits)
    from cl i assms(2) have "b1 = update_wallet ws (\<lambda>w. w\<lparr>uw_billed := uw_billed w + ci_amount i,
        uw_outstanding := Some (iv_id v), uw_outstanding_usd := ci_amount i, uw_outstanding_url := iv_url v\<rparr>) b"
      by (auto simp: charge_claim_def split: if_splits)
    define w1 where "w1 = w\<lparr>uw_billed := uw_billed w + ci_amount i, uw_outstanding := Some (iv_id v),
      uw_outstanding_usd := ci_amount i, uw_outstanding_url := iv_url v\<rparr>"
    with \<open>b1 = _\<close> assms(2) have w1: "b_wallets b1 ws = Some w1" by (simp add: update_wallet_get)
    show ?thesis
    proof (cases "iv_paid v \<or> st_pay st (iv_id v) = Some True")
      case True
      with w1 b' have "b_wallets b' ws = Some (settle_wallet w1)"
        by (auto simp: mark_overage_invoice_paid_local_def w1_def update_wallet_get)
      with True n i show ?thesis
        by (intro disjI2 conjI exI [of _ "settle_wallet w1"] exI [of _ v])
          (simp_all add: w1_def settle_wallet_def)
    next
      case False
      with w1 b' n i show ?thesis
        by (intro disjI2 conjI exI [of _ w1] exI [of _ v]) (simp_all add: w1_def)
    qed
  qed
qed

lemma charge_overage_blocks_witness:
  "\<exists>b'. charge_overage_blocks
      \<lparr>st_finalize = (\<lambda>i. Some \<lparr>iv_id = ''in_1'', iv_total = None, iv_paid = True, iv_url = None\<rparr>),
       st_pay = (\<lambda>_. None)\<rparr>
      demo_env (demo_billing (Some (demo_sub ''pro'' None 1)) [] (Some demo_wallet)) ''w'' = (b', 1)
    \<and> b' \<noteq> demo_billing (Some (demo_sub ''pro'' None 1)) [] (Some demo_wallet)"
proof -
  define st where "st = \<lparr>st_finalize = (\<lambda>i::charge_intent. Some \<lparr>iv_id = ''in_1'', iv_total = None,
     iv_paid = True, iv_url = None\<rparr>), st_pay = (\<lambda>_::string. None)\<rparr>"
  define b where "b = demo_billing (Some (demo_sub ''pro'' None 1)) [] (Some demo_wallet)"
  have r: "js_round 2500 = 2500" "js_round 0 = 0" by (rule js_round_cents)+
  obtain b' where b': "charge_overage_blocks st demo_env b ''w'' = (b', 1)"
    by (simp add: st_def b_def demo_defs charge_overage_blocks_def charge_begin_def active_sub_def
        overage_block_usd_def overage_starter_blocks_def overage_starter_block_usd_def r charge_claim_def
        charge_amount_ok_def mark_overage_invoice_paid_local_def update_wallet_def)
  have w: "b_wallets b ''w'' = Some demo_wallet" by (simp add: b_def demo_billing_def)
  from charge_overage_blocks_spec [OF b' w] obtain w' where
    "b_wallets b' ''w'' = Some w'" "uw_billed w' = uw_billed demo_wallet + overage_block_usd (uw_paid_blocks demo_wallet)"
    by auto
  with w overage_block_bounds [of "uw_paid_blocks demo_wallet"] have "b' \<noteq> b" by auto
  with b' show ?thesis unfolding st_def b_def by blast
qed

text \<open>On-demand usage needs something to bill. Turning it on succeeds only for a workspace with an
  active subscription or a paid grant, and without a subscription the cap is at most $5 whatever the
  caller asks for.\<close>

theorem usage_pricing_entitled:
  assumes "set_usage_based_pricing_local env b ws enabled limit now = Inr b'"
  shows "\<exists>w'. b_wallets b' (resolve_billing_workspace_id env b ws) = Some w'
    \<and> uw_overage_enabled w' = enabled
    \<and> (enabled \<longrightarrow> (if active_sub b (resolve_billing_workspace_id env b ws) = None
         then ep_paid_tier (resolve_effective_plan env b (resolve_billing_workspace_id env b ws) now)
              \<and> (\<exists>l. uw_hard_limit w' = Some l \<and> l \<le> 5 \<and> (\<forall>x. limit = Some x \<longrightarrow> l \<le> x))
         else uw_hard_limit w' = limit))"
proof -
  define bws where "bws = resolve_billing_workspace_id env b ws"
  define wr where "wr = (\<lambda>hard. case b_wallets b bws of
      None \<Rightarrow> raise_on_None Foreign_Key_Violation
                (put_wallet bws ((new_wallet now)\<lparr>uw_overage_enabled := enabled, uw_hard_limit := hard\<rparr>) b)
    | Some w \<Rightarrow> Inr (update_wallet bws (\<lambda>w. w\<lparr>uw_overage_enabled := enabled, uw_hard_limit := hard\<rparr>) b))"
  have put: "\<exists>w'. b_wallets b' bws = Some w' \<and> uw_overage_enabled w' = enabled \<and> uw_hard_limit w' = hard"
    if "wr hard = Inr b'" for hard
    using that by (auto simp: wr_def put_wallet_def raise_on_None_def update_wallet_get
        split: option.splits if_splits)
  show ?thesis
  proof (cases "enabled \<and> active_sub b bws = None")
    case False
    with assms have "wr limit = Inr b'"
      by (auto simp: set_usage_based_pricing_local_def wr_def Let_def simp flip: bws_def)
    with put False show ?thesis unfolding bws_def by fastforce
  next
    case True
    with assms obtain p where p: "normalize_plan_id (gs_plan (get_active_grants_for_workspace b bws now)) = Some p"
      and paid: "is_paid_plan p"
      and w5: "wr (Some (min (case limit of None \<Rightarrow> 5 | Some l \<Rightarrow> l) 5)) = Inr b'"
      by (auto simp: set_usage_based_pricing_local_def wr_def Let_def
          grant_only_overage_hard_limit_usd_def simp del: paid_plan_iff simp flip: bws_def
          split: option.splits if_splits)
    from True p paid have "ep_paid_tier (resolve_effective_plan env b bws now)"
      by (simp add: resolve_effective_plan_def plan_or_free_def)
    moreover from put [OF w5] obtain w' where "b_wallets b' bws = Some w'" "uw_overage_enabled w' = enabled"
      "uw_hard_limit w' = Some (min (case limit of None \<Rightarrow> 5 | Some l \<Rightarrow> l) 5)" by blast
    ultimately show ?thesis using True unfolding bws_def by auto
  qed
qed

definition demo_grant :: "string \<Rightarrow> grant" where
  "demo_grant plan = \<lparr>g_workspace = ''w'', g_free_seats = 0, g_monthly = 0, g_plan = Some plan,
     g_starts = 0, g_expires = None\<rparr>"

lemma usage_pricing_entitled_witness:
  "\<exists>b'. set_usage_based_pricing_local demo_env (demo_billing None [demo_grant ''pro''] (Some demo_wallet))
        ''w'' True (Some 100) 1 = Inr b'
     \<and> (\<exists>w' l. b_wallets b' ''w'' = Some w' \<and> uw_hard_limit w' = Some l \<and> l \<le> 5)"
proof -
  define b where "b = demo_billing None [demo_grant ''pro''] (Some demo_wallet)"
  have g: "gs_plan (get_active_grants_for_workspace b ''w'' 1) = Some ''pro''"
    by (simp add: b_def demo_defs demo_grant_def get_active_grants_for_workspace_def grant_active_def
        add_grant_def compare_plan_rank_def plan_or_free_def normalize_plan_names normalize_plan_id_def [of None])
  have r: "resolve_billing_workspace_id demo_env b ''w'' = ''w''"
    by (simp add: b_def demo_defs resolve_billing_workspace_id_def)
  have a: "active_sub b ''w'' = None" by (simp add: b_def demo_defs active_sub_def)
  obtain b' where b': "set_usage_based_pricing_local demo_env b ''w'' True (Some 100) 1 = Inr b'"
    by (simp add: set_usage_based_pricing_local_def r a g normalize_plan_names Let_def)
      (simp add: b_def demo_billing_def)
  from usage_pricing_entitled [OF b'] r a b' show ?thesis unfolding b_def by auto
qed

text \<open>Seat sync converges. After a sync that succeeded, every active member is covered by a paid or
  granted seat, and syncing again sends nothing to Stripe and changes nothing.\<close>

theorem seat_sync_idempotent:
  assumes "sync_seats_from_membership env x b ws now = (b', q, r)" and "ss_ok r"
  shows "\<exists>s. active_sub b' (resolve_billing_workspace_id env b ws) = Some s
    \<and> count_active_workspace_members env b' (resolve_billing_workspace_id env b ws)
        \<le> s_seats s + gs_free_seats (get_active_grants_for_workspace b' (resolve_billing_workspace_id env b ws) now)
    \<and> 1 \<le> s_seats s
    \<and> sync_seats_from_membership env y b' ws now = (b', None, seat_sync_done s (s_seats s) None)"
proof -
  define bws where "bws = resolve_billing_workspace_id env b ws"
  define free where "free = gs_free_seats (get_active_grants_for_workspace b bws now)"
  define desired where "desired = max 1 (count_active_workspace_members env b bws - free)"
  from assms have nl: "\<not> be_local env"
    by (auto simp: sync_seats_from_membership_def seat_sync_skip_def split: if_splits)
  with assms obtain s where s: "active_sub b bws = Some s"
    and nb: "\<not> starts_with (js_lower (s_plan s)) ''basic''"
    by (auto simp: sync_seats_from_membership_def seat_sync_skip_def Let_def bws_def
        split: if_splits option.splits)
  define inc where "inc = get_monthly_included_for_plan (s_plan s) (desired + free)
    + gs_monthly (get_active_grants_for_workspace b bws now)"
  have b': "b' = set_included bws inc (set_seats bws s desired b)"
  proof (cases "desired = s_seats s")
    case True
    from s have "set_seats bws s desired b = b"
      by (auto simp: set_seats_def active_sub_def True fun_upd_idem split: option.splits if_splits)
    with assms nl s nb True show ?thesis
      by (simp add: sync_seats_from_membership_def Let_def bws_def free_def desired_def inc_def)
  next
    case False
    with assms nl s nb show ?thesis
      by (auto simp: sync_seats_from_membership_def Let_def bws_def free_def desired_def inc_def
          seat_sync_skip_def split: option.splits if_splits bool.splits)
  qed
  have frame: "b_workspaces b' = b_workspaces b" "b_members b' = b_members b" "b_grants b' = b_grants b"
    "b_subs b' = (b_subs b)(bws \<mapsto> s\<lparr>s_seats := desired\<rparr>)"
    by (simp_all add: b' set_included_def set_seats_def)
  have r1: "resolve_billing_workspace_id env b' v = resolve_billing_workspace_id env b v" for v
    by (simp add: resolve_billing_workspace_id_def frame)
  have c1: "count_active_workspace_members env b' bws = count_active_workspace_members env b bws"
    by (simp add: count_active_workspace_members_def frame r1)
  have g1: "get_active_grants_for_workspace b' bws now = get_active_grants_for_workspace b bws now"
    by (simp add: get_active_grants_for_workspace_def frame)
  from s have s1: "active_sub b' bws = Some (s\<lparr>s_seats := desired\<rparr>)"
    by (auto simp: active_sub_def frame split: option.splits if_splits)
  have same: "set_included bws inc b' = b'"
    by (auto simp: b' set_included_def update_wallet_def set_seats_def split: option.splits)
  have "sync_seats_from_membership env y b' ws now
      = (b', None, seat_sync_done (s\<lparr>s_seats := desired\<rparr>) desired None)"
    using nl nb s1 same
    by (simp add: sync_seats_from_membership_def r1 c1 g1 Let_def inc_def free_def desired_def
        flip: bws_def)
  then show ?thesis
    unfolding bws_def [symmetric] using s1 by (simp add: c1 g1 desired_def free_def)
qed

text \<open>The monthly allocation and the seat sync disagree on a Business seat still on its legacy
  price. The allocation grants $40 a seat, and a sync that finds the seat count already right
  overwrites it with $20 a seat.\<close>

theorem seat_sync_halves_legacy_business:
  assumes "\<not> be_local env" and "resolve_billing_workspace_id env b ws = ws"
    and "active_sub b ws = Some s" and "s_plan s = ''business''"
    and "is_legacy_business_price_id (be_prices env) (s_price s)"
    and "b_wallets b ws = Some w"
    and "s_seats s = max 1 (count_active_workspace_members env b ws
           - gs_free_seats (get_active_grants_for_workspace b ws now))"
  shows "\<exists>b1 w1 w2. allocate_monthly_included_local env b ws (s_plan s) (s_seats s) None now = Some b1
    \<and> b_wallets b1 ws = Some w1
    \<and> b_wallets (fst (sync_seats_from_membership env x b1 ws now)) ws = Some w2
    \<and> uw_monthly_included w1 - uw_monthly_included w2
        = 20 * of_int (safe_seats (s_seats s + gs_free_seats (get_active_grants_for_workspace b ws now)))"
proof -
  define g where "g = get_active_grants_for_workspace b ws now"
  have pf: "plan_or_free (Some ''business'') = Business" by (simp add: plan_or_free_def normalize_plan_names)
  have lt: "legacy_tier_credits ''business'' = None" by code_simp
  have lb: "\<not> starts_with (js_lower ''business'') ''basic''" by code_simp
  have ex: "exact_plan ''business'' = Some Business" by code_simp
  define b1 where "b1 = update_wallet ws (\<lambda>w. (carry_overage_into_new_period w)
     \<lparr>uw_monthly_included := 40 * of_int (safe_seats (s_seats s + gs_free_seats g)) + gs_monthly g,
      uw_monthly_allocation := 40 * of_int (safe_seats (s_seats s + gs_free_seats g)) + gs_monthly g,
      uw_alerts := [], uw_overage_enabled := True,
      uw_hard_limit := (if uw_hard_limit w = Some grant_only_overage_hard_limit_usd then None else uw_hard_limit w),
      uw_last_monthly := now\<rparr>) b"
  have "safe_seats (s_seats s) = s_seats s" using assms(7) by (simp add: safe_seats_def)
  then have al: "allocate_monthly_included_local env b ws (s_plan s) (s_seats s) None now = Some b1"
    using assms(3-6)
    by (simp add: allocate_monthly_included_local_def Let_def b1_def g_def
        get_monthly_included_for_plan_and_price_def lt pf get_plan_allowance_def
        legacy_business_seat_included_usd_def)
  have fr: "b_workspaces b1 = b_workspaces b" "b_members b1 = b_members b" "b_grants b1 = b_grants b"
    "b_subs b1 = b_subs b" by (simp_all add: b1_def)
  have r1: "resolve_billing_workspace_id env b1 v = resolve_billing_workspace_id env b v" for v
    by (simp add: resolve_billing_workspace_id_def fr)
  have c1: "count_active_workspace_members env b1 ws = count_active_workspace_members env b ws"
    by (simp add: count_active_workspace_members_def fr r1)
  have g1: "get_active_grants_for_workspace b1 ws now = g"
    by (simp add: get_active_grants_for_workspace_def fr g_def)
  have s1: "active_sub b1 ws = Some s" using assms(3) by (simp add: active_sub_def fr)
  have "fst (sync_seats_from_membership env x b1 ws now)
      = set_included ws (20 * of_int (safe_seats (s_seats s + gs_free_seats g)) + gs_monthly g) b1"
    using assms(1,2,4,7) s1
    by (simp add: sync_seats_from_membership_def r1 c1 g1 Let_def lb get_monthly_included_for_plan_def ex
        flip: g_def)
  moreover have "b_wallets b1 ws \<noteq> None" using assms(6) by (simp add: b1_def update_wallet_get)
  ultimately show ?thesis
    using al assms(6) by (auto simp: set_included_def update_wallet_get b1_def g_def algebra_simps)
qed

lemma seat_sync_idempotent_witness:
  "\<exists>b' q r. sync_seats_from_membership demo_env (Some True)
       (demo_billing (Some (demo_sub ''pro'' None 3)) [] (Some demo_wallet)) ''w'' 0 = (b', q, r)
     \<and> sync_seats_from_membership demo_env None b' ''w'' 0 = (b', None, r)"
proof -
  define b where "b = demo_billing (Some (demo_sub ''pro'' None 3)) [] (Some demo_wallet)"
  have r: "resolve_billing_workspace_id demo_env b ''w'' = ''w''"
    by (simp add: b_def demo_defs resolve_billing_workspace_id_def)
  have g: "gs_free_seats (get_active_grants_for_workspace b ''w'' 0) = 0"
    by (simp add: b_def demo_defs get_active_grants_for_workspace_def)
  have a: "active_sub b ''w'' = Some (demo_sub ''pro'' None 3)" "\<not> be_local demo_env" "be_stripe_key demo_env"
    by (simp_all add: b_def demo_defs active_sub_def)
  have lb: "\<not> starts_with (js_lower (s_plan (demo_sub ''pro'' None 3))) ''basic''"
    by (simp add: demo_sub_def) code_simp
  have c: "count_active_workspace_members demo_env b ''w'' = 1"
    by (simp add: count_active_workspace_members_def b_def demo_billing_def)
  obtain b' q t where run: "sync_seats_from_membership demo_env (Some True) b ''w'' 0 = (b', q, t)"
    by (cases "sync_seats_from_membership demo_env (Some True) b ''w'' 0") auto
  with a lb c r g have t: "ss_ok t" "t = seat_sync_done (demo_sub ''pro'' None 3) 1 None"
    "s_seats (the (active_sub b' ''w'')) = 1" "s_plan (the (active_sub b' ''w'')) = ''pro''"
    by (auto simp: sync_seats_from_membership_def Let_def seat_sync_done_def set_included_def set_seats_def
        active_sub_def demo_sub_def)
  from seat_sync_idempotent [OF run t(1), of None] obtain s where
    "active_sub b' ''w'' = Some s" "sync_seats_from_membership demo_env None b' ''w'' 0
      = (b', None, seat_sync_done s (s_seats s) None)" by (auto simp: r)
  with t have "sync_seats_from_membership demo_env None b' ''w'' 0 = (b', None, t)"
    by (simp add: seat_sync_done_def demo_sub_def)
  with run show ?thesis unfolding b_def [symmetric] by blast
qed

lemma seat_sync_halves_legacy_business_witness:
  "\<exists>b1 w1 w2. allocate_monthly_included_local demo_env
       (demo_billing (Some (demo_sub ''business'' None 1)) [] (Some demo_wallet)) ''w'' ''business'' 1 None 0 = Some b1
     \<and> b_wallets b1 ''w'' = Some w1
     \<and> b_wallets (fst (sync_seats_from_membership demo_env None b1 ''w'' 0)) ''w'' = Some w2
     \<and> uw_monthly_included w1 - uw_monthly_included w2 = 20"
proof -
  define b where "b = demo_billing (Some (demo_sub ''business'' None 1)) [] (Some demo_wallet)"
  have r: "resolve_billing_workspace_id demo_env b ''w'' = ''w''"
    by (simp add: b_def demo_defs resolve_billing_workspace_id_def)
  have g: "gs_free_seats (get_active_grants_for_workspace b ''w'' 0) = 0"
    by (simp add: b_def demo_defs get_active_grants_for_workspace_def)
  have "\<not> be_local demo_env" "active_sub b ''w'' = Some (demo_sub ''business'' None 1)"
    "is_legacy_business_price_id (be_prices demo_env) None" "b_wallets b ''w'' = Some demo_wallet"
    by (simp_all add: b_def demo_defs active_sub_def is_legacy_business_price_id_def)
  moreover have "count_active_workspace_members demo_env b ''w'' = 1"
    by (simp add: count_active_workspace_members_def b_def demo_billing_def)
  ultimately show ?thesis
    unfolding b_def [symmetric]
    using seat_sync_halves_legacy_business [OF _ r, of "demo_sub ''business'' None 1" demo_wallet 0 None] g
    by (simp add: demo_sub_def safe_seats_def)
qed

end
