(* ===== verification/Billing_Consume.thy ===== *)
theory Billing_Consume
  imports Billing_Wallet
begin

text \<open>
  Metering (\<^verbatim>\<open>billing.service.ts\<close>, \<^verbatim>\<open>usage-limits.ts\<close>, \<^verbatim>\<open>billing-local.ts\<close>): the balance preflight
  \<^verbatim>\<open>checkUsageBalance\<close>, the debit \<^verbatim>\<open>_consumeUsageTransaction\<close> with its retry loop, the window snapshot
  and the overage status. A transaction is one step on the store: a foreign-key violation raised by
  it undoes its writes, but not the wallet allocated on the plain client nor the promo cache. Work
  the code starts without awaiting it is returned as a list of effects.
\<close>

section \<open>usage-limits.ts\<close>

datatype block_reason =
  Entitlement_Expired | Overage_Cap_Reached | Overage_Payment_Pending | Usage_Limit_Reached

datatype balance_check = Bal_Ok | Bal_Blocked block_reason

record error_payload =
  ep_code :: string
  ep_message :: string

definition usage_limit_error_payload :: "block_reason option \<Rightarrow> error_payload" where
  "usage_limit_error_payload r =
     (case r of
        Some Entitlement_Expired \<Rightarrow>
          \<lparr>ep_code = ''entitlement_expired'',
           ep_message = ''Your on-demand billing entitlement has expired. Reactivate your subscription or license key to continue using on-demand usage.''\<rparr>
      | Some Overage_Cap_Reached \<Rightarrow>
          \<lparr>ep_code = ''overage_cap_reached'',
           ep_message = ''You've reached your on-demand spending cap for this period. Raise your cap in Billing settings to continue.''\<rparr>
      | Some Overage_Payment_Pending \<Rightarrow>
          \<lparr>ep_code = ''overage_payment_pending'',
           ep_message = ''Your latest on-demand usage charge hasn't been paid yet. Pay or confirm the open invoice in Billing settings to continue.''\<rparr>
      | _ \<Rightarrow>
          \<lparr>ep_code = ''usage_limit_reached'',
           ep_message = ''You've reached your usage limit. Enable usage-based pricing or upgrade your plan to continue.''\<rparr>)"

section \<open>Preflight\<close>

datatype billing_effect =
    Heal_Overage_Flag ws_id
  | Reconcile_Overage ws_id string
  | Charge_Blocks ws_id
  | Evaluate_Alerts ws_id

definition heal_overage_flag :: "ws_id \<Rightarrow> billing \<Rightarrow> billing" where
  "heal_overage_flag ws b = update_wallet ws (\<lambda>w. w\<lparr>uw_overage_enabled := False\<rparr>) b"

text \<open>The counters a call is metered against: the caller's seat on a paid plan, else the wallet.\<close>

definition metered_seat :: "billing \<Rightarrow> effective_plan \<Rightarrow> string option \<Rightarrow> ws_id \<Rightarrow> member option" where
  "metered_seat b ep member ws = (if ep_paid_tier ep then find_seat_window b member ws else None)"

definition metered_counters :: "member option \<Rightarrow> wallet \<Rightarrow> counters" where
  "metered_counters seat w = (case seat of None \<Rightarrow> uw_counters w | Some m \<Rightarrow> m_counters m)"

definition window_room :: "window_limits \<Rightarrow> rolled \<Rightarrow> rolled \<Rightarrow> rat" where
  "window_room l five week = min (wl_five l - ro_used five) (wl_week l - ro_used week)"

definition overage_preflight ::
  "wallet \<Rightarrow> effective_plan \<Rightarrow> ws_id \<Rightarrow> rat \<Rightarrow> balance_check \<times> billing_effect list" where
  "overage_preflight w ep ws m =
     (if \<not> uw_overage_enabled w then (Bal_Blocked Usage_Limit_Reached, [])
      else if \<not> ep_paid_tier ep then (Bal_Blocked Entitlement_Expired, [Heal_Overage_Flag ws])
      else case truthy (uw_outstanding w) of
        Some i \<Rightarrow> (Bal_Blocked Overage_Payment_Pending, [Reconcile_Overage ws i])
      | None \<Rightarrow>
          if overage_block_usd (uw_paid_blocks w) \<le> uw_accumulated w - uw_billed w
          then (Bal_Blocked Overage_Payment_Pending, [Charge_Blocks ws])
          else (case uw_hard_limit w of
                  None \<Rightarrow> (Bal_Ok, [])
                | Some h \<Rightarrow>
                    if m \<le> max 0 (h - uw_accumulated w) then (Bal_Ok, [])
                    else (Bal_Blocked Overage_Cap_Reached, [])))"

definition wallet_preflight ::
  "billing_env \<Rightarrow> billing \<Rightarrow> ws_id \<Rightarrow> wallet \<Rightarrow> rat \<Rightarrow> string option \<Rightarrow> int
   \<Rightarrow> balance_check \<times> billing_effect list \<times> billing" where
  "wallet_preflight env b ws w m member now =
     (let ep = resolve_effective_plan env b ws now
      in case ep_limits ep of
           None \<Rightarrow> (Bal_Ok, [], b)
         | Some l \<Rightarrow>
             let c = metered_counters (metered_seat b ep member ws) w
             in if m \<le> window_room l (roll_five c now) (roll_week c now) then (Bal_Ok, [], b)
                else
                  let (promo, b') = resolve_promo_credit_source b ws (Some w) now
                  in if (case promo of None \<Rightarrow> False | Some p \<Rightarrow> m \<le> ps_available p) then (Bal_Ok, [], b')
                     else (let (r, effs) = overage_preflight w ep ws m in (r, effs, b')))"

definition check_usage_balance ::
  "billing_env \<Rightarrow> billing \<Rightarrow> ws_id \<Rightarrow> rat \<Rightarrow> string option \<Rightarrow> int
   \<Rightarrow> balance_check \<times> billing_effect list \<times> billing" where
  "check_usage_balance env b ws0 m member now =
     (if be_local env then (Bal_Ok, [], b)
      else
        let ws = resolve_billing_workspace_id env b ws0
        in case b_wallets b ws of
             Some w \<Rightarrow> wallet_preflight env b ws w m member now
           | None \<Rightarrow>
               (case allocate_free_wallet_local env b ws now of
                  None \<Rightarrow> (Bal_Blocked Usage_Limit_Reached, [], b)
                | Some b' \<Rightarrow>
                    (case b_wallets b' (resolve_billing_workspace_id env b ws) of
                       None \<Rightarrow> (Bal_Blocked Usage_Limit_Reached, [], b')
                     | Some w \<Rightarrow> wallet_preflight env b' ws w m member now)))"

section \<open>Debit\<close>

record consume_params =
  cp_workspace :: ws_id
  cp_billing :: "ws_id option"
  cp_project :: "string option"
  cp_member :: string
  cp_action :: string
  cp_raw :: "rat option"
  cp_billed :: rat

text \<open>\<^verbatim>\<open>Number.POSITIVE_INFINITY\<close> or an amount.\<close>

datatype amount = Unlimited | Usd rat

fun finite_or_zero :: "amount \<Rightarrow> rat" where
  "finite_or_zero Unlimited = 0"
| "finite_or_zero (Usd x) = x"

record consume_result =
  cr_success :: bool
  cr_error :: "string option"
  cr_reason :: "block_reason option"
  cr_remaining :: "amount option"
  cr_overage :: "rat option"
  cr_source :: "usage_source option"
  cr_resets :: "int option"
  cr_window :: "window_kind option"

definition is_new_month :: "int \<Rightarrow> int \<Rightarrow> bool" where
  "is_new_month now reset \<longleftrightarrow> utc_month now \<noteq> utc_month reset \<or> utc_year now \<noteq> utc_year reset"

text \<open>What the branches of the transaction decide: how the call is paid, or why it is refused.\<close>

record charge =
  ch_source :: usage_source
  ch_before :: amount
  ch_after :: amount
  ch_overage :: rat
  ch_promo :: rat
  ch_windows :: bool
  ch_accumulated :: rat

record refusal =
  rf_error :: string
  rf_reason :: block_reason
  rf_source :: "usage_source option"
  rf_window :: window_kind
  rf_resets :: int
  rf_heal :: bool

definition overage_block_reason :: "wallet \<Rightarrow> rat \<Rightarrow> rat \<Rightarrow> bool \<Rightarrow> block_reason option" where
  "overage_block_reason w accumulated due applies =
     (if applies \<and> 0 < due
      then if truthy (uw_outstanding w) \<noteq> None then Some Overage_Payment_Pending
           else (case uw_hard_limit w of
                   None \<Rightarrow> None
                 | Some h \<Rightarrow> if max 0 (h - accumulated) < due then Some Overage_Cap_Reached else None)
      else None)"

text \<open>Past the windows: promo credit, then overage, then refusal. \<open>blocked\<close> is the window that does not
  fit and its reset.\<close>

definition beyond_windows ::
  "bool \<Rightarrow> wallet \<Rightarrow> rat \<Rightarrow> rat \<Rightarrow> window_kind \<times> int \<Rightarrow> rat \<Rightarrow> refusal + charge" where
  "beyond_windows paid w accumulated promo blocked billed =
     (let due = max 0 (billed - promo);
          applies = (uw_overage_enabled w \<and> paid);
          block = overage_block_reason w accumulated due applies;
          stale = (uw_overage_enabled w \<and> \<not> paid)
      in if 0 < promo \<and> (due = 0 \<or> \<not> applies \<or> block \<noteq> None)
         then Inr \<lparr>ch_source = Src_Promo, ch_before = Usd promo, ch_after = Usd (promo - min promo billed),
                   ch_overage = 0, ch_promo = min promo billed, ch_windows = False,
                   ch_accumulated = accumulated\<rparr>
         else if applies
         then (if block = Some Overage_Payment_Pending
               then Inl \<lparr>rf_error = ''Overage payment pending'', rf_reason = Overage_Payment_Pending,
                         rf_source = Some Src_Overage, rf_window = fst blocked, rf_resets = snd blocked,
                         rf_heal = False\<rparr>
               else if block = Some Overage_Cap_Reached
               then Inl \<lparr>rf_error = ''Usage hard limit reached'', rf_reason = Overage_Cap_Reached,
                         rf_source = Some Src_Overage, rf_window = fst blocked, rf_resets = snd blocked,
                         rf_heal = False\<rparr>
               else Inr \<lparr>ch_source = Src_Overage, ch_before = Usd accumulated,
                         ch_after = Usd (accumulated + due), ch_overage = due, ch_promo = promo,
                         ch_windows = False, ch_accumulated = accumulated + due\<rparr>)
         else Inl \<lparr>rf_error = ''Usage limit reached'',
                   rf_reason = (if stale then Entitlement_Expired else Usage_Limit_Reached),
                   rf_source = None, rf_window = fst blocked, rf_resets = snd blocked, rf_heal = stale\<rparr>)"

definition decide_charge ::
  "window_limits option \<Rightarrow> bool \<Rightarrow> wallet \<Rightarrow> rat \<Rightarrow> rat \<Rightarrow> rolled \<Rightarrow> rolled \<Rightarrow> rat \<Rightarrow> refusal + charge" where
  "decide_charge limits paid w accumulated promo five week billed =
     (case limits of
        None \<Rightarrow>
          Inr \<lparr>ch_source = Src_Window, ch_before = Unlimited, ch_after = Unlimited, ch_overage = 0,
               ch_promo = 0, ch_windows = True, ch_accumulated = accumulated\<rparr>
      | Some l \<Rightarrow>
          let five_room = wl_five l - ro_used five;
              week_room = wl_week l - ro_used week;
              fits_five = (billed \<le> five_room);
              fits_week = (billed \<le> week_room)
          in if fits_five \<and> fits_week
             then Inr \<lparr>ch_source = Src_Window, ch_before = Usd (min five_room week_room),
                       ch_after = Usd (min five_room week_room - billed), ch_overage = 0, ch_promo = 0,
                       ch_windows = True, ch_accumulated = accumulated\<rparr>
             else beyond_windows paid w accumulated promo
                    (blocking_window fits_five fits_week (ro_start five) (ro_start week)) billed)"

definition refused :: "refusal \<Rightarrow> consume_result" where
  "refused r =
     \<lparr>cr_success = False, cr_error = Some (rf_error r), cr_reason = Some (rf_reason r),
      cr_remaining = Some (Usd 0), cr_overage = None, cr_source = rf_source r,
      cr_resets = Some (rf_resets r), cr_window = Some (rf_window r)\<rparr>"

definition no_wallet_result :: consume_result where
  "no_wallet_result =
     \<lparr>cr_success = False, cr_error = Some ''No usage wallet found for workspace'', cr_reason = None,
      cr_remaining = None, cr_overage = None, cr_source = None, cr_resets = None, cr_window = None\<rparr>"

definition add_used :: "bool \<Rightarrow> rat \<Rightarrow> rolled \<Rightarrow> rolled" where
  "add_used charged x r = (if charged then r\<lparr>ro_used := ro_used r + x\<rparr> else r)"

definition counters_of :: "rolled \<Rightarrow> rolled \<Rightarrow> counters" where
  "counters_of five week =
     \<lparr>five_start = Some (ro_start five), five_used = ro_used five,
      week_start = Some (ro_start week), week_used = ro_used week\<rparr>"

definition debit_promo :: "rat \<Rightarrow> wallet \<Rightarrow> wallet" where
  "debit_promo x w = w\<lparr>uw_promo := uw_promo w - x\<rparr>"

text \<open>The writes of an accepted debit, in the order of the code: wallet, seat, foreign promo wallet.\<close>

definition write_debit ::
  "ws_id \<Rightarrow> member option \<Rightarrow> promo_source option \<Rightarrow> charge \<Rightarrow> rolled \<Rightarrow> rolled \<Rightarrow> bool \<Rightarrow> int \<Rightarrow> billing \<Rightarrow> billing"
where
  "write_debit ws seat promo ch five week new_month now b =
     (let own = (0 < ch_promo ch \<and> map_option ps_wallet promo = Some ws);
          b1 = update_wallet ws (\<lambda>w.
                 let w1 = (case seat of None \<Rightarrow> w\<lparr>uw_counters := counters_of five week\<rparr> | Some _ \<Rightarrow> w);
                     w2 = w1\<lparr>uw_accumulated := ch_accumulated ch\<rparr>;
                     w3 = (if own then debit_promo (ch_promo ch) w2 else w2)
                 in if new_month then w3\<lparr>uw_last_monthly := now, uw_billed := 0\<rparr> else w3) b;
          b2 = (case seat of None \<Rightarrow> b1 | Some m \<Rightarrow> update_member (m_id m) (counters_of five week) b1)
      in case promo of
           None \<Rightarrow> b2
         | Some p \<Rightarrow>
             if 0 < ch_promo ch \<and> ps_wallet p \<noteq> ws
             then update_wallet (ps_wallet p) (debit_promo (ch_promo ch)) b2 else b2)"

datatype fk_error = FK_Project | FK_Workspace

definition create_event :: "usage_event \<Rightarrow> billing \<Rightarrow> fk_error + billing" where
  "create_event e b =
     (if om_get (b_workspaces b) (e_workspace e) = None then Inl FK_Workspace
      else case e_project e of
        Some p \<Rightarrow>
          if p \<in> set (b_projects b) then Inr (b\<lparr>b_events := b_events b @ [e]\<rparr>) else Inl FK_Project
      | None \<Rightarrow> Inr (b\<lparr>b_events := b_events b @ [e]\<rparr>))"

definition event_of :: "consume_params \<Rightarrow> charge \<Rightarrow> usage_event" where
  "event_of p ch =
     \<lparr>e_workspace = cp_workspace p, e_project = cp_project p, e_member = cp_member p,
      e_action = cp_action p, e_raw = cp_raw p, e_billed = cp_billed p, e_source = ch_source ch,
      e_before = finite_or_zero (ch_before ch), e_after = finite_or_zero (ch_after ch)\<rparr>"

definition charged_result :: "window_limits option \<Rightarrow> charge \<Rightarrow> rolled \<Rightarrow> rolled \<Rightarrow> consume_result" where
  "charged_result limits ch five week =
     \<lparr>cr_success = True, cr_error = None, cr_reason = None,
      cr_remaining = Some (case limits of None \<Rightarrow> Unlimited | Some l \<Rightarrow> Usd (max 0 (window_room l five week))),
      cr_overage = Some (ch_overage ch), cr_source = Some (ch_source ch),
      cr_resets = None, cr_window = None\<rparr>"

definition debit_wallet ::
  "billing_env \<Rightarrow> billing \<Rightarrow> consume_params \<Rightarrow> ws_id \<Rightarrow> wallet \<Rightarrow> int \<Rightarrow> billing \<times> (fk_error + consume_result)"
where
  "debit_wallet env b p ws w now =
     (let ep = resolve_effective_plan env b ws now;
          (promo, b1) = resolve_promo_credit_source b ws (Some w) now;
          available = (case promo of None \<Rightarrow> 0 | Some s \<Rightarrow> ps_available s);
          seat = metered_seat b1 ep (Some (cp_member p)) ws;
          c = metered_counters seat w;
          five = roll_five c now;
          week = roll_week c now;
          new_month = is_new_month now (uw_last_monthly w);
          accumulated = (if new_month then uw_accumulated (carry_overage_into_new_period w)
                         else uw_accumulated w)
      in case decide_charge (ep_limits ep) (ep_paid_tier ep) w accumulated available five week (cp_billed p) of
           Inl r \<Rightarrow> ((if rf_heal r then heal_overage_flag ws b1 else b1), Inr (refused r))
         | Inr ch \<Rightarrow>
             let five' = add_used (ch_windows ch) (cp_billed p) five;
                 week' = add_used (ch_windows ch) (cp_billed p) week
             in case create_event (event_of p ch) (write_debit ws seat promo ch five' week' new_month now b1) of
                  Inl e \<Rightarrow> (b1, Inl e)
                | Inr b2 \<Rightarrow> (b2, Inr (charged_result (ep_limits ep) ch five' week')))"

text \<open>The workspace whose wallet is debited.\<close>

definition billing_of :: "consume_params \<Rightarrow> ws_id" where
  "billing_of p = (case cp_billing p of None \<Rightarrow> cp_workspace p | Some i \<Rightarrow> i)"

definition consume_usage_transaction ::
  "billing_env \<Rightarrow> billing \<Rightarrow> consume_params \<Rightarrow> int \<Rightarrow> billing \<times> (fk_error + consume_result)" where
  "consume_usage_transaction env b p now =
     (let ws = billing_of p
      in case b_wallets b ws of
           Some w \<Rightarrow> debit_wallet env b p ws w now
         | None \<Rightarrow>
             (case allocate_free_wallet_local env b ws now of
                None \<Rightarrow> (b, Inr no_wallet_result)
              | Some b' \<Rightarrow>
                  (case b_wallets b' ws of
                     None \<Rightarrow> (b', Inr no_wallet_result)
                   | Some w \<Rightarrow> debit_wallet env b' p ws w now)))"

section \<open>Retries and local mode\<close>

definition record_local_usage :: "billing \<Rightarrow> consume_params \<Rightarrow> billing \<times> consume_result" where
  "record_local_usage b p =
     (let e = \<lparr>e_workspace = cp_workspace p, e_project = cp_project p, e_member = cp_member p,
               e_action = cp_action p, e_raw = cp_raw p, e_billed = 0, e_source = Src_Daily,
               e_before = 0, e_after = 0\<rparr>
      in ((case create_event e b of Inl _ \<Rightarrow> b | Inr b' \<Rightarrow> b'),
          \<lparr>cr_success = True, cr_error = None, cr_reason = None, cr_remaining = Some Unlimited,
           cr_overage = Some 0, cr_source = Some Src_Daily, cr_resets = None, cr_window = None\<rparr>))"

definition fk_retry_delays :: "int list" where
  "fk_retry_delays = [1000, 2000, 4000]"

text \<open>The retry loop. \<open>during d\<close> is what everyone else does to the store while this call sleeps
  \<open>d\<close> milliseconds.\<close>

fun consume_attempts ::
  "int list \<Rightarrow> (int \<Rightarrow> billing \<Rightarrow> billing) \<Rightarrow> billing_env \<Rightarrow> billing \<Rightarrow> consume_params \<Rightarrow> int
   \<Rightarrow> billing \<times> (fk_error + consume_result)" where
  "consume_attempts [] during env b p now = consume_usage_transaction env b p now"
| "consume_attempts (d # ds) during env b p now =
     (case consume_usage_transaction env b p now of
        (b', Inl FK_Project) \<Rightarrow>
          if truthy (cp_project p) \<noteq> None then consume_attempts ds during env (during d b') p (now + d)
          else (b', Inl FK_Project)
      | r \<Rightarrow> r)"

definition consume_effects :: "ws_id \<Rightarrow> consume_result \<Rightarrow> billing_effect list" where
  "consume_effects ws r =
     (if cr_success r
      then (if 0 < (case cr_overage r of None \<Rightarrow> 0 | Some x \<Rightarrow> x) then [Charge_Blocks ws] else [])
           @ [Evaluate_Alerts ws]
      else [])"

definition consume_usage_local ::
  "(int \<Rightarrow> billing \<Rightarrow> billing) \<Rightarrow> billing_env \<Rightarrow> billing \<Rightarrow> consume_params \<Rightarrow> int
   \<Rightarrow> billing \<times> (fk_error + consume_result) \<times> billing_effect list" where
  "consume_usage_local during env b p now =
     (if be_local env
      then (let (b', r) = record_local_usage b p in (b', Inr r, []))
      else
        let ws = (case cp_billing p of
                    Some i \<Rightarrow> i | None \<Rightarrow> resolve_billing_workspace_id env b (cp_workspace p));
            (b', r) = consume_attempts fk_retry_delays during env b (p\<lparr>cp_billing := Some ws\<rparr>) now
        in (b', r, (case r of Inl _ \<Rightarrow> [] | Inr x \<Rightarrow> consume_effects ws x)))"

section \<open>Status\<close>

record overage_status =
  os_enabled :: bool
  os_paid :: bool
  os_active :: bool

definition get_overage_status :: "billing_env \<Rightarrow> billing \<Rightarrow> ws_id \<Rightarrow> int \<Rightarrow> overage_status" where
  "get_overage_status env b ws0 now =
     (let ws = resolve_billing_workspace_id env b ws0;
          paid = ep_paid_tier (resolve_effective_plan env b ws now);
          enabled = (case b_wallets b ws of None \<Rightarrow> False | Some w \<Rightarrow> uw_overage_enabled w)
      in \<lparr>os_enabled = enabled, os_paid = paid, os_active = enabled \<and> paid\<rparr>)"

record window_snapshot =
  sn_kind :: window_kind
  sn_used :: rat
  sn_limit :: "rat option"
  sn_utilization :: rat
  sn_resets :: "int option"

definition snapshot_window :: "window_kind \<Rightarrow> rolled \<Rightarrow> rat option \<Rightarrow> int \<Rightarrow> bool \<Rightarrow> window_snapshot" where
  "snapshot_window kind r limit duration opened =
     (let used = (if opened then ro_used r else 0)
      in \<lparr>sn_kind = kind, sn_used = used, sn_limit = limit,
          sn_utilization = (case limit of None \<Rightarrow> 0 | Some l \<Rightarrow> if 0 < l then min 1 (used / l) else 0),
          sn_resets = (if opened then Some (ro_start r + duration) else None)\<rparr>)"

definition usage_windows_of ::
  "effective_plan \<Rightarrow> counters \<Rightarrow> int \<Rightarrow> window_snapshot \<times> window_snapshot" where
  "usage_windows_of ep c now =
     (let five = roll_five c now;
          week = roll_week c now
      in (snapshot_window Five_Hour five (map_option wl_five (ep_limits ep)) five_hour_ms
            (five_start c = Some (ro_start five)),
          snapshot_window Weekly week (map_option wl_week (ep_limits ep)) seven_day_ms
            (week_start c = Some (ro_start week))))"

text \<open>\<^verbatim>\<open>getUsageWindows\<close>; \<^const>\<open>None\<close> when allocating the missing wallet raises.\<close>

definition get_usage_windows ::
  "billing_env \<Rightarrow> billing \<Rightarrow> ws_id \<Rightarrow> string option \<Rightarrow> int
   \<Rightarrow> ((window_snapshot \<times> window_snapshot) \<times> billing) option" where
  "get_usage_windows env b ws0 member now =
     (let ws = resolve_billing_workspace_id env b ws0;
          found = (case b_wallets b ws of
              Some w \<Rightarrow> Some (Some w, b)
            | None \<Rightarrow>
                map_option (\<lambda>b'. (b_wallets b' (resolve_billing_workspace_id env b ws), b'))
                  (allocate_free_wallet_local env b ws now))
      in case found of
           None \<Rightarrow> None
         | Some (w, b') \<Rightarrow>
             let ep = resolve_effective_plan env b' ws now;
                 seat = metered_seat b' ep member ws;
                 c = (case seat of
                        Some m \<Rightarrow> m_counters m
                      | None \<Rightarrow> (case w of None \<Rightarrow> fresh_counters | Some x \<Rightarrow> uw_counters x))
             in Some (usage_windows_of ep c now, b'))"

section \<open>Lemmas\<close>

subsection \<open>The decision\<close>

lemma block_reason_cases:
  "overage_block_reason w acc due a = None \<or> overage_block_reason w acc due a = Some Overage_Payment_Pending
   \<or> overage_block_reason w acc due a = Some Overage_Cap_Reached"
  by (simp add: overage_block_reason_def split: option.split)

lemma beyond_windows_accepted:
  assumes "beyond_windows paid w acc promo blocked x = Inr ch" and "0 \<le> promo"
  shows "\<not> ch_windows ch \<and>
    ((ch_source ch = Src_Promo \<and> ch_overage ch = 0 \<and> ch_promo ch = min promo x \<and> ch_accumulated ch = acc
      \<and> 0 < promo) \<or>
     (ch_source ch = Src_Overage \<and> ch_overage ch = max 0 (x - promo) \<and> ch_promo ch = promo
      \<and> ch_accumulated ch = acc + ch_overage ch \<and> uw_overage_enabled w \<and> paid
      \<and> overage_block_reason w acc (ch_overage ch) True = None \<and> (promo = 0 \<or> promo < x)))"
proof -
  define due where "due = max 0 (x - promo)"
  define applies where "applies \<longleftrightarrow> uw_overage_enabled w \<and> paid"
  define block where "block = overage_block_reason w acc due applies"
  note read = assms(1) [unfolded beyond_windows_def Let_def, folded due_def applies_def, folded block_def]
  have cases: "block = None \<or> block = Some Overage_Payment_Pending \<or> block = Some Overage_Cap_Reached"
    unfolding block_def by (rule block_reason_cases)
  show ?thesis
  proof (cases "0 < promo \<and> (due = 0 \<or> \<not> applies \<or> block \<noteq> None)")
    case True
    with read have "ch = \<lparr>ch_source = Src_Promo, ch_before = Usd promo,
        ch_after = Usd (promo - min promo x), ch_overage = 0, ch_promo = min promo x, ch_windows = False,
        ch_accumulated = acc\<rparr>"
      by (simp only: if_P simp_thms sum.inject)
    with True show ?thesis by simp
  next
    case False
    with read cases have a: "applies" "block = None" by (auto split: if_splits)
    with read False have "ch = \<lparr>ch_source = Src_Overage, ch_before = Usd acc, ch_after = Usd (acc + due),
        ch_overage = due, ch_promo = promo, ch_windows = False, ch_accumulated = acc + due\<rparr>"
      by (auto split: if_splits)
    moreover have "promo = 0 \<or> promo < x" using False a assms(2) by (auto simp: due_def)
    moreover have "uw_overage_enabled w" "paid" "overage_block_reason w acc due True = None"
      using a by (simp_all add: applies_def block_def)
    ultimately show ?thesis by (simp add: due_def)
  qed
qed

lemma decide_charge_accepted:
  assumes "decide_charge limits paid w acc promo five week x = Inr ch" and "0 \<le> promo"
  obtains (window) "ch_windows ch" "ch_source ch = Src_Window" "ch_overage ch = 0" "ch_promo ch = 0"
      "ch_accumulated ch = acc"
      "\<And>l. limits = Some l \<Longrightarrow> ro_used five + x \<le> wl_five l \<and> ro_used week + x \<le> wl_week l"
  | (promo) "\<not> ch_windows ch" "ch_source ch = Src_Promo" "ch_overage ch = 0" "ch_promo ch = min promo x"
      "ch_accumulated ch = acc" "0 < promo"
  | (overage) "\<not> ch_windows ch" "ch_source ch = Src_Overage" "ch_overage ch = max 0 (x - promo)"
      "ch_promo ch = promo" "ch_accumulated ch = acc + ch_overage ch" "uw_overage_enabled w" "paid"
      "overage_block_reason w acc (ch_overage ch) True = None" "promo = 0 \<or> promo < x"
proof (cases "\<exists>blocked. beyond_windows paid w acc promo blocked x = Inr ch")
  case True
  then obtain blocked where "beyond_windows paid w acc promo blocked x = Inr ch" ..
  from beyond_windows_accepted [OF this assms(2)] show ?thesis using promo overage by blast
next
  case False
  then have "beyond_windows paid w acc promo blocked x \<noteq> Inr ch" for blocked by blast
  with assms(1) show ?thesis
    by (intro window) (auto simp: decide_charge_def Let_def split: option.splits if_splits)
qed

lemma decide_charge_refused:
  assumes "decide_charge limits paid w acc promo five week x = Inl r"
  shows "\<exists>l. limits = Some l
    \<and> \<not> (x \<le> wl_five l - ro_used five \<and> x \<le> wl_week l - ro_used week)
    \<and> (rf_window r, rf_resets r) = blocking_window (x \<le> wl_five l - ro_used five)
         (x \<le> wl_week l - ro_used week) (ro_start five) (ro_start week)
    \<and> (rf_heal r \<longrightarrow> \<not> paid \<and> uw_overage_enabled w)"
  using assms by (auto simp: decide_charge_def beyond_windows_def Let_def split: option.splits if_splits)

text \<open>Who is refused: no promo credit to absorb the call, and overage off, lapsed, paused or capped.\<close>

lemma decide_charge_fits:
  assumes "limits = Some l" and "x \<le> wl_five l - ro_used five" and "x \<le> wl_week l - ro_used week"
  shows "\<exists>ch. decide_charge limits paid w acc promo five week x = Inr ch \<and> ch_source ch = Src_Window"
  using assms by (simp add: decide_charge_def Let_def)

lemma beyond_windows_promo:
  "x \<le> promo \<Longrightarrow> 0 < promo \<Longrightarrow> \<exists>ch. beyond_windows paid w acc promo blocked x = Inr ch"
  by (simp add: beyond_windows_def Let_def)

lemma beyond_windows_overage:
  assumes "uw_overage_enabled w" and "paid" and "truthy (uw_outstanding w) = None" and "0 \<le> promo"
    and "case uw_hard_limit w of None \<Rightarrow> True | Some h \<Rightarrow> x \<le> max 0 (h - acc)"
  shows "\<exists>ch. beyond_windows paid w acc promo blocked x = Inr ch"
proof -
  have "overage_block_reason w acc (max 0 (x - promo)) True = None"
    using assms by (auto simp: overage_block_reason_def split: option.splits)
  then show ?thesis using assms(1,2) by (simp add: beyond_windows_def Let_def)
qed

subsection \<open>The writes\<close>

lemma write_debit_wallets:
  "b_wallets (write_debit ws seat promo ch five week nm now b) u =
     (if u = ws
      then map_option (\<lambda>w.
        let w1 = (case seat of None \<Rightarrow> w\<lparr>uw_counters := counters_of five week\<rparr> | Some _ \<Rightarrow> w);
            w2 = w1\<lparr>uw_accumulated := ch_accumulated ch\<rparr>;
            w3 = (if 0 < ch_promo ch \<and> map_option ps_wallet promo = Some ws
                  then debit_promo (ch_promo ch) w2 else w2)
        in if nm then w3\<lparr>uw_last_monthly := now, uw_billed := 0\<rparr> else w3) (b_wallets b ws)
      else if 0 < ch_promo ch \<and> map_option ps_wallet promo = Some u
      then map_option (debit_promo (ch_promo ch)) (b_wallets b u)
      else b_wallets b u)"
  by (auto simp: write_debit_def Let_def update_wallet_get split: option.split)

lemma write_debit_members:
  "b_members (write_debit ws seat promo ch five week nm now b) =
     (case seat of None \<Rightarrow> b_members b
      | Some m \<Rightarrow> map (\<lambda>x. if m_id x = m_id m then x\<lparr>m_counters := counters_of five week\<rparr> else x) (b_members b))"
  by (simp add: write_debit_def Let_def update_member_def split: option.split)

lemma write_debit_frame [frame_simps]:
  "b_workspaces (write_debit ws seat promo ch five week nm now b) = b_workspaces b"
  "b_projects (write_debit ws seat promo ch five week nm now b) = b_projects b"
  "b_subs (write_debit ws seat promo ch five week nm now b) = b_subs b"
  "b_grants (write_debit ws seat promo ch five week nm now b) = b_grants b"
  "b_events (write_debit ws seat promo ch five week nm now b) = b_events b"
  by (simp_all add: write_debit_def Let_def split: option.split)

lemma create_event_Inr:
  "create_event e b = Inr b' \<longleftrightarrow>
     om_get (b_workspaces b) (e_workspace e) \<noteq> None \<and> (\<forall>p. e_project e = Some p \<longrightarrow> p \<in> set (b_projects b))
     \<and> b' = b\<lparr>b_events := b_events b @ [e]\<rparr>"
  by (auto simp: create_event_def split: option.splits)

subsection \<open>The transaction\<close>

text \<open>What \<^verbatim>\<open>debit_wallet\<close> reads, named once for the proofs below.\<close>

definition carried :: "wallet \<Rightarrow> int \<Rightarrow> rat" where
  "carried w now =
     (if is_new_month now (uw_last_monthly w) then uw_accumulated (carry_overage_into_new_period w)
      else uw_accumulated w)"

definition promo_of :: "promo_source option \<Rightarrow> rat" where
  "promo_of p = (case p of None \<Rightarrow> 0 | Some s \<Rightarrow> ps_available s)"

lemma debit_wallet_cases:
  assumes "debit_wallet env b p ws w now = (b', res)"
    and "resolve_promo_credit_source b ws (Some w) now = (promo, b1)"
  defines "ep \<equiv> resolve_effective_plan env b ws now"
  defines "seat \<equiv> metered_seat b ep (Some (cp_member p)) ws"
  defines "five \<equiv> roll_five (metered_counters seat w) now"
  defines "week \<equiv> roll_week (metered_counters seat w) now"
  obtains (refused) r where "decide_charge (ep_limits ep) (ep_paid_tier ep) w (carried w now) (promo_of promo)
        five week (cp_billed p) = Inl r" "res = Inr (refused r)"
      "b' = (if rf_heal r then heal_overage_flag ws b1 else b1)"
  | (raised) e where "res = Inl e" "b' = b1"
  | (charged) ch five' week' where "decide_charge (ep_limits ep) (ep_paid_tier ep) w (carried w now)
        (promo_of promo) five week (cp_billed p) = Inr ch"
      "five' = add_used (ch_windows ch) (cp_billed p) five" "week' = add_used (ch_windows ch) (cp_billed p) week"
      "create_event (event_of p ch) (write_debit ws seat promo ch five' week'
         (is_new_month now (uw_last_monthly w)) now b1) = Inr b'"
      "res = Inr (charged_result (ep_limits ep) ch five' week')"
proof -
  have seat1: "metered_seat b1 ep (Some (cp_member p)) ws = seat"
    using resolve_promo_frame [OF assms(2)] find_seat_window_cong [of b1 b]
    by (simp add: seat_def metered_seat_def)
  show ?thesis
  proof (cases "decide_charge (ep_limits ep) (ep_paid_tier ep) w (carried w now) (promo_of promo)
      five week (cp_billed p)")
    case (Inl r)
    with assms(1) show ?thesis
      using refused [of r] unfolding debit_wallet_def assms(2)
      by (simp add: ep_def [symmetric] seat1 five_def week_def carried_def promo_of_def Let_def)
  next
    case (Inr ch)
    define five' where "five' = add_used (ch_windows ch) (cp_billed p) five"
    define week' where "week' = add_used (ch_windows ch) (cp_billed p) week"
    define ev where "ev = create_event (event_of p ch) (write_debit ws seat promo ch five' week'
         (is_new_month now (uw_last_monthly w)) now b1)"
    from assms(1) Inr have "(b', res) = (case ev of Inl e \<Rightarrow> (b1, Inl e)
        | Inr b2 \<Rightarrow> (b2, Inr (charged_result (ep_limits ep) ch five' week')))"
      unfolding debit_wallet_def assms(2) ev_def five'_def week'_def five_def week_def
      by (simp add: ep_def [symmetric] seat1 carried_def promo_of_def Let_def)
    then show ?thesis
      using raised charged [OF Inr five'_def week'_def] unfolding ev_def by (cases ev) (auto simp: ev_def)
  qed
qed

lemma consume_existing:
  "b_wallets b (billing_of p) = Some w \<Longrightarrow>
   consume_usage_transaction env b p now = debit_wallet env b p (billing_of p) w now"
  by (simp add: consume_usage_transaction_def)

lemma charged_result_simps [simp]:
  "cr_success (charged_result l ch f w)"
  "cr_overage (charged_result l ch f w) = Some (ch_overage ch)"
  "cr_source (charged_result l ch f w) = Some (ch_source ch)"
  by (simp_all add: charged_result_def)

lemma refused_simps [simp]:
  "\<not> cr_success (refused r)"
  "cr_resets (refused r) = Some (rf_resets r)"
  by (simp_all add: refused_def)

lemma event_of_simps [simp]:
  "e_workspace (event_of p ch) = cp_workspace p" "e_project (event_of p ch) = cp_project p"
  "e_billed (event_of p ch) = cp_billed p" "e_source (event_of p ch) = ch_source ch"
  by (simp_all add: event_of_def)

text \<open>Accepted decisions are written when the event's workspace and project exist.\<close>

definition event_fits :: "billing \<Rightarrow> consume_params \<Rightarrow> bool" where
  "event_fits b p \<longleftrightarrow>
     om_get (b_workspaces b) (cp_workspace p) \<noteq> None
     \<and> (case cp_project p of None \<Rightarrow> True | Some i \<Rightarrow> i \<in> set (b_projects b))"

lemma debit_wallet_accepts:
  assumes "resolve_promo_credit_source b ws (Some w) now = (promo, b1)"
    and "decide_charge (ep_limits ep) (ep_paid_tier ep) w (carried w now) (promo_of promo)
      (roll_five (metered_counters (metered_seat b ep (Some (cp_member p)) ws) w) now)
      (roll_week (metered_counters (metered_seat b ep (Some (cp_member p)) ws) w) now) (cp_billed p) = Inr ch"
    and "ep = resolve_effective_plan env b ws now" and "event_fits b p"
  shows "\<exists>b' r. debit_wallet env b p ws w now = (b', Inr r) \<and> cr_success r \<and> cr_source r = Some (ch_source ch)"
proof -
  note f = resolve_promo_frame [OF assms(1)]
  have fits: "create_event (event_of p ch) (write_debit ws seat promo ch five week nm now b1)
      = Inr ((write_debit ws seat promo ch five week nm now b1)
          \<lparr>b_events := b_events b1 @ [event_of p ch]\<rparr>)" for seat five week nm
    using assms(4) f by (auto simp: create_event_def frame_simps event_fits_def split: option.splits)
  obtain b' res where d: "debit_wallet env b p ws w now = (b', res)"
    by (cases "debit_wallet env b p ws w now")
  have seat1: "metered_seat b1 ep (Some (cp_member p)) ws = metered_seat b ep (Some (cp_member p)) ws"
    using f find_seat_window_cong [of b1 b] by (simp add: metered_seat_def)
  show ?thesis
    using assms(2) unfolding debit_wallet_def assms(1)
    by (simp add: assms(3) [symmetric] seat1 carried_def promo_of_def Let_def fits)
qed

lemma resolve_promo_again:
  assumes "resolve_promo_credit_source b ws own now = (p, b1)"
  shows "resolve_promo_credit_source b1 ws own now = (p, b1)"
proof (cases "0 < wallet_promo own now")
  case True
  with assms show ?thesis by (auto simp: resolve_promo_credit_source_def Let_def)
next
  case nocredit: False
  show ?thesis
  proof (cases "live_promo_entry b ws now")
    case None
    define e where "e = lookup_promo_entry b ws now"
    define b2 where "b2 = b\<lparr>b_promo_cache := (b_promo_cache b)(ws \<mapsto> e)\<rparr>"
    have live: "live_promo_entry b2 ws now = Some e"
      by (simp add: b2_def live_promo_entry_def e_def lookup_promo_entry_def Let_def promo_source_ttl_ms_def)
    from assms nocredit None have "resolve_promo_credit_source b ws own now
        = resolve_promo_credit_source b2 ws own now"
      by (simp add: resolve_promo_credit_source_def Let_def live flip: e_def b2_def)
    moreover from assms nocredit None have "b1 = b2"
      by (auto simp: resolve_promo_credit_source_def Let_def simp flip: e_def b2_def
          split: option.splits ws_kind.splits)
    ultimately show ?thesis using assms by simp
  next
    case (Some e)
    with assms nocredit have "b1 = b"
      by (auto simp: resolve_promo_credit_source_def Let_def split: option.splits ws_kind.splits)
    with assms show ?thesis by simp
  qed
qed

end
