(* ===== verification/Billing_Meter.thy ===== *)
theory Billing_Meter
  imports Billing_Consume
begin

text \<open>
  What metering guarantees: no debit takes a seat or a wallet past its allowance, one seat never
  spends another's, every charged dollar lands in one place, a refused or failed debit costs nothing,
  overage accrues only where it can be collected, and the preflight admits only what the debit
  accepts.
\<close>

section \<open>Allowances\<close>

definition inside_limits :: "window_limits \<Rightarrow> counters \<Rightarrow> bool" where
  "inside_limits l c \<longleftrightarrow> five_used c \<le> wl_five l \<and> week_used c \<le> wl_week l"

text \<open>The limits of a workspace whose plan does not depend on the time: those of its active
  subscription, or of the free plan when no grant names it.\<close>

definition fixed_limits :: "billing_env \<Rightarrow> billing \<Rightarrow> ws_id \<Rightarrow> window_limits option" where
  "fixed_limits env b ws =
     (if active_sub b ws \<noteq> None \<or> (\<forall>g \<in> set (b_grants b). g_workspace g \<noteq> ws)
      then ep_limits (resolve_effective_plan env b ws 0) else None)"

definition allowance_inv :: "billing_env \<Rightarrow> billing \<Rightarrow> bool" where
  "allowance_inv env b \<longleftrightarrow>
     distinct (map m_id (b_members b))
     \<and> (\<forall>m \<in> set (b_members b). \<forall>ws l. m_workspace m = Some ws \<longrightarrow> m_project m = None \<longrightarrow>
           active_sub b ws \<noteq> None \<longrightarrow> fixed_limits env b ws = Some l \<longrightarrow> inside_limits l (m_counters m))
     \<and> (\<forall>ws w l. b_wallets b ws = Some w \<longrightarrow> fixed_limits env b ws = Some l \<longrightarrow> inside_limits l (uw_counters w))"

lemma grants_none:
  "\<forall>g \<in> set (b_grants b). g_workspace g \<noteq> ws \<Longrightarrow>
   get_active_grants_for_workspace b ws now = get_active_grants_for_workspace b ws 0"
proof -
  assume no: "\<forall>g \<in> set (b_grants b). g_workspace g \<noteq> ws"
  then have "filter (\<lambda>g. g_workspace g = ws \<and> grant_active t g) (b_grants b) = []" for t
    by (auto simp: filter_empty_conv)
  then show ?thesis by (simp add: get_active_grants_for_workspace_def)
qed

lemma fixed_limits_Some:
  "fixed_limits env b ws = Some l \<Longrightarrow> ep_limits (resolve_effective_plan env b ws now) = Some l"
  using grants_none [of b ws now]
  by (auto simp: fixed_limits_def resolve_effective_plan_def Let_def split: if_splits option.splits)

lemma fixed_limits_pos: "fixed_limits env b ws = Some l \<Longrightarrow> 0 < wl_five l \<and> 0 < wl_week l"
  using effective_limits_pos [OF fixed_limits_Some [of env b ws l 0]] by force

lemma fixed_limits_cong:
  assumes "b_subs b' = b_subs b" and "b_grants b' = b_grants b"
  shows "fixed_limits env b' ws = fixed_limits env b ws"
  using assms effective_plan_cong [OF assms, of env ws 0]
  by (simp add: fixed_limits_def active_sub_def)

lemma active_sub_cong: "b_subs b' = b_subs b \<Longrightarrow> active_sub b' ws = active_sub b ws"
  by (simp add: active_sub_def)

text \<open>The counters a debit writes are within the limits whenever those it read are.\<close>

lemma charged_within:
  assumes "decide_charge (Some l) paid w acc promo (roll_five c now) (roll_week c now) x = Inr ch"
    and "0 \<le> promo" and "inside_limits l c" and "0 < wl_five l" and "0 < wl_week l"
  shows "inside_limits l (counters_of (add_used (ch_windows ch) x (roll_five c now))
    (add_used (ch_windows ch) x (roll_week c now)))"
proof -
  have r: "ro_used (roll_five c now) \<le> wl_five l" "ro_used (roll_week c now) \<le> wl_week l"
    using assms(3-5) by (simp_all add: roll_defs roll_window_used_le inside_limits_def)
  from assms(1,2) show ?thesis
    by (cases rule: decide_charge_accepted) (auto simp: inside_limits_def counters_of_def add_used_def r)
qed

lemma promo_of_nonneg:
  "resolve_promo_credit_source b ws own now = (p, b') \<Longrightarrow> 0 \<le> promo_of p"
  using resolve_promo_pos [of b ws own now _ b'] by (cases p) (force simp: promo_of_def)+

lemma metered_seat_Some:
  "metered_seat b ep u ws = Some m \<Longrightarrow> m \<in> set (b_members b) \<and> m_workspace m = Some ws
     \<and> m_project m = None \<and> u = Some (m_user m) \<and> ep_paid_tier ep"
  by (auto simp: metered_seat_def dest: find_seat_window_Some split: if_splits)

lemma wallet_counters_write:
  "b_wallets (write_debit ws seat promo ch five week nm now b) u = Some w' \<Longrightarrow>
   \<exists>w. b_wallets b u = Some w
     \<and> uw_counters w' = (if u = ws \<and> seat = None then counters_of five week else uw_counters w)"
  by (cases seat) (auto simp: write_debit_wallets Let_def debit_promo_def split: if_splits)

lemma member_write:
  assumes "x' \<in> set (b_members (write_debit ws seat promo ch five week nm now b))"
  shows "\<exists>x \<in> set (b_members b). m_id x' = m_id x \<and> m_workspace x' = m_workspace x
    \<and> m_project x' = m_project x
    \<and> m_counters x' = (if (\<exists>m. seat = Some m \<and> m_id m = m_id x) then counters_of five week else m_counters x)"
proof (cases seat)
  case None
  with assms show ?thesis by (auto simp: write_debit_members)
next
  case (Some m)
  with assms obtain x where x: "x \<in> set (b_members b)"
    and x': "x' = (if m_id x = m_id m then x\<lparr>m_counters := counters_of five week\<rparr> else x)"
    by (auto simp: write_debit_members)
  show ?thesis by (rule bexI [OF _ x]) (simp add: x' Some eq_commute)
qed

lemma ids_write:
  "map m_id (b_members (write_debit ws seat promo ch five week nm now b)) = map m_id (b_members b)"
  by (auto simp: write_debit_members o_def split: option.split)

lemma fresh_inside: "fixed_limits env b ws = Some l \<Longrightarrow> inside_limits l fresh_counters"
  using fixed_limits_pos [of env b ws l] by (simp add: inside_limits_def fresh_counters_def)

text \<open>Steps that leave seats and plans alone and give a wallet old or fresh counters.\<close>

lemma allowance_transfer:
  assumes inv: "allowance_inv env b"
    and subs: "b_subs b' = b_subs b" and grants: "b_grants b' = b_grants b"
    and members: "b_members b' = b_members b"
    and wallets: "\<And>u w'. b_wallets b' u = Some w' \<Longrightarrow>
      uw_counters w' = fresh_counters \<or> (\<exists>w. b_wallets b u = Some w \<and> uw_counters w' = uw_counters w)"
  shows "allowance_inv env b'"
proof -
  note fl = fixed_limits_cong [OF subs grants, of env] and act = active_sub_cong [OF subs]
  have "inside_limits l (uw_counters w')"
    if "b_wallets b' u = Some w'" "fixed_limits env b u = Some l" for u w' l
    using wallets [OF that(1)] that(2) inv fresh_inside [OF that(2)]
    by (auto simp: allowance_inv_def)
  with inv show ?thesis by (simp add: allowance_inv_def fl act members)
qed

lemma heal_allowance [inv_intros]: "allowance_inv env b \<Longrightarrow> allowance_inv env (heal_overage_flag ws b)"
  by (erule allowance_transfer) (auto simp: heal_overage_flag_def update_wallet_get split: if_splits)

lemma promo_allowance [inv_intros]:
  assumes "resolve_promo_credit_source b ws own now = (p, b')" and "allowance_inv env b"
  shows "allowance_inv env b'"
  using resolve_promo_frame [OF assms(1)] by (intro allowance_transfer [OF assms(2)]) auto

lemma event_allowance [inv_intros]:
  assumes "create_event e b = Inr b'" and "allowance_inv env b"
  shows "allowance_inv env b'"
  using assms(1) by (intro allowance_transfer [OF assms(2)]) (auto simp: create_event_Inr)

lemma put_wallet_allowance:
  assumes "put_wallet ws w b = Some b'" and "uw_counters w = fresh_counters" and "allowance_inv env b"
  shows "allowance_inv env b'"
  using assms(1,2) by (intro allowance_transfer [OF assms(3)]) (auto simp: put_wallet_Some split: if_splits)

lemma put_fresh:
  "put_wallet u w b = Some b' \<Longrightarrow> b_wallets b u = None \<Longrightarrow> uw_counters w = fresh_counters \<Longrightarrow>
   uw_promo w = 0 \<Longrightarrow>
   \<exists>u. b_wallets b u = None \<and> (\<exists>w. put_wallet u w b = Some b' \<and> uw_counters w = fresh_counters \<and> uw_promo w = 0)"
  by blast

lemma allocate_free_put:
  assumes "allocate_free_wallet_local env b ws now = Some b'"
  shows "b' = b \<or> (\<exists>u. b_wallets b u = None
    \<and> (\<exists>w. put_wallet u w b = Some b' \<and> uw_counters w = fresh_counters \<and> uw_promo w = 0))"
proof (cases "b_wallets b (resolve_billing_workspace_id env b ws)")
  case None
  have "uw_counters (new_wallet now) = fresh_counters" "uw_promo (new_wallet now) = 0"
    by (simp_all add: new_wallet_def)
  with assms None show ?thesis
    by (intro disjI2)
      (auto simp: allocate_free_wallet_local_def apply_grant_monthly_allocation_local_def Let_def
        simp del: paid_plan_iff split: option.splits if_splits;
       (rule put_fresh, assumption, assumption, simp, simp))
next
  case (Some w)
  with assms show ?thesis by (simp add: allocate_free_wallet_local_def)
qed

lemma allocate_free_allowance [inv_intros]:
  assumes "allocate_free_wallet_local env b ws now = Some b'" and "allowance_inv env b"
  shows "allowance_inv env b'"
  using allocate_free_put [OF assms(1)] assms(2) put_wallet_allowance by blast

text \<open>A wallet or seat that is written: its counters are inside the limits of its workspace.\<close>

lemma write_allowance:
  assumes inv: "allowance_inv env b" and "b_wallets b ws = Some w"
    and seat: "metered_seat b (resolve_effective_plan env b ws now) u ws = seat"
    and ok: "\<And>l. fixed_limits env b ws = Some l \<Longrightarrow> inside_limits l (counters_of five week)"
  shows "allowance_inv env (write_debit ws seat promo ch five week nm now b)"
proof -
  define b' where "b' = write_debit ws seat promo ch five week nm now b"
  have subs: "b_subs b' = b_subs b" and grants: "b_grants b' = b_grants b"
    by (simp_all add: b'_def frame_simps)
  note fl = fixed_limits_cong [OF subs grants, of env] and act = active_sub_cong [OF subs]
  have "inside_limits l (uw_counters w')"
    if "b_wallets b' v = Some w'" "fixed_limits env b v = Some l" for v w' l
    using wallet_counters_write [of ws seat promo ch five week nm now b v w'] that inv ok
    by (auto simp: b'_def allowance_inv_def split: if_splits)
  moreover have "inside_limits l (m_counters x')"
    if x': "x' \<in> set (b_members b')" "m_workspace x' = Some v" "m_project x' = None"
      and v: "active_sub b v \<noteq> None" "fixed_limits env b v = Some l" for x' v l
  proof -
    from member_write [OF x'(1) [unfolded b'_def]] x' obtain x where x: "x \<in> set (b_members b)"
      "m_workspace x = Some v" "m_project x = None"
      and c: "m_counters x' = (if (\<exists>m. seat = Some m \<and> m_id m = m_id x) then counters_of five week
        else m_counters x)" by metis
    show ?thesis
    proof (cases "\<exists>m. seat = Some m \<and> m_id m = m_id x")
      case False
      with c x v inv show ?thesis by (auto simp: allowance_inv_def)
    next
      case True
      then obtain m where m: "seat = Some m" "m_id m = m_id x" by blast
      with seat have "m \<in> set (b_members b)" "m_workspace m = Some ws"
        by (auto dest: metered_seat_Some)
      moreover from this m x inv have "m = x"
        by (auto simp: allowance_inv_def distinct_map inj_on_def)
      ultimately have "v = ws" using x by simp
      with True c v ok show ?thesis by simp
    qed
  qed
  moreover have "distinct (map m_id (b_members b'))"
    using inv by (simp add: b'_def ids_write allowance_inv_def)
  ultimately show ?thesis
    unfolding b'_def [symmetric] by (simp add: allowance_inv_def fl act)
qed

lemma debit_wallet_allowance:
  assumes d: "debit_wallet env b p ws w now = (b', res)" and inv: "allowance_inv env b"
    and w: "b_wallets b ws = Some w"
  shows "allowance_inv env b'"
proof -
  obtain promo b1 where pr: "resolve_promo_credit_source b ws (Some w) now = (promo, b1)"
    by (cases "resolve_promo_credit_source b ws (Some w) now")
  note f = resolve_promo_frame [OF pr]
  from inv pr have inv1: "allowance_inv env b1" by (auto intro: inv_intros)
  from d pr show ?thesis
  proof (cases rule: debit_wallet_cases)
    case (refused r)
    with inv1 show ?thesis by (auto intro: inv_intros)
  next
    case (raised e)
    with inv1 show ?thesis by simp
  next
    case (charged ch five' week')
    let ?ep = "resolve_effective_plan env b ws now"
    let ?seat = "metered_seat b ?ep (Some (cp_member p)) ws"
    have ep1: "resolve_effective_plan env b1 ws now = ?ep"
      using f by (intro effective_plan_cong) auto
    have seat1: "metered_seat b1 ?ep (Some (cp_member p)) ws = ?seat"
      using f find_seat_window_cong [of b1 b] by (simp add: metered_seat_def)
    have "inside_limits l (counters_of five' week')" if l: "fixed_limits env b1 ws = Some l" for l
    proof -
      from l have l': "fixed_limits env b ws = Some l" using f fixed_limits_cong [of b1 b env ws] by simp
      with fixed_limits_Some have lim: "ep_limits ?ep = Some l" by blast
      have c: "inside_limits l (metered_counters ?seat w)"
      proof (cases ?seat)
        case None
        with inv w l' show ?thesis by (auto simp: metered_counters_def allowance_inv_def)
      next
        case (Some m)
        then have m: "m \<in> set (b_members b)" "m_workspace m = Some ws" "m_project m = None" "ep_paid_tier ?ep"
          by (auto dest: metered_seat_Some)
        have "active_sub b ws \<noteq> None"
        proof
          assume no: "active_sub b ws = None"
          with l' have "\<forall>g \<in> set (b_grants b). g_workspace g \<noteq> ws"
            by (auto simp: fixed_limits_def split: if_splits)
          then have "get_active_grants_for_workspace b ws now
              = \<lparr>gs_free_seats = 0, gs_monthly = 0, gs_plan = None, gs_rows = 0\<rparr>"
            by (auto simp: get_active_grants_for_workspace_def filter_empty_conv intro: arg_cong2)
          with no m show False by (simp add: resolve_effective_plan_def)
        qed
        with m inv l' Some show ?thesis by (auto simp: metered_counters_def allowance_inv_def)
      qed
      from charged(1) have dc: "decide_charge (Some l) (ep_paid_tier ?ep) w (carried w now) (promo_of promo)
          (roll_five (metered_counters ?seat w) now) (roll_week (metered_counters ?seat w) now) (cp_billed p)
          = Inr ch" using lim by simp
      from charged_within [OF dc promo_of_nonneg [OF pr] c] fixed_limits_pos [OF l'] charged(2,3)
      show ?thesis by simp
    qed
    with inv1 w f have "allowance_inv env (write_debit ws ?seat promo ch five' week'
        (is_new_month now (uw_last_monthly w)) now b1)"
      by (intro write_allowance [where u = "Some (cp_member p)"]) (simp_all add: ep1 seat1)
    with charged(4) show ?thesis by (rule event_allowance)
  qed
qed

definition debit_step :: "billing_env \<Rightarrow> consume_params \<times> int \<Rightarrow> billing \<Rightarrow> billing" where
  "debit_step env e b = fst (consume_usage_transaction env b (fst e) (snd e))"

lemma debit_step_allowance:
  assumes inv: "allowance_inv env b"
  shows "allowance_inv env (debit_step env e b)"
proof -
  obtain p now where e: "e = (p, now)" by (cases e)
  have d: "allowance_inv env (fst (debit_wallet env b p ws w now))"
    if "allowance_inv env b" "b_wallets b ws = Some w" for b ws w
    using debit_wallet_allowance [of env b p ws w now] that by (cases "debit_wallet env b p ws w now") auto
  show ?thesis
    using inv d allocate_free_allowance
    by (auto simp: e debit_step_def consume_usage_transaction_def Let_def split: option.splits)
qed

interpretation debits: machine "debit_step env" "allowance_inv env" for env
  by unfold_locales (rule debit_step_allowance)

section \<open>Frames\<close>

definition seat_key :: "member \<Rightarrow> string \<times> string \<times> ws_id option \<times> string option" where
  "seat_key m = (m_id m, m_user m, m_workspace m, m_project m)"

lemma debit_wallet_frame:
  assumes "debit_wallet env b p ws w now = (b', res)"
  shows "b_subs b' = b_subs b \<and> b_grants b' = b_grants b \<and> b_workspaces b' = b_workspaces b
    \<and> b_projects b' = b_projects b \<and> map seat_key (b_members b') = map seat_key (b_members b)"
proof -
  obtain promo b1 where pr: "resolve_promo_credit_source b ws (Some w) now = (promo, b1)"
    by (cases "resolve_promo_credit_source b ws (Some w) now")
  note f = resolve_promo_frame [OF pr]
  from assms pr show ?thesis
  proof (cases rule: debit_wallet_cases)
    case (charged ch five' week')
    with f show ?thesis
      by (auto simp: create_event_Inr frame_simps write_debit_members seat_key_def split: option.split)
  qed (use f in \<open>auto simp: heal_overage_flag_def\<close>)
qed

lemma allocate_free_frame:
  assumes "allocate_free_wallet_local env b ws now = Some b'"
  shows "b_subs b' = b_subs b \<and> b_grants b' = b_grants b \<and> b_workspaces b' = b_workspaces b
    \<and> b_projects b' = b_projects b \<and> b_members b' = b_members b \<and> b_events b' = b_events b"
  using allocate_free_put [OF assms] by (auto simp: put_wallet_Some)

lemma consume_frame:
  assumes "consume_usage_transaction env b p now = (b', res)"
  shows "b_subs b' = b_subs b \<and> b_grants b' = b_grants b \<and> b_workspaces b' = b_workspaces b
    \<and> b_projects b' = b_projects b \<and> map seat_key (b_members b') = map seat_key (b_members b)"
  using assms allocate_free_frame [of env b "billing_of p" now]
  by (auto simp: consume_usage_transaction_def Let_def split: option.splits
      dest!: debit_wallet_frame)

lemma run_frame:
  "b_subs (fold (debit_step env) es b) = b_subs b
   \<and> map seat_key (b_members (fold (debit_step env) es b)) = map seat_key (b_members b)"
proof (induction es arbitrary: b)
  case (Cons e es)
  have "b_subs (debit_step env e b) = b_subs b
      \<and> map seat_key (b_members (debit_step env e b)) = map seat_key (b_members b)"
    using consume_frame [of env b "fst e" "snd e"]
    by (cases "consume_usage_transaction env b (fst e) (snd e)") (simp add: debit_step_def)
  with Cons.IH [of "debit_step env e b"] show ?case by simp
qed simp

section \<open>Properties\<close>

text \<open>C1: no sequence of debits, of any amounts, at any times, by any members, takes a seat of a
  subscribed workspace past either rolling window of its plan, or a wallet past those of its own.\<close>

theorem allowance_never_exceeded:
  assumes "allowance_inv env b" and "b' = fold (debit_step env) es b" and "active_sub b' ws \<noteq> None"
    and "ep_limits (resolve_effective_plan env b' ws now) = Some l"
  shows "(\<forall>m \<in> set (b_members b'). m_workspace m = Some ws \<longrightarrow> m_project m = None \<longrightarrow>
        five_used (m_counters m) \<le> wl_five l \<and> week_used (m_counters m) \<le> wl_week l)
    \<and> (\<forall>w. b_wallets b' ws = Some w \<longrightarrow>
        five_used (uw_counters w) \<le> wl_five l \<and> week_used (uw_counters w) \<le> wl_week l)"
proof -
  have inv: "allowance_inv env b'"
    unfolding assms(2) using assms(1) by (rule debits.run_inv)
  from assms(3,4) have "fixed_limits env b' ws = Some l"
    using effective_plan_sub [of b' ws _ env] by (auto simp: fixed_limits_def)
  with inv assms(3) show ?thesis by (auto simp: allowance_inv_def inside_limits_def)
qed

definition demo_member :: "string \<Rightarrow> member" where
  "demo_member u = \<lparr>m_id = u, m_user = u, m_role = Role_Member, m_workspace = Some ''w'', m_project = None,
     m_created = 0, m_counters = fresh_counters\<rparr>"

definition demo_params :: "string \<Rightarrow> rat \<Rightarrow> consume_params" where
  "demo_params u x = \<lparr>cp_workspace = ''w'', cp_billing = Some ''w'', cp_project = None, cp_member = u,
     cp_action = ''chat'', cp_raw = None, cp_billed = x\<rparr>"

definition demo_seats :: "billing" where
  "demo_seats = (demo_billing (Some (demo_sub ''pro'' None 2)) [] (Some demo_wallet))
     \<lparr>b_members := [demo_member ''ann'', demo_member ''bob'']\<rparr>"

lemmas demo_meter_defs = demo_member_def demo_params_def demo_seats_def demo_defs

lemma demo_seats_sub: "active_sub demo_seats ''w'' = Some (demo_sub ''pro'' None 2)"
  by (simp add: demo_meter_defs active_sub_def)

lemma demo_seats_plan:
  "resolve_effective_plan demo_env demo_seats ''w'' now
     = \<lparr>ep_limits = Some \<lparr>wl_five = 196 / 100, wl_week = 49 / 10\<rparr>, ep_paid_tier = True\<rparr>"
  unfolding effective_plan_sub [OF demo_seats_sub]
  by (simp add: demo_sub_def plan_or_free_def normalize_plan_names get_plan_allowance_def
      is_legacy_plan_price_id_def get_window_limits_for_plan_def)

lemma demo_seats_inv: "allowance_inv demo_env demo_seats"
proof -
  have "fixed_limits demo_env demo_seats ws = Some l \<Longrightarrow> inside_limits l fresh_counters" for ws l
    by (rule fresh_inside)
  moreover have "m \<in> set (b_members demo_seats) \<Longrightarrow> m_counters m = fresh_counters" for m
    by (auto simp: demo_seats_def demo_billing_def demo_member_def)
  moreover have "b_wallets demo_seats ws = Some w \<Longrightarrow> uw_counters w = fresh_counters" for ws w
    by (auto simp: demo_seats_def demo_billing_def demo_wallet_def new_wallet_def split: if_splits)
  moreover have "distinct (map m_id (b_members demo_seats))"
    by (simp add: demo_seats_def demo_member_def)
  ultimately show ?thesis by (auto simp: allowance_inv_def)
qed

lemma allowance_never_exceeded_witness:
  "{m \<in> set (b_members (fold (debit_step demo_env)
      [(demo_params ''ann'' 1, 10), (demo_params ''ann'' 1, 20), (demo_params ''bob'' 1, 30)] demo_seats)).
    m_workspace m = Some ''w'' \<and> m_project m = None} \<subseteq> {m. five_used (m_counters m) \<le> 196 / 100}"
proof -
  define es :: "(consume_params \<times> int) list" where "es = [(demo_params ''ann'' 1, 10), (demo_params ''ann'' 1, 20), (demo_params ''bob'' 1, 30)]"
  define b' where "b' = fold (debit_step demo_env) es demo_seats"
  have subs: "b_subs b' = b_subs demo_seats" using run_frame [of demo_env es demo_seats] by (simp add: b'_def)
  then have act: "active_sub b' ''w'' = Some (demo_sub ''pro'' None 2)"
    using demo_seats_sub by (simp add: active_sub_def)
  have "ep_limits (resolve_effective_plan demo_env b' ''w'' 0) = Some \<lparr>wl_five = 196 / 100, wl_week = 49 / 10\<rparr>"
    using demo_seats_plan [of 0] unfolding effective_plan_sub [OF act] effective_plan_sub [OF demo_seats_sub]
    by simp
  from allowance_never_exceeded [OF demo_seats_inv b'_def _ this] act show ?thesis
    by (auto simp: b'_def es_def)
qed

text \<open>Seats are isolated. A debit leaves every member row but the caller's own seat exactly as
  it was, whatever is charged and however the call ends.\<close>

theorem seat_isolation:
  assumes "distinct (map m_id (b_members b))" and "consume_usage_transaction env b p now = (b', res)"
    and "m \<in> set (b_members b)" and "\<not> is_seat (cp_member p) (billing_of p) m"
  shows "m \<in> set (b_members b')"
proof -
  have debit: "m \<in> set (b_members b2)"
    if d: "debit_wallet env b0 p ws w now = (b2, r)" and mem: "b_members b0 = b_members b"
      and ws: "ws = billing_of p" for b0 b2 r ws w
  proof -
    obtain promo b1 where pr: "resolve_promo_credit_source b0 ws (Some w) now = (promo, b1)"
      by (cases "resolve_promo_credit_source b0 ws (Some w) now")
    note f = resolve_promo_frame [OF pr]
    from d pr show ?thesis
    proof (cases rule: debit_wallet_cases)
      case (charged ch five' week')
      define seat where "seat = metered_seat b0 (resolve_effective_plan env b0 ws now) (Some (cp_member p)) ws"
      have ne: "m_id s \<noteq> m_id m" if "seat = Some s" for s
      proof
        assume id: "m_id s = m_id m"
        from metered_seat_Some [of b0 _ "Some (cp_member p)" ws s] that
        have "s \<in> set (b_members b)" "is_seat (cp_member p) ws s"
          by (auto simp: seat_def mem is_seat_def)
        with id assms(1,3,4) ws show False by (auto simp: distinct_map inj_on_def)
      qed
      have mb: "m \<in> set (b_members b1)" using f mem assms(3) by simp
      have "m \<in> set (b_members (write_debit ws seat promo ch five' week'
          (is_new_month now (uw_last_monthly w)) now b1))"
      proof (cases seat)
        case None
        with mb show ?thesis by (simp add: write_debit_members)
      next
        case (Some s)
        then have "m = (if m_id m = m_id s then m\<lparr>m_counters := counters_of five' week'\<rparr> else m)"
          using ne by auto
        with mb Some show ?thesis by (auto simp: write_debit_members intro: rev_image_eqI)
      qed
      with charged show ?thesis by (auto simp: create_event_Inr seat_def)
    qed (use f mem assms(3) in \<open>auto simp: heal_overage_flag_def\<close>)
  qed
  show ?thesis
  proof (cases "b_wallets b (billing_of p)")
    case (Some w)
    with assms(2) have "debit_wallet env b p (billing_of p) w now = (b', res)" by (simp add: consume_existing)
    then show ?thesis by (rule debit) simp_all
  next
    case None
    show ?thesis
    proof (cases "allocate_free_wallet_local env b (billing_of p) now")
      case None
      with \<open>b_wallets b _ = None\<close> assms(2,3) show ?thesis by (simp add: consume_usage_transaction_def)
    next
      case (Some b0)
      note mem = allocate_free_frame [OF Some]
      show ?thesis
      proof (cases "b_wallets b0 (billing_of p)")
        case None
        with Some \<open>b_wallets b _ = None\<close> assms(2,3) mem show ?thesis
          by (auto simp: consume_usage_transaction_def)
      next
        case (Some w)
        with \<open>allocate_free_wallet_local _ _ _ _ = _\<close> \<open>b_wallets b _ = None\<close> assms(2)
        have "debit_wallet env b0 p (billing_of p) w now = (b', res)"
          by (simp add: consume_usage_transaction_def)
        then show ?thesis by (rule debit) (simp_all add: mem)
      qed
    qed
  qed
qed

lemma seat_isolation_witness:
  "demo_member ''bob'' \<in> set (b_members (fst (consume_usage_transaction demo_env demo_seats (demo_params ''ann'' 1) 10)))"
  using seat_isolation [of demo_seats demo_env "demo_params ''ann'' 1" 10 _ _ "demo_member ''bob''"]
  by (cases "consume_usage_transaction demo_env demo_seats (demo_params ''ann'' 1) 10")
    (simp add: demo_seats_def demo_billing_def demo_member_def demo_params_def is_seat_def)

subsection \<open>Money\<close>

definition promo_balance :: "billing \<Rightarrow> ws_id \<Rightarrow> rat" where
  "promo_balance b u = (case b_wallets b u of None \<Rightarrow> 0 | Some w \<Rightarrow> uw_promo w)"

lemma promo_of_wallet:
  assumes "resolve_promo_credit_source b ws (b_wallets b ws) now = (promo, b1)" and "0 < promo_of promo"
  shows "\<exists>s. promo = Some s \<and> promo_of promo = promo_balance b (ps_wallet s)"
  using assms resolve_promo_wallet [of b ws now]
  by (cases promo) (force simp: promo_of_def promo_balance_def)+

lemma write_debit_promo:
  "promo_balance (write_debit ws seat promo ch five week nm now b) u =
     promo_balance b u - (if 0 < ch_promo ch \<and> map_option ps_wallet promo = Some u \<and> b_wallets b u \<noteq> None
                          then ch_promo ch else 0)"
  by (cases seat) (auto simp: promo_balance_def write_debit_wallets Let_def debit_promo_def split: option.split)

lemma write_debit_accumulated:
  "b_wallets b ws = Some w \<Longrightarrow>
   \<exists>w'. b_wallets (write_debit ws seat promo ch five week nm now b) ws = Some w'
     \<and> uw_accumulated w' = ch_accumulated ch"
  by (cases seat) (auto simp: write_debit_wallets Let_def debit_promo_def)

text \<open>The counters of a window pair that is brought up to date and then charged \<open>x\<close>.\<close>

definition charged_counters :: "counters \<Rightarrow> int \<Rightarrow> rat \<Rightarrow> counters" where
  "charged_counters c now x =
     \<lparr>five_start = Some (ro_start (roll_five c now)), five_used = ro_used (roll_five c now) + x,
      week_start = Some (ro_start (roll_week c now)), week_used = ro_used (roll_week c now) + x\<rparr>"

definition count_at :: "member option \<Rightarrow> counters \<Rightarrow> member \<Rightarrow> member" where
  "count_at seat c y = (if map_option m_id seat = Some (m_id y) then y\<lparr>m_counters := c\<rparr> else y)"

lemma charged_counters_of:
  "counters_of (add_used charged x (roll_five c now)) (add_used charged x (roll_week c now))
     = charged_counters c now (if charged then x else 0)"
  by (simp add: counters_of_def add_used_def charged_counters_def)

lemma write_debit_counted:
  "b_members (write_debit ws seat promo ch five week nm now b) = map (count_at seat (counters_of five week)) (b_members b)"
  by (cases seat) (auto simp: write_debit_members count_at_def map_idI)


text \<open>Overage accrues only where it can be collected. A debit that adds to the overage balance
  was made under a live paid plan with on-demand usage on, with no unpaid block outstanding, and
  leaves the balance inside the workspace's hard limit.\<close>

theorem overage_collectable:
  assumes "consume_usage_transaction env b p now = (b', Inr r)" and "b_wallets b (billing_of p) = Some w"
    and "cr_overage r = Some x" and "0 < x"
  shows "ep_paid_tier (resolve_effective_plan env b (billing_of p) now) \<and> uw_overage_enabled w
    \<and> truthy (uw_outstanding w) = None
    \<and> (\<exists>w'. b_wallets b' (billing_of p) = Some w' \<and> uw_accumulated w' = carried w now + x
        \<and> (case uw_hard_limit w of None \<Rightarrow> True | Some h \<Rightarrow> uw_accumulated w' \<le> h))"
proof -
  define ws where "ws = billing_of p"
  have w: "b_wallets b ws = Some w" and d: "debit_wallet env b p ws w now = (b', Inr r)"
    using assms(1,2) by (simp_all add: ws_def consume_existing)
  obtain promo b1 where pr: "resolve_promo_credit_source b ws (Some w) now = (promo, b1)"
    by (cases "resolve_promo_credit_source b ws (Some w) now")
  note f = resolve_promo_frame [OF pr]
  from d pr show ?thesis
  proof (cases rule: debit_wallet_cases)
    case (refused r')
    with assms(3) show ?thesis by (simp add: refused_def)
  next
    case (raised e)
    then show ?thesis by simp
  next
    case (charged ch five' week')
    let ?seat = "metered_seat b (resolve_effective_plan env b ws now) (Some (cp_member p)) ws"
    let ?b2 = "write_debit ws ?seat promo ch five' week' (is_new_month now (uw_last_monthly w)) now b1"
    have w1: "b_wallets b1 ws = Some w" using w f by simp
    obtain w' where "b_wallets ?b2 ws = Some w'" and acc: "uw_accumulated w' = ch_accumulated ch"
      using write_debit_accumulated [OF w1] by blast
    with charged(4) have w': "b_wallets b' ws = Some w'" "uw_accumulated w' = ch_accumulated ch"
      by (simp_all add: create_event_Inr)
    from assms(3,4) charged(5) have x: "ch_overage ch = x" "0 < ch_overage ch" by simp_all
    from charged(1) promo_of_nonneg [OF pr] show ?thesis
    proof (cases rule: decide_charge_accepted)
      case overage
      from overage(8) x have "truthy (uw_outstanding w) = None"
        and "case uw_hard_limit w of None \<Rightarrow> True | Some h \<Rightarrow> carried w now + ch_overage ch \<le> h"
        by (auto simp: overage_block_reason_def max_def split: option.splits if_splits)
      moreover have "uw_accumulated w' = carried w now + ch_overage ch" using overage(5) w'(2) by simp
      ultimately show ?thesis using overage(6,7) x(1) w'(1) unfolding ws_def
        by (cases "uw_hard_limit w") simp_all
    qed (use x in simp_all)
  qed
qed

text \<open>C37: a debit that fails costs nothing. Refused for want of room, or undone because its project or
  workspace row is missing, it records no event, moves no counter and no balance; at most the stale
  on-demand flag of a lapsed plan is cleared.\<close>

theorem failed_debit_is_free:
  assumes "consume_usage_transaction env b p now = (b', res)" and "b_wallets b (billing_of p) = Some w"
    and "case res of Inl e \<Rightarrow> True | Inr r \<Rightarrow> \<not> cr_success r"
  shows "b_events b' = b_events b \<and> b_members b' = b_members b
    \<and> (\<exists>flag. b_wallets b' = (b_wallets b)(billing_of p \<mapsto> w\<lparr>uw_overage_enabled := flag\<rparr>)
         \<and> (flag = uw_overage_enabled w \<or>
            \<not> flag \<and> \<not> ep_paid_tier (resolve_effective_plan env b (billing_of p) now)))"
proof -
  define ws where "ws = billing_of p"
  have w: "b_wallets b ws = Some w" and d: "debit_wallet env b p ws w now = (b', res)"
    using assms(1,2) by (simp_all add: ws_def consume_existing)
  have same: "b_wallets b = (b_wallets b)(ws \<mapsto> w\<lparr>uw_overage_enabled := uw_overage_enabled w\<rparr>)"
    using w by (simp add: fun_upd_idem)
  obtain promo b1 where pr: "resolve_promo_credit_source b ws (Some w) now = (promo, b1)"
    by (cases "resolve_promo_credit_source b ws (Some w) now")
  note f = resolve_promo_frame [OF pr]
  from d pr show ?thesis
  proof (cases rule: debit_wallet_cases)
    case (refused r)
    show ?thesis
    proof (cases "rf_heal r")
      case True
      with decide_charge_refused [OF refused(1)]
      have "\<not> ep_paid_tier (resolve_effective_plan env b ws now)" by blast
      with True refused f w show ?thesis
        unfolding ws_def [symmetric] by (auto simp: heal_overage_flag_def update_wallet_def)
    next
      case False
      with refused f same show ?thesis
        unfolding ws_def [symmetric] by (auto intro!: exI [of _ "uw_overage_enabled w"])
    qed
  next
    case (raised e)
    with f same show ?thesis
      unfolding ws_def [symmetric] by (auto intro!: exI [of _ "uw_overage_enabled w"])
  next
    case (charged ch five' week')
    with assms(3) show ?thesis by simp
  qed
qed

section \<open>Concrete runs\<close>

lemma demo_billing_of [simp]: "billing_of (demo_params u x) = ''w''"
  by (simp add: billing_of_def demo_params_def)

lemma demo_params_simps [simp]: "cp_billed (demo_params u x) = x" "cp_member (demo_params u x) = u"
  by (simp_all add: demo_params_def)

lemma demo_seats_wallet [simp]: "b_wallets demo_seats ''w'' = Some demo_wallet"
  by (simp add: demo_seats_def demo_billing_def)

lemma demo_event_fits [simp]: "event_fits demo_seats (demo_params u x)"
  by (simp add: event_fits_def demo_seats_def demo_billing_def demo_params_def)

lemma demo_fresh: "metered_counters (metered_seat demo_seats ep u ''w'') demo_wallet = fresh_counters"
  by (cases "metered_seat demo_seats ep u ''w''")
    (auto simp: metered_counters_def demo_wallet_def new_wallet_def demo_seats_def demo_billing_def
      demo_member_def dest!: metered_seat_Some)

lemma resolve_promo_team:
  assumes "om_get (b_workspaces b) ws = Some r" and "w_kind r = Team" and "b_promo_cache b ws = None"
    and "\<not> 0 < wallet_promo own now"
  shows "fst (resolve_promo_credit_source b ws own now) = None"
  using assms
  by (simp add: resolve_promo_credit_source_def live_promo_entry_def lookup_promo_entry_def Let_def)

lemma demo_wallet_promo: "wallet_promo (Some demo_wallet) now = 0"
  by (simp add: wallet_promo_def promo_credit_available_usd_def demo_wallet_def new_wallet_def)

lemma demo_no_promo: "\<exists>b1. resolve_promo_credit_source demo_seats ''w'' (Some demo_wallet) now = (None, b1)"
  using resolve_promo_team [of demo_seats "''w''" _ "Some demo_wallet" now]
  by (cases "resolve_promo_credit_source demo_seats ''w'' (Some demo_wallet) now")
    (simp add: demo_wallet_promo demo_seats_def demo_billing_def)

lemma roll_fresh:
  "roll_five fresh_counters now = \<lparr>ro_start = now, ro_used = 0\<rparr>"
  "roll_week fresh_counters now = \<lparr>ro_start = now, ro_used = 0\<rparr>"
  by (simp_all add: roll_defs roll_window_def fresh_counters_def)

text \<open>Ann's dollar fits her windows; three dollars do not, and go to overage.\<close>

lemma demo_window_debit:
  "\<exists>b' r. consume_usage_transaction demo_env demo_seats (demo_params ''ann'' 1) 10 = (b', Inr r) \<and> cr_success r
     \<and> cr_source r = Some Src_Window"
proof -
  obtain b1 where pr: "resolve_promo_credit_source demo_seats ''w'' (Some demo_wallet) 10 = (None, b1)"
    using demo_no_promo by blast
  have "\<exists>ch. decide_charge (Some \<lparr>wl_five = 196 / 100, wl_week = 49 / 10\<rparr>) True demo_wallet
      (carried demo_wallet 10) (promo_of None) (roll_five fresh_counters 10) (roll_week fresh_counters 10) 1
      = Inr ch \<and> ch_source ch = Src_Window"
    by (simp add: decide_charge_def Let_def roll_fresh)
  then show ?thesis
    using debit_wallet_accepts [OF pr _ refl, where p = "demo_params ''ann'' 1" and env = demo_env]
    by (auto simp: consume_existing demo_fresh demo_seats_plan)
qed

lemma demo_overage_debit:
  "\<exists>b' r. consume_usage_transaction demo_env demo_seats (demo_params ''ann'' 3) 10 = (b', Inr r) \<and> cr_success r
     \<and> cr_overage r = Some 3"
proof -
  obtain b1 where pr: "resolve_promo_credit_source demo_seats ''w'' (Some demo_wallet) 10 = (None, b1)"
    using demo_no_promo by blast
  define ch where "ch = \<lparr>ch_source = Src_Overage, ch_before = Usd (carried demo_wallet 10),
    ch_after = Usd (carried demo_wallet 10 + 3), ch_overage = 3, ch_promo = 0, ch_windows = False,
    ch_accumulated = carried demo_wallet 10 + 3\<rparr>"
  have "decide_charge (Some \<lparr>wl_five = 196 / 100, wl_week = 49 / 10\<rparr>) True demo_wallet
      (carried demo_wallet 10) (promo_of None) (roll_five fresh_counters 10) (roll_week fresh_counters 10) 3 = Inr ch"
    by (simp add: decide_charge_def beyond_windows_def Let_def roll_fresh promo_of_def ch_def
        overage_block_reason_def demo_wallet_def new_wallet_def)
  then obtain b' r where c: "consume_usage_transaction demo_env demo_seats (demo_params ''ann'' 3) 10 = (b', Inr r)"
      "cr_success r" "cr_source r = Some Src_Overage"
    using debit_wallet_accepts [OF pr _ refl, where ch = ch and p = "demo_params ''ann'' 3" and env = demo_env]
    by (auto simp: consume_existing demo_fresh demo_seats_plan ch_def)
  have "debit_wallet demo_env demo_seats (demo_params ''ann'' 3) ''w'' demo_wallet 10 = (b', Inr r)"
    using c(1) by (simp add: consume_existing)
  from this pr have "cr_overage r = Some 3"
  proof (cases rule: debit_wallet_cases)
    case (charged ch' f w)
    with \<open>decide_charge _ _ _ _ _ _ _ _ = Inr ch\<close> have "ch' = ch"
      by (simp add: demo_fresh demo_seats_plan)
    with charged show ?thesis by (simp add: ch_def)
  qed (use c(2) in simp_all)
  with c show ?thesis by blast
qed


lemma overage_collectable_witness:
  "\<exists>b' w'. fst (consume_usage_transaction demo_env demo_seats (demo_params ''ann'' 3) 10) = b'
     \<and> b_wallets b' ''w'' = Some w' \<and> uw_accumulated w' = carried demo_wallet 10 + 3"
proof -
  obtain b' r where c: "consume_usage_transaction demo_env demo_seats (demo_params ''ann'' 3) 10 = (b', Inr r)"
    "cr_overage r = Some 3" using demo_overage_debit by blast
  from overage_collectable [OF c(1) _ c(2)] c(1) show ?thesis by auto
qed

text \<open>The same workspace without its subscription: the call is refused and the stale flag cleared.\<close>

lemma failed_debit_is_free_witness:
  "\<exists>b' res flag. consume_usage_transaction demo_env (demo_billing None [] (Some demo_wallet))
       (demo_params ''ann'' 3) 10 = (b', res)
     \<and> b_events b' = [] \<and> b_wallets b' ''w'' = Some (demo_wallet\<lparr>uw_overage_enabled := flag\<rparr>)"
proof -
  define b where "b = demo_billing None [] (Some demo_wallet)"
  have w: "b_wallets b (billing_of (demo_params ''ann'' 3)) = Some demo_wallet"
    by (simp add: b_def demo_billing_def)
  have plan: "resolve_effective_plan demo_env b ''w'' 10
      = \<lparr>ep_limits = Some \<lparr>wl_five = 2 / 10, wl_week = 5 / 10\<rparr>, ep_paid_tier = False\<rparr>"
    by (simp add: b_def demo_billing_def resolve_effective_plan_def active_sub_def Let_def
        get_active_grants_for_workspace_def get_window_limits_for_plan_def)
  obtain promo b1 where pr: "resolve_promo_credit_source b ''w'' (Some demo_wallet) 10 = (promo, b1)"
    by (cases "resolve_promo_credit_source b ''w'' (Some demo_wallet) 10")
  have "promo = None"
    using resolve_promo_team [of b "''w''" _ "Some demo_wallet" 10] pr
    by (simp add: demo_wallet_promo b_def demo_billing_def)
  then have dec: "\<exists>r. decide_charge (Some \<lparr>wl_five = 2 / 10, wl_week = 5 / 10\<rparr>) False demo_wallet
      (carried demo_wallet 10) (promo_of promo) (roll_five fresh_counters 10) (roll_week fresh_counters 10) 3 = Inl r"
    by (simp add: decide_charge_def beyond_windows_def Let_def roll_fresh promo_of_def)
  have cnt: "metered_counters (metered_seat b \<lparr>ep_limits = l, ep_paid_tier = False\<rparr> u ''w'') demo_wallet
      = fresh_counters" for l u
    by (simp add: metered_seat_def metered_counters_def demo_wallet_def new_wallet_def)
  obtain b' res where c: "consume_usage_transaction demo_env b (demo_params ''ann'' 3) 10 = (b', res)"
    by (cases "consume_usage_transaction demo_env b (demo_params ''ann'' 3) 10")
  then have d: "debit_wallet demo_env b (demo_params ''ann'' 3) ''w'' demo_wallet 10 = (b', res)"
    using w by (simp add: consume_existing)
  from d pr have "case res of Inl e \<Rightarrow> True | Inr r \<Rightarrow> \<not> cr_success r"
  proof (cases rule: debit_wallet_cases)
    case (charged ch f wk)
    with dec show ?thesis by (auto simp: plan cnt)
  qed simp_all
  from failed_debit_is_free [OF c w this] obtain flag where "b_events b' = b_events b"
    "b_wallets b' = (b_wallets b)(''w'' \<mapsto> demo_wallet\<lparr>uw_overage_enabled := flag\<rparr>)"
    unfolding demo_billing_of by blast
  moreover have "b_events b = []" by (simp add: b_def demo_billing_def)
  ultimately show ?thesis
    using c unfolding b_def by (intro exI [of _ b'] exI [of _ res] exI [of _ flag]) simp
qed

end
