(* ===== verification/Billing_Admission.thy ===== *)
theory Billing_Admission
  imports Billing_Meter
begin

text \<open>
  The preflight against the debit: what \<^verbatim>\<open>checkUsageBalance\<close> admits the transaction accepts, a refusal
  names a reset after which the same call is accepted, and the status endpoints report what the gates
  enforce.
\<close>

section \<open>Admission\<close>

lemma carried_le:
  "0 \<le> uw_billed w \<Longrightarrow> 0 \<le> uw_accumulated w \<Longrightarrow> carried w now \<le> uw_accumulated w"
  by (simp add: carried_def carry_overage_into_new_period_def)

lemma window_room_iff:
  "m \<le> window_room l five week \<longleftrightarrow> m \<le> wl_five l - ro_used five \<and> m \<le> wl_week l - ro_used week"
  by (simp add: window_room_def)

lemma decide_charge_beyond:
  "limits = Some l \<Longrightarrow>
   (\<And>blocked. \<exists>ch. beyond_windows paid w acc promo blocked x = Inr ch) \<Longrightarrow>
   \<exists>ch. decide_charge limits paid w acc promo five week x = Inr ch"
  by (simp add: decide_charge_def Let_def)

lemma overage_preflight_ok:
  assumes "overage_preflight w ep ws m = (Bal_Ok, effs)"
  shows "uw_overage_enabled w \<and> ep_paid_tier ep \<and> truthy (uw_outstanding w) = None
    \<and> uw_accumulated w - uw_billed w < overage_block_usd (uw_paid_blocks w)
    \<and> (case uw_hard_limit w of None \<Rightarrow> True | Some h \<Rightarrow> m \<le> max 0 (h - uw_accumulated w))"
  using assms by (auto simp: overage_preflight_def not_le split: if_splits option.splits)

lemma wallet_preflight_ok:
  assumes "wallet_preflight env b ws w m member now = (Bal_Ok, effs, b1)"
    and "ep = resolve_effective_plan env b ws now"
    and "c = metered_counters (metered_seat b ep member ws) w"
  obtains (uncapped) "ep_limits ep = None" "b1 = b"
  | (window) l where "ep_limits ep = Some l" "m \<le> window_room l (roll_five c now) (roll_week c now)" "b1 = b"
  | (promo) l s where "ep_limits ep = Some l"
      "resolve_promo_credit_source b ws (Some w) now = (Some s, b1)" "m \<le> ps_available s"
  | (overage) l promo where "ep_limits ep = Some l"
      "resolve_promo_credit_source b ws (Some w) now = (promo, b1)"
      "overage_preflight w ep ws m = (Bal_Ok, effs)"
proof (cases "ep_limits ep")
  case None
  with assms(1,2) have "b1 = b" by (simp add: wallet_preflight_def)
  with uncapped None show ?thesis by simp
next
  case (Some l)
  show ?thesis
  proof (cases "m \<le> window_room l (roll_five c now) (roll_week c now)")
    case True
    have "wallet_preflight env b ws w m member now = (Bal_Ok, [], b)"
      unfolding wallet_preflight_def Let_def assms(2) [symmetric] assms(3) [symmetric]
      using Some True by simp
    with assms(1) have "b1 = b" by simp
    with window Some True show ?thesis by simp
  next
    case False
    obtain promo b2 where pr: "resolve_promo_credit_source b ws (Some w) now = (promo, b2)"
      by (cases "resolve_promo_credit_source b ws (Some w) now")
    show ?thesis
    proof (cases "case promo of None \<Rightarrow> False | Some p \<Rightarrow> m \<le> ps_available p")
      case True
      then obtain s where s: "promo = Some s" "m \<le> ps_available s" by (cases promo) auto
      have "wallet_preflight env b ws w m member now = (Bal_Ok, [], b2)"
        unfolding wallet_preflight_def Let_def assms(2) [symmetric] assms(3) [symmetric]
        using Some False pr s by simp
      with assms(1) have "b1 = b2" by simp
      with promo [OF Some _ s(2)] s pr show ?thesis by simp
    next
      case no: False
      have "wallet_preflight env b ws w m member now
          = (fst (overage_preflight w ep ws m), snd (overage_preflight w ep ws m), b2)"
        unfolding wallet_preflight_def Let_def assms(2) [symmetric] assms(3) [symmetric]
        using Some False pr no by (simp add: case_prod_beta)
      with assms(1) have "overage_preflight w ep ws m = (Bal_Ok, effs) \<and> b1 = b2"
        by (auto simp: prod_eq_iff)
      with pr show ?thesis by (intro overage [OF Some, of promo]) simp_all
    qed
  qed
qed

text \<open>C7: what the preflight admits, the debit accepts. When \<^verbatim>\<open>checkUsageBalance\<close> answers yes for an
  amount, a debit of at most that amount by the same member at the same time succeeds.\<close>

theorem preflight_admits_debit:
  assumes "check_usage_balance env b ws0 m (Some (cp_member p)) now = (Bal_Ok, effs, b1)"
    and "\<not> be_local env" and "cp_billing p = Some (resolve_billing_workspace_id env b ws0)"
    and "b_wallets b (resolve_billing_workspace_id env b ws0) = Some w"
    and "0 \<le> uw_billed w" and "0 \<le> uw_accumulated w"
    and "0 < cp_billed p" and "cp_billed p \<le> m" and "event_fits b p"
  shows "\<exists>b' r. consume_usage_transaction env b1 p now = (b', Inr r) \<and> cr_success r"
proof -
  define ws where "ws = resolve_billing_workspace_id env b ws0"
  define ep where "ep = resolve_effective_plan env b ws now"
  define c where "c = metered_counters (metered_seat b ep (Some (cp_member p)) ws) w"
  have pre: "wallet_preflight env b ws w m (Some (cp_member p)) now = (Bal_Ok, effs, b1)"
    using assms(1,2,4) by (simp add: check_usage_balance_def ws_def)
  have bws: "billing_of p = ws" using assms(3) by (simp add: billing_of_def ws_def)
  obtain promo b2 where pr: "resolve_promo_credit_source b ws (Some w) now = (promo, b2)"
    by (cases "resolve_promo_credit_source b ws (Some w) now")
  note f = resolve_promo_frame [OF pr]
  have b1: "b1 = b \<or> b1 = b2" using pre refl refl by (rule wallet_preflight_ok) (simp_all add: pr)
  then have pr1: "\<exists>b3. resolve_promo_credit_source b1 ws (Some w) now = (promo, b3)"
    using pr resolve_promo_again [OF pr] by blast
  have ep1: "resolve_effective_plan env b1 ws now = ep"
    unfolding ep_def using b1 f by (intro effective_plan_cong) auto
  have seat1: "metered_seat b1 ep (Some (cp_member p)) ws = metered_seat b ep (Some (cp_member p)) ws"
    using b1 f find_seat_window_cong [of b1 b] by (auto simp: metered_seat_def)
  have fits1: "event_fits b1 p" using assms(9) b1 f
    by (auto simp: event_fits_def split: option.splits)
  have w1: "b_wallets b1 (billing_of p) = Some w" using assms(4) b1 f by (auto simp: bws ws_def)
  note nn = promo_of_nonneg [OF pr]
  have "\<exists>ch. decide_charge (ep_limits ep) (ep_paid_tier ep) w (carried w now) (promo_of promo)
      (roll_five c now) (roll_week c now) (cp_billed p) = Inr ch"
    using pre ep_def c_def
  proof (cases rule: wallet_preflight_ok)
    case uncapped
    then show ?thesis by (simp add: decide_charge_def)
  next
    case (window l)
    with assms(8) have "cp_billed p \<le> wl_five l - ro_used (roll_five c now)"
      "cp_billed p \<le> wl_week l - ro_used (roll_week c now)"
      unfolding window_room_iff by simp_all
    with decide_charge_fits [OF window(1) this] show ?thesis by blast
  next
    case (promo l s)
    from pr promo(2) have "promo = Some s" by simp
    with promo(3) assms(7,8) show ?thesis
      by (intro decide_charge_beyond [OF promo(1)] beyond_windows_promo) (simp_all add: promo_of_def)
  next
    case (overage l pm)
    note o = overage_preflight_ok [OF overage(3)]
    have "case uw_hard_limit w of None \<Rightarrow> True | Some h \<Rightarrow> cp_billed p \<le> max 0 (h - carried w now)"
      using o carried_le [OF assms(5,6), of now] assms(7,8) by (auto split: option.splits)
    with o nn show ?thesis
      by (intro decide_charge_beyond [OF overage(1)] beyond_windows_overage) simp_all
  qed
  then obtain ch where ch: "decide_charge (ep_limits ep) (ep_paid_tier ep) w (carried w now) (promo_of promo)
      (roll_five c now) (roll_week c now) (cp_billed p) = Inr ch" ..
  from pr1 obtain b3 where pr3: "resolve_promo_credit_source b1 ws (Some w) now = (promo, b3)" ..
  have "\<exists>b' r. debit_wallet env b1 p ws w now = (b', Inr r) \<and> cr_success r
      \<and> cr_source r = Some (ch_source ch)"
    by (rule debit_wallet_accepts [OF pr3 _ ep1 [symmetric] fits1]) (use ch in \<open>simp add: c_def seat1\<close>)
  then show ?thesis using w1 by (auto simp: consume_existing bws)
qed

lemma demo_resolve [simp]: "resolve_billing_workspace_id demo_env demo_seats ''w'' = ''w''"
  by (simp add: resolve_billing_workspace_id_def demo_seats_def demo_billing_def)

lemma demo_env_cloud [simp]: "\<not> be_local demo_env"
  by (simp add: demo_env_def)

lemma demo_cp_billing [simp]: "cp_billing (demo_params u x) = Some ''w''"
  by (simp add: demo_params_def)

lemma preflight_admits_debit_witness:
  "\<exists>b' r. consume_usage_transaction demo_env demo_seats (demo_params ''ann'' 1) 10 = (b', Inr r) \<and> cr_success r"
proof -
  have "check_usage_balance demo_env demo_seats ''w'' 1 (Some (cp_member (demo_params ''ann'' 1))) 10
      = (Bal_Ok, [], demo_seats)"
    by (simp add: check_usage_balance_def wallet_preflight_def demo_seats_plan demo_fresh Let_def
        window_room_def roll_fresh)
  from preflight_admits_debit [OF this] show ?thesis
    by (simp add: demo_wallet_def new_wallet_def)
qed

section \<open>Refusals\<close>

text \<open>A refusal tells the truth about when to come back. Its reset lies ahead, and if nothing else
  is metered and the plan is the same, the call is paid from the windows at any time from then on.\<close>

theorem refusal_resets:
  assumes "consume_usage_transaction env b p now = (b', Inr r)" and "b_wallets b (billing_of p) = Some w"
    and "\<not> cr_success r" and "event_fits b p" and "now \<le> t"
    and "resolve_effective_plan env b (billing_of p) t = resolve_effective_plan env b (billing_of p) now"
    and "\<forall>l. ep_limits (resolve_effective_plan env b (billing_of p) now) = Some l \<longrightarrow>
           cp_billed p \<le> wl_five l"
  shows "\<exists>reset. cr_resets r = Some reset \<and> now < reset \<and> (reset \<le> t \<longrightarrow>
    (\<exists>b'' r'. consume_usage_transaction env b' p t = (b'', Inr r') \<and> cr_success r'
       \<and> cr_source r' = Some Src_Window))"
proof -
  define ws where "ws = billing_of p"
  define ep where "ep = resolve_effective_plan env b ws now"
  define seat where "seat = metered_seat b ep (Some (cp_member p)) ws"
  define c where "c = metered_counters seat w"
  have w: "b_wallets b ws = Some w" and d: "debit_wallet env b p ws w now = (b', Inr r)"
    using assms(1,2) by (simp_all add: ws_def consume_existing)
  obtain promo b1 where pr: "resolve_promo_credit_source b ws (Some w) now = (promo, b1)"
    by (cases "resolve_promo_credit_source b ws (Some w) now")
  note f = resolve_promo_frame [OF pr]
  from d pr obtain q where q: "decide_charge (ep_limits ep) (ep_paid_tier ep) w (carried w now) (promo_of promo)
      (roll_five c now) (roll_week c now) (cp_billed p) = Inl q"
    and r: "r = refused q" and b': "b' = (if rf_heal q then heal_overage_flag ws b1 else b1)"
    by (cases rule: debit_wallet_cases) (use assms(3) in \<open>auto simp: ep_def seat_def c_def\<close>)
  from decide_charge_refused [OF q] obtain l where l: "ep_limits ep = Some l"
    and no: "\<not> (cp_billed p \<le> wl_five l - ro_used (roll_five c now)
      \<and> cp_billed p \<le> wl_week l - ro_used (roll_week c now))"
    and blk: "blocking_window (cp_billed p \<le> wl_five l - ro_used (roll_five c now))
      (cp_billed p \<le> wl_week l - ro_used (roll_week c now)) (ro_start (roll_five c now))
      (ro_start (roll_week c now)) = (rf_window q, rf_resets q)" by metis
  note spec = blocking_window_spec [OF no blk]
  have ahead: "now < rf_resets q"
    using spec roll_window_ahead [OF five_hour_pos, of now "five_start c" "five_used c"]
      roll_window_ahead [OF seven_day_pos, of now "week_start c" "week_used c"]
    by (auto simp: roll_defs)
  have small: "cp_billed p \<le> wl_five l" "cp_billed p \<le> wl_week l"
    using assms(7) l effective_limits_pos [of env b ws now l] by (auto simp: ep_def ws_def)
  have later: "\<exists>b'' r'. consume_usage_transaction env b' p t = (b'', Inr r') \<and> cr_success r'
       \<and> cr_source r' = Some Src_Window" if t: "rf_resets q \<le> t"
  proof -
    have five: "cp_billed p \<le> wl_five l - ro_used (roll_five c t)"
      using roll_window_later_used [OF assms(5), of "five_start c" "five_used c" five_hour_ms] small
        roll_window_elapsed [OF assms(5), of "five_start c" "five_used c" five_hour_ms] spec t
      by (auto simp: roll_defs)
    have week: "cp_billed p \<le> wl_week l - ro_used (roll_week c t)"
      using roll_window_later_used [OF assms(5), of "week_start c" "week_used c" seven_day_ms] small
        roll_window_elapsed [OF assms(5), of "week_start c" "week_used c" seven_day_ms] spec t
      by (auto simp: roll_defs)
    have fr: "b_subs b' = b_subs b" "b_grants b' = b_grants b" "b_members b' = b_members b"
      "b_workspaces b' = b_workspaces b" "b_projects b' = b_projects b"
      using f by (simp_all add: b' heal_overage_flag_def)
    obtain w' where w': "b_wallets b' ws = Some w'" "uw_counters w' = uw_counters w"
      using w f by (cases "rf_heal q") (auto simp: b' heal_overage_flag_def update_wallet_get)
    have ep': "resolve_effective_plan env b' ws t = ep"
      using effective_plan_cong [OF fr(1,2)] assms(6) by (simp add: ep_def ws_def)
    have seat': "metered_seat b' ep (Some (cp_member p)) ws = seat"
      using find_seat_window_cong [OF fr(3)] by (simp add: metered_seat_def seat_def)
    have c': "metered_counters seat w' = c" using w'(2) by (simp add: c_def metered_counters_def split: option.split)
    have fits': "event_fits b' p" using assms(4)
      by (auto simp: event_fits_def fr split: option.splits)
    obtain promo' b1' where pr': "resolve_promo_credit_source b' ws (Some w') t = (promo', b1')"
      by (cases "resolve_promo_credit_source b' ws (Some w') t")
    from decide_charge_fits [OF l five week] obtain ch where
      ch: "decide_charge (ep_limits ep) (ep_paid_tier ep) w' (carried w' t) (promo_of promo')
        (roll_five c t) (roll_week c t) (cp_billed p) = Inr ch" "ch_source ch = Src_Window" by blast
    have "\<exists>b'' r'. debit_wallet env b' p ws w' t = (b'', Inr r') \<and> cr_success r'
        \<and> cr_source r' = Some (ch_source ch)"
      by (rule debit_wallet_accepts [OF pr' _ ep' [symmetric] fits']) (simp add: seat' c' ch(1))
    with ch(2) w'(1) show ?thesis by (simp add: consume_existing flip: ws_def)
  qed
  show ?thesis using ahead later by (simp add: r)
qed

text \<open>A free workspace that spent its five-hour window at time 0: ten cents are refused at 10 and accepted
  five hours later.\<close>

definition spent_counters :: counters where
  "spent_counters = \<lparr>five_start = Some 0, five_used = 2 / 10, week_start = Some 0, week_used = 2 / 10\<rparr>"

definition spent_wallet :: wallet where
  "spent_wallet = demo_wallet\<lparr>uw_overage_enabled := False, uw_counters := spent_counters\<rparr>"

definition demo_free :: billing where
  "demo_free = demo_billing None [] (Some spent_wallet)"

lemma demo_free_plan:
  "resolve_effective_plan demo_env demo_free ''w'' now
     = \<lparr>ep_limits = Some \<lparr>wl_five = 2 / 10, wl_week = 5 / 10\<rparr>, ep_paid_tier = False\<rparr>"
  by (simp add: demo_free_def demo_billing_def resolve_effective_plan_def active_sub_def Let_def
      get_active_grants_for_workspace_def get_window_limits_for_plan_def)

lemma demo_free_wallet [simp]: "b_wallets demo_free ''w'' = Some spent_wallet"
  by (simp add: demo_free_def demo_billing_def)

lemma demo_free_refused:
  "\<exists>b' r. consume_usage_transaction demo_env demo_free (demo_params ''ann'' (1 / 10)) 10 = (b', Inr r)
     \<and> \<not> cr_success r \<and> cr_resets r = Some five_hour_ms"
proof -
  obtain promo b1 where pr: "resolve_promo_credit_source demo_free ''w'' (Some spent_wallet) 10 = (promo, b1)"
    by (cases "resolve_promo_credit_source demo_free ''w'' (Some spent_wallet) 10")
  have "wallet_promo (Some spent_wallet) 10 = 0"
    by (simp add: wallet_promo_def promo_credit_available_usd_def spent_wallet_def demo_wallet_def new_wallet_def)
  then have "promo = None"
    using resolve_promo_team [of demo_free "''w''" _ "Some spent_wallet" 10] pr
    by (simp add: demo_free_def demo_billing_def)
  then have dec: "\<exists>q. decide_charge (Some \<lparr>wl_five = 2 / 10, wl_week = 5 / 10\<rparr>) False spent_wallet
      (carried spent_wallet 10) (promo_of promo) (roll_five spent_counters 10) (roll_week spent_counters 10) (1 / 10)
      = Inl q \<and> rf_resets q = five_hour_ms"
    by (simp add: decide_charge_def beyond_windows_def Let_def roll_defs roll_window_def spent_counters_def
        promo_of_def five_hour_ms_def seven_day_ms_def blocking_window_def)
  have cnt: "metered_counters (metered_seat demo_free \<lparr>ep_limits = l, ep_paid_tier = False\<rparr> u ''w'') spent_wallet
      = spent_counters" for l u
    by (simp add: metered_seat_def metered_counters_def spent_wallet_def)
  obtain b' res where c: "consume_usage_transaction demo_env demo_free (demo_params ''ann'' (1 / 10)) 10 = (b', res)"
    by (cases "consume_usage_transaction demo_env demo_free (demo_params ''ann'' (1 / 10)) 10")
  then have d: "debit_wallet demo_env demo_free (demo_params ''ann'' (1 / 10)) ''w'' spent_wallet 10 = (b', res)"
    by (simp add: consume_existing)
  from d pr have "\<exists>r. res = Inr r \<and> \<not> cr_success r \<and> cr_resets r = Some five_hour_ms"
  proof (cases rule: debit_wallet_cases)
    case (refused r)
    with dec show ?thesis by (auto simp: demo_free_plan cnt)
  next
    case (raised e)
    with d pr dec show ?thesis
      by (auto simp: debit_wallet_def demo_free_plan carried_def promo_of_def Let_def
          find_seat_window_def metered_seat_def metered_counters_def spent_wallet_def)
  next
    case (charged ch f wk)
    with dec show ?thesis by (auto simp: demo_free_plan cnt)
  qed
  with c show ?thesis by blast
qed

lemma refusal_resets_witness:
  "\<exists>b' r b'' r'. consume_usage_transaction demo_env demo_free (demo_params ''ann'' (1 / 10)) 10 = (b', Inr r)
     \<and> \<not> cr_success r
     \<and> consume_usage_transaction demo_env b' (demo_params ''ann'' (1 / 10)) five_hour_ms = (b'', Inr r')
     \<and> cr_success r'"
proof -
  obtain b' r where c: "consume_usage_transaction demo_env demo_free (demo_params ''ann'' (1 / 10)) 10 = (b', Inr r)"
    and r: "\<not> cr_success r" "cr_resets r = Some five_hour_ms" using demo_free_refused by blast
  have "event_fits demo_free (demo_params ''ann'' (1 / 10))"
    by (simp add: event_fits_def demo_free_def demo_billing_def demo_params_def)
  moreover have "(10 :: int) \<le> five_hour_ms" by (simp add: five_hour_ms_def)
  ultimately show ?thesis
    using refusal_resets [OF c _ r(1), of spent_wallet five_hour_ms] c r by (auto simp: demo_free_plan)
qed

section \<open>Status\<close>

text \<open>The plan gates and the overage status follow one entitlement. In the cloud a workspace
  passes the paid gate exactly when its billing workspace is on a paid tier, overage is reported
  active exactly when a debit may meter it, and the gates are ordered.\<close>

theorem gates_follow_entitlement:
  "be_local env \<or>
     (has_paid_subscription env b ws now
        = ep_paid_tier (resolve_effective_plan env b (resolve_billing_workspace_id env b ws) now)
      \<and> os_active (get_overage_status env b ws now)
        = (has_paid_subscription env b ws now
           \<and> (\<exists>w. b_wallets b (resolve_billing_workspace_id env b ws) = Some w \<and> uw_overage_enabled w)))"
proof -
  have gate: "has_paid_subscription env b ws now \<longleftrightarrow> be_local env \<or> is_paid_plan (get_effective_plan_id env b ws now)"
    by (simp only: has_paid_subscription_def plan_at_least_def is_paid_plan_def)
  have "is_paid_plan (get_effective_plan_id env b ws now)
      = ep_paid_tier (resolve_effective_plan env b (resolve_billing_workspace_id env b ws) now)"
    by (simp add: get_effective_plan_id_def resolve_effective_plan_def Let_def split: option.split)
  then show ?thesis
    by (auto simp: gate get_overage_status_def Let_def simp del: paid_plan_iff split: option.split)
qed

text \<open>The usage endpoint shows what the gate enforces. Each window's reported spend is the spend
  the preflight subtracts from the limit, its reset is ahead, and its utilization is at most 1.\<close>

theorem usage_windows_match_gate:
  "(\<lambda>(five, week).
      sn_used five = ro_used (roll_five c now) \<and> sn_used week = ro_used (roll_week c now)
      \<and> sn_limit five = map_option wl_five (ep_limits ep) \<and> sn_limit week = map_option wl_week (ep_limits ep)
      \<and> sn_utilization five \<le> 1 \<and> sn_utilization week \<le> 1
      \<and> (case sn_resets five of None \<Rightarrow> ro_used (roll_five c now) = 0 | Some t \<Rightarrow> now < t)
      \<and> (case sn_resets week of None \<Rightarrow> ro_used (roll_week c now) = 0 | Some t \<Rightarrow> now < t))
    (usage_windows_of ep c now)"
proof -
  have opened: "(if start = Some (ro_start (roll_window start used now d))
        then ro_used (roll_window start used now d) else 0) = ro_used (roll_window start used now d)"
    for start used d
    by (auto simp: roll_window_def split: option.splits)
  have closed: "start \<noteq> Some (ro_start (roll_window start used now d)) \<Longrightarrow>
      ro_used (roll_window start used now d) = 0" for start used d
    by (auto simp: roll_window_def split: option.splits if_splits)
  show ?thesis
    using opened closed roll_window_ahead [OF five_hour_pos, of now "five_start c" "five_used c"]
      roll_window_ahead [OF seven_day_pos, of now "week_start c" "week_used c"]
    by (auto simp: usage_windows_of_def snapshot_window_def Let_def roll_defs split: option.split)
qed

end
