(* ===== verification/Billing_Regions.thy ===== *)
theory Billing_Regions
  imports Billing_Meter
begin

text \<open>
  Which region writes a wallet (\<^verbatim>\<open>consumeUsage\<close>, \<^verbatim>\<open>routeWalletProvision\<close> and the provisioning entry
  points of \<^verbatim>\<open>billing.service.ts\<close>; the two endpoints of \<^verbatim>\<open>routes/internal.ts\<close>; \<^verbatim>\<open>region.ts\<close>;
  \<^verbatim>\<open>callPeerInternal\<close>). Each region has a store of its own; logical replication between them is not
  modelled, and a workspace's \<^verbatim>\<open>homeRegion\<close> is an argument. A region is named by its \<^verbatim>\<open>REGION_ID\<close>, and
  a peer's URL leads to the region of that id. What the network does to one call is an argument too.
\<close>

section \<open>Regions\<close>

definition primary_region :: string where
  "primary_region = ''us-ashburn-1''"

record region_env =
  re_billing :: billing_env
  re_id :: "string option"
  re_peers :: "string list"
  re_writer :: "string option"
  re_secret :: "string option"

definition raw_region_id :: "region_env \<Rightarrow> string option" where
  "raw_region_id e = truthy (re_id e)"

definition get_peer :: "region_env \<Rightarrow> string \<Rightarrow> string option" where
  "get_peer e h = find (\<lambda>p. p = h) (re_peers e)"

datatype writer_mode = Mode_Off | Mode_Shadow | Mode_Enforce

definition get_usage_wallet_home_writer_mode :: "region_env \<Rightarrow> writer_mode" where
  "get_usage_wallet_home_writer_mode e =
     (let v = js_lower (case truthy (re_writer e) of None \<Rightarrow> ''off'' | Some s \<Rightarrow> s)
      in if v = ''shadow'' then Mode_Shadow else if v = ''enforce'' then Mode_Enforce else Mode_Off)"

definition resolve_workspace_home_region :: "(ws_id \<Rightarrow> string option) \<Rightarrow> ws_id \<Rightarrow> string" where
  "resolve_workspace_home_region home ws =
     (case truthy (home ws) of None \<Rightarrow> primary_region | Some h \<Rightarrow> h)"

section \<open>Calling a peer\<close>

text \<open>\<open>Reply_Lost\<close>: the peer runs the request, and the caller sees a thrown fetch error. A reply is its
  status and, when it is a success, its data (error bodies are never read).\<close>

datatype delivery = Delivered | Not_Delivered | Reply_Lost

datatype 'a peer_result = Thrown | Replied nat "'a option"

definition call_peer_internal ::
  "delivery \<Rightarrow> (billing \<Rightarrow> billing \<times> nat \<times> 'a option) \<Rightarrow> string \<Rightarrow> (string \<Rightarrow> billing)
   \<Rightarrow> (string \<Rightarrow> billing) \<times> 'a peer_result" where
  "call_peer_internal net handler h stores =
     (case net of
        Not_Delivered \<Rightarrow> (stores, Thrown)
      | Delivered \<Rightarrow>
          (let (b, status, data) = handler (stores h) in (stores(h := b), Replied status data))
      | Reply_Lost \<Rightarrow> (let (b, _, _) = handler (stores h) in (stores(h := b), Thrown)))"

fun peer_data :: "'a peer_result \<Rightarrow> 'a option" where
  "peer_data Thrown = None"
| "peer_data (Replied status data) = (if 200 \<le> status \<and> status < 300 then data else None)"

text \<open>The check both endpoints make: a secret is configured and the caller sent the same one.\<close>

definition authorized :: "region_env \<Rightarrow> region_env \<Rightarrow> bool" where
  "authorized caller me \<longleftrightarrow> truthy (re_secret me) \<noteq> None \<and> truthy (re_secret caller) = truthy (re_secret me)"

section \<open>Debits\<close>

text \<open>\<^verbatim>\<open>c.json\<close> of a result: an infinite \<^verbatim>\<open>remainingIncludedUsd\<close> becomes \<^verbatim>\<open>null\<close>.\<close>

definition over_the_wire :: "consume_result \<Rightarrow> consume_result" where
  "over_the_wire r = (if cr_remaining r = Some Unlimited then r\<lparr>cr_remaining := None\<rparr> else r)"

definition post_billing_consume ::
  "(int \<Rightarrow> billing \<Rightarrow> billing) \<Rightarrow> region_env \<Rightarrow> region_env \<Rightarrow> consume_params \<Rightarrow> int \<Rightarrow> billing
   \<Rightarrow> billing \<times> nat \<times> consume_result option" where
  "post_billing_consume during caller me p now b =
     (if \<not> authorized caller me then (b, 401, None)
      else case consume_usage_local during (re_billing me) b p now of
             (b', Inl _, _) \<Rightarrow> (b', 500, None)
           | (b', Inr r, _) \<Rightarrow> (b', 200, Some (over_the_wire r)))"

definition consume_here ::
  "(int \<Rightarrow> billing \<Rightarrow> billing) \<Rightarrow> (string \<Rightarrow> region_env) \<Rightarrow> string \<Rightarrow> consume_params \<Rightarrow> int \<Rightarrow> (string \<Rightarrow> billing)
   \<Rightarrow> (string \<Rightarrow> billing) \<times> (fk_error + consume_result)" where
  "consume_here during envs r p now stores =
     (let (b, res, _) = consume_usage_local during (re_billing (envs r)) (stores r) p now
      in (stores(r := b), res))"

text \<open>The work a local run starts without awaiting it (charging blocks, alerts) runs in the region that
  wrote the wallet, as listed by \<^const>\<open>consume_effects\<close>.\<close>

definition consume_usage ::
  "(string \<Rightarrow> region_env) \<Rightarrow> (ws_id \<Rightarrow> string option) \<Rightarrow> delivery \<Rightarrow> (int \<Rightarrow> billing \<Rightarrow> billing)
   \<Rightarrow> string \<Rightarrow> consume_params \<Rightarrow> int \<Rightarrow> (string \<Rightarrow> billing)
   \<Rightarrow> (string \<Rightarrow> billing) \<times> (fk_error + consume_result)" where
  "consume_usage envs home net during r p now stores =
     (let e = envs r; mode = get_usage_wallet_home_writer_mode e
      in if be_local (re_billing e) \<or> mode = Mode_Off \<or> raw_region_id e = None
         then consume_here during envs r p now stores
         else
           let ws = (case cp_billing p of
                       Some i \<Rightarrow> i
                     | None \<Rightarrow> resolve_billing_workspace_id (re_billing e) (stores r) (cp_workspace p));
               p' = p\<lparr>cp_billing := Some ws\<rparr>;
               h = resolve_workspace_home_region home ws
           in if raw_region_id e = Some h \<or> get_peer e h = None \<or> mode = Mode_Shadow
              then consume_here during envs r p' now stores
              else
                let (stores', reply) =
                      call_peer_internal net (post_billing_consume during e (envs h) p' now) h stores
                in case peer_data reply of
                     Some res \<Rightarrow> (stores', Inr res)
                   | None \<Rightarrow> consume_here during envs r p' now stores')"

section \<open>Provisioning\<close>

datatype provision_op =
    Op_Allocate_Free
  | Op_Allocate_Monthly string int "string option option"
  | Op_Apply_Grant
  | Op_Usage_Pricing bool "rat option"
  | Op_Invoice_Paid string
  | Op_Invoice_Released string

datatype provision_reply = Wallet "wallet option" | Flag bool

fun wallet_reply :: "ws_id \<Rightarrow> billing \<Rightarrow> billing_error + billing \<Rightarrow> billing \<times> (billing_error + provision_reply)"
where
  "wallet_reply ws b (Inl e) = (b, Inl e)"
| "wallet_reply ws b (Inr b') = (b', Inr (Wallet (b_wallets b' ws)))"

text \<open>The \<^verbatim>\<open>*Local\<close> function of each operation.\<close>

fun provision_local ::
  "billing_env \<Rightarrow> provision_op \<Rightarrow> ws_id \<Rightarrow> int \<Rightarrow> billing \<Rightarrow> billing \<times> (billing_error + provision_reply)" where
  "provision_local env Op_Allocate_Free ws now b =
     wallet_reply (resolve_billing_workspace_id env b ws) b
       (raise_on_None Foreign_Key_Violation (allocate_free_wallet_local env b ws now))"
| "provision_local env (Op_Allocate_Monthly plan seats price) ws now b =
     wallet_reply ws b
       (raise_on_None Foreign_Key_Violation (allocate_monthly_included_local env b ws plan seats price now))"
| "provision_local env Op_Apply_Grant ws now b =
     wallet_reply ws b (raise_on_None Foreign_Key_Violation (apply_grant_monthly_allocation_local b ws now))"
| "provision_local env (Op_Usage_Pricing enabled limit) ws now b =
     wallet_reply (resolve_billing_workspace_id env b ws) b
       (set_usage_based_pricing_local env b ws enabled limit now)"
| "provision_local env (Op_Invoice_Paid i) ws now b =
     (let (b', n) = mark_overage_invoice_paid_local b ws i in (b', Inr (Flag (n \<noteq> None))))"
| "provision_local env (Op_Invoice_Released i) ws now b =
     (let (b', f) = release_overage_invoice_local b ws i in (b', Inr (Flag f)))"

text \<open>The endpoint reads \<^verbatim>\<open>stripePriceId\<close> back only when it is a string: a \<^verbatim>\<open>null\<close> arrives as absent.\<close>

fun op_over_the_wire :: "provision_op \<Rightarrow> provision_op" where
  "op_over_the_wire (Op_Allocate_Monthly plan seats (Some None)) = Op_Allocate_Monthly plan seats None"
| "op_over_the_wire x = x"

definition post_billing_provision ::
  "region_env \<Rightarrow> region_env \<Rightarrow> provision_op \<Rightarrow> ws_id \<Rightarrow> int \<Rightarrow> billing \<Rightarrow> billing \<times> nat \<times> provision_reply option"
where
  "post_billing_provision caller me x ws now b =
     (if \<not> authorized caller me then (b, 401, None)
      else case provision_local (re_billing me) (op_over_the_wire x) ws now b of
             (b', Inl _) \<Rightarrow> (b', 500, None)
           | (b', Inr v) \<Rightarrow> (b', 200, Some v))"

definition route_wallet_provision ::
  "(string \<Rightarrow> region_env) \<Rightarrow> (ws_id \<Rightarrow> string option) \<Rightarrow> delivery \<Rightarrow> string \<Rightarrow> provision_op \<Rightarrow> ws_id \<Rightarrow> int
   \<Rightarrow> (string \<Rightarrow> billing) \<Rightarrow> (string \<Rightarrow> billing) \<times> provision_reply option" where
  "route_wallet_provision envs home net r x ws0 now stores =
     (let e = envs r; mode = get_usage_wallet_home_writer_mode e
      in if be_local (re_billing e) \<or> mode = Mode_Off \<or> raw_region_id e = None then (stores, None)
         else
           let ws = resolve_billing_workspace_id (re_billing e) (stores r) ws0;
               h = resolve_workspace_home_region home ws
           in if raw_region_id e = Some h \<or> get_peer e h = None \<or> mode = Mode_Shadow then (stores, None)
              else
                let (stores', reply) =
                      call_peer_internal net (post_billing_provision e (envs h) x ws now) h stores
                in (stores', peer_data reply))"

text \<open>The six entry points: route, else write here.\<close>

definition provision ::
  "(string \<Rightarrow> region_env) \<Rightarrow> (ws_id \<Rightarrow> string option) \<Rightarrow> delivery \<Rightarrow> string \<Rightarrow> provision_op \<Rightarrow> ws_id \<Rightarrow> int
   \<Rightarrow> (string \<Rightarrow> billing) \<Rightarrow> (string \<Rightarrow> billing) \<times> (billing_error + provision_reply)" where
  "provision envs home net r x ws now stores =
     (case route_wallet_provision envs home net r x ws now stores of
        (stores', Some v) \<Rightarrow> (stores', Inr v)
      | (stores', None) \<Rightarrow>
          (let (b, res) = provision_local (re_billing (envs r)) x ws now (stores' r)
           in (stores'(r := b), res)))"

section \<open>Lemmas\<close>

text \<open>An accepted debit adds its one event to the store; a refused or failed one adds none.\<close>

definition event_recorded :: "consume_params \<Rightarrow> billing \<Rightarrow> billing \<Rightarrow> fk_error + consume_result \<Rightarrow> bool" where
  "event_recorded p b b' res \<longleftrightarrow>
     (if \<exists>r. res = Inr r \<and> cr_success r
      then \<exists>e. b_events b' = b_events b @ [e] \<and> e_workspace e = cp_workspace p \<and> e_billed e = cp_billed p
      else b_events b' = b_events b)"

lemma event_recorded_simps [simp]:
  "event_recorded p b b' (Inl e) \<longleftrightarrow> b_events b' = b_events b"
  "cr_success r \<Longrightarrow> event_recorded p b b' (Inr r) \<longleftrightarrow>
     (\<exists>e. b_events b' = b_events b @ [e] \<and> e_workspace e = cp_workspace p \<and> e_billed e = cp_billed p)"
  "\<not> cr_success r \<Longrightarrow> event_recorded p b b' (Inr r) \<longleftrightarrow> b_events b' = b_events b"
  by (simp_all add: event_recorded_def)

lemma event_recorded_cong:
  "cp_workspace p = cp_workspace p' \<Longrightarrow> cp_billed p = cp_billed p' \<Longrightarrow> b_events b = b_events c \<Longrightarrow>
   event_recorded p b b' res \<longleftrightarrow> event_recorded p' c b' res"
  by (auto simp: event_recorded_def)

lemma debit_wallet_events:
  assumes "debit_wallet env b p ws w now = (b', res)"
  shows "event_recorded p b b' res"
proof -
  obtain promo b1 where pr: "resolve_promo_credit_source b ws (Some w) now = (promo, b1)"
    by (cases "resolve_promo_credit_source b ws (Some w) now")
  note f = resolve_promo_frame [OF pr]
  from assms pr show ?thesis
    by (cases rule: debit_wallet_cases)
      (use f in \<open>auto simp: create_event_Inr frame_simps heal_overage_flag_def\<close>)
qed

lemma transaction_events:
  assumes "consume_usage_transaction env b p now = (b', res)"
  shows "event_recorded p b b' res"
proof (cases "b_wallets b (billing_of p)")
  case (Some w)
  with assms have "debit_wallet env b p (billing_of p) w now = (b', res)" by (simp add: consume_existing)
  then show ?thesis by (rule debit_wallet_events)
next
  case None
  note none = this
  show ?thesis
  proof (cases "allocate_free_wallet_local env b (billing_of p) now")
    case None
    with none assms show ?thesis by (auto simp: consume_usage_transaction_def no_wallet_result_def)
  next
    case (Some b0)
    with allocate_free_frame [OF Some] have ev: "b_events b0 = b_events b" by simp
    show ?thesis
    proof (cases "b_wallets b0 (billing_of p)")
      case None
      with none Some ev assms show ?thesis by (auto simp: consume_usage_transaction_def no_wallet_result_def)
    next
      case (Some w)
      with none \<open>allocate_free_wallet_local _ _ _ _ = _\<close> assms
      have "debit_wallet env b0 p (billing_of p) w now = (b', res)" by (simp add: consume_usage_transaction_def)
      from debit_wallet_events [OF this] show ?thesis by (simp add: event_recorded_cong [OF refl refl ev])
    qed
  qed
qed

lemma attempts_events:
  assumes "consume_attempts ds (\<lambda>_ b. b) env b p now = (b', res)"
  shows "event_recorded p b b' res"
  using assms
proof (induction ds arbitrary: b now)
  case Nil
  then show ?case by (simp add: transaction_events)
next
  case (Cons d ds)
  obtain b1 r1 where tx: "consume_usage_transaction env b p now = (b1, r1)"
    by (cases "consume_usage_transaction env b p now")
  note ev = transaction_events [OF tx]
  show ?case
  proof (cases "r1 = Inl FK_Project \<and> truthy (cp_project p) \<noteq> None")
    case True
    with Cons.prems tx have "consume_attempts ds (\<lambda>_ b. b) env b1 p (now + d) = (b', res)" by simp
    from Cons.IH [OF this] have "event_recorded p b1 b' res" .
    moreover from ev True have "b_events b1 = b_events b" by simp
    ultimately show ?thesis by (simp add: event_recorded_cong [of p p b1 b])
  next
    case False
    with Cons.prems tx have "(b', res) = (b1, r1)"
      by (auto split: sum.splits fk_error.splits if_splits)
    with ev show ?thesis by simp
  qed
qed

lemma local_events:
  assumes "consume_usage_local (\<lambda>_ b. b) env b p now = (b', res, effs)" and "\<not> be_local env"
  shows "event_recorded p b b' res"
proof -
  let ?p = "p\<lparr>cp_billing := Some (case cp_billing p of
      Some i \<Rightarrow> i | None \<Rightarrow> resolve_billing_workspace_id env b (cp_workspace p))\<rparr>"
  from assms have "consume_attempts fk_retry_delays (\<lambda>_ b. b) env b ?p now = (b', res)"
    by (auto simp: consume_usage_local_def Let_def split: prod.splits)
  from attempts_events [OF this] show ?thesis by (simp add: event_recorded_cong [of ?p p])
qed

lemma over_the_wire_simps [simp]:
  "cr_success (over_the_wire r) = cr_success r"
  "cr_overage (over_the_wire r) = cr_overage r"
  "cr_source (over_the_wire r) = cr_source r"
  by (simp_all add: over_the_wire_def)

lemma transaction_no_raise:
  assumes "consume_usage_transaction env b p now = (b', res)" and "event_fits b p"
  obtains r where "res = Inr r"
proof -
  have debit: "\<exists>r. snd (debit_wallet env b0 p ws w now) = Inr r"
    if ws: "b_workspaces b0 = b_workspaces b" "b_projects b0 = b_projects b" for b0 ws w
  proof -
    obtain promo b1 where pr: "resolve_promo_credit_source b0 ws (Some w) now = (promo, b1)"
      by (cases "resolve_promo_credit_source b0 ws (Some w) now")
    note f = resolve_promo_frame [OF pr]
    obtain b' res' where d: "debit_wallet env b0 p ws w now = (b', res')"
      by (cases "debit_wallet env b0 p ws w now")
    have total: "create_event (event_of p ch) c \<noteq> Inl e"
      if "b_workspaces c = b_workspaces b" "b_projects c = b_projects b" for ch c e
      using that assms(2) by (auto simp: create_event_def event_fits_def split: option.splits)
    have "res' \<noteq> Inl e" for e
      using d total ws f by (auto simp: debit_wallet_def pr Let_def frame_simps split: sum.splits)
    then have "\<exists>r. res' = Inr r" by (cases res') blast+
    then show ?thesis by (simp add: d)
  qed
  have "\<exists>r. res = Inr r"
  proof (cases "b_wallets b (billing_of p)")
    case (Some w)
    with assms(1) debit [OF refl refl, of "billing_of p" w] show ?thesis by (simp add: consume_existing)
  next
    case None
    note none = this
    show ?thesis
    proof (cases "allocate_free_wallet_local env b (billing_of p) now")
      case None
      with none assms(1) show ?thesis by (auto simp: consume_usage_transaction_def)
    next
      case (Some b0)
      with allocate_free_frame [OF Some] have ws: "b_workspaces b0 = b_workspaces b" "b_projects b0 = b_projects b" by simp_all
      show ?thesis
      proof (cases "b_wallets b0 (billing_of p)")
        case None
        with none Some assms(1) show ?thesis by (auto simp: consume_usage_transaction_def)
      next
        case (Some w)
        with none \<open>allocate_free_wallet_local _ _ _ _ = _\<close> assms(1)
        have "debit_wallet env b0 p (billing_of p) w now = (b', res)" by (simp add: consume_usage_transaction_def)
        with debit [OF ws, of "billing_of p" w] show ?thesis by simp
      qed
    qed
  qed
  with that show thesis by blast
qed

text \<open>What a call delivered to the peer, or lost, does to the stores.\<close>

lemma call_peer_cases:
  assumes "call_peer_internal net handler h stores = (stores', reply)" and "net \<noteq> Reply_Lost"
  shows "stores' = stores \<and> peer_data reply = None
    \<or> (\<exists>b st d. handler (stores h) = (b, st, d) \<and> stores' = stores(h := b)
         \<and> peer_data reply = (if 200 \<le> st \<and> st < 300 then d else None))"
proof (cases net)
  case Delivered
  obtain b st d where "handler (stores h) = (b, st, d)" by (cases "handler (stores h)")
  with Delivered assms(1) show ?thesis by (auto simp: call_peer_internal_def)
qed (use assms in \<open>simp_all add: call_peer_internal_def\<close>)

lemma call_peer_frame:
  "call_peer_internal net handler h stores = (stores', reply) \<Longrightarrow> q \<noteq> h \<Longrightarrow> stores' q = stores q"
  by (cases net) (auto simp: call_peer_internal_def split: prod.splits)

lemma post_consume_cases:
  assumes "post_billing_consume during caller me p now b = (b', st, d)"
  shows "b' = b \<and> st = 401 \<and> d = None
    \<or> (\<exists>e effs. consume_usage_local during (re_billing me) b p now = (b', Inl e, effs) \<and> st = 500 \<and> d = None)
    \<or> (\<exists>r effs. consume_usage_local during (re_billing me) b p now = (b', Inr r, effs)
         \<and> st = 200 \<and> d = Some (over_the_wire r))"
  using assms by (auto simp: post_billing_consume_def split: if_splits prod.splits sum.splits)

lemma post_provision_cases:
  assumes "post_billing_provision caller me x ws now b = (b', st, d)"
  shows "b' = b \<and> (st = 401 \<or> st = 500) \<and> d = None
    \<or> (\<exists>v. provision_local (re_billing me) (op_over_the_wire x) ws now b = (b', Inr v) \<and> st = 200 \<and> d = Some v)"
proof -
  have "fst (provision_local env y u now b) = b" if "snd (provision_local env y u now b) = Inl e" for env y u e
  proof -
    have "fst (wallet_reply i b v) = b" if "snd (wallet_reply i b v) = Inl e" for i v
      using that by (cases v) simp_all
    with that show ?thesis by (cases y) (simp_all split: prod.splits)
  qed
  with assms show ?thesis
    by (auto simp: post_billing_provision_def split: if_splits prod.splits sum.splits) (metis fst_conv snd_conv)
qed

section \<open>Properties\<close>

text \<open>C13: delivered usage is billed once. Whatever the routing configuration, if no reply is lost on the
  way back, an accepted call leaves exactly one new usage event, with its amount, in exactly one region:
  the serving one or the workspace's home. (With a lost reply the home region has charged it and the
  serving region charges it again: the source accepts that and reconciles.)\<close>

theorem usage_billed_once:
  assumes "consume_usage envs home net (\<lambda>_ b. b) r p now stores = (stores', Inr res)" and "cr_success res"
    and "net \<noteq> Reply_Lost" and "\<forall>q. \<not> be_local (re_billing (envs q))"
  shows "\<exists>q e. b_events (stores' q) = b_events (stores q) @ [e] \<and> e_workspace e = cp_workspace p
    \<and> e_billed e = cp_billed p \<and> (\<forall>q'. q' \<noteq> q \<longrightarrow> b_events (stores' q') = b_events (stores q'))
    \<and> (q = r \<or> q = resolve_workspace_home_region home (case cp_billing p of
         Some i \<Rightarrow> i | None \<Rightarrow> resolve_billing_workspace_id (re_billing (envs r)) (stores r) (cp_workspace p)))"
proof -
  define ws where "ws = (case cp_billing p of
      Some i \<Rightarrow> i | None \<Rightarrow> resolve_billing_workspace_id (re_billing (envs r)) (stores r) (cp_workspace p))"
  define h where "h = resolve_workspace_home_region home ws"
  define p' where "p' = p\<lparr>cp_billing := Some ws\<rparr>"
  note wire = event_recorded_simps(2)
  have here: "\<exists>q e. b_events (t' q) = b_events (t q) @ [e] \<and> e_workspace e = cp_workspace p
      \<and> e_billed e = cp_billed p \<and> (\<forall>q'. q' \<noteq> q \<longrightarrow> b_events (t' q') = b_events (t q')) \<and> (q = r \<or> q = h)"
    if "consume_here (\<lambda>_ b. b) envs r u now t = (t', Inr res)" and "cp_workspace u = cp_workspace p"
      and "cp_billed u = cp_billed p" for u t t'
  proof -
    from that(1) obtain b effs where
      run: "consume_usage_local (\<lambda>_ b. b) (re_billing (envs r)) (t r) u now = (b, Inr res, effs)"
      and t': "t' = t(r := b)" by (auto simp: consume_here_def split: prod.splits)
    from local_events [OF run] assms(2,4) that(2,3) t' show ?thesis by (intro exI [of _ r]) auto
  qed
  consider (direct) u where "consume_here (\<lambda>_ b. b) envs r u now stores = (stores', Inr res)"
      "cp_workspace u = cp_workspace p" "cp_billed u = cp_billed p"
    | (routed) t reply where "call_peer_internal net
        (post_billing_consume (\<lambda>_ b. b) (envs r) (envs h) p' now) h stores = (t, reply)"
      "(case peer_data reply of Some v \<Rightarrow> (t, Inr v) | None \<Rightarrow> consume_here (\<lambda>_ b. b) envs r p' now t)
        = (stores', Inr res)"
    using assms(1) unfolding consume_usage_def Let_def ws_def [symmetric] p'_def [symmetric] h_def [symmetric]
    by (auto simp: p'_def split: if_splits prod.splits)
  then show ?thesis
    unfolding ws_def [symmetric] h_def [symmetric]
  proof cases
    case direct
    then show "\<exists>q e. b_events (stores' q) = b_events (stores q) @ [e] \<and> e_workspace e = cp_workspace p
      \<and> e_billed e = cp_billed p \<and> (\<forall>q'. q' \<noteq> q \<longrightarrow> b_events (stores' q') = b_events (stores q'))
      \<and> (q = r \<or> q = h)" by (rule here)
  next
    case (routed t reply)
    show "\<exists>q e. b_events (stores' q) = b_events (stores q) @ [e] \<and> e_workspace e = cp_workspace p
      \<and> e_billed e = cp_billed p \<and> (\<forall>q'. q' \<noteq> q \<longrightarrow> b_events (stores' q') = b_events (stores q'))
      \<and> (q = r \<or> q = h)"
    proof (cases "peer_data reply")
      case (Some v)
      with call_peer_cases [OF routed(1) assms(3)] obtain b st where
        post: "post_billing_consume (\<lambda>_ b. b) (envs r) (envs h) p' now (stores h) = (b, st, Some v)"
        and t: "t = stores(h := b)" by (auto split: if_splits)
      from post_consume_cases [OF post] obtain v' effs where
        run: "consume_usage_local (\<lambda>_ b. b) (re_billing (envs h)) (stores h) p' now = (b, Inr v', effs)"
        and v: "v = over_the_wire v'" by auto
      from local_events [OF run] v Some routed(2) assms(2,4) t show ?thesis
        by (intro exI [of _ h]) (auto simp: p'_def)
    next
      case None
      have ev: "b_events (t q) = b_events (stores q)" for q
        using call_peer_cases [OF routed(1) assms(3)]
      proof (elim disjE exE conjE)
        fix b st d
        assume post: "post_billing_consume (\<lambda>_ b. b) (envs r) (envs h) p' now (stores h) = (b, st, d)"
          and t: "t = stores(h := b)" and d: "peer_data reply = (if 200 \<le> st \<and> st < 300 then d else None)"
        from post_consume_cases [OF post] d None assms(4) have "b_events b = b_events (stores h)"
          by (auto dest: local_events)
        with t show ?thesis by simp
      qed simp
      from None routed(2) have "consume_here (\<lambda>_ b. b) envs r p' now t = (stores', Inr res)" by simp
      from here [OF this] ev show ?thesis by (simp add: p'_def)
    qed
  qed
qed

text \<open>A mesh in enforce mode: every region knows itself and its siblings, and they share the secret.\<close>

definition enforced_mesh :: "(string \<Rightarrow> region_env) \<Rightarrow> string set \<Rightarrow> bool" where
  "enforced_mesh envs R \<longleftrightarrow>
     (\<forall>r \<in> R. \<not> be_local (re_billing (envs r)) \<and> get_usage_wallet_home_writer_mode (envs r) = Mode_Enforce
        \<and> raw_region_id (envs r) = Some r
        \<and> (\<forall>h \<in> R. h \<noteq> r \<longrightarrow> get_peer (envs r) h = Some h \<and> authorized (envs r) (envs h)))"

definition mesh_step ::
  "(string \<Rightarrow> region_env) \<Rightarrow> (ws_id \<Rightarrow> string option) \<Rightarrow> string \<times> consume_params \<times> int
   \<Rightarrow> (string \<Rightarrow> billing) \<Rightarrow> string \<Rightarrow> billing" where
  "mesh_step envs home e stores =
     (case e of (r, p, now) \<Rightarrow> fst (consume_usage envs home Delivered (\<lambda>_ b. b) r p now stores))"

text \<open>A call that names the pooled workspace and cannot break a foreign key at its home.\<close>

definition billed_to :: "ws_id \<Rightarrow> billing \<Rightarrow> consume_params \<Rightarrow> bool" where
  "billed_to ws b p \<longleftrightarrow> cp_billing p = Some ws \<and> event_fits b p"

lemma billed_to_cong:
  "b_workspaces b = b_workspaces b' \<Longrightarrow> b_projects b = b_projects b' \<Longrightarrow> billed_to ws b p = billed_to ws b' p"
  by (simp add: billed_to_def event_fits_def split: option.split)

lemma attempts_no_raise:
  assumes "consume_attempts ds during env b p now = (b', res)" and "event_fits b p"
  shows "(\<exists>r. res = Inr r) \<and> b_workspaces b' = b_workspaces b \<and> b_projects b' = b_projects b"
proof -
  obtain b1 r1 where tx: "consume_usage_transaction env b p now = (b1, r1)"
    by (cases "consume_usage_transaction env b p now")
  from transaction_no_raise [OF tx assms(2)] obtain r where "r1 = Inr r" .
  with assms(1) tx have "b' = b1 \<and> res = Inr r" by (cases ds) simp_all
  with consume_frame [OF tx] show ?thesis by simp
qed

lemma local_no_raise:
  assumes "consume_usage_local during env b p now = (b', res, effs)" and "\<not> be_local env"
    and "billed_to ws b p"
  shows "(\<exists>r. res = Inr r) \<and> b_workspaces b' = b_workspaces b \<and> b_projects b' = b_projects b"
proof -
  have "consume_attempts fk_retry_delays during env b (p\<lparr>cp_billing := Some ws\<rparr>) now = (b', res)"
    using assms by (auto simp: consume_usage_local_def billed_to_def Let_def split: prod.splits)
  from attempts_no_raise [OF this] assms(3) show ?thesis by (simp add: billed_to_def event_fits_def)
qed

lemma mesh_call:
  assumes mesh: "enforced_mesh envs R" and r: "r \<in> R" and h: "h \<in> R"
    and home: "resolve_workspace_home_region home ws = h" and p: "billed_to ws (stores h) p"
  shows "\<exists>b. mesh_step envs home (r, p, now) stores = stores(h := b)
    \<and> b_workspaces b = b_workspaces (stores h) \<and> b_projects b = b_projects (stores h)"
proof (cases "r = h")
  case True
  obtain b res effs where run: "consume_usage_local (\<lambda>_ b. b) (re_billing (envs h)) (stores h)
      (p\<lparr>cp_billing := Some ws\<rparr>) now = (b, res, effs)"
    by (cases "consume_usage_local (\<lambda>_ b. b) (re_billing (envs h)) (stores h) (p\<lparr>cp_billing := Some ws\<rparr>) now")
  have "billed_to ws (stores h) (p\<lparr>cp_billing := Some ws\<rparr>)" using p by (simp add: billed_to_def event_fits_def)
  with local_no_raise [OF run] mesh h have "b_workspaces b = b_workspaces (stores h) \<and> b_projects b = b_projects (stores h)"
    by (auto simp: enforced_mesh_def)
  moreover have "mesh_step envs home (r, p, now) stores = stores(h := b)"
    using True mesh h home p run
    by (simp add: mesh_step_def consume_usage_def Let_def enforced_mesh_def billed_to_def consume_here_def)
  ultimately show ?thesis by blast
next
  case False
  obtain b res effs where run: "consume_usage_local (\<lambda>_ b. b) (re_billing (envs h)) (stores h)
      (p\<lparr>cp_billing := Some ws\<rparr>) now = (b, res, effs)"
    by (cases "consume_usage_local (\<lambda>_ b. b) (re_billing (envs h)) (stores h) (p\<lparr>cp_billing := Some ws\<rparr>) now")
  have "billed_to ws (stores h) (p\<lparr>cp_billing := Some ws\<rparr>)" using p by (simp add: billed_to_def event_fits_def)
  with local_no_raise [OF run] mesh h obtain v where v: "res = Inr v" "b_workspaces b = b_workspaces (stores h)" "b_projects b = b_projects (stores h)"
    by (auto simp: enforced_mesh_def)
  have "get_usage_wallet_home_writer_mode (envs r) = Mode_Enforce" "raw_region_id (envs r) = Some r"
    "\<not> be_local (re_billing (envs r))" "get_peer (envs r) h = Some h" "authorized (envs r) (envs h)"
    using mesh r h False by (auto simp: enforced_mesh_def)
  with False home p run v have "mesh_step envs home (r, p, now) stores = stores(h := b)"
    by (simp add: mesh_step_def consume_usage_def Let_def billed_to_def call_peer_internal_def
        post_billing_consume_def)
  with v show ?thesis by blast
qed

text \<open>C30: one writer per wallet. In an enforced mesh whose calls get through, any sequence of debits of a
  workspace whose workspace, and project if one is named, exist in the home region's store, wherever each
  is served, writes only the home region's store; every other region's store, wallets, seats and events,
  stays exactly as it was. (A debit that names a workspace or project the home does not know is refused
  there and falls back to the serving region's own store.)\<close>

theorem enforced_mesh_single_writer:
  assumes "enforced_mesh envs R" and "h \<in> R" and "resolve_workspace_home_region home ws = h"
    and "\<forall>(r, p, now) \<in> set es. r \<in> R \<and> billed_to ws (stores h) p"
  shows "\<exists>b. fold (mesh_step envs home) es stores = stores(h := b)"
proof -
  have "\<exists>b. fold (mesh_step envs home) es stores = stores(h := b)
      \<and> b_workspaces b = b_workspaces (stores h) \<and> b_projects b = b_projects (stores h)"
    using assms(4)
  proof (induction es arbitrary: stores)
    case Nil
    show ?case by (intro exI [of _ "stores h"]) simp
  next
    case (Cons e es)
    obtain r p now where e: "e = (r, p, now)" by (cases e) auto
    with Cons.prems mesh_call [OF assms(1) _ assms(2,3), of r stores p now] obtain b where
      s: "mesh_step envs home e stores = stores(h := b)" "b_workspaces b = b_workspaces (stores h)"
      "b_projects b = b_projects (stores h)" by auto
    have "\<forall>(r, p, now) \<in> set es. r \<in> R \<and> billed_to ws b p"
      using Cons.prems billed_to_cong [OF s(2,3)] by auto
    with Cons.IH [of "stores(h := b)"] s obtain c where
      "fold (mesh_step envs home) es (stores(h := b)) = (stores(h := b))(h := c)" "b_workspaces c = b_workspaces b" "b_projects c = b_projects b"
      by (auto simp: fun_upd_same simp del: fun_upd_apply)
    with s show ?case by (intro exI [of _ c]) (simp del: fun_upd_apply)
  qed
  then show ?thesis by blast
qed

text \<open>Provisioning has one writer too. If no reply is lost, exactly one region runs the operation: the
  workspace's home, on the billing workspace, or the serving region, on the workspace it was given;
  no other store changes, and the caller gets that region's answer.\<close>

theorem provision_single_writer:
  assumes "provision envs home net r x ws now stores = (stores', res)" and "net \<noteq> Reply_Lost"
  shows "\<exists>q x' ws'. provision_local (re_billing (envs q)) x' ws' now (stores q) = (stores' q, res)
    \<and> (\<forall>q'. q' \<noteq> q \<longrightarrow> stores' q' = stores q')
    \<and> (q = r \<and> x' = x \<and> ws' = ws
       \<or> ws' = resolve_billing_workspace_id (re_billing (envs r)) (stores r) ws
         \<and> q = resolve_workspace_home_region home ws' \<and> x' = op_over_the_wire x)"
proof -
  define bws where "bws = resolve_billing_workspace_id (re_billing (envs r)) (stores r) ws"
  define h where "h = resolve_workspace_home_region home bws"
  obtain t v where route: "route_wallet_provision envs home net r x ws now stores = (t, v)"
    by (cases "route_wallet_provision envs home net r x ws now stores")
  have step: "t = stores \<and> v = None
    \<or> (\<exists>y. provision_local (re_billing (envs h)) (op_over_the_wire x) bws now (stores h) = (t h, Inr y)
         \<and> v = Some y \<and> (\<forall>q'. q' \<noteq> h \<longrightarrow> t q' = stores q'))"
  proof (cases "v = None \<and> t = stores")
    case False
    with route obtain reply where
      call: "call_peer_internal net (post_billing_provision (envs r) (envs h) x bws now) h stores = (t, reply)"
      and v: "v = peer_data reply"
      by (auto simp: route_wallet_provision_def Let_def bws_def h_def split: if_splits prod.splits)
    with False call_peer_cases [OF call assms(2)] obtain b st d where
      post: "post_billing_provision (envs r) (envs h) x bws now (stores h) = (b, st, d)"
      and t: "t = stores(h := b)" and d: "peer_data reply = (if 200 \<le> st \<and> st < 300 then d else None)" by auto
    from post_provision_cases [OF post] False v d t show ?thesis by auto
  qed simp
  then show ?thesis
  proof (elim disjE exE conjE)
    assume "t = stores" "v = None"
    with assms(1) route have "provision_local (re_billing (envs r)) x ws now (stores r) = (stores' r, res)"
      "\<forall>q'. q' \<noteq> r \<longrightarrow> stores' q' = stores q'"
      by (auto simp: provision_def split: prod.splits)
    then show ?thesis by (intro exI [of _ r] exI [of _ x] exI [of _ ws]) simp
  next
    fix y
    assume run: "provision_local (re_billing (envs h)) (op_over_the_wire x) bws now (stores h) = (t h, Inr y)"
      and v: "v = Some y" and fr: "\<forall>q'. q' \<noteq> h \<longrightarrow> t q' = stores q'"
    from assms(1) route v have "stores' = t" "res = Inr y" by (auto simp: provision_def)
    with run fr show ?thesis
      by (intro exI [of _ h] exI [of _ "op_over_the_wire x"] exI [of _ bws]) (simp add: h_def bws_def)
  qed
qed

section \<open>A concrete mesh\<close>

definition demo_mesh :: "string \<Rightarrow> region_env" where
  "demo_mesh r =
     \<lparr>re_billing = demo_env, re_id = Some r, re_peers = filter (\<lambda>q. q \<noteq> r) [''us'', ''eu''],
      re_writer = Some ''ENFORCE'', re_secret = Some ''s''\<rparr>"

lemma demo_mesh_ok: "enforced_mesh demo_mesh {''us'', ''eu''}"
proof -
  have "js_lower ''ENFORCE'' = ''enforce''" by code_simp
  then show ?thesis
    by (simp add: enforced_mesh_def demo_mesh_def demo_env_def get_usage_wallet_home_writer_mode_def
        raw_region_id_def get_peer_def authorized_def)
qed

lemma demo_billed_to:
  "billed_to ''w'' demo_seats (demo_params ''ann'' 1)"
  "billed_to ''w'' demo_seats ((demo_params ''ann'' 1)\<lparr>cp_project := Some ''p''\<rparr>)"
  by (simp_all add: billed_to_def event_fits_def demo_params_def demo_seats_def demo_billing_def)

lemma enforced_mesh_single_writer_witness:
  "\<exists>b. fold (mesh_step demo_mesh (\<lambda>_. Some ''eu'')) [(''us'', demo_params ''ann'' 1, 10),
     (''us'', (demo_params ''ann'' 1)\<lparr>cp_project := Some ''p''\<rparr>, 20), (''eu'', demo_params ''ann'' 1, 30)]
     (\<lambda>_. demo_seats) = (\<lambda>_. demo_seats)(''eu'' := b)"
  by (rule enforced_mesh_single_writer [OF demo_mesh_ok, of _ _ "''w''"])
    (simp_all add: resolve_workspace_home_region_def demo_billed_to)

lemma demo_params_billing: "(demo_params u x)\<lparr>cp_billing := Some ''w''\<rparr> = demo_params u x"
  by (simp add: demo_params_def)

lemma demo_home_debit:
  "\<exists>b r. consume_usage demo_mesh (\<lambda>_. Some ''eu'') Delivered (\<lambda>_ b. b) ''us'' (demo_params ''ann'' 1) 10 (\<lambda>_. demo_seats)
     = ((\<lambda>_. demo_seats)(''eu'' := b), Inr r) \<and> cr_success r"
proof -
  obtain b r where tx: "consume_usage_transaction demo_env demo_seats (demo_params ''ann'' 1) 10 = (b, Inr r)"
    and ok: "cr_success r" using demo_window_debit by blast
  then have "consume_attempts fk_retry_delays (\<lambda>_ b. b) demo_env demo_seats (demo_params ''ann'' 1) 10 = (b, Inr r)"
    by (simp add: fk_retry_delays_def)
  then have run: "consume_usage_local (\<lambda>_ b. b) demo_env demo_seats (demo_params ''ann'' 1) 10
      = (b, Inr r, consume_effects ''w'' r)"
    by (simp add: consume_usage_local_def demo_params_def demo_env_def Let_def)
  have env: "re_billing (demo_mesh q) = demo_env" "raw_region_id (demo_mesh ''us'') = Some ''us''"
    "get_usage_wallet_home_writer_mode (demo_mesh ''us'') = Mode_Enforce"
    "get_peer (demo_mesh ''us'') ''eu'' = Some ''eu''" "authorized (demo_mesh ''us'') (demo_mesh ''eu'')" for q
    using demo_mesh_ok by (auto simp: enforced_mesh_def demo_mesh_def)
  have "\<not> be_local demo_env" "cp_billing (demo_params ''ann'' 1) = Some ''w''"
    by (simp_all add: demo_env_def demo_params_def)
  then have "consume_usage demo_mesh (\<lambda>_. Some ''eu'') Delivered (\<lambda>_ b. b) ''us'' (demo_params ''ann'' 1) 10
      (\<lambda>_. demo_seats) = ((\<lambda>_. demo_seats)(''eu'' := b), Inr (over_the_wire r))"
    by (simp add: consume_usage_def env Let_def demo_params_billing resolve_workspace_home_region_def
        call_peer_internal_def post_billing_consume_def run)
  with ok show ?thesis by auto
qed

lemma usage_billed_once_witness:
  "\<exists>stores' res q e. consume_usage demo_mesh (\<lambda>_. Some ''eu'') Delivered (\<lambda>_ b. b) ''us'' (demo_params ''ann'' 1) 10
       (\<lambda>_. demo_seats) = (stores', Inr res)
     \<and> b_events (stores' q) = b_events demo_seats @ [e] \<and> e_billed e = 1
     \<and> {q'. q' \<noteq> q} \<subseteq> {q'. b_events (stores' q') = b_events demo_seats}"
proof -
  obtain stores' res where c: "consume_usage demo_mesh (\<lambda>_. Some ''eu'') Delivered (\<lambda>_ b. b) ''us''
      (demo_params ''ann'' 1) 10 (\<lambda>_. demo_seats) = (stores', Inr res)" "cr_success res"
    using demo_home_debit by blast
  have "\<forall>q. \<not> be_local (re_billing (demo_mesh q))" by (simp add: demo_mesh_def demo_env_def)
  with usage_billed_once [OF c] obtain q e where
    "b_events (stores' q) = b_events demo_seats @ [e]" "e_billed e = 1"
    "\<forall>q'. q' \<noteq> q \<longrightarrow> b_events (stores' q') = b_events demo_seats"
    by (auto simp: demo_params_def)
  with c show ?thesis by blast
qed

lemma provision_single_writer_witness:
  "\<exists>stores' res q. provision demo_mesh (\<lambda>_. Some ''eu'') Delivered ''us'' (Op_Usage_Pricing True (Some 50)) ''w'' 10
       (\<lambda>_. demo_seats) = (stores', res)
     \<and> {q'. q' \<noteq> q} \<subseteq> {q'. stores' q' = demo_seats}"
proof -
  obtain stores' res where c: "provision demo_mesh (\<lambda>_. Some ''eu'') Delivered ''us''
      (Op_Usage_Pricing True (Some 50)) ''w'' 10 (\<lambda>_. demo_seats) = (stores', res)"
    by (cases "provision demo_mesh (\<lambda>_. Some ''eu'') Delivered ''us''
      (Op_Usage_Pricing True (Some 50)) ''w'' 10 (\<lambda>_. demo_seats)")
  from provision_single_writer [OF c] c show ?thesis by auto
qed

end
