(* ===== verification/Scrollback.thy ===== *)
theory Scrollback
  imports Prelude
begin

text \<open>
  The PTY scrollback ring (\<^verbatim>\<open>packages/pty-core/src/scrollback-ring.ts\<close>): output chunks keyed by an
  increasing sequence number, evicted whole and oldest first once the bytes exceed the capacity. The
  theory also states, as a locale, what every sequence-numbered log in the program offers a client
  that reconnects; the ring and the stream buffer both provide it.
\<close>

section \<open>Sequence-numbered logs\<close>

text \<open>A log holds entries under strictly increasing numbers. \<open>after n\<close> is what a client that has seen
  everything up to \<open>n\<close> still needs.\<close>

locale seq_log =
  fixes entries :: "'s \<Rightarrow> (int \<times> 'c) list" and ok :: "'s \<Rightarrow> bool"
  assumes increasing: "ok s \<Longrightarrow> sorted_wrt (<) (map fst (entries s))"
begin

definition after :: "int \<Rightarrow> 's \<Rightarrow> 'c list" where
  "after n s = map snd (filter (\<lambda>(q, c). n < q) (entries s))"

lemma suffix_of_sorted:
  "sorted_wrt (<) (map fst xs) \<Longrightarrow> (n :: int) \<le> m \<Longrightarrow>
   filter (\<lambda>(q, c). n < q) xs
     = filter (\<lambda>(q, c). n < q \<and> q \<le> m) xs @ filter (\<lambda>(q, c). m < q) xs"
proof (induction xs)
  case (Cons x xs)
  obtain q c where x: "x = (q, c)" by (cases x)
  show ?case
  proof (cases "m < q")
    case True
    have "\<forall>y \<in> set xs. q < fst y" using Cons.prems x by auto
    with True have "\<forall>y \<in> set xs. m < fst y" by (meson less_trans)
    then have "filter (\<lambda>(q, c). n < q \<and> q \<le> m) xs = []" by (auto simp: filter_empty_conv)
    with True Cons x show ?thesis by auto
  next
    case False
    with Cons x show ?thesis by auto
  qed
qed simp

text \<open>A client that stops at \<open>m\<close> and resumes there reads exactly what one uninterrupted read gives.\<close>

lemma resume_split:
  assumes "ok s" and "n \<le> m"
  shows "after n s = map snd (filter (\<lambda>(q, c). n < q \<and> q \<le> m) (entries s)) @ after m s"
  using suffix_of_sorted [OF increasing [OF assms(1)] assms(2)] by (simp add: after_def)

lemma after_none: "(\<And>q c. (q, c) \<in> set (entries s) \<Longrightarrow> q \<le> n) \<Longrightarrow> after n s = []"
  by (force simp: after_def filter_empty_conv)

end

section \<open>The ring\<close>

type_synonym bytes = string

record ring =
  rg_capacity :: int
  rg_chunks :: "(int \<times> bytes) list"
  rg_bytes :: int
  rg_first :: int

text \<open>\<^verbatim>\<open>capacity | 0\<close>: the signed 32-bit value. \<^const>\<open>None\<close> is a capacity that is not finite.\<close>

definition to_int32 :: "int \<Rightarrow> int" where
  "to_int32 n = (n + 2 ^ 31) mod 2 ^ 32 - 2 ^ 31"

definition new_ring :: "int option \<Rightarrow> ring" where
  "new_ring capacity =
     \<lparr>rg_capacity = (case capacity of None \<Rightarrow> 0 | Some n \<Rightarrow> max 0 (to_int32 n)),
      rg_chunks = [], rg_bytes = 0, rg_first = 0\<rparr>"

text \<open>The eviction loop of \<^verbatim>\<open>append\<close>.\<close>

fun evict :: "int \<Rightarrow> (int \<times> bytes) list \<Rightarrow> int \<Rightarrow> int \<Rightarrow> (int \<times> bytes) list \<times> int \<times> int" where
  "evict cap (c # d # cs) held first =
     (if cap < held then evict cap (d # cs) (held - int (length (snd c))) (fst d)
      else (c # d # cs, held, first))"
| "evict cap cs held first = (cs, held, first)"

definition ring_append :: "int \<Rightarrow> bytes \<Rightarrow> ring \<Rightarrow> ring" where
  "ring_append q chunk r =
     (if chunk = [] then r
      else
        let first = (if rg_chunks r = [] then q else rg_first r);
            (cs, held, first') =
              evict (rg_capacity r) (rg_chunks r @ [(q, chunk)]) (rg_bytes r + int (length chunk)) first
        in r\<lparr>rg_chunks := cs, rg_bytes := held, rg_first := first'\<rparr>)"

record replay =
  rp_bytes :: bytes
  rp_latest :: int
  rp_truncated :: bool

definition replay_since :: "int \<Rightarrow> ring \<Rightarrow> replay" where
  "replay_since since r =
     (if rg_chunks r = [] then \<lparr>rp_bytes = [], rp_latest = since, rp_truncated = False\<rparr>
      else
        let truncated = (since \<noteq> 0 \<and> since + 1 < rg_first r);
            rest = dropWhile (\<lambda>(q, c). q \<le> since) (rg_chunks r)
        in if rest = [] then \<lparr>rp_bytes = [], rp_latest = since, rp_truncated = truncated\<rparr>
           else \<lparr>rp_bytes = concat (map snd rest), rp_latest = fst (last rest), rp_truncated = truncated\<rparr>)"

section \<open>Invariant\<close>

definition chunk_bytes :: "(int \<times> bytes) list \<Rightarrow> int" where
  "chunk_bytes cs = int (length (concat (map snd cs)))"

definition ring_ok :: "ring \<Rightarrow> bool" where
  "ring_ok r \<longleftrightarrow>
     rg_bytes r = chunk_bytes (rg_chunks r)
     \<and> sorted_wrt (<) (map fst (rg_chunks r))
     \<and> (rg_chunks r \<noteq> [] \<longrightarrow> rg_first r = fst (hd (rg_chunks r)))
     \<and> (rg_bytes r \<le> rg_capacity r \<or> length (rg_chunks r) \<le> 1)
     \<and> 0 \<le> rg_capacity r"

lemma chunk_bytes_simps [simp]:
  "chunk_bytes [] = 0"
  "chunk_bytes (c # cs) = int (length (snd c)) + chunk_bytes cs"
  "chunk_bytes (cs @ ds) = chunk_bytes cs + chunk_bytes ds"
  by (simp_all add: chunk_bytes_def)

lemma evict_spec:
  assumes "evict cap cs held first = (cs', held', first')" and "held = chunk_bytes cs"
    and "cs \<noteq> []" and "first = fst (hd cs)"
  shows "held' = chunk_bytes cs' \<and> suffix cs' cs \<and> cs' \<noteq> [] \<and> first' = fst (hd cs')
    \<and> (held' \<le> cap \<or> length cs' \<le> 1)"
  using assms
proof (induction cap cs held first rule: evict.induct)
  case (1 cap c d cs held first)
  show ?case
  proof (cases "cap < held")
    case True
    with "1.prems" have "evict cap (d # cs) (held - int (length (snd c))) (fst d) = (cs', held', first')" by simp
    have "held' = chunk_bytes cs' \<and> suffix cs' (d # cs) \<and> cs' \<noteq> []
        \<and> first' = fst (hd cs') \<and> (held' \<le> cap \<or> length cs' \<le> 1)"
      by (rule "1.IH" [OF True \<open>evict cap (d # cs) _ _ = _\<close>]) (use "1.prems"(2) in simp_all)
    then show ?thesis by (elim conjE) (intro conjI; (assumption | (rule suffix_ConsI, assumption)))
  next
    case False
    with "1.prems"(1) have "cs' = c # d # cs" "held' = held" "first' = first" by simp_all
    with False "1.prems"(2-) show ?thesis by simp
  qed
qed auto

lemma ring_append_spec:
  assumes "ring_ok r" and "chunk \<noteq> []" and "\<And>p. p \<in> set (rg_chunks r) \<Longrightarrow> fst p < q"
  shows "ring_ok (ring_append q chunk r)
    \<and> suffix (rg_chunks (ring_append q chunk r)) (rg_chunks r @ [(q, chunk)])
    \<and> rg_chunks (ring_append q chunk r) \<noteq> []
    \<and> rg_capacity (ring_append q chunk r) = rg_capacity r"
proof -
  define first where "first = (if rg_chunks r = [] then q else rg_first r)"
  obtain cs held first' where e: "evict (rg_capacity r) (rg_chunks r @ [(q, chunk)])
      (rg_bytes r + int (length chunk)) first = (cs, held, first')"
    by (cases "evict (rg_capacity r) (rg_chunks r @ [(q, chunk)]) (rg_bytes r + int (length chunk)) first")
  have hd: "first = fst (hd (rg_chunks r @ [(q, chunk)]))"
    using assms(1) by (cases "rg_chunks r") (auto simp: first_def ring_ok_def)
  have sz: "rg_bytes r + int (length chunk) = chunk_bytes (rg_chunks r @ [(q, chunk)])"
    using assms(1) by (simp add: ring_ok_def)
  note spec = evict_spec [OF e sz _ hd]
  have "sorted_wrt (<) (map fst (rg_chunks r @ [(q, chunk)]))"
    using assms(1,3) by (auto simp: ring_ok_def sorted_wrt_append)
  then have "sorted_wrt (<) (map fst cs)"
    using spec
  proof -
    obtain zs where "rg_chunks r @ [(q, chunk)] = zs @ cs" using spec by (auto simp: suffix_def)
    with \<open>sorted_wrt (<) (map fst (rg_chunks r @ [(q, chunk)]))\<close>
    have "sorted_wrt (<) (map fst (zs @ cs))" by simp
    then show ?thesis by (simp add: sorted_wrt_append)
  qed
  moreover have "ring_append q chunk r = r\<lparr>rg_chunks := cs, rg_bytes := held, rg_first := first'\<rparr>"
    using assms(2) e by (simp add: ring_append_def Let_def flip: first_def)
  ultimately show ?thesis using spec assms(1) by (auto simp: ring_ok_def)
qed

interpretation ring: seq_log rg_chunks ring_ok
  by unfold_locales (simp add: ring_ok_def)

lemma dropWhile_after:
  "sorted_wrt (<) (map fst xs) \<Longrightarrow>
   dropWhile (\<lambda>(q :: int, c). q \<le> n) xs = filter (\<lambda>(q, c). n < q) xs"
proof (induction xs)
  case (Cons x xs)
  then show ?case
    by (cases x) (auto simp: not_le intro!: filter_True [symmetric])
qed simp

lemma replay_bytes: "ring_ok r \<Longrightarrow> rp_bytes (replay_since n r) = concat (ring.after n r)"
  by (auto simp: replay_since_def Let_def ring.after_def dropWhile_after ring_ok_def)

text \<open>A PTY: it numbers its chunks 1, 2, ... and appends each to the ring.\<close>

fun ring_run :: "int option \<Rightarrow> bytes list \<Rightarrow> ring" where
  "ring_run cap [] = new_ring cap"
| "ring_run cap (c # cs) = ring_append (int (length cs) + 1) c (ring_run cap cs)"

text \<open>\<open>cs\<close> is the newest-first list of chunks; \<open>numbered cs\<close> the whole output, oldest first.\<close>

definition numbered :: "bytes list \<Rightarrow> (int \<times> bytes) list" where
  "numbered cs = zip (map int [1..<length cs + 1]) (rev cs)"

lemma numbered_Cons: "numbered (c # cs) = numbered cs @ [(int (length cs) + 1, c)]"
proof -
  have "[1..<length (c # cs) + 1] = [1..<length cs + 1] @ [length cs + 1]" by simp
  then show ?thesis unfolding numbered_def by (simp add: zip_append del: upt_Suc)
qed

lemma numbered_fst: "map fst (numbered cs) = map int [1..<length cs + 1]"
  by (simp add: numbered_def)

lemma numbered_bound: "p \<in> set (numbered cs) \<Longrightarrow> 1 \<le> fst p \<and> fst p \<le> int (length cs)"
proof -
  assume "p \<in> set (numbered cs)"
  then have "fst p \<in> set (map fst (numbered cs))" by simp
  then show ?thesis unfolding numbered_fst by auto
qed

lemma ring_run_inv:
  assumes "[] \<notin> set cs"
  shows "ring_ok (ring_run cap cs) \<and> suffix (rg_chunks (ring_run cap cs)) (numbered cs)
    \<and> (cs \<noteq> [] \<longrightarrow> rg_chunks (ring_run cap cs) \<noteq> [])
    \<and> rg_capacity (ring_run cap cs) = rg_capacity (new_ring cap)"
  using assms
proof (induction cs)
  case Nil
  then show ?case by (simp add: ring_ok_def new_ring_def numbered_def split: option.split)
next
  case (Cons c cs)
  then have ih: "ring_ok (ring_run cap cs)" "suffix (rg_chunks (ring_run cap cs)) (numbered cs)"
    "rg_capacity (ring_run cap cs) = rg_capacity (new_ring cap)" "c \<noteq> []" by auto
  have "fst p < int (length cs) + 1" if "p \<in> set (rg_chunks (ring_run cap cs))" for p
    using that ih(2) numbered_bound [of p cs] set_mono_suffix by fastforce
  from ring_append_spec [OF ih(1) ih(4) this] ih(2,3) show ?case
    by (auto simp: numbered_Cons intro: suffix_order.trans)
qed

section \<open>Properties\<close>

text \<open>Memory is bounded and chunks are never cut. After any output the ring holds a tail of the
  chunks, whole and in order, of at most the capacity, or just the newest chunk when that alone is
  larger.\<close>

theorem ring_bounded:
  assumes "[] \<notin> set cs"
  shows "suffix (rg_chunks (ring_run cap cs)) (numbered cs)
    \<and> rg_bytes (ring_run cap cs) = chunk_bytes (rg_chunks (ring_run cap cs))
    \<and> (rg_bytes (ring_run cap cs) \<le> rg_capacity (new_ring cap) \<or> length (rg_chunks (ring_run cap cs)) \<le> 1)
    \<and> (cs \<noteq> [] \<longrightarrow> rg_chunks (ring_run cap cs) \<noteq> [])"
  using ring_run_inv [OF assms, of cap] by (auto simp: ring_ok_def)

lemma ring_bounded_witness:
  "rg_bytes (ring_run (Some 4) [''ef'', ''cd'', ''ab'']) \<le> rg_capacity (new_ring (Some 4))
   \<or> length (rg_chunks (ring_run (Some 4) [''ef'', ''cd'', ''ab''])) \<le> 1"
proof -
  have "[] \<notin> set [''ef'', ''cd'', ''ab'']" by simp
  from ring_bounded [OF this, of "Some 4"] show ?thesis by blast
qed

text \<open>The truncation flag is exact. A client that has seen chunk \<open>n\<close> and reconnects is told
  \<^verbatim>\<open>truncated\<close> exactly when some later chunk is gone, and otherwise receives every later byte once, in
  order.\<close>

theorem ring_replay_exact:
  assumes "[] \<notin> set cs" and "1 \<le> n" and "n \<le> int (length cs)"
  shows "(rp_truncated (replay_since n (ring_run cap cs))
      \<longleftrightarrow> (\<exists>p \<in> set (numbered cs). n < fst p \<and> p \<notin> set (rg_chunks (ring_run cap cs))))
    \<and> (\<not> rp_truncated (replay_since n (ring_run cap cs)) \<longrightarrow>
        rp_bytes (replay_since n (ring_run cap cs))
          = concat (map snd (filter (\<lambda>p. n < fst p) (numbered cs))))"
proof -
  define r where "r = ring_run cap cs"
  from ring_run_inv [OF assms(1), of cap] assms(2,3) have ok: "ring_ok r" and ne: "rg_chunks r \<noteq> []"
    and suf: "suffix (rg_chunks r) (numbered cs)" by (auto simp: r_def)
  then obtain lost where lost: "numbered cs = lost @ rg_chunks r" by (auto simp: suffix_def)
  have sorted: "sorted_wrt (<) (map fst (numbered cs))"
    unfolding numbered_fst by (simp add: sorted_wrt_map del: upt_Suc)
  have first: "rg_first r = fst (hd (rg_chunks r))" using ok ne by (simp add: ring_ok_def)
  have len: "rg_first r = int (length lost) + 1"
  proof -
    have "length lost < length (numbered cs)" using lost ne by (cases "rg_chunks r") auto
    then have lt: "length lost < length cs" by (simp add: numbered_def)
    have "rg_first r = map fst (numbered cs) ! length lost"
      using lost ne first by (cases "rg_chunks r") (auto simp: nth_append)
    then show ?thesis using lt unfolding numbered_fst by (simp del: upt_Suc)
  qed
  have lostq: "map fst lost = map int [1..<length lost + 1]"
  proof -
    have "map fst lost = take (length lost) (map fst (numbered cs))" using lost by simp
    moreover have "length lost \<le> length cs" using lost by (metis le_add1 length_append length_map length_rev
      length_upt map_fst_zip numbered_def add_diff_cancel_right' length_zip min.idem)
    ultimately show ?thesis unfolding numbered_fst by (simp add: take_map take_upt del: upt_Suc)
  qed
  have tr: "rp_truncated (replay_since n r) \<longleftrightarrow> n < int (length lost)"
    using assms(2) ne by (auto simp: replay_since_def Let_def len)
  have gone: "(\<exists>p \<in> set (numbered cs). n < fst p \<and> p \<notin> set (rg_chunks r)) \<longleftrightarrow> n < int (length lost)"
  proof
    assume "\<exists>p \<in> set (numbered cs). n < fst p \<and> p \<notin> set (rg_chunks r)"
    then obtain p where "p \<in> set lost" "n < fst p" using lost by auto
    then have "fst p \<in> set (map fst lost)" "n < fst p" by auto
    then show "n < int (length lost)" unfolding lostq by auto
  next
    assume n: "n < int (length lost)"
    with assms(2) have ll: "lost \<noteq> []" by auto
    then have "fst (last lost) = last (map fst lost)" by (simp add: last_map)
    also have "\<dots> = int (length lost)" using ll unfolding lostq
      by (cases lost) (simp_all add: last_map last_upt del: upt_Suc)
    finally have l: "fst (last lost) = int (length lost)" .
    have "last lost \<notin> set (rg_chunks r)"
    proof
      assume "last lost \<in> set (rg_chunks r)"
      moreover have "last lost \<in> set lost" using ll by simp
      ultimately show False using sorted unfolding lost by (force simp: sorted_wrt_append)
    qed
    with ll l n lost show "\<exists>p \<in> set (numbered cs). n < fst p \<and> p \<notin> set (rg_chunks r)"
      by (intro bexI [of _ "last lost"]) auto
  qed
  have "concat (map snd (filter (\<lambda>p. n < fst p) (numbered cs))) = rp_bytes (replay_since n r)"
    if "\<not> n < int (length lost)"
  proof -
    have "fst p \<le> n" if "p \<in> set lost" for p
    proof -
      from that have "fst p \<in> set (map fst lost)" by auto
      then show ?thesis using \<open>\<not> n < _\<close> unfolding lostq by auto
    qed
    then have "filter (\<lambda>p. n < fst p) lost = []" by (force simp: filter_empty_conv)
    then show ?thesis by (simp add: lost replay_bytes [OF ok] ring.after_def case_prod_beta')
  qed
  with tr gone show ?thesis unfolding r_def [symmetric] by simp
qed

lemma ring_replay_exact_witness:
  "rp_truncated (replay_since 1 (ring_run (Some 3) [''ef'', ''cd'', ''ab'']))"
  using ring_replay_exact [of "[''ef'', ''cd'', ''ab'']" 1 "Some 3"]
  by (simp add: numbered_def ring_append_def new_ring_def to_int32_def upt_rec)

end
