(* ===== verification/Stream_Buffer.thy ===== *)
theory Stream_Buffer
  imports Scrollback
begin

text \<open>
  The in-memory stream buffer and turn ledger (\<^verbatim>\<open>packages/core/src/stream-buffer.ts\<close>). Writers and
  replay streams hold on to buffer objects after the key has moved on, so buffers live in a heap (a
  list; the index is the object's identity) and the \<^verbatim>\<open>Map\<close> from keys points into it. A replay stream is
  a subscription: its controller's output, and for a stream whose replay is still being built, the
  frames held back. \<^verbatim>\<open>compactSseFrames\<close>, \<^verbatim>\<open>encodeTurnSeqFrame\<close> (\<^verbatim>\<open>stream-compaction.ts\<close>) and the
  caller's \<^verbatim>\<open>buildReplay\<close> are arguments. The clock is the argument \<open>now\<close>.
\<close>

section \<open>State\<close>

datatype turn_status = Turn_Active | Turn_Completed | Turn_Aborted | Turn_Failed

record turn_terminal =
  tt_reason :: "string option"
  tt_error :: "string option"

type_synonym frame = "int \<times> bytes"

record buffer =
  bf_turn :: string
  bf_frames :: "frame list"
  bf_subscribers :: "nat list"
  bf_status :: turn_status
  bf_terminal :: "turn_terminal option"
  bf_created :: int
  bf_completed :: "int option"
  bf_last_event :: int
  bf_next :: int

text \<open>
  A replay stream. \<open>su_ready\<close> is false while \<^verbatim>\<open>buildReplay\<close> runs: the proxy then keeps frames in
  \<open>su_held\<close>. \<open>su_buffer\<close>, \<open>su_after\<close> and \<open>su_active\<close> are the closure's \<^verbatim>\<open>buf\<close>, the seq its live part
  starts after (at most the last one written when the stream was created, since live frames are not
  filtered), and \<^verbatim>\<open>active\<close>; \<open>su_prefix\<close> is what was sent ahead of the raw frames.
\<close>

datatype stream_state = Open | Closed | Cancelled

record subscription =
  su_buffer :: nat
  su_after :: int
  su_active :: bool
  su_prefix :: "bytes list"
  su_out :: "bytes list"
  su_held :: "bytes list"
  su_ready :: bool
  su_state :: stream_state

record turn_reply =
  tr_turn :: string
  tr_reply :: string
  tr_completed :: int

record store =
  sb_heap :: "buffer list"
  sb_index :: "(string, nat) ordmap"
  sb_replies :: "(string, turn_reply) ordmap"
  sb_streams :: "subscription list"

definition empty_store :: store where
  "empty_store = \<lparr>sb_heap = [], sb_index = [], sb_replies = [], sb_streams = []\<rparr>"

definition cleanup_interval_ms :: int where "cleanup_interval_ms = 60000"
definition max_buffer_age_ms :: int where "max_buffer_age_ms = 30 * 60000"
definition completed_grace_ms :: int where "completed_grace_ms = 30000"
definition turn_reply_ttl_ms :: int where "turn_reply_ttl_ms = 60 * 60000"

section \<open>Controllers\<close>

definition update_stream :: "nat \<Rightarrow> (subscription \<Rightarrow> subscription) \<Rightarrow> store \<Rightarrow> store" where
  "update_stream c f s =
     (if c < length (sb_streams s) then s\<lparr>sb_streams := (sb_streams s)[c := f (sb_streams s ! c)]\<rparr> else s)"

definition update_buffer :: "nat \<Rightarrow> (buffer \<Rightarrow> buffer) \<Rightarrow> store \<Rightarrow> store" where
  "update_buffer i f s =
     (if i < length (sb_heap s) then s\<lparr>sb_heap := (sb_heap s)[i := f (sb_heap s ! i)]\<rparr> else s)"

text \<open>\<^verbatim>\<open>enqueue\<close> on a subscriber. A controller that is closed or cancelled throws, and the caller drops
  the subscriber; the proxy of a stream still being built never does.\<close>

definition deliver :: "nat \<Rightarrow> bytes \<Rightarrow> nat \<Rightarrow> store \<Rightarrow> store" where
  "deliver i chunk c s =
     (if c < length (sb_streams s)
      then if \<not> su_ready (sb_streams s ! c)
           then update_stream c (\<lambda>u. u\<lparr>su_held := su_held u @ [chunk]\<rparr>) s
           else if su_state (sb_streams s ! c) = Open
           then update_stream c (\<lambda>u. u\<lparr>su_out := su_out u @ [chunk]\<rparr>) s
           else update_buffer i (\<lambda>b. b\<lparr>bf_subscribers := remove1 c (bf_subscribers b)\<rparr>) s
      else s)"

text \<open>\<^verbatim>\<open>close\<close>; errors are swallowed. A proxy only notes it, which \<^verbatim>\<open>buf.status\<close> tells it again later.\<close>

definition close_stream :: "nat \<Rightarrow> store \<Rightarrow> store" where
  "close_stream c s =
     update_stream c (\<lambda>u. if su_ready u \<and> su_state u = Open then u\<lparr>su_state := Closed\<rparr> else u) s"

section \<open>Buffers\<close>

definition append_buffer :: "nat \<Rightarrow> bytes \<Rightarrow> int \<Rightarrow> store \<Rightarrow> store \<times> int" where
  "append_buffer i chunk now s =
     (if i < length (sb_heap s) \<and> bf_status (sb_heap s ! i) = Turn_Active
      then
        let b = sb_heap s ! i;
            s1 = update_buffer i (\<lambda>b. b\<lparr>bf_frames := bf_frames b @ [(bf_next b, chunk)],
                                        bf_next := bf_next b + 1, bf_last_event := now\<rparr>) s
        in (fold (deliver i chunk) (bf_subscribers b) s1, bf_next b)
      else (s, -1))"

definition finish_buffer :: "nat \<Rightarrow> turn_status \<Rightarrow> turn_terminal \<Rightarrow> int \<Rightarrow> store \<Rightarrow> store" where
  "finish_buffer i status terminal now s =
     (if i < length (sb_heap s) \<and> bf_status (sb_heap s ! i) = Turn_Active
      then
        let subs = bf_subscribers (sb_heap s ! i);
            s1 = update_buffer i (\<lambda>b. b\<lparr>bf_status := status, bf_terminal := Some terminal,
                                        bf_completed := Some now, bf_last_event := now\<rparr>) s
        in update_buffer i (\<lambda>b. b\<lparr>bf_subscribers := []\<rparr>) (fold close_stream subs s1)
      else s)"

definition complete_buffer :: "nat \<Rightarrow> string option \<Rightarrow> int \<Rightarrow> store \<Rightarrow> store" where
  "complete_buffer i reason now s =
     finish_buffer i Turn_Completed \<lparr>tt_reason = reason, tt_error = None\<rparr> now s"

definition fail_buffer :: "nat \<Rightarrow> string \<Rightarrow> int \<Rightarrow> store \<Rightarrow> store" where
  "fail_buffer i err now s =
     finish_buffer i Turn_Failed \<lparr>tt_reason = None, tt_error = Some err\<rparr> now s"

section \<open>The store's operations\<close>

definition new_buffer :: "string \<Rightarrow> int \<Rightarrow> buffer" where
  "new_buffer turn now =
     \<lparr>bf_turn = turn, bf_frames = [], bf_subscribers = [], bf_status = Turn_Active, bf_terminal = None,
      bf_created = now, bf_completed = None, bf_last_event = now, bf_next = 1\<rparr>"

text \<open>\<^verbatim>\<open>create\<close>: the result is the writer, that is, the new buffer's identity. The turn id is the
  caller's, or the generated one.\<close>

definition sb_create :: "string \<Rightarrow> string \<Rightarrow> int \<Rightarrow> store \<Rightarrow> store \<times> nat" where
  "sb_create key turn now s =
     (let s1 = (case om_get (sb_index s) key of
                  None \<Rightarrow> s | Some i \<Rightarrow> complete_buffer i (Some ''replaced'') now s);
          i = length (sb_heap s1)
      in (s1\<lparr>sb_heap := sb_heap s1 @ [new_buffer turn now], sb_index := om_set key i (sb_index s1)\<rparr>, i))"

definition sb_append :: "string \<Rightarrow> bytes \<Rightarrow> int \<Rightarrow> store \<Rightarrow> store \<times> int" where
  "sb_append key chunk now s =
     (case om_get (sb_index s) key of None \<Rightarrow> (s, -1) | Some i \<Rightarrow> append_buffer i chunk now s)"

definition sb_complete :: "string \<Rightarrow> string option \<Rightarrow> int \<Rightarrow> store \<Rightarrow> store" where
  "sb_complete key reason now s =
     (case om_get (sb_index s) key of None \<Rightarrow> s | Some i \<Rightarrow> complete_buffer i reason now s)"

definition sb_abort :: "string \<Rightarrow> int \<Rightarrow> store \<Rightarrow> store" where
  "sb_abort key now s =
     (case om_get (sb_index s) key of
        None \<Rightarrow> s
      | Some i \<Rightarrow>
          let s1 = update_buffer i (\<lambda>b. b\<lparr>bf_status := Turn_Aborted\<rparr>)
                     (complete_buffer i (Some ''aborted'') now s)
          in s1\<lparr>sb_index := om_delete key (sb_index s1)\<rparr>)"

definition sb_has :: "string \<Rightarrow> store \<Rightarrow> bool" where
  "sb_has key s \<longleftrightarrow> om_get (sb_index s) key \<noteq> None"

record turn_snapshot =
  ts_turn :: string
  ts_status :: turn_status
  ts_last_seq :: int
  ts_terminal :: "turn_terminal option"
  ts_created :: int
  ts_completed :: "int option"
  ts_last_event :: int

definition sb_snapshot :: "string \<Rightarrow> store \<Rightarrow> turn_snapshot option" where
  "sb_snapshot key s =
     map_option (\<lambda>i. let b = sb_heap s ! i in
         \<lparr>ts_turn = bf_turn b, ts_status = bf_status b, ts_last_seq = bf_next b - 1,
          ts_terminal = bf_terminal b, ts_created = bf_created b, ts_completed = bf_completed b,
          ts_last_event = bf_last_event b\<rparr>)
       (om_get (sb_index s) key)"

definition prune_replies :: "int \<Rightarrow> store \<Rightarrow> store" where
  "prune_replies now s =
     s\<lparr>sb_replies := filter (\<lambda>(k, r). now - tr_completed r \<le> turn_reply_ttl_ms) (sb_replies s)\<rparr>"

definition record_turn_reply :: "string \<Rightarrow> string \<Rightarrow> int \<Rightarrow> store \<Rightarrow> store" where
  "record_turn_reply key reply now s =
     (if js_trim reply = [] then s
      else
        let s1 = prune_replies now s;
            turn = (case om_get (sb_index s1) key of None \<Rightarrow> [] | Some i \<Rightarrow> bf_turn (sb_heap s1 ! i))
        in s1\<lparr>sb_replies := om_set key \<lparr>tr_turn = turn, tr_reply = reply, tr_completed = now\<rparr> (sb_replies s1)\<rparr>)"

definition turn_reply_of :: "string \<Rightarrow> int \<Rightarrow> store \<Rightarrow> store \<times> turn_reply option" where
  "turn_reply_of key now s =
     (case om_get (sb_replies s) key of
        None \<Rightarrow> (s, None)
      | Some r \<Rightarrow>
          if turn_reply_ttl_ms < now - tr_completed r
          then (s\<lparr>sb_replies := om_delete key (sb_replies s)\<rparr>, None)
          else (case om_get (sb_index s) key of
                  Some i \<Rightarrow>
                    if tr_turn r \<noteq> [] \<and> bf_turn (sb_heap s ! i) \<noteq> tr_turn r then (s, None) else (s, Some r)
                | None \<Rightarrow> (s, Some r)))"

section \<open>Replay streams\<close>

definition frames_after :: "int \<Rightarrow> buffer \<Rightarrow> bytes list" where
  "frames_after n b = map snd (filter (\<lambda>(q, c). n < q) (bf_frames b))"

definition add_stream :: "subscription \<Rightarrow> bool \<Rightarrow> store \<Rightarrow> store \<times> nat" where
  "add_stream u subscribe s =
     (let c = length (sb_streams s);
          s1 = s\<lparr>sb_streams := sb_streams s @ [u]\<rparr>
      in (if subscribe
          then update_buffer (su_buffer u) (\<lambda>b. b\<lparr>bf_subscribers := bf_subscribers b @ [c]\<rparr>) s1 else s1, c))"

text \<open>\<^verbatim>\<open>createReplayStream\<close>, raw or compacted (\<open>cmp\<close> carries the two encoders).\<close>

record compactor =
  co_compact :: "bytes list \<Rightarrow> bytes"
  co_seq_frame :: "string \<Rightarrow> int \<Rightarrow> bytes"

definition replay_prefix :: "compactor \<Rightarrow> bytes list \<Rightarrow> bytes \<Rightarrow> string \<Rightarrow> int \<Rightarrow> bool \<Rightarrow> bytes list" where
  "replay_prefix co pending replay turn last_seq active =
     (if replay \<noteq> [] then [replay] else [])
     @ (if pending \<noteq> [] \<and> active then [co_seq_frame co turn last_seq] else [])"

definition create_replay_stream ::
  "string \<Rightarrow> int option \<Rightarrow> compactor option \<Rightarrow> store \<Rightarrow> (store \<times> nat) option" where
  "create_replay_stream key from_seq cmp s =
     (case om_get (sb_index s) key of
        None \<Rightarrow> None
      | Some i \<Rightarrow>
          let b = sb_heap s ! i;
              from = max 0 (case from_seq of None \<Rightarrow> 0 | Some n \<Rightarrow> n);
              active = (bf_status b = Turn_Active);
              pending = frames_after from b;
              prefix = (case cmp of
                  None \<Rightarrow> []
                | Some co \<Rightarrow> replay_prefix co pending (co_compact co pending) (bf_turn b) (bf_next b - 1) active);
              live_after = (case cmp of None \<Rightarrow> min from (bf_next b - 1) | Some _ \<Rightarrow> bf_next b - 1)
          in Some (add_stream
               \<lparr>su_buffer = i, su_after = live_after, su_active = active, su_prefix = prefix,
                su_out = prefix @ (case cmp of None \<Rightarrow> pending | Some _ \<Rightarrow> []),
                su_held = [], su_ready = True, su_state = (if active then Open else Closed)\<rparr> active s))"

text \<open>With \<^verbatim>\<open>buildReplay\<close>: the stream exists, and holds frames back, until the builder answers. The second
  result is what the builder is given.\<close>

definition create_built_stream ::
  "string \<Rightarrow> int option \<Rightarrow> store \<Rightarrow> (store \<times> nat \<times> bytes list) option" where
  "create_built_stream key from_seq s =
     (case om_get (sb_index s) key of
        None \<Rightarrow> None
      | Some i \<Rightarrow>
          let b = sb_heap s ! i;
              from = max 0 (case from_seq of None \<Rightarrow> 0 | Some n \<Rightarrow> n);
              active = (bf_status b = Turn_Active);
              (s', c) = add_stream
                \<lparr>su_buffer = i, su_after = bf_next b - 1, su_active = active, su_prefix = [],
                 su_out = [], su_held = [], su_ready = False, su_state = Open\<rparr> active s
          in Some (s', c, frames_after from b))"

text \<open>The builder answered (\<open>Some replay\<close>) or threw (\<open>None\<close>).\<close>

definition finish_built_stream :: "compactor \<Rightarrow> nat \<Rightarrow> bytes list \<Rightarrow> bytes option \<Rightarrow> store \<Rightarrow> store" where
  "finish_built_stream co c pending built s =
     (if c < length (sb_streams s) \<and> \<not> su_ready (sb_streams s ! c)
      then
        let u = sb_streams s ! c;
            b = sb_heap s ! su_buffer u;
            replay = (case built of Some r \<Rightarrow> r | None \<Rightarrow> co_compact co pending);
            prefix = replay_prefix co pending replay (bf_turn b) (su_after u) (su_active u)
        in if su_state u = Open
           then update_stream c (\<lambda>u. u\<lparr>su_prefix := prefix, su_out := prefix @ su_held u, su_held := [],
                  su_ready := True,
                  su_state := (if \<not> su_active u \<or> bf_status b \<noteq> Turn_Active then Closed else Open)\<rparr>) s
           else update_buffer (su_buffer u) (\<lambda>b. b\<lparr>bf_subscribers := remove1 c (bf_subscribers b)\<rparr>) s
      else s)"

text \<open>The consumer cancels the stream.\<close>

definition cancel_stream :: "nat \<Rightarrow> store \<Rightarrow> store" where
  "cancel_stream c s =
     (if c < length (sb_streams s) \<and> su_state (sb_streams s ! c) = Open
      then update_buffer (su_buffer (sb_streams s ! c))
             (\<lambda>b. b\<lparr>bf_subscribers := remove1 c (bf_subscribers b)\<rparr>)
             (update_stream c (\<lambda>u. u\<lparr>su_state := Cancelled\<rparr>) s)
      else s)"

section \<open>Cleanup\<close>

definition cleanup_key :: "int \<Rightarrow> string \<times> nat \<Rightarrow> store \<Rightarrow> store" where
  "cleanup_key now e s =
     (let (key, i) = e; b = sb_heap s ! i
      in if bf_status b \<noteq> Turn_Active
            \<and> (case bf_completed b of None \<Rightarrow> False | Some t \<Rightarrow> t \<noteq> 0 \<and> completed_grace_ms < now - t)
         then s\<lparr>sb_index := om_delete key (sb_index s)\<rparr>
         else if max_buffer_age_ms < now - bf_created b \<and> bf_subscribers b = []
         then (let s1 = complete_buffer i (Some ''expired'') now s
               in s1\<lparr>sb_index := om_delete key (sb_index s1)\<rparr>)
         else s)"

definition sb_cleanup :: "int \<Rightarrow> store \<Rightarrow> store" where
  "sb_cleanup now s = (let s1 = prune_replies now s in fold (cleanup_key now) (sb_index s1) s1)"

definition sb_dispose :: "int \<Rightarrow> store \<Rightarrow> store" where
  "sb_dispose now s =
     (fold (\<lambda>(k, i) s. complete_buffer i (Some ''disposed'') now s) (sb_index s) s)
       \<lparr>sb_index := [], sb_replies := []\<rparr>"

section \<open>The operations as steps\<close>

datatype sb_op =
    Op_Create string string
  | Op_Append string bytes
  | Op_Write nat bytes
  | Op_Complete string "string option"
  | Op_Writer_Complete nat "string option"
  | Op_Writer_Fail nat string
  | Op_Abort string
  | Op_Record_Reply string string
  | Op_Read_Reply string
  | Op_Replay string "int option" "compactor option"
  | Op_Build string "int option"
  | Op_Built compactor nat "bytes list" "bytes option"
  | Op_Cancel nat
  | Op_Cleanup
  | Op_Dispose

fun sb_step :: "sb_op \<times> int \<Rightarrow> store \<Rightarrow> store" where
  "sb_step (Op_Create key turn, now) s = fst (sb_create key turn now s)"
| "sb_step (Op_Append key chunk, now) s = fst (sb_append key chunk now s)"
| "sb_step (Op_Write i chunk, now) s = fst (append_buffer i chunk now s)"
| "sb_step (Op_Complete key reason, now) s = sb_complete key reason now s"
| "sb_step (Op_Writer_Complete i reason, now) s = complete_buffer i reason now s"
| "sb_step (Op_Writer_Fail i err, now) s = fail_buffer i err now s"
| "sb_step (Op_Abort key, now) s = sb_abort key now s"
| "sb_step (Op_Record_Reply key reply, now) s = record_turn_reply key reply now s"
| "sb_step (Op_Read_Reply key, now) s = fst (turn_reply_of key now s)"
| "sb_step (Op_Replay key n cmp, now) s =
     (case create_replay_stream key n cmp s of None \<Rightarrow> s | Some (s', c) \<Rightarrow> s')"
| "sb_step (Op_Build key n, now) s = (case create_built_stream key n s of None \<Rightarrow> s | Some (s', c, p) \<Rightarrow> s')"
| "sb_step (Op_Built co c pending built, now) s = finish_built_stream co c pending built s"
| "sb_step (Op_Cancel c, now) s = cancel_stream c s"
| "sb_step (Op_Cleanup, now) s = sb_cleanup now s"
| "sb_step (Op_Dispose, now) s = sb_dispose now s"

section \<open>Invariant\<close>

definition buffer_ok :: "buffer \<Rightarrow> bool" where
  "buffer_ok b \<longleftrightarrow>
     distinct (bf_subscribers b)
     \<and> map fst (bf_frames b) = map int [1..<length (bf_frames b) + 1]
     \<and> bf_next b = int (length (bf_frames b)) + 1
     \<and> (bf_status b \<noteq> Turn_Active \<longrightarrow> bf_subscribers b = [])"

definition stream_ok :: "buffer \<Rightarrow> nat \<Rightarrow> subscription \<Rightarrow> bool" where
  "stream_ok b c u \<longleftrightarrow>
     (c \<in> set (bf_subscribers b) \<longleftrightarrow> su_state u \<noteq> Cancelled \<and> bf_status b = Turn_Active)
     \<and> (bf_status b = Turn_Active \<longrightarrow> su_active u)
     \<and> 0 \<le> su_after u \<and> su_after u < bf_next b
     \<and> (if su_state u = Cancelled
        then prefix (su_out u) (su_prefix u @ frames_after (su_after u) b)
        else if su_ready u
        then su_out u = su_prefix u @ frames_after (su_after u) b
             \<and> su_state u = (if bf_status b = Turn_Active then Open else Closed)
        else su_out u = [] \<and> su_held u = frames_after (su_after u) b \<and> su_state u = Open)"

definition store_ok :: "store \<Rightarrow> bool" where
  "store_ok s \<longleftrightarrow>
     om_ok (sb_index s) \<and> om_ok (sb_replies s)
     \<and> (\<forall>e \<in> set (sb_index s). snd e < length (sb_heap s))
     \<and> (\<forall>i < length (sb_heap s). buffer_ok (sb_heap s ! i)
          \<and> (\<forall>c \<in> set (bf_subscribers (sb_heap s ! i)).
               c < length (sb_streams s) \<and> su_buffer (sb_streams s ! c) = i))
     \<and> (\<forall>c < length (sb_streams s). su_buffer (sb_streams s ! c) < length (sb_heap s)
          \<and> stream_ok (sb_heap s ! su_buffer (sb_streams s ! c)) c (sb_streams s ! c))"

lemma empty_store_ok: "store_ok empty_store"
  by (simp add: store_ok_def empty_store_def)

lemma store_okD:
  assumes "store_ok s"
  shows "i < length (sb_heap s) \<Longrightarrow> buffer_ok (sb_heap s ! i)"
    and "i < length (sb_heap s) \<Longrightarrow> c \<in> set (bf_subscribers (sb_heap s ! i)) \<Longrightarrow>
         c < length (sb_streams s) \<and> su_buffer (sb_streams s ! c) = i"
    and "c < length (sb_streams s) \<Longrightarrow> su_buffer (sb_streams s ! c) < length (sb_heap s)"
    and "c < length (sb_streams s) \<Longrightarrow> stream_ok (sb_heap s ! su_buffer (sb_streams s ! c)) c (sb_streams s ! c)"
    and "om_get (sb_index s) key = Some i \<Longrightarrow> i < length (sb_heap s)"
  using assms by (auto simp: store_ok_def dest!: map_of_SomeD)

text \<open>A step that touches one buffer and the streams reading from it.\<close>

lemma store_ok_local:
  assumes ok: "store_ok s" and i: "i < length (sb_heap s)"
    and heap: "sb_heap s' = (sb_heap s)[i := b']"
    and index: "sb_index s' = sb_index s" and replies: "sb_replies s' = sb_replies s"
    and len: "length (sb_streams s') = length (sb_streams s)"
    and same: "\<And>c. c < length (sb_streams s) \<Longrightarrow> su_buffer (sb_streams s' ! c) = su_buffer (sb_streams s ! c)"
    and other: "\<And>c. c < length (sb_streams s) \<Longrightarrow> su_buffer (sb_streams s ! c) \<noteq> i \<Longrightarrow>
      sb_streams s' ! c = sb_streams s ! c"
    and own: "\<And>c. c < length (sb_streams s) \<Longrightarrow> su_buffer (sb_streams s ! c) = i \<Longrightarrow>
      stream_ok (sb_heap s ! i) c (sb_streams s ! c) \<Longrightarrow> stream_ok b' c (sb_streams s' ! c)"
    and b': "buffer_ok b'" "set (bf_subscribers b') \<subseteq> set (bf_subscribers (sb_heap s ! i))"
  shows "store_ok s'"
proof -
  have "buffer_ok (sb_heap s' ! j) \<and> (\<forall>c \<in> set (bf_subscribers (sb_heap s' ! j)).
      c < length (sb_streams s') \<and> su_buffer (sb_streams s' ! c) = j)" if "j < length (sb_heap s')" for j
    using that ok i b' store_okD(1,2) [OF ok] by (cases "j = i") (auto simp: heap len same)
  moreover have "su_buffer (sb_streams s' ! c) < length (sb_heap s')
      \<and> stream_ok (sb_heap s' ! su_buffer (sb_streams s' ! c)) c (sb_streams s' ! c)"
    if "c < length (sb_streams s')" for c
    using that store_okD(3,4) [OF ok, of c] own [of c] other [of c] i
    by (cases "su_buffer (sb_streams s ! c) = i") (auto simp: heap len same)
  ultimately show ?thesis using ok by (simp add: store_ok_def heap index replies)
qed

text \<open>A step that changes only the key map and the replies.\<close>

lemma store_ok_index:
  assumes "store_ok s" and "sb_heap s' = sb_heap s" and "sb_streams s' = sb_streams s"
    and "om_ok (sb_index s')" and "om_ok (sb_replies s')" and "set (sb_index s') \<subseteq> set (sb_index s)"
  shows "store_ok s'"
  using assms by (auto simp: store_ok_def)

subsection \<open>Delivering and closing\<close>

definition push_chunk :: "bytes \<Rightarrow> subscription \<Rightarrow> subscription" where
  "push_chunk x u = (if su_ready u then u\<lparr>su_out := su_out u @ [x]\<rparr> else u\<lparr>su_held := su_held u @ [x]\<rparr>)"

definition shut :: "subscription \<Rightarrow> subscription" where
  "shut u = (if su_ready u \<and> su_state u = Open then u\<lparr>su_state := Closed\<rparr> else u)"

lemma fold_deliver:
  assumes "distinct cs" and "\<And>c. c \<in> set cs \<Longrightarrow> c < length (sb_streams s)
      \<and> (su_ready (sb_streams s ! c) \<longrightarrow> su_state (sb_streams s ! c) = Open)"
  shows "sb_heap (fold (deliver i x) cs s) = sb_heap s \<and> sb_index (fold (deliver i x) cs s) = sb_index s
    \<and> sb_replies (fold (deliver i x) cs s) = sb_replies s
    \<and> length (sb_streams (fold (deliver i x) cs s)) = length (sb_streams s)
    \<and> (\<forall>c < length (sb_streams s). sb_streams (fold (deliver i x) cs s) ! c
        = (if c \<in> set cs then push_chunk x (sb_streams s ! c) else sb_streams s ! c))"
  using assms
proof (induction cs arbitrary: s)
  case (Cons d cs)
  define s1 where "s1 = update_stream d (push_chunk x) s"
  have d: "d < length (sb_streams s)" "su_ready (sb_streams s ! d) \<Longrightarrow> su_state (sb_streams s ! d) = Open"
    using Cons.prems(2) [of d] by auto
  then have s1: "deliver i x d s = s1"
    by (auto simp: deliver_def s1_def update_stream_def push_chunk_def)
  have str: "sb_streams s1 = (sb_streams s)[d := push_chunk x (sb_streams s ! d)]"
    "sb_heap s1 = sb_heap s" "sb_index s1 = sb_index s" "sb_replies s1 = sb_replies s"
    using d by (simp_all add: s1_def update_stream_def)
  have "distinct cs" "d \<notin> set cs" using Cons.prems(1) by auto
  moreover have "c < length (sb_streams s1) \<and> (su_ready (sb_streams s1 ! c) \<longrightarrow> su_state (sb_streams s1 ! c) = Open)"
    if "c \<in> set cs" for c
  proof -
    from that \<open>d \<notin> set cs\<close> have "d \<noteq> c" by auto
    with Cons.prems(2) [of c] that show ?thesis by (simp add: str)
  qed
  ultimately show ?case using Cons.IH [of s1] d by (auto simp: s1 str nth_list_update)
qed simp

lemma fold_close:
  assumes "distinct cs" and "\<And>c. c \<in> set cs \<Longrightarrow> c < length (sb_streams s)"
  shows "sb_heap (fold close_stream cs s) = sb_heap s \<and> sb_index (fold close_stream cs s) = sb_index s
    \<and> sb_replies (fold close_stream cs s) = sb_replies s
    \<and> length (sb_streams (fold close_stream cs s)) = length (sb_streams s)
    \<and> (\<forall>c < length (sb_streams s). sb_streams (fold close_stream cs s) ! c
        = (if c \<in> set cs then shut (sb_streams s ! c) else sb_streams s ! c))"
  using assms
proof (induction cs arbitrary: s)
  case (Cons d cs)
  define s1 where "s1 = close_stream d s"
  have d: "d < length (sb_streams s)" using Cons.prems(2) [of d] by auto
  then have str: "sb_streams s1 = (sb_streams s)[d := shut (sb_streams s ! d)]"
    "sb_heap s1 = sb_heap s" "sb_index s1 = sb_index s" "sb_replies s1 = sb_replies s"
    by (simp_all add: s1_def close_stream_def update_stream_def shut_def)
  have "distinct cs" "d \<notin> set cs" using Cons.prems(1) by auto
  moreover have "c < length (sb_streams s1)" if "c \<in> set cs" for c
    using Cons.prems(2) [of c] that by (simp add: str)
  ultimately show ?case using Cons.IH [of s1] d by (auto simp: s1_def [symmetric] str nth_list_update)
qed simp

end
