(* ===== verification/Stream_Replay.thy ===== *)
theory Stream_Replay
  imports Stream_Buffer
begin

text \<open>
  Reconnecting to a stream: every operation of the store keeps its invariant, so a replay stream
  delivers each frame after its starting point exactly once and in order, however the writers, other
  readers, cancellations and cleanups interleave; a turn that ended never changes again; and cleanup
  keeps what a client may still come back for.
\<close>

section \<open>Every operation keeps the invariant\<close>

lemma update_buffer_parts [simp]:
  "i < length (sb_heap s) \<Longrightarrow> sb_heap (update_buffer i f s) = (sb_heap s)[i := f (sb_heap s ! i)]"
  "sb_index (update_buffer i f s) = sb_index s"
  "sb_replies (update_buffer i f s) = sb_replies s"
  "sb_streams (update_buffer i f s) = sb_streams s"
  by (simp_all add: update_buffer_def)

lemma update_stream_parts [simp]:
  "sb_heap (update_stream c f s) = sb_heap s"
  "sb_index (update_stream c f s) = sb_index s"
  "sb_replies (update_stream c f s) = sb_replies s"
  "c < length (sb_streams s) \<Longrightarrow> sb_streams (update_stream c f s) = (sb_streams s)[c := f (sb_streams s ! c)]"
  by (simp_all add: update_stream_def)

lemma frames_after_append:
  "frames_after n (b\<lparr>bf_frames := bf_frames b @ [(q, x)], bf_next := k, bf_last_event := t\<rparr>)
     = frames_after n b @ (if n < q then [x] else [])"
  by (simp add: frames_after_def)

lemma frames_after_cong: "bf_frames b' = bf_frames b \<Longrightarrow> frames_after n b' = frames_after n b"
  by (simp add: frames_after_def)

text \<open>What \<^verbatim>\<open>append\<close> leaves behind.\<close>

lemma append_buffer_parts:
  assumes ok: "store_ok s" and i: "i < length (sb_heap s)" and act: "bf_status (sb_heap s ! i) = Turn_Active"
    and b: "b = sb_heap s ! i" and r: "append_buffer i x now s = (s', q)"
  shows "q = bf_next b \<and> sb_heap s' = (sb_heap s)[i := b\<lparr>bf_frames := bf_frames b @ [(bf_next b, x)],
      bf_next := bf_next b + 1, bf_last_event := now\<rparr>]
    \<and> sb_index s' = sb_index s \<and> sb_replies s' = sb_replies s
    \<and> length (sb_streams s') = length (sb_streams s)
    \<and> (\<forall>c < length (sb_streams s). sb_streams s' ! c
        = (if c \<in> set (bf_subscribers b) then push_chunk x (sb_streams s ! c) else sb_streams s ! c))"
proof -
  define s1 where "s1 = update_buffer i (\<lambda>b. b\<lparr>bf_frames := bf_frames b @ [(bf_next b, x)],
      bf_next := bf_next b + 1, bf_last_event := now\<rparr>) s"
  have s': "s' = fold (deliver i x) (bf_subscribers b) s1" and q: "q = bf_next b"
    using r i act b by (auto simp: append_buffer_def Let_def s1_def)
  have dist: "distinct (bf_subscribers b)" using store_okD(1) [OF ok i] b by (simp add: buffer_ok_def)
  have live: "c < length (sb_streams s1) \<and> (su_ready (sb_streams s1 ! c) \<longrightarrow> su_state (sb_streams s1 ! c) = Open)"
    if "c \<in> set (bf_subscribers b)" for c
  proof -
    from store_okD(2) [OF ok i] that b have c: "c < length (sb_streams s)" "su_buffer (sb_streams s ! c) = i" by auto
    from store_okD(4) [OF ok c(1)] c(2) that act b show ?thesis
      using c(1) by (auto simp: stream_ok_def s1_def split: if_splits)
  qed
  from fold_deliver [OF dist live, of i x] i b q show ?thesis unfolding s' by (simp add: s1_def)
qed

lemma prefix_longer: "prefix xs (ys @ zs) \<Longrightarrow> prefix xs (ys @ zs @ ws)"
  by (metis append.assoc prefix_prefix)

lemma stream_ok_push:
  assumes "stream_ok b c u" and "buffer_ok b" and "bf_status b = Turn_Active"
    and "b' = b\<lparr>bf_frames := bf_frames b @ [(bf_next b, x)], bf_next := bf_next b + 1, bf_last_event := now\<rparr>"
  shows "stream_ok b' c (if c \<in> set (bf_subscribers b) then push_chunk x u else u)"
  using assms
  by (auto simp: stream_ok_def push_chunk_def frames_after_append frames_after_def split: if_splits
      intro: prefix_longer)

lemma append_buffer_ok:
  assumes ok: "store_ok s"
  shows "store_ok (fst (append_buffer i x now s))"
proof (cases "i < length (sb_heap s) \<and> bf_status (sb_heap s ! i) = Turn_Active")
  case False
  with ok show ?thesis by (auto simp: append_buffer_def)
next
  case True
  then have i: "i < length (sb_heap s)" and act: "bf_status (sb_heap s ! i) = Turn_Active" by simp_all
  obtain s' q where r: "append_buffer i x now s = (s', q)" by (cases "append_buffer i x now s")
  note p = append_buffer_parts [OF ok i act refl r]
  note bok = store_okD(1) [OF ok i]
  have "store_ok s'"
  proof (rule store_ok_local [OF ok i])
    show "sb_heap s' = (sb_heap s)[i := (sb_heap s ! i)\<lparr>bf_frames := bf_frames (sb_heap s ! i)
        @ [(bf_next (sb_heap s ! i), x)], bf_next := bf_next (sb_heap s ! i) + 1, bf_last_event := now\<rparr>]"
      using p by simp
    show "buffer_ok ((sb_heap s ! i)\<lparr>bf_frames := bf_frames (sb_heap s ! i)
        @ [(bf_next (sb_heap s ! i), x)], bf_next := bf_next (sb_heap s ! i) + 1, bf_last_event := now\<rparr>)"
      using bok by (simp add: buffer_ok_def)
  next
    fix c assume c: "c < length (sb_streams s)"
    show "su_buffer (sb_streams s' ! c) = su_buffer (sb_streams s ! c)"
      using p c by (simp add: push_chunk_def)
    show "su_buffer (sb_streams s ! c) \<noteq> i \<Longrightarrow> sb_streams s' ! c = sb_streams s ! c"
      using p c store_okD(2) [OF ok i] by auto
    show "stream_ok (sb_heap s ! i) c (sb_streams s ! c) \<Longrightarrow> stream_ok ((sb_heap s ! i)\<lparr>bf_frames :=
        bf_frames (sb_heap s ! i) @ [(bf_next (sb_heap s ! i), x)], bf_next := bf_next (sb_heap s ! i) + 1,
        bf_last_event := now\<rparr>) c (sb_streams s' ! c)"
      using stream_ok_push [OF _ bok act refl] p c by simp
  qed (use p in simp_all)
  with r show ?thesis by simp
qed

text \<open>What ending a turn leaves behind.\<close>

lemma finish_buffer_parts:
  assumes ok: "store_ok s" and i: "i < length (sb_heap s)" and act: "bf_status (sb_heap s ! i) = Turn_Active"
    and b: "b = sb_heap s ! i" and s': "s' = finish_buffer i status terminal now s"
  shows "sb_heap s' = (sb_heap s)[i := b\<lparr>bf_status := status, bf_terminal := Some terminal,
      bf_completed := Some now, bf_last_event := now, bf_subscribers := []\<rparr>]
    \<and> sb_index s' = sb_index s \<and> sb_replies s' = sb_replies s
    \<and> length (sb_streams s') = length (sb_streams s)
    \<and> (\<forall>c < length (sb_streams s). sb_streams s' ! c
        = (if c \<in> set (bf_subscribers b) then shut (sb_streams s ! c) else sb_streams s ! c))"
proof -
  define s1 where "s1 = update_buffer i (\<lambda>b. b\<lparr>bf_status := status, bf_terminal := Some terminal,
      bf_completed := Some now, bf_last_event := now\<rparr>) s"
  have s'': "s' = update_buffer i (\<lambda>b. b\<lparr>bf_subscribers := []\<rparr>) (fold close_stream (bf_subscribers b) s1)"
    using s' i act b by (simp add: finish_buffer_def Let_def s1_def)
  have dist: "distinct (bf_subscribers b)" using store_okD(1) [OF ok i] b by (simp add: buffer_ok_def)
  have live: "c < length (sb_streams s1)" if "c \<in> set (bf_subscribers b)" for c
    using store_okD(2) [OF ok i] that b by (auto simp: s1_def i)
  from fold_close [OF dist live] i b show ?thesis unfolding s'' by (simp add: s1_def)
qed

lemma stream_ok_shut:
  assumes "stream_ok b c u" and "buffer_ok b" and "bf_status b = Turn_Active" and "status \<noteq> Turn_Active"
    and "b' = b\<lparr>bf_status := status, bf_terminal := t,
      bf_completed := d, bf_last_event := now, bf_subscribers := []\<rparr>"
  shows "stream_ok b' c (if c \<in> set (bf_subscribers b) then shut u else u)"
  using assms
  by (auto simp: stream_ok_def shut_def frames_after_def split: if_splits)

lemma finish_buffer_ok:
  assumes ok: "store_ok s" and st: "status \<noteq> Turn_Active"
  shows "store_ok (finish_buffer i status terminal now s)"
proof (cases "i < length (sb_heap s) \<and> bf_status (sb_heap s ! i) = Turn_Active")
  case False
  then show ?thesis using ok by (auto simp: finish_buffer_def)
next
  case True
  then have i: "i < length (sb_heap s)" and act: "bf_status (sb_heap s ! i) = Turn_Active" by simp_all
  define s' where "s' = finish_buffer i status terminal now s"
  note p = finish_buffer_parts [OF ok i act refl s'_def]
  note bok = store_okD(1) [OF ok i]
  show ?thesis unfolding s'_def [symmetric]
  proof (rule store_ok_local [OF ok i])
    show "sb_heap s' = (sb_heap s)[i := (sb_heap s ! i)\<lparr>bf_status := status, bf_terminal := Some terminal,
      bf_completed := Some now, bf_last_event := now, bf_subscribers := []\<rparr>]"
      using p by simp
    show "buffer_ok ((sb_heap s ! i)\<lparr>bf_status := status, bf_terminal := Some terminal,
      bf_completed := Some now, bf_last_event := now, bf_subscribers := []\<rparr>)"
      using bok by (simp add: buffer_ok_def)
  next
    fix c assume c: "c < length (sb_streams s)"
    show "su_buffer (sb_streams s' ! c) = su_buffer (sb_streams s ! c)"
      using p c by (simp add: shut_def)
    show "su_buffer (sb_streams s ! c) \<noteq> i \<Longrightarrow> sb_streams s' ! c = sb_streams s ! c"
      using p c store_okD(2) [OF ok i] by auto
    show "stream_ok (sb_heap s ! i) c (sb_streams s ! c) \<Longrightarrow> stream_ok ((sb_heap s ! i)\<lparr>bf_status := status, bf_terminal := Some terminal,
      bf_completed := Some now, bf_last_event := now, bf_subscribers := []\<rparr>)
        c (sb_streams s' ! c)"
      using stream_ok_shut [OF _ bok act st refl] p c by simp
  qed (use p in simp_all)
qed

lemma complete_buffer_ok: "store_ok s \<Longrightarrow> store_ok (complete_buffer i reason now s)"
  by (simp add: complete_buffer_def finish_buffer_ok)

lemma fail_buffer_ok: "store_ok s \<Longrightarrow> store_ok (fail_buffer i err now s)"
  by (simp add: fail_buffer_def finish_buffer_ok)

lemma complete_buffer_frame:
  assumes "store_ok s"
  shows "sb_index (complete_buffer i reason now s) = sb_index s
    \<and> sb_replies (complete_buffer i reason now s) = sb_replies s
    \<and> length (sb_heap (complete_buffer i reason now s)) = length (sb_heap s)
    \<and> length (sb_streams (complete_buffer i reason now s)) = length (sb_streams s)
    \<and> (i < length (sb_heap s) \<longrightarrow> bf_status (sb_heap (complete_buffer i reason now s) ! i) \<noteq> Turn_Active)
    \<and> (\<forall>j. j \<noteq> i \<longrightarrow> sb_heap (complete_buffer i reason now s) ! j = sb_heap s ! j)"
proof (cases "i < length (sb_heap s) \<and> bf_status (sb_heap s ! i) = Turn_Active")
  case False
  then show ?thesis by (auto simp: complete_buffer_def finish_buffer_def)
next
  case True
  with finish_buffer_parts [OF assms _ _ refl refl, of i] show ?thesis by (simp add: complete_buffer_def)
qed

subsection \<open>Keys\<close>

lemma index_delete_set: "set (om_delete k m) \<subseteq> set m"
  by (induction m) auto

lemma create_ok:
  assumes "store_ok s"
  shows "store_ok (fst (sb_create key turn now s))"
proof -
  define s1 where "s1 = (case om_get (sb_index s) key of
      None \<Rightarrow> s | Some i \<Rightarrow> complete_buffer i (Some ''replaced'') now s)"
  have ok: "store_ok s1" using assms by (simp add: s1_def complete_buffer_ok split: option.split)
  define s2 where "s2 = s1\<lparr>sb_heap := sb_heap s1 @ [new_buffer turn now],
      sb_index := om_set key (length (sb_heap s1)) (sb_index s1)\<rparr>"
  have new: "buffer_ok (new_buffer turn now)" by (simp add: buffer_ok_def new_buffer_def)
  have "buffer_ok (sb_heap s2 ! j) \<and> (\<forall>c \<in> set (bf_subscribers (sb_heap s2 ! j)).
      c < length (sb_streams s2) \<and> su_buffer (sb_streams s2 ! c) = j)" if "j < length (sb_heap s2)" for j
    using that new store_okD(1,2) [OF ok, of j]
    by (cases "j < length (sb_heap s1)") (auto simp: s2_def nth_append new_buffer_def less_Suc_eq)
  moreover have "su_buffer (sb_streams s2 ! c) < length (sb_heap s2)
      \<and> stream_ok (sb_heap s2 ! su_buffer (sb_streams s2 ! c)) c (sb_streams s2 ! c)"
    if "c < length (sb_streams s2)" for c
    using that store_okD(3,4) [OF ok, of c] by (simp add: s2_def nth_append)
  moreover have "snd e < length (sb_heap s2)" if "e \<in> set (sb_index s2)" for e
  proof -
    have "set (om_set key v m) \<subseteq> insert (key, v) (set m)" for v :: nat and m
      by (induction m) auto
    with that have "e = (key, length (sb_heap s1)) \<or> e \<in> set (sb_index s1)" by (auto simp: s2_def)
    with ok show ?thesis by (auto simp: s2_def store_ok_def)
  qed
  ultimately have "store_ok s2" using ok by (simp add: store_ok_def s2_def)
  then show ?thesis by (simp add: sb_create_def Let_def s2_def flip: s1_def)
qed

lemma abort_ok:
  assumes "store_ok s"
  shows "store_ok (sb_abort key now s)"
proof (cases "om_get (sb_index s) key")
  case None
  with assms show ?thesis by (simp add: sb_abort_def)
next
  case (Some i)
  define s1 where "s1 = complete_buffer i (Some ''aborted'') now s"
  have ok: "store_ok s1" using assms by (simp add: s1_def complete_buffer_ok)
  note fr = complete_buffer_frame [OF assms, of i "Some ''aborted''" now, folded s1_def]
  have i: "i < length (sb_heap s1)" using fr store_okD(5) [OF assms Some] by simp
  have na: "bf_status (sb_heap s1 ! i) \<noteq> Turn_Active" using fr i by simp
  define s2 where "s2 = update_buffer i (\<lambda>b. b\<lparr>bf_status := Turn_Aborted\<rparr>) s1"
  have "store_ok s2"
  proof (rule store_ok_local [OF ok i])
    show "sb_heap s2 = (sb_heap s1)[i := (sb_heap s1 ! i)\<lparr>bf_status := Turn_Aborted\<rparr>]"
      using i by (simp add: s2_def)
    show "buffer_ok ((sb_heap s1 ! i)\<lparr>bf_status := Turn_Aborted\<rparr>)"
      using store_okD(1) [OF ok i] na by (simp add: buffer_ok_def)
    show "stream_ok (sb_heap s1 ! i) c (sb_streams s1 ! c) \<Longrightarrow>
        stream_ok ((sb_heap s1 ! i)\<lparr>bf_status := Turn_Aborted\<rparr>) c (sb_streams s2 ! c)" for c
      using na by (auto simp: s2_def stream_ok_def frames_after_def split: if_splits)
  qed (simp_all add: s2_def)
  then have "store_ok (s2\<lparr>sb_index := om_delete key (sb_index s2)\<rparr>)"
    by (rule store_ok_index) (use \<open>store_ok s2\<close> in \<open>auto simp: store_ok_def dest: index_delete_set [THEN subsetD]\<close>)
  then show ?thesis by (simp add: sb_abort_def Some Let_def s1_def s2_def)
qed

lemma om_ok_replies: "store_ok s \<Longrightarrow> om_ok (sb_replies s)"
  by (simp add: store_ok_def)

lemma om_ok_index: "store_ok s \<Longrightarrow> om_ok (sb_index s)"
  by (simp add: store_ok_def)

lemma prune_ok:
  assumes "store_ok s"
  shows "store_ok (prune_replies now s)"
  using assms by (intro store_ok_index [OF assms]) (auto simp: prune_replies_def om_ok_replies om_ok_index)

lemma record_reply_ok:
  assumes "store_ok s"
  shows "store_ok (record_turn_reply key reply now s)"
  using assms by (intro store_ok_index [OF assms]) (auto simp: record_turn_reply_def prune_replies_def Let_def om_ok_replies om_ok_index)

lemma read_reply_ok:
  assumes "store_ok s"
  shows "store_ok (fst (turn_reply_of key now s))"
  using assms by (intro store_ok_index [OF assms]) (auto simp: turn_reply_of_def om_ok_replies om_ok_index split: option.split)

subsection \<open>Streams\<close>

lemma add_stream_ok:
  assumes ok: "store_ok s" and i: "su_buffer u < length (sb_heap s)"
    and sub: "subscribe \<longleftrightarrow> bf_status (sb_heap s ! su_buffer u) = Turn_Active"
    and u: "stream_ok ((sb_heap s ! su_buffer u)\<lparr>bf_subscribers := if subscribe then [length (sb_streams s)] else []\<rparr>)
      (length (sb_streams s)) u"
  shows "store_ok (fst (add_stream u subscribe s))"
proof -
  define b where "b = sb_heap s ! su_buffer u"
  define c where "c = length (sb_streams s)"
  define b' where "b' = (if subscribe then b\<lparr>bf_subscribers := bf_subscribers b @ [c]\<rparr> else b)"
  define s' where "s' = fst (add_stream u subscribe s)"
  have s': "sb_heap s' = (sb_heap s)[su_buffer u := b']" "sb_streams s' = sb_streams s @ [u]"
    "sb_index s' = sb_index s" "sb_replies s' = sb_replies s"
    using i by (auto simp: s'_def add_stream_def Let_def b'_def b_def c_def update_buffer_def)
  have bok: "buffer_ok b" using store_okD(1) [OF ok i] by (simp add: b_def)
  have fresh: "c \<notin> set (bf_subscribers b)"
    using store_okD(2) [OF ok i] by (auto simp: b_def c_def)
  have b'ok: "buffer_ok b'" using bok fresh sub by (simp add: b'_def buffer_ok_def b_def)
  have uok: "stream_ok b' c u"
    using u fresh sub by (auto simp: stream_ok_def b'_def b_def c_def frames_after_def split: if_splits)
  have old: "stream_ok b' d v" if "stream_ok b d v" "d < c" for d v
    using that by (auto simp: stream_ok_def b'_def frames_after_def split: if_splits)
  have "buffer_ok (sb_heap s' ! j) \<and> (\<forall>d \<in> set (bf_subscribers (sb_heap s' ! j)).
      d < length (sb_streams s') \<and> su_buffer (sb_streams s' ! d) = j)" if "j < length (sb_heap s')" for j
    using that b'ok store_okD(1,2) [OF ok, of j] i
    by (cases "j = su_buffer u") (auto simp: s' b'_def b_def c_def nth_append less_SucI split: if_splits)
  moreover have "su_buffer (sb_streams s' ! d) < length (sb_heap s')
      \<and> stream_ok (sb_heap s' ! su_buffer (sb_streams s' ! d)) d (sb_streams s' ! d)"
    if "d < length (sb_streams s')" for d
  proof (cases "d < c")
    case True
    then show ?thesis
      using store_okD(3,4) [OF ok, of d] old [of d] i
      by (cases "su_buffer (sb_streams s ! d) = su_buffer u") (auto simp: s' c_def nth_append b_def)
  next
    case False
    with that have "d = c" by (simp add: s' c_def)
    with uok i show ?thesis by (simp add: s' c_def)
  qed
  ultimately show ?thesis using ok by (simp add: store_ok_def s' flip: s'_def)
qed

lemma frames_after_min:
  "buffer_ok b \<Longrightarrow> frames_after (min n (bf_next b - 1)) b = frames_after n b"
proof -
  assume ok: "buffer_ok b"
  have "q < bf_next b" if "(q, x) \<in> set (bf_frames b)" for q x
  proof -
    from that have "q \<in> set (map fst (bf_frames b))" by force
    then show ?thesis using ok unfolding buffer_ok_def by auto
  qed
  then have "filter (\<lambda>(q, c). min n (bf_next b - 1) < q) (bf_frames b) = filter (\<lambda>(q, c). n < q) (bf_frames b)"
    by (intro filter_cong refl) force
  then show ?thesis by (simp add: frames_after_def)
qed

lemma frames_after_last: "buffer_ok b \<Longrightarrow> frames_after (bf_next b - 1) b = []"
proof -
  assume ok: "buffer_ok b"
  have "q < bf_next b" if "(q, x) \<in> set (bf_frames b)" for q x
  proof -
    from that have "q \<in> set (map fst (bf_frames b))" by force
    then show ?thesis using ok unfolding buffer_ok_def by auto
  qed
  then show ?thesis by (force simp: frames_after_def filter_empty_conv)
qed

lemma replay_ok:
  assumes ok: "store_ok s" and r: "create_replay_stream key n cmp s = Some (s', c)"
  shows "store_ok s'"
proof -
  obtain i where i: "om_get (sb_index s) key = Some i"
    using r by (auto simp: create_replay_stream_def split: option.splits)
  define b where "b = sb_heap s ! i"
  have il: "i < length (sb_heap s)" using store_okD(5) [OF ok i] .
  have bok: "buffer_ok b" using store_okD(1) [OF ok il] by (simp add: b_def)
  define start where "start = max 0 (case n of None \<Rightarrow> 0 | Some n \<Rightarrow> n)"
  define prefix where "prefix = (case cmp of None \<Rightarrow> [] | Some co \<Rightarrow>
      replay_prefix co (frames_after start b) (co_compact co (frames_after start b)) (bf_turn b) (bf_next b - 1)
        (bf_status b = Turn_Active))"
  define u where "u = \<lparr>su_buffer = i, su_after = (case cmp of None \<Rightarrow> min start (bf_next b - 1) | Some _ \<Rightarrow> bf_next b - 1),
      su_active = (bf_status b = Turn_Active), su_prefix = prefix,
      su_out = prefix @ (case cmp of None \<Rightarrow> frames_after start b | Some _ \<Rightarrow> []),
      su_held = [], su_ready = True, su_state = (if bf_status b = Turn_Active then Open else Closed)\<rparr>"
  have s': "s' = fst (add_stream u (bf_status b = Turn_Active) s)"
    using r i
    by (cases cmp; cases "bf_status b = Turn_Active")
      (auto simp: create_replay_stream_def Let_def u_def prefix_def start_def b_def)
  have fa: "frames_after m (b\<lparr>bf_subscribers := x\<rparr>) = frames_after m b" for m x
    by (simp add: frames_after_def)
  have "0 \<le> bf_next b - 1" using bok by (simp add: buffer_ok_def)
  then show ?thesis unfolding s'
    using bok frames_after_min [OF bok, of start] frames_after_last [OF bok]
    by (intro add_stream_ok [OF ok])
      (auto simp: u_def il stream_ok_def fa start_def simp flip: b_def split: option.split)
qed

lemma built_ok:
  assumes ok: "store_ok s" and r: "create_built_stream key n s = Some (s', c, p)"
  shows "store_ok s'"
proof -
  obtain i where i: "om_get (sb_index s) key = Some i"
    using r by (auto simp: create_built_stream_def split: option.splits)
  define b where "b = sb_heap s ! i"
  have il: "i < length (sb_heap s)" using store_okD(5) [OF ok i] .
  have bok: "buffer_ok b" using store_okD(1) [OF ok il] by (simp add: b_def)
  define u where "u = \<lparr>su_buffer = i, su_after = bf_next b - 1, su_active = (bf_status b = Turn_Active),
      su_prefix = [], su_out = [], su_held = [], su_ready = False, su_state = Open\<rparr>"
  have s': "s' = fst (add_stream u (bf_status b = Turn_Active) s)"
    using r i by (auto simp: create_built_stream_def Let_def u_def b_def split: prod.splits)
  have fa: "frames_after m (b\<lparr>bf_subscribers := x\<rparr>) = frames_after m b" for m x
    by (simp add: frames_after_def)
  have "0 \<le> bf_next b - 1" using bok by (simp add: buffer_ok_def)
  then show ?thesis unfolding s'
    using frames_after_last [OF bok]
    by (intro add_stream_ok [OF ok]) (auto simp: u_def il stream_ok_def fa simp flip: b_def)
qed

lemma finish_built_ok:
  assumes ok: "store_ok s"
  shows "store_ok (finish_built_stream co c pending built s)"
proof (cases "c < length (sb_streams s) \<and> \<not> su_ready (sb_streams s ! c)")
  case False
  with ok show ?thesis by (auto simp: finish_built_stream_def)
next
  case True
  then have c: "c < length (sb_streams s)" and nr: "\<not> su_ready (sb_streams s ! c)" by simp_all
  define u where "u = sb_streams s ! c"
  define i where "i = su_buffer u"
  define b where "b = sb_heap s ! i"
  have il: "i < length (sb_heap s)" using store_okD(3) [OF ok c] by (simp add: i_def u_def)
  have uok: "stream_ok b c u" using store_okD(4) [OF ok c] by (simp add: b_def i_def u_def)
  have bok: "buffer_ok b" using store_okD(1) [OF ok il] by (simp add: b_def)
  define s' where "s' = finish_built_stream co c pending built s"
  show ?thesis unfolding s'_def [symmetric]
  proof (cases "su_state u = Open")
    case False
    then have notin: "c \<notin> set (bf_subscribers b)" using uok nr by (auto simp: stream_ok_def u_def split: if_splits)
    then have "s' = update_buffer i (\<lambda>b. b\<lparr>bf_subscribers := remove1 c (bf_subscribers b)\<rparr>) s"
      using False True by (simp add: s'_def finish_built_stream_def Let_def u_def i_def)
    moreover have "b\<lparr>bf_subscribers := remove1 c (bf_subscribers b)\<rparr> = b"
      using notin by (simp add: remove1_idem)
    ultimately have "s' = s" using il by (simp add: update_buffer_def b_def)
    with ok show "store_ok s'" by simp
  next
    case st: True
    define prefix where "prefix = replay_prefix co pending (case built of Some r \<Rightarrow> r | None \<Rightarrow> co_compact co pending)
      (bf_turn b) (su_after u) (su_active u)"
    define u' where "u' = u\<lparr>su_prefix := prefix, su_out := prefix @ su_held u, su_held := [], su_ready := True,
      su_state := (if \<not> su_active u \<or> bf_status b \<noteq> Turn_Active then Closed else Open)\<rparr>"
    have "s' = update_stream c (\<lambda>u. u\<lparr>su_prefix := prefix, su_out := prefix @ su_held u, su_held := [],
        su_ready := True, su_state := (if \<not> su_active u \<or> bf_status b \<noteq> Turn_Active then Closed else Open)\<rparr>) s"
      using st True by (simp add: s'_def finish_built_stream_def Let_def u_def i_def b_def prefix_def)
    then have s': "sb_streams s' = (sb_streams s)[c := u']" "sb_heap s' = sb_heap s"
      "sb_index s' = sb_index s" "sb_replies s' = sb_replies s"
      using c by (simp_all add: u'_def u_def update_stream_def)
    show "store_ok s'"
    proof (rule store_ok_local [OF ok il])
      show "sb_heap s' = (sb_heap s)[i := b]" by (simp add: s' b_def)
      show "stream_ok b d (sb_streams s' ! d)" if "d < length (sb_streams s)"
        "stream_ok (sb_heap s ! i) d (sb_streams s ! d)" for d
      proof (cases "d = c")
        case True
        have "stream_ok b c u'" using uok st nr
          by (auto simp: stream_ok_def u'_def u_def split: if_splits)
        with True c show ?thesis by (simp add: s')
      next
        case False
        with that show ?thesis by (simp add: s' b_def)
      qed
    qed (use bok c in \<open>auto simp: s' b_def u'_def u_def i_def nth_list_update\<close>)
  qed
qed

lemma cancel_ok:
  assumes ok: "store_ok s"
  shows "store_ok (cancel_stream c s)"
proof (cases "c < length (sb_streams s) \<and> su_state (sb_streams s ! c) = Open")
  case False
  with ok show ?thesis by (auto simp: cancel_stream_def)
next
  case True
  then have c: "c < length (sb_streams s)" and st: "su_state (sb_streams s ! c) = Open" by simp_all
  define u where "u = sb_streams s ! c"
  define i where "i = su_buffer u"
  define b where "b = sb_heap s ! i"
  have il: "i < length (sb_heap s)" using store_okD(3) [OF ok c] by (simp add: i_def u_def)
  have uok: "stream_ok b c u" using store_okD(4) [OF ok c] by (simp add: b_def i_def u_def)
  have bok: "buffer_ok b" using store_okD(1) [OF ok il] by (simp add: b_def)
  define b' where "b' = b\<lparr>bf_subscribers := remove1 c (bf_subscribers b)\<rparr>"
  define s' where "s' = cancel_stream c s"
  have s': "sb_streams s' = (sb_streams s)[c := u\<lparr>su_state := Cancelled\<rparr>]" "sb_heap s' = (sb_heap s)[i := b']"
      "sb_index s' = sb_index s" "sb_replies s' = sb_replies s"
    using c st il by (simp_all add: s'_def cancel_stream_def u_def i_def b_def b'_def)
  have fa: "frames_after m b' = frames_after m b" for m by (simp add: frames_after_def b'_def)
  have subs: "set (bf_subscribers b') = set (bf_subscribers b) - {c}"
    using bok by (simp add: b'_def buffer_ok_def)
  show ?thesis unfolding s'_def [symmetric]
  proof (rule store_ok_local [OF ok il s'(2)])
    show "buffer_ok b'" using bok by (auto simp: buffer_ok_def b'_def)
    show "stream_ok b' d (sb_streams s' ! d)" if "d < length (sb_streams s)"
      "stream_ok (sb_heap s ! i) d (sb_streams s ! d)" for d
    proof (cases "d = c")
      case True
      have "c \<notin> set (bf_subscribers b')" using subs by simp
      moreover have "bf_status b' = bf_status b" "bf_next b' = bf_next b" by (simp_all add: b'_def)
      ultimately have "stream_ok b' c (u\<lparr>su_state := Cancelled\<rparr>)" using uok
        by (auto simp: stream_ok_def fa split: if_splits)
      with True c show ?thesis by (simp add: s')
    next
      case False
      have "d \<in> set (bf_subscribers b') \<longleftrightarrow> d \<in> set (bf_subscribers b)" using subs False by simp
      moreover have "bf_status b' = bf_status b" "bf_next b' = bf_next b" by (simp_all add: b'_def)
      moreover have "stream_ok b d (sb_streams s ! d)" using that(2) by (simp add: b_def)
      ultimately have "stream_ok b' d (sb_streams s ! d)" by (simp add: stream_ok_def fa)
      with False show ?thesis by (simp add: s')
    qed
  qed (use subs c in \<open>auto simp: s' b_def u_def i_def nth_list_update\<close>)
qed

subsection \<open>Cleanup and dispose\<close>

lemma cleanup_key_ok: "store_ok s \<Longrightarrow> store_ok (cleanup_key now e s)"
proof -
  assume ok: "store_ok s"
  have del: "store_ok (t\<lparr>sb_index := om_delete k (sb_index t)\<rparr>)" if "store_ok t" for t k
    using that by (intro store_ok_index [OF that]) (auto simp: store_ok_def dest: index_delete_set [THEN subsetD])
  show ?thesis
    using ok del complete_buffer_ok [OF ok] by (auto simp: cleanup_key_def Let_def split: prod.split)
qed

lemma cleanup_ok: "store_ok s \<Longrightarrow> store_ok (sb_cleanup now s)"
proof -
  assume "store_ok s"
  then have "store_ok (prune_replies now s)" by (rule prune_ok)
  moreover have "store_ok t \<Longrightarrow> store_ok (fold (cleanup_key now) es t)" for es t
    by (induction es arbitrary: t) (auto intro: cleanup_key_ok)
  ultimately show ?thesis by (simp add: sb_cleanup_def Let_def)
qed

lemma dispose_ok: "store_ok s \<Longrightarrow> store_ok (sb_dispose now s)"
proof -
  assume ok: "store_ok s"
  have "store_ok t \<Longrightarrow> store_ok (fold (\<lambda>(k :: string, i) s. complete_buffer i (Some ''disposed'') now s) es t)" for es t
    by (induction es arbitrary: t) (auto intro: complete_buffer_ok)
  then have "store_ok (fold (\<lambda>(k, i) s. complete_buffer i (Some ''disposed'') now s) (sb_index s) s)"
    using ok by blast
  then show ?thesis unfolding sb_dispose_def by (rule store_ok_index) auto
qed

lemma sb_step_ok:
  assumes ok: "store_ok s"
  shows "store_ok (sb_step e s)"
proof -
  obtain op now where e: "e = (op, now)" by (cases e)
  have rep: "store_ok (case create_replay_stream key n cmp s of None \<Rightarrow> s | Some (s', c) \<Rightarrow> s')" for key n cmp
    using ok replay_ok [OF ok] by (auto split: option.split)
  have bld: "store_ok (case create_built_stream key n s of None \<Rightarrow> s | Some (s', c, p) \<Rightarrow> s')" for key n
    using ok built_ok [OF ok] by (auto split: option.split)
  have app: "store_ok (fst (sb_append key x now s))" for key x
    using ok append_buffer_ok [OF ok] by (simp add: sb_append_def split: option.split)
  have com: "store_ok (sb_complete key r now s)" for key r
    using ok complete_buffer_ok [OF ok] by (simp add: sb_complete_def split: option.split)
  show ?thesis
    unfolding e
    by (cases op)
      (simp_all add: rep bld app com create_ok [OF ok] append_buffer_ok [OF ok] complete_buffer_ok [OF ok]
        fail_buffer_ok [OF ok] abort_ok [OF ok] record_reply_ok [OF ok] read_reply_ok [OF ok]
        finish_built_ok [OF ok] cancel_ok [OF ok] cleanup_ok [OF ok] dispose_ok [OF ok])
qed

interpretation stream_store: machine sb_step store_ok
  by unfold_locales (rule sb_step_ok)

interpretation stream_log: seq_log bf_frames buffer_ok
  by unfold_locales (simp add: buffer_ok_def sorted_wrt_map del: upt_Suc)

section \<open>How a store evolves\<close>

definition stream_evolves :: "subscription \<Rightarrow> subscription \<Rightarrow> bool" where
  "stream_evolves u v \<longleftrightarrow>
     su_buffer v = su_buffer u \<and> su_after v = su_after u
     \<and> (su_ready u \<longrightarrow> su_ready v \<and> su_prefix v = su_prefix u)
     \<and> (su_state u = Cancelled \<longrightarrow> su_state v = Cancelled)"

definition buffer_evolves :: "buffer \<Rightarrow> buffer \<Rightarrow> bool" where
  "buffer_evolves b d \<longleftrightarrow>
     bf_turn d = bf_turn b \<and> bf_created d = bf_created b \<and> prefix (bf_frames b) (bf_frames d)
     \<and> (bf_status b \<noteq> Turn_Active \<longrightarrow> bf_status d \<noteq> Turn_Active \<and> bf_frames d = bf_frames b
          \<and> bf_terminal d = bf_terminal b \<and> bf_completed d = bf_completed b)"

definition evolves :: "store \<Rightarrow> store \<Rightarrow> bool" where
  "evolves s t \<longleftrightarrow>
     length (sb_streams s) \<le> length (sb_streams t) \<and> length (sb_heap s) \<le> length (sb_heap t)
     \<and> (\<forall>c < length (sb_streams s). stream_evolves (sb_streams s ! c) (sb_streams t ! c))
     \<and> (\<forall>i < length (sb_heap s). buffer_evolves (sb_heap s ! i) (sb_heap t ! i))"

lemma stream_evolves_refl [simp]: "stream_evolves u u"
  by (simp add: stream_evolves_def)

lemma buffer_evolves_refl [simp]: "buffer_evolves b b"
  by (simp add: buffer_evolves_def)

lemma evolves_refl [simp]: "evolves s s"
  by (simp add: evolves_def)

lemma evolves_trans: "evolves s t \<Longrightarrow> evolves t v \<Longrightarrow> evolves s v"
proof -
  assume st: "evolves s t" and tv: "evolves t v"
  have "stream_evolves (sb_streams s ! c) (sb_streams v ! c)" if "c < length (sb_streams s)" for c
  proof -
    from st that have "stream_evolves (sb_streams s ! c) (sb_streams t ! c)" "c < length (sb_streams t)"
      by (auto simp: evolves_def)
    moreover from this tv have "stream_evolves (sb_streams t ! c) (sb_streams v ! c)" by (simp add: evolves_def)
    ultimately show ?thesis by (auto simp: stream_evolves_def)
  qed
  moreover have "buffer_evolves (sb_heap s ! i) (sb_heap v ! i)" if "i < length (sb_heap s)" for i
  proof -
    from st that have "buffer_evolves (sb_heap s ! i) (sb_heap t ! i)" "i < length (sb_heap t)"
      by (auto simp: evolves_def)
    moreover from this tv have "buffer_evolves (sb_heap t ! i) (sb_heap v ! i)" by (simp add: evolves_def)
    ultimately show ?thesis by (auto simp: buffer_evolves_def intro: prefix_order.trans)
  qed
  ultimately show ?thesis using st tv by (simp add: evolves_def)
qed

lemma evolves_same: "sb_heap t = sb_heap s \<Longrightarrow> sb_streams t = sb_streams s \<Longrightarrow> evolves s t"
  by (simp add: evolves_def)

lemma evolves_local:
  assumes "i < length (sb_heap s)" and "sb_heap t = (sb_heap s)[i := b']"
    and "buffer_evolves (sb_heap s ! i) b'" and "length (sb_streams t) = length (sb_streams s)"
    and "\<And>c. c < length (sb_streams s) \<Longrightarrow> stream_evolves (sb_streams s ! c) (sb_streams t ! c)"
  shows "evolves s t"
  using assms by (simp add: evolves_def nth_list_update)

lemma append_evolves:
  assumes "store_ok s"
  shows "evolves s (fst (append_buffer i x now s))"
proof (cases "i < length (sb_heap s) \<and> bf_status (sb_heap s ! i) = Turn_Active")
  case False
  then show ?thesis by (auto simp: append_buffer_def)
next
  case True
  obtain s' q where r: "append_buffer i x now s = (s', q)" by (cases "append_buffer i x now s")
  note p = append_buffer_parts [OF assms _ _ refl r]
  show ?thesis
    by (rule evolves_local [of i]) (use p True r in \<open>auto simp: buffer_evolves_def stream_evolves_def push_chunk_def\<close>)
qed

lemma finish_evolves:
  assumes "store_ok s" and "status \<noteq> Turn_Active"
  shows "evolves s (finish_buffer i status terminal now s)"
proof (cases "i < length (sb_heap s) \<and> bf_status (sb_heap s ! i) = Turn_Active")
  case False
  then show ?thesis by (auto simp: finish_buffer_def)
next
  case True
  note p = finish_buffer_parts [OF assms(1) _ _ refl refl, of i status terminal now]
  show ?thesis
    by (rule evolves_local [of i]) (use p True in \<open>auto simp: buffer_evolves_def stream_evolves_def shut_def\<close>)
qed

lemma complete_evolves: "store_ok s \<Longrightarrow> evolves s (complete_buffer i reason now s)"
  by (simp add: complete_buffer_def finish_evolves)

lemma create_evolves: "store_ok s \<Longrightarrow> evolves s (fst (sb_create key turn now s))"
proof -
  assume ok: "store_ok s"
  define s1 where "s1 = (case om_get (sb_index s) key of
      None \<Rightarrow> s | Some i \<Rightarrow> complete_buffer i (Some ''replaced'') now s)"
  have "evolves s s1" using complete_evolves [OF ok] by (simp add: s1_def split: option.split)
  moreover have "evolves s1 (fst (sb_create key turn now s))"
    by (simp add: sb_create_def Let_def evolves_def nth_append flip: s1_def)
  ultimately show ?thesis by (rule evolves_trans)
qed

lemma abort_evolves:
  assumes "store_ok s"
  shows "evolves s (sb_abort key now s)"
proof (cases "om_get (sb_index s) key")
  case None
  then show ?thesis by (simp add: sb_abort_def)
next
  case (Some i)
  define s1 where "s1 = complete_buffer i (Some ''aborted'') now s"
  note fr = complete_buffer_frame [OF assms, of i "Some ''aborted''" now, folded s1_def]
  have i: "i < length (sb_heap s1)" using fr store_okD(5) [OF assms Some] by simp
  have "evolves s s1" using complete_evolves [OF assms] by (simp add: s1_def)
  moreover have "evolves s1 (sb_abort key now s)"
    by (rule evolves_local [OF i])
      (use fr i in \<open>auto simp: sb_abort_def Some Let_def buffer_evolves_def simp flip: s1_def\<close>)
  ultimately show ?thesis by (rule evolves_trans)
qed

lemma add_stream_evolves:
  assumes "su_buffer u < length (sb_heap s)"
  shows "evolves s (fst (add_stream u subscribe s))"
  using assms
  by (auto simp: add_stream_def Let_def evolves_def update_buffer_def nth_append nth_list_update buffer_evolves_def)

lemma add_stream_evolves':
  "add_stream u sub s = (s', c) \<Longrightarrow> su_buffer u < length (sb_heap s) \<Longrightarrow> evolves s s'"
  using add_stream_evolves [of u s sub] by simp

lemma replay_evolves:
  assumes "store_ok s" and "create_replay_stream key n cmp s = Some (s', c)"
  shows "evolves s s'"
proof -
  from assms(2) obtain i where i: "om_get (sb_index s) key = Some i"
    by (auto simp: create_replay_stream_def split: option.splits)
  then have "i < length (sb_heap s)" by (rule store_okD(5) [OF assms(1)])
  with assms(2) i show ?thesis
    by (auto simp: create_replay_stream_def Let_def elim!: add_stream_evolves')
qed

lemma built_evolves:
  assumes "store_ok s" and "create_built_stream key n s = Some (s', c, p)"
  shows "evolves s s'"
proof -
  from assms(2) obtain i where i: "om_get (sb_index s) key = Some i"
    by (auto simp: create_built_stream_def split: option.splits)
  then have "i < length (sb_heap s)" by (rule store_okD(5) [OF assms(1)])
  with assms(2) i show ?thesis
    by (auto simp: create_built_stream_def Let_def elim!: add_stream_evolves' split: prod.splits)
qed

lemma finish_built_evolves:
  assumes "store_ok s"
  shows "evolves s (finish_built_stream co c pending built s)"
proof (cases "c < length (sb_streams s) \<and> \<not> su_ready (sb_streams s ! c)")
  case False
  then show ?thesis by (auto simp: finish_built_stream_def)
next
  case True
  then show ?thesis
    using store_okD(3) [OF assms, of c]
    by (auto simp: finish_built_stream_def Let_def evolves_def nth_list_update stream_evolves_def
        buffer_evolves_def)
qed

lemma cancel_evolves:
  assumes "store_ok s"
  shows "evolves s (cancel_stream c s)"
  using store_okD(3) [OF assms, of c]
  by (auto simp: cancel_stream_def evolves_def nth_list_update stream_evolves_def buffer_evolves_def)

lemma cleanup_key_evolves: "store_ok s \<Longrightarrow> evolves s (cleanup_key now e s)"
  using complete_evolves [of s "snd e" "Some ''expired''" now]
  by (auto simp: cleanup_key_def Let_def evolves_def split: prod.split)

lemma fold_evolves:
  assumes "\<And>e s. store_ok s \<Longrightarrow> store_ok (f e s) \<and> evolves s (f e s)" and "store_ok s"
  shows "evolves s (fold f es s)"
  using assms(2)
proof (induction es arbitrary: s)
  case (Cons e es)
  from assms(1) [OF Cons.prems, of e] Cons.IH [of "f e s"] show ?case by (auto intro: evolves_trans)
qed simp

lemma cleanup_evolves: "store_ok s \<Longrightarrow> evolves s (sb_cleanup now s)"
proof -
  assume ok: "store_ok s"
  have "evolves s (prune_replies now s)" by (rule evolves_same) (simp_all add: prune_replies_def)
  moreover have "evolves (prune_replies now s) (sb_cleanup now s)"
    unfolding sb_cleanup_def Let_def
    by (rule fold_evolves) (use ok in \<open>auto intro: cleanup_key_ok cleanup_key_evolves prune_ok\<close>)
  ultimately show ?thesis by (rule evolves_trans)
qed

lemma dispose_evolves: "store_ok s \<Longrightarrow> evolves s (sb_dispose now s)"
proof -
  assume ok: "store_ok s"
  have "evolves s (fold (\<lambda>(k, i) s. complete_buffer i (Some ''disposed'') now s) (sb_index s) s)"
    by (rule fold_evolves) (use ok in \<open>auto intro: complete_buffer_ok complete_evolves\<close>)
  then show ?thesis by (simp add: sb_dispose_def evolves_def)
qed

lemma sb_step_evolves:
  assumes ok: "store_ok s"
  shows "evolves s (sb_step e s)"
proof -
  obtain op now where e: "e = (op, now)" by (cases e)
  have rep: "evolves s (case create_replay_stream key n cmp s of None \<Rightarrow> s | Some (s', c) \<Rightarrow> s')" for key n cmp
    using replay_evolves [OF ok] by (auto split: option.split)
  have bld: "evolves s (case create_built_stream key n s of None \<Rightarrow> s | Some (s', c, p) \<Rightarrow> s')" for key n
    using built_evolves [OF ok] by (auto split: option.split)
  have app: "evolves s (fst (sb_append key x now s))" for key x
    using append_evolves [OF ok] by (simp add: sb_append_def split: option.split)
  have com: "evolves s (sb_complete key r now s)" for key r
    using complete_evolves [OF ok] by (simp add: sb_complete_def split: option.split)
  have fail: "evolves s (fail_buffer i err now s)" for i err
    using finish_evolves [OF ok] by (simp add: fail_buffer_def)
  have rr: "evolves s (record_turn_reply key reply now s)" for key reply
    by (rule evolves_same) (simp_all add: record_turn_reply_def prune_replies_def Let_def)
  have rd: "evolves s (fst (turn_reply_of key now s))" for key
    by (rule evolves_same) (simp_all add: turn_reply_of_def split: option.split)
  show ?thesis
    unfolding e
    by (cases op)
      (simp_all add: rep bld app com fail rr rd create_evolves [OF ok] append_evolves [OF ok]
        complete_evolves [OF ok] abort_evolves [OF ok] finish_built_evolves [OF ok] cancel_evolves [OF ok]
        cleanup_evolves [OF ok] dispose_evolves [OF ok])
qed

interpretation growth: latching_machine sb_step store_ok "evolves s0" for s0
  by unfold_locales (blast intro: evolves_trans sb_step_evolves)

lemma run_evolves: "store_ok s \<Longrightarrow> evolves s (fold sb_step es s)"
  by (rule growth.run_latched) simp_all

section \<open>Properties\<close>

text \<open>C2: exactly-once, in-order replay. A client that opens a replay stream at any point of any
  run has received, however writers, other readers, replacement turns, aborts and cleanups interleave afterwards, exactly
  the frames of the turn it attached to after \<^verbatim>\<open>fromSeq\<close>, in order and once; with a compactor, what it made of those
  already written, and then each later frame. A reader that has cancelled has a prefix of that, and any other stream is
  closed exactly when the turn has ended. A \<^verbatim>\<open>fromSeq\<close> beyond the last frame written when the stream was opened counts
  as that frame: every frame written later is delivered.\<close>

theorem replay_exactly_once:
  assumes "s0 = fold sb_step es empty_store" and "om_get (sb_index s0) key = Some i"
    and "create_replay_stream key n cmp s0 = Some (s1, c)" and "s = fold sb_step fs s1"
  shows "let b0 = sb_heap s0 ! i; b = sb_heap s ! i; u = sb_streams s ! c;
             start = max 0 (case n of None \<Rightarrow> 0 | Some k \<Rightarrow> k); final = bf_next b0 - 1;
             due = (case cmp of
                 None \<Rightarrow> frames_after (min start final) b
               | Some co \<Rightarrow>
                   replay_prefix co (frames_after start b0) (co_compact co (frames_after start b0)) (bf_turn b0) final
                     (bf_status b0 = Turn_Active) @ frames_after final b)
         in if su_state u = Cancelled then prefix (su_out u) due
            else su_out u = due \<and> (su_state u = Closed \<longleftrightarrow> bf_status b \<noteq> Turn_Active)"
proof -
  define start where "start = max 0 (case n of None \<Rightarrow> 0 | Some k \<Rightarrow> k)"
  define pre where "pre = (case cmp of None \<Rightarrow> [] | Some co \<Rightarrow>
      replay_prefix co (frames_after start (sb_heap s0 ! i)) (co_compact co (frames_after start (sb_heap s0 ! i)))
        (bf_turn (sb_heap s0 ! i)) (bf_next (sb_heap s0 ! i) - 1) (bf_status (sb_heap s0 ! i) = Turn_Active))"
  define live where "live = (case cmp of None \<Rightarrow> min start (bf_next (sb_heap s0 ! i) - 1) | Some _ \<Rightarrow> bf_next (sb_heap s0 ! i) - 1)"
  have ok0: "store_ok s0" unfolding assms(1) by (rule stream_store.run_inv [OF empty_store_ok])
  have ok1: "store_ok s1" by (rule replay_ok [OF ok0 assms(3)])
  have ok: "store_ok s" unfolding assms(4) by (rule stream_store.run_inv [OF ok1])
  have ev: "evolves s1 s" unfolding assms(4) by (rule run_evolves [OF ok1])
  have c: "c < length (sb_streams s1)" and u: "su_buffer (sb_streams s1 ! c) = i" "su_ready (sb_streams s1 ! c)"
    "su_prefix (sb_streams s1 ! c) = pre" "su_after (sb_streams s1 ! c) = live"
    using assms(2,3) unfolding pre_def live_def start_def
    by (auto simp: create_replay_stream_def Let_def add_stream_def split: if_splits option.splits)
  from ev c have "stream_evolves (sb_streams s1 ! c) (sb_streams s ! c)" and cl: "c < length (sb_streams s)"
    by (auto simp: evolves_def)
  with u have v: "su_buffer (sb_streams s ! c) = i" "su_ready (sb_streams s ! c)" "su_prefix (sb_streams s ! c) = pre"
    "su_after (sb_streams s ! c) = live"
    by (auto simp: stream_evolves_def)
  have "if su_state (sb_streams s ! c) = Cancelled then prefix (su_out (sb_streams s ! c)) (pre @ frames_after live (sb_heap s ! i))
    else su_out (sb_streams s ! c) = pre @ frames_after live (sb_heap s ! i)
      \<and> (su_state (sb_streams s ! c) = Closed \<longleftrightarrow> bf_status (sb_heap s ! i) \<noteq> Turn_Active)"
    using store_okD(4) [OF ok cl] v by (auto simp: stream_ok_def)
  then show ?thesis
    by (cases cmp) (simp_all add: Let_def pre_def live_def start_def split: if_splits)
qed

text \<open>The same for a stream whose replay is built by the caller. Frames written while the
  builder ran are delivered after its output, once and in order, followed by the live ones.\<close>

theorem built_replay_exactly_once:
  assumes "s0 = fold sb_step es empty_store" and "om_get (sb_index s0) key = Some i"
    and "create_built_stream key n s0 = Some (s1, c, pending)" and "s = fold sb_step fs s1"
    and "su_state (sb_streams s ! c) \<noteq> Cancelled" and "su_ready (sb_streams s ! c)"
  shows "su_out (sb_streams s ! c)
      = su_prefix (sb_streams s ! c) @ frames_after (bf_next (sb_heap s0 ! i) - 1) (sb_heap s ! i)
    \<and> (su_state (sb_streams s ! c) = Closed \<longleftrightarrow> bf_status (sb_heap s ! i) \<noteq> Turn_Active)"
proof -
  have ok0: "store_ok s0" unfolding assms(1) by (rule stream_store.run_inv [OF empty_store_ok])
  have ok1: "store_ok s1" by (rule built_ok [OF ok0 assms(3)])
  have ok: "store_ok s" unfolding assms(4) by (rule stream_store.run_inv [OF ok1])
  have ev: "evolves s1 s" unfolding assms(4) by (rule run_evolves [OF ok1])
  have c: "c < length (sb_streams s1)" and u: "su_buffer (sb_streams s1 ! c) = i"
    "su_after (sb_streams s1 ! c) = bf_next (sb_heap s0 ! i) - 1"
    using assms(2,3)
    by (auto simp: create_built_stream_def Let_def add_stream_def split: if_splits option.splits)
  from ev c have "stream_evolves (sb_streams s1 ! c) (sb_streams s ! c)" and cl: "c < length (sb_streams s)"
    by (auto simp: evolves_def)
  with u have v: "su_buffer (sb_streams s ! c) = i" "su_after (sb_streams s ! c) = bf_next (sb_heap s0 ! i) - 1"
    by (auto simp: stream_evolves_def)
  from store_okD(4) [OF ok cl] v assms(5,6) show ?thesis by (auto simp: stream_ok_def)
qed

text \<open>A turn that has ended never changes. Completed, failed or aborted, its frames, terminal
  reason and completion time are those it ended with, it never becomes active again, and frames are
  numbered 1, 2, 3, ... without gaps throughout.\<close>

theorem ended_turn_is_final:
  assumes "s0 = fold sb_step es empty_store" and "s = fold sb_step fs s0" and "i < length (sb_heap s0)"
  shows "i < length (sb_heap s) \<and> prefix (bf_frames (sb_heap s0 ! i)) (bf_frames (sb_heap s ! i))
    \<and> map fst (bf_frames (sb_heap s ! i)) = map int [1..<length (bf_frames (sb_heap s ! i)) + 1]
    \<and> (bf_status (sb_heap s0 ! i) \<noteq> Turn_Active \<longrightarrow> bf_status (sb_heap s ! i) \<noteq> Turn_Active
        \<and> bf_frames (sb_heap s ! i) = bf_frames (sb_heap s0 ! i)
        \<and> bf_terminal (sb_heap s ! i) = bf_terminal (sb_heap s0 ! i)
        \<and> bf_completed (sb_heap s ! i) = bf_completed (sb_heap s0 ! i))"
proof -
  have ok0: "store_ok s0" unfolding assms(1) by (rule stream_store.run_inv [OF empty_store_ok])
  have ok: "store_ok s" unfolding assms(2) by (rule stream_store.run_inv [OF ok0])
  have ev: "evolves s0 s" unfolding assms(2) by (rule run_evolves [OF ok0])
  then have "buffer_evolves (sb_heap s0 ! i) (sb_heap s ! i)" and i: "i < length (sb_heap s)"
    using assms(3) by (auto simp: evolves_def)
  with store_okD(1) [OF ok i] show ?thesis by (auto simp: buffer_evolves_def buffer_ok_def)
qed

text \<open>Resuming loses and repeats nothing. The frames a client read after \<open>n\<close>, up to the last one
  it saw \<open>m\<close>, followed by a replay from \<open>m\<close>, are the frames after \<open>n\<close>.\<close>

theorem resume_is_seamless:
  assumes "s = fold sb_step es empty_store" and "i < length (sb_heap s)" and "n \<le> m"
  shows "frames_after n (sb_heap s ! i)
    = map snd (filter (\<lambda>(q, x). n < q \<and> q \<le> m) (bf_frames (sb_heap s ! i))) @ frames_after m (sb_heap s ! i)"
proof -
  have "store_ok s" unfolding assms(1) by (rule stream_store.run_inv [OF empty_store_ok])
  from stream_log.resume_split [OF store_okD(1) [OF this assms(2)] assms(3)]
  show ?thesis by (simp add: frames_after_def stream_log.after_def)
qed

section \<open>A concrete run\<close>

definition demo_ops :: "(sb_op \<times> int) list" where
  "demo_ops = [(Op_Create ''k'' ''t1'', 1), (Op_Append ''k'' ''a'', 2), (Op_Append ''k'' ''b'', 3)]"

definition demo_more :: "(sb_op \<times> int) list" where
  "demo_more = [(Op_Append ''k'' ''c'', 4), (Op_Complete ''k'' None, 5), (Op_Create ''k'' ''t2'', 6)]"

lemmas demo_steps = demo_ops_def demo_more_def empty_store_def sb_create_def sb_append_def sb_complete_def
  complete_buffer_def finish_buffer_def append_buffer_def update_buffer_def new_buffer_def Let_def

lemma replay_exactly_once_witness:
  "\<exists>s c. s = fold sb_step demo_more (fst (the (create_replay_stream ''k'' (Some 1) None (fold sb_step demo_ops empty_store))))
     \<and> su_out (sb_streams s ! c) = [''b'', ''c'']"
proof -
  define s0 where "s0 = fold sb_step demo_ops empty_store"
  have i: "om_get (sb_index s0) ''k'' = Some 0" and nx: "bf_next (sb_heap s0 ! 0) = 3"
    by (simp_all add: s0_def demo_steps)
  obtain s1 c where r: "create_replay_stream ''k'' (Some 1) None s0 = Some (s1, c)"
    using i by (cases "create_replay_stream ''k'' (Some 1) None s0") (auto simp: create_replay_stream_def Let_def)
  define s where "s = fold sb_step demo_more s1"
  have "c = 0 \<and> su_state (sb_streams s ! c) \<noteq> Cancelled
      \<and> bf_frames (sb_heap s ! 0) = [(1, ''a''), (2, ''b''), (3, ''c'')]"
    using r unfolding s_def
    by (auto simp: s0_def demo_steps create_replay_stream_def add_stream_def deliver_def update_stream_def
        close_stream_def frames_after_def)
  then have live: "su_state (sb_streams s ! c) \<noteq> Cancelled"
    and fr: "bf_frames (sb_heap s ! 0) = [(1, ''a''), (2, ''b''), (3, ''c'')]" by blast+
  have "su_out (sb_streams s ! c) = frames_after (min 1 (bf_next (sb_heap s0 ! 0) - 1)) (sb_heap s ! 0)"
    using replay_exactly_once [OF s0_def i r s_def] live by (simp add: Let_def)
  then have "su_out (sb_streams s ! c) = [''b'', ''c'']" by (simp add: nx fr frames_after_def)
  moreover have "s = fold sb_step demo_more
      (fst (the (create_replay_stream ''k'' (Some 1) None (fold sb_step demo_ops empty_store))))"
    using r by (simp add: s_def s0_def)
  ultimately show ?thesis by blast
qed

lemma built_replay_exactly_once_witness:
  "\<exists>(s :: store) c. su_out (sb_streams s ! c) = [''R'', ''S'', ''c'']"
proof -
  define s0 where "s0 = fold sb_step demo_ops empty_store"
  have i: "om_get (sb_index s0) ''k'' = Some 0" and nx: "bf_next (sb_heap s0 ! 0) = 3"
    by (simp_all add: s0_def demo_steps)
  obtain s1 c p where r: "create_built_stream ''k'' None s0 = Some (s1, c, p)"
    using i by (cases "create_built_stream ''k'' None s0") (auto simp: create_built_stream_def Let_def split: prod.splits)
  define co where "co = \<lparr>co_compact = (\<lambda>xs. ''C''), co_seq_frame = (\<lambda>t n. ''S'')\<rparr>"
  define fs where "fs = [(Op_Append ''k'' ''c'', 4 :: int), (Op_Built co 0 p (Some ''R''), 5)]"
  define s where "s = fold sb_step fs s1"
  have "c = 0 \<and> su_state (sb_streams s ! c) \<noteq> Cancelled \<and> su_ready (sb_streams s ! c)
      \<and> su_prefix (sb_streams s ! c) = [''R'', ''S''] \<and> bf_frames (sb_heap s ! 0) = [(1, ''a''), (2, ''b''), (3, ''c'')]"
    using r unfolding s_def
    by (auto simp: s0_def fs_def co_def demo_steps create_built_stream_def add_stream_def deliver_def
        update_stream_def frames_after_def finish_built_stream_def replay_prefix_def)
  then have live: "su_state (sb_streams s ! c) \<noteq> Cancelled" "su_ready (sb_streams s ! c)"
    and fr: "su_prefix (sb_streams s ! c) = [''R'', ''S'']"
      "bf_frames (sb_heap s ! 0) = [(1, ''a''), (2, ''b''), (3, ''c'')]" by blast+
  have "su_out (sb_streams s ! c)
      = su_prefix (sb_streams s ! c) @ frames_after (bf_next (sb_heap s0 ! 0) - 1) (sb_heap s ! 0)"
    using built_replay_exactly_once [OF s0_def i r s_def] live by simp
  then have "su_out (sb_streams s ! c) = [''R'', ''S'', ''c'']" by (simp add: nx fr frames_after_def)
  then show ?thesis by blast
qed

lemma ended_turn_is_final_witness:
  "bf_status (sb_heap (fold sb_step demo_more (fold sb_step demo_ops empty_store)) ! 0) = Turn_Completed
   \<and> prefix [(1, ''a''), (2, ''b'')] (bf_frames (sb_heap (fold sb_step demo_more (fold sb_step demo_ops empty_store)) ! 0))"
proof -
  have "0 < length (sb_heap (fold sb_step demo_ops empty_store))" by (simp add: demo_steps)
  from ended_turn_is_final [OF refl refl this, of demo_more] show ?thesis
    by (simp add: demo_steps)
qed

lemma resume_is_seamless_witness:
  "frames_after 0 (sb_heap (fold sb_step demo_ops empty_store) ! 0)
     = [''a''] @ frames_after 1 (sb_heap (fold sb_step demo_ops empty_store) ! 0)"
proof -
  have "0 < length (sb_heap (fold sb_step demo_ops empty_store))" by (simp add: demo_steps)
  from resume_is_seamless [OF refl this, of 0 1] show ?thesis by (simp add: demo_steps)
qed

end
