(* ===== verification/Reply_Slots.thy ===== *)
theory Reply_Slots
  imports Prelude "HOL-Library.Product_Lexorder" "HOL-Library.List_Lexorder" "HOL-Library.Char_ord"
begin

text \<open>
  The admission queue for agent replies (\<^verbatim>\<open>apps/api/src/services/agent-reply-slots.ts\<close>), one workspace's:
  the Redis scripts over sorted sets, and the in-process book. A script runs atomically; a call that
  fails on the network leaves the store as it was. \<^verbatim>\<open>resolveAgentReplyCapacity\<close> is asynchronous, so what
  follows it is a step of its own, with the answer (\<^const>\<open>None\<close> when the lookup fails) as its argument.
  Run ids are message ids: a step that would enqueue a known id a second time does nothing. The throttled
  publishing of queue events is not modelled.
\<close>

section \<open>The shared contract\<close>

text \<open>Both backends admit from the head of the line while there is room under the limit.\<close>

locale admission_queue =
  fixes inv :: "'s \<Rightarrow> bool"
    and waiting :: "'s \<Rightarrow> 'r list"
    and working :: "'s \<Rightarrow> nat"
    and admit :: "nat \<Rightarrow> 's \<Rightarrow> 's"
  assumes admit_inv: "inv s \<Longrightarrow> inv (admit n s)"
    and admit_waiting: "inv s \<Longrightarrow> waiting (admit n s) = drop (n - working s) (waiting s)"
    and admit_working: "inv s \<Longrightarrow> working (admit n s) = working s + min (n - working s) (length (waiting s))"
begin

lemma admit_limit: "inv s \<Longrightarrow> working (admit n s) \<le> max n (working s)"
  by (simp add: admit_working)

lemma admit_no_idle: "inv s \<Longrightarrow> waiting (admit n s) = [] \<or> n \<le> working (admit n s)"
  by (auto simp: admit_waiting admit_working)

lemma admit_fifo: "inv s \<Longrightarrow> \<exists>k. waiting s = take k (waiting s) @ waiting (admit n s)"
  by (metis admit_waiting append_take_drop_id)

lemma admit_again:
  "inv s \<Longrightarrow> waiting (admit n (admit n s)) = waiting (admit n s)
     \<and> working (admit n (admit n s)) = working (admit n s)"
  using admit_no_idle [of s n] by (auto simp: admit_waiting admit_inv admit_working)

lemma admit_raise:
  "inv s \<Longrightarrow> n \<le> m \<Longrightarrow> length (waiting (admit m s)) \<le> length (waiting (admit n s))"
  by (simp add: admit_waiting)

end

section \<open>Sorted sets\<close>

text \<open>A Redis ZSET, listed by score and then member.\<close>

type_synonym zset = "(int \<times> string) list"

definition zscore :: "zset \<Rightarrow> string \<Rightarrow> int option" where
  "zscore z m = map_option fst (find (\<lambda>p. snd p = m) z)"

definition zrem :: "string \<Rightarrow> zset \<Rightarrow> zset" where
  "zrem m z = filter (\<lambda>p. snd p \<noteq> m) z"

definition zadd :: "int \<Rightarrow> string \<Rightarrow> zset \<Rightarrow> zset" where
  "zadd s m z = insort (s, m) (zrem m z)"

definition zadd_nx :: "int \<Rightarrow> string \<Rightarrow> zset \<Rightarrow> zset" where
  "zadd_nx s m z = (if zscore z m = None then zadd s m z else z)"

definition zremrangebyscore :: "int \<Rightarrow> zset \<Rightarrow> zset" where
  "zremrangebyscore now z = filter (\<lambda>p. now < fst p) z"

fun zrank :: "zset \<Rightarrow> string \<Rightarrow> nat option" where
  "zrank [] m = None"
| "zrank ((s, x) # z) m = (if x = m then Some 0 else map_option Suc (zrank z m))"

abbreviation zmembers :: "zset \<Rightarrow> string list" where
  "zmembers z \<equiv> map snd z"

definition zset_ok :: "zset \<Rightarrow> bool" where
  "zset_ok z \<longleftrightarrow> sorted z \<and> distinct (zmembers z)"

section \<open>The Redis scripts\<close>

definition holder_lease_ms :: int where
  "holder_lease_ms = 120000"

record redis_queue =
  rq_waiters :: zset
  rq_alive :: zset
  rq_holders :: zset

definition lease_lapsed :: "zset \<Rightarrow> int \<Rightarrow> string \<Rightarrow> bool" where
  "lease_lapsed alive now m \<longleftrightarrow> (case zscore alive m of None \<Rightarrow> True | Some e \<Rightarrow> e < now)"

definition sweep_waiter :: "int \<Rightarrow> string \<Rightarrow> redis_queue \<Rightarrow> redis_queue" where
  "sweep_waiter now m q =
     (if lease_lapsed (rq_alive q) now m
      then q\<lparr>rq_waiters := zrem m (rq_waiters q), rq_alive := zrem m (rq_alive q)\<rparr> else q)"

definition sweep_waiters :: "int \<Rightarrow> redis_queue \<Rightarrow> redis_queue" where
  "sweep_waiters now q = fold (sweep_waiter now) (zmembers (rq_waiters q)) q"

text \<open>The admission loop of \<^verbatim>\<open>TICK\<close>; \<open>running\<close> is the script's counter.\<close>

function tick_admit :: "int \<Rightarrow> nat \<Rightarrow> nat \<Rightarrow> redis_queue \<Rightarrow> redis_queue \<times> nat" where
  "tick_admit expiry limit running q =
     (if running < limit
      then (case rq_waiters q of
              [] \<Rightarrow> (q, running)
            | (_, h) # _ \<Rightarrow>
                tick_admit expiry limit (running + 1)
                  (q\<lparr>rq_waiters := zrem h (rq_waiters q), rq_alive := zrem h (rq_alive q),
                     rq_holders := zadd expiry h (rq_holders q)\<rparr>))
      else (q, running))"
  by pat_completeness auto
termination
  by (relation "measure (\<lambda>(_, limit, running, _). limit - running)") auto

declare tick_admit.simps [simp del]

record tick_reply =
  tr_held :: bool
  tr_rank :: "nat option"
  tr_running :: nat
  tr_queued :: nat

definition tick :: "int \<Rightarrow> nat \<Rightarrow> int \<Rightarrow> string \<Rightarrow> redis_queue \<Rightarrow> redis_queue \<times> tick_reply" where
  "tick now limit lease me q =
     (let q1 = sweep_waiters now (q\<lparr>rq_holders := zremrangebyscore now (rq_holders q)\<rparr>);
          q2 = (if zscore (rq_waiters q1) me = None then q1
                else q1\<lparr>rq_alive := zadd (now + lease) me (rq_alive q1)\<rparr>);
          (q3, running) = tick_admit (now + lease) limit (length (rq_holders q2)) q2
      in (q3, \<lparr>tr_held = zscore (rq_holders q3) me \<noteq> None, tr_rank = zrank (rq_waiters q3) me,
               tr_running = running, tr_queued = length (rq_waiters q3)\<rparr>))"

definition renew_holder :: "string \<Rightarrow> int \<Rightarrow> redis_queue \<Rightarrow> redis_queue" where
  "renew_holder m expiry q =
     (if zscore (rq_holders q) m = None then q else q\<lparr>rq_holders := zadd expiry m (rq_holders q)\<rparr>)"

definition join_queue :: "string \<Rightarrow> int \<Rightarrow> redis_queue \<Rightarrow> redis_queue" where
  "join_queue m now q =
     q\<lparr>rq_waiters := zadd_nx now m (rq_waiters q),
       rq_alive := zadd_nx (now + holder_lease_ms) m (rq_alive q)\<rparr>"

definition drop_run :: "string \<Rightarrow> redis_queue \<Rightarrow> redis_queue" where
  "drop_run m q =
     q\<lparr>rq_waiters := zrem m (rq_waiters q), rq_alive := zrem m (rq_alive q),
       rq_holders := zrem m (rq_holders q)\<rparr>"

text \<open>\<^verbatim>\<open>countKey\<close> on the holders and \<^verbatim>\<open>COUNT_WAITERS\<close>.\<close>

definition count_holders :: "int \<Rightarrow> redis_queue \<Rightarrow> redis_queue \<times> nat" where
  "count_holders now q =
     (let q' = q\<lparr>rq_holders := zremrangebyscore now (rq_holders q)\<rparr> in (q', length (rq_holders q')))"

definition count_waiters :: "int \<Rightarrow> redis_queue \<Rightarrow> redis_queue \<times> nat" where
  "count_waiters now q = (let q' = sweep_waiters now q in (q', length (rq_waiters q')))"

definition ranks_of :: "redis_queue \<Rightarrow> string list \<Rightarrow> (string, nat) ordmap" where
  "ranks_of q ms =
     fold (\<lambda>m ps. case zrank (rq_waiters q) m of None \<Rightarrow> ps | Some r \<Rightarrow> om_set m (r + 1) ps) ms []"

section \<open>Slots on Redis\<close>

datatype slot_state = Queued | Running | Parked

datatype acquired = Pending | Resolved | Rejected

text \<open>The closure of \<^verbatim>\<open>redisSlot\<close> (\<^verbatim>\<open>waiting\<close> is \<^const>\<open>Parked\<close> here).\<close>

record slot =
  sl_state :: slot_state
  sl_released :: bool
  sl_acquired :: acquired
  sl_rank :: "nat option"
  sl_renewing :: bool

definition new_slot :: slot where
  "new_slot = \<lparr>sl_state = Queued, sl_released = False, sl_acquired = Pending, sl_rank = None,
     sl_renewing = False\<rparr>"

definition aborted_slot :: slot where
  "aborted_slot = new_slot\<lparr>sl_released := True, sl_acquired := Rejected\<rparr>"

record redis_state =
  rs_queue :: redis_queue
  rs_slots :: "string \<rightharpoonup> slot"
  rs_ticks :: "string list"

definition limit_of :: "nat option \<Rightarrow> nat" where
  "limit_of cap = (case cap of None \<Rightarrow> 1 | Some n \<Rightarrow> n)"

definition put_slot :: "string \<Rightarrow> slot \<Rightarrow> redis_state \<Rightarrow> redis_state" where
  "put_slot r u s = s\<lparr>rs_slots := (rs_slots s)(r \<mapsto> u)\<rparr>"

text \<open>Joining sends the two ZADDs and then the first tick.\<close>

definition redis_enqueue :: "string \<Rightarrow> bool \<Rightarrow> int \<Rightarrow> redis_state \<Rightarrow> redis_state" where
  "redis_enqueue r aborted now s =
     (if rs_slots s r \<noteq> None then s
      else if aborted then put_slot r aborted_slot s
      else (put_slot r new_slot s)\<lparr>rs_queue := join_queue r now (rs_queue s)\<rparr>)"

text \<open>\<^verbatim>\<open>tick\<close> up to its first \<^verbatim>\<open>await\<close>, and from the capacity's answer on.\<close>

definition redis_tick_start :: "string \<Rightarrow> redis_state \<Rightarrow> redis_state" where
  "redis_tick_start r s =
     (case rs_slots s r of
        None \<Rightarrow> s
      | Some u \<Rightarrow> if sl_released u \<or> sl_state u \<noteq> Queued then s else s\<lparr>rs_ticks := rs_ticks s @ [r]\<rparr>)"

definition slot_take :: "slot \<Rightarrow> slot" where
  "slot_take u = u\<lparr>sl_state := Running, sl_acquired := Resolved, sl_rank := None, sl_renewing := True\<rparr>"

definition redis_tick :: "string \<Rightarrow> nat option \<Rightarrow> int \<Rightarrow> redis_state \<Rightarrow> redis_state" where
  "redis_tick r cap now s =
     (if r \<notin> set (rs_ticks s) then s
      else
        let (q, out) = tick now (limit_of cap) holder_lease_ms r (rs_queue s);
            s' = s\<lparr>rs_queue := q, rs_ticks := remove1 r (rs_ticks s)\<rparr>
        in case rs_slots s r of
             None \<Rightarrow> s'
           | Some u \<Rightarrow>
               if sl_released u \<or> sl_state u \<noteq> Queued then s'
               else if tr_held out then put_slot r (slot_take u) s'
               else put_slot r (u\<lparr>sl_rank := map_option Suc (tr_rank out)\<rparr>) s')"

definition redis_renew :: "string \<Rightarrow> int \<Rightarrow> redis_state \<Rightarrow> redis_state" where
  "redis_renew r now s =
     (case rs_slots s r of
        None \<Rightarrow> s
      | Some u \<Rightarrow>
          if sl_renewing u then s\<lparr>rs_queue := renew_holder r (now + holder_lease_ms) (rs_queue s)\<rparr> else s)"

definition redis_park :: "string \<Rightarrow> redis_state \<Rightarrow> redis_state" where
  "redis_park r s =
     (case rs_slots s r of
        None \<Rightarrow> s
      | Some u \<Rightarrow>
          if sl_released u \<or> sl_state u \<noteq> Running then s
          else (put_slot r (u\<lparr>sl_state := Parked, sl_renewing := False\<rparr>) s)
                 \<lparr>rs_queue := (rs_queue s)\<lparr>rq_holders := zrem r (rq_holders (rs_queue s))\<rparr>\<rparr>)"

definition redis_unpark :: "string \<Rightarrow> int \<Rightarrow> redis_state \<Rightarrow> redis_state" where
  "redis_unpark r now s =
     (case rs_slots s r of
        None \<Rightarrow> s
      | Some u \<Rightarrow>
          if sl_released u \<or> sl_state u \<noteq> Parked then s
          else (put_slot r (u\<lparr>sl_state := Running, sl_renewing := True\<rparr>) s)
                 \<lparr>rs_queue := (rs_queue s)\<lparr>rq_holders :=
                    zadd (now + holder_lease_ms) r (rq_holders (rs_queue s))\<rparr>\<rparr>)"

text \<open>\<^verbatim>\<open>release\<close> and the abort listener do the same.\<close>

definition redis_release :: "string \<Rightarrow> redis_state \<Rightarrow> redis_state" where
  "redis_release r s =
     (case rs_slots s r of
        None \<Rightarrow> s
      | Some u \<Rightarrow>
          if sl_released u then s
          else (put_slot r (u\<lparr>sl_released := True, sl_renewing := False,
                   sl_acquired := (if sl_state u = Queued then Rejected else sl_acquired u)\<rparr>) s)
                 \<lparr>rs_queue := drop_run r (rs_queue s)\<rparr>)"

definition redis_count :: "int \<Rightarrow> redis_state \<Rightarrow> redis_state" where
  "redis_count now s = s\<lparr>rs_queue := fst (count_waiters now (fst (count_holders now (rs_queue s))))\<rparr>"

datatype redis_op =
    R_Enqueue string bool
  | R_Tick_Start string
  | R_Tick string "nat option"
  | R_Renew string
  | R_Park string
  | R_Unpark string
  | R_Release string
  | R_Count

fun redis_step :: "redis_op \<times> int \<Rightarrow> redis_state \<Rightarrow> redis_state" where
  "redis_step (R_Enqueue r ab, now) s = redis_enqueue r ab now s"
| "redis_step (R_Tick_Start r, now) s = redis_tick_start r s"
| "redis_step (R_Tick r cap, now) s = redis_tick r cap now s"
| "redis_step (R_Renew r, now) s = redis_renew r now s"
| "redis_step (R_Park r, now) s = redis_park r s"
| "redis_step (R_Unpark r, now) s = redis_unpark r now s"
| "redis_step (R_Release r, now) s = redis_release r s"
| "redis_step (R_Count, now) s = redis_count now s"

definition redis_empty :: redis_state where
  "redis_empty = \<lparr>rs_queue = \<lparr>rq_waiters = [], rq_alive = [], rq_holders = []\<rparr>, rs_slots = Map.empty, rs_ticks = []\<rparr>"

section \<open>Slots in process\<close>

record book =
  lb_holders :: "(string, bool) ordmap"
  lb_waiters :: "string list"

text \<open>\<open>ls_lookups\<close> are the runs whose capacity lookup is under way, \<open>ls_pumps\<close> the number of
  \<^verbatim>\<open>admitLocalWaiters\<close> calls that wait for theirs.\<close>

record local_state =
  ls_book :: book
  ls_slots :: "string \<rightharpoonup> slot"
  ls_lookups :: "string list"
  ls_pumps :: nat

definition active_count :: "book \<Rightarrow> nat" where
  "active_count b = length (filter (\<lambda>(_, parked). \<not> parked) (lb_holders b))"

definition book_take :: "string \<Rightarrow> book \<Rightarrow> book" where
  "book_take r b = b\<lparr>lb_holders := om_set r False (lb_holders b)\<rparr>"

definition local_take :: "string \<Rightarrow> local_state \<Rightarrow> local_state" where
  "local_take r s =
     s\<lparr>ls_book := book_take r (ls_book s),
       ls_slots := (ls_slots s)(r := map_option (\<lambda>u. u\<lparr>sl_state := Running, sl_acquired := Resolved\<rparr>) (ls_slots s r))\<rparr>"

text \<open>The loop of \<^verbatim>\<open>admitLocalWaiters\<close>; each admission removes a waiter.\<close>

function admit_local :: "nat \<Rightarrow> local_state \<Rightarrow> local_state" where
  "admit_local limit s =
     (case lb_waiters (ls_book s) of
        [] \<Rightarrow> s
      | r # rest \<Rightarrow>
          if active_count (ls_book s) < limit
          then admit_local limit (local_take r (s\<lparr>ls_book := (ls_book s)\<lparr>lb_waiters := rest\<rparr>\<rparr>))
          else s)"
  by pat_completeness auto
termination
  by (relation "measure (\<lambda>(_, s). length (lb_waiters (ls_book s)))") (auto simp: local_take_def book_take_def)

declare admit_local.simps [simp del]

text \<open>\<^verbatim>\<open>admitLocalWaiters\<close> (also \<^verbatim>\<open>drainAgentReplyWaiters\<close>) up to its \<^verbatim>\<open>await\<close>.\<close>

definition pump_start :: "local_state \<Rightarrow> local_state" where
  "pump_start s = (if lb_waiters (ls_book s) = [] then s else s\<lparr>ls_pumps := ls_pumps s + 1\<rparr>)"

definition pump_answer :: "nat option \<Rightarrow> local_state \<Rightarrow> local_state" where
  "pump_answer cap s =
     (if ls_pumps s = 0 then s else admit_local (limit_of cap) (s\<lparr>ls_pumps := ls_pumps s - 1\<rparr>))"

definition local_enqueue :: "string \<Rightarrow> bool \<Rightarrow> local_state \<Rightarrow> local_state" where
  "local_enqueue r aborted s =
     (if ls_slots s r \<noteq> None then s
      else if aborted then s\<lparr>ls_slots := (ls_slots s)(r \<mapsto> aborted_slot)\<rparr>
      else s\<lparr>ls_slots := (ls_slots s)(r \<mapsto> new_slot), ls_lookups := ls_lookups s @ [r]\<rparr>)"

definition lookup_answer :: "string \<Rightarrow> nat option \<Rightarrow> local_state \<Rightarrow> local_state" where
  "lookup_answer r cap s =
     (if r \<notin> set (ls_lookups s) then s
      else
        let s' = s\<lparr>ls_lookups := remove1 r (ls_lookups s)\<rparr>
        in case ls_slots s r of
             None \<Rightarrow> s'
           | Some u \<Rightarrow>
               if sl_released u \<or> sl_state u \<noteq> Queued then s'
               else (case cap of
                       None \<Rightarrow> local_take r s'
                     | Some limit \<Rightarrow>
                         if active_count (ls_book s) < limit then local_take r s'
                         else s'\<lparr>ls_book := (ls_book s)\<lparr>lb_waiters := lb_waiters (ls_book s) @ [r]\<rparr>\<rparr>))"

definition local_park :: "string \<Rightarrow> local_state \<Rightarrow> local_state" where
  "local_park r s =
     (case (om_get (lb_holders (ls_book s)) r, ls_slots s r) of
        (Some False, Some u) \<Rightarrow>
          if sl_released u then s
          else pump_start (s\<lparr>ls_book := (ls_book s)\<lparr>lb_holders := om_set r True (lb_holders (ls_book s))\<rparr>,
                             ls_slots := (ls_slots s)(r \<mapsto> u\<lparr>sl_state := Parked\<rparr>)\<rparr>)
      | _ \<Rightarrow> s)"

definition local_unpark :: "string \<Rightarrow> local_state \<Rightarrow> local_state" where
  "local_unpark r s =
     (case (om_get (lb_holders (ls_book s)) r, ls_slots s r) of
        (Some _, Some u) \<Rightarrow>
          if sl_released u then s
          else s\<lparr>ls_book := (ls_book s)\<lparr>lb_holders := om_set r False (lb_holders (ls_book s))\<rparr>,
                 ls_slots := (ls_slots s)(r \<mapsto> u\<lparr>sl_state := Running\<rparr>)\<rparr>
      | _ \<Rightarrow> s)"

text \<open>\<^verbatim>\<open>release\<close> and the abort listener: \<^verbatim>\<open>settle\<close> takes the run out of the line and starts a pump, then
  the holder goes.\<close>

definition local_release :: "string \<Rightarrow> local_state \<Rightarrow> local_state" where
  "local_release r s =
     (case ls_slots s r of
        None \<Rightarrow> s
      | Some u \<Rightarrow>
          if sl_released u then s
          else
            let s1 = pump_start (s\<lparr>ls_book := (ls_book s)\<lparr>lb_waiters := remove1 r (lb_waiters (ls_book s))\<rparr>\<rparr>)
            in s1\<lparr>ls_book := (ls_book s1)\<lparr>lb_holders := om_delete r (lb_holders (ls_book s1))\<rparr>,
                  ls_slots := (ls_slots s)(r \<mapsto> u\<lparr>sl_released := True,
                    sl_acquired := (if sl_state u = Queued then Rejected else sl_acquired u)\<rparr>)\<rparr>)"

datatype local_op =
    L_Enqueue string bool
  | L_Lookup string "nat option"
  | L_Drain
  | L_Pump "nat option"
  | L_Park string
  | L_Unpark string
  | L_Release string

fun local_step :: "local_op \<Rightarrow> local_state \<Rightarrow> local_state" where
  "local_step (L_Enqueue r ab) s = local_enqueue r ab s"
| "local_step (L_Lookup r cap) s = lookup_answer r cap s"
| "local_step L_Drain s = pump_start s"
| "local_step (L_Pump cap) s = pump_answer cap s"
| "local_step (L_Park r) s = local_park r s"
| "local_step (L_Unpark r) s = local_unpark r s"
| "local_step (L_Release r) s = local_release r s"

definition local_empty :: local_state where
  "local_empty = \<lparr>ls_book = \<lparr>lb_holders = [], lb_waiters = []\<rparr>, ls_slots = Map.empty, ls_lookups = [], ls_pumps = 0\<rparr>"

section \<open>Reading the queue\<close>

text \<open>What a pod asks: its in-process book, the states it knows of its own Redis runs, and the Redis queue
  when there is one.\<close>

record slot_view =
  sv_book :: "book option"
  sv_known :: "string \<rightharpoonup> slot_state"
  sv_redis :: "redis_queue option"

fun index_of :: "string \<Rightarrow> string list \<Rightarrow> nat option" where
  "index_of r [] = None"
| "index_of r (x # xs) = (if x = r then Some 0 else map_option Suc (index_of r xs))"

definition held_state :: "slot_view \<Rightarrow> string \<Rightarrow> slot_state option" where
  "held_state v r =
     (case sv_book v of
        None \<Rightarrow> None
      | Some b \<Rightarrow> map_option (\<lambda>parked. if parked then Parked else Running) (om_get (lb_holders b) r))"

definition local_position :: "slot_view \<Rightarrow> string \<Rightarrow> slot_state \<times> nat option" where
  "local_position v r =
     (case (case sv_book v of None \<Rightarrow> None | Some b \<Rightarrow> index_of r (lb_waiters b)) of
        Some i \<Rightarrow> (Queued, Some (i + 1))
      | None \<Rightarrow> (Running, None))"

definition ranked_state :: "(string, nat) ordmap \<Rightarrow> string \<Rightarrow> slot_state \<times> nat option" where
  "ranked_state ps r = (case om_get ps r of Some n \<Rightarrow> (Queued, Some n) | None \<Rightarrow> (Running, None))"

definition agent_reply_slot_state :: "slot_view \<Rightarrow> string \<Rightarrow> slot_state \<times> nat option" where
  "agent_reply_slot_state v r =
     (case held_state v r of
        Some st \<Rightarrow> (st, None)
      | None \<Rightarrow>
          (case sv_redis v of
             None \<Rightarrow> local_position v r
           | Some q \<Rightarrow>
               (case sv_known v r of
                  Some Running \<Rightarrow> (Running, None)
                | Some Parked \<Rightarrow> (Parked, None)
                | _ \<Rightarrow> ranked_state (ranks_of q [r]) r)))"

text \<open>The batched form: one pass over the runs, and one query for those only Redis knows.\<close>

definition batch_run ::
  "slot_view \<Rightarrow> string \<Rightarrow> (string, slot_state \<times> nat option) ordmap \<times> string list
   \<Rightarrow> (string, slot_state \<times> nat option) ordmap \<times> string list" where
  "batch_run v r acc =
     (case acc of (states, unknown) \<Rightarrow>
        (case held_state v r of
           Some st \<Rightarrow> (om_set r (st, None) states, unknown)
         | None \<Rightarrow>
             (case sv_redis v of
                None \<Rightarrow> (om_set r (local_position v r) states, unknown)
              | Some q \<Rightarrow>
                  (case sv_known v r of
                     Some Running \<Rightarrow> (om_set r (Running, None) states, unknown)
                   | Some Parked \<Rightarrow> (om_set r (Parked, None) states, unknown)
                   | _ \<Rightarrow> (states, unknown @ [r])))))"

definition agent_reply_slot_states :: "slot_view \<Rightarrow> string list \<Rightarrow> (string, slot_state \<times> nat option) ordmap" where
  "agent_reply_slot_states v rs =
     (let (states, unknown) = fold (batch_run v) rs ([], [])
      in case sv_redis v of
           None \<Rightarrow> states
         | Some q \<Rightarrow>
             (let ps = ranks_of q unknown
              in fold (\<lambda>r m. om_set r (ranked_state ps r) m) unknown states))"

end
