(* ===== verification/Slot_Queue.thy ===== *)
theory Slot_Queue
  imports Reply_Slots "HOL-Library.Multiset"
begin

text \<open>
  The Redis admission queue of \<^verbatim>\<open>agent-reply-slots.ts\<close>: what a tick admits, the invariant of every run of
  operations, and the properties that follow (first come first served, the limit, no leaked slot, and the
  run that is never admitted once its lease has lapsed).
\<close>

section \<open>Sorted sets\<close>

definition zkeys :: "zset \<Rightarrow> string set" where
  "zkeys z = snd ` set z"

lemma zkeys_Nil [simp]: "zkeys [] = {}"
  by (simp add: zkeys_def)

lemma zkeys_Cons [simp]: "zkeys (p # z) = insert (snd p) (zkeys z)"
  by (simp add: zkeys_def)

lemma zmembers_zrem [simp]: "zmembers (zrem m z) = filter (\<lambda>x. x \<noteq> m) (zmembers z)"
  by (simp add: zrem_def filter_map comp_def)

lemma zscore_None [simp]: "zscore z m = None \<longleftrightarrow> m \<notin> zkeys z"
  by (force simp: zscore_def zkeys_def find_None_iff)

lemma zscore_in: "zscore z m = Some s \<Longrightarrow> (s, m) \<in> set z"
  by (auto simp: zscore_def find_Some_iff) (metis nth_mem snd_conv)

lemma zscore_zrem: "x \<noteq> m \<Longrightarrow> zscore (zrem m z) x = zscore z x"
  by (induction z) (auto simp: zscore_def zrem_def)

lemma set_zadd [simp]: "set (zadd s m z) = insert (s, m) {p \<in> set z. snd p \<noteq> m}"
  by (auto simp: zadd_def zrem_def set_insort_key)

lemma zkeys_zrem [simp]: "zkeys (zrem m z) = zkeys z - {m}"
  by (auto simp: zkeys_def zrem_def)

lemma zkeys_zadd [simp]: "zkeys (zadd s m z) = insert m (zkeys z)"
  by (force simp: zkeys_def image_iff)

lemma zkeys_filter: "zkeys (filter P z) \<subseteq> zkeys z"
  by (auto simp: zkeys_def)

lemma zkeys_filter_snd [simp]: "zkeys (filter (\<lambda>p. P (snd p)) z) = {m \<in> zkeys z. P m}"
  by (force simp: zkeys_def)

lemmas zkeys_lapsed [simp] =
  zkeys_filter_snd [of "\<lambda>m. \<not> lease_lapsed a now m" for a now]
  zkeys_filter_snd [of "\<lambda>m. m \<in> X \<longrightarrow> \<not> lease_lapsed a now m" for X a now]

lemma zkeysI: "(a, m) \<in> set z \<Longrightarrow> m \<in> zkeys z"
  by (force simp: zkeys_def)

lemma zkeys_fold [simp]: "snd ` set z = zkeys z"
  by (simp add: zkeys_def)

lemma zset_ok_Nil [simp]: "zset_ok []"
  by (simp add: zset_ok_def)

lemma zset_ok_tl: "zset_ok (p # z) \<Longrightarrow> zset_ok z"
  by (simp add: zset_ok_def)

lemma zset_ok_filter [simp]: "zset_ok z \<Longrightarrow> zset_ok (filter P z)"
  by (auto simp: zset_ok_def sorted_wrt_filter distinct_map_filter)

lemma zset_ok_zrem [simp]: "zset_ok z \<Longrightarrow> zset_ok (zrem m z)"
  by (simp add: zrem_def)

lemma zset_ok_zadd [simp]: "zset_ok z \<Longrightarrow> zset_ok (zadd s m z)"
proof -
  assume "zset_ok z"
  then have ok: "zset_ok (zrem m z)" by simp
  have "mset (zmembers (insort p w)) = add_mset (snd p) (mset (zmembers w))" for p :: "int \<times> string" and w
    by (induction w) auto
  then have "mset (zmembers (zadd s m z)) = mset (m # zmembers (zrem m z))"
    by (simp add: zadd_def del: zmembers_zrem)
  with ok have "distinct (zmembers (zadd s m z))"
    by (simp add: zset_ok_def flip: mset_eq_imp_distinct_iff [of "m # zmembers (zrem m z)"])
  with ok show ?thesis by (simp add: zset_ok_def zadd_def sorted_insort)
qed

lemma length_zrem: "zset_ok z \<Longrightarrow> length (zrem m z) = length z - (if m \<in> zkeys z then 1 else 0)"
proof -
  assume "zset_ok z"
  then have "length (remove1 m (zmembers z)) = length (filter (\<lambda>x. x \<noteq> m) (zmembers z))"
    by (simp add: zset_ok_def distinct_remove1_removeAll removeAll_filter_not_eq) (metis (mono_tags, lifting))
  then show ?thesis
    by (simp add: length_remove1 flip: zmembers_zrem split: if_splits)
qed

lemma length_zadd:
  assumes "zset_ok z"
  shows "length (zadd s m z) = (if m \<in> zkeys z then length z else length z + 1)"
proof -
  have "length z \<noteq> 0" if "m \<in> zkeys z" using that by auto
  then show ?thesis using length_zrem [OF assms, of m] by (simp add: zadd_def)
qed

lemma zrem_head: "zset_ok ((s, h) # z) \<Longrightarrow> zrem h ((s, h) # z) = z"
  by (auto simp: zset_ok_def zrem_def filter_id_conv dest: zkeysI)

lemma zrank_None [simp]: "zrank z m = None \<longleftrightarrow> m \<notin> zkeys z"
  by (induction z m rule: zrank.induct) auto

section \<open>The sweep\<close>

definition live :: "redis_queue \<Rightarrow> int \<Rightarrow> zset" where
  "live q now = filter (\<lambda>p. \<not> lease_lapsed (rq_alive q) now (snd p)) (rq_waiters q)"

lemma lapsed_zrem: "x \<noteq> m \<Longrightarrow> lease_lapsed (zrem m a) now x \<longleftrightarrow> lease_lapsed a now x"
  by (simp add: lease_lapsed_def zscore_zrem)

lemma sweep_members:
  "distinct ms \<Longrightarrow> fold (sweep_waiter now) ms q =
     q\<lparr>rq_waiters := filter (\<lambda>p. \<not> (snd p \<in> set ms \<and> lease_lapsed (rq_alive q) now (snd p))) (rq_waiters q),
       rq_alive := filter (\<lambda>p. \<not> (snd p \<in> set ms \<and> lease_lapsed (rq_alive q) now (snd p))) (rq_alive q)\<rparr>"
proof (induction ms arbitrary: q)
  case Nil
  show ?case by simp
next
  case (Cons m ms)
  let ?q = "sweep_waiter now m q"
  have lapse: "lease_lapsed (rq_alive ?q) now x \<longleftrightarrow> lease_lapsed (rq_alive q) now x" if "x \<in> set ms" for x
  proof -
    have "x \<noteq> m" using that Cons.prems by auto
    then show ?thesis by (simp add: sweep_waiter_def lapsed_zrem)
  qed
  have *: "filter (\<lambda>p. \<not> (snd p \<in> set ms \<and> lease_lapsed (rq_alive ?q) now (snd p))) z
      = filter (\<lambda>p. \<not> (snd p \<in> set ms \<and> lease_lapsed (rq_alive q) now (snd p))) z" for z :: zset
    by (rule filter_cong) (use lapse in auto)
  show ?case
  proof (cases "lease_lapsed (rq_alive q) now m")
    case True
    have "filter (\<lambda>p. \<not> (snd p \<in> set ms \<and> lease_lapsed (rq_alive q) now (snd p))) (zrem m z)
        = filter (\<lambda>p. \<not> (snd p \<in> set (m # ms) \<and> lease_lapsed (rq_alive q) now (snd p))) z" for z
      unfolding zrem_def filter_filter by (rule filter_cong) (use True in auto)
    with Cons.IH [of ?q] Cons.prems True show ?thesis unfolding * by (simp add: sweep_waiter_def)
  next
    case False
    have "filter (\<lambda>p. \<not> (snd p \<in> set ms \<and> lease_lapsed (rq_alive q) now (snd p))) z
        = filter (\<lambda>p. \<not> (snd p \<in> set (m # ms) \<and> lease_lapsed (rq_alive q) now (snd p))) z" for z :: zset
      by (rule filter_cong) (use False in auto)
    with Cons.IH [of ?q] Cons.prems False show ?thesis unfolding * by (simp add: sweep_waiter_def)
  qed
qed

lemma sweep_waiters_spec:
  assumes "zset_ok (rq_waiters q)"
  shows "rq_waiters (sweep_waiters now q) = live q now"
    "rq_alive (sweep_waiters now q) = filter (\<lambda>p. \<not> (snd p \<in> zkeys (rq_waiters q)
       \<and> lease_lapsed (rq_alive q) now (snd p))) (rq_alive q)"
    "rq_holders (sweep_waiters now q) = rq_holders q"
proof -
  have d: "distinct (zmembers (rq_waiters q))" using assms by (simp add: zset_ok_def)
  show "rq_waiters (sweep_waiters now q) = live q now"
    unfolding sweep_waiters_def sweep_members [OF d] live_def by (auto intro!: filter_cong dest: zkeysI)
qed (use assms in \<open>simp_all add: sweep_waiters_def sweep_members zset_ok_def\<close>)

section \<open>Admission\<close>

definition queue_ok :: "redis_queue \<Rightarrow> bool" where
  "queue_ok q \<longleftrightarrow> zset_ok (rq_waiters q) \<and> zset_ok (rq_alive q) \<and> zset_ok (rq_holders q)
     \<and> zkeys (rq_waiters q) \<inter> zkeys (rq_holders q) = {}
     \<and> zkeys (rq_alive q) \<subseteq> zkeys (rq_waiters q)"

lemma tick_admit_spec:
  assumes "queue_ok q" and "tick_admit e n r q = (q', r')"
  shows "queue_ok q' \<and> rq_waiters q' = drop (n - r) (rq_waiters q)
    \<and> r' = r + min (n - r) (length (rq_waiters q))
    \<and> length (rq_holders q') = length (rq_holders q) + min (n - r) (length (rq_waiters q))
    \<and> set (rq_holders q') = set (rq_holders q) \<union> (\<lambda>p. (e, snd p)) ` set (take (n - r) (rq_waiters q))"
  using assms
proof (induction e n r q arbitrary: q' r' rule: tick_admit.induct)
  case (1 e n r q)
  show ?case
  proof (cases "r < n \<and> rq_waiters q \<noteq> []")
    case False
    with 1(2,3) have "q' = q" "r' = r" by (auto simp: tick_admit.simps [of e n r q] split: list.splits if_splits)
    with False 1(2) show ?thesis by auto
  next
    case True
    then obtain s h z where w: "rq_waiters q = (s, h) # z" by (cases "rq_waiters q") auto
    define q1 where "q1 = q\<lparr>rq_waiters := zrem h (rq_waiters q), rq_alive := zrem h (rq_alive q),
      rq_holders := zadd e h (rq_holders q)\<rparr>"
    have ok: "zset_ok ((s, h) # z)" and disj: "h \<notin> zkeys (rq_holders q)"
      using 1(2) w by (auto simp: queue_ok_def)
    have w1: "rq_waiters q1 = z" using w zrem_head [OF ok] by (simp add: q1_def)
    have hz: "h \<notin> snd ` set z" using ok by (simp add: zset_ok_def)
    have "queue_ok q1"
      using 1(2) w hz zset_ok_tl [OF ok] zrem_head [OF ok] by (auto simp: queue_ok_def q1_def)
    moreover have "tick_admit e n (r + 1) q1 = (q', r')"
      using 1(3) True by (simp add: tick_admit.simps [of e n r q] w q1_def)
    ultimately have IH: "queue_ok q' \<and> rq_waiters q' = drop (n - (r + 1)) (rq_waiters q1)
      \<and> r' = (r + 1) + min (n - (r + 1)) (length (rq_waiters q1))
      \<and> length (rq_holders q') = length (rq_holders q1) + min (n - (r + 1)) (length (rq_waiters q1))
      \<and> set (rq_holders q') = set (rq_holders q1) \<union> (\<lambda>p. (e, snd p)) ` set (take (n - (r + 1)) (rq_waiters q1))"
      using 1(1) True w by (simp add: q1_def)
    have n: "n - r = Suc (n - (r + 1))" using True by linarith
    have hold: "length (rq_holders q1) = Suc (length (rq_holders q))"
      using 1(2) disj by (simp add: q1_def queue_ok_def length_zadd)
    have "{p \<in> set (rq_holders q). snd p \<noteq> h} = set (rq_holders q)" using disj by (auto dest: zkeysI)
    then have "set (rq_holders q1) = insert (e, h) (set (rq_holders q))" by (simp add: q1_def)
    with IH w1 w hold show ?thesis unfolding n by auto
  qed
qed

interpretation redis_queue: admission_queue queue_ok "\<lambda>q. zmembers (rq_waiters q)" "\<lambda>q. length (rq_holders q)"
  "\<lambda>n q. fst (tick_admit e n (length (rq_holders q)) q)" for e
proof
  fix s n
  assume ok: "queue_ok s"
  obtain q r where t: "tick_admit e n (length (rq_holders s)) s = (q, r)" by fastforce
  note spec = tick_admit_spec [OF ok t]
  show "queue_ok (fst (tick_admit e n (length (rq_holders s)) s))" using spec t by simp
  show "zmembers (rq_waiters (fst (tick_admit e n (length (rq_holders s)) s)))
      = drop (n - length (rq_holders s)) (zmembers (rq_waiters s))"
    using spec t by (simp add: drop_map)
  show "length (rq_holders (fst (tick_admit e n (length (rq_holders s)) s)))
      = length (rq_holders s) + min (n - length (rq_holders s)) (length (zmembers (rq_waiters s)))"
    using spec t by simp
qed

lemma queue_ok_parts:
  assumes "queue_ok q"
  shows "zset_ok (rq_waiters q)" "zset_ok (rq_alive q)" "zset_ok (rq_holders q)"
    "zkeys (rq_waiters q) \<inter> zkeys (rq_holders q) = {}"
    "zkeys (rq_alive q) \<subseteq> zkeys (rq_waiters q)"
  using assms by (simp_all add: queue_ok_def)

lemma sweep_ok: "queue_ok q \<Longrightarrow> queue_ok (sweep_waiters now q)"
  unfolding queue_ok_def
  by (auto simp: sweep_waiters_spec queue_ok_def live_def)

lemma expire_ok: "queue_ok q \<Longrightarrow> queue_ok (q\<lparr>rq_holders := zremrangebyscore now (rq_holders q)\<rparr>)"
  by (auto simp: queue_ok_def zremrangebyscore_def dest: subsetD [OF zkeys_filter])

lemma live_expire [simp]: "live (q\<lparr>rq_holders := h\<rparr>) now = live q now"
  by (simp add: live_def)

lemma tick_spec:
  assumes ok: "queue_ok q" and t: "tick now n lease me q = (q', out)"
  defines "held \<equiv> zremrangebyscore now (rq_holders q)"
  shows "queue_ok q' \<and> rq_waiters q' = drop (n - length held) (live q now)
    \<and> set (rq_holders q') = set held \<union> (\<lambda>p. (now + lease, snd p)) ` set (take (n - length held) (live q now))
    \<and> length (rq_holders q') = length held + min (n - length held) (length (live q now))
    \<and> (tr_held out \<longleftrightarrow> me \<in> zkeys (rq_holders q')) \<and> tr_rank out = zrank (rq_waiters q') me
    \<and> tr_running out = length (rq_holders q') \<and> tr_queued out = length (rq_waiters q')"
proof -
  define q1 where "q1 = sweep_waiters now (q\<lparr>rq_holders := held\<rparr>)"
  define q2 where "q2 = (if zscore (rq_waiters q1) me = None then q1
    else q1\<lparr>rq_alive := zadd (now + lease) me (rq_alive q1)\<rparr>)"
  have ok1: "queue_ok q1" unfolding q1_def held_def by (intro sweep_ok expire_ok ok)
  then have ok2: "queue_ok q2" by (auto simp: q2_def queue_ok_def)
  have zw: "zset_ok (rq_waiters (q\<lparr>rq_holders := held\<rparr>))" using queue_ok_parts [OF ok] by simp
  have w2: "rq_waiters q2 = live q now" and h2: "rq_holders q2 = held"
    using sweep_waiters_spec [OF zw] by (simp_all add: q2_def q1_def)
  obtain q3 r where a: "tick_admit (now + lease) n (length (rq_holders q2)) q2 = (q3, r)" by fastforce
  have "q' = q3" and out: "out = \<lparr>tr_held = zscore (rq_holders q3) me \<noteq> None, tr_rank = zrank (rq_waiters q3) me,
      tr_running = r, tr_queued = length (rq_waiters q3)\<rparr>"
    using t a by (auto simp: tick_def Let_def q1_def q2_def held_def split: if_splits)
  with tick_admit_spec [OF ok2 a] show ?thesis by (simp add: w2 h2)
qed

section \<open>The invariant of a run\<close>

definition slot_ok :: "slot \<Rightarrow> bool" where
  "slot_ok u \<longleftrightarrow> (sl_renewing u \<longrightarrow> \<not> sl_released u \<and> sl_state u = Running)
     \<and> (sl_acquired u = Resolved \<longleftrightarrow> sl_state u \<noteq> Queued)
     \<and> (sl_acquired u = Rejected \<longleftrightarrow> sl_released u \<and> sl_state u = Queued)"

definition redis_ok :: "redis_state \<Rightarrow> bool" where
  "redis_ok s \<longleftrightarrow> queue_ok (rs_queue s)
     \<and> (\<forall>r \<in> zkeys (rq_waiters (rs_queue s)).
          \<exists>u. rs_slots s r = Some u \<and> \<not> sl_released u \<and> sl_state u = Queued)
     \<and> (\<forall>r \<in> zkeys (rq_holders (rs_queue s)).
          \<exists>u. rs_slots s r = Some u \<and> \<not> sl_released u \<and> sl_state u \<noteq> Parked)
     \<and> (\<forall>r u. rs_slots s r = Some u \<longrightarrow> slot_ok u)"

lemma redis_okD:
  assumes "redis_ok s"
  shows "queue_ok (rs_queue s)"
    "r \<in> zkeys (rq_waiters (rs_queue s)) \<Longrightarrow>
       \<exists>u. rs_slots s r = Some u \<and> \<not> sl_released u \<and> sl_state u = Queued"
    "r \<in> zkeys (rq_holders (rs_queue s)) \<Longrightarrow>
       \<exists>u. rs_slots s r = Some u \<and> \<not> sl_released u \<and> sl_state u \<noteq> Parked"
    "rs_slots s r = Some u \<Longrightarrow> slot_ok u"
  using assms by (auto simp: redis_ok_def)

lemma redis_empty_ok: "redis_ok redis_empty"
  by (simp add: redis_ok_def redis_empty_def queue_ok_def)

lemma enqueue_ok: "redis_ok s \<Longrightarrow> redis_ok (redis_enqueue r ab now s)"
proof (cases "rs_slots s r = None \<and> \<not> ab")
  case True
  assume ok: "redis_ok s"
  note q = queue_ok_parts [OF redis_okD(1) [OF ok]]
  have "r \<notin> zkeys (rq_waiters (rs_queue s))" "r \<notin> zkeys (rq_holders (rs_queue s))"
    "r \<notin> zkeys (rq_alive (rs_queue s))"
    using redis_okD(2,3) [OF ok, of r] q(5) True by auto
  with True q ok show ?thesis
    by (auto simp: redis_enqueue_def put_slot_def join_queue_def zadd_nx_def redis_ok_def queue_ok_def
        slot_ok_def new_slot_def)
next
  case False
  assume ok: "redis_ok s"
  with False show ?thesis
    by (auto simp: redis_enqueue_def put_slot_def redis_ok_def slot_ok_def aborted_slot_def new_slot_def)
qed

lemma tick_members:
  assumes "queue_ok q" and "tick now n lease me q = (q', out)"
  shows "zkeys (rq_waiters q') \<subseteq> zkeys (rq_waiters q)"
    "zkeys (rq_holders q') \<subseteq> zkeys (rq_holders q) \<union> zkeys (rq_waiters q)"
proof -
  let ?k = "n - length (zremrangebyscore now (rq_holders q))"
  note spec = tick_spec [OF assms]
  have live: "zkeys (live q now) \<subseteq> zkeys (rq_waiters q)" by (auto simp: live_def)
  have "zkeys (drop ?k (live q now)) \<subseteq> zkeys (live q now)" "zkeys (take ?k (live q now)) \<subseteq> zkeys (live q now)"
    unfolding zkeys_def by (intro image_mono set_drop_subset set_take_subset)+
  moreover have "zkeys (rq_holders q') = zkeys (zremrangebyscore now (rq_holders q)) \<union> zkeys (take ?k (live q now))"
    using spec unfolding zkeys_def by (auto simp: image_Un image_image simp del: zkeys_fold)
  moreover have "zkeys (zremrangebyscore now (rq_holders q)) \<subseteq> zkeys (rq_holders q)"
    unfolding zremrangebyscore_def by (rule zkeys_filter)
  ultimately show "zkeys (rq_waiters q') \<subseteq> zkeys (rq_waiters q)"
    "zkeys (rq_holders q') \<subseteq> zkeys (rq_holders q) \<union> zkeys (rq_waiters q)"
    using spec live by auto
qed

lemma redis_tick_ok:
  assumes ok: "redis_ok s"
  shows "redis_ok (redis_tick r cap now s)"
proof (cases "r \<in> set (rs_ticks s)")
  case True
  obtain q out where t: "tick now (limit_of cap) holder_lease_ms r (rs_queue s) = (q, out)" by fastforce
  note spec = tick_spec [OF redis_okD(1) [OF ok] t] and mem = tick_members [OF redis_okD(1) [OF ok] t]
  define s' where "s' = s\<lparr>rs_queue := q, rs_ticks := remove1 r (rs_ticks s)\<rparr>"
  have ok': "redis_ok s'"
    unfolding redis_ok_def
  proof (intro conjI ballI allI impI)
    show "queue_ok (rs_queue s')" using spec by (simp add: s'_def)
    show "\<exists>u. rs_slots s' x = Some u \<and> \<not> sl_released u \<and> sl_state u = Queued"
      if "x \<in> zkeys (rq_waiters (rs_queue s'))" for x
      using that mem(1) redis_okD(2) [OF ok, of x] by (auto simp: s'_def)
    show "\<exists>u. rs_slots s' x = Some u \<and> \<not> sl_released u \<and> sl_state u \<noteq> Parked"
      if "x \<in> zkeys (rq_holders (rs_queue s'))" for x
    proof -
      from that mem(2) have "x \<in> zkeys (rq_holders (rs_queue s)) \<or> x \<in> zkeys (rq_waiters (rs_queue s))"
        by (auto simp: s'_def)
      then show ?thesis using redis_okD(2,3) [OF ok, of x] by (auto simp: s'_def)
    qed
  qed (use redis_okD(4) [OF ok] in \<open>auto simp: s'_def\<close>)
  show ?thesis
  proof (cases "rs_slots s r")
    case None
    with True t ok' show ?thesis by (simp add: redis_tick_def s'_def)
  next
    case (Some u)
    have su: "slot_ok u" using redis_okD(4) [OF ok Some] .
    have held: "tr_held out \<longleftrightarrow> r \<in> zkeys (rq_holders q)" using spec by blast
    have disj: "r \<notin> zkeys (rq_waiters q)" if "tr_held out"
      using that held queue_ok_parts(4) [of q] spec by blast
    show ?thesis
    proof (cases "sl_released u \<or> sl_state u \<noteq> Queued")
      case True
      with \<open>r \<in> set (rs_ticks s)\<close> t Some ok' show ?thesis by (simp add: redis_tick_def s'_def)
    next
      case False
      have "redis_ok (put_slot r (slot_take u) s')" if "tr_held out"
        using ok' False su disj [OF that] unfolding redis_ok_def
        by (auto simp: put_slot_def slot_take_def slot_ok_def s'_def)
      moreover have "redis_ok (put_slot r (u\<lparr>sl_rank := v\<rparr>) s')" for v
        using ok' False su Some unfolding redis_ok_def
        by (auto simp: put_slot_def slot_ok_def s'_def)
      ultimately show ?thesis
        using \<open>r \<in> set (rs_ticks s)\<close> t Some False by (simp add: redis_tick_def s'_def [symmetric])
    qed
  qed
qed (simp add: redis_tick_def ok)

lemma redis_slot_op_ok:
  assumes ok: "redis_ok s"
  shows "redis_ok (redis_renew r now s)" "redis_ok (redis_park r s)" "redis_ok (redis_unpark r now s)"
    "redis_ok (redis_release r s)"
proof -
  note q = queue_ok_parts [OF redis_okD(1) [OF ok]]
  have h: "insert r (zkeys (rq_holders (rs_queue s))) = zkeys (rq_holders (rs_queue s))"
    if "r \<in> zkeys (rq_holders (rs_queue s))" using that by blast
  show "redis_ok (redis_renew r now s)"
    using ok q h unfolding redis_renew_def renew_holder_def redis_ok_def queue_ok_def
    by (auto split: option.splits simp del: set_map simp: set_map [symmetric])
  have w: "r \<notin> zkeys (rq_waiters (rs_queue s))" if "rs_slots s r = Some u" "sl_state u \<noteq> Queued" for u
    using redis_okD(2) [OF ok, of r] that by auto
  show "redis_ok (redis_park r s)"
    using ok q w unfolding redis_park_def put_slot_def redis_ok_def queue_ok_def
    by (auto simp: slot_ok_def split: option.splits)
  show "redis_ok (redis_unpark r now s)"
    using ok q w unfolding redis_unpark_def put_slot_def redis_ok_def queue_ok_def
    by (auto simp: slot_ok_def split: option.splits)
  show "redis_ok (redis_release r s)"
    using ok q unfolding redis_release_def put_slot_def drop_run_def redis_ok_def queue_ok_def
    by (auto simp: slot_ok_def split: option.splits)
qed

lemma redis_count_ok:
  assumes ok: "redis_ok s"
  shows "redis_ok (redis_count now s)"
proof -
  define q where "q = (rs_queue s)\<lparr>rq_holders := zremrangebyscore now (rq_holders (rs_queue s))\<rparr>"
  have q: "queue_ok q" unfolding q_def by (rule expire_ok [OF redis_okD(1) [OF ok]])
  have c: "rs_queue (redis_count now s) = sweep_waiters now q" "rs_slots (redis_count now s) = rs_slots s"
    by (simp_all add: redis_count_def count_waiters_def count_holders_def Let_def q_def)
  have "zkeys (rq_waiters (sweep_waiters now q)) \<subseteq> zkeys (rq_waiters (rs_queue s))"
    using sweep_waiters_spec [OF queue_ok_parts(1) [OF q]] by (auto simp: live_def q_def)
  moreover have "zkeys (rq_holders (sweep_waiters now q)) \<subseteq> zkeys (rq_holders (rs_queue s))"
    using sweep_waiters_spec [OF queue_ok_parts(1) [OF q]]
    by (auto simp: q_def zremrangebyscore_def dest: subsetD [OF zkeys_filter])
  ultimately show ?thesis
    using ok sweep_ok [OF q] unfolding redis_ok_def c by blast
qed

lemma redis_step_ok: "redis_ok s \<Longrightarrow> redis_ok (redis_step e s)"
  by (cases "(e, s)" rule: redis_step.cases)
    (auto simp: enqueue_ok redis_tick_ok redis_slot_op_ok redis_count_ok,
     simp add: redis_tick_start_def redis_ok_def split: option.splits)

interpretation redis_slots: machine redis_step redis_ok
  by unfold_locales (rule redis_step_ok)

lemma redis_reachable: "redis_ok (fold redis_step es redis_empty)"
  by (rule redis_slots.run_inv [OF redis_empty_ok])

text \<open>A released run stays released.\<close>

definition run_released :: "string \<Rightarrow> redis_state \<Rightarrow> bool" where
  "run_released r s \<longleftrightarrow> (\<exists>u. rs_slots s r = Some u \<and> sl_released u)"

interpretation released: latching_machine redis_step redis_ok "run_released r" for r
proof
  fix s e
  assume "redis_ok s" and rel: "run_released r s"
  then show "run_released r (redis_step e s)"
    by (cases "(e, s)" rule: redis_step.cases)
      (auto simp: run_released_def redis_enqueue_def redis_tick_start_def redis_tick_def redis_renew_def
        redis_park_def redis_unpark_def redis_release_def redis_count_def put_slot_def Let_def aborted_slot_def
        slot_take_def split: option.splits prod.splits)
qed

text \<open>A run that waits in no set: it is still queued, and no tick can find it.\<close>

definition run_lost :: "string \<Rightarrow> redis_state \<Rightarrow> bool" where
  "run_lost r s \<longleftrightarrow> (\<exists>u. rs_slots s r = Some u \<and> sl_state u = Queued)
     \<and> r \<notin> zkeys (rq_waiters (rs_queue s)) \<and> r \<notin> zkeys (rq_holders (rs_queue s))"

interpretation lost: latching_machine redis_step redis_ok "run_lost r" for r
proof
  fix s :: redis_state and e :: "redis_op \<times> int"
  assume ok: "redis_ok s" and l: "run_lost r s"
  obtain op now where e: "e = (op, now)" by (cases e)
  from l obtain u where u: "rs_slots s r = Some u" "sl_state u = Queued" "\<not> sl_renewing u"
    and nw: "r \<notin> zkeys (rq_waiters (rs_queue s))" and nh: "r \<notin> zkeys (rq_holders (rs_queue s))"
    using redis_okD(4) [OF ok] by (fastforce simp: run_lost_def slot_ok_def)
  show "run_lost r (redis_step e s)"
  proof (cases op)
    case (R_Tick x cap)
    obtain q out where t: "tick now (limit_of cap) holder_lease_ms x (rs_queue s) = (q, out)" by fastforce
    note mem = tick_members [OF redis_okD(1) [OF ok] t] and spec = tick_spec [OF redis_okD(1) [OF ok] t]
    from mem nw nh have "r \<notin> zkeys (rq_waiters q)" "r \<notin> zkeys (rq_holders q)" by auto
    moreover from this spec have "x = r \<Longrightarrow> \<not> tr_held out" by simp
    ultimately show ?thesis
      using u nw nh t
      by (auto simp: e R_Tick run_lost_def redis_tick_def Let_def put_slot_def split: option.splits)
  next
    case R_Count
    define q where "q = (rs_queue s)\<lparr>rq_holders := zremrangebyscore now (rq_holders (rs_queue s))\<rparr>"
    have "queue_ok q" unfolding q_def by (rule expire_ok [OF redis_okD(1) [OF ok]])
    from sweep_waiters_spec [OF queue_ok_parts(1) [OF this], of now] nw nh u show ?thesis
      by (auto simp: e R_Count run_lost_def redis_count_def count_waiters_def count_holders_def Let_def live_def
          q_def zremrangebyscore_def dest: subsetD [OF zkeys_filter])
  qed (use u nw nh in \<open>auto simp: e run_lost_def redis_enqueue_def redis_tick_start_def redis_renew_def
      renew_holder_def redis_park_def redis_unpark_def redis_release_def put_slot_def join_queue_def
      zadd_nx_def drop_run_def split: option.splits\<close>)
qed

section \<open>Properties\<close>

text \<open>C26: first come, first served, and no slot idles. A tick in any reachable state admits the live waiters
  at the head of the line, in order, exactly as many as fit under the limit; afterwards either nobody waits
  or the limit is reached, every holder's lease is in the future, and so is every waiter's.\<close>

theorem tick_first_come_first_served:
  assumes "s = fold redis_step es redis_empty" and "tick now n holder_lease_ms me (rs_queue s) = (q, out)"
  shows "\<exists>admitted. live (rs_queue s) now = admitted @ rq_waiters q \<and> sorted (admitted @ rq_waiters q)
    \<and> zkeys (rq_holders q) = zkeys (zremrangebyscore now (rq_holders (rs_queue s))) \<union> zkeys admitted
    \<and> length (rq_holders q) \<le> max n (length (zremrangebyscore now (rq_holders (rs_queue s))))
    \<and> (rq_waiters q = [] \<or> n \<le> length (rq_holders q))
    \<and> (\<forall>p \<in> set (rq_holders q). now < fst p)
    \<and> (tr_held out \<longleftrightarrow> me \<in> zkeys (rq_holders q)) \<and> tr_rank out = zrank (rq_waiters q) me"
proof -
  have ok: "queue_ok (rs_queue s)" using redis_okD(1) [OF redis_reachable] by (simp add: assms(1))
  let ?k = "n - length (zremrangebyscore now (rq_holders (rs_queue s)))"
  note spec = tick_spec [OF ok assms(2)]
  have "sorted (live (rs_queue s) now)"
    using queue_ok_parts(1) [OF ok] by (simp add: live_def zset_ok_def sorted_wrt_filter)
  moreover have "zkeys (rq_holders q) = zkeys (zremrangebyscore now (rq_holders (rs_queue s)))
      \<union> zkeys (take ?k (live (rs_queue s) now))"
    using spec unfolding zkeys_def by (auto simp: image_Un image_image simp del: zkeys_fold)
  moreover have "0 < holder_lease_ms" by (simp add: holder_lease_ms_def)
  then have "\<forall>p \<in> set (rq_holders q). now < fst p" using spec by (auto simp: zremrangebyscore_def)
  moreover have "rq_waiters q = [] \<or> n \<le> length (rq_holders q)" using spec by auto
  moreover have "length (rq_holders q) \<le> max n (length (zremrangebyscore now (rq_holders (rs_queue s))))"
    using spec by auto
  ultimately show ?thesis
    using spec by (intro exI [of _ "take ?k (live (rs_queue s) now)"]) simp
qed

definition is_unpark :: "redis_op \<times> int \<Rightarrow> bool" where
  "is_unpark e \<longleftrightarrow> (case e of (R_Unpark r, _) \<Rightarrow> True | _ \<Rightarrow> False)"

definition tick_limit_le :: "nat \<Rightarrow> redis_op \<times> int \<Rightarrow> bool" where
  "tick_limit_le n e \<longleftrightarrow> (case e of (R_Tick r cap, _) \<Rightarrow> limit_of cap \<le> n | _ \<Rightarrow> True)"

lemma step_holders:
  assumes ok: "redis_ok s" and lim: "tick_limit_le n e"
  shows "length (rq_holders (rs_queue (redis_step e s)))
    \<le> max n (length (rq_holders (rs_queue s)) + (if is_unpark e then 1 else 0))"
proof -
  obtain op now where e: "e = (op, now)" by (cases e)
  note z = queue_ok_parts(3) [OF redis_okD(1) [OF ok]]
  have shrink: "length (zremrangebyscore now h) \<le> length h" for h by (simp add: zremrangebyscore_def)
  have rem: "length (zrem r h) \<le> length h" for r h by (simp add: zrem_def)
  show ?thesis
  proof (cases op)
    case (R_Tick x cap)
    obtain q out where t: "tick now (limit_of cap) holder_lease_ms x (rs_queue s) = (q, out)" by fastforce
    from tick_spec [OF redis_okD(1) [OF ok] t] lim shrink [of "rq_holders (rs_queue s)"]
    have "length (rq_holders q) \<le> max n (length (rq_holders (rs_queue s)))"
      by (auto simp: tick_limit_le_def e R_Tick)
    with t show ?thesis
      by (auto simp: e R_Tick redis_tick_def Let_def put_slot_def is_unpark_def split: option.splits)
  next
    case R_Count
    define q where "q = (rs_queue s)\<lparr>rq_holders := zremrangebyscore now (rq_holders (rs_queue s))\<rparr>"
    have "queue_ok q" unfolding q_def by (rule expire_ok [OF redis_okD(1) [OF ok]])
    from sweep_waiters_spec(3) [OF queue_ok_parts(1) [OF this], of now] shrink [of "rq_holders (rs_queue s)"]
    show ?thesis
      by (simp add: e R_Count redis_count_def count_waiters_def count_holders_def Let_def q_def is_unpark_def)
  next
    case (R_Park x)
    with rem [of x "rq_holders (rs_queue s)"] show ?thesis
      by (auto simp: e redis_park_def put_slot_def is_unpark_def split: option.splits)
  next
    case (R_Release x)
    with rem [of x "rq_holders (rs_queue s)"] show ?thesis
      by (auto simp: e redis_release_def drop_run_def put_slot_def is_unpark_def split: option.splits)
  qed (use z in \<open>auto simp: e redis_enqueue_def redis_tick_start_def redis_renew_def renew_holder_def
      redis_unpark_def put_slot_def join_queue_def length_zadd is_unpark_def split: option.splits\<close>)
qed

text \<open>C27: the concurrency limit. If every tick of a run reads a limit of at most \<open>n\<close>, the slots held never
  exceed \<open>n\<close> but for the parked runs that came back, which take theirs without waiting in line.\<close>

theorem redis_slot_limit:
  assumes "\<forall>e \<in> set es. tick_limit_le n e"
  shows "length (rq_holders (rs_queue (fold redis_step es redis_empty))) \<le> n + length (filter is_unpark es)"
proof -
  have "length (rq_holders (rs_queue (fold redis_step es s)))
      \<le> max n (length (rq_holders (rs_queue s))) + length (filter is_unpark es)"
    if "redis_ok s" and "\<forall>e \<in> set es. tick_limit_le n e" for s
    using that
  proof (induction es arbitrary: s)
    case (Cons e es)
    have "length (rq_holders (rs_queue (fold redis_step es (redis_step e s))))
        \<le> max n (length (rq_holders (rs_queue (redis_step e s)))) + length (filter is_unpark es)"
      by (rule Cons.IH) (use Cons.prems redis_step_ok in auto)
    moreover have "length (rq_holders (rs_queue (redis_step e s)))
        \<le> max n (length (rq_holders (rs_queue s)) + (if is_unpark e then 1 else 0))"
      by (rule step_holders) (use Cons.prems in auto)
    ultimately show ?case by (auto split: if_splits)
  qed simp
  from this [OF redis_empty_ok assms] show ?thesis by (simp add: redis_empty_def)
qed

text \<open>No slot leaks. Once a run is released or aborted, in any reachable state, it waits nowhere and
  holds nothing, and it stays so whatever ticks, renewals or unparks of it are still under way.\<close>

theorem released_run_holds_nothing:
  assumes "s = fold redis_step es redis_empty" and "run_released r s"
  shows "run_released r (fold redis_step fs s) \<and> r \<notin> zkeys (rq_waiters (rs_queue (fold redis_step fs s)))
    \<and> r \<notin> zkeys (rq_alive (rs_queue (fold redis_step fs s)))
    \<and> r \<notin> zkeys (rq_holders (rs_queue (fold redis_step fs s)))"
proof -
  have ok: "redis_ok s" unfolding assms(1) by (rule redis_reachable)
  have ok': "redis_ok (fold redis_step fs s)" by (rule redis_slots.run_inv [OF ok])
  have rel: "run_released r (fold redis_step fs s)" by (rule released.run_latched [OF ok assms(2)])
  then have "r \<notin> zkeys (rq_waiters (rs_queue (fold redis_step fs s)))"
    "r \<notin> zkeys (rq_holders (rs_queue (fold redis_step fs s)))"
    using redis_okD(2,3) [OF ok', of r] by (auto simp: run_released_def)
  with rel queue_ok_parts(5) [OF redis_okD(1) [OF ok']] show ?thesis by auto
qed

text \<open>A swept waiter never gets in. A run whose lease lapsed while it was queued (its pod stalled, or
  Redis was unreachable, for longer than a lease) is in no set any more; nothing puts it back, so it stays
  queued and its \<^verbatim>\<open>acquired\<close> promise never resolves, however often it polls.\<close>

theorem lost_waiter_never_admitted:
  assumes "s = fold redis_step es redis_empty" and "run_lost r s"
  shows "run_lost r (fold redis_step fs s)
    \<and> sl_acquired (the (rs_slots (fold redis_step fs s) r)) \<noteq> Resolved"
proof -
  have ok: "redis_ok s" unfolding assms(1) by (rule redis_reachable)
  have "run_lost r (fold redis_step fs s)" by (rule lost.run_latched [OF ok assms(2)])
  moreover from this redis_okD(4) [OF redis_slots.run_inv [OF ok, of fs], of r]
  have "sl_acquired (the (rs_slots (fold redis_step fs s) r)) \<noteq> Resolved"
    by (fastforce simp: run_lost_def slot_ok_def)
  ultimately show ?thesis by blast
qed

section \<open>A concrete queue\<close>

definition demo_line :: "(redis_op \<times> int) list" where
  "demo_line = [(R_Enqueue ''a'' False, 0), (R_Enqueue ''b'' False, 10), (R_Tick_Start ''a'', 10), (R_Tick ''a'' (Some 1), 20)]"

lemma demo_line_state:
  "rs_queue (fold redis_step demo_line redis_empty)
     = \<lparr>rq_waiters = [(10, ''b'')], rq_alive = [(120010, ''b'')], rq_holders = [(120020, ''a'')]\<rparr>"
  by code_simp

lemma tick_first_come_first_served_witness:
  "\<exists>q out admitted. tick 30 2 holder_lease_ms ''b'' (rs_queue (fold redis_step demo_line redis_empty)) = (q, out)
     \<and> live (rs_queue (fold redis_step demo_line redis_empty)) 30 = admitted @ rq_waiters q
     \<and> length (rq_holders q) \<le> max 2 (length (zremrangebyscore 30 (rq_holders (rs_queue (fold redis_step demo_line redis_empty)))))"
proof -
  obtain q out where t: "tick 30 2 holder_lease_ms ''b'' (rs_queue (fold redis_step demo_line redis_empty)) = (q, out)"
    by fastforce
  from tick_first_come_first_served [OF refl t] t show ?thesis by blast
qed

lemma redis_slot_limit_witness:
  "length (rq_holders (rs_queue (fold redis_step (demo_line @ [(R_Park ''a'', 25), (R_Unpark ''a'', 30)]) redis_empty))) \<le> 1 + 1"
  using redis_slot_limit [of "demo_line @ [(R_Park ''a'', 25), (R_Unpark ''a'', 30)]" 1]
  by (simp add: demo_line_def tick_limit_le_def limit_of_def is_unpark_def)

lemma released_run_holds_nothing_witness:
  "''a'' \<notin> zkeys (rq_holders (rs_queue (fold redis_step [(R_Unpark ''a'', 60), (R_Tick ''a'' (Some 5), 70)]
     (fold redis_step (demo_line @ [(R_Tick_Start ''a'', 30), (R_Release ''a'', 40)]) redis_empty))))"
proof -
  have "run_released ''a'' (fold redis_step (demo_line @ [(R_Tick_Start ''a'', 30), (R_Release ''a'', 40)]) redis_empty)"
    by (simp add: demo_line_def redis_empty_def run_released_def redis_enqueue_def redis_tick_start_def
        redis_release_def redis_tick_def put_slot_def new_slot_def Let_def split: prod.split)
  from released_run_holds_nothing [OF refl this] show ?thesis by blast
qed

text \<open>\<open>a\<close> is queued behind \<open>b\<close> and does not poll for two minutes; \<open>b\<close>'s tick sweeps it.\<close>

definition demo_stall :: "(redis_op \<times> int) list" where
  "demo_stall = [(R_Enqueue ''a'' False, 0), (R_Enqueue ''b'' False, 100), (R_Tick_Start ''b'', 120001),
     (R_Tick ''b'' (Some 1), 120001)]"

lemma lost_waiter_never_admitted_witness:
  "run_lost ''a'' (fold redis_step [(R_Tick_Start ''a'', 120002), (R_Tick ''a'' (Some 9), 120003)]
     (fold redis_step demo_stall redis_empty))"
proof -
  have q: "rs_queue (fold redis_step demo_stall redis_empty)
      = \<lparr>rq_waiters = [], rq_alive = [], rq_holders = [(240001, ''b'')]\<rparr>" by code_simp
  have "map_option sl_state (rs_slots (fold redis_step demo_stall redis_empty) ''a'') = Some Queued" by code_simp
  with q have "run_lost ''a'' (fold redis_step demo_stall redis_empty)" by (auto simp: run_lost_def)
  from lost_waiter_never_admitted [OF refl this] show ?thesis by blast
qed

end
