(* ===== verification/Slot_Local.thy ===== *)
theory Slot_Local
  imports Reply_Slots
begin

text \<open>
  The in-process backend of \<^verbatim>\<open>agent-reply-slots.ts\<close>: its invariant, the shared admission contract, the
  limit; and the batched status read, which answers as the single one does.
\<close>

section \<open>Counting working holders\<close>

lemma active_card:
  assumes "om_ok (lb_holders b)"
  shows "active_count b = card {r. om_get (lb_holders b) r = Some False}"
proof -
  let ?w = "filter (\<lambda>(_, parked). \<not> parked) (lb_holders b)"
  have "distinct (map fst ?w)" using om_ok_filter [OF assms] by (simp add: om_ok_def)
  then have "length ?w = card (fst ` set ?w)" using distinct_card [of "map fst ?w"] by simp
  moreover have "fst ` set ?w = {r. om_get (lb_holders b) r = Some False}"
    using assms by (force simp: om_ok_def image_iff)
  ultimately show ?thesis by (simp add: active_count_def)
qed

lemma finite_active: "finite {r. om_get m r = Some (v :: bool)}"
proof -
  have "{r. om_get m r = Some v} \<subseteq> fst ` set m" by (force dest: map_of_SomeD)
  then show ?thesis by (rule finite_subset) simp
qed

lemma active_set_False:
  assumes "om_ok (lb_holders b)"
  shows "active_count (b\<lparr>lb_holders := om_set r False (lb_holders b)\<rparr>)
    = active_count b + (if om_get (lb_holders b) r = Some False then 0 else 1)"
proof -
  have "{x. om_get (om_set r False (lb_holders b)) x = Some False}
      = insert r {x. om_get (lb_holders b) x = Some False}" by auto
  then show ?thesis
    using assms by (auto simp: active_card finite_active card_insert_if)
qed

lemma active_shrinks:
  assumes "om_ok (lb_holders b)"
  shows "active_count (b\<lparr>lb_holders := om_set r True (lb_holders b)\<rparr>) \<le> active_count b"
    "active_count (b\<lparr>lb_holders := om_delete r (lb_holders b)\<rparr>) \<le> active_count b"
  using assms by (auto simp: active_card finite_active intro!: card_mono split: if_splits)

lemma active_waiters [simp]: "active_count (b\<lparr>lb_waiters := w\<rparr>) = active_count b"
  by (simp add: active_count_def)

section \<open>The invariant\<close>

definition known_slot :: "slot \<Rightarrow> bool" where
  "known_slot u \<longleftrightarrow> (sl_acquired u = Resolved \<longleftrightarrow> sl_state u \<noteq> Queued)
     \<and> (sl_acquired u = Rejected \<longleftrightarrow> sl_released u \<and> sl_state u = Queued)"

definition local_ok :: "local_state \<Rightarrow> bool" where
  "local_ok s \<longleftrightarrow> om_ok (lb_holders (ls_book s)) \<and> distinct (lb_waiters (ls_book s)) \<and> distinct (ls_lookups s)
     \<and> set (lb_waiters (ls_book s)) \<inter> set (ls_lookups s) = {}
     \<and> (\<forall>r \<in> set (lb_waiters (ls_book s)). \<exists>u. ls_slots s r = Some u \<and> \<not> sl_released u \<and> sl_state u = Queued)
     \<and> (\<forall>r \<in> set (ls_lookups s). \<exists>u. ls_slots s r = Some u \<and> sl_state u = Queued)
     \<and> (\<forall>r p. om_get (lb_holders (ls_book s)) r = Some p \<longleftrightarrow>
          (\<exists>u. ls_slots s r = Some u \<and> \<not> sl_released u \<and> sl_state u = (if p then Parked else Running)))
     \<and> (\<forall>r u. ls_slots s r = Some u \<longrightarrow> known_slot u)"

lemma local_okD:
  assumes "local_ok s"
  shows "om_ok (lb_holders (ls_book s))" "distinct (lb_waiters (ls_book s))" "distinct (ls_lookups s)"
    "set (lb_waiters (ls_book s)) \<inter> set (ls_lookups s) = {}"
    "r \<in> set (lb_waiters (ls_book s)) \<Longrightarrow> \<exists>u. ls_slots s r = Some u \<and> \<not> sl_released u \<and> sl_state u = Queued"
    "r \<in> set (ls_lookups s) \<Longrightarrow> \<exists>u. ls_slots s r = Some u \<and> sl_state u = Queued"
    "om_get (lb_holders (ls_book s)) r = Some p \<longleftrightarrow>
       (\<exists>u. ls_slots s r = Some u \<and> \<not> sl_released u \<and> sl_state u = (if p then Parked else Running))"
    "ls_slots s r = Some u \<Longrightarrow> known_slot u"
  using assms by (auto simp: local_ok_def)

lemma local_empty_ok: "local_ok local_empty"
  by (simp add: local_ok_def local_empty_def)

text \<open>Every operation changes one run: its slot, its holder entry and its place in line.\<close>

lemma change_ok:
  assumes ok: "local_ok s" and sl: "ls_slots s' = (ls_slots s)(r \<mapsto> u')" and lk: "ls_lookups s' = ls_lookups s"
    and h: "om_ok (lb_holders (ls_book s'))"
      "\<And>x. x \<noteq> r \<Longrightarrow> om_get (lb_holders (ls_book s')) x = om_get (lb_holders (ls_book s)) x"
      "\<And>p. om_get (lb_holders (ls_book s')) r = Some p \<longleftrightarrow>
         \<not> sl_released u' \<and> sl_state u' = (if p then Parked else Running)"
    and w: "distinct (lb_waiters (ls_book s'))"
      "set (lb_waiters (ls_book s')) \<subseteq> set (lb_waiters (ls_book s)) - {r}"
    and u': "known_slot u'" "r \<in> set (ls_lookups s) \<Longrightarrow> sl_state u' = Queued"
  shows "local_ok s'"
  unfolding local_ok_def
proof (intro conjI ballI allI impI)
  show "set (lb_waiters (ls_book s')) \<inter> set (ls_lookups s') = {}"
    using local_okD(4) [OF ok] w(2) lk by auto
  show "\<exists>u. ls_slots s' x = Some u \<and> \<not> sl_released u \<and> sl_state u = Queued"
    if "x \<in> set (lb_waiters (ls_book s'))" for x
    using that w(2) local_okD(5) [OF ok, of x] by (auto simp: sl)
  show "\<exists>u. ls_slots s' x = Some u \<and> sl_state u = Queued" if "x \<in> set (ls_lookups s')" for x
    using that u'(2) local_okD(6) [OF ok, of x] by (auto simp: sl lk)
  show "om_get (lb_holders (ls_book s')) x = Some p \<longleftrightarrow>
      (\<exists>u. ls_slots s' x = Some u \<and> \<not> sl_released u \<and> sl_state u = (if p then Parked else Running))" for x p
    using h(2) [of x] h(3) [of p] local_okD(7) [OF ok, of x p] by (cases "x = r") (simp_all add: sl)
  show "known_slot u" if "ls_slots s' x = Some u" for x u
    using that u'(1) local_okD(8) [OF ok, of x u] by (auto simp: sl split: if_splits)
qed (use h(1) w(1) local_okD(3) [OF ok] lk in simp_all)

text \<open>A queued run, out of the line and of the lookups, takes a slot.\<close>

lemma local_take_ok:
  assumes ok: "local_ok s" and u: "ls_slots s r = Some u" "\<not> sl_released u" "sl_state u = Queued"
    and out: "r \<notin> set (lb_waiters (ls_book s))" "r \<notin> set (ls_lookups s)"
  shows "local_ok (local_take r s)" and "active_count (ls_book (local_take r s)) = active_count (ls_book s) + 1"
proof -
  have "om_get (lb_holders (ls_book s)) r \<noteq> Some p" for p
    using local_okD(7) [OF ok, of r p] u by simp
  then have none: "om_get (lb_holders (ls_book s)) r = None"
    by (cases "om_get (lb_holders (ls_book s)) r") blast+
  then show "active_count (ls_book (local_take r s)) = active_count (ls_book s) + 1"
    using active_set_False [OF local_okD(1) [OF ok], of r] by (simp add: local_take_def book_take_def)
  show "local_ok (local_take r s)"
  proof (rule change_ok [OF ok, of _ r "u\<lparr>sl_state := Running, sl_acquired := Resolved\<rparr>"])
    show "known_slot (u\<lparr>sl_state := Running, sl_acquired := Resolved\<rparr>)" by (simp add: known_slot_def)
    show "set (lb_waiters (ls_book (local_take r s))) \<subseteq> set (lb_waiters (ls_book s)) - {r}"
      using out by (simp add: local_take_def book_take_def subset_insert_iff)
  qed (use u out local_okD(1,2) [OF ok] in \<open>simp_all add: local_take_def book_take_def\<close>)
qed

lemma drop_head_ok:
  assumes ok: "local_ok s" and w: "lb_waiters (ls_book s) = r # rest"
  shows "local_ok (s\<lparr>ls_book := (ls_book s)\<lparr>lb_waiters := rest\<rparr>\<rparr>)"
  using ok w unfolding local_ok_def by auto

lemma admit_local_spec:
  "local_ok s \<Longrightarrow> local_ok (admit_local n s)
     \<and> lb_waiters (ls_book (admit_local n s)) = drop (n - active_count (ls_book s)) (lb_waiters (ls_book s))
     \<and> active_count (ls_book (admit_local n s))
         = active_count (ls_book s) + min (n - active_count (ls_book s)) (length (lb_waiters (ls_book s)))
     \<and> ls_lookups (admit_local n s) = ls_lookups s"
proof (induction n s rule: admit_local.induct)
  case (1 n s)
  show ?case
  proof (cases "lb_waiters (ls_book s)")
    case Nil
    with 1(2) show ?thesis by (simp add: admit_local.simps [of n s])
  next
    case (Cons r rest)
    show ?thesis
    proof (cases "active_count (ls_book s) < n")
      case False
      with Cons 1(2) show ?thesis by (simp add: admit_local.simps [of n s])
    next
      case True
      define s1 where "s1 = s\<lparr>ls_book := (ls_book s)\<lparr>lb_waiters := rest\<rparr>\<rparr>"
      have ok1: "local_ok s1" unfolding s1_def by (rule drop_head_ok [OF 1(2) Cons])
      obtain u where u: "ls_slots s r = Some u" "\<not> sl_released u" "sl_state u = Queued"
        using local_okD(5) [OF 1(2), of r] Cons by auto
      have out: "r \<notin> set (lb_waiters (ls_book s1))" "r \<notin> set (ls_lookups s1)"
        using local_okD(2,4) [OF 1(2)] Cons by (auto simp: s1_def)
      have u1: "ls_slots s1 r = Some u" using u by (simp add: s1_def)
      note t = local_take_ok [OF ok1 u1 u(2,3) out]
      have w: "lb_waiters (ls_book (local_take r s1)) = rest" and l: "ls_lookups (local_take r s1) = ls_lookups s"
        by (simp_all add: local_take_def book_take_def s1_def)
      have a: "active_count (ls_book (local_take r s1)) = active_count (ls_book s) + 1"
        using t(2) by (simp add: s1_def)
      have e: "admit_local n s = admit_local n (local_take r s1)"
        using Cons True by (simp add: admit_local.simps [of n s] s1_def)
      have n: "n - active_count (ls_book s) = Suc (n - (active_count (ls_book s) + 1))" using True by linarith
      from 1(1) [OF Cons True] t(1)
      have "local_ok (admit_local n (local_take r s1))
        \<and> lb_waiters (ls_book (admit_local n (local_take r s1))) = drop (n - (active_count (ls_book s) + 1)) rest
        \<and> active_count (ls_book (admit_local n (local_take r s1)))
            = active_count (ls_book s) + 1 + min (n - (active_count (ls_book s) + 1)) (length rest)
        \<and> ls_lookups (admit_local n (local_take r s1)) = ls_lookups s"
        unfolding s1_def [symmetric] by (simp add: w a l)
      then show ?thesis unfolding e n Cons by simp
    qed
  qed
qed

interpretation local_queue: admission_queue local_ok "\<lambda>s. lb_waiters (ls_book s)" "\<lambda>s. active_count (ls_book s)" admit_local
  by unfold_locales (use admit_local_spec in auto)

lemma local_ok_pumps [simp]: "local_ok (s\<lparr>ls_pumps := k\<rparr>) \<longleftrightarrow> local_ok s"
  by (simp add: local_ok_def)

lemma pump_start_ok: "local_ok s \<Longrightarrow> local_ok (pump_start s)"
  by (simp add: pump_start_def)

lemma pump_start_frame [simp]:
  "ls_book (pump_start s) = ls_book s" "ls_slots (pump_start s) = ls_slots s" "ls_lookups (pump_start s) = ls_lookups s"
  by (simp_all add: pump_start_def)

lemma pump_answer_ok: "local_ok s \<Longrightarrow> local_ok (pump_answer cap s)"
  by (simp add: pump_answer_def admit_local_spec)

lemma local_enqueue_ok: "local_ok s \<Longrightarrow> local_ok (local_enqueue r ab s)"
proof -
  assume ok: "local_ok s"
  show ?thesis
  proof (cases "ls_slots s r = None")
    case True
    then have "r \<notin> set (lb_waiters (ls_book s))" "r \<notin> set (ls_lookups s)"
      using local_okD(5,6) [OF ok, of r] by auto
    with True ok show ?thesis
      unfolding local_ok_def local_enqueue_def
      by (auto simp: new_slot_def aborted_slot_def known_slot_def)
  qed (simp add: local_enqueue_def ok)
qed

lemma lookup_answer_ok:
  assumes ok: "local_ok s"
  shows "local_ok (lookup_answer r cap s)"
proof (cases "r \<in> set (ls_lookups s)")
  case True
  define s' where "s' = s\<lparr>ls_lookups := remove1 r (ls_lookups s)\<rparr>"
  obtain u where u: "ls_slots s r = Some u" "sl_state u = Queued" using local_okD(6) [OF ok True] by blast
  have ok': "local_ok s'"
    using ok unfolding local_ok_def s'_def by (auto simp: distinct_remove1 dest: in_set_remove1)
  have out: "r \<notin> set (lb_waiters (ls_book s))" "r \<notin> set (ls_lookups s')"
    using local_okD(3,4) [OF ok] True by (auto simp: s'_def distinct_remove1_removeAll)
  show ?thesis
  proof (cases "sl_released u")
    case rel: False
    have t: "local_ok (local_take r s')"
      by (rule local_take_ok(1) [OF ok', of r u]) (use u rel out in \<open>simp_all add: s'_def\<close>)
    have "local_ok (s'\<lparr>ls_book := (ls_book s)\<lparr>lb_waiters := lb_waiters (ls_book s) @ [r]\<rparr>\<rparr>)"
      using ok' u rel out unfolding local_ok_def by (auto simp: s'_def)
    with t u rel True show ?thesis
      by (auto simp: lookup_answer_def Let_def s'_def split: option.split)
  qed (use ok' True u in \<open>simp add: lookup_answer_def s'_def\<close>)
qed (simp add: lookup_answer_def ok)

lemma held_run:
  assumes ok: "local_ok s" and h: "om_get (lb_holders (ls_book s)) r = Some p" and u: "ls_slots s r = Some u"
  shows "\<not> sl_released u" "sl_state u = (if p then Parked else Running)"
    "r \<notin> set (lb_waiters (ls_book s))" "r \<notin> set (ls_lookups s)"
  using local_okD(7) [OF ok, of r p] local_okD(5,6) [OF ok, of r] h u by (auto split: if_splits)

lemma local_park_ok:
  assumes ok: "local_ok s"
  shows "local_ok (local_park r s)"
proof -
  have "local_ok (pump_start (s\<lparr>ls_book := (ls_book s)\<lparr>lb_holders := om_set r True (lb_holders (ls_book s))\<rparr>,
      ls_slots := (ls_slots s)(r \<mapsto> u\<lparr>sl_state := Parked\<rparr>)\<rparr>))"
    if h: "om_get (lb_holders (ls_book s)) r = Some False" and u: "ls_slots s r = Some u" for u
    by (rule pump_start_ok, rule change_ok [OF ok, of _ r "u\<lparr>sl_state := Parked\<rparr>"])
      (use held_run [OF ok h u] local_okD(1,2) [OF ok] local_okD(8) [OF ok u] in \<open>auto simp: known_slot_def\<close>)
  then show ?thesis using ok by (auto simp: local_park_def split: option.split bool.split)
qed

lemma local_unpark_ok:
  assumes ok: "local_ok s"
  shows "local_ok (local_unpark r s)"
proof -
  have "local_ok (s\<lparr>ls_book := (ls_book s)\<lparr>lb_holders := om_set r False (lb_holders (ls_book s))\<rparr>,
      ls_slots := (ls_slots s)(r \<mapsto> u\<lparr>sl_state := Running\<rparr>)\<rparr>)"
    if h: "om_get (lb_holders (ls_book s)) r = Some p" and u: "ls_slots s r = Some u" for u p
    by (rule change_ok [OF ok, of _ r "u\<lparr>sl_state := Running\<rparr>"])
      (use held_run [OF ok h u] local_okD(1,2) [OF ok] local_okD(8) [OF ok u] in
        \<open>auto simp: known_slot_def split: if_splits\<close>)
  then show ?thesis using ok by (auto simp: local_unpark_def split: option.split)
qed

lemma local_release_ok:
  assumes ok: "local_ok s"
  shows "local_ok (local_release r s)"
proof (cases "\<exists>u. ls_slots s r = Some u \<and> \<not> sl_released u")
  case True
  then obtain u where u: "ls_slots s r = Some u" "\<not> sl_released u" by blast
  show ?thesis
    by (rule change_ok [OF ok, of _ r "u\<lparr>sl_released := True,
          sl_acquired := (if sl_state u = Queued then Rejected else sl_acquired u)\<rparr>"])
      (use u local_okD(1,2) [OF ok] local_okD(6) [OF ok, of r] local_okD(8) [OF ok u(1)] in
        \<open>auto simp: local_release_def Let_def known_slot_def distinct_remove1 dest: in_set_remove1\<close>)
qed (auto simp: local_release_def ok split: option.split)

lemma local_step_ok: "local_ok s \<Longrightarrow> local_ok (local_step e s)"
  by (cases e) (simp_all add: local_enqueue_ok lookup_answer_ok pump_start_ok pump_answer_ok local_park_ok
      local_unpark_ok local_release_ok)

interpretation local_slots: machine local_step local_ok
  by unfold_locales (rule local_step_ok)

lemma local_reachable: "local_ok (fold local_step es local_empty)"
  by (rule local_slots.run_inv [OF local_empty_ok])

section \<open>The limit\<close>

text \<open>Steps that may put a working run past the limit: a parked run that comes back, and an arrival whose
  capacity lookup failed.\<close>

definition overrides_limit :: "local_op \<Rightarrow> bool" where
  "overrides_limit e \<longleftrightarrow> (case e of L_Unpark r \<Rightarrow> True | L_Lookup r None \<Rightarrow> True | _ \<Rightarrow> False)"

definition answer_le :: "nat \<Rightarrow> local_op \<Rightarrow> bool" where
  "answer_le n e \<longleftrightarrow> (case e of L_Lookup r (Some l) \<Rightarrow> l \<le> n | L_Pump cap \<Rightarrow> limit_of cap \<le> n | _ \<Rightarrow> True)"

lemma step_active:
  assumes ok: "local_ok s" and le: "answer_le n e"
  shows "active_count (ls_book (local_step e s))
    \<le> max n (active_count (ls_book s) + (if overrides_limit e then 1 else 0))"
proof (cases e)
  case (L_Lookup r cap)
  define s' where "s' = s\<lparr>ls_lookups := remove1 r (ls_lookups s)\<rparr>"
  have take: "active_count (ls_book (local_take r s')) \<le> active_count (ls_book s) + 1"
    using active_set_False [OF local_okD(1) [OF ok], of r]
    by (simp add: local_take_def book_take_def s'_def)
  show ?thesis
  proof (cases cap)
    case None
    with take L_Lookup show ?thesis
      by (auto simp: lookup_answer_def Let_def overrides_limit_def s'_def split: option.split)
  next
    case (Some l)
    with le L_Lookup have "l \<le> n" by (simp add: answer_le_def)
    with take L_Lookup Some show ?thesis
      by (auto simp: lookup_answer_def Let_def overrides_limit_def s'_def split: option.split)
  qed
next
  case (L_Pump cap)
  let ?s = "s\<lparr>ls_pumps := ls_pumps s - 1\<rparr>"
  have "active_count (ls_book (admit_local (limit_of cap) ?s)) \<le> max (limit_of cap) (active_count (ls_book ?s))"
    by (rule local_queue.admit_limit) (simp add: ok)
  with L_Pump le show ?thesis by (auto simp: pump_answer_def answer_le_def overrides_limit_def)
next
  case (L_Park r)
  show ?thesis
    using L_Park active_shrinks(1) [OF local_okD(1) [OF ok], of r]
    by (auto simp: local_park_def overrides_limit_def split: option.split bool.split)
next
  case (L_Unpark r)
  show ?thesis
    using L_Unpark active_set_False [OF local_okD(1) [OF ok], of r]
    by (auto simp: local_unpark_def overrides_limit_def split: option.split)
next
  case (L_Release r)
  let ?b = "(ls_book s)\<lparr>lb_waiters := remove1 r (lb_waiters (ls_book s))\<rparr>"
  have "active_count (?b\<lparr>lb_holders := om_delete r (lb_holders ?b)\<rparr>) \<le> active_count ?b"
    by (rule active_shrinks(2)) (simp add: local_okD(1) [OF ok])
  then have "active_count (?b\<lparr>lb_holders := om_delete r (lb_holders (ls_book s))\<rparr>) \<le> active_count (ls_book s)"
    by simp
  with L_Release show ?thesis
    by (auto simp: local_release_def Let_def overrides_limit_def split: option.split)
qed (simp_all add: local_enqueue_def overrides_limit_def)

text \<open>The in-process queue keeps the same contract. Working runs exceed the largest limit ever read only
  by the runs that were allowed to override it; and a pump admits from the head of the line, in order, until
  nobody waits or the limit it read is reached.\<close>

theorem local_slot_limit:
  assumes "\<forall>e \<in> set es. answer_le n e" and "s = fold local_step es local_empty"
  shows "active_count (ls_book s) \<le> n + length (filter overrides_limit es)
    \<and> (0 < ls_pumps s \<longrightarrow>
         (\<exists>k. lb_waiters (ls_book s) = take k (lb_waiters (ls_book s)) @ lb_waiters (ls_book (pump_answer cap s)))
         \<and> (lb_waiters (ls_book (pump_answer cap s)) = []
            \<or> limit_of cap \<le> active_count (ls_book (pump_answer cap s))))"
proof
  have run: "active_count (ls_book (fold local_step es t))
      \<le> max n (active_count (ls_book t)) + length (filter overrides_limit es)"
    if "local_ok t" and "\<forall>e \<in> set es. answer_le n e" for t
    using that
  proof (induction es arbitrary: t)
    case (Cons e es)
    have "active_count (ls_book (fold local_step es (local_step e t)))
        \<le> max n (active_count (ls_book (local_step e t))) + length (filter overrides_limit es)"
      by (rule Cons.IH) (use Cons.prems local_step_ok in auto)
    moreover have "active_count (ls_book (local_step e t))
        \<le> max n (active_count (ls_book t) + (if overrides_limit e then 1 else 0))"
      by (rule step_active) (use Cons.prems in auto)
    ultimately show ?case by (auto split: if_splits)
  qed simp
  from run [OF local_empty_ok assms(1)] show "active_count (ls_book s) \<le> n + length (filter overrides_limit es)"
    by (simp add: assms(2) local_empty_def active_count_def)
  show "0 < ls_pumps s \<longrightarrow>
     (\<exists>k. lb_waiters (ls_book s) = take k (lb_waiters (ls_book s)) @ lb_waiters (ls_book (pump_answer cap s)))
     \<and> (lb_waiters (ls_book (pump_answer cap s)) = []
        \<or> limit_of cap \<le> active_count (ls_book (pump_answer cap s)))"
  proof
    assume p: "0 < ls_pumps s"
    have ok: "local_ok (s\<lparr>ls_pumps := ls_pumps s - 1\<rparr>)" using local_reachable by (simp add: assms(2))
    from local_queue.admit_fifo [OF ok, of "limit_of cap"] local_queue.admit_no_idle [OF ok, of "limit_of cap"] p
    show "(\<exists>k. lb_waiters (ls_book s) = take k (lb_waiters (ls_book s)) @ lb_waiters (ls_book (pump_answer cap s)))
     \<and> (lb_waiters (ls_book (pump_answer cap s)) = []
        \<or> limit_of cap \<le> active_count (ls_book (pump_answer cap s)))"
      by (simp add: pump_answer_def)
  qed
qed

definition demo_local :: "local_op list" where
  "demo_local = [L_Enqueue ''a'' False, L_Lookup ''a'' (Some 1), L_Enqueue ''b'' False, L_Lookup ''b'' (Some 1), L_Park ''a'']"

lemma local_slot_limit_witness:
  "active_count (ls_book (fold local_step demo_local local_empty)) \<le> 1
   \<and> (lb_waiters (ls_book (pump_answer (Some 1) (fold local_step demo_local local_empty))) = []
      \<or> 1 \<le> active_count (ls_book (pump_answer (Some 1) (fold local_step demo_local local_empty))))"
proof -
  have le: "\<forall>e \<in> set demo_local. answer_le 1 e" by (simp add: demo_local_def answer_le_def)
  have p: "ls_pumps (fold local_step demo_local local_empty) = 1" by code_simp
  have "filter overrides_limit demo_local = []" by (simp add: demo_local_def overrides_limit_def)
  with local_slot_limit [OF le refl, of "Some 1"] p show ?thesis by (simp add: limit_of_def)
qed

section \<open>The batched read\<close>

lemma ranks_fold_get:
  "om_get (fold (\<lambda>m ps. case zrank (rq_waiters q) m of None \<Rightarrow> ps | Some k \<Rightarrow> om_set m (k + 1) ps) ms ps) r
   = (if r \<in> set ms \<and> zrank (rq_waiters q) r \<noteq> None then map_option Suc (zrank (rq_waiters q) r) else om_get ps r)"
proof (induction ms arbitrary: ps)
  case (Cons x ms)
  show ?case by (cases "x = r"; cases "zrank (rq_waiters q) x"; cases "zrank (rq_waiters q) r") (simp_all add: Cons.IH)
qed simp

lemma ranks_of_get:
  "om_get (ranks_of q ms) r = (if r \<in> set ms then map_option Suc (zrank (rq_waiters q) r) else None)"
  unfolding ranks_of_def ranks_fold_get by (cases "zrank (rq_waiters q) r") simp_all

text \<open>What a run's state is without asking Redis, if that is known.\<close>

definition known_state :: "slot_view \<Rightarrow> string \<Rightarrow> (slot_state \<times> nat option) option" where
  "known_state v r =
     (case held_state v r of
        Some st \<Rightarrow> Some (st, None)
      | None \<Rightarrow>
          (case sv_redis v of
             None \<Rightarrow> Some (local_position v r)
           | Some q \<Rightarrow>
               (case sv_known v r of Some Running \<Rightarrow> Some (Running, None) | Some Parked \<Rightarrow> Some (Parked, None)
                | _ \<Rightarrow> None)))"

lemma batch_run_known:
  "batch_run v r (m, un) = (case known_state v r of Some x \<Rightarrow> (om_set r x m, un) | None \<Rightarrow> (m, un @ [r]))"
  by (simp add: batch_run_def known_state_def split: option.split slot_state.split)

lemma state_known:
  "agent_reply_slot_state v r = (case known_state v r of Some x \<Rightarrow> x
     | None \<Rightarrow> ranked_state (ranks_of (the (sv_redis v)) [r]) r)"
  by (simp add: agent_reply_slot_state_def known_state_def split: option.split slot_state.split)

lemma batch_fold:
  assumes "fold (batch_run v) rs (m, un) = (m', un')"
  shows "om_get m' r = (if r \<in> set rs \<and> known_state v r \<noteq> None then known_state v r else om_get m r)
    \<and> set un' = set un \<union> {r \<in> set rs. known_state v r = None}"
  using assms
proof (induction rs arbitrary: m un)
  case (Cons x rs)
  show ?case
  proof (cases "known_state v x")
    case None
    with Cons.prems have "fold (batch_run v) rs (m, un @ [x]) = (m', un')" by (simp add: batch_run_known)
    note ih = Cons.IH [OF this]
    have "{y \<in> set (x # rs). known_state v y = None} = insert x {y \<in> set rs. known_state v y = None}" using None by auto
    with ih None show ?thesis by (cases "r = x"; cases "known_state v r") simp_all
  next
    case (Some y)
    with Cons.prems have "fold (batch_run v) rs (om_set x y m, un) = (m', un')" by (simp add: batch_run_known)
    note ih = Cons.IH [OF this]
    have "{y \<in> set (x # rs). known_state v y = None} = {y \<in> set rs. known_state v y = None}" using Some by auto
    with ih Some show ?thesis by (cases "r = x"; cases "known_state v r") simp_all
  qed
qed simp

text \<open>Asking for many runs at once answers what asking for each would: the batched read, with its one
  query, agrees with \<^verbatim>\<open>agentReplySlotState\<close> on every run asked for, and has no other entry.\<close>

theorem slot_states_agree:
  "om_get (agent_reply_slot_states v rs) r = (if r \<in> set rs then Some (agent_reply_slot_state v r) else None)"
proof -
  obtain m un where f: "fold (batch_run v) rs ([], []) = (m, un)" by fastforce
  note b = batch_fold [OF f]
  have ranked: "om_get (fold (\<lambda>r m. om_set r (ranked_state ps r) m) us m) r
      = (if r \<in> set us then Some (ranked_state ps r) else om_get m r)" for ps us m
    by (induction us arbitrary: m) auto
  show ?thesis
  proof (cases "sv_redis v")
    case None
    then obtain x where x: "known_state v r = Some x" by (cases "held_state v r") (simp_all add: known_state_def)
    from b [of r] x have "om_get m r = (if r \<in> set rs then Some x else None)" by simp
    with x None f show ?thesis by (simp add: agent_reply_slot_states_def state_known)
  next
    case (Some q)
    show ?thesis
    proof (cases "r \<in> set rs \<and> known_state v r = None")
      case True
      with b have "r \<in> set un" by auto
      then have "ranked_state (ranks_of q un) r = ranked_state (ranks_of q [r]) r"
        by (simp add: ranked_state_def ranks_of_get)
      with \<open>r \<in> set un\<close> True Some f show ?thesis
        by (simp add: agent_reply_slot_states_def ranked state_known)
    next
      case False
      with b have "r \<notin> set un" by auto
      then have q: "om_get (agent_reply_slot_states v rs) r = om_get m r"
        using Some f by (simp add: agent_reply_slot_states_def ranked)
      show ?thesis
      proof (cases "r \<in> set rs")
        case True
        with False obtain x where "known_state v r = Some x" by auto
        with True b [of r] q show ?thesis by (simp add: state_known)
      next
        case False
        with b [of r] q show ?thesis by simp
      qed
    qed
  qed
qed

end
