(* ===== verification/Gc_Policy.thy ===== *)
theory Gc_Policy
  imports Prelude
begin

text \<open>
  Which suspended snapshots the bare-metal agent evicts (\<^verbatim>\<open>apps/metal-agent/src/gc-policy.ts\<close>). Byte counts and
  times are integers, percentages rationals (IEEE rounding is not modelled).
\<close>

section \<open>The policy\<close>

record eviction_candidate =
  ec_project :: string
  ec_bytes :: int
  ec_last_access :: int
  ec_durable :: bool
  ec_in_flight :: bool

record gc_inputs =
  gi_used :: int
  gi_total :: int
  gi_cache :: int
  gi_candidates :: "eviction_candidate list"
  gi_high_pct :: rat
  gi_low_pct :: rat
  gi_cache_max :: int
  gi_force :: bool

record gc_decision =
  gd_triggered :: bool
  gd_evict :: "string list"
  gd_planned :: int

definition may_evict :: "eviction_candidate \<Rightarrow> bool" where
  "may_evict c \<longleftrightarrow> ec_durable c \<and> \<not> ec_in_flight c"

definition evictable :: "eviction_candidate list \<Rightarrow> eviction_candidate list" where
  "evictable cs = sort_key ec_last_access (filter may_evict cs)"

definition used_pct :: "gc_inputs \<Rightarrow> rat" where
  "used_pct i = (if gi_total i > 0 then of_int (gi_used i) / of_int (gi_total i) * 100 else 0)"

definition over_watermark :: "gc_inputs \<Rightarrow> bool" where
  "over_watermark i \<longleftrightarrow> used_pct i \<ge> gi_high_pct i"

definition over_cap :: "gc_inputs \<Rightarrow> bool" where
  "over_cap i \<longleftrightarrow> gi_cache_max i > 0 \<and> gi_cache i > gi_cache_max i"

definition low_bytes :: "gc_inputs \<Rightarrow> rat" where
  "low_bytes i = gi_low_pct i / 100 * of_int (gi_total i)"

text \<open>The two tests at the head of the loop.\<close>

definition disk_satisfied :: "gc_inputs \<Rightarrow> int \<Rightarrow> bool" where
  "disk_satisfied i used \<longleftrightarrow> \<not> gi_force i \<and> (gi_total i = 0 \<or> of_int used \<le> low_bytes i)"

definition cap_satisfied :: "gc_inputs \<Rightarrow> int \<Rightarrow> bool" where
  "cap_satisfied i cache \<longleftrightarrow> gi_cache_max i \<le> 0 \<or> cache \<le> gi_cache_max i"

fun evict_loop :: "gc_inputs \<Rightarrow> eviction_candidate list \<Rightarrow> int \<Rightarrow> int \<Rightarrow> string list \<Rightarrow> int \<Rightarrow> string list \<times> int" where
  "evict_loop i [] used cache evict planned = (evict, planned)"
| "evict_loop i (c # cs) used cache evict planned =
     (if \<not> gi_force i \<and> disk_satisfied i used \<and> cap_satisfied i cache then (evict, planned)
      else evict_loop i cs (used - ec_bytes c) (cache - ec_bytes c) (evict @ [ec_project c]) (planned + ec_bytes c))"

definition plan_evictions :: "gc_inputs \<Rightarrow> gc_decision" where
  "plan_evictions i =
     (if \<not> gi_force i \<and> \<not> over_watermark i \<and> \<not> over_cap i
      then \<lparr>gd_triggered = False, gd_evict = [], gd_planned = 0\<rparr>
      else
        let (evict, planned) = evict_loop i (evictable (gi_candidates i)) (gi_used i) (gi_cache i) [] 0
        in \<lparr>gd_triggered = (evict \<noteq> [] \<or> gi_force i), gd_evict = evict, gd_planned = planned\<rparr>)"

section \<open>What a plan is\<close>

definition bytes_of :: "eviction_candidate list \<Rightarrow> int" where
  "bytes_of cs = sum_list (map ec_bytes cs)"

text \<open>Evicting \<open>cs\<close> is enough: both the low watermark and the cache cap then hold.\<close>

definition relieved :: "gc_inputs \<Rightarrow> eviction_candidate list \<Rightarrow> bool" where
  "relieved i cs \<longleftrightarrow> \<not> gi_force i \<and> (gi_total i = 0 \<or> of_int (gi_used i - bytes_of cs) \<le> low_bytes i)
     \<and> (gi_cache_max i \<le> 0 \<or> gi_cache i - bytes_of cs \<le> gi_cache_max i)"

lemma bytes_of_simps [simp]:
  "bytes_of [] = 0"
  "bytes_of (c # cs) = ec_bytes c + bytes_of cs"
  "bytes_of (cs @ ds) = bytes_of cs + bytes_of ds"
  by (simp_all add: bytes_of_def)

lemma stop_iff_relieved:
  assumes "used = gi_used i - bytes_of pre" and "cache = gi_cache i - bytes_of pre"
  shows "(\<not> gi_force i \<and> disk_satisfied i used \<and> cap_satisfied i cache) = relieved i pre"
  using assms by (simp add: relieved_def disk_satisfied_def cap_satisfied_def)

lemma loop_takes_least:
  assumes "used = gi_used i - bytes_of pre" and "cache = gi_cache i - bytes_of pre"
  shows "\<exists>n \<le> length cs. evict_loop i cs used cache (map ec_project pre) (bytes_of pre)
      = (map ec_project (pre @ take n cs), bytes_of (pre @ take n cs))
    \<and> (\<forall>k < n. \<not> relieved i (pre @ take k cs)) \<and> (n < length cs \<longrightarrow> relieved i (pre @ take n cs))"
  using assms
proof (induction cs arbitrary: used cache pre)
  case (Cons c cs)
  show ?case
  proof (cases "relieved i pre")
    case True
    then show ?thesis
      by (intro exI [of _ 0]) (simp add: stop_iff_relieved [OF Cons.prems])
  next
    case False
    let ?pre = "pre @ [c]"
    have "used - ec_bytes c = gi_used i - bytes_of ?pre" "cache - ec_bytes c = gi_cache i - bytes_of ?pre"
      using Cons.prems by simp_all
    from Cons.IH [OF this] obtain n where n: "n \<le> length cs"
      and run: "evict_loop i cs (used - ec_bytes c) (cache - ec_bytes c) (map ec_project ?pre) (bytes_of ?pre)
        = (map ec_project (?pre @ take n cs), bytes_of (?pre @ take n cs))"
      and least: "\<forall>k < n. \<not> relieved i (?pre @ take k cs)"
      and enough: "n < length cs \<longrightarrow> relieved i (?pre @ take n cs)"
      by blast
    have "\<not> relieved i (pre @ take k (c # cs))" if "k < Suc n" for k
      using that False least by (cases k) simp_all
    moreover have "evict_loop i (c # cs) used cache (map ec_project pre) (bytes_of pre)
        = evict_loop i cs (used - ec_bytes c) (cache - ec_bytes c) (map ec_project ?pre) (bytes_of ?pre)"
      using False by (simp add: stop_iff_relieved [OF Cons.prems])
    ultimately show ?thesis using n run enough by (intro exI [of _ "Suc n"]) simp
  qed
qed (simp add: exI [of _ 0])

lemma take_map_bytes: "bytes_of (take n cs) = sum_list (map ec_bytes (take n cs))"
  by (simp add: bytes_of_def)

lemma evictable_set: "set (evictable cs) = {c \<in> set cs. may_evict c}"
  by (simp add: evictable_def)

lemma evictable_sorted: "sorted (map ec_last_access (evictable cs))"
  by (simp add: evictable_def)

section \<open>Property\<close>

text \<open>A plan evicts the least that helps. Under pressure the sweep takes the shortest run of the
  least-recently-used evictable snapshots after which the disk is under its low watermark and the cache under
  its cap (all of them when no run suffices, or when forced); it never names a snapshot that is in flight or
  not durably backed, and it promises exactly the bytes those occupy. Without pressure it evicts nothing.\<close>

theorem plan_evicts_least:
  "if gi_force i \<or> over_watermark i \<or> over_cap i
   then \<exists>victims. victims @ drop (length victims) (evictable (gi_candidates i)) = evictable (gi_candidates i)
      \<and> gd_evict (plan_evictions i) = map ec_project victims \<and> gd_planned (plan_evictions i) = bytes_of victims
      \<and> {k. k < length victims} \<subseteq> {k. \<not> relieved i (take k victims)}
      \<and> (relieved i victims \<or> victims = evictable (gi_candidates i))
      \<and> set victims \<subseteq> {c \<in> set (gi_candidates i). ec_durable c \<and> \<not> ec_in_flight c}
      \<and> sorted (map ec_last_access victims)
   else plan_evictions i = \<lparr>gd_triggered = False, gd_evict = [], gd_planned = 0\<rparr>"
proof (cases "gi_force i \<or> over_watermark i \<or> over_cap i")
  case True
  let ?es = "evictable (gi_candidates i)"
  from loop_takes_least [of "gi_used i" i "[]" "gi_cache i" ?es] obtain n where
    n: "n \<le> length ?es" and run: "evict_loop i ?es (gi_used i) (gi_cache i) [] 0
      = (map ec_project (take n ?es), bytes_of (take n ?es))"
    and least: "\<forall>k < n. \<not> relieved i (take k ?es)" and enough: "n < length ?es \<longrightarrow> relieved i (take n ?es)"
    by auto
  have "plan_evictions i = \<lparr>gd_triggered = (map ec_project (take n ?es) \<noteq> [] \<or> gi_force i),
      gd_evict = map ec_project (take n ?es), gd_planned = bytes_of (take n ?es)\<rparr>"
    using True run by (auto simp: plan_evictions_def)
  moreover have "relieved i (take n ?es) \<or> take n ?es = ?es" using enough n by (cases "n < length ?es") simp_all
  moreover have "set (take n ?es) \<subseteq> {c \<in> set (gi_candidates i). ec_durable c \<and> \<not> ec_in_flight c}"
    using set_take_subset [of n ?es] by (auto simp: evictable_set may_evict_def)
  moreover have "sorted (map ec_last_access (take n ?es))"
    using evictable_sorted [of "gi_candidates i"] by (metis sorted_wrt_take take_map)
  moreover have "\<not> relieved i (take k (take n ?es))" if "k < length (take n ?es)" for k
    using that least by simp
  ultimately show ?thesis using True n by (auto intro!: exI [of _ "take n ?es"])
next
  case False
  then show ?thesis by (simp add: plan_evictions_def)
qed

end
