(* ===== verification/Concurrency.thy ===== *)
theory Concurrency
  imports Prelude
begin

text \<open>
  The node agent's concurrency primitives (\<^verbatim>\<open>apps/metal-agent/src/concurrency.ts\<close>). Calls and operations are
  numbered in the order they are made; what runs between two \<^verbatim>\<open>await\<close>s is one step. A rejected operation
  and a fulfilled one settle alike.
\<close>

section \<open>Semaphore\<close>

text \<open>\<open>sm_holding\<close> are the calls between \<^verbatim>\<open>acquire\<close> and \<^verbatim>\<open>release\<close>, \<open>sm_acquired\<close> the calls of
  \<^verbatim>\<open>onAcquired\<close> so far; a waiter handed a permit holds it from then on.\<close>

record semaphore =
  sm_permits :: nat
  sm_queue :: "nat list"
  sm_holding :: "nat list"
  sm_acquired :: "nat list"

definition sem_new :: "int \<Rightarrow> semaphore" where
  "sem_new m = \<lparr>sm_permits = nat (max 1 m), sm_queue = [], sm_holding = [], sm_acquired = []\<rparr>"

definition sem_granted :: "nat \<Rightarrow> semaphore \<Rightarrow> semaphore" where
  "sem_granted i s = s\<lparr>sm_holding := sm_holding s @ [i], sm_acquired := sm_acquired s @ [i]\<rparr>"

definition sem_acquire :: "nat \<Rightarrow> semaphore \<Rightarrow> semaphore" where
  "sem_acquire i s =
     (if sm_permits s > 0 then sem_granted i (s\<lparr>sm_permits := sm_permits s - 1\<rparr>)
      else s\<lparr>sm_queue := sm_queue s @ [i]\<rparr>)"

definition sem_release :: "semaphore \<Rightarrow> semaphore" where
  "sem_release s =
     (case sm_queue s of
        n # rest \<Rightarrow> sem_granted n (s\<lparr>sm_queue := rest\<rparr>)
      | [] \<Rightarrow> s\<lparr>sm_permits := sm_permits s + 1\<rparr>)"

datatype sem_op = Sem_Run nat | Sem_Settle nat

fun sem_step :: "sem_op \<Rightarrow> semaphore \<Rightarrow> semaphore" where
  "sem_step (Sem_Run i) s = sem_acquire i s"
| "sem_step (Sem_Settle i) s =
     (if i \<in> set (sm_holding s) then sem_release (s\<lparr>sm_holding := remove1 i (sm_holding s)\<rparr>) else s)"

text \<open>The calls made, and how many of those running have settled.\<close>

fun sem_runs :: "sem_op list \<Rightarrow> nat list" where
  "sem_runs [] = []"
| "sem_runs (Sem_Run i # es) = i # sem_runs es"
| "sem_runs (Sem_Settle i # es) = sem_runs es"

fun sem_settled :: "sem_op list \<Rightarrow> semaphore \<Rightarrow> nat" where
  "sem_settled [] s = 0"
| "sem_settled (Sem_Run i # es) s = sem_settled es (sem_step (Sem_Run i) s)"
| "sem_settled (Sem_Settle i # es) s =
     (if i \<in> set (sm_holding s) then 1 else 0) + sem_settled es (sem_step (Sem_Settle i) s)"

definition sem_ok :: "nat \<Rightarrow> nat list \<Rightarrow> nat \<Rightarrow> semaphore \<Rightarrow> bool" where
  "sem_ok cap arrived settled s \<longleftrightarrow>
     sm_permits s + length (sm_holding s) = cap \<and> (sm_queue s = [] \<or> sm_permits s = 0)
     \<and> sm_acquired s @ sm_queue s = arrived \<and> length (sm_acquired s) = length (sm_holding s) + settled"

lemma sem_step_ok:
  assumes "sem_ok cap arrived settled s"
  shows "sem_ok cap (arrived @ sem_runs [e]) (settled + sem_settled [e] s) (sem_step e s)"
proof (cases e)
  case (Sem_Run i)
  with assms show ?thesis by (auto simp: sem_ok_def sem_acquire_def sem_granted_def)
next
  case (Sem_Settle i)
  show ?thesis
  proof (cases "i \<in> set (sm_holding s)")
    case True
    then have "length (sm_holding s) \<noteq> 0" by auto
    with True Sem_Settle assms show ?thesis
      by (cases "sm_queue s") (auto simp: sem_ok_def sem_release_def sem_granted_def length_remove1)
  next
    case False
    with Sem_Settle assms show ?thesis by simp
  qed
qed

lemma sem_run_ok:
  "sem_ok cap arrived settled s \<Longrightarrow> sem_ok cap (arrived @ sem_runs es) (settled + sem_settled es s) (fold sem_step es s)"
proof (induction es arbitrary: arrived settled s)
  case (Cons e es)
  have runs: "sem_runs (e # es) = sem_runs [e] @ sem_runs es" by (cases e) simp_all
  have settles: "sem_settled (e # es) s = sem_settled [e] s + sem_settled es (sem_step e s)" by (cases e) simp_all
  from Cons.IH [OF sem_step_ok [OF Cons.prems, of e]] show ?case by (simp only: runs settles) (simp add: add.assoc)
qed simp

text \<open>C22: the semaphore is a fair counting semaphore. However calls arrive and settle, free permits and
  running calls add up to the limit, nobody waits while a permit is free, and the calls that have got a permit
  are, in the order of their arrival, exactly as many of the first as the limit plus the number of settled
  calls: none is overtaken and none is forgotten.\<close>

theorem semaphore_fair:
  assumes "s = fold sem_step es (sem_new m)" and "cap = nat (max 1 m)"
  shows "sm_permits s + length (sm_holding s) = cap \<and> (sm_queue s = [] \<or> sm_permits s = 0)
    \<and> sm_acquired s = take (cap + sem_settled es (sem_new m)) (sem_runs es)
    \<and> sm_queue s = drop (cap + sem_settled es (sem_new m)) (sem_runs es)"
proof -
  have "sem_ok cap [] 0 (sem_new m)" using assms(2) by (simp add: sem_ok_def sem_new_def)
  from sem_run_ok [OF this, of es] assms(1)
  have ok: "sem_ok cap (sem_runs es) (sem_settled es (sem_new m)) s" by simp
  let ?n = "cap + sem_settled es (sem_new m)"
  have split: "sem_runs es = sm_acquired s @ sm_queue s" using ok by (simp add: sem_ok_def)
  have le: "length (sm_acquired s) \<le> ?n" using ok by (simp add: sem_ok_def)
  have "take ?n (sem_runs es) = sm_acquired s \<and> drop ?n (sem_runs es) = sm_queue s"
  proof (cases "sm_queue s = []")
    case True
    with split le show ?thesis by simp
  next
    case False
    with ok have "length (sm_acquired s) = ?n" by (auto simp: sem_ok_def)
    with split show ?thesis by simp
  qed
  with ok show ?thesis by (simp add: sem_ok_def)
qed

theorem semaphore_fair_witness:
  "sm_acquired (fold sem_step [Sem_Run 0, Sem_Run 1, Sem_Run 2, Sem_Settle 1] (sem_new 1)) = [0]
   \<and> sm_queue (fold sem_step [Sem_Run 0, Sem_Run 1, Sem_Run 2, Sem_Settle 0] (sem_new 0)) = [2]"
  using semaphore_fair [OF refl refl, of "[Sem_Run 0, Sem_Run 1, Sem_Run 2, Sem_Settle 1]" 1]
    semaphore_fair [OF refl refl, of "[Sem_Run 0, Sem_Run 1, Sem_Run 2, Sem_Settle 0]" 0]
  by (simp add: sem_new_def sem_acquire_def sem_granted_def sem_release_def)

section \<open>Singleflight\<close>

text \<open>\<open>sf_started\<close> holds the key of every operation started, \<open>sf_answers\<close> the operation each call was given.\<close>

record singleflight =
  sf_inflight :: "string \<rightharpoonup> nat"
  sf_started :: "string list"
  sf_settled :: "nat list"
  sf_answers :: "nat list"

definition sf_new :: singleflight where
  "sf_new = \<lparr>sf_inflight = Map.empty, sf_started = [], sf_settled = [], sf_answers = []\<rparr>"

definition sf_has :: "singleflight \<Rightarrow> string \<Rightarrow> bool" where
  "sf_has s k \<longleftrightarrow> sf_inflight s k \<noteq> None"

text \<open>\<open>throws\<close>: the callback throws before it returns a promise. The operation's \<^verbatim>\<open>finally\<close> then runs before
  the operation is entered in the map.\<close>

definition sf_finally :: "nat \<Rightarrow> singleflight \<Rightarrow> singleflight" where
  "sf_finally p s = s\<lparr>sf_settled := sf_settled s @ [p], sf_inflight := (sf_inflight s)(sf_started s ! p := None)\<rparr>"

definition sf_run :: "string \<Rightarrow> bool \<Rightarrow> singleflight \<Rightarrow> singleflight" where
  "sf_run k throws s =
     (case sf_inflight s k of
        Some p \<Rightarrow> s\<lparr>sf_answers := sf_answers s @ [p]\<rparr>
      | None \<Rightarrow>
          let p = length (sf_started s);
              s1 = s\<lparr>sf_started := sf_started s @ [k]\<rparr>;
              s2 = (if throws then sf_finally p s1 else s1)
          in s2\<lparr>sf_inflight := (sf_inflight s2)(k \<mapsto> p), sf_answers := sf_answers s2 @ [p]\<rparr>)"

definition sf_settle :: "nat \<Rightarrow> singleflight \<Rightarrow> singleflight" where
  "sf_settle p s = (if p < length (sf_started s) \<and> p \<notin> set (sf_settled s) then sf_finally p s else s)"

datatype sf_op = Sf_Run string bool | Sf_Settle nat

fun sf_step :: "sf_op \<Rightarrow> singleflight \<Rightarrow> singleflight" where
  "sf_step (Sf_Run k throws) s = sf_run k throws s"
| "sf_step (Sf_Settle p) s = sf_settle p s"

definition sf_live :: "singleflight \<Rightarrow> string \<Rightarrow> nat set" where
  "sf_live s k = {p. p < length (sf_started s) \<and> sf_started s ! p = k \<and> p \<notin> set (sf_settled s)}"

definition sf_ok :: "singleflight \<Rightarrow> bool" where
  "sf_ok s \<longleftrightarrow> (\<forall>k. sf_live s k = (case sf_inflight s k of None \<Rightarrow> {} | Some p \<Rightarrow> {p}))
     \<and> set (sf_settled s) \<subseteq> {..<length (sf_started s)}"

lemma sf_ok_new: "sf_ok sf_new"
  by (simp add: sf_ok_def sf_new_def sf_live_def)

lemma sf_live_start:
  assumes "set (sf_settled s) \<subseteq> {..<length (sf_started s)}"
  shows "sf_live (s\<lparr>sf_started := sf_started s @ [k], sf_inflight := f\<rparr>) j
    = (if j = k then insert (length (sf_started s)) (sf_live s j) else sf_live s j)"
  using assms by (auto simp: sf_live_def nth_append less_Suc_eq)

lemma sf_finally_fields [simp]:
  "sf_inflight (sf_finally p s) = (sf_inflight s)(sf_started s ! p := None)"
  "sf_started (sf_finally p s) = sf_started s"
  "sf_settled (sf_finally p s) = sf_settled s @ [p]"
  by (simp_all add: sf_finally_def)

lemma sf_live_finally: "sf_live (sf_finally p s) j = sf_live s j - {p}"
  by (auto simp: sf_live_def)

lemma sf_run_join: "sf_inflight s k = Some p \<Longrightarrow> sf_run k throws s = s\<lparr>sf_answers := sf_answers s @ [p]\<rparr>"
  by (simp add: sf_run_def)

lemma sf_run_fresh:
  "sf_inflight s k = None \<Longrightarrow> sf_run k False s =
     s\<lparr>sf_started := sf_started s @ [k], sf_inflight := (sf_inflight s)(k \<mapsto> length (sf_started s)),
       sf_answers := sf_answers s @ [length (sf_started s)]\<rparr>"
  by (simp add: sf_run_def Let_def)

lemma sf_live_answers [simp]: "sf_live (s\<lparr>sf_answers := a\<rparr>) j = sf_live s j"
  by (simp add: sf_live_def)

lemma sf_run_ok:
  assumes "sf_ok s"
  shows "sf_ok (sf_run k False s)"
proof (cases "sf_inflight s k")
  case None
  have in_range: "set (sf_settled s) \<subseteq> {..<length (sf_started s)}" using assms by (simp add: sf_ok_def)
  have "sf_live (sf_run k False s) j = (case sf_inflight (sf_run k False s) j of None \<Rightarrow> {} | Some p \<Rightarrow> {p})" for j
    using None assms by (simp add: sf_run_fresh sf_live_start [OF in_range] sf_ok_def)
  moreover have "set (sf_settled (sf_run k False s)) \<subseteq> {..<length (sf_started (sf_run k False s))}"
    using None in_range by (auto simp: sf_run_fresh)
  ultimately show ?thesis by (simp add: sf_ok_def)
next
  case (Some p)
  with assms show ?thesis by (simp add: sf_run_join sf_ok_def)
qed

lemma sf_settle_ok:
  assumes "sf_ok s"
  shows "sf_ok (sf_settle p s)"
proof (cases "p < length (sf_started s) \<and> p \<notin> set (sf_settled s)")
  case True
  then have p: "p \<in> sf_live s (sf_started s ! p)" by (simp add: sf_live_def)
  have own: "sf_live s j = (case sf_inflight s j of None \<Rightarrow> {} | Some q \<Rightarrow> {q})" for j
    using assms by (simp add: sf_ok_def)
  have "sf_live (sf_finally p s) j = (case sf_inflight (sf_finally p s) j of None \<Rightarrow> {} | Some q \<Rightarrow> {q})" for j
  proof (cases "j = sf_started s ! p")
    case True
    with p own [of j] show ?thesis by (cases "sf_inflight s j") (simp_all add: sf_live_finally)
  next
    case False
    then have "p \<notin> sf_live s j" by (simp add: sf_live_def)
    with False own [of j] show ?thesis by (simp add: sf_live_finally)
  qed
  with True assms show ?thesis by (simp add: sf_settle_def sf_ok_def)
next
  case False
  then have "sf_settle p s = s" unfolding sf_settle_def by (rule if_not_P)
  with assms show ?thesis by simp
qed

definition no_throw :: "sf_op \<Rightarrow> bool" where
  "no_throw e \<longleftrightarrow> (case e of Sf_Run k throws \<Rightarrow> \<not> throws | Sf_Settle p \<Rightarrow> True)"

lemma sf_run_steps_ok: "list_all no_throw es \<Longrightarrow> sf_ok s \<Longrightarrow> sf_ok (fold sf_step es s)"
proof (induction es arbitrary: s)
  case (Cons e es)
  then have "sf_ok (sf_step e s)"
    by (cases e) (auto simp: no_throw_def intro: sf_run_ok sf_settle_ok)
  with Cons show ?case by simp
qed simp

text \<open>Singleflight collapses concurrent calls. While callbacks return a promise, each key has at most one
  operation under way, \<^verbatim>\<open>has\<close> says whether there is one, and a call is answered by that operation if there is
  one and by a new one otherwise, so once it settled the next call starts afresh.\<close>

theorem singleflight_collapses:
  assumes "list_all no_throw es" and "s = fold sf_step es sf_new"
  shows "card (sf_live s k) \<le> 1 \<and> sf_has s k = (sf_live s k \<noteq> {})
    \<and> sf_live (sf_run k False s) k = {last (sf_answers (sf_run k False s))}
    \<and> sf_started (sf_run k False s) = (if sf_has s k then sf_started s else sf_started s @ [k])"
proof -
  have ok: "sf_ok s" using sf_run_steps_ok [OF assms(1) sf_ok_new] assms(2) by simp
  then have own: "sf_live s k = (case sf_inflight s k of None \<Rightarrow> {} | Some p \<Rightarrow> {p})" by (simp add: sf_ok_def)
  have own': "sf_live (sf_run k False s) k = (case sf_inflight (sf_run k False s) k of None \<Rightarrow> {} | Some p \<Rightarrow> {p})"
    using sf_run_ok [OF ok] by (simp add: sf_ok_def)
  show ?thesis
  proof (cases "sf_inflight s k")
    case None
    with own own' show ?thesis by (simp add: sf_has_def sf_run_fresh)
  next
    case (Some p)
    with own own' show ?thesis by (simp add: sf_has_def sf_run_join)
  qed
qed

theorem singleflight_collapses_witness:
  "sf_answers (fold sf_step [Sf_Run ''p'' False, Sf_Run ''p'' False, Sf_Settle 0, Sf_Run ''p'' False] sf_new) = [0, 0, 1]
   \<and> card (sf_live (fold sf_step [Sf_Run ''p'' False, Sf_Run ''p'' False] sf_new) ''p'') \<le> 1"
  using singleflight_collapses [OF _ refl, of "[Sf_Run ''p'' False, Sf_Run ''p'' False]" "''p''"]
  by (simp add: no_throw_def sf_new_def sf_run_def sf_settle_def sf_finally_def Let_def)

text \<open>A callback that throws at once poisons its key: the map keeps the failed operation, so every later call
  is answered by it and no operation for the key starts again.\<close>

definition sf_stuck :: "string \<Rightarrow> nat \<Rightarrow> singleflight \<Rightarrow> bool" where
  "sf_stuck k p s \<longleftrightarrow> sf_inflight s k = Some p \<and> sf_live s k = {} \<and> sf_started s ! p = k \<and> p < length (sf_started s)"

lemma sf_stuck_step:
  assumes "sf_stuck k p s"
  shows "sf_stuck k p (sf_step e s)"
proof (cases e)
  case (Sf_Run j throws)
  show ?thesis
  proof (cases "sf_inflight s j")
    case None
    with assms Sf_Run show ?thesis
      by (auto simp: sf_stuck_def sf_run_def Let_def sf_live_def nth_append less_Suc_eq)
  next
    case (Some q)
    with assms Sf_Run show ?thesis by (simp add: sf_stuck_def sf_run_join)
  qed
next
  case (Sf_Settle q)
  show ?thesis
  proof (cases "q < length (sf_started s) \<and> q \<notin> set (sf_settled s)")
    case True
    with assms have "sf_started s ! q \<noteq> k" by (auto simp: sf_stuck_def sf_live_def)
    with True assms Sf_Settle show ?thesis
      by (auto simp: sf_stuck_def sf_settle_def sf_live_finally)
  next
    case False
    with assms Sf_Settle show ?thesis by (auto simp: sf_settle_def)
  qed
qed

theorem singleflight_poisoned:
  assumes "sf_inflight s k = None" and "sf_live s k = {}"
  shows "sf_has (fold sf_step es (sf_run k True s)) k \<and> sf_live (fold sf_step es (sf_run k True s)) k = {}
    \<and> last (sf_answers (sf_run k t (fold sf_step es (sf_run k True s)))) = length (sf_started s)"
proof -
  have "sf_stuck k (length (sf_started s)) (sf_run k True s)"
    using assms by (auto simp: sf_stuck_def sf_run_def Let_def sf_live_def nth_append less_Suc_eq)
  then have "sf_stuck k (length (sf_started s)) (fold sf_step es (sf_run k True s))"
    by (induction es rule: rev_induct) (auto intro: sf_stuck_step)
  then show ?thesis by (simp add: sf_stuck_def sf_has_def sf_run_def)
qed

section \<open>Keyed mutex\<close>

text \<open>A call waits for \<^verbatim>\<open>prev\<close>, the tail it found; it runs, settles, and its \<^verbatim>\<open>finally\<close> then takes its
  own tail out of the map.\<close>

datatype mx_phase = Mx_Waiting | Mx_Running | Mx_Settled | Mx_Cleaned

record mx_call =
  mc_key :: string
  mc_prev :: "nat option"
  mc_phase :: mx_phase

record keyed_mutex =
  mx_tails :: "string \<rightharpoonup> nat"
  mx_calls :: "mx_call list"

definition mx_new :: keyed_mutex where
  "mx_new = \<lparr>mx_tails = Map.empty, mx_calls = []\<rparr>"

definition mx_over :: "keyed_mutex \<Rightarrow> nat \<Rightarrow> bool" where
  "mx_over s i \<longleftrightarrow> mc_phase (mx_calls s ! i) \<in> {Mx_Settled, Mx_Cleaned}"

definition mx_set_phase :: "nat \<Rightarrow> mx_phase \<Rightarrow> keyed_mutex \<Rightarrow> keyed_mutex" where
  "mx_set_phase i ph s = s\<lparr>mx_calls := (mx_calls s)[i := (mx_calls s ! i)\<lparr>mc_phase := ph\<rparr>]\<rparr>"

definition mx_run :: "string \<Rightarrow> keyed_mutex \<Rightarrow> keyed_mutex" where
  "mx_run k s =
     s\<lparr>mx_calls := mx_calls s @ [\<lparr>mc_key = k, mc_prev = mx_tails s k, mc_phase = Mx_Waiting\<rparr>],
       mx_tails := (mx_tails s)(k \<mapsto> length (mx_calls s))\<rparr>"

definition mx_start :: "nat \<Rightarrow> keyed_mutex \<Rightarrow> keyed_mutex" where
  "mx_start i s =
     (if i < length (mx_calls s) \<and> mc_phase (mx_calls s ! i) = Mx_Waiting
         \<and> (case mc_prev (mx_calls s ! i) of None \<Rightarrow> True | Some p \<Rightarrow> mx_over s p)
      then mx_set_phase i Mx_Running s else s)"

definition mx_settle :: "nat \<Rightarrow> keyed_mutex \<Rightarrow> keyed_mutex" where
  "mx_settle i s =
     (if i < length (mx_calls s) \<and> mc_phase (mx_calls s ! i) = Mx_Running
      then mx_set_phase i Mx_Settled s else s)"

definition mx_finally :: "nat \<Rightarrow> keyed_mutex \<Rightarrow> keyed_mutex" where
  "mx_finally i s =
     (if i < length (mx_calls s) \<and> mc_phase (mx_calls s ! i) = Mx_Settled
      then
        let s' = mx_set_phase i Mx_Cleaned s; k = mc_key (mx_calls s ! i)
        in if mx_tails s k = Some i then s'\<lparr>mx_tails := (mx_tails s)(k := None)\<rparr> else s'
      else s)"

datatype mx_op = Mx_Run string | Mx_Start nat | Mx_Settle nat | Mx_Finally nat

fun mx_step :: "mx_op \<Rightarrow> keyed_mutex \<Rightarrow> keyed_mutex" where
  "mx_step (Mx_Run k) s = mx_run k s"
| "mx_step (Mx_Start i) s = mx_start i s"
| "mx_step (Mx_Settle i) s = mx_settle i s"
| "mx_step (Mx_Finally i) s = mx_finally i s"

definition mx_key :: "keyed_mutex \<Rightarrow> nat \<Rightarrow> string" where
  "mx_key s i = mc_key (mx_calls s ! i)"

text \<open>\<open>linked\<close>: a call behind an unfinished one waits for that one or a later one; \<open>prevs\<close>: what it waits for is an earlier call of its key; \<open>turn\<close>: a call that got its
  turn has only finished calls before it; \<open>tail\<close>: the tail is the last call, and is missing only when all are
  finished.\<close>

definition mx_linked :: "keyed_mutex \<Rightarrow> bool" where
  "mx_linked s \<longleftrightarrow> (\<forall>j < length (mx_calls s). \<forall>i < j. mx_key s i = mx_key s j \<longrightarrow> \<not> mx_over s i \<longrightarrow>
     (\<exists>p. mc_prev (mx_calls s ! j) = Some p \<and> i \<le> p \<and> p < j \<and> mx_key s p = mx_key s j))"

definition mx_prevs :: "keyed_mutex \<Rightarrow> bool" where
  "mx_prevs s \<longleftrightarrow> (\<forall>j < length (mx_calls s). \<forall>p. mc_prev (mx_calls s ! j) = Some p \<longrightarrow> p < j \<and> mx_key s p = mx_key s j)"

definition mx_turn :: "keyed_mutex \<Rightarrow> bool" where
  "mx_turn s \<longleftrightarrow> (\<forall>j < length (mx_calls s). mc_phase (mx_calls s ! j) \<noteq> Mx_Waiting \<longrightarrow>
     (\<forall>i < j. mx_key s i = mx_key s j \<longrightarrow> mx_over s i))"

definition mx_tail :: "keyed_mutex \<Rightarrow> bool" where
  "mx_tail s \<longleftrightarrow> (\<forall>k. case mx_tails s k of
     None \<Rightarrow> \<forall>i < length (mx_calls s). mx_key s i = k \<longrightarrow> mx_over s i
   | Some t \<Rightarrow> t < length (mx_calls s) \<and> mx_key s t = k \<and> mc_phase (mx_calls s ! t) \<noteq> Mx_Cleaned
       \<and> (\<forall>i < length (mx_calls s). mx_key s i = k \<longrightarrow> i \<le> t))"

definition mx_ok :: "keyed_mutex \<Rightarrow> bool" where
  "mx_ok s \<longleftrightarrow> mx_linked s \<and> mx_prevs s \<and> mx_turn s \<and> mx_tail s"

lemma mx_ok_new: "mx_ok mx_new"
  by (simp add: mx_ok_def mx_linked_def mx_prevs_def mx_turn_def mx_tail_def mx_new_def)

lemma mx_set_phase_simps [simp]:
  "length (mx_calls (mx_set_phase i ph s)) = length (mx_calls s)"
  "mx_tails (mx_set_phase i ph s) = mx_tails s"
  by (simp_all add: mx_set_phase_def)

lemma mx_set_phase_const [simp]:
  "mc_prev (mx_calls (mx_set_phase i ph s) ! j) = mc_prev (mx_calls s ! j)"
  "mx_key (mx_set_phase i ph s) j = mx_key s j"
  by (cases "i < length (mx_calls s)"; cases "j = i"; simp add: mx_set_phase_def mx_key_def list_update_beyond)+

lemma mx_set_phase_phase:
  "i < length (mx_calls s) \<Longrightarrow>
   mc_phase (mx_calls (mx_set_phase i ph s) ! j) = (if j = i then ph else mc_phase (mx_calls s ! j))"
  by (simp add: mx_set_phase_def nth_list_update)

lemma mx_run_ok:
  assumes ok: "mx_ok s"
  shows "mx_ok (mx_run k s)"
proof -
  let ?n = "length (mx_calls s)" and ?s = "mx_run k s"
  have len: "length (mx_calls ?s) = Suc ?n" by (simp add: mx_run_def)
  have old: "mx_calls ?s ! i = mx_calls s ! i" if "i < ?n" for i using that by (simp add: mx_run_def nth_append)
  have new: "mx_calls ?s ! ?n = \<lparr>mc_key = k, mc_prev = mx_tails s k, mc_phase = Mx_Waiting\<rparr>" by (simp add: mx_run_def)
  have over: "mx_over ?s i = mx_over s i" if "i < ?n" for i using that by (simp add: mx_over_def old)
  have tails: "mx_tails ?s = (mx_tails s)(k \<mapsto> ?n)" by (simp add: mx_run_def)
  have tail: "case mx_tails s k of
      None \<Rightarrow> \<forall>i < ?n. mx_key s i = k \<longrightarrow> mx_over s i
    | Some t \<Rightarrow> t < ?n \<and> mx_key s t = k \<and> mc_phase (mx_calls s ! t) \<noteq> Mx_Cleaned
       \<and> (\<forall>i < ?n. mx_key s i = k \<longrightarrow> i \<le> t)" for k
    using ok by (simp add: mx_ok_def mx_tail_def)
  have "mx_linked ?s"
    unfolding mx_linked_def
  proof (intro allI impI)
    fix j i assume j: "j < length (mx_calls ?s)" and i: "i < j" and eq: "mx_key ?s i = mx_key ?s j"
      and run: "\<not> mx_over ?s i"
    show "\<exists>p. mc_prev (mx_calls ?s ! j) = Some p \<and> i \<le> p \<and> p < j \<and> mx_key ?s p = mx_key ?s j"
    proof (cases "j < ?n")
      case True
      with i eq run have "\<exists>p. mc_prev (mx_calls s ! j) = Some p \<and> i \<le> p \<and> p < j \<and> mx_key s p = mx_key s j"
        using ok by (simp add: mx_ok_def mx_linked_def mx_key_def old over len)
      with True show ?thesis using len by (auto simp: mx_key_def old)
    next
      case False
      with j len have jn: "j = ?n" by simp
      with i eq len have "mx_key s i = k" by (simp add: mx_key_def old new)
      with i run jn tail [of k] over obtain t where "mx_tails s k = Some t" "i \<le> t" "t < ?n" "mx_key s t = k"
        by (cases "mx_tails s k") auto
      with jn show ?thesis by (simp add: mx_key_def new old len)
    qed
  qed
  moreover have "mx_prevs ?s"
    unfolding mx_prevs_def
  proof (intro allI impI)
    fix j p assume j: "j < length (mx_calls ?s)" and p: "mc_prev (mx_calls ?s ! j) = Some p"
    show "p < j \<and> mx_key ?s p = mx_key ?s j"
    proof (cases "j < ?n")
      case True
      with p ok show ?thesis by (auto simp: mx_ok_def mx_prevs_def mx_key_def old)
    next
      case False
      with j len have jn: "j = ?n" by simp
      with p tail [of k] show ?thesis by (simp add: new mx_key_def old)
    qed
  qed
  moreover have "mx_turn ?s"
    unfolding mx_turn_def
  proof (intro allI impI)
    fix j i assume "j < length (mx_calls ?s)" and j: "mc_phase (mx_calls ?s ! j) \<noteq> Mx_Waiting" and i: "i < j"
      and eq: "mx_key ?s i = mx_key ?s j"
    then have "j < ?n" using len new by (cases "j = ?n") simp_all
    with i j eq ok show "mx_over ?s i" by (simp add: mx_ok_def mx_turn_def mx_key_def old over len)
  qed
  moreover have "mx_tail ?s"
    unfolding mx_tail_def
  proof
    fix j
    show "case mx_tails ?s j of None \<Rightarrow> \<forall>i < length (mx_calls ?s). mx_key ?s i = j \<longrightarrow> mx_over ?s i
      | Some t \<Rightarrow> t < length (mx_calls ?s) \<and> mx_key ?s t = j \<and> mc_phase (mx_calls ?s ! t) \<noteq> Mx_Cleaned
         \<and> (\<forall>i < length (mx_calls ?s). mx_key ?s i = j \<longrightarrow> i \<le> t)"
    proof (cases "j = k")
      case True
      then show ?thesis by (auto simp: mx_key_def tails len new)
    next
      case False
      with tail [of j] show ?thesis
        by (cases "mx_tails s j") (auto simp: mx_key_def tails len old over new less_Suc_eq)
    qed
  qed
  ultimately show ?thesis by (simp add: mx_ok_def)
qed

lemma mx_linked_mono:
  assumes "mx_linked s" and "length (mx_calls s') = length (mx_calls s)" and "\<And>j. mx_key s' j = mx_key s j"
    and "\<And>j. mc_prev (mx_calls s' ! j) = mc_prev (mx_calls s ! j)" and "\<And>j. mx_over s j \<Longrightarrow> mx_over s' j"
  shows "mx_linked s'"
  using assms unfolding mx_linked_def by metis

lemma mx_prevs_mono:
  assumes "mx_prevs s" and "length (mx_calls s') = length (mx_calls s)" and "\<And>j. mx_key s' j = mx_key s j"
    and "\<And>j. mc_prev (mx_calls s' ! j) = mc_prev (mx_calls s ! j)"
  shows "mx_prevs s'"
  using assms by (simp add: mx_prevs_def)

lemma mx_turnD:
  "mx_ok s \<Longrightarrow> j < length (mx_calls s) \<Longrightarrow> mc_phase (mx_calls s ! j) \<noteq> Mx_Waiting \<Longrightarrow> i < j
   \<Longrightarrow> mx_key s i = mx_key s j \<Longrightarrow> mx_over s i"
  by (simp add: mx_ok_def mx_turn_def)

lemma mx_prev_before:
  "mx_ok s \<Longrightarrow> j < length (mx_calls s) \<Longrightarrow> mc_prev (mx_calls s ! j) = Some p \<Longrightarrow> p < j \<and> mx_key s p = mx_key s j"
  by (simp add: mx_ok_def mx_prevs_def)

lemma mx_tail_mono:
  assumes "mx_tail s" and "length (mx_calls s') = length (mx_calls s)" and "\<And>j. mx_key s' j = mx_key s j"
    and "mx_tails s' = mx_tails s" and "\<And>j. mx_over s j \<Longrightarrow> mx_over s' j"
    and "\<And>j. mc_phase (mx_calls s ! j) \<noteq> Mx_Cleaned \<Longrightarrow> mc_phase (mx_calls s' ! j) \<noteq> Mx_Cleaned"
  shows "mx_tail s'"
  unfolding mx_tail_def
proof
  fix k
  show "case mx_tails s' k of None \<Rightarrow> \<forall>i < length (mx_calls s'). mx_key s' i = k \<longrightarrow> mx_over s' i
    | Some t \<Rightarrow> t < length (mx_calls s') \<and> mx_key s' t = k \<and> mc_phase (mx_calls s' ! t) \<noteq> Mx_Cleaned
       \<and> (\<forall>i < length (mx_calls s'). mx_key s' i = k \<longrightarrow> i \<le> t)"
    using spec [OF assms(1) [unfolded mx_tail_def], of k] assms(2-)
    by (cases "mx_tails s k") simp_all
qed

lemma mx_turn_intro:
  assumes "\<And>i j. j < length (mx_calls s) \<Longrightarrow> mc_phase (mx_calls s ! j) \<noteq> Mx_Waiting \<Longrightarrow> i < j
    \<Longrightarrow> mx_key s i = mx_key s j \<Longrightarrow> mx_over s i"
  shows "mx_turn s"
  using assms by (simp add: mx_turn_def)

lemma mx_waiting_turn:
  assumes "mx_ok s" and "i < length (mx_calls s)" and "j < i" and "mx_key s j = mx_key s i"
    and prev: "case mc_prev (mx_calls s ! i) of None \<Rightarrow> True | Some p \<Rightarrow> mx_over s p"
  shows "mx_over s j"
proof (rule ccontr)
  assume run: "\<not> mx_over s j"
  with assms obtain p where p: "mc_prev (mx_calls s ! i) = Some p" "j \<le> p" "p < i" "mx_key s p = mx_key s i"
    by (auto simp: mx_ok_def mx_linked_def)
  with prev have over: "mx_over s p" by simp
  with run p have "j < p" by (cases "j = p") auto
  moreover have "mc_phase (mx_calls s ! p) \<noteq> Mx_Waiting" using over by (auto simp: mx_over_def)
  ultimately show False
    using mx_turnD [of s p j] assms p run by simp
qed

lemma mx_start_ok:
  assumes ok: "mx_ok s"
  shows "mx_ok (mx_start i s)"
proof (cases "i < length (mx_calls s) \<and> mc_phase (mx_calls s ! i) = Mx_Waiting
    \<and> (case mc_prev (mx_calls s ! i) of None \<Rightarrow> True | Some p \<Rightarrow> mx_over s p)")
  case True
  then have i: "i < length (mx_calls s)" and w: "mc_phase (mx_calls s ! i) = Mx_Waiting"
    and p: "case mc_prev (mx_calls s ! i) of None \<Rightarrow> True | Some p \<Rightarrow> mx_over s p" by simp_all
  have ok': "mx_linked s" "mx_prevs s" "mx_tail s" using ok by (simp_all add: mx_ok_def)
  let ?s = "mx_set_phase i Mx_Running s"
  have over: "mx_over ?s j = mx_over s j" for j using w by (simp add: mx_over_def mx_set_phase_phase [OF i])
  have "mx_linked ?s" by (rule mx_linked_mono [OF ok'(1)]) (simp_all add: over)
  moreover have "mx_prevs ?s" by (rule mx_prevs_mono [OF ok'(2)]) (simp_all)
  moreover have "mx_turn ?s"
  proof (rule mx_turn_intro)
    fix a j
    assume j: "j < length (mx_calls ?s)" "mc_phase (mx_calls ?s ! j) \<noteq> Mx_Waiting" and a: "a < j"
      and key: "mx_key ?s a = mx_key ?s j"
    show "mx_over ?s a"
    proof (cases "j = i")
      case True
      with a key mx_waiting_turn [OF ok i _ _ p, of a] show ?thesis by (simp add: over)
    next
      case False
      with j a key mx_turnD [OF ok, of j a] show ?thesis by (simp add: over mx_set_phase_phase [OF i])
    qed
  qed
  moreover have "mx_tail ?s"
    by (rule mx_tail_mono [OF ok'(3)]) (simp_all add: over mx_set_phase_phase [OF i])
  ultimately have "mx_ok ?s" by (simp add: mx_ok_def)
  moreover have "mx_start i s = ?s" using True unfolding mx_start_def by (rule if_P)
  ultimately show ?thesis by simp
next
  case False
  then have "mx_start i s = s" unfolding mx_start_def by (rule if_not_P)
  with ok show ?thesis by simp
qed

lemma mx_settle_ok:
  assumes ok: "mx_ok s"
  shows "mx_ok (mx_settle i s)"
proof (cases "i < length (mx_calls s) \<and> mc_phase (mx_calls s ! i) = Mx_Running")
  case True
  then have i: "i < length (mx_calls s)" and r: "mc_phase (mx_calls s ! i) = Mx_Running" by simp_all
  have ok': "mx_linked s" "mx_prevs s" "mx_tail s" using ok by (simp_all add: mx_ok_def)
  let ?s = "mx_set_phase i Mx_Settled s"
  have over: "mx_over ?s j = (j = i \<or> mx_over s j)" for j by (simp add: mx_over_def mx_set_phase_phase [OF i])
  have "mx_linked ?s" by (rule mx_linked_mono [OF ok'(1)]) (simp_all add: over)
  moreover have "mx_prevs ?s" by (rule mx_prevs_mono [OF ok'(2)]) (simp_all)
  moreover have "mx_turn ?s"
  proof (rule mx_turn_intro)
    fix a j
    assume j: "j < length (mx_calls ?s)" "mc_phase (mx_calls ?s ! j) \<noteq> Mx_Waiting" and a: "a < j"
      and key: "mx_key ?s a = mx_key ?s j"
    have "mc_phase (mx_calls s ! j) \<noteq> Mx_Waiting" using j r by (cases "j = i") (simp_all add: mx_set_phase_phase [OF i])
    with j a key mx_turnD [OF ok, of j a] show "mx_over ?s a" by (simp add: over)
  qed
  moreover have "mx_tail ?s"
    by (rule mx_tail_mono [OF ok'(3)]) (simp_all add: over mx_set_phase_phase [OF i])
  ultimately have "mx_ok ?s" by (simp add: mx_ok_def)
  with True show ?thesis by (simp add: mx_settle_def)
next
  case False
  then have "mx_settle i s = s" unfolding mx_settle_def by (rule if_not_P)
  with ok show ?thesis by simp
qed

lemma mx_finally_ok:
  assumes ok: "mx_ok s"
  shows "mx_ok (mx_finally i s)"
proof (cases "i < length (mx_calls s) \<and> mc_phase (mx_calls s ! i) = Mx_Settled")
  case True
  then have i: "i < length (mx_calls s)" and r: "mc_phase (mx_calls s ! i) = Mx_Settled" by simp_all
  have ok': "mx_linked s" "mx_prevs s" "mx_tail s" using ok by (simp_all add: mx_ok_def)
  let ?k = "mc_key (mx_calls s ! i)" and ?s = "mx_finally i s"
  have calls: "mx_calls ?s = mx_calls (mx_set_phase i Mx_Cleaned s)"
    using True by (simp add: mx_finally_def Let_def)
  have tails: "mx_tails ?s = (if mx_tails s ?k = Some i then (mx_tails s)(?k := None) else mx_tails s)"
    using True by (simp add: mx_finally_def Let_def)
  have len: "length (mx_calls ?s) = length (mx_calls s)" by (simp add: calls)
  have keys: "mx_key ?s j = mx_key s j" for j by (simp add: mx_key_def calls, simp add: mx_key_def [symmetric])
  have phase: "mc_phase (mx_calls ?s ! j) = (if j = i then Mx_Cleaned else mc_phase (mx_calls s ! j))" for j
    by (simp add: calls mx_set_phase_phase [OF i])
  have over: "mx_over ?s j = mx_over s j" for j using r by (simp add: mx_over_def phase)
  have "mx_linked ?s" by (rule mx_linked_mono [OF ok'(1)]) (simp_all add: over len keys, simp add: calls)
  moreover have "mx_prevs ?s" by (rule mx_prevs_mono [OF ok'(2)]) (simp_all add: len keys, simp add: calls)
  moreover have "mx_turn ?s"
  proof (rule mx_turn_intro)
    fix a j
    assume j: "j < length (mx_calls ?s)" "mc_phase (mx_calls ?s ! j) \<noteq> Mx_Waiting" and a: "a < j"
      and key: "mx_key ?s a = mx_key ?s j"
    have "mc_phase (mx_calls s ! j) \<noteq> Mx_Waiting" using j r by (cases "j = i") (simp_all add: phase)
    with j a key mx_turnD [OF ok, of j a] show "mx_over ?s a" by (simp add: over len keys)
  qed
  moreover have "mx_tail ?s"
    unfolding mx_tail_def
  proof
    fix k
    have t: "case mx_tails s k of None \<Rightarrow> \<forall>i < length (mx_calls s). mx_key s i = k \<longrightarrow> mx_over s i
      | Some t \<Rightarrow> t < length (mx_calls s) \<and> mx_key s t = k \<and> mc_phase (mx_calls s ! t) \<noteq> Mx_Cleaned
       \<and> (\<forall>i < length (mx_calls s). mx_key s i = k \<longrightarrow> i \<le> t)"
      using ok by (simp add: mx_ok_def mx_tail_def)
    show "case mx_tails ?s k of None \<Rightarrow> \<forall>i < length (mx_calls ?s). mx_key ?s i = k \<longrightarrow> mx_over ?s i
      | Some t \<Rightarrow> t < length (mx_calls ?s) \<and> mx_key ?s t = k \<and> mc_phase (mx_calls ?s ! t) \<noteq> Mx_Cleaned
         \<and> (\<forall>i < length (mx_calls ?s). mx_key ?s i = k \<longrightarrow> i \<le> t)"
    proof (cases "mx_tails s k = Some i")
      case True
      with t i have ki: "mx_key s i = k" and last: "\<forall>j < length (mx_calls s). mx_key s j = k \<longrightarrow> j \<le> i" by simp_all
      have "mx_over s j" if "j < length (mx_calls s)" "mx_key s j = k" for j
      proof (cases "j = i")
        case True
        with r show ?thesis by (simp add: mx_over_def)
      next
        case False
        with last that have "j < i" by (metis le_neq_implies_less)
        with that ki i r mx_turnD [OF ok, of i j] show ?thesis by simp
      qed
      moreover have "mx_tails ?s k = None" using True ki by (simp add: tails mx_key_def)
      ultimately show ?thesis by (simp add: len keys over)
    next
      case False
      with t i show ?thesis
        by (cases "mx_tails s k") (auto simp: tails len keys over phase)
    qed
  qed
  ultimately show ?thesis by (simp add: mx_ok_def)
next
  case False
  then have "mx_finally i s = s" unfolding mx_finally_def by (rule if_not_P)
  with ok show ?thesis by simp
qed

interpretation keyed_mutex: machine mx_step mx_ok
proof
  fix s and e
  assume "mx_ok s"
  then show "mx_ok (mx_step e s)"
    by (cases e) (simp_all add: mx_run_ok mx_start_ok mx_settle_ok mx_finally_ok)
qed

text \<open>C21: one call per key at a time, in the order of arrival. However calls on any keys interleave, at most
  one call of a key runs; a call that got its turn has only finished calls of its key before it; the first
  unfinished call of a key can always start; and once all calls of a key are through, the map has no entry
  for it.\<close>

theorem keyed_mutex_serial:
  assumes "s = fold mx_step es mx_new"
  shows "card {i. i < length (mx_calls s) \<and> mx_key s i = k \<and> mc_phase (mx_calls s ! i) = Mx_Running} \<le> 1
    \<and> {i. i < length (mx_calls s) \<and> mc_phase (mx_calls s ! i) \<noteq> Mx_Waiting}
        \<subseteq> {i. {j. j < i \<and> mx_key s j = mx_key s i} \<subseteq> {j. mx_over s j}}
    \<and> {i. i < length (mx_calls s) \<and> mc_phase (mx_calls s ! i) = Mx_Waiting
          \<and> {j. j < i \<and> mx_key s j = mx_key s i} \<subseteq> {j. mx_over s j}}
        \<subseteq> {i. mc_phase (mx_calls (mx_start i s) ! i) = Mx_Running}
    \<and> (mx_tails s k = None
       \<or> {i. i < length (mx_calls s) \<and> mx_key s i = k \<and> mc_phase (mx_calls s ! i) \<noteq> Mx_Cleaned} \<noteq> {})"
proof -
  have ok: "mx_ok s" using keyed_mutex.run_inv [OF mx_ok_new] assms by simp
  have turn: "mx_over s i" if "j < length (mx_calls s)" "mc_phase (mx_calls s ! j) \<noteq> Mx_Waiting" "i < j"
    "mx_key s i = mx_key s j" for i j using ok that by (simp add: mx_ok_def mx_turn_def)
  let ?R = "{i. i < length (mx_calls s) \<and> mx_key s i = k \<and> mc_phase (mx_calls s ! i) = Mx_Running}"
  have one: "i = j" if "i \<in> ?R" "j \<in> ?R" for i j
  proof (rule ccontr)
    assume "i \<noteq> j"
    with that turn [of i j] turn [of j i] show False by (auto simp: mx_over_def neq_iff)
  qed
  have one_runs: "card ?R \<le> 1"
  proof (cases "\<exists>i. i \<in> ?R")
    case True
    then obtain i where "i \<in> ?R" by blast
    with one have "?R = {i}" by blast
    then show ?thesis by simp
  next
    case False
    then have "?R = {}" by blast
    then show ?thesis by (simp only: card.empty)
  qed
  have starts: "mc_phase (mx_calls (mx_start i s) ! i) = Mx_Running"
    if i: "i < length (mx_calls s)" "mc_phase (mx_calls s ! i) = Mx_Waiting"
      and before: "{j. j < i \<and> mx_key s j = mx_key s i} \<subseteq> {j. mx_over s j}" for i
  proof -
    have "case mc_prev (mx_calls s ! i) of None \<Rightarrow> True | Some p \<Rightarrow> mx_over s p"
      using mx_prev_before [OF ok i(1)] before by (auto split: option.splits)
    with i show ?thesis by (simp add: mx_start_def mx_set_phase_phase)
  qed
  have tail: "mx_tails s k = None
      \<or> {i. i < length (mx_calls s) \<and> mx_key s i = k \<and> mc_phase (mx_calls s ! i) \<noteq> Mx_Cleaned} \<noteq> {}"
  proof (cases "mx_tails s k")
    case (Some t)
    have "mx_tail s" using ok by (simp add: mx_ok_def)
    from spec [OF this [unfolded mx_tail_def], of k] Some
    have "t < length (mx_calls s) \<and> mx_key s t = k \<and> mc_phase (mx_calls s ! t) \<noteq> Mx_Cleaned" by simp
    then show ?thesis by blast
  qed simp
  have "{i. i < length (mx_calls s) \<and> mc_phase (mx_calls s ! i) \<noteq> Mx_Waiting}
      \<subseteq> {i. {j. j < i \<and> mx_key s j = mx_key s i} \<subseteq> {j. mx_over s j}}"
    using turn by blast
  moreover have "{i. i < length (mx_calls s) \<and> mc_phase (mx_calls s ! i) = Mx_Waiting
      \<and> {j. j < i \<and> mx_key s j = mx_key s i} \<subseteq> {j. mx_over s j}}
    \<subseteq> {i. mc_phase (mx_calls (mx_start i s) ! i) = Mx_Running}"
    using starts by blast
  ultimately show ?thesis using one_runs tail by (intro conjI)
qed

theorem keyed_mutex_serial_witness:
  "card {i. i < 2 \<and> mc_phase (mx_calls (fold mx_step [Mx_Run ''p'', Mx_Start 0, Mx_Run ''p'', Mx_Start 1] mx_new) ! i) = Mx_Running} \<le> 1"
proof -
  define s where "s = fold mx_step [Mx_Run ''p'', Mx_Start 0, Mx_Run ''p'', Mx_Start 1] mx_new"
  have calls: "mx_calls s = [\<lparr>mc_key = ''p'', mc_prev = None, mc_phase = Mx_Running\<rparr>,
      \<lparr>mc_key = ''p'', mc_prev = Some 0, mc_phase = Mx_Waiting\<rparr>]"
    unfolding s_def by code_simp
  then have "mx_key s i = ''p''" if "i < 2" for i using that by (auto simp: mx_key_def less_2_cases_iff)
  then have "{i. i < 2 \<and> mc_phase (mx_calls s ! i) = Mx_Running}
      = {i. i < length (mx_calls s) \<and> mx_key s i = ''p'' \<and> mc_phase (mx_calls s ! i) = Mx_Running}"
    using calls by (auto simp: numeral_2_eq_2)
  with keyed_mutex_serial [OF s_def, of "''p''"] show ?thesis by (simp add: s_def)
qed

end
