(* ===== verification/Js_Text.thy ===== *)
theory Js_Text
  imports Prelude "HOL-Library.Word"
begin

text \<open>
  JavaScript strings as UTF-16 code units, and the parts of the Encoding standard the sources call:
  \<^verbatim>\<open>TextEncoder.encode\<close>, and \<^verbatim>\<open>TextDecoder.decode\<close> with its default options (malformed input gives
  U+FFFD, a leading byte order mark is dropped). The decoder is the standard's state machine.
\<close>

type_synonym utf16 = "16 word list"
type_synonym bytes = "8 word list"

definition lit :: "string \<Rightarrow> utf16" where
  "lit s = map (\<lambda>c. word_of_nat (of_char c)) s"

text \<open>\<^verbatim>\<open>String.prototype.trim\<close> and the class \<^verbatim>\<open>\s\<close>.\<close>

definition js16_space :: "16 word \<Rightarrow> bool" where
  "js16_space u \<longleftrightarrow>
     (let n = unat u
      in (9 \<le> n \<and> n \<le> 13) \<or> n \<in> {32, 160, 5760, 8232, 8233, 8239, 8287, 12288, 65279} \<or> (8192 \<le> n \<and> n \<le> 8202))"

definition trim16 :: "utf16 \<Rightarrow> utf16" where
  "trim16 s = rev (dropWhile js16_space (rev (dropWhile js16_space s)))"

section \<open>Code points\<close>

definition high_surrogate :: "nat \<Rightarrow> bool" where
  "high_surrogate n \<longleftrightarrow> 55296 \<le> n \<and> n < 56320"

definition low_surrogate :: "nat \<Rightarrow> bool" where
  "low_surrogate n \<longleftrightarrow> 56320 \<le> n \<and> n < 57344"

text \<open>A scalar value: a code point that is no surrogate.\<close>

definition scalar :: "nat \<Rightarrow> bool" where
  "scalar n \<longleftrightarrow> n < 55296 \<or> (57344 \<le> n \<and> n < 1114112)"

definition replacement :: nat where
  "replacement = 65533"

definition utf16_of :: "nat \<Rightarrow> utf16" where
  "utf16_of c =
     (if c < 65536 then [word_of_nat c]
      else [word_of_nat (55296 + (c - 65536) div 1024), word_of_nat (56320 + (c - 65536) mod 1024)])"

fun code_points :: "utf16 \<Rightarrow> nat list" where
  "code_points [] = []"
| "code_points [u] = [if high_surrogate (unat u) \<or> low_surrogate (unat u) then replacement else unat u]"
| "code_points (u # v # us) =
     (if high_surrogate (unat u) \<and> low_surrogate (unat v)
      then (65536 + (unat u - 55296) * 1024 + (unat v - 56320)) # code_points us
      else (if high_surrogate (unat u) \<or> low_surrogate (unat u) then replacement else unat u) # code_points (v # us))"

section \<open>UTF-8\<close>

definition utf8_of :: "nat \<Rightarrow> bytes" where
  "utf8_of c =
     (if c < 128 then [word_of_nat c]
      else if c < 2048 then [word_of_nat (192 + c div 64), word_of_nat (128 + c mod 64)]
      else if c < 65536
      then [word_of_nat (224 + c div 4096), word_of_nat (128 + c div 64 mod 64), word_of_nat (128 + c mod 64)]
      else [word_of_nat (240 + c div 262144), word_of_nat (128 + c div 4096 mod 64),
            word_of_nat (128 + c div 64 mod 64), word_of_nat (128 + c mod 64)])"

definition text_encode :: "utf16 \<Rightarrow> bytes" where
  "text_encode s = concat (map utf8_of (code_points s))"

text \<open>\<open>need\<close> is the number of bytes still needed, \<open>cp\<close> the code point so far; the next byte must lie between
  \<open>lo\<close> and \<open>hi\<close>, or the sequence is given up and the byte read again.\<close>

function utf8_decode :: "nat \<Rightarrow> nat \<Rightarrow> nat \<Rightarrow> nat \<Rightarrow> bytes \<Rightarrow> nat list" where
  "utf8_decode need lo hi cp [] = (if need = 0 then [] else [replacement])"
| "utf8_decode need lo hi cp (w # ws) =
     (let b = unat w
      in if need = 0
         then
           (if b < 128 then b # utf8_decode 0 128 191 0 ws
            else if 194 \<le> b \<and> b \<le> 223 then utf8_decode 1 128 191 (b - 192) ws
            else if 224 \<le> b \<and> b \<le> 239
            then utf8_decode 2 (if b = 224 then 160 else 128) (if b = 237 then 159 else 191) (b - 224) ws
            else if 240 \<le> b \<and> b \<le> 244
            then utf8_decode 3 (if b = 240 then 144 else 128) (if b = 244 then 143 else 191) (b - 240) ws
            else replacement # utf8_decode 0 128 191 0 ws)
         else if b < lo \<or> hi < b then replacement # utf8_decode 0 128 191 0 (w # ws)
         else
           (let cp' = cp * 64 + (b - 128)
            in if need = 1 then cp' # utf8_decode 0 128 191 0 ws
               else utf8_decode (need - 1) 128 191 cp' ws))"
  by pat_completeness auto
termination
  by (relation "measure (\<lambda>(need, _, _, _, ws). 2 * length ws + (if need = 0 then 0 else 1))") auto

declare utf8_decode.simps [simp del]

definition utf8_scalars :: "bytes \<Rightarrow> nat list" where
  "utf8_scalars ws = utf8_decode 0 128 191 0 ws"

definition strip_bom :: "nat list \<Rightarrow> nat list" where
  "strip_bom cs = (case cs of c # rest \<Rightarrow> if c = 65279 then rest else cs | [] \<Rightarrow> [])"

definition text_decode :: "bytes \<Rightarrow> utf16" where
  "text_decode ws = concat (map utf16_of (strip_bom (utf8_scalars ws)))"

section \<open>Lemmas\<close>

lemma unat_byte: "n < 256 \<Longrightarrow> unat (word_of_nat n :: 8 word) = n"
  by (simp add: unsigned_of_nat take_bit_nat_eq_self)

lemma unat_unit: "n < 65536 \<Longrightarrow> unat (word_of_nat n :: 16 word) = n"
  by (simp add: unsigned_of_nat take_bit_nat_eq_self)

lemma unat_16: "unat (u :: 16 word) < 65536"
  using unsigned_less [of u, where ?'a = nat] by simp

lemma utf8_scalars_ascii [simp]:
  "utf8_scalars [] = []"
  "unat w < 128 \<Longrightarrow> utf8_scalars (w # ws) = unat w # utf8_scalars ws"
  by (simp_all add: utf8_scalars_def utf8_decode.simps)

lemma decode_lead:
  "194 \<le> b \<Longrightarrow> b \<le> 223 \<Longrightarrow> utf8_decode 0 lo hi cp (word_of_nat b # ws) = utf8_decode 1 128 191 (b - 192) ws"
  "224 \<le> b \<Longrightarrow> b \<le> 239 \<Longrightarrow> utf8_decode 0 lo hi cp (word_of_nat b # ws)
     = utf8_decode 2 (if b = 224 then 160 else 128) (if b = 237 then 159 else 191) (b - 224) ws"
  "240 \<le> b \<Longrightarrow> b \<le> 244 \<Longrightarrow> utf8_decode 0 lo hi cp (word_of_nat b # ws)
     = utf8_decode 3 (if b = 240 then 144 else 128) (if b = 244 then 143 else 191) (b - 240) ws"
  by (simp_all add: utf8_decode.simps unat_byte)

lemma decode_cont:
  "lo \<le> 128 + b \<Longrightarrow> 128 + b \<le> hi \<Longrightarrow> b < 64 \<Longrightarrow> 0 < need \<Longrightarrow>
   utf8_decode need lo hi cp (word_of_nat (128 + b) # ws)
     = (if need = 1 then (cp * 64 + b) # utf8_decode 0 128 191 0 ws
        else utf8_decode (need - 1) 128 191 (cp * 64 + b) ws)"
  by (simp add: utf8_decode.simps unat_byte del: of_nat_add)

lemmas decode_steps = decode_lead decode_cont

lemma utf8_scalars_utf8_of:
  assumes "scalar c"
  shows "utf8_scalars (utf8_of c @ ws) = c # utf8_scalars ws"
proof -
  consider "c < 128" | "128 \<le> c" "c < 2048" | "2048 \<le> c" "c < 65536" | "65536 \<le> c" "c < 1114112"
    using assms by (force simp: scalar_def)
  then show ?thesis
  proof cases
    case 1
    then show ?thesis by (simp add: utf8_of_def unat_byte)
  next
    case 2
    let ?a = "c div 64" and ?d = "c mod 64"
    have r: "2 \<le> ?a" "?a < 32" "?d < 64" using 2 by simp_all
    have "utf8_scalars (utf8_of c @ ws) = (?a * 64 + ?d) # utf8_scalars ws"
      using 2 r by (simp add: utf8_of_def utf8_scalars_def decode_steps del: of_nat_add)
    then show ?thesis by simp
  next
    case 3
    let ?a = "c div 4096" and ?b = "c div 64 mod 64" and ?d = "c mod 64"
    have r: "?a < 16" "?b < 64" "?d < 64" using 3 by simp_all
    have c: "c = ?a * 4096 + ?b * 64 + ?d"
    proof -
      have "c = c div 64 * 64 + ?d" "c div 64 = ?a * 64 + ?b"
        by (simp_all add: div_mult2_eq [of c 64 64, simplified])
      then show ?thesis by linarith
    qed
    have lo: "(if ?a = 0 then 160 else 128) \<le> 128 + ?b" using 3 c r by (split if_split) (intro conjI impI; linarith)
    have hi: "128 + ?b \<le> (if ?a = 13 then 159 else 191)"
    proof (cases "?a = 13")
      case True
      then have "c < 55296" using assms 3 c r by (auto simp: scalar_def)
      with True c show ?thesis by simp
    qed (use r in simp)
    have "utf8_scalars (utf8_of c @ ws) = ((?a * 64 + ?b) * 64 + ?d) # utf8_scalars ws"
      using 3 r lo hi by (simp add: utf8_of_def utf8_scalars_def decode_steps del: of_nat_add)
    moreover have "(?a * 64 + ?b) * 64 + ?d = c" using c by (simp add: algebra_simps)
    ultimately show ?thesis by simp
  next
    case 4
    let ?a = "c div 262144" and ?e = "c div 4096 mod 64" and ?b = "c div 64 mod 64" and ?d = "c mod 64"
    have r: "?a \<le> 4" "?e < 64" "?b < 64" "?d < 64" using 4 by simp_all
    have c: "c = ?a * 262144 + ?e * 4096 + ?b * 64 + ?d"
    proof -
      have "c = c div 64 * 64 + ?d" "c div 64 = c div 4096 * 64 + ?b" "c div 4096 = ?a * 64 + ?e"
        by (simp_all add: div_mult2_eq [of c 64 64, simplified] div_mult2_eq [of c 4096 64, simplified])
      then show ?thesis by linarith
    qed
    have lo: "(if ?a = 0 then 144 else 128) \<le> 128 + ?e" using 4 c r by (split if_split) (intro conjI impI; linarith)
    have hi: "128 + ?e \<le> (if ?a = 4 then 143 else 191)" using 4 c r by (split if_split) (intro conjI impI; linarith)
    have "utf8_scalars (utf8_of c @ ws) = (((?a * 64 + ?e) * 64 + ?b) * 64 + ?d) # utf8_scalars ws"
      using 4 r lo hi by (simp add: utf8_of_def utf8_scalars_def decode_steps del: of_nat_add)
    moreover have "((?a * 64 + ?e) * 64 + ?b) * 64 + ?d = c" using c by (simp add: algebra_simps)
    ultimately show ?thesis by simp
  qed
qed

lemma utf8_scalars_encode: "list_all scalar cs \<Longrightarrow> utf8_scalars (concat (map utf8_of cs) @ ws) = cs @ utf8_scalars ws"
  by (induction cs) (simp_all add: utf8_scalars_utf8_of)

lemma code_points_scalar: "list_all scalar (code_points s)"
proof (induction s rule: code_points.induct)
  case (2 u)
  then show ?case using unat_16 [of u] by (auto simp: scalar_def high_surrogate_def low_surrogate_def replacement_def)
next
  case (3 u v us)
  then show ?case using unat_16 [of u]
    by (auto simp: scalar_def high_surrogate_def low_surrogate_def replacement_def)
qed simp

text \<open>A string without lone surrogates.\<close>

fun well_formed :: "utf16 \<Rightarrow> bool" where
  "well_formed [] \<longleftrightarrow> True"
| "well_formed [u] \<longleftrightarrow> \<not> high_surrogate (unat u) \<and> \<not> low_surrogate (unat u)"
| "well_formed (u # v # us) \<longleftrightarrow>
     (if high_surrogate (unat u) then low_surrogate (unat v) \<and> well_formed us
      else \<not> low_surrogate (unat u) \<and> well_formed (v # us))"

lemma utf16_of_unit: "utf16_of (unat (u :: 16 word)) = [u]"
  using unat_16 [of u] by (simp add: utf16_of_def)

lemma utf16_of_pair:
  assumes "high_surrogate (unat u)" and "low_surrogate (unat v)"
  shows "utf16_of (65536 + (unat u - 55296) * 1024 + (unat v - 56320)) = [u, v]"
proof -
  have "unat v - 56320 < 1024" using assms by (auto simp: low_surrogate_def)
  then have "((unat u - 55296) * 1024 + (unat v - 56320)) div 1024 = unat u - 55296"
    "((unat u - 55296) * 1024 + (unat v - 56320)) mod 1024 = unat v - 56320" by simp_all
  moreover have "55296 + (unat u - 55296) = unat u" "56320 + (unat v - 56320) = unat v"
    using assms by (simp_all add: high_surrogate_def low_surrogate_def)
  ultimately show ?thesis by (simp add: utf16_of_def add.assoc)
qed

lemma utf16_code_points: "well_formed s \<Longrightarrow> concat (map utf16_of (code_points s)) = s"
proof (induction s rule: code_points.induct)
  case (3 u v us)
  then show ?case by (cases "high_surrogate (unat u)") (simp_all add: utf16_of_pair utf16_of_unit)
qed (simp_all add: utf16_of_unit)

lemma text_round_trip:
  assumes "well_formed s" and "s = [] \<or> unat (hd s) \<noteq> 65279"
  shows "text_decode (text_encode s) = s"
proof -
  have "utf8_scalars (text_encode s) = code_points s"
    using utf8_scalars_encode [OF code_points_scalar, of s "[]"] by (simp add: text_encode_def)
  moreover have "strip_bom (code_points s) = code_points s"
    using assms by (cases s rule: code_points.cases) (auto simp: strip_bom_def high_surrogate_def low_surrogate_def)
  ultimately show ?thesis by (simp add: text_decode_def utf16_code_points [OF assms(1)])
qed

text \<open>ASCII.\<close>

definition ascii :: "utf16 \<Rightarrow> bool" where
  "ascii s \<longleftrightarrow> list_all (\<lambda>u. unat u < 128) s"

lemma code_points_ascii: "ascii s \<Longrightarrow> code_points s = map unat s"
  by (induction s rule: code_points.induct) (auto simp: ascii_def high_surrogate_def low_surrogate_def)

lemma well_formed_ascii: "ascii s \<Longrightarrow> well_formed (s @ t) = well_formed t"
proof (induction s)
  case (Cons u s)
  then have "well_formed (u # (s @ t)) = well_formed (s @ t)"
    by (cases "s @ t") (auto simp: ascii_def high_surrogate_def low_surrogate_def)
  with Cons show ?case by (simp add: ascii_def)
qed simp

end
