(* ===== verification/Json.thy ===== *)
theory Json
  imports Js_Text
begin

text \<open>
  \<^verbatim>\<open>JSON.parse\<close> and \<^verbatim>\<open>JSON.stringify\<close> (without indentation) on strings of UTF-16 units. A number is an
  exact rational; it is written in plain decimal notation, which is what JavaScript does for numbers of up to 15
  significant digits between 1e-6 and 1e21. The parser is a scanner followed by a pushdown automaton over tokens,
  so it needs no fuel.
\<close>

datatype json =
    JNull
  | JBool bool
  | JNum rat
  | JStr utf16
  | JArr "json list"
  | JObj "(utf16 \<times> json) list"

section \<open>Writing\<close>

function dec_text :: "nat \<Rightarrow> utf16" where
  "dec_text n = (if n < 10 then [word_of_nat (48 + n)] else dec_text (n div 10) @ [word_of_nat (48 + n mod 10)])"
  by pat_completeness auto
termination
  by (relation "measure id") auto

declare dec_text.simps [simp del]

fun pad_zeros :: "nat \<Rightarrow> utf16 \<Rightarrow> utf16" where
  "pad_zeros k ds = replicate (k - length ds) 48 @ ds"

text \<open>The least number of decimals, up to \<open>k\<close>, that represent \<open>q\<close>.\<close>

fun decimals :: "nat \<Rightarrow> rat \<Rightarrow> nat" where
  "decimals 0 q = 0"
| "decimals (Suc k) q = (if snd (quotient_of q) = 1 then 0 else Suc (decimals k (q * 10)))"

definition number_text :: "rat \<Rightarrow> utf16" where
  "number_text q =
     (let k = decimals 20 q; n = nat \<lfloor>\<bar>q\<bar> * 10 ^ k\<rfloor>; sign = (if q < 0 then [45] else [])
      in if k = 0 then sign @ dec_text n
         else sign @ dec_text (n div 10 ^ k) @ [46] @ pad_zeros k (dec_text (n mod 10 ^ k)))"

definition hex_unit :: "nat \<Rightarrow> 16 word" where
  "hex_unit d = word_of_nat (if d < 10 then 48 + d else 87 + d)"

definition escape_unit :: "16 word \<Rightarrow> utf16" where
  "escape_unit u =
     (let n = unat u
      in [92, 117, hex_unit (n div 4096), hex_unit (n div 256 mod 16), hex_unit (n div 16 mod 16), hex_unit (n mod 16)])"

definition quote_unit :: "16 word \<Rightarrow> utf16" where
  "quote_unit u =
     (let n = unat u
      in if n = 8 then [92, 98] else if n = 9 then [92, 116] else if n = 10 then [92, 110]
         else if n = 12 then [92, 102] else if n = 13 then [92, 114]
         else if n = 34 then [92, 34] else if n = 92 then [92, 92]
         else if n < 32 \<or> high_surrogate n \<or> low_surrogate n then escape_unit u
         else [u])"

fun quote_body :: "utf16 \<Rightarrow> utf16" where
  "quote_body [] = []"
| "quote_body [u] = quote_unit u"
| "quote_body (u # v # us) =
     (if high_surrogate (unat u) \<and> low_surrogate (unat v) then u # v # quote_body us
      else quote_unit u @ quote_body (v # us))"

definition quote :: "utf16 \<Rightarrow> utf16" where
  "quote s = [34] @ quote_body s @ [34]"

fun json_text :: "json \<Rightarrow> utf16" and json_texts :: "json list \<Rightarrow> utf16"
  and entry_texts :: "(utf16 \<times> json) list \<Rightarrow> utf16" where
  "json_text JNull = lit ''null''"
| "json_text (JBool b) = (if b then lit ''true'' else lit ''false'')"
| "json_text (JNum q) = number_text q"
| "json_text (JStr s) = quote s"
| "json_text (JArr vs) = [91] @ json_texts vs @ [93]"
| "json_text (JObj es) = [123] @ entry_texts es @ [125]"
| "json_texts [] = []"
| "json_texts [v] = json_text v"
| "json_texts (v # w # vs) = json_text v @ [44] @ json_texts (w # vs)"
| "entry_texts [] = []"
| "entry_texts [(k, v)] = quote k @ [58] @ json_text v"
| "entry_texts ((k, v) # e # es) = quote k @ [58] @ json_text v @ [44] @ entry_texts (e # es)"

text \<open>With an array as second argument, \<^verbatim>\<open>JSON.stringify\<close> writes of every object, at any depth, the listed
  properties it has, in the order of the list.\<close>

fun restrict_json :: "utf16 list \<Rightarrow> json \<Rightarrow> json" and restrict_all :: "utf16 list \<Rightarrow> json list \<Rightarrow> json list"
  and restrict_entries :: "utf16 list \<Rightarrow> (utf16 \<times> json) list \<Rightarrow> (utf16 \<times> json) list" where
  "restrict_json ks (JArr vs) = JArr (restrict_all ks vs)"
| "restrict_json ks (JObj es) =
     JObj (let rs = restrict_entries ks es
           in List.map_filter (\<lambda>k. map_option (Pair k) (map_of rs k)) ks)"
| "restrict_json ks v = v"
| "restrict_all ks [] = []"
| "restrict_all ks (v # vs) = restrict_json ks v # restrict_all ks vs"
| "restrict_entries ks [] = []"
| "restrict_entries ks ((k, v) # es) = (k, restrict_json ks v) # restrict_entries ks es"

definition json_text_of_keys :: "utf16 list \<Rightarrow> json \<Rightarrow> utf16" where
  "json_text_of_keys ks v = json_text (restrict_json ks v)"

section \<open>Scanning\<close>

datatype token =
    T_LBrace | T_RBrace | T_LBrack | T_RBrack | T_Colon | T_Comma
  | T_Null | T_Bool bool | T_Num rat | T_Str utf16

definition json_space :: "16 word \<Rightarrow> bool" where
  "json_space u \<longleftrightarrow> unat u \<in> {9, 10, 13, 32}"

definition digit :: "16 word \<Rightarrow> bool" where
  "digit u \<longleftrightarrow> 48 \<le> unat u \<and> unat u \<le> 57"

definition hex_value :: "16 word \<Rightarrow> nat option" where
  "hex_value u =
     (let n = unat u
      in if 48 \<le> n \<and> n \<le> 57 then Some (n - 48)
         else if 97 \<le> n \<and> n \<le> 102 then Some (n - 87)
         else if 65 \<le> n \<and> n \<le> 70 then Some (n - 55) else None)"

definition hex4 :: "16 word \<Rightarrow> 16 word \<Rightarrow> 16 word \<Rightarrow> 16 word \<Rightarrow> 16 word option" where
  "hex4 a b c d =
     (case (hex_value a, hex_value b, hex_value c, hex_value d) of
        (Some x, Some y, Some z, Some w) \<Rightarrow> Some (word_of_nat (x * 4096 + y * 256 + z * 16 + w))
      | _ \<Rightarrow> None)"

definition unescape :: "16 word \<Rightarrow> 16 word option" where
  "unescape e =
     (let n = unat e
      in if n = 34 \<or> n = 92 \<or> n = 47 then Some e
         else if n = 98 then Some 8 else if n = 102 then Some 12 else if n = 110 then Some 10
         else if n = 114 then Some 13 else if n = 116 then Some 9 else None)"

definition prepend :: "16 word \<Rightarrow> (utf16 \<times> utf16) option \<Rightarrow> (utf16 \<times> utf16) option" where
  "prepend u r = map_option (\<lambda>(s, rest). (u # s, rest)) r"

text \<open>What follows a backslash: the unit it stands for.\<close>

definition scan_escape :: "utf16 \<Rightarrow> (16 word \<times> utf16) option" where
  "scan_escape s =
     (case s of
        [] \<Rightarrow> None
      | e # r \<Rightarrow>
          if unat e = 117 then
            (case r of
               a # b # c # d # r' \<Rightarrow> map_option (\<lambda>v. (v, r')) (hex4 a b c d)
             | _ \<Rightarrow> None)
          else map_option (\<lambda>v. (v, r)) (unescape e))"

lemma scan_escape_shorter: "scan_escape s = Some (v, r) \<Longrightarrow> length r < length s"
  by (auto simp: scan_escape_def split: list.splits if_splits)

function scan_string :: "utf16 \<Rightarrow> (utf16 \<times> utf16) option" where
  "scan_string s =
     (case s of
        [] \<Rightarrow> None
      | u # r \<Rightarrow>
          if unat u = 34 then Some ([], r)
          else if unat u = 92 then
            (case scan_escape r of None \<Rightarrow> None | Some (v, r') \<Rightarrow> prepend v (scan_string r'))
          else if unat u < 32 then None
          else prepend u (scan_string r))"
  by pat_completeness auto
termination
  by (relation "measure length") (auto dest: scan_escape_shorter)

declare scan_string.simps [simp del]

lemma scan_string_simps:
  "scan_string [] = None"
  "scan_string (u # r) =
     (if unat u = 34 then Some ([], r)
      else if unat u = 92 then
        (case scan_escape r of None \<Rightarrow> None | Some (v, r') \<Rightarrow> prepend v (scan_string r'))
      else if unat u < 32 then None
      else prepend u (scan_string r))"
  by (simp_all add: scan_string.simps)

definition digits_value :: "utf16 \<Rightarrow> nat" where
  "digits_value ds = foldl (\<lambda>n u. n * 10 + (unat u - 48)) 0 ds"

text \<open>Each part of a number literal: the value so far and the rest, or no value when the part is malformed.\<close>

definition scan_fraction :: "rat \<Rightarrow> utf16 \<Rightarrow> (rat \<times> utf16) option" where
  "scan_fraction q s =
     (case s of
        u # r \<Rightarrow>
          if unat u = 46 then
            (let ds = takeWhile digit r
             in if ds = [] then None
                else Some (q + of_nat (digits_value ds) / 10 ^ length ds, dropWhile digit r))
          else Some (q, s)
      | [] \<Rightarrow> Some (q, s))"

definition scan_exponent :: "rat \<Rightarrow> utf16 \<Rightarrow> (rat \<times> utf16) option" where
  "scan_exponent q s =
     (case s of
        u # r \<Rightarrow>
          if unat u = 101 \<or> unat u = 69 then
            (let neg = (r \<noteq> [] \<and> unat (hd r) = 45);
                 r1 = (if r \<noteq> [] \<and> (unat (hd r) = 43 \<or> unat (hd r) = 45) then tl r else r);
                 ds = takeWhile digit r1; e = digits_value ds
             in if ds = [] then None
                else Some (if neg then q / 10 ^ e else q * 10 ^ e, dropWhile digit r1))
          else Some (q, s)
      | [] \<Rightarrow> Some (q, s))"

definition scan_unsigned :: "utf16 \<Rightarrow> (rat \<times> utf16) option" where
  "scan_unsigned s =
     (let ds = takeWhile digit s
      in if ds = [] \<or> (1 < length ds \<and> unat (hd ds) = 48) then None
         else
           (case scan_fraction (of_nat (digits_value ds)) (dropWhile digit s) of
              None \<Rightarrow> None
            | Some (q, r) \<Rightarrow> scan_exponent q r))"

definition scan_number :: "utf16 \<Rightarrow> (rat \<times> utf16) option" where
  "scan_number s =
     (case s of
        u # r \<Rightarrow>
          if unat u = 45 then map_option (\<lambda>(q, r). (- q, r)) (scan_unsigned r) else scan_unsigned s
      | [] \<Rightarrow> None)"

definition scan_word :: "string \<Rightarrow> utf16 \<Rightarrow> utf16 option" where
  "scan_word w s = (if take (length w) s = lit w then Some (drop (length w) s) else None)"

lemma scan_string_shorter: "scan_string s = Some (v, r) \<Longrightarrow> length r < length s"
proof (induction "length s" arbitrary: s v r rule: less_induct)
  case less
  from less.prems obtain u rest where s: "s = u # rest" by (cases s) (simp_all add: scan_string_simps)
  from less.prems consider "r = rest" | w where "scan_string rest = Some (w, r)"
    | v' r' w where "scan_escape rest = Some (v', r')" "scan_string r' = Some (w, r)"
    by (auto simp: s scan_string_simps prepend_def split: if_splits option.splits)
  then show ?case
  proof cases
    case 2
    then show ?thesis using less.hyps [of rest] by (fastforce simp: s)
  next
    case 3
    then show ?thesis using less.hyps [of r'] scan_escape_shorter [of rest v' r'] by (fastforce simp: s)
  qed (simp add: s)
qed

lemma scan_fraction_le: "scan_fraction q s = Some (v, r) \<Longrightarrow> length r \<le> length s"
  by (auto simp: scan_fraction_def Let_def split: list.splits if_splits intro: le_SucI length_dropWhile_le)

lemma scan_exponent_le: "scan_exponent q s = Some (v, r) \<Longrightarrow> length r \<le> length s"
  by (auto simp: scan_exponent_def Let_def split: list.splits if_splits
      intro: le_SucI length_dropWhile_le le_trans [OF length_dropWhile_le])

lemma scan_unsigned_shorter:
  assumes "scan_unsigned s = Some (v, r)"
  shows "length r < length s"
proof -
  from assms obtain q r1 where ds: "takeWhile digit s \<noteq> []"
    and f: "scan_fraction (of_nat (digits_value (takeWhile digit s))) (dropWhile digit s) = Some (q, r1)"
    and e: "scan_exponent q r1 = Some (v, r)"
    by (auto simp: scan_unsigned_def Let_def split: if_splits option.splits)
  from ds have "length (dropWhile digit s) < length s"
    by (cases s) (auto simp: le_imp_less_Suc length_dropWhile_le split: if_splits)
  with scan_fraction_le [OF f] scan_exponent_le [OF e] show ?thesis by simp
qed

lemma scan_number_shorter: "scan_number s = Some (v, r) \<Longrightarrow> length r < length s"
  by (cases s) (auto simp: scan_number_def split: if_splits dest!: scan_unsigned_shorter)

lemma scan_word_shorter: "w \<noteq> [] \<Longrightarrow> scan_word w s = Some r \<Longrightarrow> length r < length s"
  by (cases s) (auto simp: scan_word_def lit_def split: if_splits)

definition punctuation :: "16 word \<Rightarrow> token option" where
  "punctuation u =
     (let n = unat u
      in if n = 123 then Some T_LBrace else if n = 125 then Some T_RBrace else if n = 91 then Some T_LBrack
         else if n = 93 then Some T_RBrack else if n = 58 then Some T_Colon else if n = 44 then Some T_Comma else None)"

text \<open>One token, which does not start with a space.\<close>

definition scan_token :: "utf16 \<Rightarrow> (token \<times> utf16) option" where
  "scan_token s =
     (case s of
        [] \<Rightarrow> None
      | u # r \<Rightarrow>
          (case punctuation u of
             Some t \<Rightarrow> Some (t, r)
           | None \<Rightarrow>
               if unat u = 34 then map_option (\<lambda>(v, r). (T_Str v, r)) (scan_string r)
               else if unat u = 110 then map_option (Pair T_Null) (scan_word ''null'' s)
               else if unat u = 116 then map_option (Pair (T_Bool True)) (scan_word ''true'' s)
               else if unat u = 102 then map_option (Pair (T_Bool False)) (scan_word ''false'' s)
               else map_option (\<lambda>(q, r). (T_Num q, r)) (scan_number s)))"

lemma scan_token_shorter: "scan_token s = Some (t, r) \<Longrightarrow> length r < length s"
  by (cases s) (auto simp: scan_token_def split: if_splits option.splits
      dest: scan_string_shorter scan_number_shorter scan_word_shorter [rotated])

function tokens :: "utf16 \<Rightarrow> token list option" where
  "tokens s =
     (case s of
        [] \<Rightarrow> Some []
      | u # r \<Rightarrow>
          if json_space u then tokens r
          else
            (case scan_token s of
               None \<Rightarrow> None
             | Some (t, rest) \<Rightarrow> map_option (Cons t) (tokens rest)))"
  by pat_completeness auto
termination
  by (relation "measure length") (auto dest: scan_token_shorter)

declare tokens.simps [simp del]

section \<open>Parsing\<close>

datatype frame = F_Arr "json list" | F_Obj "(utf16 \<times> json) list" utf16

datatype expect =
    X_Value bool
  | X_Key "(utf16 \<times> json) list" bool
  | X_Colon "(utf16 \<times> json) list" utf16
  | X_Done json

text \<open>\<open>X_Value True\<close> may be the end of an empty array, \<open>X_Key [] True\<close> the end of an empty object; a key that
  occurs again keeps its place and takes the later value.\<close>

fun parse_tokens :: "expect \<Rightarrow> frame list \<Rightarrow> token list \<Rightarrow> json option" where
  "parse_tokens x fs [] = (case (x, fs) of (X_Done v, []) \<Rightarrow> Some v | _ \<Rightarrow> None)"
| "parse_tokens (X_Value b) fs (t # ts) =
     (case t of
        T_Null \<Rightarrow> parse_tokens (X_Done JNull) fs ts
      | T_Bool v \<Rightarrow> parse_tokens (X_Done (JBool v)) fs ts
      | T_Num q \<Rightarrow> parse_tokens (X_Done (JNum q)) fs ts
      | T_Str s \<Rightarrow> parse_tokens (X_Done (JStr s)) fs ts
      | T_LBrack \<Rightarrow> parse_tokens (X_Value True) (F_Arr [] # fs) ts
      | T_LBrace \<Rightarrow> parse_tokens (X_Key [] True) fs ts
      | T_RBrack \<Rightarrow>
          (case fs of F_Arr vs # fs' \<Rightarrow> if b then parse_tokens (X_Done (JArr vs)) fs' ts else None | _ \<Rightarrow> None)
      | _ \<Rightarrow> None)"
| "parse_tokens (X_Key es b) fs (t # ts) =
     (case t of
        T_Str k \<Rightarrow> parse_tokens (X_Colon es k) fs ts
      | T_RBrace \<Rightarrow> if b then parse_tokens (X_Done (JObj es)) fs ts else None
      | _ \<Rightarrow> None)"
| "parse_tokens (X_Colon es k) fs (t # ts) =
     (case t of T_Colon \<Rightarrow> parse_tokens (X_Value False) (F_Obj es k # fs) ts | _ \<Rightarrow> None)"
| "parse_tokens (X_Done v) fs (t # ts) =
     (case fs of
        F_Arr vs # fs' \<Rightarrow>
          (case t of
             T_Comma \<Rightarrow> parse_tokens (X_Value False) (F_Arr (vs @ [v]) # fs') ts
           | T_RBrack \<Rightarrow> parse_tokens (X_Done (JArr (vs @ [v]))) fs' ts
           | _ \<Rightarrow> None)
      | F_Obj es k # fs' \<Rightarrow>
          (case t of
             T_Comma \<Rightarrow> parse_tokens (X_Key (om_set k v es) False) fs' ts
           | T_RBrace \<Rightarrow> parse_tokens (X_Done (JObj (om_set k v es))) fs' ts
           | _ \<Rightarrow> None)
      | [] \<Rightarrow> None)"

definition json_parse :: "utf16 \<Rightarrow> json option" where
  "json_parse s = (case tokens s of None \<Rightarrow> None | Some ts \<Rightarrow> parse_tokens (X_Value False) [] ts)"

text \<open>A property read: \<^verbatim>\<open>undefined\<close> is \<^const>\<open>None\<close>.\<close>

definition json_get :: "json \<Rightarrow> utf16 \<Rightarrow> json option" where
  "json_get v k = (case v of JObj es \<Rightarrow> map_of es k | _ \<Rightarrow> None)"

end
