(* ===== verification/Json_Trip.thy ===== *)
theory Json_Trip
  imports Json
begin

text \<open>
  What \<^verbatim>\<open>JSON.stringify\<close> writes, \<^verbatim>\<open>JSON.parse\<close> reads back: strings, integers, then every value with
  integer numbers and distinct keys.
\<close>

section \<open>Strings\<close>

lemma hex_value_unit: "d < 16 \<Longrightarrow> hex_value (hex_unit d) = Some d"
  by (auto simp: hex_value_def hex_unit_def unat_unit Let_def simp del: of_nat_add)

lemma hex4_escape:
  "hex4 (hex_unit (n div 4096)) (hex_unit (n div 256 mod 16)) (hex_unit (n div 16 mod 16)) (hex_unit (n mod 16))
   = Some (word_of_nat n)" if "n < 65536"
proof -
  have "n = n div 4096 * 4096 + n div 256 mod 16 * 256 + n div 16 mod 16 * 16 + n mod 16"
  proof -
    have "n = n div 16 * 16 + n mod 16" "n div 16 = n div 256 * 16 + n div 16 mod 16"
      "n div 256 = n div 4096 * 16 + n div 256 mod 16"
      by (simp_all add: div_mult2_eq [of n 16 16, simplified] div_mult2_eq [of n 256 16, simplified])
    then show ?thesis by linarith
  qed
  with that show ?thesis by (simp add: hex4_def hex_value_unit del: of_nat_add of_nat_mult)
qed

lemma scan_string_plain:
  "32 \<le> unat u \<Longrightarrow> unat u \<noteq> 34 \<Longrightarrow> unat u \<noteq> 92 \<Longrightarrow> scan_string (u # t) = prepend u (scan_string t)"
  by (simp add: scan_string_simps)

lemma word_unat_eq: "unat (u :: 16 word) = n \<Longrightarrow> u = word_of_nat n"
  by auto

lemma scan_quote_unit: "scan_string (quote_unit u @ t) = prepend u (scan_string t)"
proof -
  have u: "unat u < 65536" by (rule unat_16)
  have escape: "scan_string (escape_unit u @ t) = prepend u (scan_string t)"
    using hex4_escape [OF u] by (simp add: escape_unit_def Let_def scan_string_simps scan_escape_def)
  show ?thesis
    by (auto simp: quote_unit_def Let_def escape scan_string_plain scan_string_simps scan_escape_def unescape_def
        dest!: word_unat_eq)
qed

lemma scan_quote_body: "scan_string (quote_body s @ 34 # r) = Some (s, r)"
proof (induction s rule: quote_body.induct)
  case 1
  then show ?case by (simp add: scan_string_simps)
next
  case (2 u)
  then show ?case by (simp add: scan_quote_unit scan_string_simps prepend_def)
next
  case (3 u v us)
  show ?case
  proof (cases "high_surrogate (unat u) \<and> low_surrogate (unat v)")
    case True
    then have "55296 \<le> unat u" "56320 \<le> unat v" by (simp_all add: high_surrogate_def low_surrogate_def)
    with True 3 show ?thesis by (simp add: scan_string_plain prepend_def)
  next
    case False
    then have "quote_body (u # v # us) = quote_unit u @ quote_body (v # us)"
      unfolding quote_body.simps by (rule if_not_P)
    with 3(2) [OF False] show ?thesis by (simp add: scan_quote_unit prepend_def del: quote_body.simps)
  qed
qed

section \<open>Integers\<close>

lemma unat_digit: "d < 10 \<Longrightarrow> unat (word_of_nat (48 + d) :: 16 word) = 48 + d"
  by (rule unat_unit) simp

lemma digit_unit: "d < 10 \<Longrightarrow> digit (word_of_nat (48 + d))"
  by (simp add: digit_def unat_digit del: of_nat_add)

lemma dec_text_eqs:
  "n < 10 \<Longrightarrow> dec_text n = [word_of_nat (48 + n)]"
  "\<not> n < 10 \<Longrightarrow> dec_text n = dec_text (n div 10) @ [word_of_nat (48 + n mod 10)]"
  by (subst dec_text.simps, simp)+

lemma dec_text_digits: "list_all digit (dec_text n)"
proof (induction n rule: dec_text.induct)
  case (1 n)
  show ?case
    by (subst dec_text.simps) (use 1 in \<open>simp add: digit_unit del: of_nat_add\<close>)
qed

lemma dec_text_value: "digits_value (dec_text n) = n"
proof (induction n rule: dec_text.induct)
  case (1 n)
  show ?case
  proof (cases "n < 10")
    case True
    then show ?thesis by (subst dec_text.simps) (simp add: digits_value_def unat_digit del: of_nat_add)
  next
    case False
    with 1 show ?thesis
      by (subst dec_text.simps) (simp add: digits_value_def unat_digit del: of_nat_add)
  qed
qed

lemma dec_text_head: "dec_text n \<noteq> [] \<and> (n \<noteq> 0 \<longrightarrow> unat (hd (dec_text n)) \<noteq> 48) \<and> (n = 0 \<longrightarrow> dec_text n = [48])"
proof (induction n rule: dec_text.induct)
  case (1 n)
  show ?case
  proof (cases "n < 10")
    case True
    then show ?thesis by (auto simp: dec_text_eqs unat_digit simp del: of_nat_add)
  next
    case False
    then have "n div 10 \<noteq> 0" "n \<noteq> 0" by simp_all
    with False 1 show ?thesis by (simp add: dec_text_eqs)
  qed
qed

lemma takeWhile_all: "list_all P xs \<Longrightarrow> (r = [] \<or> \<not> P (hd r)) \<Longrightarrow> takeWhile P (xs @ r) = xs \<and> dropWhile P (xs @ r) = r"
  by (induction xs) (cases r; simp)+

text \<open>What may follow a value: the end, or one of \<^verbatim>\<open>, ] }\<close>.\<close>

definition follows :: "utf16 \<Rightarrow> bool" where
  "follows r \<longleftrightarrow> r = [] \<or> unat (hd r) \<in> {44, 93, 125}"

lemma scan_dec_text:
  assumes "follows r"
  shows "scan_unsigned (dec_text n @ r) = Some (of_nat n, r)"
proof -
  have "r = [] \<or> \<not> digit (hd r)" using assms by (auto simp: follows_def digit_def)
  with takeWhile_all [OF dec_text_digits]
  have split: "takeWhile digit (dec_text n @ r) = dec_text n" "dropWhile digit (dec_text n @ r) = r" by blast+
  have "\<not> (dec_text n = [] \<or> (1 < length (dec_text n) \<and> unat (hd (dec_text n)) = 48))"
    using dec_text_head [of n] by auto
  moreover have "scan_fraction q r = Some (q, r)" "scan_exponent q r = Some (q, r)" for q
  proof -
    have "r = [] \<or> (\<exists>u us. r = u # us \<and> unat u \<in> {44, 93, 125})" using assms by (cases r) (simp_all add: follows_def)
    then show "scan_fraction q r = Some (q, r)" "scan_exponent q r = Some (q, r)"
      by (auto simp: scan_fraction_def scan_exponent_def)
  qed
  ultimately show ?thesis unfolding scan_unsigned_def Let_def split dec_text_value by simp
qed

definition integral :: "rat \<Rightarrow> bool" where
  "integral q \<longleftrightarrow> snd (quotient_of q) = 1"

lemma integral_int: "integral q \<longleftrightarrow> (\<exists>n. q = of_int n)"
proof
  assume "integral q"
  then have "quotient_of q = (fst (quotient_of q), 1)" by (metis integral_def prod.collapse)
  from quotient_of_div [OF this] show "\<exists>n. q = of_int n" by auto
next
  assume "\<exists>n. q = of_int n"
  then show "integral q" by (auto simp: integral_def)
qed

lemma number_text_int: "number_text (of_int n) = (if n < 0 then [45] else []) @ dec_text (nat \<bar>n\<bar>)"
proof -
  have "decimals 20 (of_int n) = 0" by (simp add: numeral_eq_Suc)
  moreover have "\<lfloor>\<bar>of_int n :: rat\<bar>\<rfloor> = \<bar>n\<bar>" by (metis floor_of_int of_int_abs)
  ultimately show ?thesis by (simp add: number_text_def Let_def)
qed

lemma dec_text_first: "\<exists>u us. dec_text n = u # us \<and> digit u"
  using dec_text_digits [of n] dec_text_head [of n] by (cases "dec_text n") simp_all

lemma scan_number_text:
  assumes "integral q" and "follows r"
  shows "scan_number (number_text q @ r) = Some (q, r)"
proof -
  from assms(1) obtain n where n: "q = of_int n" by (auto simp: integral_int)
  obtain u us where d: "dec_text (nat \<bar>n\<bar>) = u # us" "digit u" using dec_text_first by blast
  have scan: "scan_unsigned (dec_text (nat \<bar>n\<bar>) @ r) = Some (of_nat (nat \<bar>n\<bar>), r)"
    by (rule scan_dec_text [OF assms(2)])
  have nn: "(of_nat (nat \<bar>n\<bar>) :: rat) = of_int \<bar>n\<bar>" by simp
  show ?thesis
  proof (cases "n < 0")
    case True
    with scan nn show ?thesis by (simp add: n number_text_int scan_number_def)
  next
    case False
    moreover have "unat u \<noteq> 45" using d(2) by (auto simp: digit_def)
    moreover have "scan_unsigned (u # us @ r) = Some (of_int n, r)" using scan nn False d by simp
    ultimately show ?thesis using d by (simp add: n number_text_int scan_number_def)
  qed
qed

section \<open>Tokens\<close>

fun toks :: "json \<Rightarrow> token list" and toks_list :: "json list \<Rightarrow> token list"
  and toks_entries :: "(utf16 \<times> json) list \<Rightarrow> token list" where
  "toks JNull = [T_Null]"
| "toks (JBool b) = [T_Bool b]"
| "toks (JNum q) = [T_Num q]"
| "toks (JStr s) = [T_Str s]"
| "toks (JArr vs) = T_LBrack # toks_list vs @ [T_RBrack]"
| "toks (JObj es) = T_LBrace # toks_entries es @ [T_RBrace]"
| "toks_list [] = []"
| "toks_list [v] = toks v"
| "toks_list (v # w # vs) = toks v @ T_Comma # toks_list (w # vs)"
| "toks_entries [] = []"
| "toks_entries [(k, v)] = T_Str k # T_Colon # toks v"
| "toks_entries ((k, v) # e # es) = T_Str k # T_Colon # toks v @ T_Comma # toks_entries (e # es)"

fun json_ok :: "json \<Rightarrow> bool" and json_all_ok :: "json list \<Rightarrow> bool"
  and entries_ok :: "(utf16 \<times> json) list \<Rightarrow> bool" where
  "json_ok (JNum q) \<longleftrightarrow> integral q"
| "json_ok (JArr vs) \<longleftrightarrow> json_all_ok vs"
| "json_ok (JObj es) \<longleftrightarrow> distinct (map fst es) \<and> entries_ok es"
| "json_ok v \<longleftrightarrow> True"
| "json_all_ok [] \<longleftrightarrow> True"
| "json_all_ok (v # vs) \<longleftrightarrow> json_ok v \<and> json_all_ok vs"
| "entries_ok [] \<longleftrightarrow> True"
| "entries_ok ((k, v) # es) \<longleftrightarrow> json_ok v \<and> entries_ok es"

lemma tokens_eqs:
  "tokens [] = Some []"
  "\<not> json_space u \<Longrightarrow> tokens (u # r) =
     (case scan_token (u # r) of None \<Rightarrow> None | Some (t, rest) \<Rightarrow> map_option (Cons t) (tokens rest))"
  by (simp_all add: tokens.simps)

lemma tokens_punct [simp]:
  "tokens (91 # r) = map_option (Cons T_LBrack) (tokens r)"
  "tokens (93 # r) = map_option (Cons T_RBrack) (tokens r)"
  "tokens (123 # r) = map_option (Cons T_LBrace) (tokens r)"
  "tokens (125 # r) = map_option (Cons T_RBrace) (tokens r)"
  "tokens (58 # r) = map_option (Cons T_Colon) (tokens r)"
  "tokens (44 # r) = map_option (Cons T_Comma) (tokens r)"
  by (simp_all add: tokens_eqs json_space_def scan_token_def punctuation_def)

lemma tokens_quote: "tokens (quote s @ r) = map_option (Cons (T_Str s)) (tokens r)"
  using scan_quote_body [of s r]
  by (simp add: quote_def tokens_eqs json_space_def scan_token_def punctuation_def)

lemma tokens_words:
  "tokens (lit ''null'' @ r) = map_option (Cons T_Null) (tokens r)"
  "tokens (lit ''true'' @ r) = map_option (Cons (T_Bool True)) (tokens r)"
  "tokens (lit ''false'' @ r) = map_option (Cons (T_Bool False)) (tokens r)"
  by (simp_all add: lit_def tokens_eqs json_space_def scan_token_def punctuation_def scan_word_def)

lemma tokens_number:
  assumes "integral q" and "follows r"
  shows "tokens (number_text q @ r) = map_option (Cons (T_Num q)) (tokens r)"
proof -
  obtain n where n: "q = of_int n" using assms(1) by (auto simp: integral_int)
  obtain u us where d: "dec_text (nat \<bar>n\<bar>) = u # us" "digit u" using dec_text_first by blast
  then obtain w ws where w: "number_text q = w # ws" "digit w \<or> unat w = 45"
    by (cases "n < 0") (simp_all add: n number_text_int)
  have "unat w \<notin> {9, 10, 13, 32, 123, 125, 91, 93, 58, 44, 34, 110, 116, 102}" using w(2) by (auto simp: digit_def)
  then have "\<not> json_space w" "punctuation w = None" "unat w \<notin> {34, 110, 116, 102}"
    by (simp_all add: json_space_def punctuation_def)
  moreover have "scan_number (w # ws @ r) = Some (q, r)" using scan_number_text [OF assms] w by simp
  ultimately show ?thesis by (simp add: w tokens_eqs scan_token_def)
qed

lemma follows_simps [simp]: "follows (44 # r)" "follows (93 # r)" "follows (125 # r)" "follows []"
  by (simp_all add: follows_def)

definition before :: "token list \<Rightarrow> token list option \<Rightarrow> token list option" where
  "before ts x = (case x of None \<Rightarrow> None | Some us \<Rightarrow> Some (ts @ us))"

lemma before_simps [simp]:
  "before [] x = x"
  "map_option (Cons t) x = before [t] x"
  "before ts (before us x) = before (ts @ us) x"
  by (simp_all add: before_def split: option.split)

lemma tokens_json:
  "json_ok j \<Longrightarrow> follows r \<Longrightarrow> tokens (json_text j @ r) = before (toks j) (tokens r)"
  "json_all_ok vs \<Longrightarrow> follows r \<Longrightarrow> tokens (json_texts vs @ r) = before (toks_list vs) (tokens r)"
  "entries_ok es \<Longrightarrow> follows r \<Longrightarrow> tokens (entry_texts es @ r) = before (toks_entries es) (tokens r)"
proof (induction j and vs and es arbitrary: r and r and r
    rule: json_text_json_texts_entry_texts.induct)
qed (simp_all add: tokens_words tokens_number tokens_quote)

section \<open>Values\<close>

lemma om_set_new: "k \<notin> fst ` set es \<Longrightarrow> om_set k v es = es @ [(k, v)]"
  by (induction es) auto

lemma parse_toks:
  "json_ok j \<Longrightarrow> parse_tokens (X_Value b) fs (toks j @ ts) = parse_tokens (X_Done j) fs ts"
  "json_all_ok vs \<Longrightarrow> vs \<noteq> [] \<Longrightarrow>
     parse_tokens (X_Value b) (F_Arr ws # fs) (toks_list vs @ T_RBrack # ts) = parse_tokens (X_Done (JArr (ws @ vs))) fs ts"
  "entries_ok es \<Longrightarrow> es \<noteq> [] \<Longrightarrow> distinct (map fst (pre @ es)) \<Longrightarrow>
     parse_tokens (X_Key pre b) fs (toks_entries es @ T_RBrace # ts) = parse_tokens (X_Done (JObj (pre @ es))) fs ts"
proof (induction j and vs and es arbitrary: b fs ts and b ws fs ts and pre b fs ts
    rule: toks_toks_list_toks_entries.induct)
  case (5 vs)
  then show ?case by (cases "vs = []") simp_all
next
  case (6 es)
  then show ?case by (cases "es = []") simp_all
next
  case (11 k v)
  then show ?case by (simp add: om_set_new)
next
  case (12 k v e es)
  have "k \<notin> fst ` set pre" "distinct (map fst ((pre @ [(k, v)]) @ e # es))" "entries_ok (e # es)"
    using 12(3,5) by auto
  with 12(2) [of "pre @ [(k, v)]" False fs ts] 12(1,3) show ?case by (simp add: om_set_new)
qed simp_all

text \<open>\<^verbatim>\<open>JSON.parse\<close> after \<^verbatim>\<open>JSON.stringify\<close>.\<close>

lemma json_round_trip:
  assumes "json_ok j"
  shows "json_parse (json_text j) = Some j"
proof -
  have "tokens (json_text j) = Some (toks j)"
    using tokens_json(1) [OF assms, of "[]"] by (simp add: tokens_eqs before_def)
  then show ?thesis using parse_toks(1) [OF assms, of False "[]" "[]"] by (simp add: json_parse_def)
qed

section \<open>The text is well-formed UTF-16\<close>

lemma well_formed_plain:
  "\<not> high_surrogate (unat u) \<Longrightarrow> \<not> low_surrogate (unat u) \<Longrightarrow> well_formed (u # t) = well_formed t"
  by (cases t) simp_all

lemma well_formed_small: "unat u < 128 \<Longrightarrow> well_formed (u # t) = well_formed t"
  by (simp add: well_formed_plain high_surrogate_def low_surrogate_def)

lemma ascii_hex_unit: "d < 16 \<Longrightarrow> unat (hex_unit d) < 128"
  by (auto simp: hex_unit_def unat_unit simp del: of_nat_add)

lemma ascii_escape_unit: "ascii (escape_unit u)"
proof -
  have "unat u div 4096 < 16" using unat_16 [of u] by simp
  then show ?thesis by (simp add: escape_unit_def Let_def ascii_def ascii_hex_unit)
qed

lemma well_formed_quote_unit: "well_formed (quote_unit u @ t) = well_formed t"
proof -
  have "ascii (quote_unit u) \<or> (quote_unit u = [u] \<and> \<not> high_surrogate (unat u) \<and> \<not> low_surrogate (unat u))"
    using ascii_escape_unit [of u] by (auto simp: quote_unit_def Let_def, auto simp: ascii_def)
  then show ?thesis by (auto simp: well_formed_ascii well_formed_plain)
qed

lemma well_formed_quote: "well_formed (quote s @ t) = well_formed t"
proof -
  have "well_formed (quote_body s @ t) = well_formed t" for t
  proof (induction s rule: quote_body.induct)
    case (3 u v us)
    show ?case
    proof (cases "high_surrogate (unat u) \<and> low_surrogate (unat v)")
      case True
      with 3(1) show ?thesis by simp
    next
      case False
      then have "quote_body (u # v # us) = quote_unit u @ quote_body (v # us)"
        unfolding quote_body.simps by (rule if_not_P)
      with 3(2) [OF False] show ?thesis by (simp add: well_formed_quote_unit del: quote_body.simps)
    qed
  qed (simp_all add: well_formed_quote_unit)
  then show ?thesis by (simp add: quote_def well_formed_small)
qed

lemma well_formed_number: "integral q \<Longrightarrow> well_formed (number_text q @ t) = well_formed t"
proof -
  assume "integral q"
  moreover have "ascii (dec_text n)" for n
    using dec_text_digits [of n] unfolding ascii_def by (rule list.pred_mono_strong) (simp add: digit_def)
  ultimately have "ascii (number_text q)" by (auto simp: integral_int number_text_int) (simp_all add: ascii_def)
  then show ?thesis by (rule well_formed_ascii)
qed

lemma well_formed_json:
  "json_ok j \<Longrightarrow> well_formed (json_text j @ t) = well_formed t"
  "json_all_ok vs \<Longrightarrow> well_formed (json_texts vs @ t) = well_formed t"
  "entries_ok es \<Longrightarrow> well_formed (entry_texts es @ t) = well_formed t"
proof (induction j and vs and es arbitrary: t and t and t
    rule: json_text_json_texts_entry_texts.induct)
qed (simp_all add: lit_def well_formed_quote well_formed_number well_formed_small del: well_formed.simps(2,3))

end
