(* ===== verification/Pty_Protocol.thy ===== *)
theory Pty_Protocol
  imports Json_Trip
begin

text \<open>
  The terminal's wire protocol (\<^verbatim>\<open>packages/pty-core/src/pty-protocol.ts\<close>): one tag byte and a payload. A
  number argument is a rational, so that the encoders' range checks have something to refuse; shifts and masks are
  on 32-bit words, as in JavaScript; a throw is a value of \<^verbatim>\<open>enc_error\<close>.
\<close>

unbundle bit_operations_syntax

section \<open>Frames\<close>

datatype pty_signal = SigInt | SigTerm | SigKill

datatype client_frame =
    C_Data bytes
  | C_Resize nat nat
  | C_Signal pty_signal
  | C_Ack nat

datatype server_frame =
    S_Data nat bytes
  | S_Exit "rat option" "utf16 option"
  | S_Trunc

datatype enc_error = Type_Error | Range_Error

definition client_data_tag :: "8 word" where "client_data_tag = 1"
definition client_resize_tag :: "8 word" where "client_resize_tag = 2"
definition client_signal_tag :: "8 word" where "client_signal_tag = 3"
definition client_ack_tag :: "8 word" where "client_ack_tag = 4"
definition server_data_tag :: "8 word" where "server_data_tag = 129"
definition server_exit_tag :: "8 word" where "server_exit_tag = 130"
definition server_trunc_tag :: "8 word" where "server_trunc_tag = 131"

lemmas tags = client_data_tag_def client_resize_tag_def client_signal_tag_def client_ack_tag_def
  server_data_tag_def server_exit_tag_def server_trunc_tag_def

fun signal_name :: "pty_signal \<Rightarrow> utf16" where
  "signal_name SigInt = lit ''INT''"
| "signal_name SigTerm = lit ''TERM''"
| "signal_name SigKill = lit ''KILL''"

definition allowed_signals :: "utf16 list" where
  "allowed_signals = map signal_name [SigInt, SigTerm, SigKill]"

section \<open>Encoders\<close>

text \<open>\<^verbatim>\<open>(n >>> k) & 0xff\<close>, stored in a byte array.\<close>

definition byte_at :: "nat \<Rightarrow> rat \<Rightarrow> 8 word" where
  "byte_at k n = ucast (drop_bit k (word_of_int \<lfloor>n\<rfloor> :: 32 word) AND 0xff)"

definition is_integer :: "rat \<Rightarrow> bool" where
  "is_integer n \<longleftrightarrow> of_int \<lfloor>n\<rfloor> = n"

definition u32_bytes :: "rat \<Rightarrow> bytes" where
  "u32_bytes n = [byte_at 24 n, byte_at 16 n, byte_at 8 n, byte_at 0 n]"

definition encode_client_data :: "bytes \<Rightarrow> bytes" where
  "encode_client_data bs = client_data_tag # bs"

definition encode_client_resize :: "rat \<Rightarrow> rat \<Rightarrow> enc_error + bytes" where
  "encode_client_resize cols rows =
     (if \<not> is_integer cols \<or> \<not> is_integer rows then Inl Type_Error
      else if cols < 0 \<or> cols > 65535 \<or> rows < 0 \<or> rows > 65535 then Inl Range_Error
      else Inr [client_resize_tag, byte_at 8 cols, byte_at 0 cols, byte_at 8 rows, byte_at 0 rows])"

definition encode_client_signal :: "utf16 \<Rightarrow> enc_error + bytes" where
  "encode_client_signal s =
     (if s \<notin> set allowed_signals then Inl Range_Error else Inr (client_signal_tag # text_encode s))"

definition encode_client_ack :: "rat \<Rightarrow> enc_error + bytes" where
  "encode_client_ack seq =
     (if \<not> is_integer seq \<or> seq < 0 \<or> seq > 4294967295 then Inl Range_Error
      else Inr (client_ack_tag # u32_bytes seq))"

definition encode_server_data :: "rat \<Rightarrow> bytes \<Rightarrow> enc_error + bytes" where
  "encode_server_data seq bs =
     (if \<not> is_integer seq \<or> seq < 0 \<or> seq > 4294967295 then Inl Range_Error
      else Inr (server_data_tag # u32_bytes seq @ bs))"

definition exit_json :: "rat option \<Rightarrow> utf16 option \<Rightarrow> json" where
  "exit_json code signal =
     JObj [(lit ''code'', case code of None \<Rightarrow> JNull | Some n \<Rightarrow> JNum n),
           (lit ''signal'', case signal of None \<Rightarrow> JNull | Some s \<Rightarrow> JStr s)]"

definition encode_server_exit :: "rat option \<Rightarrow> utf16 option \<Rightarrow> bytes" where
  "encode_server_exit code signal = server_exit_tag # text_encode (json_text (exit_json code signal))"

definition encode_server_trunc :: bytes where
  "encode_server_trunc = [server_trunc_tag]"

section \<open>Decoders\<close>

definition u16_value :: "8 word \<Rightarrow> 8 word \<Rightarrow> nat" where
  "u16_value a b = unat (push_bit 8 (ucast a :: 32 word) OR ucast b)"

definition u32_value :: "8 word \<Rightarrow> 8 word \<Rightarrow> 8 word \<Rightarrow> 8 word \<Rightarrow> nat" where
  "u32_value a b c d =
     unat (push_bit 24 (ucast a :: 32 word)) + unat (push_bit 16 (ucast b :: 32 word))
     + unat (push_bit 8 (ucast c :: 32 word)) + unat (ucast d :: 32 word)"

definition decode_client_frame :: "bytes \<Rightarrow> client_frame option" where
  "decode_client_frame buf =
     (case buf of
        [] \<Rightarrow> None
      | t # payload \<Rightarrow>
          if t = client_data_tag then Some (C_Data payload)
          else if t = client_resize_tag then
            (case payload of
               [a, b, c, d] \<Rightarrow> Some (C_Resize (u16_value a b) (u16_value c d))
             | _ \<Rightarrow> None)
          else if t = client_signal_tag then
            (let sig = text_decode payload
             in map_option C_Signal (find (\<lambda>g. sig = signal_name g) [SigInt, SigTerm, SigKill]))
          else if t = client_ack_tag then
            (case payload of [a, b, c, d] \<Rightarrow> Some (C_Ack (u32_value a b c d)) | _ \<Rightarrow> None)
          else None)"

definition decode_exit :: "bytes \<Rightarrow> server_frame option" where
  "decode_exit payload =
     (case json_parse (text_decode payload) of
        None \<Rightarrow> None
      | Some JNull \<Rightarrow> None
      | Some obj \<Rightarrow>
          Some (S_Exit (case json_get obj (lit ''code'') of Some (JNum n) \<Rightarrow> Some n | _ \<Rightarrow> None)
                       (case json_get obj (lit ''signal'') of Some (JStr s) \<Rightarrow> Some s | _ \<Rightarrow> None)))"

definition decode_server_frame :: "bytes \<Rightarrow> server_frame option" where
  "decode_server_frame buf =
     (case buf of
        [] \<Rightarrow> None
      | t # payload \<Rightarrow>
          if t = server_data_tag then
            (case payload of
               a # b # c # d # rest \<Rightarrow> Some (S_Data (u32_value a b c d) rest)
             | _ \<Rightarrow> None)
          else if t = server_exit_tag then decode_exit payload
          else if t = server_trunc_tag then Some S_Trunc
          else None)"

section \<open>Numbers in bytes\<close>

lemma unat_byte_at: "unat (byte_at k (of_nat n)) = n div 2 ^ k mod 256" if "n < 2 ^ 32"
proof -
  have "(0xff :: 32 word) = mask 8" by (simp add: mask_eq_exp_minus_1)
  then have "byte_at k (of_nat n) = ucast (take_bit 8 (drop_bit k (word_of_nat n :: 32 word)))"
    by (simp add: byte_at_def take_bit_eq_mask)
  then have "unat (byte_at k (of_nat n)) = take_bit 8 (drop_bit k (unat (word_of_nat n :: 32 word)))"
    by (simp add: unsigned_ucast_eq unsigned_take_bit_eq unsigned_drop_bit_eq unsigned_of_nat)
  also have "unat (word_of_nat n :: 32 word) = n" using that by (simp add: unsigned_of_nat take_bit_nat_eq_self)
  finally show ?thesis by (simp add: take_bit_eq_mod drop_bit_eq_div)
qed

lemma unat_8: "unat (b :: 8 word) < 256"
  using unsigned_less [of b, where ?'a = nat] by simp

lemma unat_push: "k \<le> 24 \<Longrightarrow> unat (push_bit k (ucast (b :: 8 word) :: 32 word)) = unat b * 2 ^ k"
proof -
  assume k: "k \<le> 24"
  have "unat b * 2 ^ k < 2 ^ 8 * 2 ^ 24"
    by (rule mult_less_le_imp_less) (use unat_8 [of b] power_increasing [OF k, of "2 :: nat"] in simp_all)
  moreover have "unat (ucast b :: 32 word) = unat b"
    using unat_8 [of b] by (simp add: unsigned_ucast_eq take_bit_nat_eq_self)
  moreover have "unat (push_bit k (ucast b :: 32 word)) = take_bit 32 (push_bit k (unat (ucast b :: 32 word)))"
    by (simp add: unsigned_push_bit_eq)
  ultimately show ?thesis by (simp add: push_bit_eq_mult [of k "unat b"] take_bit_nat_eq_self)
qed

lemma u32_value_nat: "u32_value a b c d = ((unat a * 256 + unat b) * 256 + unat c) * 256 + unat d"
  using unat_push [of 24 a] unat_push [of 16 b] unat_push [of 8 c] unat_push [of 0 d]
  by (simp add: u32_value_def)

lemma u16_value_nat: "u16_value a b = unat a * 256 + unat b"
proof -
  have disjoint: "push_bit 8 (ucast a :: 32 word) AND ucast b = 0"
    by (rule bit_eqI) (auto simp: bit_simps dest: bit_imp_le_length)
  have "unat (push_bit 8 (ucast a :: 32 word) OR ucast b) = unat (push_bit 8 (ucast a :: 32 word) + ucast b)"
    by (simp add: disjunctive_add_eq_or [OF disjoint])
  also have "\<dots> = unat a * 256 + unat b"
    using unat_push [of 8 a] unat_push [of 0 b] unat_8 [of a] unat_8 [of b]
    by (simp add: unat_plus_if')
  finally show ?thesis by (simp add: u16_value_def)
qed

lemma u32_bytes_value: "n < 2 ^ 32 \<Longrightarrow>
  u32_value (byte_at 24 (of_nat n)) (byte_at 16 (of_nat n)) (byte_at 8 (of_nat n)) (byte_at 0 (of_nat n)) = n"
proof -
  assume n: "n < 2 ^ 32"
  have "n = n div 256 * 256 + n mod 256" "n div 256 = n div 65536 * 256 + n div 256 mod 256"
    "n div 65536 = n div 16777216 * 256 + n div 65536 mod 256" "n div 16777216 mod 256 = n div 16777216"
    using n by (simp_all add: div_mult2_eq [of n 256 256, simplified] div_mult2_eq [of n 65536 256, simplified])
  then show ?thesis
    unfolding u32_value_nat
    using unat_byte_at [OF n, of 24] unat_byte_at [OF n, of 16] unat_byte_at [OF n, of 8] unat_byte_at [OF n, of 0]
    by simp
qed

lemma u16_bytes_value:
  assumes "n < 65536"
  shows "u16_value (byte_at 8 (of_nat n)) (byte_at 0 (of_nat n)) = n"
proof -
  have n: "n < 2 ^ 32" using assms by simp
  show ?thesis
    unfolding u16_value_nat using unat_byte_at [OF n, of 8] unat_byte_at [OF n, of 0] assms by simp
qed

lemma byte_eqI: "unat (a :: 8 word) = unat b \<Longrightarrow> a = b"
  by (simp add: word_unat_eq_iff)

lemma u32_value_bytes: "u32_bytes (of_nat (u32_value a b c d)) = [a, b, c, d]"
proof -
  let ?n = "u32_value a b c d"
  have n: "?n < 2 ^ 32" using unat_8 [of a] unat_8 [of b] unat_8 [of c] unat_8 [of d] by (simp add: u32_value_nat)
  have q: "?n div 256 = (unat a * 256 + unat b) * 256 + unat c" "?n div 65536 = unat a * 256 + unat b"
    "?n div 16777216 = unat a"
    using unat_8 [of a] unat_8 [of b] unat_8 [of c] unat_8 [of d] by (simp_all add: u32_value_nat)
  have "?n mod 256 = unat d" unfolding u32_value_nat using unat_8 [of d] by (simp only: mod_mult_self3 mod_less)
  moreover have "?n div 256 mod 256 = unat c" unfolding q using unat_8 [of c] by (simp only: mod_mult_self3 mod_less)
  moreover have "?n div 65536 mod 256 = unat b" unfolding q using unat_8 [of b] by (simp only: mod_mult_self3 mod_less)
  ultimately show ?thesis
    using q(3) unat_8 [of a] by (auto simp: u32_bytes_def unat_byte_at [OF n] intro!: byte_eqI)
qed

lemma u16_value_bytes: "byte_at 8 (of_nat (u16_value a b)) = a \<and> byte_at 0 (of_nat (u16_value a b)) = b"
proof -
  let ?n = "u16_value a b"
  have n: "?n < 2 ^ 32" using unat_8 [of a] unat_8 [of b] by (simp add: u16_value_nat)
  have "?n div 256 = unat a" "?n mod 256 = unat b" using unat_8 [of b] by (simp_all add: u16_value_nat)
  then show ?thesis using unat_8 [of a] by (auto simp: unat_byte_at [OF n] intro!: byte_eqI)
qed

lemma is_integer_nat [simp]: "is_integer (of_nat n)"
  by (simp add: is_integer_def)

lemma u32_value_le: "\<not> 4294967295 < u32_value a b c d"
  using unat_8 [of a] unat_8 [of b] unat_8 [of c] unat_8 [of d] by (simp add: u32_value_nat)

lemma u16_value_le: "\<not> 65535 < u16_value a b"
  using unat_8 [of a] unat_8 [of b] by (simp add: u16_value_nat)

section \<open>Properties\<close>

text \<open>What each client frame is encoded to; a frame from this model is within range.\<close>

fun encode_client :: "client_frame \<Rightarrow> enc_error + bytes" where
  "encode_client (C_Data bs) = Inr (encode_client_data bs)"
| "encode_client (C_Resize c r) = encode_client_resize (of_nat c) (of_nat r)"
| "encode_client (C_Signal g) = encode_client_signal (signal_name g)"
| "encode_client (C_Ack n) = encode_client_ack (of_nat n)"

lemma decode_signal: "decode_client_frame (client_signal_tag # text_encode (signal_name g)) = Some (C_Signal g)"
proof -
  have "ascii (signal_name g)" "unat (hd (signal_name g)) \<noteq> 65279" by (cases g; simp add: ascii_def lit_def)+
  then have "text_decode (text_encode (signal_name g)) = signal_name g"
    using well_formed_ascii [of "signal_name g" "[]"] by (simp add: text_round_trip)
  then show ?thesis by (cases g) (simp_all add: decode_client_frame_def tags lit_def)
qed

lemma decode_client_tags:
  "decode_client_frame (client_data_tag # p) = Some (C_Data p)"
  "decode_client_frame (client_resize_tag # p) =
     (case p of [a, b, c, d] \<Rightarrow> Some (C_Resize (u16_value a b) (u16_value c d)) | _ \<Rightarrow> None)"
  "decode_client_frame (client_ack_tag # p) = (case p of [a, b, c, d] \<Rightarrow> Some (C_Ack (u32_value a b c d)) | _ \<Rightarrow> None)"
  "t \<notin> {client_data_tag, client_resize_tag, client_signal_tag, client_ack_tag} \<Longrightarrow> decode_client_frame (t # p) = None"
  by (simp_all add: decode_client_frame_def tags)

lemma four_bytes: "(\<exists>a b c d. p = [a, b, c, d]) \<or> (case p of [a, b, c, d] \<Rightarrow> f a b c d | _ \<Rightarrow> None) = None"
  by (auto split: list.splits)

lemma decode_signal_frame:
  "decode_client_frame (client_signal_tag # p) = None \<or> (\<exists>g. decode_client_frame (client_signal_tag # p) = Some (C_Signal g))"
  by (auto simp: decode_client_frame_def tags Let_def)

text \<open>Client frames survive the wire. Encoding fails exactly on numbers that do not fit their field;
  what it writes decodes to the frame; and a buffer that decodes to a data, resize or acknowledgement frame is
  the encoding of that frame, so the decoder accepts no second spelling of those.\<close>

theorem client_frame_round_trip:
  "(case encode_client f of
      Inr bs \<Rightarrow> decode_client_frame bs = Some f
    | Inl e \<Rightarrow> e = Range_Error \<and> (case f of C_Resize c r \<Rightarrow> 65535 < max c r | C_Ack n \<Rightarrow> 4294967295 < n | _ \<Rightarrow> False))
   \<and> (case decode_client_frame bs of None \<Rightarrow> True | Some (C_Signal g) \<Rightarrow> hd bs = client_signal_tag
       | Some f' \<Rightarrow> encode_client f' = Inr bs)"
proof
  show "case encode_client f of
      Inr bs \<Rightarrow> decode_client_frame bs = Some f
    | Inl e \<Rightarrow> e = Range_Error \<and> (case f of C_Resize c r \<Rightarrow> 65535 < max c r | C_Ack n \<Rightarrow> 4294967295 < n | _ \<Rightarrow> False)"
  proof (cases f)
    case (C_Data x)
    then show ?thesis by (simp add: encode_client_data_def decode_client_frame_def)
  next
    case (C_Resize c r)
    then show ?thesis
      by (auto simp: encode_client_resize_def decode_client_frame_def tags u16_bytes_value)
  next
    case (C_Signal g)
    have "signal_name g \<in> set allowed_signals" by (cases g) (simp_all add: allowed_signals_def)
    with C_Signal show ?thesis by (simp add: encode_client_signal_def decode_signal)
  next
    case (C_Ack n)
    then show ?thesis
      by (auto simp: encode_client_ack_def decode_client_frame_def tags u32_bytes_def u32_bytes_value)
  qed
  show "case decode_client_frame bs of None \<Rightarrow> True | Some (C_Signal g) \<Rightarrow> hd bs = client_signal_tag
      | Some f' \<Rightarrow> encode_client f' = Inr bs"
  proof (cases bs)
    case (Cons t payload)
    consider "t = client_data_tag" | "t = client_resize_tag" | "t = client_signal_tag" | "t = client_ack_tag"
      | "t \<notin> {client_data_tag, client_resize_tag, client_signal_tag, client_ack_tag}" by blast
    then show ?thesis
    proof cases
      case 1
      with Cons show ?thesis by (simp add: decode_client_tags encode_client_data_def)
    next
      case 2
      from four_bytes [of payload "\<lambda>a b c d. Some (C_Resize (u16_value a b) (u16_value c d))"] show ?thesis
        by (auto simp: Cons 2 decode_client_tags encode_client_resize_def u16_value_le u16_value_bytes)
    next
      case 3
      with decode_signal_frame [of payload] Cons show ?thesis by auto
    next
      case 4
      from four_bytes [of payload "\<lambda>a b c d. Some (C_Ack (u32_value a b c d))"] show ?thesis
        by (auto simp: Cons 4 decode_client_tags encode_client_ack_def u32_value_le u32_value_bytes)
    next
      case 5
      with Cons show ?thesis by (simp add: decode_client_tags)
    qed
  qed (simp add: decode_client_frame_def)
qed

lemma json_text_obj_head: "hd (json_text (JObj es)) = 123"
  by simp

lemma decode_server_tags:
  "decode_server_frame (server_data_tag # p) =
     (case p of a # b # c # d # rest \<Rightarrow> Some (S_Data (u32_value a b c d) rest) | _ \<Rightarrow> None)"
  "decode_server_frame (server_exit_tag # p) = decode_exit p"
  "decode_server_frame (server_trunc_tag # p) = Some S_Trunc"
  by (simp_all add: decode_server_frame_def tags)

lemma decode_exit_not_data: "decode_exit p = Some f \<Longrightarrow> \<exists>c s. f = S_Exit c s"
  by (auto simp: decode_exit_def split: option.splits json.splits)

lemma decode_server_data:
  assumes "decode_server_frame ws = Some (S_Data n bs)"
  shows "encode_server_data (of_nat n) bs = Inr ws"
proof -
  obtain t p where ws: "ws = t # p" using assms by (cases ws) (simp_all add: decode_server_frame_def)
  have t: "t = server_data_tag"
    using assms by (auto simp: ws decode_server_frame_def dest: decode_exit_not_data split: if_splits)
  obtain a b c d where "p = a # b # c # d # bs" "n = u32_value a b c d"
    using assms unfolding ws t by (auto simp: decode_server_tags split: list.splits)
  then show ?thesis by (simp add: ws t encode_server_data_def u32_value_le u32_value_bytes)
qed

text \<open>C25: server frames survive the wire: output data with any 32-bit sequence number, the truncation mark,
  and the exit report, which travels as JSON, for every exit code, every signal string (lone surrogates,
  quotes and control characters included) and their absence. A buffer that decodes to data is the encoding
  of that data.\<close>

theorem server_frame_round_trip:
  "(case encode_server_data (of_nat seq) bs of
      Inr ws \<Rightarrow> seq \<le> 4294967295 \<and> decode_server_frame ws = Some (S_Data seq bs)
    | Inl e \<Rightarrow> 4294967295 < seq \<and> e = Range_Error)
   \<and> decode_server_frame (encode_server_exit (map_option of_int code) signal)
       = Some (S_Exit (map_option of_int code) signal)
   \<and> decode_server_frame encode_server_trunc = Some S_Trunc
   \<and> (case decode_server_frame buf of Some (S_Data n out) \<Rightarrow> encode_server_data (of_nat n) out = Inr buf | _ \<Rightarrow> True)"
proof (intro conjI)
  show "case encode_server_data (of_nat seq) bs of
      Inr ws \<Rightarrow> seq \<le> 4294967295 \<and> decode_server_frame ws = Some (S_Data seq bs)
    | Inl e \<Rightarrow> 4294967295 < seq \<and> e = Range_Error"
    by (auto simp: encode_server_data_def decode_server_tags u32_bytes_def u32_bytes_value)
  let ?j = "exit_json (map_option of_int code) signal"
  have ok: "json_ok ?j"
    by (cases code; cases signal) (simp_all add: exit_json_def lit_def integral_int)
  have "well_formed (json_text ?j)" using well_formed_json(1) [OF ok, of "[]"] by simp
  moreover have "hd (json_text ?j) = 123" by (simp add: exit_json_def)
  ultimately have "text_decode (text_encode (json_text ?j)) = json_text ?j" by (simp add: text_round_trip)
  with json_round_trip [OF ok]
  have parsed: "json_parse (text_decode (text_encode (json_text ?j))) = Some ?j" by simp
  show "decode_server_frame (encode_server_exit (map_option of_int code) signal)
       = Some (S_Exit (map_option of_int code) signal)"
    unfolding encode_server_exit_def decode_server_tags decode_exit_def parsed
    by (cases code; cases signal) (simp_all add: exit_json_def json_get_def lit_def)
  show "decode_server_frame encode_server_trunc = Some S_Trunc"
    by (simp add: encode_server_trunc_def decode_server_tags)
  show "case decode_server_frame buf of Some (S_Data n out) \<Rightarrow> encode_server_data (of_nat n) out = Inr buf | _ \<Rightarrow> True"
    by (auto dest: decode_server_data split: option.split server_frame.split)
qed

end
