(* ===== verification/Osc_Decoder.thy ===== *)
theory Osc_Decoder
  imports Js_Text
begin

text \<open>
  The streaming decoder of shell-integration marks (\<^verbatim>\<open>packages/pty-core/src/osc-decoder.ts\<close>). Typed arrays
  are lists of a fixed length, and a write past their end is dropped, as in JavaScript: the payload buffer is
  \<open>od_buf\<close> with \<open>od_len\<close> bytes in use, and \<^verbatim>\<open>passthrough\<close> is the writes to an array as long as the chunk.
\<close>

section \<open>Bytes and events\<close>

definition BEL :: "8 word" where "BEL = 0x07"
definition ESC :: "8 word" where "ESC = 0x1b"
definition BACKSLASH :: "8 word" where "BACKSLASH = 0x5c"
definition BRACKET_CLOSE :: "8 word" where "BRACKET_CLOSE = 0x5d"
definition C1_OSC :: "8 word" where "C1_OSC = 0x9d"
definition C1_ST :: "8 word" where "C1_ST = 0x9c"

lemmas osc_bytes = BEL_def ESC_def BACKSLASH_def BRACKET_CLOSE_def C1_OSC_def C1_ST_def

datatype osc_event =
    Osc_633 utf16 "utf16 list"
  | Osc_133 utf16 "utf16 list"
  | Unknown_Osc utf16 utf16
  | Overflow nat

datatype osc_state = Ground | Esc | Osc_Payload | Osc_Payload_Esc

record osc_decoder =
  od_state :: osc_state
  od_buf :: bytes
  od_len :: nat
  od_max :: nat

definition new_decoder :: "nat option \<Rightarrow> osc_decoder" where
  "new_decoder max_payload =
     \<lparr>od_state = Ground, od_buf = replicate 256 0, od_len = 0,
       od_max = max 64 (case max_payload of None \<Rightarrow> 4096 | Some n \<Rightarrow> n)\<rparr>"

section \<open>Helpers\<close>

definition begin_osc :: "osc_decoder \<Rightarrow> osc_decoder" where
  "begin_osc d = d\<lparr>od_state := Osc_Payload, od_len := 0\<rparr>"

text \<open>\<^const>\<open>None\<close> when the payload is full; the buffer doubles, up to the maximum, when it is.\<close>

definition append_payload :: "8 word \<Rightarrow> osc_decoder \<Rightarrow> osc_decoder option" where
  "append_payload b d =
     (if od_len d \<ge> od_max d then None
      else
        let grown = min (od_max d) (length (od_buf d) * 2);
            buf = (if od_len d \<ge> length (od_buf d)
                   then take (od_len d) (od_buf d) @ replicate (grown - od_len d) 0 else od_buf d)
        in Some (d\<lparr>od_buf := buf[od_len d := b], od_len := od_len d + 1\<rparr>))"

definition od_payload :: "osc_decoder \<Rightarrow> bytes" where
  "od_payload d = take (od_len d) (od_buf d)"

text \<open>\<^verbatim>\<open>text.split(';')\<close>.\<close>

fun split_semi :: "utf16 \<Rightarrow> utf16 list" where
  "split_semi [] = [] # []"
| "split_semi (u # us) =
     (if u = 59 then [] # split_semi us
      else (case split_semi us of [] \<Rightarrow> [u] # [] | w # ws \<Rightarrow> (u # w) # ws))"

definition mark_letter :: "utf16 \<Rightarrow> utf16" where
  "mark_letter pt = take 1 pt"

definition mark_args :: "utf16 \<Rightarrow> utf16 list" where
  "mark_args pt =
     (if length pt > 1
      then (let rest = (if pt ! 1 = 59 then drop 2 pt else drop 1 pt) in if rest = [] then [] else split_semi rest)
      else [])"

definition parse_osc :: "bytes \<Rightarrow> osc_event" where
  "parse_osc payload =
     (let txt = text_decode payload;
          ps = takeWhile (\<lambda>u. u \<noteq> 59) txt;
          pt = drop 1 (dropWhile (\<lambda>u. u \<noteq> 59) txt)
      in if ps = lit ''633'' then Osc_633 (mark_letter pt) (mark_args pt)
         else if ps = lit ''133'' then Osc_133 (mark_letter pt) (mark_args pt)
         else Unknown_Osc ps pt)"

section \<open>The state machine\<close>

text \<open>What handling one byte does: the new state, the bytes written to the output, the events.\<close>

type_synonym osc_effect = "osc_decoder \<times> bytes \<times> osc_event list"

definition complete_osc :: "osc_decoder \<Rightarrow> osc_effect" where
  "complete_osc d = (d\<lparr>od_state := Ground, od_len := 0\<rparr>, [], [parse_osc (od_payload d)])"

definition ground_byte :: "8 word \<Rightarrow> osc_decoder \<Rightarrow> osc_effect" where
  "ground_byte b d =
     (if b = ESC then (d\<lparr>od_state := Esc\<rparr>, [], [])
      else if b = C1_OSC then (begin_osc d, [], [])
      else (d, [b], []))"

definition esc_byte :: "8 word \<Rightarrow> osc_decoder \<Rightarrow> osc_effect" where
  "esc_byte b d =
     (if b = BRACKET_CLOSE then (begin_osc d, [], [])
      else if b = BACKSLASH then (d\<lparr>od_state := Ground\<rparr>, [], [])
      else (let (d', out, evs) = ground_byte b (d\<lparr>od_state := Ground\<rparr>) in (d', ESC # out, evs)))"

definition payload_byte :: "8 word \<Rightarrow> osc_decoder \<Rightarrow> osc_effect" where
  "payload_byte b d =
     (if b = BEL then complete_osc d
      else if b = ESC then (d\<lparr>od_state := Osc_Payload_Esc\<rparr>, [], [])
      else if b = C1_ST then complete_osc d
      else
        (case append_payload b d of
           Some d' \<Rightarrow> (d', [], [])
         | None \<Rightarrow>
             (let (d', out, evs) = ground_byte b (d\<lparr>od_len := 0, od_state := Ground\<rparr>)
              in (d', out, Overflow (od_len d) # evs))))"

definition payload_esc_byte :: "8 word \<Rightarrow> osc_decoder \<Rightarrow> osc_effect" where
  "payload_esc_byte b d =
     (if b = BACKSLASH then complete_osc d
      else
        (case append_payload ESC d of
           None \<Rightarrow> (d\<lparr>od_len := 0, od_state := Ground\<rparr>, [], [Overflow (od_len d)])
         | Some d1 \<Rightarrow>
             (case append_payload b d1 of
                None \<Rightarrow> (d1\<lparr>od_len := 0, od_state := Ground\<rparr>, [], [Overflow (od_len d1)])
              | Some d2 \<Rightarrow> (d2\<lparr>od_state := Osc_Payload\<rparr>, [], []))))"

definition osc_byte :: "8 word \<Rightarrow> osc_decoder \<Rightarrow> osc_effect" where
  "osc_byte b d =
     (case od_state d of
        Ground \<Rightarrow> ground_byte b d
      | Esc \<Rightarrow> esc_byte b d
      | Osc_Payload \<Rightarrow> payload_byte b d
      | Osc_Payload_Esc \<Rightarrow> payload_esc_byte b d)"

fun osc_bytes_run :: "bytes \<Rightarrow> osc_decoder \<Rightarrow> osc_effect" where
  "osc_bytes_run [] d = (d, [], [])"
| "osc_bytes_run (b # bs) d =
     (let (d1, out1, evs1) = osc_byte b d; (d2, out2, evs2) = osc_bytes_run bs d1
      in (d2, out1 @ out2, evs1 @ evs2))"

definition feed :: "bytes \<Rightarrow> osc_decoder \<Rightarrow> osc_effect" where
  "feed chunk d = (let (d', writes, evs) = osc_bytes_run chunk d in (d', take (length chunk) writes, evs))"

definition decode_osc_one_shot :: "bytes \<Rightarrow> bytes \<times> osc_event list" where
  "decode_osc_one_shot bs = snd (feed bs (new_decoder None))"

text \<open>Feeding one chunk after another.\<close>

fun feed_all :: "bytes list \<Rightarrow> osc_decoder \<Rightarrow> osc_effect" where
  "feed_all [] d = (d, [], [])"
| "feed_all (c # cs) d =
     (let (d1, out1, evs1) = feed c d; (d2, out2, evs2) = feed_all cs d1 in (d2, out1 @ out2, evs1 @ evs2))"

section \<open>Lemmas\<close>

lemma run_append:
  "osc_bytes_run (as @ bs) d =
     (let (d1, out1, evs1) = osc_bytes_run as d; (d2, out2, evs2) = osc_bytes_run bs d1
      in (d2, out1 @ out2, evs1 @ evs2))"
  by (induction as arbitrary: d) (auto split: prod.splits)

text \<open>A byte writes at most itself, but for the one that resolves a pending \<^verbatim>\<open>ESC\<close>.\<close>

definition pending :: "osc_decoder \<Rightarrow> nat" where
  "pending d = (if od_state d = Esc then 1 else 0)"

lemma osc_byte_writes:
  assumes "osc_byte b d = (d', out, evs)"
  shows "length out + pending d' \<le> 1 + pending d"
  using assms
  by (cases "od_state d")
    (auto simp: osc_byte_def ground_byte_def esc_byte_def payload_byte_def payload_esc_byte_def complete_osc_def
      begin_osc_def pending_def append_payload_def Let_def split: if_splits option.splits)

lemma run_writes: "osc_bytes_run bs d = (d', out, evs) \<Longrightarrow> length out + pending d' \<le> length bs + pending d"
proof (induction bs arbitrary: d out evs)
  case (Cons b bs)
  obtain d1 o1 e1 where 1: "osc_byte b d = (d1, o1, e1)" by (cases "osc_byte b d") auto
  obtain o2 e2 where 2: "osc_bytes_run bs d1 = (d', o2, e2)" and out: "out = o1 @ o2"
    using Cons.prems 1 by (auto split: prod.splits)
  from osc_byte_writes [OF 1] Cons.IH [OF 2] show ?case by (simp add: out)
qed simp

lemma feed_complete:
  assumes "od_state d \<noteq> Esc"
  shows "feed bs d = osc_bytes_run bs d"
proof -
  obtain d' out evs where r: "osc_bytes_run bs d = (d', out, evs)" by (cases "osc_bytes_run bs d") auto
  from run_writes [OF r] assms show ?thesis by (simp add: feed_def r pending_def)
qed

section \<open>The payload buffer\<close>

definition osc_ok :: "osc_decoder \<Rightarrow> bool" where
  "osc_ok d \<longleftrightarrow> od_len d \<le> od_max d \<and> od_len d \<le> length (od_buf d) \<and> 0 < length (od_buf d)
     \<and> length (od_buf d) \<le> max 256 (od_max d)"

lemma new_decoder_ok: "osc_ok (new_decoder m)"
  by (simp add: osc_ok_def new_decoder_def)

lemma append_payload_Some:
  assumes ok: "osc_ok d" and room: "od_len d < od_max d"
  obtains d' where "append_payload b d = Some d'" "od_payload d' = od_payload d @ [b]" "od_len d' = od_len d + 1"
    "od_state d' = od_state d" "od_max d' = od_max d" "osc_ok d'"
proof -
  let ?n = "od_len d"
  let ?buf = "if ?n \<ge> length (od_buf d)
      then take ?n (od_buf d) @ replicate (min (od_max d) (length (od_buf d) * 2) - ?n) 0 else od_buf d"
  let ?d = "d\<lparr>od_buf := ?buf[?n := b], od_len := ?n + 1\<rparr>"
  have len: "?n < length ?buf" "length ?buf \<le> max 256 (od_max d)" using ok room by (auto simp: osc_ok_def)
  have "take ?n ?buf = take ?n (od_buf d)" using ok by (auto simp: osc_ok_def)
  then have "od_payload ?d = od_payload d @ [b]"
    using len by (simp add: od_payload_def take_Suc_conv_app_nth)
  moreover have "append_payload b d = Some ?d" using room by (simp add: append_payload_def Let_def)
  moreover have "osc_ok ?d" using len ok room by (auto simp: osc_ok_def)
  ultimately show thesis using that [of ?d] by simp
qed

lemma append_payload_None: "append_payload b d = None \<longleftrightarrow> od_max d \<le> od_len d"
  by (auto simp: append_payload_def Let_def)

definition overflow_of :: "nat \<Rightarrow> osc_event \<Rightarrow> bool" where
  "overflow_of n e \<longleftrightarrow> (case e of Overflow k \<Rightarrow> k = n | _ \<Rightarrow> True)"

lemma parse_osc_no_overflow [simp]: "overflow_of n (parse_osc p)"
  by (simp add: overflow_of_def parse_osc_def Let_def)

text \<open>What every byte keeps.\<close>

definition effect_ok :: "osc_decoder \<Rightarrow> osc_effect \<Rightarrow> bool" where
  "effect_ok d x \<longleftrightarrow> osc_ok (fst x) \<and> od_max (fst x) = od_max d \<and> list_all (overflow_of (od_max d)) (snd (snd x))"

lemma ground_byte_ok: "osc_ok d \<Longrightarrow> effect_ok d (ground_byte b d)"
  by (auto simp: effect_ok_def ground_byte_def begin_osc_def osc_ok_def)

lemma complete_osc_ok: "osc_ok d \<Longrightarrow> effect_ok d (complete_osc d)"
  by (simp add: effect_ok_def complete_osc_def osc_ok_def)

lemma dropped_ok:
  "osc_ok d' \<Longrightarrow> od_max d' = n \<Longrightarrow> od_len d' = n \<Longrightarrow> od_max d = n \<Longrightarrow>
   effect_ok d (d'\<lparr>od_len := 0, od_state := Ground\<rparr>, [], [Overflow (od_len d')])"
  by (simp add: effect_ok_def osc_ok_def overflow_of_def)

lemma append_payload_ok:
  assumes "osc_ok d" and "append_payload b d = Some d'"
  shows "osc_ok d'" and "od_max d' = od_max d"
proof -
  have "od_len d < od_max d" using append_payload_None [of b d] assms(2) by (simp add: not_le)
  from append_payload_Some [OF assms(1) this, of b] assms(2) show "osc_ok d'" "od_max d' = od_max d" by auto
qed

lemma append_payload_full: "osc_ok d \<Longrightarrow> append_payload b d = None \<Longrightarrow> od_len d = od_max d"
  by (simp add: append_payload_None osc_ok_def)

lemma payload_byte_ok:
  assumes ok: "osc_ok d"
  shows "effect_ok d (payload_byte b d)"
proof (cases "append_payload b d")
  case None
  then have full: "od_len d = od_max d" using ok by (simp add: append_payload_None osc_ok_def)
  have "osc_ok (d\<lparr>od_len := 0, od_state := Ground\<rparr>)" using ok by (simp add: osc_ok_def)
  from ground_byte_ok [OF this, of b] full
  have "effect_ok d (let (d', out, evs) = ground_byte b (d\<lparr>od_len := 0, od_state := Ground\<rparr>)
      in (d', out, Overflow (od_len d) # evs))"
    by (simp add: effect_ok_def overflow_of_def case_prod_beta Let_def)
  with None complete_osc_ok [OF ok] ok show ?thesis
    by (auto simp: payload_byte_def) (simp_all add: effect_ok_def osc_ok_def)
next
  case (Some d')
  with append_payload_ok [OF ok Some] complete_osc_ok [OF ok] ok show ?thesis
    by (auto simp: payload_byte_def) (simp_all add: effect_ok_def osc_ok_def)
qed

lemma payload_esc_byte_ok:
  assumes ok: "osc_ok d"
  shows "effect_ok d (payload_esc_byte b d)"
proof (cases "b = BACKSLASH")
  case True
  then show ?thesis by (simp add: payload_esc_byte_def complete_osc_ok [OF ok])
next
  case False
  show ?thesis
  proof (cases "append_payload ESC d")
    case None
    with False show ?thesis
      using dropped_ok [OF ok refl append_payload_full [OF ok None] refl] by (simp add: payload_esc_byte_def)
  next
    case (Some d1)
    note 1 = append_payload_ok [OF ok Some]
    show ?thesis
    proof (cases "append_payload b d1")
      case None
      with False Some 1 show ?thesis
        using dropped_ok [OF 1(1) 1(2)] append_payload_full [OF 1(1) None] by (simp add: payload_esc_byte_def)
    next
      case (Some d2)
      with False \<open>append_payload ESC d = Some d1\<close> append_payload_ok [OF 1(1) Some] 1 show ?thesis
        by (simp add: payload_esc_byte_def effect_ok_def osc_ok_def)
    qed
  qed
qed

lemma esc_byte_ok:
  assumes ok: "osc_ok d"
  shows "effect_ok d (esc_byte b d)"
proof -
  have "osc_ok (d\<lparr>od_state := Ground\<rparr>)" using ok by (simp add: osc_ok_def)
  from ground_byte_ok [OF this, of b] ok show ?thesis
    by (auto simp: esc_byte_def effect_ok_def begin_osc_def osc_ok_def split: prod.split)
qed

lemma osc_byte_ok: "osc_ok d \<Longrightarrow> effect_ok d (osc_byte b d)"
  by (cases "od_state d")
    (simp_all add: osc_byte_def ground_byte_ok esc_byte_ok payload_byte_ok payload_esc_byte_ok)

lemma run_ok: "osc_ok d \<Longrightarrow> effect_ok d (osc_bytes_run bs d)"
proof (induction bs arbitrary: d)
  case (Cons b bs)
  obtain d1 o1 e1 where 1: "osc_byte b d = (d1, o1, e1)" by (cases "osc_byte b d") auto
  with osc_byte_ok [OF Cons.prems, of b] have d1: "osc_ok d1" "od_max d1 = od_max d" "list_all (overflow_of (od_max d)) e1"
    by (simp_all add: effect_ok_def)
  with Cons.IH [OF d1(1)] 1 show ?case by (simp add: effect_ok_def case_prod_beta)
qed (simp add: effect_ok_def)

lemma feed_ok: "osc_ok d \<Longrightarrow> effect_ok d (feed bs d)"
  using run_ok [of d bs] by (simp add: feed_def effect_ok_def case_prod_beta)

lemma feed_all_ok: "osc_ok d \<Longrightarrow> effect_ok d (feed_all cs d)"
proof (induction cs arbitrary: d)
  case (Cons c cs)
  obtain d1 o1 e1 where 1: "feed c d = (d1, o1, e1)" by (cases "feed c d") auto
  with feed_ok [OF Cons.prems, of c] have d1: "osc_ok d1" "od_max d1 = od_max d" "list_all (overflow_of (od_max d)) e1"
    by (simp_all add: effect_ok_def)
  with Cons.IH [OF d1(1)] 1 show ?case by (simp add: effect_ok_def case_prod_beta)
qed (simp add: effect_ok_def)

section \<open>Properties\<close>

text \<open>The decoder's memory is bounded. Whatever a shell prints, in whatever chunks, the payload never
  exceeds its maximum, the buffer never grows past it (or its initial 256 bytes), no byte of a payload is
  written outside the buffer, and an overflow event reports exactly the maximum.\<close>

theorem decoder_bounded:
  "case feed_all cs (new_decoder m) of (d, out, evs) \<Rightarrow>
     od_len d \<le> od_max d \<and> od_len d \<le> length (od_buf d) \<and> length (od_buf d) \<le> max 256 (od_max d)
     \<and> od_max d = max 64 (case m of None \<Rightarrow> 4096 | Some n \<Rightarrow> n)
     \<and> length out \<le> length (concat cs) \<and> list_all (overflow_of (od_max d)) evs"
proof -
  have out: "length (fst (snd (feed_all cs d))) \<le> length (concat cs)" for d
  proof (induction cs arbitrary: d)
    case (Cons c cs)
    obtain d1 o1 e1 where 1: "feed c d = (d1, o1, e1)" by (cases "feed c d") auto
    then have "length o1 \<le> length c" by (auto simp: feed_def split: prod.splits)
    with 1 Cons.IH [of d1] show ?case by (simp add: case_prod_beta)
  qed simp
  from feed_all_ok [OF new_decoder_ok [of m], of cs] out [of "new_decoder m"] show ?thesis
    by (auto simp: effect_ok_def osc_ok_def new_decoder_def split: prod.split)
qed

text \<open>A chunk that starts with an \<^verbatim>\<open>ESC\<close> pending.\<close>

fun starts_pending :: "bytes list \<Rightarrow> osc_decoder \<Rightarrow> bool" where
  "starts_pending [] d = False"
| "starts_pending (c # cs) d = (od_state d = Esc \<or> starts_pending cs (fst (feed c d)))"

lemma feed_state_events:
  "fst (feed bs d) = fst (osc_bytes_run bs d)" "snd (snd (feed bs d)) = snd (snd (osc_bytes_run bs d))"
  by (simp_all add: feed_def split: prod.split)

lemma feed_all_run:
  "fst (feed_all cs d) = fst (osc_bytes_run (concat cs) d)
   \<and> snd (snd (feed_all cs d)) = snd (snd (osc_bytes_run (concat cs) d))
   \<and> (starts_pending cs d \<or> fst (snd (feed_all cs d)) = fst (snd (osc_bytes_run (concat cs) d)))"
proof (induction cs arbitrary: d)
  case (Cons c cs)
  obtain d1 o1 e1 where 1: "feed c d = (d1, o1, e1)" by (cases "feed c d") auto
  obtain w1 where run: "osc_bytes_run c d = (d1, w1, e1)"
    using feed_state_events [of c d] 1 by (cases "osc_bytes_run c d") auto
  have w1: "w1 = o1" if "od_state d \<noteq> Esc" using feed_complete [OF that, of c] run 1 by simp
  from Cons.IH [of d1] w1 show ?case by (auto simp: run_append run 1 split: prod.splits)
qed simp

text \<open>C17: how the stream is cut into chunks does not matter to the marks. Feeding chunk by chunk ends in the same
  state with the same events, in order, as feeding everything at once; and the same bytes pass through, provided
  that no cut falls right after an \<^verbatim>\<open>ESC\<close> outside a sequence.\<close>

theorem chunk_agnostic:
  "fst (feed_all cs d) = fst (feed (concat cs) d) \<and> snd (snd (feed_all cs d)) = snd (snd (feed (concat cs) d))
   \<and> (starts_pending cs d \<or> cs = [] \<or> fst (snd (feed_all cs d)) = fst (snd (feed (concat cs) d)))"
proof -
  note all = feed_all_run [of cs d]
  have "starts_pending cs d \<or> cs = [] \<or> feed (concat cs) d = osc_bytes_run (concat cs) d"
    by (cases cs) (auto intro!: feed_complete)
  with all show ?thesis by (auto simp: feed_state_events)
qed

text \<open>Bytes that mean nothing to the decoder outside a sequence.\<close>

definition plain :: "bytes \<Rightarrow> bool" where
  "plain bs \<longleftrightarrow> ESC \<notin> set bs \<and> C1_OSC \<notin> set bs"

lemma run_plain: "plain bs \<Longrightarrow> od_state d = Ground \<Longrightarrow> osc_bytes_run bs d = (d, bs, [])"
  by (induction bs) (auto simp: plain_def osc_byte_def ground_byte_def)

text \<open>A cut after an \<^verbatim>\<open>ESC\<close> outside a sequence loses a byte. Terminal output that starts with an escape
  sequence other than OSC passes through whole in one chunk; cut after its \<^verbatim>\<open>ESC\<close>, the second chunk has room for
  its own length only, and its last byte is dropped.\<close>

theorem split_escape_drops_byte:
  assumes "od_state d = Ground" and "plain t" and "t \<noteq> []" and "hd t \<noteq> BRACKET_CLOSE" and "hd t \<noteq> BACKSLASH"
  shows "fst (snd (feed (ESC # t) d)) = ESC # t \<and> fst (snd (feed_all ([ESC] # t # []) d)) = ESC # butlast t"
proof -
  obtain b bs where t: "t = b # bs" using assms(3) by (cases t) auto
  let ?d = "d\<lparr>od_state := Esc\<rparr>"
  have g: "d\<lparr>od_state := Ground\<rparr> = d" using assms(1) by (cases d) simp
  have esc: "osc_byte ESC d = (?d, [], [])" using assms(1) by (simp add: osc_byte_def ground_byte_def)
  have next_byte: "osc_byte b ?d = (d, [ESC, b], [])"
    using assms(2,4,5) by (auto simp: t plain_def osc_byte_def esc_byte_def ground_byte_def g)
  have rest: "osc_bytes_run bs d = (d, bs, [])" using assms(1,2) by (intro run_plain) (simp_all add: t plain_def)
  have "osc_bytes_run t ?d = (d, ESC # t, [])" by (simp add: t next_byte rest)
  moreover from this have "osc_bytes_run (ESC # t) d = (d, ESC # t, [])" by (simp add: esc)
  moreover have "take (length bs) (b # bs) = butlast (b # bs)" by (simp only: butlast_conv_take) simp
  ultimately show ?thesis by (simp add: feed_def esc t del: osc_bytes_run.simps(2) butlast.simps, simp add: esc)
qed

theorem split_escape_drops_byte_witness:
  "fst (snd (feed_all ([ESC] # [0x5b, 0x33, 0x31, 0x6d] # []) (new_decoder None))) = [ESC, 0x5b, 0x33, 0x31]"
  using split_escape_drops_byte [of "new_decoder None" "[0x5b, 0x33, 0x31, 0x6d]"]
  by (simp add: new_decoder_def plain_def osc_bytes)

section \<open>Whole sequences\<close>

text \<open>A stretch of output: plain bytes, or a sequence with one of the two introducers and one of the three
  terminators.\<close>

datatype osc_end = End_Bel | End_St7 | End_St8

datatype segment = Text bytes | Mark bool bytes osc_end

fun osc_end_bytes :: "osc_end \<Rightarrow> bytes" where
  "osc_end_bytes End_Bel = [BEL]"
| "osc_end_bytes End_St7 = [ESC, BACKSLASH]"
| "osc_end_bytes End_St8 = [C1_ST]"

fun render :: "segment \<Rightarrow> bytes" where
  "render (Text bs) = bs"
| "render (Mark c1 p e) = (if c1 then [C1_OSC] else [ESC, BRACKET_CLOSE]) @ p @ osc_end_bytes e"

fun segment_ok :: "nat \<Rightarrow> segment \<Rightarrow> bool" where
  "segment_ok n (Text bs) = plain bs"
| "segment_ok n (Mark c1 p e) = (length p \<le> n \<and> {BEL, ESC, C1_ST} \<inter> set p = {})"

fun segment_text :: "segment \<Rightarrow> bytes" where
  "segment_text (Text bs) = bs"
| "segment_text (Mark c1 p e) = []"

fun segment_events :: "segment \<Rightarrow> osc_event list" where
  "segment_events (Text bs) = []"
| "segment_events (Mark c1 p e) = [parse_osc p]"

lemma run_payload:
  assumes "osc_ok d" and "od_state d = Osc_Payload" and "od_len d + length p \<le> od_max d"
    and "{BEL, ESC, C1_ST} \<inter> set p = {}"
  obtains d' where "osc_bytes_run p d = (d', [], [])" "osc_ok d'" "od_state d' = Osc_Payload"
    "od_max d' = od_max d" "od_payload d' = od_payload d @ p"
proof -
  have "\<exists>d'. osc_bytes_run p d = (d', [], []) \<and> osc_ok d' \<and> od_state d' = Osc_Payload
      \<and> od_max d' = od_max d \<and> od_payload d' = od_payload d @ p"
    using assms
  proof (induction p arbitrary: d)
    case (Cons b p)
    have "od_len d < od_max d" using Cons.prems(3) by simp
    from append_payload_Some [OF Cons.prems(1) this, of b] obtain d1 where d1: "append_payload b d = Some d1"
      "od_payload d1 = od_payload d @ [b]" "od_len d1 = od_len d + 1" "od_state d1 = od_state d"
      "od_max d1 = od_max d" "osc_ok d1" .
    have step: "osc_byte b d = (d1, [], [])"
      using Cons.prems(2,4) d1(1) by (auto simp: osc_byte_def payload_byte_def)
    from Cons.IH [OF d1(6)] d1 Cons.prems obtain d' where "osc_bytes_run p d1 = (d', [], [])" "osc_ok d'"
      "od_state d' = Osc_Payload" "od_max d' = od_max d" "od_payload d' = od_payload d @ b # p"
      by auto
    then show ?case by (simp add: step)
  qed simp
  with that show thesis by blast
qed

lemma run_segment:
  assumes ok: "osc_ok d" and g: "od_state d = Ground" and seg: "segment_ok (od_max d) s"
  obtains d' where "osc_bytes_run (render s) d = (d', segment_text s, segment_events s)" "osc_ok d'"
    "od_state d' = Ground" "od_max d' = od_max d"
proof (cases s)
  case (Text bs)
  with run_plain [of bs d] assms that show thesis by simp
next
  case (Mark c1 p e)
  let ?d = "begin_osc d"
  have d: "osc_ok ?d" "od_state ?d = Osc_Payload" "od_max ?d = od_max d" "od_len ?d = 0" "od_payload ?d = []"
    using ok by (simp_all add: begin_osc_def osc_ok_def od_payload_def)
  have "begin_osc (d\<lparr>od_state := Esc\<rparr>) = ?d" by (simp add: begin_osc_def)
  then have intro: "osc_bytes_run (if c1 then [C1_OSC] else [ESC, BRACKET_CLOSE]) d = (?d, [], [])"
    using g by (simp add: osc_byte_def ground_byte_def esc_byte_def osc_bytes)
  from run_payload [OF d(1,2), of p] seg d obtain d1 where d1: "osc_bytes_run p ?d = (d1, [], [])" "osc_ok d1"
    "od_state d1 = Osc_Payload" "od_max d1 = od_max d" "od_payload d1 = p"
    by (auto simp: Mark)
  let ?e = "d1\<lparr>od_state := Ground, od_len := 0\<rparr>"
  have "osc_bytes_run (osc_end_bytes e) d1 = (?e, [], [parse_osc p])"
    using d1(3,5) by (cases e) (simp_all add: osc_byte_def payload_byte_def payload_esc_byte_def complete_osc_def
        od_payload_def osc_bytes)
  then have "osc_bytes_run (render s) d = (?e, segment_text s, segment_events s)"
    using intro d1(1) by (simp only: Mark render.simps run_append) simp
  moreover have "osc_ok ?e" using d1(2) by (simp add: osc_ok_def)
  ultimately show thesis using that d1(4) by simp
qed

text \<open>Sequences are taken out and nothing else is. Output made of plain text and complete sequences, with
  either introducer and any terminator, yields exactly the text, and exactly the marks of the sequences in
  order, however it is interleaved, and leaves the decoder outside any sequence.\<close>

theorem sequences_stripped:
  assumes "osc_ok d" and "od_state d = Ground" and "list_all (segment_ok (od_max d)) segs"
  shows "fst (snd (feed (concat (map render segs)) d)) = concat (map segment_text segs)
    \<and> snd (snd (feed (concat (map render segs)) d)) = concat (map segment_events segs)
    \<and> od_state (fst (feed (concat (map render segs)) d)) = Ground"
proof -
  have "\<exists>d'. osc_bytes_run (concat (map render segs)) d
      = (d', concat (map segment_text segs), concat (map segment_events segs)) \<and> od_state d' = Ground"
    using assms
  proof (induction segs arbitrary: d)
    case (Cons s segs)
    from Cons.prems have "segment_ok (od_max d) s" by simp
    from run_segment [OF Cons.prems(1,2) this] obtain d1 where d1: "osc_ok d1" "od_state d1 = Ground"
      "od_max d1 = od_max d" "osc_bytes_run (render s) d = (d1, segment_text s, segment_events s)" by metis
    with Cons.prems(3) have "list_all (segment_ok (od_max d1)) segs" by simp
    from Cons.IH [OF d1(1,2) this] d1(4) show ?case by (auto simp: run_append)
  qed simp
  moreover have "feed (concat (map render segs)) d = osc_bytes_run (concat (map render segs)) d"
    using assms(2) by (intro feed_complete) simp
  ultimately show ?thesis by auto
qed

theorem sequences_stripped_witness:
  "decode_osc_one_shot ([0x24, ESC, BRACKET_CLOSE] @ map word_of_nat [54, 51, 51, 59, 68, 59, 48] @ [BEL, 0x0a])
   = ([0x24, 0x0a], [Osc_633 (lit ''D'') (lit ''0'' # [])])"
proof -
  let ?p = "map word_of_nat [54, 51, 51, 59, 68, 59, 48] :: bytes"
  let ?segs = "[Text [0x24], Mark False ?p End_Bel, Text [0x0a]]"
  have ok: "list_all (segment_ok (od_max (new_decoder None))) ?segs"
    by (simp add: new_decoder_def plain_def osc_bytes)
  have "od_state (new_decoder None) = Ground" by (simp add: new_decoder_def)
  note s = sequences_stripped [OF new_decoder_ok this ok]
  have "parse_osc ?p = Osc_633 (lit ''D'') (lit ''0'' # [])"
    by (simp add: parse_osc_def text_decode_def strip_bom_def utf16_of_def lit_def mark_letter_def mark_args_def Let_def)
  with s show ?thesis by (simp add: decode_osc_one_shot_def prod_eq_iff)
qed

text \<open>The eight-bit introducer is also the last byte of characters in UTF-8, a right double quotation mark (E2 80 9D)
  among them: text printed after one does not pass through until a terminator comes.\<close>

theorem utf8_quote_opens_sequence:
  assumes "osc_ok d" and "od_state d = Ground" and "length t \<le> od_max d" and "{BEL, ESC, C1_ST} \<inter> set t = {}"
  shows "fst (snd (feed ([0xe2, 0x80, 0x9d] @ t) d)) = [0xe2, 0x80] \<and> utf8_scalars [0xe2, 0x80, 0x9d] = [8221]"
proof -
  have d: "osc_ok (begin_osc d)" "od_state (begin_osc d) = Osc_Payload" "od_len (begin_osc d) = 0"
    "od_max (begin_osc d) = od_max d" using assms(1) by (simp_all add: begin_osc_def osc_ok_def)
  from run_payload [OF d(1,2), of t] assms(3,4) d obtain d' where "osc_bytes_run t (begin_osc d) = (d', [], [])" by auto
  moreover have "osc_bytes_run [0xe2, 0x80, 0x9d] d = (begin_osc d, [0xe2, 0x80], [])"
    using assms(2) by (simp add: osc_byte_def ground_byte_def osc_bytes)
  ultimately have "osc_bytes_run ([0xe2, 0x80, 0x9d] @ t) d = (d', [0xe2, 0x80], [])"
    by (simp only: run_append) simp
  then show ?thesis by (simp add: feed_def utf8_scalars_def utf8_decode.simps)
qed

end
