(* ===== verification/Loop_Detector.thy ===== *)
theory Loop_Detector
  imports Json "HOL-Library.List_Lexorder"
begin

text \<open>
  The circuit breaker of the agent loop (\<^verbatim>\<open>packages/agent/src/loop-detector.ts\<close>). Tool inputs and outputs are
  JSON values, \<^const>\<open>None\<close> stands for \<^verbatim>\<open>undefined\<close>, and for \<^verbatim>\<open>Infinity\<close> in
  \<^verbatim>\<open>maxConsecutiveNoProgress\<close>.
\<close>

section \<open>Classifying outputs\<close>

definition word_unit :: "16 word \<Rightarrow> bool" where
  "word_unit u \<longleftrightarrow>
     (let n = unat u in (48 \<le> n \<and> n \<le> 57) \<or> (65 \<le> n \<and> n \<le> 90) \<or> (97 \<le> n \<and> n \<le> 122) \<or> n = 95)"

definition lower16 :: "16 word \<Rightarrow> 16 word" where
  "lower16 u = (if 65 \<le> unat u \<and> unat u \<le> 90 then u + 32 else u)"

text \<open>\<^verbatim>\<open>ERROR_TEXT_RE\<close>: alternatives of a few pieces each, without regard to case. \<open>re_ends\<close> gives what is left
  of the text after each way to match a list of pieces at its start.\<close>

datatype re_piece = Re_Char "16 word" | Re_Opt "16 word" | Re_Spaces | Re_Range "16 word" "16 word"

fun re_ends :: "re_piece list \<Rightarrow> utf16 \<Rightarrow> utf16 list" where
  "re_ends [] s = [s]"
| "re_ends (Re_Char c # ps) s = (case s of [] \<Rightarrow> [] | u # r \<Rightarrow> if lower16 u = c then re_ends ps r else [])"
| "re_ends (Re_Opt c # ps) s =
     (case s of [] \<Rightarrow> [] | u # r \<Rightarrow> if lower16 u = c then re_ends ps r else []) @ re_ends ps s"
| "re_ends (Re_Spaces # ps) [] = re_ends ps []"
| "re_ends (Re_Spaces # ps) (u # r) = (if js16_space u then re_ends (Re_Spaces # ps) r else []) @ re_ends ps (u # r)"
| "re_ends (Re_Range a b # ps) s = (case s of [] \<Rightarrow> [] | u # r \<Rightarrow> if a \<le> u \<and> u \<le> b then re_ends ps r else [])"

definition re_word :: "string \<Rightarrow> re_piece list" where
  "re_word w = map Re_Char (lit w)"

definition bounded_res :: "re_piece list list" where
  "bounded_res =
     map re_word [''error'', ''failed'', ''failure'', ''refused'', ''unreachable'', ''denied'', ''forbidden'',
       ''cannot'', ''unable'', ''timeout'']
     @ [re_word ''not'' @ [Re_Spaces] @ re_word ''found'', re_word ''could'' @ [Re_Spaces] @ re_word ''not'',
        re_word ''couldn'' @ [Re_Opt 39] @ re_word ''t'', re_word ''timed'' @ [Re_Spaces] @ re_word ''out'',
        [Re_Range 52 53, Re_Range 48 57, Re_Range 48 57]]"

definition unbounded_res :: "re_piece list list" where
  "unbounded_res = map re_word [''enotfound'', ''econnrefused'', ''etimedout'', ''ehostunreach'', ''eai_again'']"

definition at_boundary :: "16 word option \<Rightarrow> utf16 \<Rightarrow> bool" where
  "at_boundary prev s \<longleftrightarrow>
     (case prev of None \<Rightarrow> False | Some u \<Rightarrow> word_unit u) \<noteq> (case s of [] \<Rightarrow> False | u # _ \<Rightarrow> word_unit u)"

text \<open>The unit before the rest \<open>r\<close> of the text \<open>s\<close>, itself preceded by \<open>prev\<close>.\<close>

definition unit_before :: "16 word option \<Rightarrow> utf16 \<Rightarrow> utf16 \<Rightarrow> 16 word option" where
  "unit_before prev s r = (if length r = length s then prev else Some (s ! (length s - length r - 1)))"

definition error_here :: "16 word option \<Rightarrow> utf16 \<Rightarrow> bool" where
  "error_here prev s \<longleftrightarrow>
     (at_boundary prev s \<and>
        list_ex (\<lambda>ps. list_ex (\<lambda>r. at_boundary (unit_before prev s r) r) (re_ends ps s)) bounded_res)
     \<or> list_ex (\<lambda>ps. re_ends ps s \<noteq> []) unbounded_res"

fun error_text_from :: "16 word option \<Rightarrow> utf16 \<Rightarrow> bool" where
  "error_text_from prev [] = error_here prev []"
| "error_text_from prev (u # r) = (error_here prev (u # r) \<or> error_text_from (Some u) r)"

definition error_text_re :: "utf16 \<Rightarrow> bool" where
  "error_text_re s = error_text_from None s"

definition error_scan_chars :: nat where
  "error_scan_chars = 300"

definition text_looks_like_error :: "utf16 \<Rightarrow> bool" where
  "text_looks_like_error s = error_text_re (take error_scan_chars s)"

text \<open>A value in a template string.\<close>

fun js_string :: "json \<Rightarrow> utf16" and js_strings :: "json list \<Rightarrow> utf16" where
  "js_string JNull = lit ''null''"
| "js_string (JBool b) = (if b then lit ''true'' else lit ''false'')"
| "js_string (JNum q) = number_text q"
| "js_string (JStr s) = s"
| "js_string (JArr vs) = js_strings vs"
| "js_string (JObj es) = lit ''[object Object]''"
| "js_strings [] = []"
| "js_strings [v] = (if v = JNull then [] else js_string v)"
| "js_strings (v # w # vs) = (if v = JNull then [] else js_string v) @ [44] @ js_strings (w # vs)"

definition prop_of :: "json \<Rightarrow> string \<Rightarrow> json option" where
  "prop_of v k = json_get v (lit k)"

definition or_empty :: "json option \<Rightarrow> utf16" where
  "or_empty v = (case v of None \<Rightarrow> [] | Some JNull \<Rightarrow> [] | Some w \<Rightarrow> js_string w)"

text \<open>\<^verbatim>\<open>typeof v === 'string' && v.trim()\<close>.\<close>

definition nonblank :: "json option \<Rightarrow> bool" where
  "nonblank v \<longleftrightarrow> (case v of Some (JStr s) \<Rightarrow> trim16 s \<noteq> [] | _ \<Rightarrow> False)"

definition is_unproductive_object :: "json \<Rightarrow> bool" where
  "is_unproductive_object v =
     (case v of
        JArr _ \<Rightarrow> False
      | _ \<Rightarrow>
          if prop_of v ''timedOut'' = Some (JBool True) \<or> prop_of v ''killed'' = Some (JBool True) then True
          else if prop_of v ''ok'' = Some (JBool True) \<or> prop_of v ''success'' = Some (JBool True)
                  \<or> prop_of v ''successful'' = Some (JBool True) then False
          else
            (case prop_of v ''exitCode'' of
               Some (JNum n) \<Rightarrow>
                 if n = 0 then False
                 else if n = 141 then False
                 else if nonblank (prop_of v ''stdout'') then False
                 else if n = 1 \<and> \<not> nonblank (prop_of v ''stderr'') then False
                 else True
             | _ \<Rightarrow>
                 if prop_of v ''ok'' = Some (JBool False) \<or> prop_of v ''success'' = Some (JBool False)
                    \<or> prop_of v ''successful'' = Some (JBool False) then True
                 else if (case prop_of v ''status'' of Some (JNum n) \<Rightarrow> n \<ge> 400 | _ \<Rightarrow> False) then True
                 else if prop_of v ''error'' \<notin> {None, Some JNull, Some (JBool False), Some (JStr [])} then True
                 else if nonblank (prop_of v ''stderr'')
                         \<and> (case prop_of v ''stderr'' of Some (JStr s) \<Rightarrow> error_text_re s | _ \<Rightarrow> False) then True
                 else
                   (let txt = trim16 (or_empty (prop_of v ''message'') @ [32] @ or_empty (prop_of v ''stdout''))
                    in txt \<noteq> [] \<and> text_looks_like_error txt)))"

definition is_unproductive_output :: "json option \<Rightarrow> bool" where
  "is_unproductive_output v =
     (case v of
        None \<Rightarrow> False
      | Some JNull \<Rightarrow> False
      | Some (JStr s) \<Rightarrow>
          (let t = trim16 s;
               parsed = (if t \<noteq> [] \<and> (hd t = 123 \<or> hd t = 91) then json_parse t else None)
           in case parsed of
                Some (JArr vs) \<Rightarrow> is_unproductive_object (JArr vs)
              | Some (JObj es) \<Rightarrow> is_unproductive_object (JObj es)
              | _ \<Rightarrow> text_looks_like_error t)
      | Some (JArr vs) \<Rightarrow> is_unproductive_object (JArr vs)
      | Some (JObj es) \<Rightarrow> is_unproductive_object (JObj es)
      | Some _ \<Rightarrow> False)"

section \<open>Hashing\<close>

definition object_keys :: "json \<Rightarrow> utf16 list" where
  "object_keys v =
     (case v of
        JObj es \<Rightarrow> map fst es
      | JArr vs \<Rightarrow> map dec_text [0..<length vs]
      | _ \<Rightarrow> [])"

definition stable_hash :: "json option \<Rightarrow> utf16" where
  "stable_hash v =
     (case v of
        None \<Rightarrow> lit ''null''
      | Some JNull \<Rightarrow> lit ''null''
      | Some (JStr s) \<Rightarrow> (if length s > 200 then take 200 s else s)
      | Some w \<Rightarrow> json_text_of_keys (sort (object_keys w)) w)"

section \<open>The detector\<close>

record loop_config =
  max_identical_calls :: nat
  max_identical_outputs :: nat
  cycle_window_size :: nat
  min_cycle_length :: nat
  max_no_progress :: "nat option"

definition default_config :: loop_config where
  "default_config = \<lparr>max_identical_calls = 10, max_identical_outputs = 10, cycle_window_size = 10,
     min_cycle_length = 2, max_no_progress = Some 0\<rparr>"

record tool_call_entry =
  tc_name :: utf16
  tc_input :: utf16
  tc_output :: utf16
  tc_unproductive :: bool
  tc_turn :: nat

record loop_detector =
  ld_config :: loop_config
  ld_history :: "tool_call_entry list"
  ld_turn :: nat
  ld_closed :: "bool list"

datatype loop_result = No_Loop | Loop_Detected string utf16

definition new_detector :: "loop_config \<Rightarrow> loop_detector" where
  "new_detector c = \<lparr>ld_config = c, ld_history = [], ld_turn = 0, ld_closed = []\<rparr>"

definition check_identical_calls :: "loop_detector \<Rightarrow> loop_result" where
  "check_identical_calls d =
     (let n = max_identical_calls (ld_config d)
      in if length (ld_history d) < n then No_Loop
         else
           (let tail = slice_last n (ld_history d); first = hd tail
            in if list_all (\<lambda>e. tc_name e = tc_name first \<and> tc_input e = tc_input first) tail
               then Loop_Detected ''identical_calls''
                      (tc_name first @ lit '' called '' @ dec_text n @ lit '' times with identical input'')
               else No_Loop))"

definition check_identical_outputs :: "loop_detector \<Rightarrow> loop_result" where
  "check_identical_outputs d =
     (let n = max_identical_outputs (ld_config d)
      in if length (ld_history d) < n then No_Loop
         else
           (let tail = slice_last n (ld_history d); first = hd tail
            in if list_all (\<lambda>e. tc_input e = tc_input first \<and> tc_output e = tc_output first) tail
               then Loop_Detected ''identical_outputs''
                      (lit ''Last '' @ dec_text n @ lit '' tool calls produced identical input+output'')
               else No_Loop))"

definition cycle_key :: "tool_call_entry \<Rightarrow> utf16" where
  "cycle_key e = tc_name e @ [58] @ tc_input e @ [58] @ tc_output e"

text \<open>The inner loop; \<^verbatim>\<open>i % 0\<close> is \<^verbatim>\<open>NaN\<close>, which indexes nothing.\<close>

definition is_cycle :: "utf16 list \<Rightarrow> nat \<Rightarrow> bool" where
  "is_cycle ks n \<longleftrightarrow> (if n = 0 then ks = [] else list_all (\<lambda>i. ks ! i = take n ks ! (i mod n)) [n..<length ks])"

fun join_arrow :: "utf16 list \<Rightarrow> utf16" where
  "join_arrow [] = []"
| "join_arrow [s] = s"
| "join_arrow (s # t # ss) = s @ [32, 0x2192, 32] @ join_arrow (t # ss)"

definition check_cycles :: "loop_detector \<Rightarrow> loop_result" where
  "check_cycles d =
     (let w = cycle_window_size (ld_config d)
      in if length (ld_history d) < w then No_Loop
         else
           (let window = slice_last w (ld_history d); ks = map cycle_key window
            in case find (is_cycle ks) [min_cycle_length (ld_config d)..<length ks div 2 + 1] of
                 None \<Rightarrow> No_Loop
               | Some n \<Rightarrow>
                   Loop_Detected ''cycle''
                     (lit ''Repeating cycle detected: '' @ join_arrow (map tc_name (take n window))
                      @ lit '' ('' @ dec_text (length ks div n) @ lit '' repetitions)'')))"

definition detect :: "loop_detector \<Rightarrow> loop_result" where
  "detect d =
     (case check_identical_calls d of
        No_Loop \<Rightarrow> (case check_identical_outputs d of No_Loop \<Rightarrow> check_cycles d | r \<Rightarrow> r)
      | r \<Rightarrow> r)"

definition record_call :: "utf16 \<Rightarrow> json \<Rightarrow> json option \<Rightarrow> loop_detector \<Rightarrow> loop_detector" where
  "record_call name input output d =
     d\<lparr>ld_history := ld_history d @
        [\<lparr>tc_name = name, tc_input = stable_hash (Some input), tc_output = stable_hash output,
          tc_unproductive = is_unproductive_output output, tc_turn = ld_turn d\<rparr>]\<rparr>"

definition record_and_check :: "utf16 \<Rightarrow> json \<Rightarrow> json option \<Rightarrow> loop_detector \<Rightarrow> loop_detector \<times> loop_result" where
  "record_and_check name input output d = (let d' = record_call name input output d in (d', detect d'))"

definition check_no_progress :: "loop_detector \<Rightarrow> loop_result" where
  "check_no_progress d =
     (case max_no_progress (ld_config d) of
        None \<Rightarrow> No_Loop
      | Some n \<Rightarrow>
          if n = 0 then No_Loop
          else if length (ld_closed d) < n then No_Loop
          else if list_all id (slice_last n (ld_closed d))
          then Loop_Detected ''no_progress''
                 (dec_text n @ lit '' turns in a row where every tool call failed '' @ [0x2014]
                  @ lit '' stop and ask for help instead of retrying'')
          else No_Loop)"

definition close_turn :: "loop_detector \<Rightarrow> loop_detector" where
  "close_turn d =
     (let calls = filter (\<lambda>e. tc_turn e = ld_turn d) (ld_history d)
      in d\<lparr>ld_closed := (if calls \<noteq> [] then ld_closed d @ [list_all tc_unproductive calls] else ld_closed d),
           ld_turn := ld_turn d + 1\<rparr>)"

definition record_turn_end :: "loop_detector \<Rightarrow> loop_detector \<times> loop_result" where
  "record_turn_end d = (let d' = close_turn d in (d', check_no_progress d'))"

definition reset_detector :: "loop_detector \<Rightarrow> loop_detector" where
  "reset_detector d = d\<lparr>ld_history := [], ld_closed := [], ld_turn := 0\<rparr>"

definition call_count :: "loop_detector \<Rightarrow> nat" where
  "call_count d = length (ld_history d)"

datatype loop_op = Lo_Call utf16 json "json option" | Lo_Turn_End | Lo_Reset

fun loop_step :: "loop_op \<Rightarrow> loop_detector \<Rightarrow> loop_detector" where
  "loop_step (Lo_Call name input output) d = fst (record_and_check name input output d)"
| "loop_step Lo_Turn_End d = fst (record_turn_end d)"
| "loop_step Lo_Reset d = reset_detector d"

section \<open>Cycles\<close>

lemma is_cycle_periodic:
  assumes "0 < n" and "n \<le> length ks"
  shows "is_cycle ks n \<longleftrightarrow> (\<forall>i. i + n < length ks \<longrightarrow> ks ! i = ks ! (i + n))"
proof
  assume "is_cycle ks n"
  then have c: "ks ! i = ks ! (i mod n)" if "n \<le> i" "i < length ks" for i
    using assms that by (simp add: is_cycle_def list_all_iff)
  show "\<forall>i. i + n < length ks \<longrightarrow> ks ! i = ks ! (i + n)"
  proof (intro allI impI)
    fix i assume i: "i + n < length ks"
    show "ks ! i = ks ! (i + n)"
    proof (cases "n \<le> i")
      case True
      with c [of i] c [of "i + n"] i show ?thesis by simp
    next
      case False
      with c [of "i + n"] i show ?thesis by simp
    qed
  qed
next
  assume p: "\<forall>i. i + n < length ks \<longrightarrow> ks ! i = ks ! (i + n)"
  have "ks ! i = ks ! (i mod n)" if "i < length ks" for i
    using that
  proof (induction i rule: less_induct)
    case (less i)
    show ?case
    proof (cases "i < n")
      case False
      with p [rule_format, of "i - n"] less assms(1) show ?thesis by (simp add: le_mod_geq not_less)
    qed simp
  qed
  with assms show "is_cycle ks n" by (simp add: is_cycle_def list_all_iff)
qed

lemma find_Some_iff: "find P xs = None \<longleftrightarrow> (\<forall>x \<in> set xs. \<not> P x)"
  by (induction xs) auto

text \<open>The window \<open>ks\<close> repeats with some period from \<open>lo\<close> up to half its length.\<close>

definition repeats :: "nat \<Rightarrow> utf16 list \<Rightarrow> bool" where
  "repeats lo ks \<longleftrightarrow> (\<exists>n. lo \<le> n \<and> 2 * n \<le> length ks \<and> {i. i + n < length ks} \<subseteq> {i. ks ! i = ks ! (i + n)})"

lemma cycle_found_iff:
  assumes "0 < lo"
  shows "find (is_cycle ks) [lo..<length ks div 2 + 1] \<noteq> None \<longleftrightarrow> repeats lo ks"
proof -
  have "find (is_cycle ks) [lo..<length ks div 2 + 1] \<noteq> None
      \<longleftrightarrow> (\<exists>n. lo \<le> n \<and> n \<le> length ks div 2 \<and> is_cycle ks n)"
    by (auto simp: find_Some_iff)
  also have "\<dots> \<longleftrightarrow> (\<exists>n. lo \<le> n \<and> 2 * n \<le> length ks \<and> (\<forall>i. i + n < length ks \<longrightarrow> ks ! i = ks ! (i + n)))"
  proof (rule arg_cong [where f = Ex], rule ext)
    fix n
    have "n \<le> length ks div 2 \<longleftrightarrow> 2 * n \<le> length ks" by linarith
    moreover have "is_cycle ks n \<longleftrightarrow> (\<forall>i. i + n < length ks \<longrightarrow> ks ! i = ks ! (i + n))"
      if "lo \<le> n" "2 * n \<le> length ks" using that assms by (intro is_cycle_periodic) simp_all
    ultimately show "(lo \<le> n \<and> n \<le> length ks div 2 \<and> is_cycle ks n)
        = (lo \<le> n \<and> 2 * n \<le> length ks \<and> (\<forall>i. i + n < length ks \<longrightarrow> ks ! i = ks ! (i + n)))" by blast
  qed
  finally show ?thesis by (simp add: repeats_def subset_eq)
qed

section \<open>Properties\<close>

text \<open>The last \<open>n\<close> calls agree on \<open>f\<close>.\<close>

definition same_tail :: "nat \<Rightarrow> (tool_call_entry \<Rightarrow> 'a) \<Rightarrow> tool_call_entry list \<Rightarrow> bool" where
  "same_tail n f h \<longleftrightarrow> n \<le> length h \<and> (\<exists>x. f ` set (slice_last n h) = {x})"

lemma all_same_iff: "xs \<noteq> [] \<Longrightarrow> (\<forall>e \<in> set xs. f e = f (hd xs)) \<longleftrightarrow> (\<exists>x. f ` set xs = {x})"
  by (cases xs) (auto simp: image_iff)

lemma slice_last_not_Nil: "h \<noteq> [] \<Longrightarrow> n \<le> length h \<Longrightarrow> slice_last n h \<noteq> []"
  using diff_less [of n "length h"] by (auto simp: slice_last_def not_le)

text \<open>What trips the breaker. With any positive thresholds, recording a call reports a loop exactly when
  the last calls agree on tool and input, or on input and output, or the window of recent calls (tool, input
  and output) repeats with a period between the minimal cycle length and half the window.\<close>

theorem loop_detected_iff:
  assumes "0 < min_cycle_length (ld_config d)" and "record_and_check name input output d = (d', r)"
  shows "(r \<noteq> No_Loop) =
    (same_tail (max_identical_calls (ld_config d)) (\<lambda>e. (tc_name e, tc_input e)) (ld_history d')
     \<or> same_tail (max_identical_outputs (ld_config d)) (\<lambda>e. (tc_input e, tc_output e)) (ld_history d')
     \<or> (cycle_window_size (ld_config d) \<le> length (ld_history d')
        \<and> repeats (min_cycle_length (ld_config d))
             (map cycle_key (slice_last (cycle_window_size (ld_config d)) (ld_history d')))))"
proof -
  have d': "d' = record_call name input output d" and r: "r = detect d'"
    using assms(2) by (auto simp: record_and_check_def Let_def)
  have c: "ld_config d' = ld_config d" and h: "ld_history d' \<noteq> []" by (simp_all add: d' record_call_def)
  have calls: "check_identical_calls d' \<noteq> No_Loop
      \<longleftrightarrow> same_tail (max_identical_calls (ld_config d)) (\<lambda>e. (tc_name e, tc_input e)) (ld_history d')"
    using all_same_iff [OF slice_last_not_Nil [OF h], of _ "\<lambda>e. (tc_name e, tc_input e)"]
    by (simp add: check_identical_calls_def Let_def list_all_iff same_tail_def c not_less)
  have outputs: "check_identical_outputs d' \<noteq> No_Loop
      \<longleftrightarrow> same_tail (max_identical_outputs (ld_config d)) (\<lambda>e. (tc_input e, tc_output e)) (ld_history d')"
    using all_same_iff [OF slice_last_not_Nil [OF h], of _ "\<lambda>e. (tc_input e, tc_output e)"]
    by (simp add: check_identical_outputs_def Let_def list_all_iff same_tail_def c not_less)
  have cycles: "check_cycles d' \<noteq> No_Loop
      \<longleftrightarrow> cycle_window_size (ld_config d) \<le> length (ld_history d')
        \<and> repeats (min_cycle_length (ld_config d))
             (map cycle_key (slice_last (cycle_window_size (ld_config d)) (ld_history d')))"
    unfolding cycle_found_iff [OF assms(1), symmetric]
    by (auto simp: check_cycles_def Let_def c split: option.split)
  show ?thesis unfolding r detect_def calls [symmetric] outputs [symmetric] cycles [symmetric]
    by (simp split: loop_result.split)
qed

text \<open>The keys a nested object is restricted to are those of the outermost one.\<close>

lemma restrict_entries_map: "restrict_entries ks es = map (\<lambda>(k, v). (k, restrict_json ks v)) es"
  by (induction es) auto

lemma restrict_all_map: "restrict_all ks vs = map (restrict_json ks) vs"
  by (induction vs) auto

lemma restrict_foreign: "set ks \<inter> fst ` set es = {} \<Longrightarrow> restrict_json ks (JObj es) = JObj []"
proof -
  assume "set ks \<inter> fst ` set es = {}"
  moreover have "map fst (restrict_entries ks es) = map fst es" by (simp add: restrict_entries_map case_prod_beta)
  then have "fst ` set (restrict_entries ks es) = fst ` set es" by (metis set_map)
  ultimately have "map_of (restrict_entries ks es) k = None" if "k \<in> set ks" for k
    using that by (auto simp: map_of_eq_None_iff)
  then show ?thesis by (simp add: Let_def List.map_filter_def)
qed

lemma nested_hash:
  assumes "\<forall>es \<in> set ess. k \<notin> fst ` set es"
  shows "stable_hash (Some (JObj [(k, JArr (map JObj ess))])) = json_text (JObj [(k, JArr (replicate (length ess) (JObj [])))])"
proof -
  have "restrict_all [k] (map JObj ess) = replicate (length ess) (JObj [])"
    using assms by (induction ess) (simp_all add: restrict_foreign del: restrict_json.simps)
  then show ?thesis
    by (simp add: stable_hash_def object_keys_def json_text_of_keys_def List.map_filter_simps)
qed

text \<open>The detector cannot tell apart inputs that differ only inside nested objects. The sorted keys of the
  input are passed to \<^verbatim>\<open>JSON.stringify\<close> as its list of properties, which applies at every depth: ten
  calls of one tool, each with a list of equally many objects under one key, trip the breaker as identical
  calls, whatever the objects hold.\<close>

theorem nested_inputs_collide:
  assumes "length calls = 10"
    and "\<forall>(ess, out) \<in> set calls. length ess = m \<and> (\<forall>es \<in> set ess. k \<notin> fst ` set es)"
  shows "detect (fold (\<lambda>(ess, out). record_call name (JObj [(k, JArr (map JObj ess))]) out) calls
      (new_detector default_config))
    = Loop_Detected ''identical_calls'' (name @ lit '' called 10 times with identical input'')"
proof -
  let ?f = "\<lambda>(ess, out). record_call name (JObj [(k, JArr (map JObj ess))]) out"
  let ?hash = "json_text (JObj [(k, JArr (replicate m (JObj [])))])"
  have "ld_config (fold ?f cs d) = ld_config d \<and> length (ld_history (fold ?f cs d)) = length (ld_history d) + length cs
      \<and> (\<forall>e \<in> set (ld_history (fold ?f cs d)). e \<in> set (ld_history d) \<or> (tc_name e = name \<and> tc_input e = ?hash))"
    if "\<forall>(ess, out) \<in> set cs. length ess = m \<and> (\<forall>es \<in> set ess. k \<notin> fst ` set es)" for cs d
    using that
  proof (induction cs arbitrary: d)
    case (Cons c cs)
    obtain ess out where c: "c = (ess, out)" by (cases c)
    from Cons.prems c have "length ess = m" "\<forall>es \<in> set ess. k \<notin> fst ` set es" by auto
    then have "stable_hash (Some (JObj [(k, JArr (map JObj ess))])) = ?hash" using nested_hash [of ess k] by simp
    with Cons.IH [of "?f c d"] Cons.prems show ?case by (auto simp: c record_call_def)
  qed simp
  from this [OF assms(2), of "new_detector default_config"] obtain d where
    d: "fold ?f calls (new_detector default_config) = d" "ld_config d = default_config" "length (ld_history d) = 10"
    and all: "\<forall>e \<in> set (ld_history d). tc_name e = name \<and> tc_input e = ?hash"
    using assms(1) by (auto simp: new_detector_def)
  have tail: "slice_last 10 (ld_history d) = ld_history d" using d(3) by (simp add: slice_last_def)
  have "hd (ld_history d) \<in> set (ld_history d)" using d(3) by (cases "ld_history d") auto
  with all have first: "tc_name (hd (ld_history d)) = name" "tc_input (hd (ld_history d)) = ?hash" by auto
  have "dec_text 10 = lit ''10''" by (simp add: dec_text.simps lit_def)
  then have "lit '' called '' @ dec_text 10 @ lit '' times with identical input'' = lit '' called 10 times with identical input''"
    by (simp add: lit_def)
  then have "check_identical_calls d = Loop_Detected ''identical_calls'' (name @ lit '' called 10 times with identical input'')"
    using all first by (simp add: check_identical_calls_def d default_config_def tail Let_def list_all_iff)
  then show ?thesis unfolding d(1) detect_def by simp
qed

section \<open>Turns\<close>

definition calls_of :: "nat \<Rightarrow> loop_detector \<Rightarrow> tool_call_entry list" where
  "calls_of t d = filter (\<lambda>e. tc_turn e = t) (ld_history d)"

definition failed_turn :: "loop_detector \<Rightarrow> nat \<Rightarrow> bool" where
  "failed_turn d t \<longleftrightarrow> list_all tc_unproductive (calls_of t d)"

definition acting_turns :: "loop_detector \<Rightarrow> nat \<Rightarrow> nat list" where
  "acting_turns d n = filter (\<lambda>t. calls_of t d \<noteq> []) [0..<n]"

definition turns_ok :: "loop_detector \<Rightarrow> bool" where
  "turns_ok d \<longleftrightarrow> ld_closed d = map (failed_turn d) (acting_turns d (ld_turn d))
     \<and> (\<forall>e \<in> set (ld_history d). tc_turn e \<le> ld_turn d)"

lemma close_turn_closed:
  assumes "turns_ok d"
  shows "ld_closed (close_turn d) = map (failed_turn d) (acting_turns d (Suc (ld_turn d)))"
  using assms by (simp add: turns_ok_def close_turn_def Let_def acting_turns_def failed_turn_def flip: calls_of_def)

interpretation loop: machine loop_step turns_ok
proof
  fix d and e
  assume ok: "turns_ok d"
  show "turns_ok (loop_step e d)"
  proof (cases e)
    case (Lo_Call name input out)
    let ?d = "record_call name input out d"
    have "calls_of t ?d = calls_of t d" if "t < ld_turn d" for t
      using that by (simp add: calls_of_def record_call_def)
    then have "failed_turn ?d t = failed_turn d t" "(calls_of t ?d \<noteq> []) = (calls_of t d \<noteq> [])" if "t < ld_turn d" for t
      using that by (simp_all add: failed_turn_def)
    then have "map (failed_turn ?d) (acting_turns ?d (ld_turn d)) = map (failed_turn d) (acting_turns d (ld_turn d))"
      by (auto simp: acting_turns_def intro!: arg_cong2 [where f = map] filter_cong map_cong)
    with ok Lo_Call show ?thesis by (auto simp: turns_ok_def record_and_check_def Let_def record_call_def)
  next
    case Lo_Turn_End
    have "calls_of t (close_turn d) = calls_of t d" for t by (simp add: calls_of_def close_turn_def Let_def)
    then have "failed_turn (close_turn d) = failed_turn d" "acting_turns (close_turn d) = acting_turns d"
      by (simp_all add: failed_turn_def acting_turns_def fun_eq_iff)
    with ok close_turn_closed [OF ok] Lo_Turn_End show ?thesis
      by (auto simp: turns_ok_def record_turn_end_def Let_def) (auto simp: close_turn_def Let_def intro: le_SucI)
  next
    case Lo_Reset
    then show ?thesis by (simp add: turns_ok_def reset_detector_def acting_turns_def)
  qed
qed

text \<open>C24: the no-progress breaker counts turns, not calls. After any sequence of calls, turn ends and resets, closing
  a turn reports a loop exactly when the limit is a positive number \<open>n\<close> and, of the turns that made calls
  (this one included), there are \<open>n\<close> and in the last \<open>n\<close> of them every call failed: a batch of parallel
  failures counts once, one success clears the streak, and a turn without calls does not count.\<close>

theorem no_progress_counts_turns:
  assumes "d = fold loop_step es (new_detector c)"
  shows "(snd (record_turn_end d) \<noteq> No_Loop) =
    (\<exists>n ts us. max_no_progress (ld_config d) = Some n \<and> 0 < n \<and> acting_turns d (Suc (ld_turn d)) = ts @ us
       \<and> length us = n \<and> list_all (failed_turn d) us)"
proof -
  have "turns_ok (new_detector c)" by (simp add: turns_ok_def new_detector_def acting_turns_def)
  with loop.run_inv assms have ok: "turns_ok d" by simp
  let ?ts = "acting_turns d (Suc (ld_turn d))"
  have closed: "ld_closed (close_turn d) = map (failed_turn d) ?ts" by (rule close_turn_closed [OF ok])
  have conf: "ld_config (close_turn d) = ld_config d" by (simp add: close_turn_def Let_def)
  have split: "(\<exists>ts us. ?ts = ts @ us \<and> length us = n \<and> list_all (failed_turn d) us)
      \<longleftrightarrow> n \<le> length ?ts \<and> list_all (failed_turn d) (drop (length ?ts - n) ?ts)" for n
  proof
    assume "\<exists>ts us. ?ts = ts @ us \<and> length us = n \<and> list_all (failed_turn d) us"
    then show "n \<le> length ?ts \<and> list_all (failed_turn d) (drop (length ?ts - n) ?ts)" by auto
  next
    assume "n \<le> length ?ts \<and> list_all (failed_turn d) (drop (length ?ts - n) ?ts)"
    then show "\<exists>ts us. ?ts = ts @ us \<and> length us = n \<and> list_all (failed_turn d) us"
      by (intro exI [of _ "take (length ?ts - n) ?ts"] exI [of _ "drop (length ?ts - n) ?ts"]) simp
  qed
  show ?thesis
  proof (cases "max_no_progress (ld_config d)")
    case None
    then show ?thesis by (simp add: record_turn_end_def Let_def check_no_progress_def conf)
  next
    case (Some n)
    then have "(snd (record_turn_end d) \<noteq> No_Loop)
        = (0 < n \<and> n \<le> length ?ts \<and> list_all (failed_turn d) (drop (length ?ts - n) ?ts))"
      by (auto simp: record_turn_end_def Let_def check_no_progress_def conf closed slice_last_def drop_map list_all_iff)
    with split [of n] Some show ?thesis by auto
  qed
qed

section \<open>Concrete runs\<close>

theorem loop_detected_iff_witness:
  "snd (record_and_check (lit ''ls'') (JObj []) None
      (record_call (lit ''ls'') (JObj []) None (new_detector (default_config\<lparr>max_identical_calls := 2\<rparr>)))) \<noteq> No_Loop"
proof -
  let ?d = "record_call (lit ''ls'') (JObj []) None (new_detector (default_config\<lparr>max_identical_calls := 2\<rparr>))"
  obtain d' r where dr: "record_and_check (lit ''ls'') (JObj []) None ?d = (d', r)" by fastforce
  have "ld_history d' = ld_history ?d @ ld_history ?d" "ld_config ?d = default_config\<lparr>max_identical_calls := 2\<rparr>"
    "length (ld_history ?d) = 1"
    using dr by (auto simp: record_and_check_def Let_def record_call_def new_detector_def)
  moreover from this obtain e where "ld_history ?d = [e]" by (auto simp: length_Suc_conv)
  ultimately have "same_tail (max_identical_calls (ld_config ?d)) (\<lambda>e. (tc_name e, tc_input e)) (ld_history d')"
    by (simp add: same_tail_def slice_last_def)
  with loop_detected_iff [OF _ dr] \<open>ld_config ?d = _\<close> have "r \<noteq> No_Loop" by (simp add: default_config_def)
  with dr show ?thesis by simp
qed

theorem nested_inputs_collide_witness:
  "detect (fold (\<lambda>(ess, out). record_call (lit ''edit'') (JObj [(lit ''edits'', JArr (map JObj ess))]) out)
      (map (\<lambda>i. ([(lit ''old'', JNum (of_nat i))] # [], None)) [0..<10]) (new_detector default_config))
   = Loop_Detected ''identical_calls'' (lit ''edit'' @ lit '' called 10 times with identical input'')"
  by (rule nested_inputs_collide [where m = 1]) (auto simp: lit_def)

theorem no_progress_counts_turns_witness:
  "snd (record_turn_end (fold loop_step
      [Lo_Call (lit ''exec'') (JObj []) (Some (JObj [(lit ''killed'', JBool True)]))]
      (new_detector (default_config\<lparr>max_no_progress := Some 1\<rparr>)))) \<noteq> No_Loop"
proof -
  let ?es = "[Lo_Call (lit ''exec'') (JObj []) (Some (JObj [(lit ''killed'', JBool True)]))]"
  let ?c = "default_config\<lparr>max_no_progress := Some 1\<rparr>"
  let ?d = "fold loop_step ?es (new_detector ?c)"
  have "json_get (JObj [(lit ''killed'', JBool True)]) (lit ''killed'') = Some (JBool True)" by (simp add: json_get_def)
  then have "is_unproductive_output (Some (JObj [(lit ''killed'', JBool True)]))"
    by (simp add: is_unproductive_output_def is_unproductive_object_def prop_of_def)
  then have "acting_turns ?d (Suc (ld_turn ?d)) = [] @ [0]" "list_all (failed_turn ?d) [0]"
    "max_no_progress (ld_config ?d) = Some 1"
    by (simp_all add: record_and_check_def Let_def record_call_def new_detector_def acting_turns_def calls_of_def
        failed_turn_def)
  then show ?thesis
    unfolding no_progress_counts_turns [OF refl] by (intro exI [of _ 1] exI [of _ "[]"] exI [of _ "[0]"]) simp
qed

end
