(* ===== verification/Tool_Orchestration.thy ===== *)
theory Tool_Orchestration
  imports Json
begin

text \<open>
  How an agent's tool calls run side by side (\<^verbatim>\<open>packages/agent/src/tool-orchestration.ts\<close>) and which are
  refused for lost arguments (\<^verbatim>\<open>tool-arg-guard.ts\<close>). A wrapped call is a small state machine cut at its
  \<^verbatim>\<open>await\<close>s; a waiter that is handed the semaphore or the mutex owns it before it resumes.
\<close>

section \<open>tool-arg-guard.ts\<close>

definition as_object :: "json option \<Rightarrow> (utf16 \<times> json) list option" where
  "as_object v = (case v of Some (JObj es) \<Rightarrow> Some es | _ \<Rightarrow> None)"

definition string_prop :: "(utf16 \<times> json) list \<Rightarrow> json \<Rightarrow> utf16 option" where
  "string_prop properties name =
     (case name of
        JStr k \<Rightarrow>
          (case as_object (map_of properties k) of
             None \<Rightarrow> None
           | Some p \<Rightarrow>
               if map_of p (lit ''type'') \<noteq> Some (JStr (lit ''string'')) then None
               else if map_of p (lit ''x-empty-ok'') = Some (JBool True) then None
               else Some k)
      | _ \<Rightarrow> None)"

definition required_string_props :: "json option \<Rightarrow> utf16 list" where
  "required_string_props schema =
     (case as_object schema of
        None \<Rightarrow> []
      | Some es \<Rightarrow>
          if map_of es (lit ''anyOf'') \<noteq> None \<or> map_of es (lit ''oneOf'') \<noteq> None then []
          else
            (case (as_object (map_of es (lit ''properties'')), map_of es (lit ''required'')) of
               (Some properties, Some (JArr names)) \<Rightarrow> List.map_filter (string_prop properties) names
             | _ \<Rightarrow> []))"

definition is_empty_value :: "json option \<Rightarrow> bool" where
  "is_empty_value v \<longleftrightarrow>
     (case v of None \<Rightarrow> True | Some JNull \<Rightarrow> True | Some (JStr s) \<Rightarrow> trim16 s = [] | _ \<Rightarrow> False)"

definition find_empty_from_names :: "utf16 list \<Rightarrow> json option \<Rightarrow> utf16 list" where
  "find_empty_from_names names params =
     (let args = (case as_object params of None \<Rightarrow> [] | Some es \<Rightarrow> es)
      in filter (\<lambda>k. is_empty_value (map_of args k)) names)"

fun join_comma :: "utf16 list \<Rightarrow> utf16" where
  "join_comma [] = []"
| "join_comma [s] = s"
| "join_comma (s # t # ss) = s @ [44, 32] @ join_comma (t # ss)"

definition empty_args_message :: "utf16 \<Rightarrow> utf16 list \<Rightarrow> utf16" where
  "empty_args_message tool names =
     (let quoted = map (\<lambda>k. [39] @ k @ [39]) names;
          subject = (if length quoted = 1 then lit ''required argument '' @ hd quoted @ lit '' was empty''
                     else lit ''required arguments '' @ join_comma quoted @ lit '' were empty'')
      in tool @ lit '': '' @ subject
         @ lit ''. Your tool-call arguments were lost; resend the call with the content, or write large payloads with write_file.'')"

section \<open>Which tools run in parallel\<close>

definition concurrent_safe_tools :: "utf16 list" where
  "concurrent_safe_tools = map lit
     [''read_file'', ''search'', ''impact_radius'', ''detect_changes'', ''review_context'', ''memory_read'',
      ''memory_search'', ''read_lints'', ''search_integrations'', ''web_search'', ''task'', ''task_status'',
      ''agent_spawn'', ''agent_status'', ''agent_result'', ''agent_list'', ''agent_cancel'', ''exec_wait'',
      ''exec_list'', ''wait'', ''task_list'', ''task_cancel'']"

definition is_concurrency_safe :: "utf16 \<Rightarrow> bool" where
  "is_concurrency_safe name \<longleftrightarrow> name \<in> set concurrent_safe_tools"

record tool_call =
  tl_name :: utf16
  tl_id :: utf16
  tl_input :: json

record tool_batch =
  tb_concurrent :: bool
  tb_calls :: "tool_call list"

text \<open>One round of the loop of \<^verbatim>\<open>partitionToolCalls\<close>; \<^verbatim>\<open>currentBatch\<close> is the last batch.\<close>

definition partition_step :: "tool_call \<Rightarrow> tool_batch list \<Rightarrow> tool_batch list" where
  "partition_step c bs =
     (if is_concurrency_safe (tl_name c) then
        (if bs \<noteq> [] \<and> tb_concurrent (last bs)
         then butlast bs @ [(last bs)\<lparr>tb_calls := tb_calls (last bs) @ [c]\<rparr>]
         else bs @ [\<lparr>tb_concurrent = True, tb_calls = [c]\<rparr>])
      else bs @ [\<lparr>tb_concurrent = False, tb_calls = [c]\<rparr>])"

definition partition_tool_calls :: "tool_call list \<Rightarrow> tool_batch list" where
  "partition_tool_calls cs = fold partition_step cs []"

section \<open>Semaphore and mutex\<close>

datatype call_phase = Refused | Sem_Wait | Sem_Held | Mutex_Wait | Mutex_Held | Executing | Finished

record wrapped_call =
  wc_writes :: bool
  wc_phase :: call_phase

record orchestration =
  or_max :: int
  or_count :: int
  or_waiters :: "nat list"
  or_locked :: bool
  or_mutex_waiters :: "nat list"
  or_calls :: "wrapped_call list"

text \<open>\<^verbatim>\<open>parseInt(s, 10)\<close>; \<^const>\<open>None\<close> is \<^verbatim>\<open>NaN\<close>.\<close>

definition parse_int :: "utf16 \<Rightarrow> int option" where
  "parse_int s =
     (let t = dropWhile js16_space s;
          neg = (t \<noteq> [] \<and> hd t = 45);
          u = (if t \<noteq> [] \<and> (hd t = 43 \<or> hd t = 45) then tl t else t);
          ds = takeWhile digit u
      in if ds = [] then None else Some (if neg then - int (digits_value ds) else int (digits_value ds)))"

definition max_concurrency :: "int option \<Rightarrow> utf16 option \<Rightarrow> int" where
  "max_concurrency option env =
     (case option of
        Some n \<Rightarrow> n
      | None \<Rightarrow> (case parse_int (case env of None \<Rightarrow> [] | Some s \<Rightarrow> s) of None \<Rightarrow> 10 | Some n \<Rightarrow> n))"

definition new_orchestration :: "int \<Rightarrow> orchestration" where
  "new_orchestration n = \<lparr>or_max = n, or_count = n, or_waiters = [], or_locked = False, or_mutex_waiters = [],
     or_calls = []\<rparr>"

definition set_phase :: "nat \<Rightarrow> call_phase \<Rightarrow> orchestration \<Rightarrow> orchestration" where
  "set_phase i p s = s\<lparr>or_calls := (or_calls s)[i := (or_calls s ! i)\<lparr>wc_phase := p\<rparr>]\<rparr>"

definition semaphore_acquire :: "nat \<Rightarrow> orchestration \<Rightarrow> orchestration" where
  "semaphore_acquire i s =
     (if or_count s > 0 then set_phase i Sem_Held (s\<lparr>or_count := or_count s - 1\<rparr>)
      else set_phase i Sem_Wait (s\<lparr>or_waiters := or_waiters s @ [i]\<rparr>))"

definition semaphore_release :: "orchestration \<Rightarrow> orchestration" where
  "semaphore_release s =
     (case or_waiters s of
        i # rest \<Rightarrow> set_phase i Sem_Held (s\<lparr>or_waiters := rest\<rparr>)
      | [] \<Rightarrow> s\<lparr>or_count := min (or_count s + 1) (or_max s)\<rparr>)"

definition mutex_acquire :: "nat \<Rightarrow> orchestration \<Rightarrow> orchestration" where
  "mutex_acquire i s =
     (if \<not> or_locked s then set_phase i Mutex_Held (s\<lparr>or_locked := True\<rparr>)
      else set_phase i Mutex_Wait (s\<lparr>or_mutex_waiters := or_mutex_waiters s @ [i]\<rparr>))"

definition mutex_release :: "orchestration \<Rightarrow> orchestration" where
  "mutex_release s =
     (case or_mutex_waiters s of
        i # rest \<Rightarrow> set_phase i Mutex_Held (s\<lparr>or_mutex_waiters := rest\<rparr>)
      | [] \<Rightarrow> s\<lparr>or_locked := False\<rparr>)"

section \<open>Wrapped calls\<close>

text \<open>A call of a tool with these required strings; the guard throws before anything is acquired.\<close>

definition call_tool :: "utf16 \<Rightarrow> json option \<Rightarrow> json option \<Rightarrow> orchestration \<Rightarrow> orchestration" where
  "call_tool name schema params s =
     (let i = length (or_calls s); writes = (\<not> is_concurrency_safe name)
      in if find_empty_from_names (required_string_props schema) params \<noteq> []
         then s\<lparr>or_calls := or_calls s @ [\<lparr>wc_writes = writes, wc_phase = Refused\<rparr>]\<rparr>
         else semaphore_acquire i (s\<lparr>or_calls := or_calls s @ [\<lparr>wc_writes = writes, wc_phase = Refused\<rparr>]\<rparr>))"

text \<open>What follows a fulfilled \<^verbatim>\<open>await\<close> of the semaphore or of the mutex.\<close>

definition resume_call :: "nat \<Rightarrow> orchestration \<Rightarrow> orchestration" where
  "resume_call i s =
     (if i < length (or_calls s) then
        (case wc_phase (or_calls s ! i) of
           Sem_Held \<Rightarrow> if wc_writes (or_calls s ! i) then mutex_acquire i s else set_phase i Executing s
         | Mutex_Held \<Rightarrow> set_phase i Executing s
         | _ \<Rightarrow> s)
      else s)"

text \<open>The tool's promise settles, either way: the \<^verbatim>\<open>finally\<close> block.\<close>

definition settle_call :: "nat \<Rightarrow> orchestration \<Rightarrow> orchestration" where
  "settle_call i s =
     (if i < length (or_calls s) \<and> wc_phase (or_calls s ! i) = Executing
      then
        let s1 = set_phase i Finished s;
            s2 = (if wc_writes (or_calls s ! i) then mutex_release s1 else s1)
        in semaphore_release s2
      else s)"

datatype orch_op = Oc_Call utf16 "json option" "json option" | Oc_Resume nat | Oc_Settle nat

fun orch_step :: "orch_op \<Rightarrow> orchestration \<Rightarrow> orchestration" where
  "orch_step (Oc_Call name schema params) s = call_tool name schema params s"
| "orch_step (Oc_Resume i) s = resume_call i s"
| "orch_step (Oc_Settle i) s = settle_call i s"

section \<open>Partitioning\<close>

definition batch_ok :: "tool_batch \<Rightarrow> bool" where
  "batch_ok b \<longleftrightarrow> tb_calls b \<noteq> []
     \<and> (if tb_concurrent b then list_all (\<lambda>c. is_concurrency_safe (tl_name c)) (tb_calls b)
        else length (tb_calls b) = 1 \<and> \<not> is_concurrency_safe (tl_name (hd (tb_calls b))))"

text \<open>No two concurrent batches next to each other.\<close>

fun separated :: "tool_batch list \<Rightarrow> bool" where
  "separated (a # b # bs) \<longleftrightarrow> \<not> (tb_concurrent a \<and> tb_concurrent b) \<and> separated (b # bs)"
| "separated bs \<longleftrightarrow> True"

lemma separated_snoc: "separated (bs @ [b]) \<longleftrightarrow> separated bs \<and> (bs = [] \<or> \<not> (tb_concurrent (last bs) \<and> tb_concurrent b))"
  by (induction bs rule: separated.induct) auto

lemma partition_step_ok:
  assumes "concat (map tb_calls bs) = cs" and "list_all batch_ok bs" and "separated bs"
  shows "concat (map tb_calls (partition_step c bs)) = cs @ [c] \<and> list_all batch_ok (partition_step c bs)
    \<and> separated (partition_step c bs)"
proof (cases "bs \<noteq> [] \<and> tb_concurrent (last bs) \<and> is_concurrency_safe (tl_name c)")
  case True
  then obtain as b where bs: "bs = as @ [b]" by (metis append_butlast_last_id)
  with True assms show ?thesis by (auto simp: partition_step_def separated_snoc batch_ok_def)
next
  case False
  with assms show ?thesis by (auto simp: partition_step_def separated_snoc batch_ok_def)
qed

text \<open>Partitioning keeps every call, in order, exactly once; a concurrent batch holds safe calls only and is as
  long as possible (no two are adjacent), and every other call is a batch of its own.\<close>

theorem partition_sound:
  "concat (map tb_calls (partition_tool_calls cs)) = cs \<and> list_all batch_ok (partition_tool_calls cs)
   \<and> separated (partition_tool_calls cs)"
proof (induction cs rule: rev_induct)
  case (snoc c cs)
  then show ?case using partition_step_ok [of "partition_tool_calls cs" cs c] by (simp add: partition_tool_calls_def)
qed (simp add: partition_tool_calls_def)

section \<open>Counting calls\<close>

definition phase_of :: "orchestration \<Rightarrow> nat \<Rightarrow> call_phase" where
  "phase_of s i = wc_phase (or_calls s ! i)"

definition writes_of :: "orchestration \<Rightarrow> nat \<Rightarrow> bool" where
  "writes_of s i = wc_writes (or_calls s ! i)"

abbreviation ncalls :: "orchestration \<Rightarrow> nat" where
  "ncalls s \<equiv> length (or_calls s)"

definition holds_permit :: "call_phase \<Rightarrow> bool" where
  "holds_permit p \<longleftrightarrow> p \<in> {Sem_Held, Mutex_Wait, Mutex_Held, Executing}"

definition holders :: "orchestration \<Rightarrow> nat set" where
  "holders s = {i. i < ncalls s \<and> holds_permit (phase_of s i)}"

definition owners :: "orchestration \<Rightarrow> nat set" where
  "owners s = {i. i < ncalls s \<and> writes_of s i \<and> phase_of s i \<in> {Mutex_Held, Executing}}"

definition in_phase :: "orchestration \<Rightarrow> call_phase \<Rightarrow> nat set" where
  "in_phase s p = {i. i < ncalls s \<and> phase_of s i = p}"

lemma finite_calls [simp]: "finite (holders s)" "finite (owners s)" "finite (in_phase s p)"
  by (simp_all add: holders_def owners_def in_phase_def)

lemma set_phase_fields [simp]:
  "or_max (set_phase i p s) = or_max s" "or_count (set_phase i p s) = or_count s"
  "or_waiters (set_phase i p s) = or_waiters s" "or_locked (set_phase i p s) = or_locked s"
  "or_mutex_waiters (set_phase i p s) = or_mutex_waiters s" "ncalls (set_phase i p s) = ncalls s"
  "writes_of (set_phase i p s) j = writes_of s j"
  by (simp_all add: set_phase_def writes_of_def) (cases "i < ncalls s"; cases "i = j"; simp add: list_update_beyond)

lemma phase_of_set_phase [simp]: "i < ncalls s \<Longrightarrow> phase_of (set_phase i p s) j = (if j = i then p else phase_of s j)"
  by (simp add: set_phase_def phase_of_def nth_list_update)

lemma update_sets [simp]:
  "phase_of (s\<lparr>or_count := c\<rparr>) = phase_of s" "phase_of (s\<lparr>or_waiters := ws\<rparr>) = phase_of s"
  "phase_of (s\<lparr>or_locked := b\<rparr>) = phase_of s" "phase_of (s\<lparr>or_mutex_waiters := ms\<rparr>) = phase_of s"
  "writes_of (s\<lparr>or_count := c\<rparr>) = writes_of s" "writes_of (s\<lparr>or_waiters := ws\<rparr>) = writes_of s"
  "writes_of (s\<lparr>or_locked := b\<rparr>) = writes_of s" "writes_of (s\<lparr>or_mutex_waiters := ms\<rparr>) = writes_of s"
  "holders (s\<lparr>or_count := c\<rparr>) = holders s" "holders (s\<lparr>or_waiters := ws\<rparr>) = holders s"
  "holders (s\<lparr>or_locked := b\<rparr>) = holders s" "holders (s\<lparr>or_mutex_waiters := ms\<rparr>) = holders s"
  "owners (s\<lparr>or_count := c\<rparr>) = owners s" "owners (s\<lparr>or_waiters := ws\<rparr>) = owners s"
  "owners (s\<lparr>or_locked := b\<rparr>) = owners s" "owners (s\<lparr>or_mutex_waiters := ms\<rparr>) = owners s"
  "in_phase (s\<lparr>or_count := c\<rparr>) = in_phase s" "in_phase (s\<lparr>or_waiters := ws\<rparr>) = in_phase s"
  "in_phase (s\<lparr>or_locked := b\<rparr>) = in_phase s" "in_phase (s\<lparr>or_mutex_waiters := ms\<rparr>) = in_phase s"
  by (simp_all add: fun_eq_iff phase_of_def writes_of_def holders_def owners_def in_phase_def)

lemma sets_set_phase:
  assumes "i < ncalls s"
  shows "holders (set_phase i p s) = (if holds_permit p then insert i (holders s) else holders s - {i})"
    "owners (set_phase i p s)
       = (if writes_of s i \<and> p \<in> {Mutex_Held, Executing} then insert i (owners s) else owners s - {i})"
    "in_phase (set_phase i p s) q = (if q = p then insert i (in_phase s q) else in_phase s q - {i})"
  using assms by (auto simp: holders_def owners_def in_phase_def)

text \<open>The invariant: permits add up; the two lines hold exactly the calls in the two waiting phases; nobody waits
  for a permit while one is free, nor for the mutex while it is free; the mutex has one owner when locked.\<close>

definition orch_inv :: "nat \<Rightarrow> nat \<Rightarrow> orchestration \<Rightarrow> bool" where
  "orch_inv d e s \<longleftrightarrow>
     or_count s + int (card (holders s)) + int d = or_max s \<and> min 0 (or_max s) \<le> or_count s
     \<and> distinct (or_waiters s) \<and> set (or_waiters s) = in_phase s Sem_Wait \<and> (or_waiters s = [] \<or> or_count s \<le> 0)
     \<and> distinct (or_mutex_waiters s) \<and> set (or_mutex_waiters s) = in_phase s Mutex_Wait
     \<and> (or_mutex_waiters s = [] \<or> or_locked s)
     \<and> card (owners s) + e = (if or_locked s then 1 else 0)
     \<and> in_phase s Mutex_Wait \<union> in_phase s Mutex_Held \<subseteq> Collect (writes_of s)"

abbreviation orch_ok :: "orchestration \<Rightarrow> bool" where
  "orch_ok s \<equiv> orch_inv 0 0 s"

lemma orch_ok_new: "orch_ok (new_orchestration n)"
  by (simp add: orch_inv_def new_orchestration_def holders_def owners_def in_phase_def)

lemma add_call:
  fixes s :: orchestration and w :: bool
  defines "s' \<equiv> s\<lparr>or_calls := or_calls s @ [\<lparr>wc_writes = w, wc_phase = Refused\<rparr>]\<rparr>"
  shows "holders s' = holders s" "owners s' = owners s" "p \<noteq> Refused \<Longrightarrow> in_phase s' p = in_phase s p"
    "i < ncalls s \<Longrightarrow> writes_of s' i = writes_of s i" "ncalls s' = Suc (ncalls s)" "phase_of s' (ncalls s) = Refused"
  by (auto simp: s'_def holders_def owners_def in_phase_def phase_of_def writes_of_def nth_append holds_permit_def less_Suc_eq)

lemma orch_ok_add:
  assumes ok: "orch_ok s"
  shows "orch_ok (s\<lparr>or_calls := or_calls s @ [\<lparr>wc_writes = w, wc_phase = Refused\<rparr>]\<rparr>)"
proof -
  have "in_phase s p \<subseteq> Collect (writes_of (s\<lparr>or_calls := or_calls s @ [\<lparr>wc_writes = w, wc_phase = Refused\<rparr>]\<rparr>))"
    if "in_phase s p \<subseteq> Collect (writes_of s)" for p
    using that by (auto simp: add_call(4) in_phase_def)
  with ok show ?thesis by (simp add: orch_inv_def add_call)
qed

text \<open>Which sets a call is in, by its phase.\<close>

lemma in_sets:
  assumes "i < ncalls s"
  shows "i \<in> holders s \<longleftrightarrow> holds_permit (phase_of s i)"
    "i \<in> owners s \<longleftrightarrow> writes_of s i \<and> phase_of s i \<in> {Mutex_Held, Executing}"
    "i \<in> in_phase s p \<longleftrightarrow> phase_of s i = p"
  using assms by (simp_all add: holders_def owners_def in_phase_def)

lemmas phase_change = sets_set_phase in_sets holds_permit_def

lemma semaphore_acquire_ok:
  assumes ok: "orch_ok s" and i: "i < ncalls s" "phase_of s i = Refused"
  shows "orch_ok (semaphore_acquire i s)"
proof (cases "or_count s > 0")
  case True
  have "or_waiters s = []" using True ok by (auto simp: orch_inv_def)
  with True ok i show ?thesis
    by (simp add: semaphore_acquire_def orch_inv_def phase_change subset_eq)
next
  case False
  with ok i show ?thesis
    by (auto simp: semaphore_acquire_def orch_inv_def phase_change)
qed

lemma semaphore_release_ok:
  assumes ok: "orch_inv 1 0 s"
  shows "orch_ok (semaphore_release s)"
proof (cases "or_waiters s")
  case Nil
  with ok show ?thesis by (simp add: semaphore_release_def orch_inv_def)
next
  case (Cons j rest)
  then have "j \<in> in_phase s Sem_Wait" using ok by (auto simp: orch_inv_def)
  then have j: "j < ncalls s" "phase_of s j = Sem_Wait" by (simp_all add: in_phase_def)
  have rest: "set rest = in_phase s Sem_Wait - {j}" using Cons ok by (auto simp: orch_inv_def)
  have diff: "owners s - {j} = owners s" using j by (simp add: in_sets)
  from Cons ok j rest diff show ?thesis
    by (auto simp: semaphore_release_def orch_inv_def phase_change)
qed

lemma mutex_acquire_ok:
  assumes ok: "orch_ok s" and i: "i < ncalls s" "phase_of s i = Sem_Held" "writes_of s i"
  shows "orch_ok (mutex_acquire i s)"
proof -
  have hold: "insert i (holders s) = holders s" and out: "owners s - {i} = owners s"
    using i by (auto simp: in_sets holds_permit_def)
  show ?thesis
  proof (cases "or_locked s")
    case True
    with ok i hold out show ?thesis by (auto simp: mutex_acquire_def orch_inv_def phase_change)
  next
    case False
    with ok i hold show ?thesis by (auto simp: mutex_acquire_def orch_inv_def phase_change)
  qed
qed

lemma mutex_release_ok:
  assumes ok: "orch_inv d 1 s"
  shows "orch_inv d 0 (mutex_release s)"
proof (cases "or_mutex_waiters s")
  case Nil
  with ok show ?thesis by (simp add: mutex_release_def orch_inv_def split: if_splits)
next
  case (Cons j rest)
  then have "j \<in> in_phase s Mutex_Wait" "writes_of s j" using ok by (auto simp: orch_inv_def)
  then have j: "j < ncalls s" "phase_of s j = Mutex_Wait" "writes_of s j" by (simp_all add: in_phase_def)
  have rest: "set rest = in_phase s Mutex_Wait - {j}" using Cons ok by (auto simp: orch_inv_def)
  have hold: "insert j (holders s) = holders s" using j by (auto simp: in_sets holds_permit_def)
  from Cons ok j rest hold show ?thesis
    by (auto simp: mutex_release_def orch_inv_def phase_change)
qed

lemma finish_ok:
  assumes ok: "orch_ok s" and i: "i < ncalls s" "phase_of s i = Executing"
  shows "orch_inv 1 (if writes_of s i then 1 else 0) (set_phase i Finished s)"
proof -
  have "i \<in> holders s" using i by (simp add: in_sets holds_permit_def)
  then have h: "card (holders s) = Suc (card (holders s - {i}))" by (rule card.remove [OF finite_calls(1)])
  have o: "card (owners s - {i}) + (if writes_of s i then 1 else 0) = card (owners s)"
    using i card.remove [of "owners s" i] by (auto simp: in_sets)
  have out: "in_phase s p - {i} = in_phase s p" if "p \<noteq> Executing" for p
    using i that by (auto simp: in_phase_def)
  have sets: "in_phase (set_phase i Finished s) p = in_phase s p" if "p \<noteq> Finished" "p \<noteq> Executing" for p
    using i out [of p] that by (simp add: sets_set_phase)
  have sets': "holders (set_phase i Finished s) = holders s - {i}" "owners (set_phase i Finished s) = owners s - {i}"
    using i by (simp_all add: sets_set_phase holds_permit_def)
  have w: "writes_of (set_phase i Finished s) = writes_of s" by (simp add: fun_eq_iff)
  have "card (owners s - {i}) + (if writes_of s i then 1 else 0) = (if or_locked s then 1 else 0)"
    using o ok by (simp only: orch_inv_def) simp
  with ok h show ?thesis by (simp add: orch_inv_def sets sets' w del: card_eq_0_iff card_0_eq)
qed

lemma executing_ok:
  assumes ok: "orch_ok s" and i: "i < ncalls s"
    and p: "phase_of s i = Mutex_Held \<or> (phase_of s i = Sem_Held \<and> \<not> writes_of s i)"
  shows "orch_ok (set_phase i Executing s)"
proof -
  have hold: "insert i (holders s) = holders s" using i p by (auto simp: in_sets holds_permit_def)
  have own: "(if writes_of s i then insert i (owners s) else owners s - {i}) = owners s"
    using i p by (auto simp: in_sets)
  from ok i p hold own show ?thesis by (auto simp: orch_inv_def phase_change split: if_splits)
qed

lemma settle_call_eq:
  "i < ncalls s \<Longrightarrow> phase_of s i = Executing \<Longrightarrow> settle_call i s =
     semaphore_release (if writes_of s i then mutex_release (set_phase i Finished s) else set_phase i Finished s)"
  by (simp add: settle_call_def Let_def phase_of_def writes_of_def)

lemma resume_call_eq:
  "i < ncalls s \<Longrightarrow> resume_call i s =
     (case phase_of s i of
        Sem_Held \<Rightarrow> if writes_of s i then mutex_acquire i s else set_phase i Executing s
      | Mutex_Held \<Rightarrow> set_phase i Executing s | _ \<Rightarrow> s)"
  by (simp add: resume_call_def phase_of_def writes_of_def)

lemma settle_call_ok:
  assumes "orch_ok s"
  shows "orch_ok (settle_call i s)"
proof (cases "i < ncalls s \<and> phase_of s i = Executing")
  case True
  with finish_ok [OF assms, of i] show ?thesis
    using mutex_release_ok [of 1 "set_phase i Finished s"] by (auto simp: settle_call_eq semaphore_release_ok simp del: One_nat_def)
next
  case False
  then show ?thesis using assms by (auto simp: settle_call_def phase_of_def)
qed

lemma resume_call_ok:
  assumes "orch_ok s"
  shows "orch_ok (resume_call i s)"
proof (cases "i < ncalls s")
  case True
  then show ?thesis using assms executing_ok [OF assms True] mutex_acquire_ok [OF assms True]
    by (auto simp: resume_call_eq split: call_phase.splits)
next
  case False
  then show ?thesis using assms by (simp add: resume_call_def)
qed

lemma call_tool_ok:
  assumes "orch_ok s"
  shows "orch_ok (call_tool name schema params s)"
  using orch_ok_add [OF assms] by (auto simp: call_tool_def Let_def add_call intro!: semaphore_acquire_ok)

interpretation orch: machine orch_step orch_ok
proof
  fix e s assume "orch_ok s"
  then show "orch_ok (orch_step e s)" by (cases e) (simp_all add: call_tool_ok resume_call_ok settle_call_ok)
qed

section \<open>What a schedule guarantees\<close>

lemma reachable_ok: "orch_ok (fold orch_step ops (new_orchestration n))"
  by (rule orch.run_inv [OF orch_ok_new])

lemma fields_kept [simp]:
  "or_max (semaphore_acquire i s) = or_max s" "or_max (semaphore_release s) = or_max s"
  "or_max (mutex_acquire i s) = or_max s" "or_max (mutex_release s) = or_max s"
  "ncalls (semaphore_acquire i s) = ncalls s" "ncalls (semaphore_release s) = ncalls s"
  "ncalls (mutex_acquire i s) = ncalls s" "ncalls (mutex_release s) = ncalls s"
  by (simp_all add: semaphore_acquire_def semaphore_release_def mutex_acquire_def mutex_release_def split: list.split)

lemma resume_settle_fields [simp]:
  "or_max (resume_call i s) = or_max s" "ncalls (resume_call i s) = ncalls s"
  "or_max (settle_call i s) = or_max s" "ncalls (settle_call i s) = ncalls s"
  by (simp_all add: resume_call_def settle_call_def Let_def split: call_phase.split)

lemma step_fields: "or_max (orch_step e s) = or_max s" "ncalls (orch_step e s) \<le> Suc (ncalls s)"
  by (cases e; simp add: call_tool_def Let_def)+

lemma reachable_fields:
  "or_max (fold orch_step ops s) = or_max s" "ncalls (fold orch_step ops s) \<le> ncalls s + length ops"
proof (induction ops arbitrary: s)
  case (Cons e ops)
  { case 1 show ?case by (simp add: Cons step_fields) }
  { case 2 show ?case using Cons(2) [of "orch_step e s"] step_fields(2) [of e s] by simp }
qed simp_all

lemma executing_bounds:
  assumes "orch_ok s"
  shows "int (card (in_phase s Executing)) \<le> max 0 (or_max s)"
    "card (in_phase s Executing \<inter> Collect (writes_of s)) \<le> 1"
proof -
  have "in_phase s Executing \<subseteq> holders s" by (auto simp: in_phase_def holders_def holds_permit_def)
  then have "card (in_phase s Executing) \<le> card (holders s)" by (simp add: card_mono)
  then show "int (card (in_phase s Executing)) \<le> max 0 (or_max s)" using assms by (auto simp: orch_inv_def)
  have "in_phase s Executing \<inter> Collect (writes_of s) \<subseteq> owners s" by (auto simp: in_phase_def owners_def)
  then have "card (in_phase s Executing \<inter> Collect (writes_of s)) \<le> card (owners s)" by (simp add: card_mono)
  then show "card (in_phase s Executing \<inter> Collect (writes_of s)) \<le> 1" using assms by (auto simp: orch_inv_def split: if_splits)
qed

text \<open>C18: whatever order calls arrive, resume and settle in, at most \<^verbatim>\<open>maxConcurrency\<close> tools execute at a time (none
  when it is not positive), and at most one of them is not concurrency-safe.\<close>

theorem orchestration_safe:
  fixes ops :: "orch_op list" and n :: int
  defines "s \<equiv> fold orch_step ops (new_orchestration n)"
  shows "int (card (in_phase s Executing)) \<le> max 0 n \<and> card (in_phase s Executing \<inter> Collect (writes_of s)) \<le> 1"
  using executing_bounds [OF reachable_ok, of ops n]
  by (simp add: s_def reachable_fields new_orchestration_def)

section \<open>Every call gets its turn\<close>

fun phase_weight :: "call_phase \<Rightarrow> nat" where
  "phase_weight Sem_Wait = 5"
| "phase_weight Sem_Held = 4"
| "phase_weight Mutex_Wait = 3"
| "phase_weight Mutex_Held = 2"
| "phase_weight Executing = 1"
| "phase_weight _ = 0"

definition work :: "orchestration \<Rightarrow> nat" where
  "work s = (\<Sum>i<ncalls s. phase_weight (phase_of s i))"

lemma work_fields [simp]:
  "work (s\<lparr>or_count := c\<rparr>) = work s" "work (s\<lparr>or_waiters := ws\<rparr>) = work s"
  "work (s\<lparr>or_locked := b\<rparr>) = work s" "work (s\<lparr>or_mutex_waiters := ms\<rparr>) = work s"
  by (simp_all add: work_def)

lemma work_set_phase:
  assumes "i < ncalls s"
  shows "work (set_phase i p s) + phase_weight (phase_of s i) = work s + phase_weight p"
proof -
  have i: "i \<in> {..<ncalls s}" using assms by simp
  have rest: "(\<Sum>j\<in>{..<ncalls s} - {i}. phase_weight (phase_of (set_phase i p s) j))
      = (\<Sum>j\<in>{..<ncalls s} - {i}. phase_weight (phase_of s j))"
    using assms by (intro sum.cong) auto
  show ?thesis
    using assms rest sum.remove [OF _ i, of "\<lambda>j. phase_weight (phase_of s j)"]
      sum.remove [OF _ i, of "\<lambda>j. phase_weight (phase_of (set_phase i p s) j)"]
    by (simp add: work_def)
qed

lemma semaphore_release_work:
  assumes "set (or_waiters s) \<subseteq> in_phase s Sem_Wait"
  shows "work (semaphore_release s) \<le> work s"
proof (cases "or_waiters s")
  case (Cons j rest)
  then have "j < ncalls s" "phase_of s j = Sem_Wait" using assms by (auto simp: in_phase_def)
  with Cons work_set_phase [of j "s\<lparr>or_waiters := rest\<rparr>" Sem_Held] show ?thesis
    by (simp add: semaphore_release_def)
qed (simp add: semaphore_release_def)

lemma mutex_release_work:
  assumes "set (or_mutex_waiters s) \<subseteq> in_phase s Mutex_Wait"
  shows "work (mutex_release s) \<le> work s"
proof (cases "or_mutex_waiters s")
  case (Cons j rest)
  then have "j < ncalls s" "phase_of s j = Mutex_Wait" using assms by (auto simp: in_phase_def)
  with Cons work_set_phase [of j "s\<lparr>or_mutex_waiters := rest\<rparr>" Mutex_Held] show ?thesis
    by (simp add: mutex_release_def)
qed (simp add: mutex_release_def)

lemma resume_work:
  assumes "i < ncalls s" and "phase_of s i \<in> {Sem_Held, Mutex_Held}"
  shows "work (resume_call i s) < work s"
  using assms work_set_phase [of i s Executing]
    work_set_phase [of i "s\<lparr>or_locked := True\<rparr>" Mutex_Held]
    work_set_phase [of i "s\<lparr>or_mutex_waiters := or_mutex_waiters s @ [i]\<rparr>" Mutex_Wait]
  by (auto simp: resume_call_eq mutex_acquire_def)

lemma settle_work:
  assumes ok: "orch_ok s" and i: "i < ncalls s" "phase_of s i = Executing"
  shows "work (settle_call i s) < work s"
proof -
  let ?s1 = "set_phase i Finished s"
  let ?s2 = "if writes_of s i then mutex_release ?s1 else ?s1"
  have fin: "orch_inv 1 (if writes_of s i then 1 else 0) ?s1" by (rule finish_ok [OF ok i])
  have "orch_inv 1 0 ?s2" using fin mutex_release_ok [of 1 ?s1] by (auto simp del: One_nat_def)
  then have "work (semaphore_release ?s2) \<le> work ?s2" by (simp add: orch_inv_def semaphore_release_work)
  also have "\<dots> \<le> work ?s1" using fin by (simp add: orch_inv_def mutex_release_work)
  also have "\<dots> < work s" using work_set_phase [OF i(1), of Finished] i by simp
  finally show ?thesis using i by (simp add: settle_call_eq)
qed

text \<open>While a call has something left to do, some call can take a step.\<close>

lemma some_call_can_move:
  assumes ok: "orch_ok s" and max: "1 \<le> or_max s" and left: "0 < work s"
  shows "\<exists>i<ncalls s. phase_of s i \<in> {Sem_Held, Mutex_Held, Executing}"
proof (rule ccontr)
  assume "\<not> ?thesis"
  then have stuck: "phase_of s i \<notin> {Sem_Held, Mutex_Held, Executing}" if "i < ncalls s" for i using that by blast
  then have "owners s = {}" by (auto simp: owners_def)
  then have "\<not> or_locked s" using ok by (auto simp: orch_inv_def split: if_splits)
  then have "in_phase s Mutex_Wait = {}" using ok by (auto simp: orch_inv_def)
  then have "holders s = {}" using stuck by (auto simp: holders_def in_phase_def holds_permit_def)
  then have "or_count s = or_max s" using ok by (simp add: orch_inv_def)
  then have no_wait: "in_phase s Sem_Wait = {}" using ok max by (auto simp: orch_inv_def)
  have "phase_weight (phase_of s i) = 0" if "i < ncalls s" for i
    using stuck [OF that] no_wait \<open>in_phase s Mutex_Wait = {}\<close> that by (cases "phase_of s i") (auto simp: in_phase_def)
  then show False using left by (simp add: work_def)
qed

definition idle :: "orchestration \<Rightarrow> bool" where
  "idle s \<longleftrightarrow> set (map wc_phase (or_calls s)) \<subseteq> {Refused, Finished} \<and> or_count s = or_max s \<and> or_waiters s = []
     \<and> \<not> or_locked s \<and> or_mutex_waiters s = []"

lemma no_work_idle:
  assumes ok: "orch_ok s" and "work s = 0"
  shows "idle s"
proof -
  have "phase_weight (phase_of s i) = 0" if "i < ncalls s" for i using assms that by (simp add: work_def)
  then have p: "phase_of s i = Refused \<or> phase_of s i = Finished" if "i < ncalls s" for i
    using that by (cases "phase_of s i") fastforce+
  then have none: "holders s = {}" "owners s = {}" "in_phase s Sem_Wait = {}" "in_phase s Mutex_Wait = {}"
    by (fastforce simp: holders_def owners_def in_phase_def holds_permit_def)+
  have "set (map wc_phase (or_calls s)) \<subseteq> {Refused, Finished}"
    using p by (fastforce simp: in_set_conv_nth phase_of_def)
  then show ?thesis using ok none by (auto simp: idle_def orch_inv_def split: if_splits)
qed

definition moves :: "orch_op list \<Rightarrow> bool" where
  "moves ops \<longleftrightarrow> set ops \<subseteq> range Oc_Resume \<union> range Oc_Settle"

lemma calls_finish:
  assumes "orch_ok s" and "1 \<le> or_max s"
  shows "\<exists>ops. moves ops \<and> length ops \<le> work s \<and> idle (fold orch_step ops s)"
  using assms
proof (induction "work s" arbitrary: s rule: less_induct)
  case less
  show ?case
  proof (cases "work s = 0")
    case True
    then show ?thesis using less.prems no_work_idle by (intro exI [of _ "[]"]) (simp add: moves_def)
  next
    case False
    then obtain i where i: "i < ncalls s" "phase_of s i \<in> {Sem_Held, Mutex_Held, Executing}"
      using some_call_can_move less.prems by blast
    define e where "e = (if phase_of s i = Executing then Oc_Settle i else Oc_Resume i)"
    have e: "work (orch_step e s) < work s" "or_max (orch_step e s) = or_max s" "moves [e]"
      using i less.prems by (auto simp: e_def moves_def resume_work settle_work)
    then obtain ops where "moves ops" "length ops \<le> work (orch_step e s)" "idle (fold orch_step ops (orch_step e s))"
      using less.hyps [OF e(1)] less.prems by (auto intro: orch.step_inv)
    then show ?thesis using e by (intro exI [of _ "e # ops"]) (auto simp: moves_def)
  qed
qed

lemma work_bound: "work s \<le> 5 * ncalls s"
proof -
  have w: "phase_weight p \<le> 5" for p by (cases p) simp_all
  have "work s \<le> (\<Sum>i<ncalls s. 5)" unfolding work_def by (rule sum_mono) (rule w)
  then show ?thesis by simp
qed

text \<open>C35: With a positive limit no schedule can wedge the tools. From every reachable state there are resumptions and
  settlements, at most five for each call made so far, that bring every call to its end, with all permits and the
  mutex back.\<close>

theorem orchestration_live:
  assumes "1 \<le> n"
  shows "let s = fold orch_step ops (new_orchestration n)
    in \<exists>more. moves more \<and> length more \<le> 5 * length (or_calls s) \<and> idle (fold orch_step more s)"
proof -
  let ?s = "fold orch_step ops (new_orchestration n)"
  have "or_max ?s = n"
    using reachable_fields [of ops "new_orchestration n"] by (simp add: new_orchestration_def)
  then obtain more where "moves more" "length more \<le> work ?s" "idle (fold orch_step more ?s)"
    using calls_finish [OF reachable_ok, of ops n] assms by auto
  then show ?thesis using work_bound [of ?s] unfolding Let_def by (intro exI [of _ more]) auto
qed

theorem orchestration_live_witness:
  "let s = fold orch_step [Oc_Call (lit ''edit_file'') None None, Oc_Call (lit ''search'') None None] (new_orchestration 1)
   in \<exists>more. moves more \<and> length more \<le> 5 * length (or_calls s) \<and> idle (fold orch_step more s)"
  by (rule orchestration_live) simp

text \<open>A \<^verbatim>\<open>MAX_TOOL_CONCURRENCY\<close> of 0 is taken as the limit, not as the default, and then every accepted call
  waits for a permit for ever: no later call, resumption or settlement moves it.\<close>

lemma starved_step:
  assumes "or_count s \<le> 0" and "set (map wc_phase (or_calls s)) \<subseteq> {Refused, Sem_Wait}"
  shows "or_count (orch_step e s) \<le> 0 \<and> set (map wc_phase (or_calls (orch_step e s))) \<subseteq> {Refused, Sem_Wait}"
proof -
  have still: "resume_call i s = s" "settle_call i s = s" for i
    using assms by (auto simp: resume_call_def settle_call_def image_subset_iff dest!: nth_mem split: call_phase.splits)
  show ?thesis using assms
    by (cases e) (auto simp: still call_tool_def Let_def semaphore_acquire_def set_phase_def list_update_append)
qed

theorem zero_limit_starves:
  "max_concurrency None (Some (lit ''0'')) = 0
   \<and> set (map wc_phase (or_calls (fold orch_step ops (new_orchestration 0)))) \<subseteq> {Refused, Sem_Wait}"
proof -
  have "or_count (fold orch_step ops s) \<le> 0 \<and> set (map wc_phase (or_calls (fold orch_step ops s))) \<subseteq> {Refused, Sem_Wait}"
    if "or_count s \<le> 0 \<and> set (map wc_phase (or_calls s)) \<subseteq> {Refused, Sem_Wait}" for s
    using that
  proof (induction ops arbitrary: s)
    case (Cons e ops)
    show ?case using Cons.IH [OF starved_step [of s e]] Cons.prems by simp
  qed simp
  then have "set (map wc_phase (or_calls (fold orch_step ops (new_orchestration 0)))) \<subseteq> {Refused, Sem_Wait}"
    by (simp add: new_orchestration_def)
  then show ?thesis
    by (simp add: max_concurrency_def parse_int_def lit_def js16_space_def digit_def digits_value_def ascii_def Let_def)
qed

end
