(* ===== verification/Messages.thy ===== *)
theory Messages
  imports Json
begin

text \<open>
  The messages of a conversation with a model, as far as the sources look into them: \<^verbatim>\<open>packages/agent/src/turn-boundary.ts\<close>
  (size and shape of one message, compact arguments) and the size estimate of
  \<^verbatim>\<open>packages/agent-runtime/src/session-manager.ts\<close>. The type \<^verbatim>\<open>Message\<close> belongs to the agent library; the record
  below has the properties the sources read and write. A tool result's content is a list of blocks, as its type says.
\<close>

datatype role = User | Assistant | Tool_Result

datatype block =
    B_Text utf16
  | B_Thinking utf16
  | B_Call (bc_id: utf16) (bc_name: utf16) (bc_args: "json option")
  | B_Image utf16

datatype content = C_String utf16 | C_Blocks "block list"

record message =
  ms_role :: role
  ms_content :: content
  ms_call_id :: utf16
  ms_tool_name :: utf16
  ms_error :: bool
  ms_stop :: utf16
  ms_background_note :: bool
  ms_round_placeholder :: bool
  ms_timestamp :: int

definition user_message :: "utf16 \<Rightarrow> int \<Rightarrow> message" where
  "user_message s t = \<lparr>ms_role = User, ms_content = C_String s, ms_call_id = [], ms_tool_name = [], ms_error = False,
     ms_stop = [], ms_background_note = False, ms_round_placeholder = False, ms_timestamp = t\<rparr>"

section \<open>Blocks\<close>

definition blocks_of :: "message \<Rightarrow> block list" where
  "blocks_of m = (case ms_content m of C_Blocks bs \<Rightarrow> bs | C_String _ \<Rightarrow> [])"

fun is_call :: "block \<Rightarrow> bool" where
  "is_call (B_Call i n a) \<longleftrightarrow> True"
| "is_call b \<longleftrightarrow> False"

fun is_text :: "block \<Rightarrow> bool" where
  "is_text (B_Text s) \<longleftrightarrow> True"
| "is_text b \<longleftrightarrow> False"

fun block_text :: "block \<Rightarrow> utf16" where
  "block_text (B_Text s) = s"
| "block_text b = []"

definition calls_of :: "message \<Rightarrow> block list" where
  "calls_of m = (if ms_role m = Assistant then filter is_call (blocks_of m) else [])"

text \<open>An assistant message that makes tool calls.\<close>

definition is_round :: "message \<Rightarrow> bool" where
  "is_round m \<longleftrightarrow> calls_of m \<noteq> []"

definition is_result :: "message \<Rightarrow> bool" where
  "is_result m \<longleftrightarrow> ms_role m = Tool_Result"

definition is_assistant :: "message \<Rightarrow> bool" where
  "is_assistant m \<longleftrightarrow> ms_role m = Assistant"

definition text_of :: "message \<Rightarrow> utf16" where
  "text_of m = concat (map block_text (blocks_of m))"

definition text_chars :: "message \<Rightarrow> nat" where
  "text_chars m = sum_list (map (\<lambda>b. length (block_text b)) (blocks_of m))"

lemma text_chars_of: "text_chars m = length (text_of m)"
  by (simp add: text_chars_def text_of_def length_concat comp_def)

fun block_chars :: "block \<Rightarrow> nat" where
  "block_chars (B_Text s) = length s"
| "block_chars (B_Thinking s) = length s"
| "block_chars b = 0"

definition message_chars :: "message \<Rightarrow> nat" where
  "message_chars m =
     (case ms_content m of C_String s \<Rightarrow> length s | C_Blocks bs \<Rightarrow> sum_list (map block_chars bs))"

definition set_text :: "utf16 \<Rightarrow> message \<Rightarrow> message" where
  "set_text s m = m\<lparr>ms_content := C_Blocks [B_Text s]\<rparr>"

lemma set_text_fields [simp]:
  "ms_role (set_text s m) = ms_role m" "ms_call_id (set_text s m) = ms_call_id m"
  "text_of (set_text s m) = s" "blocks_of (set_text s m) = [B_Text s]"
  by (simp_all add: set_text_def text_of_def blocks_of_def)

lemma is_result_content [simp]: "is_result (m\<lparr>ms_content := c\<rparr>) = is_result m"
  by (simp add: is_result_def)

section \<open>Estimates and numbers\<close>

definition image_token_estimate :: nat where
  "image_token_estimate = 1600"

definition ceil_quarter :: "nat \<Rightarrow> nat" where
  "ceil_quarter n = (n + 3) div 4"

fun call_chars :: "block \<Rightarrow> nat" where
  "call_chars (B_Call i n a) = length n + length (json_text (case a of None \<Rightarrow> JObj [] | Some v \<Rightarrow> v))"
| "call_chars b = 0"

fun image_tokens :: "block \<Rightarrow> nat" where
  "image_tokens (B_Image d) = image_token_estimate"
| "image_tokens b = 0"

definition estimate_message_tokens :: "message \<Rightarrow> nat" where
  "estimate_message_tokens m =
     (case ms_content m of
        C_String s \<Rightarrow> ceil_quarter (length s)
      | C_Blocks bs \<Rightarrow>
          sum_list (map image_tokens bs) + ceil_quarter (sum_list (map (\<lambda>b. block_chars b + call_chars b) bs)))"

text \<open>\<^verbatim>\<open>toLocaleString('en-US')\<close> of a natural number.\<close>

function locale_text :: "nat \<Rightarrow> utf16" where
  "locale_text n = (if n < 1000 then dec_text n else locale_text (n div 1000) @ [44] @ pad_zeros 3 (dec_text (n mod 1000)))"
  by pat_completeness auto
termination
  by (relation "measure id") auto

declare locale_text.simps [simp del]

text \<open>\<^verbatim>\<open>s.substring(0, n)\<close> and \<^verbatim>\<open>s.substring(n)\<close>.\<close>

definition substring_to :: "int \<Rightarrow> 'a list \<Rightarrow> 'a list" where
  "substring_to n s = take (nat n) s"

definition substring_from :: "int \<Rightarrow> 'a list \<Rightarrow> 'a list" where
  "substring_from n s = drop (nat n) s"

fun join_with :: "utf16 \<Rightarrow> utf16 list \<Rightarrow> utf16" where
  "join_with sep [] = []"
| "join_with sep [s] = s"
| "join_with sep (s # t # ss) = s @ sep @ join_with sep (t # ss)"

section \<open>Compact arguments\<close>

definition priority_keys :: "utf16 list" where
  "priority_keys = map lit [''command'', ''path'', ''file_path'', ''target_file'', ''pattern'', ''url'', ''query'']"

definition arg_entries :: "json \<Rightarrow> (utf16 \<times> json) list option" where
  "arg_entries v =
     (case v of JObj es \<Rightarrow> Some es | JArr vs \<Rightarrow> Some (zip (map dec_text [0..<length vs]) vs) | _ \<Rightarrow> None)"

definition pick_entry :: "(utf16 \<times> json) list \<Rightarrow> utf16 \<Rightarrow> (utf16 \<times> json) option" where
  "pick_entry es k = map_option (Pair k) (map_of es k)"

definition order_entries :: "(utf16 \<times> json) list \<Rightarrow> (utf16 \<times> json) list" where
  "order_entries es = List.map_filter (pick_entry es) priority_keys @ filter (\<lambda>(k, v). k \<notin> set priority_keys) es"

definition compact_tool_args :: "json option \<Rightarrow> int \<Rightarrow> utf16" where
  "compact_tool_args args max_chars =
     (case Option.bind args arg_entries of
        None \<Rightarrow> lit ''{}''
      | Some es \<Rightarrow>
          let t = json_text (JObj (order_entries es))
          in if int (length t) > max_chars then take (nat (max 0 (max_chars - 3))) t @ lit ''...'' else t)"

end
