(* ===== verification/Turn_Boundary.thy ===== *)
theory Turn_Boundary
  imports Messages
begin

text \<open>
  \<^verbatim>\<open>packages/agent/src/turn-boundary.ts\<close>: where a turn starts, which part of a history compaction must leave alone, and
  the folding of one oversized turn. The claims: a finished turn is never cut, the fold terminates, fits the
  budget or has nothing left to fold, and leaves a request in which every tool result still has its call.
\<close>

section \<open>Turns\<close>

definition turn_aware_enabled :: "utf16 option \<Rightarrow> bool" where
  "turn_aware_enabled raw \<longleftrightarrow> raw \<noteq> Some (lit ''0'') \<and> raw \<noteq> Some (lit ''false'')"

definition is_turn_start :: "message \<Rightarrow> bool" where
  "is_turn_start m \<longleftrightarrow> ms_role m = User \<and> \<not> (ms_background_note m \<or> ms_round_placeholder m)"

text \<open>The loops that count down from the end: the index of the \<open>n\<close>th hit, or 0.\<close>

fun scan_back :: "(message \<Rightarrow> bool) \<Rightarrow> message list \<Rightarrow> nat \<Rightarrow> int \<Rightarrow> int \<Rightarrow> nat" where
  "scan_back p ms 0 seen n = 0"
| "scan_back p ms (Suc i) seen n =
     (if \<not> p (ms ! i) then scan_back p ms i seen n
      else if seen + 1 = n then i
      else scan_back p ms i (seen + 1) n)"

fun last_start :: "message list \<Rightarrow> nat \<Rightarrow> nat" where
  "last_start ms 0 = 0"
| "last_start ms (Suc i) = (if is_turn_start (ms ! i) then i else last_start ms i)"

definition last_turn_start :: "message list \<Rightarrow> nat" where
  "last_turn_start ms = last_start ms (length ms)"

definition turn_count :: "message list \<Rightarrow> nat" where
  "turn_count ms = length (filter is_turn_start ms)"

definition nth_turn_start :: "message list \<Rightarrow> int \<Rightarrow> nat" where
  "nth_turn_start ms n = scan_back is_turn_start ms (length ms) 0 n"

definition assistant_window_start :: "message list \<Rightarrow> int \<Rightarrow> nat" where
  "assistant_window_start ms n = (if n \<le> 0 then length ms else scan_back is_assistant ms (length ms) 0 n)"

definition turn_in_progress :: "message list \<Rightarrow> bool" where
  "turn_in_progress ms \<longleftrightarrow>
     (if ms = [] then False
      else
        (case ms_role (last ms) of
           User \<Rightarrow> True
         | Tool_Result \<Rightarrow> True
         | Assistant \<Rightarrow> is_round (last ms)))"

text \<open>\<open>raw\<close> is \<^verbatim>\<open>AGENT_TURN_AWARE_COMPACTION\<close>.\<close>

definition protected_start :: "utf16 option \<Rightarrow> message list \<Rightarrow> int \<Rightarrow> nat" where
  "protected_start raw ms n =
     (let boundary = assistant_window_start ms n; turns = turn_count ms
      in if \<not> turn_aware_enabled raw then boundary
         else if turns = 0 then boundary
         else if turn_in_progress ms then (if turns < 2 then boundary else min boundary (nth_turn_start ms 2))
         else min boundary (last_turn_start ms))"

section \<open>What a turn contains\<close>

definition line_end :: "16 word \<Rightarrow> bool" where
  "line_end u \<longleftrightarrow> unat u \<in> {10, 13, 8232, 8233}"

definition after_prefix :: "utf16 \<Rightarrow> utf16 \<Rightarrow> utf16 option" where
  "after_prefix p s = (if take (length p) s = p then Some (drop (length p) s) else None)"

text \<open>\<^verbatim>\<open>Earlier .+ result cleared\<close> after the opening bracket.\<close>

definition earlier_cleared :: "utf16 \<Rightarrow> bool" where
  "earlier_cleared s \<longleftrightarrow>
     (case after_prefix (lit ''Earlier '') s of
        None \<Rightarrow> False
      | Some t \<Rightarrow>
          list_ex (\<lambda>i. list_all (\<lambda>u. \<not> line_end u) (take i t) \<and> after_prefix (lit '' result cleared'') (drop i t) \<noteq> None)
            [1..<Suc (length t)])"

definition round_marker :: "utf16 \<Rightarrow> bool" where
  "round_marker s \<longleftrightarrow>
     (case after_prefix (lit ''round '') s of
        None \<Rightarrow> False
      | Some t \<Rightarrow>
          let u = dropWhile digit t
          in t \<noteq> [] \<and> digit (hd t) \<and> u \<noteq> [] \<and> hd u = 47
             \<and> tl u \<noteq> [] \<and> digit (hd (tl u)) \<and> after_prefix [32, 183] (dropWhile digit (tl u)) \<noteq> None)"

definition placeholder_re :: "utf16 \<Rightarrow> bool" where
  "placeholder_re s \<longleftrightarrow>
     (case after_prefix (lit ''['') s of
        None \<Rightarrow> False
      | Some t \<Rightarrow>
          list_ex (\<lambda>p. after_prefix (lit p) t \<noteq> None)
            [''Tool output processed'', ''Tool result cleared'', ''File content read'',
             ''Context summarized'', ''context summarized'']
          \<or> earlier_cleared t \<or> round_marker t)"

definition is_flattened_result :: "message \<Rightarrow> bool" where
  "is_flattened_result m \<longleftrightarrow> is_result m \<and> placeholder_re (dropWhile js16_space (text_of m))"

record turn_summary =
  su_messages :: nat
  su_rounds :: nat
  su_tool_calls :: nat
  su_tool_names :: "utf16 list"
  su_placeholders :: nat
  su_chars :: nat

definition add_name :: "utf16 list \<Rightarrow> utf16 \<Rightarrow> utf16 list" where
  "add_name names n = (if n \<noteq> [] \<and> n \<notin> set names then names @ [n] else names)"

definition summarise_message :: "turn_summary \<Rightarrow> message \<Rightarrow> turn_summary" where
  "summarise_message s m =
     s\<lparr>su_rounds := su_rounds s + (if is_round m then 1 else 0),
       su_tool_calls := su_tool_calls s + length (calls_of m),
       su_tool_names := foldl add_name (su_tool_names s) (map bc_name (calls_of m)),
       su_placeholders := su_placeholders s + (if is_flattened_result m then 1 else 0),
       su_chars := su_chars s + message_chars m\<rparr>"

definition clamp_start :: "int \<Rightarrow> nat \<Rightarrow> nat" where
  "clamp_start n len = nat (max 0 (min n (int len)))"

definition summarise_turn :: "message list \<Rightarrow> int \<Rightarrow> turn_summary" where
  "summarise_turn ms n =
     (let start = clamp_start n (length ms)
      in foldl summarise_message
           \<lparr>su_messages = length ms - start, su_rounds = 0, su_tool_calls = 0, su_tool_names = [], su_placeholders = 0,
             su_chars = 0\<rparr>
           (drop start ms))"

section \<open>Folding a turn\<close>

record tool_round =
  rd_start :: nat
  rd_end :: nat
  rd_tool_names :: "utf16 list"
  rd_args :: "json option"
  rd_chars :: nat

definition slice :: "nat \<Rightarrow> nat \<Rightarrow> 'a list \<Rightarrow> 'a list" where
  "slice i j xs = take (j - i) (drop i xs)"

definition round_end :: "message list \<Rightarrow> nat \<Rightarrow> nat" where
  "round_end ms i = Suc i + length (takeWhile is_result (drop (Suc i) ms))"

definition round_at :: "message list \<Rightarrow> nat \<Rightarrow> tool_round" where
  "round_at ms i =
     \<lparr>rd_start = i, rd_end = round_end ms i, rd_tool_names = map bc_name (calls_of (ms ! i)),
       rd_args = Some (case bc_args (hd (calls_of (ms ! i))) of None \<Rightarrow> JObj [] | Some v \<Rightarrow> v),
       rd_chars = sum_list (map message_chars (slice i (round_end ms i) ms))\<rparr>"

function rounds_of :: "message list \<Rightarrow> nat \<Rightarrow> tool_round list" where
  "rounds_of ms i =
     (if length ms \<le> i then []
      else if is_round (ms ! i) then round_at ms i # rounds_of ms (round_end ms i)
      else rounds_of ms (Suc i))"
  by pat_completeness auto
termination
  by (relation "measure (\<lambda>(ms, i). length ms - i)") (auto simp: round_end_def)

declare rounds_of.simps [simp del]

definition round_placeholder :: "tool_round \<Rightarrow> nat \<Rightarrow> nat \<Rightarrow> utf16" where
  "round_placeholder r index cnt =
     (let names = join_with (lit ''+'') (rd_tool_names r); tools = (if names = [] then lit ''tool'' else names)
      in lit ''[round '' @ dec_text index @ lit ''/'' @ dec_text cnt @ [32, 183, 32] @ tools @ [32, 183, 32]
         @ locale_text (rd_chars r) @ lit '' chars cleared'' @ [32, 183, 32] @ lit ''args: ''
         @ compact_tool_args (rd_args r) 200 @ lit '']'')"

record fold_result =
  fr_messages :: "message list"
  fr_folded_rounds :: nat
  fr_cleared_chars :: nat

definition placeholder_message :: "int \<Rightarrow> tool_round \<Rightarrow> nat \<Rightarrow> nat \<Rightarrow> message" where
  "placeholder_message now r index cnt =
     (user_message (round_placeholder r index cnt) now)\<lparr>ms_round_placeholder := True\<rparr>"

definition keep_round :: "nat \<Rightarrow> nat \<Rightarrow> nat \<Rightarrow> bool" where
  "keep_round cnt k i \<longleftrightarrow> i = 0 \<or> (max 1 (int cnt - int k) \<le> int i \<and> i < cnt)"

text \<open>The inner loop; \<open>i\<close> is the index of the next round.\<close>

fun fold_rounds :: "int \<Rightarrow> message list \<Rightarrow> nat \<Rightarrow> nat \<Rightarrow> nat \<Rightarrow> tool_round list \<Rightarrow> fold_result \<Rightarrow> fold_result" where
  "fold_rounds now ms cnt k i [] acc = acc"
| "fold_rounds now ms cnt k i (r # rs) acc =
     fold_rounds now ms cnt k (Suc i) rs
       (if keep_round cnt k i then acc\<lparr>fr_messages := fr_messages acc @ slice (rd_start r) (rd_end r) ms\<rparr>
        else acc\<lparr>fr_messages := fr_messages acc @ [placeholder_message now r (Suc i) cnt],
                 fr_folded_rounds := Suc (fr_folded_rounds acc),
                 fr_cleared_chars := fr_cleared_chars acc + rd_chars r\<rparr>)"

definition fold_pass :: "int \<Rightarrow> message list \<Rightarrow> nat \<Rightarrow> tool_round list \<Rightarrow> nat \<Rightarrow> fold_result" where
  "fold_pass now ms start rs k =
     (let opening = \<lparr>fr_messages = slice start (rd_start (hd rs)) ms, fr_folded_rounds = 0, fr_cleared_chars = 0\<rparr>;
          r = fold_rounds now ms (length rs) k 0 rs opening
      in r\<lparr>fr_messages := fr_messages r @ drop (rd_end (last rs)) ms\<rparr>)"

definition total_chars :: "message list \<Rightarrow> nat" where
  "total_chars ms = sum_list (map message_chars ms)"

fun fold_loop :: "int \<Rightarrow> message list \<Rightarrow> nat \<Rightarrow> tool_round list \<Rightarrow> int \<Rightarrow> nat \<Rightarrow> fold_result" where
  "fold_loop now ms start rs max_chars 0 = fold_pass now ms start rs 0"
| "fold_loop now ms start rs max_chars (Suc k) =
     (let r = fold_pass now ms start rs (Suc k)
      in if int (total_chars (fr_messages r)) \<le> max_chars then r else fold_loop now ms start rs max_chars k)"

definition fold_turn_middle :: "int \<Rightarrow> message list \<Rightarrow> int \<Rightarrow> int \<Rightarrow> int option \<Rightarrow> fold_result" where
  "fold_turn_middle now ms n max_chars keep =
     (let start = nat (max 0 (min n (int (length ms) - 1))); rs = rounds_of ms start
      in if length rs \<le> 1 then \<lparr>fr_messages = ms, fr_folded_rounds = 0, fr_cleared_chars = 0\<rparr>
         else fold_loop now ms start rs max_chars (nat (max 0 (case keep of None \<Rightarrow> 2 | Some k \<Rightarrow> k))))"

section \<open>Boundaries\<close>

lemma scan_back_le: "scan_back p ms i seen n \<le> i"
  by (induction i arbitrary: seen) (auto intro: le_SucI)

lemma scan_back_append: "i \<le> length ms \<Longrightarrow> scan_back p (ms @ xs) i seen n = scan_back p ms i seen n"
  by (induction i arbitrary: seen) (auto simp: nth_append)

lemma scan_back_skip:
  "(\<And>j. i \<le> j \<Longrightarrow> j < i + d \<Longrightarrow> \<not> p (ms ! j)) \<Longrightarrow> scan_back p ms (i + d) seen n = scan_back p ms i seen n"
  by (induction d) simp_all

lemma scan_back_seen: "seen + 1 < n \<Longrightarrow> scan_back p ms i seen n \<le> scan_back p ms i (seen + 1) n"
proof (induction i arbitrary: seen)
  case (Suc i)
  show ?case using Suc.IH [of seen] Suc.IH [of "seen + 1"] Suc.prems scan_back_le [of p ms i "seen + 1" n] by auto
qed simp

lemma scan_back_hit:
  assumes "list_all (\<lambda>m. \<not> p m) b" and "p u" and "seen + 1 \<noteq> n"
  shows "scan_back p (old @ u # b) (length (old @ u # b)) seen n = scan_back p old (length old) (seen + 1) n"
proof -
  have "scan_back p (old @ u # b) (Suc (length old) + length b) seen n = scan_back p (old @ u # b) (Suc (length old)) seen n"
    by (rule scan_back_skip) (use assms(1) in \<open>auto simp: nth_append list_all_length\<close>)
  then show ?thesis using assms by (simp add: scan_back_append)
qed

lemma scan_back_found:
  assumes "list_all (\<lambda>m. \<not> p m) b" and "p u"
  shows "scan_back p (old @ u # b) (length (old @ u # b)) seen (seen + 1) = length old"
proof -
  have "scan_back p (old @ u # b) (Suc (length old) + length b) seen (seen + 1)
      = scan_back p (old @ u # b) (Suc (length old)) seen (seen + 1)"
    by (rule scan_back_skip) (use assms(1) in \<open>auto simp: nth_append list_all_length\<close>)
  then show ?thesis using assms by simp
qed

lemma last_start_scan: "last_start ms i = scan_back is_turn_start ms i 0 1"
  by (induction i) auto

lemma last_turn_start_at:
  "is_turn_start u \<Longrightarrow> list_all (\<lambda>m. \<not> is_turn_start m) b \<Longrightarrow> last_turn_start (old @ u # b) = length old"
  using scan_back_found [of is_turn_start b u old 0] by (simp add: last_turn_start_def last_start_scan)

lemma scan_back_grows:
  assumes "0 < n"
  shows "scan_back p ms (length ms) 0 n \<le> scan_back p (ms @ c) (length (ms @ c)) 0 n"
proof (induction c rule: rev_induct)
  case (snoc x c)
  have "scan_back p (ms @ c) (length (ms @ c)) 0 n \<le> scan_back p ((ms @ c) @ [x]) (length ((ms @ c) @ [x])) 0 n"
  proof (cases "p x")
    case True
    then show ?thesis
      using assms scan_back_le [of p "ms @ c" "length (ms @ c)" 0 n] scan_back_seen [of 0 n p "ms @ c" "length (ms @ c)"]
        scan_back_append [of "length (ms @ c)" "ms @ c" p "[x]"]
      by (cases "n = 1") (simp_all add: nth_append)
  next
    case False
    then show ?thesis using scan_back_append [of "length (ms @ c)" "ms @ c" p "[x]"] by (simp add: nth_append)
  qed
  with snoc.IH show ?case by simp
qed simp

lemma assistant_window_grows: "assistant_window_start ms n \<le> assistant_window_start (ms @ c) n"
  using scan_back_grows [of n is_assistant ms c] by (simp add: assistant_window_start_def)

text \<open>With the turn-aware boundary on, take a history \<open>old @ v # a @ u # b\<close> whose last two turns start at \<open>v\<close> and
  \<open>u\<close>. The part a layer leaves alone starts at the layer's own window or, where that comes first, at the start
  of a turn: at \<open>u\<close> once the turn has ended, at \<open>v\<close> while it runs. So the last turn is never touched, nor the turn
  before it while it runs; and while the turn runs the boundary never moves back as it grows. (Where the layer's
  own window is the longer one, it may start in the middle of an older turn.)\<close>

theorem turn_never_cut:
  assumes "turn_aware_enabled raw" and "is_turn_start v" and "is_turn_start u"
    and "list_all (\<lambda>m. \<not> is_turn_start m) a" and "list_all (\<lambda>m. \<not> is_turn_start m) b"
    and "list_all (\<lambda>m. \<not> is_turn_start m) c" and "turn_in_progress ((old @ v # a) @ u # b @ c)"
  shows "protected_start raw ((old @ v # a) @ u # b) n
      = min (assistant_window_start ((old @ v # a) @ u # b) n)
          (if turn_in_progress ((old @ v # a) @ u # b) then length old else length (old @ v # a))
    \<and> (turn_in_progress ((old @ v # a) @ u # b) \<longrightarrow>
        protected_start raw ((old @ v # a) @ u # b) n \<le> protected_start raw ((old @ v # a) @ u # b @ c) n)"
proof -
  have second: "nth_turn_start ((old @ v # a) @ u # d) 2 = length old" if "list_all (\<lambda>m. \<not> is_turn_start m) d" for d
    using that assms(2-4) scan_back_hit [of is_turn_start d u 0 2 "old @ v # a"] scan_back_found [of is_turn_start a v old 1]
    by (simp add: nth_turn_start_def)
  have last: "last_turn_start ((old @ v # a) @ u # d) = length (old @ v # a)"
    if "list_all (\<lambda>m. \<not> is_turn_start m) d" for d
    using that assms(3) by (rule last_turn_start_at [rotated])
  have count: "2 \<le> turn_count ((old @ v # a) @ u # d)" for d
    using assms(2,3) by (simp add: turn_count_def)
  have eq: "protected_start raw ((old @ v # a) @ u # d) n
      = min (assistant_window_start ((old @ v # a) @ u # d) n)
          (if turn_in_progress ((old @ v # a) @ u # d) then length old else length (old @ v # a))"
    if "list_all (\<lambda>m. \<not> is_turn_start m) d" for d
  proof -
    have "turn_count ((old @ v # a) @ u # d) \<noteq> 0" "\<not> turn_count ((old @ v # a) @ u # d) < 2" using count [of d] by simp_all
    then show ?thesis using assms(1) second [OF that] last [OF that]
      by (simp only: protected_start_def Let_def if_False if_True not_not split: if_split) simp
  qed
  have "assistant_window_start ((old @ v # a) @ u # b) n \<le> assistant_window_start ((old @ v # a) @ u # b @ c) n"
    using assistant_window_grows [of "(old @ v # a) @ u # b" n c] by simp
  then show ?thesis using eq [OF assms(5)] eq [of "b @ c"] assms(5-7) by (auto simp: min_def)
qed

section \<open>The rounds of a turn\<close>

text \<open>Every tool result answers a call of the assistant message before it, with only results between them: what a
  provider asks of a request.\<close>

fun paired :: "utf16 set \<Rightarrow> message list \<Rightarrow> bool" where
  "paired ids [] \<longleftrightarrow> True"
| "paired ids (m # ms) \<longleftrightarrow>
     (if is_result m then ms_call_id m \<in> ids \<and> paired ids ms else paired (set (map bc_id (calls_of m))) ms)"

lemma paired_mono: "paired ids ms \<Longrightarrow> ids \<subseteq> ids' \<Longrightarrow> paired ids' ms"
  by (induction ids ms rule: paired.induct) auto

lemma paired_join: "paired ids xs \<Longrightarrow> paired {} ys \<Longrightarrow> paired ids (xs @ ys)"
  by (induction ids xs rule: paired.induct) (auto intro: paired_mono)

lemma paired_concat: "list_all (paired {}) xss \<Longrightarrow> paired {} (concat xss)"
  by (induction xss) (simp_all add: paired_join)

lemma paired_prefix: "paired ids (xs @ ys) \<Longrightarrow> paired ids xs"
  by (induction ids xs rule: paired.induct) auto

lemma paired_cut:
  "paired ids (xs @ ys) \<Longrightarrow> ys = [] \<or> \<not> is_result (hd ys) \<Longrightarrow> paired {} ys"
proof (induction ids xs rule: paired.induct)
  case (1 ids)
  then show ?case by (cases ys) auto
qed (auto split: if_splits)

lemma paired_drop:
  assumes "paired {} (drop s ms)" and "s \<le> i" and "i < length ms \<Longrightarrow> \<not> is_result (ms ! i)"
  shows "paired {} (drop i ms)"
proof -
  have "take (i - s) (drop s ms) @ drop (i - s) (drop s ms) = drop s ms" by (rule append_take_drop_id)
  then have "drop s ms = take (i - s) (drop s ms) @ drop i ms" using assms(2) by simp
  then have "paired {} (take (i - s) (drop s ms) @ drop i ms)" using assms(1) by simp
  then show ?thesis by (rule paired_cut) (use assms(3) in \<open>auto simp: hd_drop_conv_nth\<close>)
qed

lemma paired_slice:
  assumes "paired {} (drop s ms)" and "s \<le> i" and "i < length ms \<Longrightarrow> \<not> is_result (ms ! i)"
  shows "paired {} (slice i j ms)"
proof -
  have "drop i ms = slice i j ms @ drop (j - i) (drop i ms)" unfolding slice_def by (rule append_take_drop_id [symmetric])
  then show ?thesis using paired_drop [OF assms] paired_prefix by metis
qed

lemma round_not_result: "is_round m \<Longrightarrow> \<not> is_result m"
  by (simp add: is_round_def calls_of_def is_result_def split: if_splits)

lemma round_end_le: "i < length ms \<Longrightarrow> round_end ms i \<le> length ms"
  using length_takeWhile_le [of is_result "drop (Suc i) ms"] by (simp add: round_end_def)

lemma round_end_stops: "round_end ms i < length ms \<Longrightarrow> \<not> is_result (ms ! round_end ms i)"
  using nth_length_takeWhile [of is_result "drop (Suc i) ms"] by (simp add: round_end_def)

text \<open>A round starts at its call and ends before a message that is no result.\<close>

definition round_ok :: "message list \<Rightarrow> nat \<Rightarrow> tool_round \<Rightarrow> bool" where
  "round_ok ms s r \<longleftrightarrow> s \<le> rd_start r \<and> rd_start r < length ms \<and> r = round_at ms (rd_start r) \<and> is_round (ms ! rd_start r)"

lemma rounds_of_ok: "list_all (round_ok ms i) (rounds_of ms i)"
proof (induction ms i rule: rounds_of.induct)
  case (1 ms i)
  have weaken: "list_all (round_ok ms j) rs \<Longrightarrow> i \<le> j \<Longrightarrow> list_all (round_ok ms i) rs" for j rs
    by (erule list.pred_mono_strong) (simp add: round_ok_def)
  have "i \<le> round_end ms i" by (simp add: round_end_def)
  moreover have "i < length ms \<Longrightarrow> is_round (ms ! i) \<Longrightarrow> round_ok ms i (round_at ms i)"
    by (simp add: round_ok_def) (simp add: round_at_def)
  ultimately show ?case using 1 weaken [of "round_end ms i"] weaken [of "Suc i"]
    by (subst rounds_of.simps) simp
qed

lemma round_ok_end:
  assumes "round_ok ms s r"
  shows "rd_end r = round_end ms (rd_start r)"
  using assms by (metis round_at_def round_ok_def tool_round.select_convs(2))

text \<open>What stands for each round in the fold.\<close>

definition segment :: "int \<Rightarrow> message list \<Rightarrow> nat \<Rightarrow> nat \<Rightarrow> nat \<times> tool_round \<Rightarrow> message list" where
  "segment now ms cnt k = (\<lambda>(i, r). if keep_round cnt k i then slice (rd_start r) (rd_end r) ms
     else [placeholder_message now r (Suc i) cnt])"

lemma fold_rounds_spec:
  "fr_messages (fold_rounds now ms cnt k i rs acc) = fr_messages acc @ concat (map (segment now ms cnt k) (enumerate i rs))"
  "fr_folded_rounds (fold_rounds now ms cnt k i rs acc)
     = fr_folded_rounds acc + length (filter (\<lambda>j. \<not> keep_round cnt k j) [i..<i + length rs])"
  by (induction rs arbitrary: i acc) (simp_all add: segment_def upt_conv_Cons del: upt_Suc)

lemma fold_pass_messages:
  "fr_messages (fold_pass now ms start rs k) = slice start (rd_start (hd rs)) ms
     @ concat (map (segment now ms (length rs) k) (enumerate 0 rs)) @ drop (rd_end (last rs)) ms"
  by (simp add: fold_pass_def fold_rounds_spec Let_def)

lemma folded_count:
  "length (filter (\<lambda>j. \<not> keep_round cnt k j) [0..<cnt]) = cnt - 1 - k"
proof -
  have "length (filter (\<lambda>j. \<not> keep_round cnt k j) [0..<cnt]) = card {j. j < cnt \<and> \<not> keep_round cnt k j}"
    unfolding length_filter_conv_card by (rule arg_cong [where f = card]) auto
  also have "{j. j < cnt \<and> \<not> keep_round cnt k j} = {1..<cnt - k}" by (auto simp: keep_round_def)
  finally show ?thesis by simp
qed

lemma fold_loop_spec:
  "\<exists>k\<le>keep. fold_loop now ms start rs mx keep = fold_pass now ms start rs k
    \<and> (k = 0 \<or> int (total_chars (fr_messages (fold_pass now ms start rs k))) \<le> mx)
    \<and> (\<forall>k'\<in>{k<..keep}. int (total_chars (fr_messages (fold_pass now ms start rs k'))) > mx)"
proof (induction keep)
  case (Suc keep)
  show ?case
  proof (cases "int (total_chars (fr_messages (fold_pass now ms start rs (Suc keep)))) \<le> mx")
    case True
    then show ?thesis by (intro exI [of _ "Suc keep"]) (simp add: Let_def)
  next
    case False
    from Suc.IH obtain k where k: "k \<le> keep" "fold_loop now ms start rs mx keep = fold_pass now ms start rs k"
      "k = 0 \<or> int (total_chars (fr_messages (fold_pass now ms start rs k))) \<le> mx"
      "\<forall>k'\<in>{k<..keep}. int (total_chars (fr_messages (fold_pass now ms start rs k'))) > mx" by blast
    have "\<forall>k'\<in>{k<..Suc keep}. int (total_chars (fr_messages (fold_pass now ms start rs k'))) > mx"
      using k(4) False by (auto simp: le_Suc_eq)
    with k False show ?thesis by (intro exI [of _ k]) (simp add: Let_def)
  qed
qed simp

lemma fold_pass_count: "fr_folded_rounds (fold_pass now ms start rs k) = length rs - 1 - k"
  by (simp add: fold_pass_def Let_def fold_rounds_spec folded_count)

definition fold_start :: "message list \<Rightarrow> int \<Rightarrow> nat" where
  "fold_start ms n = nat (max 0 (min n (int (length ms) - 1)))"

text \<open>The fold keeps as many of the last rounds as fit. It returns the turn with its first round and the last \<open>k\<close>
  rounds in full and one line for each of the others, where \<open>k\<close> is the largest number of rounds, up to \<^verbatim>\<open>keepRounds\<close>,
  with which the turn fits the budget, or 0 when none does.\<close>

theorem fold_keeps_most:
  fixes now mx n :: int and ms :: "message list" and keep :: "int option"
  defines "start \<equiv> fold_start ms n" and "res \<equiv> fold_turn_middle now ms n mx keep"
  assumes two: "1 < length (rounds_of ms start)"
  shows "\<exists>k\<le>nat (max 0 (case keep of None \<Rightarrow> 2 | Some k \<Rightarrow> k)).
      res = fold_pass now ms start (rounds_of ms start) k
      \<and> fr_folded_rounds res = length (rounds_of ms start) - 1 - k
      \<and> (k = 0 \<or> int (total_chars (fr_messages res)) \<le> mx)
      \<and> (\<forall>k'\<in>{k<..nat (max 0 (case keep of None \<Rightarrow> 2 | Some k \<Rightarrow> k))}.
           int (total_chars (fr_messages (fold_pass now ms start (rounds_of ms start) k'))) > mx)"
proof -
  have res: "res = fold_loop now ms start (rounds_of ms start) mx (nat (max 0 (case keep of None \<Rightarrow> 2 | Some k \<Rightarrow> k)))"
    using two by (simp add: res_def start_def fold_start_def fold_turn_middle_def Let_def)
  show ?thesis
    using fold_pass_count fold_loop_spec [of "nat (max 0 (case keep of None \<Rightarrow> 2 | Some k \<Rightarrow> k))" now ms start "rounds_of ms start" mx]
    unfolding res by metis
qed

lemma fold_pass_paired:
  assumes "paired {} (drop s ms)" and "s \<le> length ms" and "s < length ms \<Longrightarrow> \<not> is_result (ms ! s)" and "rounds_of ms s \<noteq> []"
  shows "paired {} (fr_messages (fold_pass now ms s (rounds_of ms s) k))"
proof -
  have ok: "round_ok ms s r" if "r \<in> set (rounds_of ms s)" for r
    using rounds_of_ok [of ms s] that by (simp add: list_all_iff)
  have seg: "paired {} (segment now ms c k p)" if "p \<in> set (enumerate 0 (rounds_of ms s))" for p c
  proof -
    obtain i r where p: "p = (i, r)" by fastforce
    then have "round_ok ms s r" using that ok by (auto simp: in_set_enumerate_eq)
    then have "paired {} (slice (rd_start r) (rd_end r) ms)"
      by (intro paired_slice [OF assms(1)]) (auto simp: round_ok_def dest: round_not_result)
    then show ?thesis
      by (simp add: p segment_def placeholder_message_def user_message_def is_result_def)
  qed
  have "paired {} (drop (rd_end (last (rounds_of ms s))) ms)"
    using ok [of "last (rounds_of ms s)"] assms(4)
    by (intro paired_drop [OF assms(1)]) (auto simp: round_ok_end round_end_stops, auto simp: round_ok_def round_end_def)
  moreover have "paired {} (concat (map (segment now ms c k) (enumerate 0 (rounds_of ms s))))" for c
    by (rule paired_concat) (simp add: list_all_iff seg)
  moreover have "paired {} (slice s (rd_start (hd (rounds_of ms s))) ms)"
    by (rule paired_slice [OF assms(1)]) (use assms(3) in auto)
  ultimately show ?thesis by (simp add: fold_pass_messages paired_join)
qed

lemma fold_turn_paired:
  assumes "paired {} ms" and "0 \<le> n" and "nat n < length ms" and here: "\<not> is_result (ms ! nat n)"
  shows "paired {} (fr_messages (fold_turn_middle now ms n mx keep))"
proof -
  let ?s = "nat n"
  have start: "nat (max 0 (min n (int (length ms) - 1))) = ?s" using assms(2,3) by simp
  have from_s: "paired {} (drop ?s ms)"
    by (rule paired_drop [of 0]) (use assms(1) here in simp_all)
  show ?thesis
  proof (cases "length (rounds_of ms ?s) \<le> 1")
    case True
    then show ?thesis using assms(1) by (simp add: fold_turn_middle_def start)
  next
    case False
    then have "rounds_of ms ?s \<noteq> []" by auto
    then have "paired {} (fr_messages (fold_pass now ms ?s (rounds_of ms ?s) k))" for k
      using from_s assms(3) here by (intro fold_pass_paired) simp_all
    moreover obtain k where "fold_loop now ms ?s (rounds_of ms ?s) mx (nat (max 0 (case keep of None \<Rightarrow> 2 | Some k \<Rightarrow> k)))
        = fold_pass now ms ?s (rounds_of ms ?s) k"
      using fold_loop_spec by blast
    ultimately show ?thesis using False by (simp add: fold_turn_middle_def start Let_def)
  qed
qed

text \<open>Folding never makes a request invalid. If in the history every tool result follows its call, it still
  does in what the fold returns, whichever rounds it replaced and wherever in the turn other messages stood.\<close>

theorem fold_stays_paired:
  assumes "paired {} ms" and "0 \<le> n" and "nat n < length ms" and "is_turn_start (ms ! nat n)"
  shows "paired {} (fr_messages (fold_turn_middle now ms n mx keep))"
  by (rule fold_turn_paired) (use assms in \<open>simp_all add: is_turn_start_def is_result_def\<close>)

section \<open>What a fold leaves out\<close>

lemma slice_append: "slice (length old + i) (length old + j) (old @ t) = slice i j t"
  by (simp add: slice_def)

definition shift_round :: "nat \<Rightarrow> tool_round \<Rightarrow> tool_round" where
  "shift_round d r = r\<lparr>rd_start := d + rd_start r, rd_end := d + rd_end r\<rparr>"

lemma shift_round_fields [simp]:
  "rd_start (shift_round d r) = d + rd_start r" "rd_end (shift_round d r) = d + rd_end r"
  "placeholder_message now (shift_round d r) i c = placeholder_message now r i c" "rd_chars (shift_round d r) = rd_chars r"
  by (simp_all add: shift_round_def placeholder_message_def round_placeholder_def)

lemma round_at_append: "round_at (old @ t) (length old + i) = shift_round (length old) (round_at t i)"
proof -
  have end_: "round_end (old @ t) (length old + i) = length old + round_end t i" by (simp add: round_end_def)
  show ?thesis by (simp add: round_at_def end_ slice_append shift_round_def nth_append)
qed

lemma rounds_of_append: "rounds_of (old @ t) (length old + i) = map (shift_round (length old)) (rounds_of t i)"
proof (induction t i rule: rounds_of.induct)
  case (1 t i)
  have end_: "round_end (old @ t) (length old + i) = length old + round_end t i" by (simp add: round_end_def)
  have nth: "(old @ t) ! (length old + i) = t ! i" by (simp add: nth_append)
  show ?case
  proof (cases "length t \<le> i")
    case True
    then show ?thesis by (simp add: rounds_of.simps)
  next
    case False
    with 1 show ?thesis
      by (subst rounds_of.simps, subst (2) rounds_of.simps) (simp add: nth end_ round_at_append)
  qed
qed

lemma segment_append:
  "segment now (old @ t) c k (i, shift_round (length old) r) = segment now t c k (i, r)"
  by (simp add: segment_def slice_append)

lemma segments_append:
  "map (segment now (old @ t) c k) (enumerate i (map (shift_round (length old)) rs)) = map (segment now t c k) (enumerate i rs)"
  by (induction rs arbitrary: i) (simp_all add: segment_append)

lemma fold_pass_append:
  assumes "rs \<noteq> []"
  shows "fr_messages (fold_pass now (old @ t) (length old) (map (shift_round (length old)) rs) k)
    = fr_messages (fold_pass now t 0 rs k)"
  using assms slice_append [of old 0 "rd_start (hd rs)" t]
  by (simp add: fold_pass_messages segments_append hd_map last_map)

lemma fold_loop_append:
  assumes "rs \<noteq> []"
  shows "fr_messages (fold_loop now (old @ t) (length old) (map (shift_round (length old)) rs) mx k)
    = fr_messages (fold_loop now t 0 rs mx k)"
  using assms by (induction k) (simp_all add: fold_pass_append Let_def)

lemma fold_loop_append_count:
  assumes "rs \<noteq> []"
  shows "fr_folded_rounds (fold_loop now (old @ t) (length old) (map (shift_round (length old)) rs) mx k)
    = fr_folded_rounds (fold_loop now t 0 rs mx k)"
  using assms by (induction k) (simp_all add: fold_pass_append fold_pass_count Let_def)

lemma fold_turn_append:
  assumes "1 < length (rounds_of t 0)"
  shows "fr_messages (fold_turn_middle now (old @ t) (int (length old)) mx keep) = fr_messages (fold_turn_middle now t 0 mx keep)"
    and "fr_folded_rounds (fold_turn_middle now (old @ t) (int (length old)) mx keep)
      = fr_folded_rounds (fold_turn_middle now t 0 mx keep)"
proof -
  have t: "t \<noteq> []" using assms by (auto simp: rounds_of.simps)
  then have start: "nat (max 0 (min (int (length old)) (int (length (old @ t)) - 1))) = length old" by (cases t) auto
  have start0: "nat (max 0 (min 0 (int (length t) - 1))) = 0" by simp
  have "rounds_of (old @ t) (length old) = map (shift_round (length old)) (rounds_of t 0)"
    using rounds_of_append [of old t 0] by simp
  moreover have "rounds_of t 0 \<noteq> []" using assms by auto
  ultimately show "fr_messages (fold_turn_middle now (old @ t) (int (length old)) mx keep) = fr_messages (fold_turn_middle now t 0 mx keep)"
    "fr_folded_rounds (fold_turn_middle now (old @ t) (int (length old)) mx keep) = fr_folded_rounds (fold_turn_middle now t 0 mx keep)"
    using assms unfolding fold_turn_middle_def start start0 Let_def by (simp_all add: fold_loop_append fold_loop_append_count)
qed

lemma summarise_chars: "su_chars (summarise_turn ms n) = total_chars (drop (clamp_start n (length ms)) ms)"
proof -
  have "su_chars (foldl summarise_message s xs) = su_chars s + total_chars xs" for s xs
    by (induction xs arbitrary: s) (simp_all add: summarise_message_def total_chars_def)
  then show ?thesis by (simp add: summarise_turn_def Let_def)
qed

text \<open>A fold that has rounds to fold returns the turn alone: whatever the history held before its start is gone
  from the result.\<close>

theorem fold_returns_turn_only:
  assumes "1 < length (rounds_of t 0)"
  shows "fr_messages (fold_turn_middle now (old @ t) (int (length old)) mx keep) = fr_messages (fold_turn_middle now t 0 mx keep)"
  by (rule fold_turn_append [OF assms])

text \<open>A turn of three rounds with a note steered in after the first.\<close>

definition demo_call :: "string \<Rightarrow> message" where
  "demo_call i = (user_message [] 0)\<lparr>ms_role := Assistant, ms_content := C_Blocks [B_Call (lit i) (lit ''exec'') None]\<rparr>"

definition demo_result :: "string \<Rightarrow> message" where
  "demo_result i = (user_message [] 0)\<lparr>ms_role := Tool_Result, ms_content := C_Blocks [B_Text (lit ''ok'')], ms_call_id := lit i\<rparr>"

definition demo_note :: message where
  "demo_note = (user_message (lit ''done'') 0)\<lparr>ms_background_note := True\<rparr>"

definition demo_turn :: "message list" where
  "demo_turn = [user_message (lit ''go'') 0, demo_call ''a'', demo_result ''a'', demo_note, demo_call ''b'', demo_result ''b'',
     demo_call ''c'', demo_result ''c'']"

lemma demo_kinds [simp]:
  "is_round (demo_call i)" "\<not> is_result (demo_call i)" "is_result (demo_result i)" "\<not> is_round (demo_result i)"
  "\<not> is_round (user_message s t)" "\<not> is_result (user_message s t)" "\<not> is_round demo_note" "\<not> is_result demo_note"
  "is_turn_start (user_message s t)" "\<not> is_turn_start demo_note" "\<not> is_turn_start (demo_call i)"
  "\<not> is_turn_start (demo_result i)" "ms_background_note demo_note" "\<not> ms_background_note (demo_call i)"
  "\<not> ms_background_note (demo_result i)" "\<not> ms_background_note (user_message s t)"
  "ms_call_id (demo_result i) = lit i" "map bc_id (calls_of (demo_call i)) = [lit i]"
  by (simp_all add: demo_call_def demo_result_def demo_note_def user_message_def is_round_def is_result_def calls_of_def
      blocks_of_def is_turn_start_def)

lemma demo_rounds:
  "rounds_of demo_turn 0 = [round_at demo_turn 1, round_at demo_turn 4, round_at demo_turn 6]"
  by (simp add: demo_turn_def rounds_of.simps round_end_def eval_nat_numeral)

text \<open>A message steered in between two rounds is neither kept nor given a line: it is lost.\<close>

theorem fold_loses_steered_note:
  "demo_note \<in> set demo_turn \<and> fr_folded_rounds (fold_turn_middle now demo_turn 0 mx (Some 1)) \<noteq> 0
   \<and> filter ms_background_note (fr_messages (fold_turn_middle now demo_turn 0 mx (Some 1))) = []"
proof -
  have plain: "\<not> ms_background_note (placeholder_message now r i c)" for r i c
    by (simp add: placeholder_message_def user_message_def)
  have ends: "rd_start (round_at demo_turn i) = i" "rd_end (round_at demo_turn i) = round_end demo_turn i" for i
    by (simp_all add: round_at_def)
  have slices: "round_end demo_turn (Suc 0) = 3" "round_end demo_turn 4 = 6" "round_end demo_turn 6 = 8"
    "slice 0 (Suc 0) demo_turn = [user_message (lit ''go'') 0]"
    "slice (Suc 0) 3 demo_turn = [demo_call ''a'', demo_result ''a'']"
    "slice 4 6 demo_turn = [demo_call ''b'', demo_result ''b'']"
    "slice 6 8 demo_turn = [demo_call ''c'', demo_result ''c'']" "drop 8 demo_turn = []"
    by (simp_all add: demo_turn_def round_end_def slice_def eval_nat_numeral)
  have "filter ms_background_note (fr_messages (fold_pass now demo_turn 0 (rounds_of demo_turn 0) k)) = []" for k
    by (simp add: fold_pass_messages demo_rounds segment_def ends slices plain)
  moreover obtain k where "k \<le> 1" "fold_loop now demo_turn 0 (rounds_of demo_turn 0) mx 1
      = fold_pass now demo_turn 0 (rounds_of demo_turn 0) k"
    using fold_loop_spec [of 1] by blast
  moreover have "fold_turn_middle now demo_turn 0 mx (Some 1) = fold_loop now demo_turn 0 (rounds_of demo_turn 0) mx 1"
    by (simp add: fold_turn_middle_def demo_rounds Let_def)
  ultimately have "fr_folded_rounds (fold_turn_middle now demo_turn 0 mx (Some 1)) \<noteq> 0"
    "filter ms_background_note (fr_messages (fold_turn_middle now demo_turn 0 mx (Some 1))) = []"
    by (simp_all add: fold_pass_count demo_rounds)
  then show ?thesis by (simp add: demo_turn_def)
qed

section \<open>Examples\<close>

lemma demo_long: "1 < length (rounds_of demo_turn 0)"
  by (simp add: demo_rounds)

lemma demo_paired: "paired {} demo_turn"
  by (simp add: demo_turn_def)

theorem turn_never_cut_witness:
  "let old = [user_message [] 0]; v = user_message [] 1; u = user_message [] 2; b = [demo_call ''a''] in
     protected_start None ((old @ v # []) @ u # b) 1
       = min (assistant_window_start ((old @ v # []) @ u # b) 1)
           (if turn_in_progress ((old @ v # []) @ u # b) then length old else length (old @ v # []))
     \<and> turn_in_progress ((old @ v # []) @ u # b)"
  using turn_never_cut [of None "user_message [] 1" "user_message [] 2" "[]" "[demo_call ''a'']" "[]" "[user_message [] 0]" 1]
  by (simp add: turn_aware_enabled_def turn_in_progress_def demo_call_def user_message_def is_round_def calls_of_def blocks_of_def
      is_turn_start_def)

theorem fold_keeps_most_witness:
  "\<exists>k\<le>2. fold_turn_middle 0 demo_turn 0 50 None = fold_pass 0 demo_turn 0 (rounds_of demo_turn 0) k
     \<and> fr_folded_rounds (fold_turn_middle 0 demo_turn 0 50 None) = 2 - k"
proof -
  have s: "fold_start demo_turn 0 = 0" by (simp add: fold_start_def)
  show ?thesis using fold_keeps_most [where ms = demo_turn and n = 0 and now = 0 and mx = 50 and keep = None] demo_long by (auto simp: s demo_rounds)
qed

theorem fold_stays_paired_witness: "paired {} (fr_messages (fold_turn_middle 0 demo_turn 0 50 None))"
  by (rule fold_stays_paired) (simp_all add: demo_paired, simp_all add: demo_turn_def)

theorem fold_returns_turn_only_witness:
  "fr_messages (fold_turn_middle 0 (user_message (lit ''earlier'') 0 # demo_turn) 1 50 None)
     = fr_messages (fold_turn_middle 0 demo_turn 0 50 None)"
  using fold_returns_turn_only [OF demo_long, of 0 "[user_message (lit ''earlier'') 0]" 50 None] by simp

end
