(* ===== verification/Compaction_Layers.thy ===== *)
theory Compaction_Layers
  imports Turn_Boundary
begin

text \<open>
  The cheap compaction layers of the agent: trimming, budgeting, compressing, snipping and dropping old tool results
  (\<^verbatim>\<open>packages/agent-runtime/src/session-manager.ts\<close>, \<^verbatim>\<open>packages/agent/src/microcompact.ts\<close>,
  \<^verbatim>\<open>packages/agent-runtime/src/compaction-drop.ts\<close> and \<^verbatim>\<open>compaction-variants.ts\<close>). Each maps a history to a history; the locale
  \<open>layer\<close> is the contract they share: only results outside the protected part change, and only their content.
\<close>

definition map_index :: "(nat \<Rightarrow> 'a \<Rightarrow> 'b) \<Rightarrow> 'a list \<Rightarrow> 'b list" where
  "map_index f xs = map (\<lambda>(i, x). f i x) (enumerate 0 xs)"

lemma length_map_index [simp]: "length (map_index f xs) = length xs"
  by (simp add: map_index_def)

lemma nth_map_index [simp]: "i < length xs \<Longrightarrow> map_index f xs ! i = f i (xs ! i)"
  by (simp add: map_index_def nth_enumerate_eq)

definition map_text :: "(utf16 \<Rightarrow> utf16) \<Rightarrow> message \<Rightarrow> message" where
  "map_text f m = m\<lparr>ms_content := C_Blocks (map (\<lambda>b. case b of B_Text s \<Rightarrow> B_Text (f s) | _ \<Rightarrow> b) (blocks_of m))\<rparr>"

section \<open>pruneToolResults\<close>

record pruning_config =
  pc_keep_last_turns :: int
  pc_soft_trim_max_chars :: int
  pc_hard_clear_after_turns :: int

definition default_pruning :: pruning_config where
  "default_pruning = \<lparr>pc_keep_last_turns = 4, pc_soft_trim_max_chars = 8000, pc_hard_clear_after_turns = 12\<rparr>"

text \<open>
  \<^verbatim>\<open>Math.floor(n * 0.7)\<close>. The double \<^verbatim>\<open>0.7\<close> is four tenths of \<open>2 ^ -53\<close> too small, so a product that should be a whole number
  comes out one unit in the last place short when it is beyond seven quarters of its power of two (90 * 0.7, say); the
  other factors used here, 0.4 and 0.2, are too large and by less than what rounding absorbs.
\<close>

fun pow2_below :: "nat \<Rightarrow> nat" where
  "pow2_below n = (if n < 2 then 1 else 2 * pow2_below (n div 2))"

declare pow2_below.simps [simp del]

definition seven_tenths :: "int \<Rightarrow> int" where
  "seven_tenths n =
     (let q = n * 7 div 10
      in if 0 < n \<and> n mod 10 = 0 \<and> 7 * int (pow2_below (nat q)) < 4 * q then q - 1 else q)"

lemma seven_tenths_le: "seven_tenths n \<le> n * 7 div 10"
  by (simp add: seven_tenths_def Let_def)

lemma seven_tenths_nonneg: "0 \<le> n \<Longrightarrow> 0 \<le> seven_tenths n"
proof -
  assume n: "0 \<le> n"
  have "0 \<le> n * 7 div 10 - 1" if "0 < n" "n mod 10 = 0"
  proof -
    have "10 \<le> n" using that by presburger
    then show ?thesis by simp
  qed
  moreover have "0 \<le> n * 7 div 10" using n by simp
  ultimately show ?thesis by (auto simp: seven_tenths_def Let_def)
qed

definition head_tail :: "int \<Rightarrow> int \<Rightarrow> string \<Rightarrow> utf16 \<Rightarrow> utf16" where
  "head_tail h t label s =
     substring_to h s @ [10, 10] @ lit ''[... '' @ dec_text (nat (int (length s) - h - t)) @ lit label @ [10, 10]
     @ substring_from (int (length s) - t) s"

definition soft_trim :: "int \<Rightarrow> utf16 \<Rightarrow> utf16" where
  "soft_trim mx s =
     (if int (length s) \<le> mx then s
      else let h = seven_tenths mx in head_tail h (mx - h - 50) '' chars trimmed ...]'' s)"

definition cleared_text :: "nat \<Rightarrow> utf16" where
  "cleared_text n = lit ''[Tool result cleared '' @ [8212] @ lit '' '' @ dec_text n @ lit '' chars]''"

definition prune_one :: "pruning_config \<Rightarrow> nat \<Rightarrow> nat option \<Rightarrow> nat \<Rightarrow> message \<Rightarrow> message" where
  "prune_one cfg protected hard_clear i m =
     (if \<not> is_result m then m
      else if protected \<le> i then m
      else if (case hard_clear of None \<Rightarrow> False | Some h \<Rightarrow> i < h) then set_text (cleared_text (text_chars m)) m
      else if int (text_chars m) > pc_soft_trim_max_chars cfg then map_text (soft_trim (pc_soft_trim_max_chars cfg)) m
      else m)"

definition prune_tool_results :: "utf16 option \<Rightarrow> pruning_config \<Rightarrow> message list \<Rightarrow> message list" where
  "prune_tool_results raw cfg ms =
     (let protected = protected_start raw ms (pc_keep_last_turns cfg);
          boundary = assistant_window_start ms (pc_hard_clear_after_turns cfg);
          hard_clear = (if 0 < boundary \<and> boundary < protected then Some boundary else None)
      in map_index (prune_one cfg protected hard_clear) ms)"

section \<open>applyToolResultBudget\<close>

definition budget_protected_turns :: int where
  "budget_protected_turns = 3"

definition budget_trim :: "int \<Rightarrow> utf16 \<Rightarrow> utf16" where
  "budget_trim per s =
     (if int (length s) \<le> per then s
      else
        let h = seven_tenths per; t = per - h - 60
        in if t \<le> 0 then substring_to per s @ [10] @ lit ''[... truncated ...]''
           else head_tail h t '' chars trimmed for budget ...]'' s)"

definition budget_eligible :: "utf16 set \<Rightarrow> nat \<Rightarrow> message list \<Rightarrow> nat list" where
  "budget_eligible frozen protected ms =
     filter (\<lambda>i. is_result (ms ! i) \<and> i < protected \<and> text_chars (ms ! i) \<noteq> 0 \<and> ms_call_id (ms ! i) \<notin> frozen)
       [0..<length ms]"

definition budget_total :: "nat \<Rightarrow> message list \<Rightarrow> nat" where
  "budget_total protected ms =
     sum_list (map (\<lambda>i. text_chars (ms ! i)) (filter (\<lambda>i. is_result (ms ! i) \<and> i < protected) [0..<length ms]))"

definition apply_tool_result_budget :: "utf16 option \<Rightarrow> int \<Rightarrow> utf16 set \<Rightarrow> message list \<Rightarrow> message list" where
  "apply_tool_result_budget raw budget_chars frozen ms =
     (let max_budget = budget_chars * 2 div 5;
          protected = protected_start raw ms budget_protected_turns;
          eligible = budget_eligible frozen protected ms
      in if int (budget_total protected ms) \<le> max_budget \<or> eligible = [] then ms
         else
           let per = max_budget div int (length eligible)
           in map_index (\<lambda>i m. if i \<in> set eligible then map_text (budget_trim per) m else m) ms)"

section \<open>microcompact\<close>

record microcompact_config =
  mc_threshold :: int
  mc_head_lines :: nat
  mc_tail_lines :: nat
  mc_keep_recent_turns :: int

definition default_microcompact :: microcompact_config where
  "default_microcompact = \<lparr>mc_threshold = 2000, mc_head_lines = 20, mc_tail_lines = 10, mc_keep_recent_turns = 3\<rparr>"

definition file_content_tools :: "utf16 list" where
  "file_content_tools = [lit ''read_file'']"

fun split_lines :: "utf16 \<Rightarrow> utf16 list" where
  "split_lines [] = [] # []"
| "split_lines (u # us) =
     (if u = 10 then [] # split_lines us
      else (case split_lines us of l # ls \<Rightarrow> (u # l) # ls | [] \<Rightarrow> [u] # []))"

fun find_tool_name_from :: "message list \<Rightarrow> utf16 \<Rightarrow> nat \<Rightarrow> utf16 option" where
  "find_tool_name_from ms call 0 = None"
| "find_tool_name_from ms call (Suc i) =
     (if \<not> is_assistant (ms ! i) then find_tool_name_from ms call i
      else map_option bc_name (find (\<lambda>b. is_call b \<and> bc_id b = call) (blocks_of (ms ! i))))"

definition find_tool_name :: "message list \<Rightarrow> nat \<Rightarrow> utf16 option" where
  "find_tool_name ms i = find_tool_name_from ms (ms_call_id (ms ! i)) i"

definition file_read_text :: "nat \<Rightarrow> nat \<Rightarrow> utf16" where
  "file_read_text lines chars =
     lit ''[File content read '' @ [8212] @ lit '' '' @ dec_text lines @ lit '' lines, '' @ dec_text chars @ lit '' chars]''"

definition compress_text :: "microcompact_config \<Rightarrow> utf16 \<Rightarrow> utf16" where
  "compress_text cfg s =
     (if int (length s) \<le> mc_threshold cfg then s
      else
        let lines = split_lines s
        in if length lines > mc_head_lines cfg + mc_tail_lines cfg + 1
           then join_with [10] (take (mc_head_lines cfg) lines) @ [10, 10] @ lit ''[... ''
             @ dec_text (length lines - mc_head_lines cfg - mc_tail_lines cfg) @ lit '' lines omitted ...]'' @ [10, 10]
             @ join_with [10] (slice_last (mc_tail_lines cfg) lines)
           else head_tail (seven_tenths (mc_threshold cfg)) (mc_threshold cfg div 5) '' chars omitted ...]'' s)"

definition saved_tokens :: "nat \<Rightarrow> nat \<Rightarrow> int" where
  "saved_tokens before after = (int before - int after + 3) div 4"

definition microcompact_one ::
    "microcompact_config \<Rightarrow> utf16 set \<Rightarrow> nat \<Rightarrow> message list \<Rightarrow> nat \<Rightarrow> message \<Rightarrow> message \<times> int" where
  "microcompact_one cfg frozen protected ms i m =
     (if \<not> is_result m then (m, 0)
      else if protected \<le> i then (m, 0)
      else if ms_call_id m \<in> frozen then (m, 0)
      else
        let texts = filter is_text (blocks_of m); chars = text_chars m
        in if (case find_tool_name ms i of None \<Rightarrow> False | Some n \<Rightarrow> n \<in> set file_content_tools)
           then
             (let s = file_read_text (sum_list (map (\<lambda>b. length (split_lines (block_text b))) texts)) chars
              in (set_text s m, saved_tokens chars (length s)))
           else if int chars \<le> mc_threshold cfg then (m, 0)
           else
             (map_text (compress_text cfg) m,
              sum_list (map (\<lambda>b. if int (length (block_text b)) \<le> mc_threshold cfg then 0
                                 else saved_tokens (length (block_text b)) (length (compress_text cfg (block_text b)))) texts)))"

definition microcompact :: "utf16 option \<Rightarrow> microcompact_config \<Rightarrow> utf16 set \<Rightarrow> message list \<Rightarrow> message list \<times> int" where
  "microcompact raw cfg frozen ms =
     (let protected = protected_start raw ms (mc_keep_recent_turns cfg);
          out = map_index (microcompact_one cfg frozen protected ms) ms
      in (map fst out, sum_list (map snd out)))"

section \<open>snipConsumedResults\<close>

definition consumed :: "message list \<Rightarrow> nat \<Rightarrow> bool" where
  "consumed ms i \<longleftrightarrow> list_ex is_assistant (drop (Suc i) ms)"

definition snipped_text :: "nat \<Rightarrow> utf16" where
  "snipped_text n =
     lit ''[Tool output processed '' @ [8212] @ lit '' '' @ dec_text n @ lit '' chars, see assistant response]''"

definition snip_one :: "utf16 set \<Rightarrow> nat \<Rightarrow> message list \<Rightarrow> nat \<Rightarrow> message \<Rightarrow> message" where
  "snip_one frozen protected ms i m =
     (if \<not> is_result m then m
      else if protected \<le> i then m
      else if ms_call_id m \<in> frozen then m
      else if \<not> consumed ms i then m
      else if text_chars m < 200 then m
      else set_text (snipped_text (text_chars m)) m)"

definition snip_consumed_results :: "utf16 option \<Rightarrow> int \<Rightarrow> utf16 set \<Rightarrow> message list \<Rightarrow> message list" where
  "snip_consumed_results raw turns frozen ms = map_index (snip_one frozen (protected_start raw ms turns) ms) ms"

section \<open>compaction-drop.ts and compaction-variants.ts\<close>

definition drop_min_result_chars :: nat where
  "drop_min_result_chars = 500"

record dropped_result =
  dr_tool_name :: utf16
  dr_call_id :: utf16
  dr_args :: utf16
  dr_chars :: nat

definition round_window_start :: "message list \<Rightarrow> int \<Rightarrow> nat" where
  "round_window_start ms n = (if n \<le> 0 then length ms else scan_back is_round ms (length ms) 0 n)"

definition dropped_result_stub :: "dropped_result \<Rightarrow> utf16" where
  "dropped_result_stub d =
     lit ''[Tool output dropped at compaction '' @ [8212] @ lit '' '' @ dr_tool_name d @ lit ''('' @ dr_args d @ lit '') returned ''
     @ locale_text (dr_chars d) @ lit '' chars. Re-run it to see the output.]''"

text \<open>\<^verbatim>\<open>callById\<close>: the last call with the id.\<close>

definition call_by_id :: "message list \<Rightarrow> utf16 \<Rightarrow> block option" where
  "call_by_id ms i = find (\<lambda>b. bc_id b = i) (rev (concat (map calls_of ms)))"

definition dropped_entry :: "message list \<Rightarrow> message \<Rightarrow> dropped_result" where
  "dropped_entry ms m =
     (let call = call_by_id ms (ms_call_id m);
          called = (case call of None \<Rightarrow> [] | Some b \<Rightarrow> bc_name b);
          args = (case Option.bind call bc_args of None \<Rightarrow> JObj [] | Some v \<Rightarrow> v)
      in \<lparr>dr_tool_name = (if ms_tool_name m \<noteq> [] then ms_tool_name m
                          else if called \<noteq> [] then called else lit ''tool''),
           dr_call_id = ms_call_id m, dr_args = compact_tool_args (Some args) 200, dr_chars = text_chars m\<rparr>)"

definition droppable :: "message list \<Rightarrow> nat \<Rightarrow> nat \<Rightarrow> bool" where
  "droppable ms protected i \<longleftrightarrow>
     is_result (ms ! i) \<and> i < protected \<and> \<not> ms_error (ms ! i) \<and> drop_min_result_chars \<le> text_chars (ms ! i) \<and> consumed ms i"

definition drop_tool_results_at_compaction :: "message list \<Rightarrow> int \<Rightarrow> message list \<times> dropped_result list" where
  "drop_tool_results_at_compaction ms turns =
     (let protected = round_window_start ms (max 0 turns)
      in (map_index (\<lambda>i m. if droppable ms protected i then set_text (dropped_result_stub (dropped_entry ms m)) m else m) ms,
          map (\<lambda>i. dropped_entry ms (ms ! i)) (filter (droppable ms protected) [0..<length ms])))"

datatype compaction_variant = Var_A | Var_B0 | Var_B1 | Var_B2 | Var_C | Var_D

fun variant_name :: "compaction_variant \<Rightarrow> string" where
  "variant_name Var_A = ''A''"
| "variant_name Var_B0 = ''B0''"
| "variant_name Var_B1 = ''B1''"
| "variant_name Var_B2 = ''B2''"
| "variant_name Var_C = ''C''"
| "variant_name Var_D = ''D''"

fun variant_protected_turns :: "compaction_variant \<Rightarrow> int option" where
  "variant_protected_turns Var_A = None"
| "variant_protected_turns Var_B0 = Some 0"
| "variant_protected_turns Var_B1 = Some 1"
| "variant_protected_turns Var_B2 = Some 2"
| "variant_protected_turns Var_C = None"
| "variant_protected_turns Var_D = Some 1"

definition ascii_upper :: "char \<Rightarrow> char" where
  "ascii_upper c = (let n = code_unit c in if 97 \<le> n \<and> n \<le> 122 then char_of (n - 32) else c)"

definition resolve_compaction_variant :: "string option \<Rightarrow> string option \<Rightarrow> compaction_variant" where
  "resolve_compaction_variant raw env =
     (let s = map ascii_upper (js_trim (case raw of Some r \<Rightarrow> r | None \<Rightarrow> (case env of Some e \<Rightarrow> e | None \<Rightarrow> [])))
      in case find (\<lambda>v. variant_name v = s) [Var_A, Var_B0, Var_B1, Var_B2, Var_C, Var_D] of
           Some v \<Rightarrow> v | None \<Rightarrow> Var_A)"

definition apply_variant_to_kept_tail :: "compaction_variant \<Rightarrow> message list \<Rightarrow> message list \<times> dropped_result list" where
  "apply_variant_to_kept_tail v kept =
     (case variant_protected_turns v of None \<Rightarrow> (kept, []) | Some n \<Rightarrow> drop_tool_results_at_compaction kept n)"

section \<open>The contract of a layer\<close>

text \<open>A message whose content may have been rewritten, if it is a tool result.\<close>

definition same_shape :: "message \<Rightarrow> message \<Rightarrow> bool" where
  "same_shape m m' \<longleftrightarrow> m' = m \<or> (is_result m \<and> (\<exists>c. m' = m\<lparr>ms_content := c\<rparr>))"

lemma same_shape_refl [simp]: "same_shape m m"
  by (simp add: same_shape_def)

lemma same_shape_set_text [simp]: "is_result m \<Longrightarrow> same_shape m (set_text s m)"
  by (auto simp: same_shape_def set_text_def)

lemma same_shape_map_text [simp]: "is_result m \<Longrightarrow> same_shape m (map_text f m)"
  by (auto simp: same_shape_def map_text_def)

lemma same_shape_trans: "same_shape a b \<Longrightarrow> same_shape b c \<Longrightarrow> same_shape a c"
  by (auto simp: same_shape_def)

lemma calls_of_result: "is_result m \<Longrightarrow> calls_of m = []"
  by (simp add: is_result_def calls_of_def)

lemma same_shape_kind:
  assumes "same_shape m m'"
  shows "is_result m' = is_result m" "ms_call_id m' = ms_call_id m" "calls_of m' = calls_of m"
    "is_round m' = is_round m" "is_assistant m' = is_assistant m" "is_turn_start m' = is_turn_start m" "ms_role m' = ms_role m"
    "ms_tool_name m' = ms_tool_name m" "ms_error m' = ms_error m"
  using assms by (auto simp: same_shape_def is_result_def calls_of_def is_round_def is_assistant_def is_turn_start_def)

lemma paired_shape: "list_all2 same_shape ms ms' \<Longrightarrow> paired ids ms' = paired ids ms"
proof (induction ms arbitrary: ms' ids)
  case (Cons m ms)
  then obtain m' ms'' where ms': "ms' = m' # ms''" "same_shape m m'" "list_all2 same_shape ms ms''"
    by (auto simp: list_all2_Cons1)
  then show ?case using Cons.IH [OF ms'(3)] by (simp add: same_shape_kind [OF ms'(2)])
qed simp

lemma scan_back_shape:
  assumes "list_all2 same_shape ms ms'" and "\<And>m m'. same_shape m m' \<Longrightarrow> p m' = p m" and "i \<le> length ms"
  shows "scan_back p ms' i seen n = scan_back p ms i seen n"
  using assms(3)
proof (induction i arbitrary: seen)
  case (Suc i)
  then have "p (ms' ! i) = p (ms ! i)" using assms(1,2) by (auto simp: list_all2_conv_all_nth)
  with Suc show ?case by simp
qed simp

lemma filter_shape:
  assumes "list_all2 same_shape ms ms'" and "\<And>m m'. same_shape m m' \<Longrightarrow> p m' = p m"
  shows "length (filter p ms') = length (filter p ms)"
  using assms(1) by (induction rule: list_all2_induct) (auto simp: assms(2))

lemma protected_start_shape:
  assumes "list_all2 same_shape ms ms'"
  shows "protected_start raw ms' n = protected_start raw ms n"
proof -
  have len: "length ms' = length ms" using assms by (simp add: list_all2_lengthD)
  have "assistant_window_start ms' n = assistant_window_start ms n"
    using scan_back_shape [OF assms, of is_assistant] by (simp add: assistant_window_start_def len same_shape_kind)
  moreover have "nth_turn_start ms' 2 = nth_turn_start ms 2" "last_turn_start ms' = last_turn_start ms"
    using scan_back_shape [OF assms, of is_turn_start]
    by (simp_all add: nth_turn_start_def last_turn_start_def last_start_scan len same_shape_kind)
  moreover have "turn_count ms' = turn_count ms"
    using filter_shape [OF assms, of is_turn_start] by (simp add: turn_count_def same_shape_kind)
  moreover have "turn_in_progress ms' = turn_in_progress ms"
  proof (cases "ms = []")
    case False
    then have ne: "ms' \<noteq> []" using len by auto
    then have "same_shape (last ms) (last ms')" using assms len False
      by (simp add: list_all2_conv_all_nth last_conv_nth)
    with False ne show ?thesis by (simp add: turn_in_progress_def same_shape_kind split: role.split)
  qed (use assms in \<open>simp add: turn_in_progress_def\<close>)
  ultimately show ?thesis by (simp add: protected_start_def Let_def)
qed

locale layer =
  fixes L :: "message list \<Rightarrow> message list"
    and touches :: "message list \<Rightarrow> nat \<Rightarrow> bool"
  assumes layer_shape: "list_all2 same_shape ms (L ms)"
    and layer_untouched: "i < length ms \<Longrightarrow> \<not> touches ms i \<Longrightarrow> L ms ! i = ms ! i"
begin

lemma layer_length [simp]: "length (L ms) = length ms"
  using layer_shape [of ms] by (simp add: list_all2_lengthD)

lemma layer_paired: "paired ids (L ms) = paired ids ms"
  by (rule paired_shape [OF layer_shape])

lemma layer_protected: "protected_start raw (L ms) n = protected_start raw ms n"
  by (rule protected_start_shape [OF layer_shape])

lemma layer_nth: "i < length ms \<Longrightarrow> same_shape (ms ! i) (L ms ! i)"
  using layer_shape [of ms] by (simp add: list_all2_conv_all_nth)

end

lemma map_index_layer:
  assumes "\<And>ms i. i < length ms \<Longrightarrow> same_shape (ms ! i) (f ms i (ms ! i))"
    and "\<And>ms i. i < length ms \<Longrightarrow> \<not> touches ms i \<Longrightarrow> f ms i (ms ! i) = ms ! i"
  shows "layer (\<lambda>ms. map_index (f ms) ms) touches"
  using assms by unfold_locales (simp_all add: list_all2_conv_all_nth)

definition old_result :: "utf16 option \<Rightarrow> int \<Rightarrow> utf16 set \<Rightarrow> message list \<Rightarrow> nat \<Rightarrow> bool" where
  "old_result raw n frozen ms i \<longleftrightarrow>
     is_result (ms ! i) \<and> i < protected_start raw ms n \<and> ms_call_id (ms ! i) \<notin> frozen"

interpretation prune: layer "prune_tool_results raw cfg" "old_result raw (pc_keep_last_turns cfg) {}" for raw cfg
  unfolding prune_tool_results_def [abs_def] Let_def
  by (rule map_index_layer) (auto simp: prune_one_def old_result_def)

lemma apply_tool_result_budget_nth:
  assumes "i < length ms"
  shows "apply_tool_result_budget raw b frozen ms ! i =
    (let protected = protected_start raw ms budget_protected_turns; eligible = budget_eligible frozen protected ms
     in if int (budget_total protected ms) \<le> b * 2 div 5 \<or> i \<notin> set eligible then ms ! i
        else map_text (budget_trim (b * 2 div 5 div int (length eligible))) (ms ! i))"
  using assms by (auto simp: apply_tool_result_budget_def Let_def)

lemma length_apply_tool_result_budget [simp]: "length (apply_tool_result_budget raw b frozen ms) = length ms"
  by (simp add: apply_tool_result_budget_def Let_def)

interpretation budget: layer "apply_tool_result_budget raw b frozen" "old_result raw budget_protected_turns frozen"
  for raw b frozen
  by unfold_locales
    (auto simp: list_all2_conv_all_nth apply_tool_result_budget_nth Let_def budget_eligible_def old_result_def)

lemma microcompact_nth:
  "i < length ms \<Longrightarrow> fst (microcompact raw cfg frozen ms) ! i
     = fst (microcompact_one cfg frozen (protected_start raw ms (mc_keep_recent_turns cfg)) ms i (ms ! i))"
  by (simp add: microcompact_def Let_def)

lemma microcompact_one_result:
  "fst (microcompact_one cfg frozen protected ms i m) = m \<or> (is_result m \<and> i < protected \<and> ms_call_id m \<notin> frozen)"
  by (simp add: microcompact_one_def)

lemma microcompact_one_shape: "same_shape m (fst (microcompact_one cfg frozen protected ms i m))"
  by (simp add: microcompact_one_def Let_def)

interpretation micro: layer "\<lambda>ms. fst (microcompact raw cfg frozen ms)" "old_result raw (mc_keep_recent_turns cfg) frozen"
  for raw cfg frozen
proof
  fix ms :: "message list" and i
  show "list_all2 same_shape ms (fst (microcompact raw cfg frozen ms))"
    by (auto simp: list_all2_conv_all_nth microcompact_nth microcompact_one_shape) (simp add: microcompact_def Let_def)
  assume "i < length ms" and "\<not> old_result raw (mc_keep_recent_turns cfg) frozen ms i"
  then show "fst (microcompact raw cfg frozen ms) ! i = ms ! i"
    using microcompact_one_result [of cfg frozen "protected_start raw ms (mc_keep_recent_turns cfg)" ms i "ms ! i"]
    by (auto simp: microcompact_nth old_result_def)
qed

interpretation snip: layer "snip_consumed_results raw n frozen" "old_result raw n frozen" for raw n frozen
  unfolding snip_consumed_results_def [abs_def] Let_def
  by (rule map_index_layer) (auto simp: snip_one_def old_result_def)

interpretation dropped: layer "\<lambda>ms. fst (drop_tool_results_at_compaction ms n)"
  "\<lambda>ms. droppable ms (round_window_start ms (max 0 n))" for n
  unfolding drop_tool_results_at_compaction_def [abs_def] Let_def fst_conv
  by (rule map_index_layer) (auto simp: droppable_def)

section \<open>Sizes\<close>

lemma dec_text_length: "n < 10 ^ k \<Longrightarrow> 0 < k \<Longrightarrow> length (dec_text n) \<le> k"
proof (induction n arbitrary: k rule: dec_text.induct)
  case (1 n)
  show ?case
  proof (cases "n < 10")
    case True
    then show ?thesis using 1(3) by (simp add: dec_text.simps)
  next
    case False
    then have "k \<noteq> 1" "k \<noteq> 0" using 1(2,3) by auto
    then obtain k' where k: "k = Suc k'" "0 < k'" by (cases k) auto
    have "n div 10 < 10 ^ k'" using 1(2) k by (simp add: less_mult_imp_div_less mult.commute)
    then have "length (dec_text (n div 10)) \<le> k'" using 1(1) False k by simp
    then show ?thesis using False k by (subst dec_text.simps) simp
  qed
qed

text \<open>Strings have fewer than \<open>2 ^ 53\<close> units, so a count has at most 16 digits.\<close>

lemma count_length: "length s < 2 ^ 53 \<Longrightarrow> length (dec_text (length s - d)) \<le> 16"
  by (rule dec_text_length) simp_all

lemma head_tail_length:
  assumes "0 \<le> h" and "0 \<le> t" and "h + t \<le> int (length s)" and "length s < 2 ^ 53"
  shows "int (length (head_tail h t label s)) \<le> h + t + int (length label) + 25"
proof -
  have "nat (int (length s) - h - t) = length s - nat (h + t)" using assms by simp
  then have "length (dec_text (nat (int (length s) - h - t))) \<le> 16" using count_length [OF assms(4), of "nat (h + t)"] by simp
  then show ?thesis using assms by (simp add: head_tail_def substring_to_def substring_from_def lit_def)
qed

lemma soft_trim_length:
  assumes "167 \<le> mx" and "length s < 2 ^ 53"
  shows "int (length (soft_trim mx s)) \<le> mx"
proof (cases "int (length s) \<le> mx")
  case False
  have "0 \<le> seven_tenths mx" "0 \<le> mx - seven_tenths mx - 50"
    using assms(1) seven_tenths_le [of mx] seven_tenths_nonneg [of mx] by simp_all
  then show ?thesis
    using False assms(2) head_tail_length [of "seven_tenths mx" "mx - seven_tenths mx - 50" s "'' chars trimmed ...]''"]
    by (simp add: soft_trim_def Let_def)
qed (simp add: soft_trim_def)

lemma budget_trim_length:
  assumes "204 \<le> per" and "length s < 2 ^ 53"
  shows "int (length (budget_trim per s)) \<le> per"
proof (cases "int (length s) \<le> per")
  case False
  have "0 \<le> seven_tenths per" "0 < per - seven_tenths per - 60"
    using assms(1) seven_tenths_le [of per] seven_tenths_nonneg [of per] by simp_all
  then show ?thesis
    using False assms(2) head_tail_length [of "seven_tenths per" "per - seven_tenths per - 60" s "'' chars trimmed for budget ...]''"]
    by (simp add: budget_trim_def Let_def)
qed (simp add: budget_trim_def)

lemma text_chars_map_text:
  "text_chars (map_text f m) = sum_list (map (\<lambda>b. length (f (block_text b))) (filter is_text (blocks_of m)))"
proof -
  have "sum_list (map (\<lambda>b. length (block_text (case b of B_Text s \<Rightarrow> B_Text (f s) | _ \<Rightarrow> b))) bs)
      = sum_list (map (\<lambda>b. length (f (block_text b))) (filter is_text bs))" for bs
    by (induction bs) (auto split: block.split)
  then show ?thesis by (simp add: text_chars_def map_text_def blocks_of_def comp_def)
qed

text \<open>The texts of a history are strings, and a result has one text.\<close>

definition plain_results :: "message list \<Rightarrow> bool" where
  "plain_results ms \<longleftrightarrow>
     list_all (\<lambda>m. length (filter is_text (blocks_of m)) \<le> 1 \<and> list_all (\<lambda>b. length (block_text b) < 2 ^ 53) (blocks_of m)) ms"

lemma map_text_one:
  assumes "length (filter is_text (blocks_of m)) \<le> 1" and "list_all (\<lambda>b. length (block_text b) < 2 ^ 53) (blocks_of m)"
    and "204 \<le> per"
  shows "int (text_chars (map_text (budget_trim per) m)) \<le> per"
proof (cases "filter is_text (blocks_of m)")
  case (Cons b bs)
  then have "bs = []" "b \<in> set (blocks_of m)" using assms(1) by (auto simp: filter_eq_Cons_iff)
  then show ?thesis using Cons assms(2,3) budget_trim_length [of per "block_text b"]
    by (simp add: text_chars_map_text list_all_iff)
qed (use assms(3) in \<open>simp add: text_chars_map_text\<close>)

text \<open>After \<^verbatim>\<open>applyToolResultBudget\<close> the old results together fit their share of the context, when none is frozen
  and a result's share is at least 204 characters (below that the marker itself may not fit).\<close>

theorem budget_fits:
  fixes b :: int and raw :: "utf16 option" and ms :: "message list"
  defines "protected \<equiv> protected_start raw ms budget_protected_turns"
  assumes "plain_results ms"
    and share: "204 \<le> b * 2 div 5 div int (length (budget_eligible {} protected ms))"
  shows "int (budget_total protected (apply_tool_result_budget raw b {} ms)) \<le> b * 2 div 5"
proof (cases "int (budget_total protected ms) \<le> b * 2 div 5")
  case True
  then show ?thesis by (simp add: apply_tool_result_budget_def protected_def [symmetric] Let_def)
next
  case False
  let ?out = "apply_tool_result_budget raw b {} ms" and ?el = "budget_eligible {} protected ms"
  let ?per = "b * 2 div 5 div int (length ?el)"
  have out: "?out ! i = (if i \<in> set ?el then map_text (budget_trim ?per) (ms ! i) else ms ! i)" if "i < length ms" for i
    using that False by (simp add: apply_tool_result_budget_nth protected_def [symmetric] Let_def)
  have res: "is_result (?out ! i) = is_result (ms ! i)" if "i < length ms" for i
    using budget.layer_nth [OF that, of raw b "{}"] by (simp add: same_shape_kind)
  have small: "int (text_chars (?out ! i)) \<le> (if i \<in> set ?el then ?per else 0)"
    if "i < length ms" "is_result (ms ! i)" "i < protected" for i
  proof (cases "i \<in> set ?el")
    case True
    have "int (text_chars (map_text (budget_trim ?per) (ms ! i))) \<le> ?per"
      using assms(2) that(1) share by (intro map_text_one) (auto simp: plain_results_def list_all_length)
    then show ?thesis using True by (simp add: out [OF that(1)])
  next
    case False
    then have "text_chars (ms ! i) = 0" using that by (auto simp: budget_eligible_def)
    then show ?thesis using False by (simp add: out [OF that(1)])
  qed
  let ?old = "filter (\<lambda>i. is_result (ms ! i) \<and> i < protected) [0..<length ms]"
  have olds: "filter (\<lambda>i. is_result (?out ! i) \<and> i < protected) [0..<length ms] = ?old"
    by (rule filter_cong) (auto simp: res)
  have "int (budget_total protected ?out) = (\<Sum>i\<leftarrow>?old. int (text_chars (?out ! i)))"
    by (simp add: budget_total_def olds comp_def sum_list_sum_nth)
  also have "\<dots> \<le> (\<Sum>i\<leftarrow>?old. if i \<in> set ?el then ?per else 0)"
    by (rule sum_list_mono) (auto simp: small)
  also have "\<dots> = (\<Sum>i\<leftarrow>?el. ?per)"
  proof -
    have el: "filter (\<lambda>i. i \<in> set ?el) ?old = ?el" by (auto simp: budget_eligible_def intro!: filter_cong)
    show ?thesis using sum_list_map_filter' [of "\<lambda>i. ?per" "\<lambda>i. i \<in> set ?el" ?old] unfolding el by (rule sym)
  qed
  also have "\<dots> = int (length ?el) * ?per" by (simp add: sum_list_triv)
  also have "\<dots> \<le> b * 2 div 5"
  proof -
    have "0 < int (length ?el)" using share by (cases "?el") simp_all
    then show ?thesis
      using pos_mod_sign [of "int (length ?el)" "b * 2 div 5"] mult_div_mod_eq [of "int (length ?el)" "b * 2 div 5"] by linarith
  qed
  finally show ?thesis .
qed

definition long_result :: message where
  "long_result = (user_message [] 0)\<lparr>ms_role := Tool_Result, ms_content := C_Blocks [B_Text (replicate 300 97)]\<rparr>"

theorem budget_fits_witness:
  "int (budget_total 1 (apply_tool_result_budget (Some (lit ''0'')) 510 {}
     [long_result, (user_message [] 0)\<lparr>ms_role := Assistant\<rparr>, (user_message [] 0)\<lparr>ms_role := Assistant\<rparr>,
      (user_message [] 0)\<lparr>ms_role := Assistant\<rparr>])) \<le> 204"
proof -
  let ?a = "(user_message [] 0)\<lparr>ms_role := Assistant\<rparr>"
  let ?ms = "[long_result, ?a, ?a, ?a]"
  have p: "protected_start (Some (lit ''0'')) ?ms budget_protected_turns = 1"
    by (simp add: protected_start_def turn_aware_enabled_def assistant_window_start_def budget_protected_turns_def
        is_assistant_def long_result_def user_message_def eval_nat_numeral)
  have plain: "plain_results ?ms"
    by (simp add: plain_results_def long_result_def blocks_of_def user_message_def)
  have "budget_eligible {} 1 ?ms = [0]"
    by (simp add: budget_eligible_def upt_rec eval_nat_numeral long_result_def user_message_def is_result_def text_chars_def
        blocks_of_def)
  then show ?thesis using budget_fits [OF plain, of 510 "Some (lit ''0'')", unfolded p] by simp
qed

end
