(* ===== verification/Stable_Compaction.thy ===== *)
theory Stable_Compaction
  imports Compaction_Layers
begin

text \<open>
  \<^verbatim>\<open>packages/agent-runtime/src/stable-compaction.ts\<close>: the layers run before every model call, and what they decide about
  a tool result the first time it is sent is recorded, so that the prompt prefix stays the same and the provider's
  cache stays valid. The file states the invariant with a proof sketch; the claims below prove it for the text of a
  result, say what the checkpoint may still change, and show that it fails for the content as a whole. The
  statistics returned for logging are left out, but for the number of cleared results.
\<close>

record replacement_state =
  rs_replacements :: "utf16 \<rightharpoonup> utf16"
  rs_preserved :: "utf16 set"

definition create_replacement_state :: replacement_state where
  "create_replacement_state = \<lparr>rs_replacements = Map.empty, rs_preserved = {}\<rparr>"

definition protected_turns :: int where
  "protected_turns = 3"

definition apply_known_replacements :: "replacement_state \<Rightarrow> message list \<Rightarrow> message list" where
  "apply_known_replacements st ms =
     map (\<lambda>m. if \<not> is_result m then m
              else (case rs_replacements st (ms_call_id m) of None \<Rightarrow> m | Some s \<Rightarrow> set_text s m)) ms"

definition frozen_ids :: "replacement_state \<Rightarrow> utf16 set" where
  "frozen_ids st = dom (rs_replacements st) \<union> rs_preserved st"

text \<open>The three layers, with the decided results frozen.\<close>

definition run_layers :: "utf16 option \<Rightarrow> int \<Rightarrow> replacement_state \<Rightarrow> message list \<Rightarrow> message list" where
  "run_layers raw budget_chars st ms =
     (let frozen = frozen_ids st;
          step1 = apply_tool_result_budget raw budget_chars frozen (apply_known_replacements st ms);
          step2 = fst (microcompact raw default_microcompact frozen step1)
      in snip_consumed_results raw protected_turns frozen step2)"

definition record_decision :: "message \<times> message \<Rightarrow> replacement_state \<Rightarrow> replacement_state" where
  "record_decision = (\<lambda>(orig, final) st.
     if \<not> is_result orig then st
     else if ms_call_id orig \<in> frozen_ids st then st
     else if text_of orig \<noteq> text_of final
     then st\<lparr>rs_replacements := (rs_replacements st)(ms_call_id orig \<mapsto> text_of final)\<rparr>
     else st\<lparr>rs_preserved := insert (ms_call_id orig) (rs_preserved st)\<rparr>)"

definition record_decisions :: "message list \<Rightarrow> message list \<Rightarrow> replacement_state \<Rightarrow> replacement_state" where
  "record_decisions origs finals st = fold record_decision (zip origs finals) st"

section \<open>The checkpoint\<close>

definition checkpoint_min_result_chars :: nat where
  "checkpoint_min_result_chars = 500"

definition checkpoint_text :: "message \<Rightarrow> utf16" where
  "checkpoint_text m =
     lit ''[Earlier '' @ (if ms_tool_name m \<noteq> [] then ms_tool_name m else lit ''tool'')
     @ lit '' result cleared to keep the context small ('' @ dec_text (text_chars m)
     @ lit '' chars). Re-run the tool if you need this output again.]''"

text \<open>This module's own estimate.\<close>

fun arg_chars :: "block \<Rightarrow> nat" where
  "arg_chars (B_Call i n a) = length (json_text (case a of None \<Rightarrow> JObj [] | Some v \<Rightarrow> v)) + length n"
| "arg_chars b = 0"

definition stable_message_tokens :: "message \<Rightarrow> nat" where
  "stable_message_tokens m =
     (case ms_content m of
        C_String s \<Rightarrow> ceil_quarter (length s)
      | C_Blocks bs \<Rightarrow>
          sum_list (map image_tokens bs) + ceil_quarter (sum_list (map (\<lambda>b. block_chars b + arg_chars b) bs)))"

definition worth_clearing :: "message \<Rightarrow> bool" where
  "worth_clearing m \<longleftrightarrow>
     is_result m
     \<and> \<not> (text_chars m \<le> checkpoint_min_result_chars \<and> stable_message_tokens m * 4 \<le> checkpoint_min_result_chars)"

record checkpoint =
  ck_messages :: "message list"
  ck_state :: replacement_state
  ck_total :: int
  ck_cleared :: nat

text \<open>One round of the loop; the target is half the budget.\<close>

definition checkpoint_step :: "int \<Rightarrow> nat \<Rightarrow> checkpoint \<Rightarrow> checkpoint" where
  "checkpoint_step budget i c =
     (let m = ck_messages c ! i; m' = set_text (checkpoint_text m) m; st = ck_state c
      in if \<not> 2 * ck_total c > budget then c
         else if \<not> worth_clearing m then c
         else
           \<lparr>ck_messages = (ck_messages c)[i := m'],
             ck_state = st\<lparr>rs_replacements := (rs_replacements st)(ms_call_id m \<mapsto> checkpoint_text m),
                           rs_preserved := rs_preserved st - {ms_call_id m}\<rparr>,
             ck_total = ck_total c - (int (stable_message_tokens m) - int (stable_message_tokens m')),
             ck_cleared = Suc (ck_cleared c)\<rparr>)"

definition checkpoint_old_tool_results :: "utf16 option \<Rightarrow> message list \<Rightarrow> replacement_state \<Rightarrow> int \<Rightarrow> checkpoint" where
  "checkpoint_old_tool_results raw ms st budget =
     (let all = int (sum_list (map stable_message_tokens ms));
          c = \<lparr>ck_messages = ms, ck_state = st, ck_total = all, ck_cleared = 0\<rparr>
      in if all \<le> budget then c
         else fold (checkpoint_step budget) [0..<protected_start raw ms protected_turns] c)"

section \<open>The transform\<close>

definition stable_transform_context ::
    "utf16 option \<Rightarrow> int \<Rightarrow> int option \<Rightarrow> replacement_state \<Rightarrow> message list \<Rightarrow> message list \<times> replacement_state \<times> nat" where
  "stable_transform_context raw budget_chars budget_tokens st ms =
     (let step3 = run_layers raw budget_chars st ms; st' = record_decisions ms step3 st
      in case budget_tokens of
           None \<Rightarrow> (step3, st', 0)
         | Some b \<Rightarrow>
             if b = 0 then (step3, st', 0)
             else let c = checkpoint_old_tool_results raw step3 st' b in (ck_messages c, ck_state c, ck_cleared c))"

definition default_inloop_budget_tokens :: int where
  "default_inloop_budget_tokens = 235000"

text \<open>\<open>env\<close> is the finite number \<^verbatim>\<open>AGENT_INLOOP_CONTEXT_BUDGET_TOKENS\<close> reads as.\<close>

definition resolve_inloop_budget_tokens :: "rat option \<Rightarrow> int option \<Rightarrow> int" where
  "resolve_inloop_budget_tokens env cap =
     (let configured = (case env of Some q \<Rightarrow> if q > 0 then \<lfloor>q\<rfloor> else default_inloop_budget_tokens
                                  | None \<Rightarrow> default_inloop_budget_tokens)
      in case cap of Some c \<Rightarrow> if c > 0 then min configured c else configured | None \<Rightarrow> configured)"

definition prune_replacement_state :: "replacement_state \<Rightarrow> message list \<Rightarrow> replacement_state" where
  "prune_replacement_state st ms =
     (let live = set (map ms_call_id (filter is_result ms))
      in \<lparr>rs_replacements = rs_replacements st |` live, rs_preserved = rs_preserved st \<inter> live\<rparr>)"

section \<open>Shape\<close>

lemma apply_known_shape: "list_all2 same_shape ms (apply_known_replacements st ms)"
  by (auto simp: apply_known_replacements_def list_all2_conv_all_nth split: option.split)

lemma shape_trans: "list_all2 same_shape a b \<Longrightarrow> list_all2 same_shape b c \<Longrightarrow> list_all2 same_shape a c"
  by (rule list_all2_trans [OF same_shape_trans])

lemma run_layers_shape: "list_all2 same_shape ms (run_layers raw b st ms)"
  unfolding run_layers_def Let_def
  by (intro shape_trans [OF _ snip.layer_shape] shape_trans [OF _ micro.layer_shape] shape_trans [OF _ budget.layer_shape]
      apply_known_shape)

lemma shape_nth: "list_all2 same_shape ms ms' \<Longrightarrow> i < length ms \<Longrightarrow> same_shape (ms ! i) (ms' ! i)"
  by (simp add: list_all2_conv_all_nth)

lemma length_run_layers [simp]: "length (run_layers raw b st ms) = length ms"
  using run_layers_shape list_all2_lengthD by metis

lemma apply_known_nth:
  "i < length ms \<Longrightarrow> is_result (ms ! i) \<Longrightarrow> apply_known_replacements st ms ! i
     = (case rs_replacements st (ms_call_id (ms ! i)) of None \<Rightarrow> ms ! i | Some s \<Rightarrow> set_text s (ms ! i))"
  by (simp add: apply_known_replacements_def)

lemma length_apply_known [simp]: "length (apply_known_replacements st ms) = length ms"
  by (simp add: apply_known_replacements_def)

text \<open>The layers leave a decided result as the replay put it.\<close>

lemma run_layers_frozen:
  assumes "i < length ms" and "ms_call_id (ms ! i) \<in> frozen_ids st"
  shows "run_layers raw b st ms ! i = apply_known_replacements st ms ! i"
proof -
  let ?k = "apply_known_replacements st ms" and ?f = "frozen_ids st"
  let ?s1 = "apply_tool_result_budget raw b ?f ?k"
  let ?s2 = "fst (microcompact raw default_microcompact ?f ?s1)"
  have k: "ms_call_id (?k ! i) \<in> ?f"
    using same_shape_kind(2) [OF shape_nth [OF apply_known_shape assms(1), of st]] assms(2) by simp
  have s1: "?s1 ! i = ?k ! i" using assms(1) k by (simp add: budget.layer_untouched old_result_def)
  have s2: "?s2 ! i = ?s1 ! i" using assms(1) k s1 by (simp add: micro.layer_untouched old_result_def)
  have "snip_consumed_results raw protected_turns ?f ?s2 ! i = ?s2 ! i"
    using assms(1) k s1 s2 by (simp add: snip.layer_untouched old_result_def)
  then show ?thesis using s1 s2 by (simp add: run_layers_def Let_def)
qed

section \<open>Decisions\<close>

text \<open>What is sent for the result of a call whose own text is \<open>orig\<close>.\<close>

definition decided :: "replacement_state \<Rightarrow> utf16 \<Rightarrow> utf16 \<Rightarrow> utf16 \<Rightarrow> bool" where
  "decided st call orig sent \<longleftrightarrow>
     (case rs_replacements st call of Some s \<Rightarrow> sent = s | None \<Rightarrow> call \<in> rs_preserved st \<and> sent = orig)"

lemma decided_frozen: "decided st call orig sent \<Longrightarrow> call \<in> frozen_ids st"
  by (auto simp: decided_def frozen_ids_def split: option.splits)

lemma record_decision_keeps:
  assumes "call \<in> frozen_ids st"
  shows "rs_replacements (record_decision p st) call = rs_replacements st call"
    "call \<in> rs_preserved (record_decision p st) \<longleftrightarrow> call \<in> rs_preserved st" "call \<in> frozen_ids (record_decision p st)"
  using assms by (auto simp: record_decision_def frozen_ids_def split: prod.split)

lemma record_fold_keeps:
  assumes "call \<in> frozen_ids st"
  shows "rs_replacements (fold record_decision ps st) call = rs_replacements st call
    \<and> (call \<in> rs_preserved (fold record_decision ps st) \<longleftrightarrow> call \<in> rs_preserved st)"
  using assms by (induction ps arbitrary: st) (simp_all add: record_decision_keeps)

lemma record_keeps_decided:
  assumes "decided st call orig sent"
  shows "decided (record_decisions ms ms' st) call orig sent"
  using assms record_fold_keeps [OF decided_frozen [OF assms], of "zip ms ms'"]
  by (simp add: decided_def record_decisions_def split: option.splits)

text \<open>The results of one call in a history.\<close>

definition results_for :: "utf16 \<Rightarrow> message list \<Rightarrow> nat set" where
  "results_for call ms = {i. i < length ms \<and> is_result (ms ! i) \<and> ms_call_id (ms ! i) = call}"

lemma results_for_shape: "list_all2 same_shape ms ms' \<Longrightarrow> results_for call ms' = results_for call ms"
  by (auto simp: results_for_def list_all2_conv_all_nth same_shape_kind)

text \<open>Recording one's first sight of a call with a single result.\<close>

lemma record_first_sight:
  assumes "call \<notin> frozen_ids st" and "length finals = length origs" and "results_for call origs = {i}"
  shows "decided (record_decisions origs finals st) call (text_of (origs ! i)) (text_of (finals ! i))"
proof -
  have i: "i < length origs" "is_result (origs ! i)" "ms_call_id (origs ! i) = call"
    using assms(3) by (auto simp: results_for_def)
  let ?z = "zip origs finals"
  have split: "?z = take i ?z @ (origs ! i, finals ! i) # drop (Suc i) ?z"
    using i assms(2) id_take_nth_drop [of i ?z] by simp
  have other: "fst p \<in> set origs \<and> \<not> (is_result (fst p) \<and> ms_call_id (fst p) = call)" if p: "p \<in> set (take i ?z)" for p
  proof -
    obtain j where j: "j < i" "p = ?z ! j" using p by (auto simp: in_set_conv_nth simp del: nth_zip)
    then have "p = (origs ! j, finals ! j)" "j < length origs" "j \<notin> results_for call origs" using i(1) assms(2,3) by simp_all
    then show ?thesis by (simp add: results_for_def)
  qed
  have before: "call \<notin> frozen_ids (fold record_decision ps st')"
    if "\<forall>p\<in>set ps. \<not> (is_result (fst p) \<and> ms_call_id (fst p) = call)" "call \<notin> frozen_ids st'" for ps st'
    using that
  proof (induction ps arbitrary: st')
    case (Cons p ps)
    have "call \<notin> frozen_ids (record_decision p st')"
      using Cons.prems by (auto simp: record_decision_def frozen_ids_def split: prod.splits)
    with Cons show ?case by simp
  qed simp
  let ?st1 = "fold record_decision (take i ?z) st"
  have "call \<notin> frozen_ids ?st1" using before [of "take i ?z" st] other assms(1) by blast
  then have "decided (record_decision (origs ! i, finals ! i) ?st1) call (text_of (origs ! i)) (text_of (finals ! i))"
    using i by (auto simp: record_decision_def decided_def frozen_ids_def split: option.split)
  then have "decided (fold record_decision (drop (Suc i) ?z) (record_decision (origs ! i, finals ! i) ?st1)) call
      (text_of (origs ! i)) (text_of (finals ! i))"
    using record_fold_keeps [OF decided_frozen] by (simp add: decided_def split: option.splits)
  then show ?thesis unfolding record_decisions_def by (subst split) simp
qed

lemma sent_if_decided:
  assumes "decided st call orig sent" and "i \<in> results_for call ms" and "text_of (ms ! i) = orig"
  shows "text_of (run_layers raw b st ms ! i) = sent"
proof -
  have i: "i < length ms" "is_result (ms ! i)" "ms_call_id (ms ! i) = call" using assms(2) by (auto simp: results_for_def)
  have "run_layers raw b st ms ! i = apply_known_replacements st ms ! i"
    using decided_frozen [OF assms(1)] i by (intro run_layers_frozen) simp_all
  then show ?thesis using assms(1,3) i by (auto simp: apply_known_nth decided_def split: option.splits)
qed

section \<open>The checkpoint and decisions\<close>

lemma checkpoint_fold_shape:
  assumes "list_all2 same_shape ms (ck_messages c)"
  shows "list_all2 same_shape ms (ck_messages (fold (checkpoint_step b) is c))"
  using assms
proof (induction "is" arbitrary: c)
  case (Cons i "is")
  have "list_all2 same_shape ms (ck_messages (checkpoint_step b i c))"
  proof (cases "i < length (ck_messages c)")
    case True
    then show ?thesis using Cons.prems
      by (auto simp: checkpoint_step_def Let_def worth_clearing_def list_all2_conv_all_nth nth_list_update
          intro: same_shape_trans [OF _ same_shape_set_text])
  next
    case False
    then show ?thesis using Cons.prems by (simp add: checkpoint_step_def Let_def list_update_beyond)
  qed
  then show ?case using Cons.IH by simp
qed simp

text \<open>Of a call with one result, the checkpoint records what it sends.\<close>

lemma checkpoint_step_decided:
  assumes "results_for call (ck_messages c) = {i}" and "decided (ck_state c) call orig (text_of (ck_messages c ! i))"
    and "j < length (ck_messages c)"
  shows "decided (ck_state (checkpoint_step b j c)) call orig (text_of (ck_messages (checkpoint_step b j c) ! i))"
proof (cases "j = i")
  case True
  have "ms_call_id (ck_messages c ! i) = call" using assms(1) by (auto simp: results_for_def)
  then show ?thesis using assms(2,3) True
    by (simp add: checkpoint_step_def Let_def decided_def)
next
  case False
  have "ms_call_id (ck_messages c ! j) \<noteq> call" if "worth_clearing (ck_messages c ! j)"
    using that assms(1,3) False by (auto simp: results_for_def worth_clearing_def)
  then show ?thesis using assms(2) False by (auto simp: checkpoint_step_def Let_def decided_def split: option.splits)
qed

lemma checkpoint_step_length [simp]: "length (ck_messages (checkpoint_step b j c)) = length (ck_messages c)"
  by (simp add: checkpoint_step_def Let_def)

lemma checkpoint_fold_decided:
  assumes "results_for call (ck_messages c) = {i}" and "decided (ck_state c) call orig (text_of (ck_messages c ! i))"
    and "\<forall>j\<in>set is. j < length (ck_messages c)"
  shows "decided (ck_state (fold (checkpoint_step b) is c)) call orig (text_of (ck_messages (fold (checkpoint_step b) is c) ! i))"
  using assms
proof (induction "is" arbitrary: c)
  case (Cons j "is")
  let ?c = "checkpoint_step b j c"
  have "list_all2 same_shape (ck_messages c) (ck_messages (fold (checkpoint_step b) [j] c))"
    by (rule checkpoint_fold_shape) (simp add: list.rel_refl)
  then have "results_for call (ck_messages ?c) = {i}" using results_for_shape Cons.prems(1) by simp
  moreover have "decided (ck_state ?c) call orig (text_of (ck_messages ?c ! i))"
    using Cons.prems by (intro checkpoint_step_decided) simp_all
  ultimately show ?case using Cons.IH [of ?c] Cons.prems(3) by simp
qed simp

text \<open>A short text is never worth clearing.\<close>

lemma short_not_worth:
  assumes "length s \<le> 500"
  shows "\<not> worth_clearing (set_text s m)"
proof -
  have "(length s + 3) div 4 * 4 \<le> 500"
  proof -
    have "(length s + 3) div 4 \<le> 125" using assms by simp
    then show ?thesis by linarith
  qed
  then show ?thesis using assms
    by (simp add: worth_clearing_def checkpoint_min_result_chars_def stable_message_tokens_def set_text_def text_chars_def
        blocks_of_def ceil_quarter_def)
qed

section \<open>What the model is sent stays the same\<close>

abbreviation sent_messages :: "message list \<times> replacement_state \<times> nat \<Rightarrow> message list" where
  "sent_messages r \<equiv> fst r"

abbreviation next_state :: "message list \<times> replacement_state \<times> nat \<Rightarrow> replacement_state" where
  "next_state r \<equiv> fst (snd r)"

lemma stable_cases:
  obtains "stable_transform_context raw b opt st ms
      = (run_layers raw b st ms, record_decisions ms (run_layers raw b st ms) st, 0)"
  | k c where "stable_transform_context raw b opt st ms = (ck_messages c, ck_state c, ck_cleared c)"
    "c = checkpoint_old_tool_results raw (run_layers raw b st ms) (record_decisions ms (run_layers raw b st ms) st) k"
proof (cases "opt = None \<or> opt = Some 0")
  case True
  then show thesis by (intro that(1)) (auto simp: stable_transform_context_def Let_def)
next
  case False
  then obtain k where k: "opt = Some k" "k \<noteq> 0" by auto
  show thesis
    by (rule that(2) [of "checkpoint_old_tool_results raw (run_layers raw b st ms) (record_decisions ms (run_layers raw b st ms) st) k" k])
      (simp_all add: k stable_transform_context_def Let_def)
qed

lemma protected_start_le: "protected_start raw ms n \<le> length ms"
  using scan_back_le [of is_assistant ms "length ms" 0 n]
  by (auto simp: protected_start_def Let_def assistant_window_start_def min_def split: if_splits)

lemma stable_shape: "list_all2 same_shape ms (sent_messages (stable_transform_context raw b opt st ms))"
proof (rule stable_cases [where raw = raw and b = b and opt = opt and st = st and ms = ms], goal_cases)
  case 1
  then show ?case by (simp add: run_layers_shape)
next
  case (2 k c)
  have "list_all2 same_shape (run_layers raw b st ms) (ck_messages c)"
    unfolding 2(2) checkpoint_old_tool_results_def Let_def
    by (split if_split, intro conjI impI checkpoint_fold_shape) (simp_all add: list.rel_refl)
  then show ?case using shape_trans [OF run_layers_shape] by (simp add: 2(1))
qed

lemma stable_decides:
  assumes one: "results_for call ms = {i}"
  shows "decided (next_state (stable_transform_context raw b opt st ms)) call (text_of (ms ! i))
    (text_of (sent_messages (stable_transform_context raw b opt st ms) ! i))"
proof -
  let ?s3 = "run_layers raw b st ms" and ?st = "record_decisions ms (run_layers raw b st ms) st"
  have i: "i \<in> results_for call ms" using one by simp
  have rec: "decided ?st call (text_of (ms ! i)) (text_of (?s3 ! i))"
  proof (cases "call \<in> frozen_ids st")
    case True
    then obtain sent where d: "decided st call (text_of (ms ! i)) sent"
      by (cases "rs_replacements st call") (auto simp: decided_def frozen_ids_def)
    then have "text_of (?s3 ! i) = sent" using i by (intro sent_if_decided) simp_all
    then show ?thesis using d by (simp add: record_keeps_decided)
  next
    case False
    then show ?thesis using one by (intro record_first_sight) simp_all
  qed
  show ?thesis
  proof (rule stable_cases [where raw = raw and b = b and opt = opt and st = st and ms = ms], goal_cases)
    case 1
    then show ?case using rec by simp
  next
    case (2 k c)
    have one': "results_for call ?s3 = {i}" using one results_for_shape [OF run_layers_shape] by metis
    have "decided (ck_state c) call (text_of (ms ! i)) (text_of (ck_messages c ! i))"
    proof (cases "int (sum_list (map stable_message_tokens ?s3)) \<le> k")
      case True
      then show ?thesis using rec by (simp add: 2(2) checkpoint_old_tool_results_def Let_def)
    next
      case False
      have "\<forall>j\<in>set [0..<protected_start raw ?s3 protected_turns]. j < length ?s3"
        using protected_start_le [of raw ?s3 protected_turns] by auto
      then show ?thesis using False rec one'
        by (simp add: 2(2) checkpoint_old_tool_results_def Let_def checkpoint_fold_decided)
    qed
    then show ?case using 2(1) by simp
  qed
qed

text \<open>The calls of a session after the first sight: the history sent, the character budget and the token budget.\<close>

definition after_all :: "utf16 option \<Rightarrow> (message list \<times> int \<times> int option) list \<Rightarrow> replacement_state \<Rightarrow> replacement_state" where
  "after_all raw calls st = fold (\<lambda>(m, b, opt) s. next_state (stable_transform_context raw b opt s m)) calls st"

abbreviation cleared_results :: "message list \<times> replacement_state \<times> nat \<Rightarrow> nat" where
  "cleared_results r \<equiv> snd (snd r)"

fun no_checkpoint :: "utf16 option \<Rightarrow> (message list \<times> int \<times> int option) list \<Rightarrow> replacement_state \<Rightarrow> bool" where
  "no_checkpoint raw [] st = True"
| "no_checkpoint raw ((m, b, opt) # calls) st =
     (let r = stable_transform_context raw b opt st m in cleared_results r = 0 \<and> no_checkpoint raw calls (next_state r))"

definition placeholder_for :: "utf16 \<Rightarrow> utf16 \<Rightarrow> bool" where
  "placeholder_for call s \<longleftrightarrow> (\<exists>m. is_result m \<and> ms_call_id m = call \<and> s = checkpoint_text m)"

definition settled :: "replacement_state \<Rightarrow> utf16 \<Rightarrow> utf16 \<Rightarrow> utf16 \<Rightarrow> bool" where
  "settled st call orig sent \<longleftrightarrow>
     decided st call orig sent \<or> (\<exists>s. rs_replacements st call = Some s \<and> placeholder_for call s)"

lemma settled_frozen: "settled st call orig sent \<Longrightarrow> call \<in> frozen_ids st"
  by (auto simp: settled_def frozen_ids_def dest: decided_frozen [unfolded frozen_ids_def])

lemma record_keeps_settled: "settled st call orig sent \<Longrightarrow> settled (record_decisions ms ms' st) call orig sent"
  using record_keeps_decided [of st call orig sent ms ms'] record_fold_keeps [OF settled_frozen, of st call orig sent "zip ms ms'"]
  by (auto simp: settled_def record_decisions_def)

lemma checkpoint_step_settled:
  assumes "settled (ck_state c) call orig sent"
  shows "settled (ck_state (checkpoint_step b i c)) call orig sent"
  using assms
  by (auto simp: checkpoint_step_def Let_def settled_def decided_def placeholder_for_def worth_clearing_def split: option.splits)

lemma checkpoint_fold_settled:
  "settled (ck_state c) call orig sent \<Longrightarrow> settled (ck_state (fold (checkpoint_step b) is c)) call orig sent"
  by (induction "is" arbitrary: c) (simp_all add: checkpoint_step_settled)

text \<open>What is sent at a position is what the layers left there, or a placeholder of that result.\<close>

lemma checkpoint_fold_sent:
  assumes "j < length (ck_messages c)"
  shows "ck_messages (fold (checkpoint_step b) ks c) ! j = ck_messages c ! j
    \<or> placeholder_for (ms_call_id (ck_messages c ! j)) (text_of (ck_messages (fold (checkpoint_step b) ks c) ! j))"
  using assms
proof (induction ks arbitrary: c)
  case (Cons i ks)
  let ?c = "checkpoint_step b i c"
  have step: "ck_messages ?c ! j = ck_messages c ! j
    \<or> ms_call_id (ck_messages ?c ! j) = ms_call_id (ck_messages c ! j)
      \<and> placeholder_for (ms_call_id (ck_messages c ! j)) (text_of (ck_messages ?c ! j))"
    using Cons.prems
    by (cases "i = j") (auto simp: checkpoint_step_def Let_def worth_clearing_def placeholder_for_def set_text_def text_of_def
        blocks_of_def)
  then show ?case using Cons.IH [of ?c] Cons.prems by auto
qed simp

lemma checkpoint_step_cleared: "ck_cleared c \<le> ck_cleared (checkpoint_step b i c)"
  "ck_cleared (checkpoint_step b i c) = ck_cleared c \<Longrightarrow> checkpoint_step b i c = c"
  by (auto simp: checkpoint_step_def Let_def)

lemma checkpoint_fold_quiet:
  "ck_cleared c \<le> ck_cleared (fold (checkpoint_step b) is c)
   \<and> (ck_cleared (fold (checkpoint_step b) is c) = ck_cleared c \<longrightarrow> fold (checkpoint_step b) is c = c)"
proof (induction "is" arbitrary: c)
  case (Cons i "is")
  have "ck_cleared c \<le> ck_cleared (checkpoint_step b i c)" by (rule checkpoint_step_cleared)
  moreover have "checkpoint_step b i c = c" if "ck_cleared (checkpoint_step b i c) = ck_cleared c"
    using that by (rule checkpoint_step_cleared)
  ultimately show ?case using Cons.IH [of "checkpoint_step b i c"] by (metis fold_simps(2) le_antisym le_trans)
qed simp

lemma stable_settles:
  assumes "settled st call orig sent"
  shows "settled (next_state (stable_transform_context raw b opt st ms)) call orig sent"
proof (rule stable_cases [where raw = raw and b = b and opt = opt and st = st and ms = ms], goal_cases)
  case 1
  then show ?case using assms by (simp add: record_keeps_settled)
next
  case (2 k c)
  then show ?case using assms
    by (simp add: checkpoint_old_tool_results_def Let_def record_keeps_settled checkpoint_fold_settled)
qed

lemma stable_quiet:
  assumes "cleared_results (stable_transform_context raw b opt st ms) = 0"
  shows "stable_transform_context raw b opt st ms = (run_layers raw b st ms, record_decisions ms (run_layers raw b st ms) st, 0)"
proof (rule stable_cases [where raw = raw and b = b and opt = opt and st = st and ms = ms], goal_cases)
  case (2 k c)
  define c0 where "c0 = \<lparr>ck_messages = run_layers raw b st ms, ck_state = record_decisions ms (run_layers raw b st ms) st,
    ck_total = int (sum_list (map stable_message_tokens (run_layers raw b st ms))), ck_cleared = 0\<rparr>"
  have "c = c0"
    using 2 assms checkpoint_fold_quiet [of c0 k "[0..<protected_start raw (run_layers raw b st ms) protected_turns]"]
    by (auto simp: checkpoint_old_tool_results_def Let_def c0_def split: if_splits)
  then show ?case using 2(1) by (simp add: c0_def)
qed

lemma after_all_settled: "settled st call orig sent \<Longrightarrow> settled (after_all raw calls st) call orig sent"
  unfolding after_all_def by (induction calls arbitrary: st) (auto simp: stable_settles)

lemma no_checkpoint_decided:
  "decided st call orig sent \<Longrightarrow> no_checkpoint raw (calls @ [(m, b, opt)]) st
    \<Longrightarrow> decided (after_all raw calls st) call orig sent
      \<and> cleared_results (stable_transform_context raw b opt (after_all raw calls st) m) = 0"
proof (induction calls arbitrary: st)
  case (Cons c calls)
  obtain m1 b1 o1 where c: "c = (m1, b1, o1)" by (cases c)
  have "stable_transform_context raw b1 o1 st m1 = (run_layers raw b1 st m1, record_decisions m1 (run_layers raw b1 st m1) st, 0)"
    using Cons.prems(2) by (intro stable_quiet) (simp add: c Let_def)
  then show ?case using Cons by (simp add: c Let_def after_all_def record_keeps_decided)
qed (simp add: after_all_def Let_def)

lemma sent_if_settled:
  assumes "settled st call orig sent" and "j \<in> results_for call ms" and "text_of (ms ! j) = orig"
  shows "text_of (sent_messages (stable_transform_context raw b opt st ms) ! j) = sent
    \<or> placeholder_for call (text_of (sent_messages (stable_transform_context raw b opt st ms) ! j))"
proof -
  let ?s3 = "run_layers raw b st ms"
  have j: "j < length ms" "is_result (ms ! j)" "ms_call_id (ms ! j) = call" using assms(2) by (auto simp: results_for_def)
  have layers: "text_of (?s3 ! j) = sent \<or> placeholder_for call (text_of (?s3 ! j))"
  proof (cases "decided st call orig sent")
    case True
    then show ?thesis using sent_if_decided [OF True assms(2,3)] by simp
  next
    case False
    then obtain s where "rs_replacements st call = Some s" "placeholder_for call s" using assms(1) by (auto simp: settled_def)
    moreover have "?s3 ! j = apply_known_replacements st ms ! j"
      using settled_frozen [OF assms(1)] j by (intro run_layers_frozen) simp_all
    ultimately show ?thesis using j by (simp add: apply_known_nth)
  qed
  have id: "ms_call_id (?s3 ! j) = call"
    using same_shape_kind(2) [OF shape_nth [OF run_layers_shape j(1)]] j(3) by simp
  show ?thesis
  proof (rule stable_cases [where raw = raw and b = b and opt = opt and st = st and ms = ms], goal_cases)
    case 1
    then show ?case using layers by simp
  next
    case (2 k c)
    then have "ck_messages c ! j = ?s3 ! j \<or> placeholder_for call (text_of (ck_messages c ! j))"
      using checkpoint_fold_sent [where j = j and b = k and ks = "[0..<protected_start raw ?s3 protected_turns]"
          and c = "\<lparr>ck_messages = ?s3, ck_state = record_decisions ms ?s3 st, ck_total = int (sum_list (map stable_message_tokens ?s3)), ck_cleared = 0\<rparr>"] j(1) id
      by (auto simp: checkpoint_old_tool_results_def Let_def)
    then show ?case using layers 2(1) by auto
  qed
qed

text \<open>C16: The text sent for a tool result the first time it appears is what every later call sends for it, in
  whatever histories and under whatever budgets it appears, as long as the result itself is unchanged, until a checkpoint
  clears it: what is sent then is the checkpoint's placeholder for a result of that call. While no call clears anything,
  nothing changes.\<close>

theorem sent_text_stable:
  fixes raw :: "utf16 option" and b :: int and opt :: "int option" and st :: replacement_state and ms :: "message list"
  assumes "results_for call ms = {i}" and "j \<in> results_for call later" and "text_of (later ! j) = text_of (ms ! i)"
  shows "let first_call = stable_transform_context raw b opt st ms;
             old = text_of (sent_messages first_call ! i);
             new = text_of (sent_messages (stable_transform_context raw b' opt' (after_all raw calls (next_state first_call)) later) ! j)
         in (new = old \<or> placeholder_for call new)
            \<and> (no_checkpoint raw (calls @ [(later, b', opt')]) (next_state first_call) \<longrightarrow> new = old)"
proof -
  let ?first = "stable_transform_context raw b opt st ms"
  let ?old = "text_of (sent_messages ?first ! i)"
  have dec: "decided (next_state ?first) call (text_of (ms ! i)) ?old" by (rule stable_decides [OF assms(1)])
  then have "settled (after_all raw calls (next_state ?first)) call (text_of (ms ! i)) ?old"
    by (intro after_all_settled) (simp add: settled_def)
  moreover have "text_of (sent_messages (stable_transform_context raw b' opt' (after_all raw calls (next_state ?first)) later) ! j) = ?old"
    if "no_checkpoint raw (calls @ [(later, b', opt')]) (next_state ?first)"
  proof -
    note quiet = no_checkpoint_decided [OF dec that]
    show ?thesis using sent_if_decided [OF conjunct1 [OF quiet] assms(2,3)] by (simp add: stable_quiet [OF conjunct2 [OF quiet]])
  qed
  ultimately show ?thesis using sent_if_settled [OF _ assms(2,3)] by (simp add: Let_def)
qed

section \<open>Checkpoints are final\<close>

definition pinned :: "utf16 \<Rightarrow> utf16 \<Rightarrow> message list \<Rightarrow> bool" where
  "pinned call s ms \<longleftrightarrow> (\<forall>i\<in>results_for call ms. \<exists>m. ms ! i = set_text s m)"

lemma checkpoint_step_pinned:
  assumes "pinned call s (ck_messages c)" and "rs_replacements (ck_state c) call = Some s" and "length s \<le> 500"
    and "k < length (ck_messages c)"
  shows "pinned call s (ck_messages (checkpoint_step b k c)) \<and> rs_replacements (ck_state (checkpoint_step b k c)) call = Some s"
proof (cases "2 * ck_total c > b \<and> worth_clearing (ck_messages c ! k)")
  case True
  have "k \<notin> results_for call (ck_messages c)"
    using True assms(1,3) short_not_worth by (fastforce simp: pinned_def)
  then have other: "ms_call_id (ck_messages c ! k) \<noteq> call" using True assms(4) by (simp add: results_for_def worth_clearing_def)
  have "list_all2 same_shape (ck_messages c) (ck_messages (fold (checkpoint_step b) [k] c))"
    by (rule checkpoint_fold_shape) (simp add: list.rel_refl)
  then have "results_for call (ck_messages (checkpoint_step b k c)) = results_for call (ck_messages c)"
    using results_for_shape by simp
  moreover have "ck_messages (checkpoint_step b k c) ! i = ck_messages c ! i" if "i \<in> results_for call (ck_messages c)" for i
  proof -
    have "k \<noteq> i" using that \<open>k \<notin> _\<close> by blast
    then show ?thesis by (simp add: checkpoint_step_def Let_def)
  qed
  ultimately have "pinned call s (ck_messages (checkpoint_step b k c))" using assms(1) by (simp add: pinned_def)
  moreover have "rs_replacements (ck_state (checkpoint_step b k c)) call = Some s"
    using assms(2) other by (simp add: checkpoint_step_def Let_def)
  ultimately show ?thesis by simp
next
  case False
  then have "checkpoint_step b k c = c" by (auto simp: checkpoint_step_def Let_def)
  then show ?thesis using assms by simp
qed

lemma checkpoint_fold_pinned:
  assumes "pinned call s (ck_messages c)" and "rs_replacements (ck_state c) call = Some s" and "length s \<le> 500"
    and "\<forall>k\<in>set ks. k < length (ck_messages c)"
  shows "pinned call s (ck_messages (fold (checkpoint_step b) ks c))
    \<and> rs_replacements (ck_state (fold (checkpoint_step b) ks c)) call = Some s"
  using assms by (induction ks arbitrary: c) (simp_all add: checkpoint_step_pinned)

lemma stable_pinned:
  assumes "rs_replacements st call = Some s" and "length s \<le> 500"
  shows "pinned call s (sent_messages (stable_transform_context raw b opt st ms))
    \<and> rs_replacements (next_state (stable_transform_context raw b opt st ms)) call = Some s"
proof -
  let ?s3 = "run_layers raw b st ms" and ?st = "record_decisions ms (run_layers raw b st ms) st"
  have frozen: "call \<in> frozen_ids st" using assms(1) by (auto simp: frozen_ids_def)
  have st: "rs_replacements ?st call = Some s"
    using record_fold_keeps [OF frozen, of "zip ms ?s3"] assms(1) by (simp add: record_decisions_def)
  have s3: "pinned call s ?s3"
  proof -
    have "?s3 ! i = set_text s (ms ! i)" if "i \<in> results_for call ms" for i
      using that frozen assms(1) run_layers_frozen [of i ms st raw b] by (auto simp: results_for_def apply_known_nth)
    then show ?thesis using results_for_shape [OF run_layers_shape] by (force simp: pinned_def)
  qed
  show ?thesis
  proof (rule stable_cases [where raw = raw and b = b and opt = opt and st = st and ms = ms], goal_cases)
    case 1
    then show ?case using st s3 by simp
  next
    case (2 k c)
    have "\<forall>j\<in>set [0..<protected_start raw ?s3 protected_turns]. j < length ?s3"
      using protected_start_le [of raw ?s3 protected_turns] by auto
    then have "pinned call s (ck_messages c) \<and> rs_replacements (ck_state c) call = Some s"
      using st s3 assms(2) by (simp add: 2(2) checkpoint_old_tool_results_def Let_def checkpoint_fold_pinned)
    then show ?case using 2(1) by simp
  qed
qed

lemma after_all_pinned:
  "rs_replacements st call = Some s \<Longrightarrow> length s \<le> 500 \<Longrightarrow> rs_replacements (after_all raw calls st) call = Some s"
  unfolding after_all_def by (induction calls arbitrary: st) (auto simp: stable_pinned)

lemma checkpoint_text_short:
  assumes "length (ms_tool_name m) \<le> 300" and "text_chars m < 2 ^ 53"
  shows "length (checkpoint_text m) \<le> 500"
proof -
  have "length (dec_text (text_chars m)) \<le> 16" by (rule dec_text_length) (use assms(2) in simp_all)
  then show ?thesis using assms(1) by (simp add: checkpoint_text_def lit_def)
qed

text \<open>A checkpoint changes a result at most once. A recorded text of up to 500 characters, which every
  checkpoint writes for a tool whose name has up to 300, is sent by every later call, checkpoints or not.\<close>

theorem checkpoint_is_final:
  assumes "rs_replacements st call = Some (checkpoint_text m)" and "length (ms_tool_name m) \<le> 300" and "text_chars m < 2 ^ 53"
    and "j \<in> results_for call later"
  shows "text_of (sent_messages (stable_transform_context raw b opt (after_all raw calls st) later) ! j) = checkpoint_text m"
proof -
  have "rs_replacements (after_all raw calls st) call = Some (checkpoint_text m)"
    using assms by (intro after_all_pinned checkpoint_text_short)
  then have "pinned call (checkpoint_text m) (sent_messages (stable_transform_context raw b opt (after_all raw calls st) later))"
    using stable_pinned checkpoint_text_short assms(2,3) by blast
  then show ?thesis using assms(4) results_for_shape [OF stable_shape] by (fastforce simp: pinned_def)
qed

section \<open>What does not stay the same\<close>

text \<open>A history with one old result that has a text and an image.\<close>

definition demo_block :: "block list \<Rightarrow> message" where
  "demo_block bs = (user_message [] 0)\<lparr>ms_role := Assistant, ms_content := C_Blocks bs\<rparr>"

definition demo_shot :: message where
  "demo_shot = (user_message [] 0)\<lparr>ms_role := Tool_Result, ms_call_id := lit ''c'',
     ms_content := C_Blocks [B_Text (lit ''abcdefgh''), B_Image []]\<rparr>"

definition demo_history :: "string \<Rightarrow> message list" where
  "demo_history tool = [user_message [] 0, demo_block [B_Call (lit ''c'') (lit tool) None], demo_shot, demo_block [],
     user_message [] 0, demo_block [], demo_block []]"

lemma is_result_set_text [simp]: "is_result (set_text s m) = is_result m"
  by (simp add: is_result_def)

lemma demo_fields [simp]:
  "is_result demo_shot" "ms_call_id demo_shot = lit ''c''" "blocks_of demo_shot = [B_Text (lit ''abcdefgh''), B_Image []]"
  "\<not> is_result (demo_block bs)" "\<not> is_result (user_message s t)" "is_assistant (demo_block bs)"
  "\<not> is_assistant (user_message s t)" "\<not> is_assistant demo_shot" "text_chars demo_shot = 8" "is_turn_start (user_message s t)"
  "\<not> is_turn_start (demo_block bs)" "\<not> is_turn_start demo_shot" "is_round (demo_block bs) = (filter is_call bs \<noteq> [])"
  "ms_role (demo_block bs) = Assistant" "blocks_of (demo_block bs) = bs"
  by (simp_all add: demo_shot_def demo_block_def user_message_def is_result_def is_assistant_def blocks_of_def text_chars_def
      is_turn_start_def is_round_def calls_of_def lit_def)

lemma demo_protected: "protected_start None (demo_history tool) 3 = 3"
  by (simp add: protected_start_def turn_aware_enabled_def turn_count_def assistant_window_start_def last_turn_start_def
      turn_in_progress_def demo_history_def eval_nat_numeral)

lemma demo_third: "demo_history tool ! 2 = demo_shot" "length (demo_history tool) = 7"
  by (simp_all add: demo_history_def)

lemma demo_results: "results_for (lit ''c'') (demo_history tool) = {2}"
  by (auto simp: results_for_def demo_history_def less_Suc_eq)

lemma demo_budget: "apply_tool_result_budget None 10 {} (demo_history tool) ! 2 = map_text (budget_trim 4) demo_shot"
proof -
  have upt: "[0..<7] = [0, 1, 2, 3, 4, 5, 6 :: nat]" by (simp add: upt_rec)
  have kinds: "filter (\<lambda>i. is_result (demo_history tool ! i) \<and> i < 3) [0..<7] = [2]"
    by (simp add: upt demo_history_def)
  have "budget_eligible {} 3 (demo_history tool) = [2]"
    using kinds by (simp add: budget_eligible_def demo_third upt demo_history_def)
  moreover have "budget_total 3 (demo_history tool) = 8" using kinds by (simp add: budget_total_def demo_third)
  ultimately show ?thesis
    by (simp add: apply_tool_result_budget_nth demo_third budget_protected_turns_def demo_protected Let_def)
qed

text \<open>Only the text of a result is pinned. A result with a text and an image that a layer trims is first sent
  with its image and later without it, so the prefix of the second request differs from the first.\<close>

theorem replay_drops_images:
  defines "first_call \<equiv> stable_transform_context None 10 None create_replacement_state (demo_history ''exec'')"
  defines "second_call \<equiv> stable_transform_context None 10 None (next_state first_call) (demo_history ''exec'')"
  shows "B_Image [] \<in> set (blocks_of (sent_messages first_call ! 2)) \<and> B_Image [] \<notin> set (blocks_of (sent_messages second_call ! 2))
    \<and> text_of (sent_messages second_call ! 2) = text_of (sent_messages first_call ! 2)"
proof -
  let ?h = "demo_history ''exec''" and ?s = "map_text (budget_trim 4) demo_shot"
  let ?b = "apply_tool_result_budget None 10 {} (demo_history ''exec'')"
  let ?m = "fst (microcompact None default_microcompact {} ?b)"
  have known: "apply_known_replacements create_replacement_state ?h = ?h"
    unfolding apply_known_replacements_def by (rule map_idI) (simp add: create_replacement_state_def)
  have fresh: "frozen_ids create_replacement_state = {}" by (simp add: frozen_ids_def create_replacement_state_def)
  have trimmed: "blocks_of ?s = [B_Text (budget_trim 4 (lit ''abcdefgh'')), B_Image []]" "is_result ?s" "text_chars ?s = 24"
    by (simp_all add: map_text_def blocks_of_def demo_shot_def is_result_def user_message_def text_chars_def budget_trim_def
        seven_tenths_def substring_to_def lit_def Let_def)
  have tool: "find_tool_name ?b 2 = Some (lit ''exec'')"
  proof -
    have "?b ! 1 = ?h ! 1"
      by (rule budget.layer_untouched) (simp_all add: demo_third old_result_def, simp add: demo_history_def)
    moreover have "ms_call_id (?b ! 2) = lit ''c''" by (simp add: demo_budget map_text_def demo_shot_def)
    ultimately show ?thesis by (simp add: find_tool_name_def eval_nat_numeral) (simp add: demo_history_def)
  qed
  have m: "?m ! 2 = ?s"
    using tool trimmed by (simp add: microcompact_nth demo_third demo_budget microcompact_one_def Let_def default_microcompact_def
        file_content_tools_def lit_def)
  have "run_layers None 10 create_replacement_state ?h ! 2 = ?s"
    using m trimmed by (simp add: run_layers_def Let_def known fresh snip_consumed_results_def demo_third snip_one_def)
  then have first_sent: "sent_messages first_call ! 2 = ?s"
    by (simp add: first_call_def stable_transform_context_def Let_def)
  have dec: "decided (next_state first_call) (lit ''c'') (text_of demo_shot) (text_of ?s)"
    using stable_decides [OF demo_results, of None 10 None create_replacement_state "''exec''"] first_sent
    by (simp add: first_call_def demo_third)
  have differ: "text_of ?s \<noteq> text_of demo_shot"
    using trimmed(3) text_chars_of [of ?s] text_chars_of [of demo_shot] by auto
  then have repl: "rs_replacements (next_state first_call) (lit ''c'') = Some (text_of ?s)"
    using dec by (auto simp: decided_def split: option.splits)
  then have "lit ''c'' \<in> frozen_ids (next_state first_call)" by (auto simp: frozen_ids_def)
  then have "run_layers None 10 (next_state first_call) ?h ! 2 = set_text (text_of ?s) demo_shot"
    using run_layers_frozen [of 2 ?h] repl by (simp add: demo_third apply_known_nth)
  then have "sent_messages second_call ! 2 = set_text (text_of ?s) demo_shot"
    by (simp add: second_call_def stable_transform_context_def Let_def)
  then show ?thesis using first_sent trimmed by simp
qed

text \<open>The layers are not idempotent, as the file says they are: compressing a file read twice counts the lines
  and characters of its own placeholder.\<close>

theorem microcompact_not_idempotent:
  defines "once \<equiv> fst (microcompact None default_microcompact {} (demo_history ''read_file''))"
  shows "text_of (once ! 2) = file_read_text 1 8
    \<and> text_of (fst (microcompact None default_microcompact {} once) ! 2) = file_read_text 1 38"
proof -
  have shape: "list_all2 same_shape (demo_history ''read_file'') once" unfolding once_def by (rule micro.layer_shape)
  have len: "length once = 7" using list_all2_lengthD [OF shape] by (simp add: demo_third)
  have prot: "protected_start None once 3 = 3" using protected_start_shape [OF shape] by (simp add: demo_protected)
  have one: "once ! 2 = set_text (file_read_text 1 8) demo_shot"
  proof -
    have "find_tool_name (demo_history ''read_file'') 2 = Some (lit ''read_file'')"
      by (simp add: find_tool_name_def eval_nat_numeral) (simp add: demo_history_def)
    then show ?thesis
      by (simp add: once_def microcompact_nth demo_third demo_protected microcompact_one_def Let_def default_microcompact_def
          file_content_tools_def) (simp add: lit_def)
  qed
  have "once ! 1 = demo_history ''read_file'' ! 1"
    unfolding once_def by (rule micro.layer_untouched) (simp_all add: demo_third old_result_def, simp add: demo_history_def)
  then have tool: "find_tool_name once 2 = Some (lit ''read_file'')"
    using one by (simp add: find_tool_name_def eval_nat_numeral) (simp add: demo_history_def)
  have size: "length (file_read_text 1 8) = 38" "length (split_lines (file_read_text 1 8)) = 1"
    by (simp_all add: file_read_text_def dec_text.simps lit_def)
  have "fst (microcompact None default_microcompact {} once) ! 2
      = set_text (file_read_text 1 38) (set_text (file_read_text 1 8) demo_shot)"
    using tool one size by (simp add: microcompact_nth len prot microcompact_one_def Let_def default_microcompact_def
        file_content_tools_def text_chars_of)
  then show ?thesis using one by simp
qed

section \<open>Examples\<close>

theorem sent_text_stable_witness:
  "let first_call = stable_transform_context None 10 (Some 1) create_replacement_state (demo_history ''exec'');
       old = text_of (sent_messages first_call ! 2);
       new = text_of (sent_messages (stable_transform_context None 99 (Some 235000)
         (after_all None [(demo_history ''exec'', 5, Some 7)] (next_state first_call)) (demo_history ''exec'')) ! 2)
   in new = old \<or> placeholder_for (lit ''c'') new"
  using sent_text_stable [OF demo_results, of 2 "demo_history ''exec''" "''exec''" None 10 "Some 1" create_replacement_state 99 "Some 235000"
      "[(demo_history ''exec'', 5, Some 7)]"]
  by (simp add: demo_results Let_def)

theorem checkpoint_is_final_witness:
  "text_of (sent_messages (stable_transform_context None 99 (Some 1) (after_all None [(demo_history ''exec'', 5, Some 7)]
       \<lparr>rs_replacements = [lit ''c'' \<mapsto> checkpoint_text demo_shot], rs_preserved = {}\<rparr>) (demo_history ''exec'')) ! 2)
   = checkpoint_text demo_shot"
  by (rule checkpoint_is_final [of _ "lit ''c''"]) (simp_all add: demo_results, simp add: demo_shot_def user_message_def)

end
