(* ===== verification/Session_Split.thy ===== *)
theory Session_Split
  imports Compaction_Layers
begin

text \<open>
  Where a compaction may cut a history, and the repair of a history whose last turn was killed
  (\<^verbatim>\<open>packages/agent-runtime/src/session-manager.ts\<close>, the functions outside the class and \<^verbatim>\<open>turnBoundarySplit\<close>). The claims:
  a cut lies inside the history, the tail it keeps fits its budget or is as small as allowed, and is a valid request,
  with the one exception that is stated; a repaired history has a result for every call.
\<close>

section \<open>Cuts by count and by tokens\<close>

text \<open>The loops \<^verbatim>\<open>while (i < messages.length && p(messages[i])) i++\<close>.\<close>

definition skip_while :: "(message \<Rightarrow> bool) \<Rightarrow> message list \<Rightarrow> nat \<Rightarrow> nat" where
  "skip_while p ms i = i + length (takeWhile p (drop i ms))"

definition inner_index :: "message list \<Rightarrow> nat \<Rightarrow> nat option" where
  "inner_index ms i = (if 0 < i \<and> i < length ms then Some i else None)"

definition split_index_for_compaction :: "message list \<Rightarrow> int \<Rightarrow> nat option" where
  "split_index_for_compaction ms keep =
     (if int (length ms) \<le> keep then None
      else
        let start = nat (int (length ms) - keep);
            i = skip_while (\<lambda>m. ms_role m \<noteq> User) ms start
        in inner_index ms (if int i \<ge> int (length ms) - 1 then skip_while is_result ms start else i))"

definition tokens_of :: "nat \<Rightarrow> message \<Rightarrow> nat" where
  "tokens_of per_message m = max per_message (estimate_message_tokens m)"

definition estimate_message_array_tokens :: "message list \<Rightarrow> nat \<Rightarrow> nat" where
  "estimate_message_array_tokens ms per_message = sum_list (map (tokens_of per_message) ms)"

text \<open>The first loop: \<open>tail\<close> is the number of tokens from \<open>i\<close> on.\<close>

function shrink_tail :: "nat \<Rightarrow> message list \<Rightarrow> int \<Rightarrow> nat \<Rightarrow> int \<Rightarrow> nat \<Rightarrow> nat" where
  "shrink_tail per ms budget hard_max tail_tokens i =
     (if i < hard_max \<and> tail_tokens > budget
      then shrink_tail per ms budget hard_max (tail_tokens - int (tokens_of per (ms ! i))) (Suc i)
      else i)"
  by pat_completeness auto
termination
  by (relation "measure (\<lambda>(_, _, _, h, _, i). h - i)") auto

declare shrink_tail.simps [simp del]

definition split_index_for_token_budget :: "message list \<Rightarrow> int \<Rightarrow> int \<Rightarrow> int \<Rightarrow> nat \<Rightarrow> nat option" where
  "split_index_for_token_budget ms tail_budget min_keep max_keep per_message =
     (case split_index_for_compaction ms max_keep of
        None \<Rightarrow> None
      | Some count_split \<Rightarrow>
          let hard_max = nat (max 1 (int (length ms) - max 1 min_keep));
              i = min count_split hard_max;
              j = shrink_tail per_message ms tail_budget hard_max
                    (int (estimate_message_array_tokens (drop i ms) per_message)) i;
              k = skip_while is_result (take (length ms - 1) ms) j
          in if 0 < k \<and> k < length ms then Some k else Some count_split)"

section \<open>Cuts at a turn start\<close>

lemma last_turn_start_less: "ms \<noteq> [] \<Longrightarrow> last_turn_start ms < length ms"
proof -
  have "last_start ms i < i" if "0 < i" for i using that by (induction i) (auto simp: less_Suc_eq gr0_conv_Suc)
  then show "ms \<noteq> [] \<Longrightarrow> ?thesis" by (simp add: last_turn_start_def)
qed

text \<open>The loop: whole turns are added to the tail until it has \<open>minimum\<close> messages.\<close>

function widen_split :: "message list \<Rightarrow> int \<Rightarrow> nat \<Rightarrow> nat" where
  "widen_split ms minimum split =
     (if 0 < split \<and> int (length ms) - int split < minimum
      then
        (let previous = last_turn_start (take split ms)
         in if previous = 0 \<or> previous = split then split else widen_split ms minimum previous)
      else split)"
  by pat_completeness auto
termination
proof (relation "measure (\<lambda>(_, _, s). s)", goal_cases)
  case (2 ms minimum split previous)
  have "last_turn_start [] = 0" by (simp add: last_turn_start_def)
  with 2 have "take split ms \<noteq> []" by (cases "take split ms") auto
  from last_turn_start_less [OF this] 2 show ?case by simp
qed simp

declare widen_split.simps [simp del]

definition turn_boundary_split :: "message list \<Rightarrow> int \<Rightarrow> nat option" where
  "turn_boundary_split ms min_keep =
     (if length ms < 2 then None
      else inner_index ms
        (widen_split ms (min (max 1 min_keep) (int (length ms) - 1)) (last_turn_start ms)))"

section \<open>Repairing a killed turn\<close>

definition interrupted_text :: utf16 where
  "interrupted_text =
     lit ''Interrupted before this tool returned '' @ [8212] @ lit '' the runtime stopped mid-call. Its effect is unknown.''"

definition interrupted_result :: "int \<Rightarrow> block \<Rightarrow> message" where
  "interrupted_result now b =
     \<lparr>ms_role = Tool_Result, ms_content = C_Blocks [B_Text interrupted_text], ms_call_id = bc_id b, ms_tool_name = bc_name b,
       ms_error = True, ms_stop = [], ms_background_note = False, ms_round_placeholder = False, ms_timestamp = now\<rparr>"

definition trailing_results :: "message list \<Rightarrow> message list" where
  "trailing_results ms = rev (takeWhile is_result (rev ms))"

definition missing_calls :: "message list \<Rightarrow> block list" where
  "missing_calls ms =
     (let results = trailing_results ms; before = take (length ms - length results) ms
      in if before = [] then []
         else
           let a = last before
           in if ms_role a \<noteq> Assistant then []
              else if ms_stop a = lit ''error'' \<or> ms_stop a = lit ''aborted'' then []
              else filter (\<lambda>b. bc_id b \<notin> set (map ms_call_id results)) (calls_of a))"

definition repair_interrupted_tail_messages :: "int \<Rightarrow> message list \<Rightarrow> message list \<times> (utf16 \<times> utf16) list" where
  "repair_interrupted_tail_messages now ms =
     (let missing = missing_calls ms
      in if missing = [] then (ms, [])
         else (ms @ map (interrupted_result now) missing, map (\<lambda>b. (bc_id b, bc_name b)) missing))"

section \<open>Cutting between turns\<close>

lemma last_start_is_start: "0 < last_start ms i \<Longrightarrow> is_turn_start (ms ! last_start ms i)"
  by (induction i) (auto split: if_splits)

lemma last_turn_start_is_start: "0 < last_turn_start ms \<Longrightarrow> is_turn_start (ms ! last_turn_start ms)"
  by (simp add: last_turn_start_def last_start_is_start)

lemma widen_split_spec:
  assumes "split < length ms" and "0 < split \<Longrightarrow> is_turn_start (ms ! split)"
  shows "widen_split ms minimum split \<le> split
    \<and> (0 < widen_split ms minimum split \<longrightarrow>
        is_turn_start (ms ! widen_split ms minimum split)
        \<and> (minimum \<le> int (length ms) - int (widen_split ms minimum split)
           \<or> last_turn_start (take (widen_split ms minimum split) ms) = 0))"
  using assms
proof (induction ms minimum split rule: widen_split.induct)
  case (1 ms minimum split)
  let ?p = "last_turn_start (take split ms)"
  show ?case
  proof (cases "0 < split \<and> int (length ms) - int split < minimum \<and> ?p \<noteq> 0 \<and> ?p \<noteq> split")
    case True
    then have "take split ms \<noteq> []" using 1(2) by auto
    from last_turn_start_less [OF this] have less: "?p < split" by simp
    then have start: "is_turn_start (ms ! ?p)"
      using True last_turn_start_is_start [of "take split ms"] by simp
    have eq: "widen_split ms minimum split = widen_split ms minimum ?p"
      using True by (subst widen_split.simps) (simp add: Let_def)
    have "widen_split ms minimum ?p \<le> ?p
      \<and> (0 < widen_split ms minimum ?p \<longrightarrow> is_turn_start (ms ! widen_split ms minimum ?p)
         \<and> (minimum \<le> int (length ms) - int (widen_split ms minimum ?p)
            \<or> last_turn_start (take (widen_split ms minimum ?p) ms) = 0))"
    proof (rule 1(1) [OF _ refl])
      show "0 < split \<and> int (length ms) - int split < minimum" using True by simp
      show "\<not> (?p = 0 \<or> ?p = split)" using True by simp
      show "?p < length ms" using less 1(2) by simp
      show "is_turn_start (ms ! ?p)" by (rule start)
    qed
    then show ?thesis using less unfolding eq by linarith
  next
    case False
    have "?p \<noteq> split" if "0 < split"
    proof -
      have "take split ms \<noteq> []" using that 1(2) by auto
      from last_turn_start_less [OF this] show ?thesis by simp
    qed
    with False have stop: "0 < split \<longrightarrow> minimum \<le> int (length ms) - int split \<or> ?p = 0" by auto
    have "widen_split ms minimum split = split"
      using False by (subst widen_split.simps) (auto simp: Let_def)
    with stop show ?thesis using 1(3) by simp
  qed
qed

lemma turn_split_cases:
  assumes "turn_boundary_split ms min_keep = Some s"
  shows "0 < s" "s < length ms" "is_turn_start (ms ! s)"
    "min (max 1 min_keep) (int (length ms) - 1) \<le> int (length ms) - int s \<or> last_turn_start (take s ms) = 0"
proof -
  let ?f = "min (max 1 min_keep) (int (length ms) - 1)"
  have len: "\<not> length ms < 2" and s: "s = widen_split ms ?f (last_turn_start ms)" "0 < s" "s < length ms"
    using assms by (auto simp: turn_boundary_split_def inner_index_def split: if_splits)
  have "last_turn_start ms < length ms" using len by (intro last_turn_start_less) auto
  then show "0 < s" "s < length ms" "is_turn_start (ms ! s)" "?f \<le> int (length ms) - int s \<or> last_turn_start (take s ms) = 0"
    using widen_split_spec [of "last_turn_start ms" ms ?f] last_turn_start_is_start s by auto
qed

text \<open>The turn-aware cut lies inside the history, at the start of a turn, and leaves at least the wanted number
  of messages unless no earlier turn start is left to move to.\<close>

theorem turn_boundary_split_sound:
  assumes "turn_boundary_split ms min_keep = Some s"
  shows "0 < s \<and> s < length ms \<and> is_turn_start (ms ! s)
    \<and> (min (max 1 min_keep) (int (length ms) - 1) \<le> int (length ms) - int s \<or> last_turn_start (take s ms) = 0)"
  using turn_split_cases [OF assms] by blast

section \<open>Cutting by tokens\<close>

lemma skip_while_ge: "i \<le> skip_while p ms i"
  by (simp add: skip_while_def)

lemma skip_while_le: "i \<le> length ms \<Longrightarrow> skip_while p ms i \<le> length ms"
  using length_takeWhile_le [of p "drop i ms"] by (simp add: skip_while_def)

lemma skip_while_stops: "skip_while p ms i < length ms \<Longrightarrow> \<not> p (ms ! skip_while p ms i)"
  using nth_length_takeWhile [of p "drop i ms"] by (simp add: skip_while_def)

lemma tail_tokens_mono:
  "j \<le> k \<Longrightarrow> estimate_message_array_tokens (drop k ms) per \<le> estimate_message_array_tokens (drop j ms) per"
proof -
  assume "j \<le> k"
  then have "drop j ms = take (k - j) (drop j ms) @ drop k ms"
    by (metis append_take_drop_id drop_drop le_add_diff_inverse2)
  then show ?thesis by (metis estimate_message_array_tokens_def le_add2 map_append sum_list_append)
qed

lemma shrink_tail_spec:
  assumes "t = int (estimate_message_array_tokens (drop i ms) per)" and "i \<le> h" and "h \<le> length ms"
  shows "i \<le> shrink_tail per ms b h t i \<and> shrink_tail per ms b h t i \<le> h
    \<and> (shrink_tail per ms b h t i = h \<or> int (estimate_message_array_tokens (drop (shrink_tail per ms b h t i) ms) per) \<le> b)"
  using assms
proof (induction per ms b h t i rule: shrink_tail.induct)
  case (1 per ms b h t i)
  show ?case
  proof (cases "i < h \<and> t > b")
    case True
    have "drop i ms = ms ! i # drop (Suc i) ms" using True 1(4) by (simp add: Cons_nth_drop_Suc)
    then have "t - int (tokens_of per (ms ! i)) = int (estimate_message_array_tokens (drop (Suc i) ms) per)"
      using 1(2) by (simp add: estimate_message_array_tokens_def)
    moreover have "shrink_tail per ms b h t i = shrink_tail per ms b h (t - int (tokens_of per (ms ! i))) (Suc i)"
      using True by (subst shrink_tail.simps) simp
    ultimately show ?thesis using 1(1) [OF True] True 1(4) by auto
  next
    case False
    then have "shrink_tail per ms b h t i = i" by (subst shrink_tail.simps) auto
    then show ?thesis using False 1(2,3) by auto
  qed
qed

lemma shrink_tail_stop: "t \<le> b \<Longrightarrow> shrink_tail per ms b h t i = i"
  by (subst shrink_tail.simps) simp

lemma count_split_inside: "split_index_for_compaction ms keep = Some i \<Longrightarrow> 0 < i \<and> i < length ms"
  by (auto simp: split_index_for_compaction_def inner_index_def Let_def split: if_splits)

text \<open>The cut by tokens lies inside the history; the tail it keeps fits the token budget, or is as short as
  \<^verbatim>\<open>minKeepMessages\<close> allows; and the tail is a valid request when it holds more than the last message.\<close>

theorem token_split_sound:
  fixes ms :: "message list" and b min_keep max_keep :: int and per :: nat
  assumes split: "split_index_for_token_budget ms b min_keep max_keep per = Some s"
  shows "0 < s \<and> s < length ms
    \<and> (int (estimate_message_array_tokens (drop s ms) per) \<le> b \<or> int (length ms) - int s \<le> max 1 min_keep)
    \<and> (paired {} ms \<and> s < length ms - 1 \<longrightarrow> paired {} (drop s ms))"
proof -
  obtain c where c: "split_index_for_compaction ms max_keep = Some c"
    using split by (auto simp: split_index_for_token_budget_def split: option.splits)
  define h where "h = nat (max 1 (int (length ms) - max 1 min_keep))"
  define j where "j = shrink_tail per ms b h (int (estimate_message_array_tokens (drop (min c h) ms) per)) (min c h)"
  define k where "k = skip_while is_result (take (length ms - 1) ms) j"
  have c': "0 < c" "c < length ms" using count_split_inside [OF c] by simp_all
  have h: "0 < h" "h \<le> length ms - 1" "int (length ms) - int h \<le> max 1 min_keep" using c' by (auto simp: h_def)
  from shrink_tail_spec [OF refl, of "min c h" h ms per b]
  have j: "min c h \<le> j" "j \<le> h" "j = h \<or> int (estimate_message_array_tokens (drop j ms) per) \<le> b"
    using h(2) by (auto simp: j_def [symmetric])
  have k: "j \<le> k" "k \<le> length ms - 1"
    using skip_while_ge [of j] skip_while_le [of j "take (length ms - 1) ms" is_result] j(2) h(2) by (simp_all add: k_def)
  have inside: "0 < k" "k < length ms" using c' h(1) j(1) k by auto
  have "split_index_for_token_budget ms b min_keep max_keep per = (if 0 < k \<and> k < length ms then Some k else Some c)"
    by (simp add: split_index_for_token_budget_def c Let_def h_def [symmetric] j_def [symmetric] k_def [symmetric] del: One_nat_def)
  then have s: "s = k" using split inside by simp
  have fits: "int (estimate_message_array_tokens (drop k ms) per) \<le> b \<or> int (length ms) - int k \<le> max 1 min_keep"
  proof (cases "j = h")
    case True
    then show ?thesis using h(3) k(1) by linarith
  next
    case False
    then show ?thesis using j(3) tail_tokens_mono [OF k(1), of ms per] by linarith
  qed
  have valid: "paired {} (drop k ms)" if "paired {} ms" "k < length ms - 1"
  proof -
    have "k < length (take (length ms - 1) ms)" using that(2) by simp
    then have "\<not> is_result (take (length ms - 1) ms ! k)" unfolding k_def by (rule skip_while_stops)
    then have "\<not> is_result (ms ! k)" using that(2) by simp
    show ?thesis by (rule paired_drop [of 0]) (simp_all add: that(1) \<open>\<not> is_result (ms ! k)\<close>)
  qed
  show ?thesis using inside fits valid unfolding s by blast
qed

text \<open>The exception: a history that ends in a large result, cut as the mid-turn compactor does (one message must stay,
  no minimum per message).\<close>

definition demo_call_a :: message where
  "demo_call_a = (user_message [] 0)\<lparr>ms_role := Assistant, ms_content := C_Blocks [B_Call (lit ''a'') [] None]\<rparr>"

definition demo_result_a :: message where
  "demo_result_a = (user_message [] 0)\<lparr>ms_role := Tool_Result, ms_content := C_Blocks [B_Text (lit ''abcd'')], ms_call_id := lit ''a''\<rparr>"

definition demo_oversized :: "message list" where
  "demo_oversized = [user_message [] 0, (user_message [] 0)\<lparr>ms_role := Assistant\<rparr>, user_message [] 0, demo_call_a, demo_result_a]"

text \<open>Then the tail is a single result whose call was folded away, which the code means to exclude.\<close>

theorem token_split_orphans_result:
  "paired {} demo_oversized \<and> split_index_for_token_budget demo_oversized 0 1 4 0 = Some 4
   \<and> \<not> paired {} (drop 4 demo_oversized)"
proof -
  have count: "split_index_for_compaction demo_oversized 4 = Some 2"
    by (simp add: split_index_for_compaction_def demo_oversized_def demo_call_a_def demo_result_a_def skip_while_def
        inner_index_def user_message_def)
  have tok: "tokens_of 0 (user_message [] 0) = 0" "tokens_of 0 demo_call_a = 1" "tokens_of 0 demo_result_a = 1"
    by (simp_all add: tokens_of_def estimate_message_tokens_def ceil_quarter_def demo_call_a_def demo_result_a_def
        user_message_def lit_def)
  have j: "shrink_tail 0 demo_oversized 0 4 2 2 = 4"
    using tok by (simp add: shrink_tail.simps demo_oversized_def)
  have tail: "estimate_message_array_tokens (drop 2 demo_oversized) 0 = 2"
    using tok by (simp add: demo_oversized_def estimate_message_array_tokens_def)
  have len: "length demo_oversized = 5" and skip: "skip_while is_result (take 4 demo_oversized) 4 = 4"
    by (simp_all add: demo_oversized_def skip_while_def eval_nat_numeral)
  have "split_index_for_token_budget demo_oversized 0 1 4 0 = Some 4"
    using j tail len skip by (simp add: split_index_for_token_budget_def count Let_def)
  moreover have "paired {} demo_oversized" "\<not> paired {} (drop 4 demo_oversized)"
    by (simp_all add: demo_oversized_def demo_call_a_def demo_result_a_def user_message_def is_result_def calls_of_def blocks_of_def)
  ultimately show ?thesis by blast
qed

section \<open>A repaired history\<close>

lemma trailing_split: "ms = take (length ms - length (trailing_results ms)) ms @ trailing_results ms"
proof -
  have "rev ms = takeWhile is_result (rev ms) @ dropWhile is_result (rev ms)" by simp
  then have "ms = rev (dropWhile is_result (rev ms)) @ trailing_results ms"
    unfolding trailing_results_def by (metis rev_append rev_rev_ident)
  then show ?thesis by (metis append_eq_conv_conj append_take_drop_id diff_diff_cancel length_append add_diff_cancel_right')
qed

lemma trailing_all_results: "list_all is_result (trailing_results ms)"
  by (auto simp: trailing_results_def list_all_iff dest: set_takeWhileD)

lemma trailing_append: "list_all is_result xs \<Longrightarrow> trailing_results (ms @ xs) = trailing_results ms @ xs"
proof -
  assume "list_all is_result xs"
  then have "\<And>x. x \<in> set (rev xs) \<Longrightarrow> is_result x" by (simp add: list_all_iff)
  then have "takeWhile is_result (rev xs @ rev ms) = rev xs @ takeWhile is_result (rev ms)" by (rule takeWhile_append2)
  then show ?thesis by (simp add: trailing_results_def)
qed

lemma is_result_interrupted [simp]: "is_result (interrupted_result now b)" "ms_call_id (interrupted_result now b) = bc_id b"
  by (simp_all add: interrupted_result_def is_result_def)

lemma paired_results: "list_all is_result xs \<Longrightarrow> paired ids xs \<longleftrightarrow> set (map ms_call_id xs) \<subseteq> ids"
  by (induction xs) auto

lemma paired_append_results:
  assumes "paired ids (ms @ a # rs)" and "\<not> is_result a" and "list_all is_result rs" and "list_all is_result xs"
    and "set (map ms_call_id xs) \<subseteq> set (map bc_id (calls_of a))"
  shows "paired ids (ms @ a # rs @ xs)"
  using assms(1)
proof (induction ms arbitrary: ids)
  case Nil
  have all: "list_all is_result (rs @ xs)" using assms(3,4) by simp
  from Nil assms(2) have "paired (set (map bc_id (calls_of a))) rs" by simp
  then have "paired (set (map bc_id (calls_of a))) (rs @ xs)"
    unfolding paired_results [OF assms(3)] paired_results [OF all] using assms(5) by auto
  then show ?case using assms(2) by simp
qed (simp split: if_splits)

text \<open>In a history where every result follows its call, a repair appends error results and nothing else, and the
  history stays one where every result follows its call. Afterwards no call of the last assistant message, unless
  that message stopped with an error or was aborted, is without a result, so that repairing again changes nothing;
  and it reports exactly the calls it answered.\<close>

theorem repair_completes_turn:
  fixes now :: int and ms :: "message list"
  defines "fixed \<equiv> fst (repair_interrupted_tail_messages now ms)"
    and "repaired \<equiv> snd (repair_interrupted_tail_messages now ms)"
  assumes valid: "paired {} ms"
  shows "paired {} fixed \<and> missing_calls fixed = [] \<and> repair_interrupted_tail_messages now fixed = (fixed, [])
    \<and> fixed = ms @ map (interrupted_result now) (missing_calls ms)
    \<and> repaired = map (\<lambda>b. (bc_id b, bc_name b)) (missing_calls ms)"
proof (cases "missing_calls ms = []")
  case True
  then show ?thesis using valid by (simp add: fixed_def repaired_def repair_interrupted_tail_messages_def)
next
  case False
  let ?t = "trailing_results ms" and ?m = "missing_calls ms"
  let ?b = "take (length ms - length ?t) ms"
  have ne: "?b \<noteq> []" and a: "ms_role (last ?b) = Assistant" "\<not> (ms_stop (last ?b) = lit ''error'' \<or> ms_stop (last ?b) = lit ''aborted'')"
    and m: "?m = filter (\<lambda>b. bc_id b \<notin> set (map ms_call_id ?t)) (calls_of (last ?b))"
    using False by (auto simp: missing_calls_def Let_def split: if_splits)
  have fixed: "fixed = ms @ map (interrupted_result now) ?m" "repaired = map (\<lambda>b. (bc_id b, bc_name b)) ?m"
    using False by (simp_all add: fixed_def repaired_def repair_interrupted_tail_messages_def Let_def)
  have new: "list_all is_result (map (interrupted_result now) ?m)" by (simp add: list_all_iff)
  have "butlast ?b @ [last ?b] = ?b" using ne by (rule append_butlast_last_id)
  then have "butlast ?b @ last ?b # ?t = ?b @ ?t" by (metis append.assoc append_Cons append_Nil)
  then have ms: "ms = butlast ?b @ last ?b # ?t" using trailing_split [of ms] by simp
  have "\<not> is_result (last ?b)" using a(1) by (simp add: is_result_def)
  then have "paired {} (butlast ?b @ last ?b # ?t @ map (interrupted_result now) ?m)"
    by (intro paired_append_results) (use valid ms in \<open>simp_all add: trailing_all_results new\<close>, auto simp: m)
  then have paired: "paired {} fixed" using ms fixed(1) by (metis append.assoc append_Cons)
  have t: "trailing_results fixed = ?t @ map (interrupted_result now) ?m" using new by (simp add: fixed(1) trailing_append)
  have b: "take (length fixed - length (trailing_results fixed)) fixed = ?b" by (simp add: t) (simp add: fixed(1))
  have "missing_calls fixed = []"
    unfolding missing_calls_def Let_def b using ne a by (auto simp: t m filter_empty_conv)
  then show ?thesis using paired fixed by (simp add: repair_interrupted_tail_messages_def)
qed

section \<open>Examples\<close>

definition demo_turns :: "message list" where
  "demo_turns = [user_message [] 0, user_message [] 1, user_message [] 2]"

theorem turn_boundary_split_sound_witness:
  "(0::nat) < 2 \<and> 2 < length demo_turns \<and> is_turn_start (demo_turns ! 2)"
proof -
  have "turn_boundary_split demo_turns 1 = Some 2"
    by (simp add: demo_turns_def turn_boundary_split_def widen_split.simps last_turn_start_def inner_index_def is_turn_start_def
        user_message_def)
  from turn_boundary_split_sound [OF this] show ?thesis by blast
qed

theorem token_split_sound_witness:
  "int (estimate_message_array_tokens (drop 1 demo_turns) 150) \<le> 400 \<or> int (length demo_turns) - int 1 \<le> max 1 1"
proof -
  have "tokens_of 150 (user_message [] i) = 150" for i
    by (simp add: tokens_of_def estimate_message_tokens_def ceil_quarter_def user_message_def)
  then have tail: "estimate_message_array_tokens (drop 1 demo_turns) 150 = 300"
    by (simp add: demo_turns_def estimate_message_array_tokens_def)
  have count: "split_index_for_compaction demo_turns 2 = Some 1"
    by (simp add: demo_turns_def split_index_for_compaction_def skip_while_def inner_index_def user_message_def)
  have len: "length demo_turns = 3" and skip: "skip_while is_result (take 2 demo_turns) (Suc 0) = Suc 0"
    by (simp_all add: demo_turns_def skip_while_def user_message_def is_result_def eval_nat_numeral)
  have "split_index_for_token_budget demo_turns 400 1 2 150 = Some 1"
    using tail len skip by (simp add: split_index_for_token_budget_def count Let_def shrink_tail_stop)
  from token_split_sound [OF this] show ?thesis by blast
qed

definition demo_killed :: "message list" where
  "demo_killed = [user_message [] 0,
     (user_message [] 0)\<lparr>ms_role := Assistant, ms_content := C_Blocks [B_Call (lit ''a'') (lit ''exec'') None, B_Call (lit ''b'') (lit ''exec'') None]\<rparr>,
     (user_message [] 0)\<lparr>ms_role := Tool_Result, ms_content := C_Blocks [], ms_call_id := lit ''a''\<rparr>]"

theorem repair_completes_turn_witness:
  "missing_calls (fst (repair_interrupted_tail_messages 7 demo_killed)) = []
   \<and> fst (repair_interrupted_tail_messages 7 demo_killed) = demo_killed @ map (interrupted_result 7) (missing_calls demo_killed)"
proof -
  have "paired {} demo_killed"
    by (simp add: demo_killed_def user_message_def is_result_def calls_of_def blocks_of_def)
  from repair_completes_turn [OF this, of 7] show ?thesis by blast
qed

end
