(* ===== verification/Compaction_Facts.thy ===== *)
theory Compaction_Facts
  imports Session_Split
begin

text \<open>
  What a compaction writes in place of the messages it folds away: the facts derived from them
  (\<^verbatim>\<open>packages/agent-runtime/src/compaction-facts.ts\<close>), the extractive fallback and the chunked summary with its circuit
  breaker (\<^verbatim>\<open>session-manager.ts\<close>). The collation order of file and tool names (\<^verbatim>\<open>localeCompare\<close>) is the parameter \<open>le\<close>, the
  model that summarises is the parameter \<open>sf\<close>, \<^const>\<open>None\<close> when it throws.
\<close>

section \<open>compaction-facts.ts\<close>

definition read_tools :: "utf16 list" where
  "read_tools = [lit ''read_file'']"

definition edit_tools :: "utf16 list" where
  "edit_tools = map lit [''edit_file'', ''write_file'', ''multi_edit'', ''apply_patch'']"

definition path_keys :: "utf16 list" where
  "path_keys = map lit [''path'', ''file_path'', ''target_file'', ''filePath'']"

record file_touched =
  ft_read :: bool
  ft_edited :: bool

record facts =
  fa_files :: "(utf16 \<times> file_touched) list"
  fa_tools :: "(utf16 \<times> nat) list"
  fa_last_error :: "utf16 option"

definition path_value :: "json \<Rightarrow> utf16 \<Rightarrow> utf16 option" where
  "path_value args k =
     (case json_get args k of Some (JStr s) \<Rightarrow> if trim16 s \<noteq> [] then Some (trim16 s) else None | _ \<Rightarrow> None)"

definition path_of :: "json option \<Rightarrow> utf16 option" where
  "path_of args =
     (case args of
        None \<Rightarrow> None
      | Some v \<Rightarrow> (case List.map_filter (path_value v) path_keys of p # _ \<Rightarrow> Some p | [] \<Rightarrow> None))"

definition touch_file :: "utf16 \<Rightarrow> (file_touched \<Rightarrow> file_touched) \<Rightarrow> facts \<Rightarrow> facts" where
  "touch_file p f fs =
     (let e = (case om_get (fa_files fs) p of Some e \<Rightarrow> e | None \<Rightarrow> \<lparr>ft_read = False, ft_edited = False\<rparr>)
      in fs\<lparr>fa_files := om_set p (f e) (fa_files fs)\<rparr>)"

definition collect_call :: "facts \<Rightarrow> block \<Rightarrow> facts" where
  "collect_call fs b =
     (let n = bc_name b;
          count = (case om_get (fa_tools fs) n of Some c \<Rightarrow> c | None \<Rightarrow> 0);
          fs' = fs\<lparr>fa_tools := om_set n (count + 1) (fa_tools fs)\<rparr>
      in case path_of (bc_args b) of
           None \<Rightarrow> fs'
         | Some p \<Rightarrow>
             if n \<in> set read_tools then touch_file p (\<lambda>e. e\<lparr>ft_read := True\<rparr>) fs'
             else if n \<in> set edit_tools then touch_file p (\<lambda>e. e\<lparr>ft_edited := True\<rparr>) fs'
             else fs')"

definition first_line :: "utf16 \<Rightarrow> utf16 option" where
  "first_line s = find (\<lambda>l. l \<noteq> []) (map trim16 (split_lines s))"

definition collect_message :: "facts \<Rightarrow> message \<Rightarrow> facts" where
  "collect_message fs m =
     (if ms_role m = Assistant then foldl collect_call fs (calls_of m)
      else if is_result m \<and> ms_error m
      then (case first_line (text_of m) of None \<Rightarrow> fs | Some l \<Rightarrow> fs\<lparr>fa_last_error := Some l\<rparr>)
      else fs)"

text \<open>\<^verbatim>\<open>Array.prototype.sort\<close> is stable.\<close>

fun insert_by :: "('a \<Rightarrow> 'a \<Rightarrow> bool) \<Rightarrow> 'a \<Rightarrow> 'a list \<Rightarrow> 'a list" where
  "insert_by le x [] = [x]"
| "insert_by le x (y # ys) = (if le x y then x # y # ys else y # insert_by le x ys)"

definition stable_sort :: "('a \<Rightarrow> 'a \<Rightarrow> bool) \<Rightarrow> 'a list \<Rightarrow> 'a list" where
  "stable_sort le xs = foldr (insert_by le) xs []"

definition gather_facts :: "message list \<Rightarrow> facts" where
  "gather_facts ms = foldl collect_message \<lparr>fa_files = [], fa_tools = [], fa_last_error = None\<rparr> ms"

definition collect_compaction_facts :: "(utf16 \<Rightarrow> utf16 \<Rightarrow> bool) \<Rightarrow> message list \<Rightarrow> facts" where
  "collect_compaction_facts le ms =
     (let fs = gather_facts ms
      in fs\<lparr>fa_files := stable_sort (\<lambda>a b. le (fst a) (fst b)) (fa_files fs),
            fa_tools := stable_sort (\<lambda>a b. snd a > snd b \<or> (snd a = snd b \<and> le (fst a) (fst b))) (fa_tools fs)\<rparr>)"

definition file_line :: "utf16 \<times> file_touched \<Rightarrow> utf16" where
  "file_line = (\<lambda>(p, e). lit ''- `'' @ p @ lit ''` '' @ [8212] @ lit '' ''
     @ join_with (lit '', '') ((if ft_edited e then [lit ''edited''] else []) @ (if ft_read e then [lit ''read''] else [])))"

definition tool_line :: "utf16 \<times> nat \<Rightarrow> utf16" where
  "tool_line = (\<lambda>(n, c). lit ''- `'' @ n @ lit ''` '' @ [215] @ dec_text c)"

definition dropped_line :: "dropped_result \<Rightarrow> utf16" where
  "dropped_line d = lit ''- `'' @ dr_tool_name d @ lit ''('' @ dr_args d @ lit '')` '' @ [8212] @ lit '' ''
     @ locale_text (dr_chars d) @ lit '' chars''"

definition none_or :: "('a \<Rightarrow> utf16) \<Rightarrow> 'a list \<Rightarrow> utf16 list" where
  "none_or f xs = (if xs = [] then [lit ''- (none)''] else map f xs)"

definition render_compaction_facts :: "facts \<Rightarrow> dropped_result list \<Rightarrow> utf16" where
  "render_compaction_facts fs dropped = join_with [10]
     ([lit ''<!-- ground truth, generated -->'', lit ''## Files touched''] @ none_or file_line (fa_files fs)
      @ [lit ''## Tools used''] @ none_or tool_line (fa_tools fs)
      @ [lit ''## Current state'',
         (case fa_last_error fs of Some l \<Rightarrow> lit ''- Last error seen: '' @ l
          | None \<Rightarrow> lit ''- No failing tool result in the compacted range.'')]
      @ (if dropped = [] then []
         else [lit ''## Dropped tool outputs'',
               lit ''  (outputs cleared by this compaction '' @ [8212] @ lit '' re-run the call to see it again)'']
              @ map dropped_line dropped))"

section \<open>Summaries\<close>

text \<open>\<^verbatim>\<open>SessionManager.extractText\<close>: blocks joined by a space.\<close>

definition extract_text :: "message \<Rightarrow> utf16" where
  "extract_text m =
     (case ms_content m of C_String s \<Rightarrow> s | C_Blocks bs \<Rightarrow> join_with [32] (map block_text (filter is_text bs)))"

definition lower_unit :: "16 word \<Rightarrow> 16 word" where
  "lower_unit u = (if 65 \<le> unat u \<and> unat u \<le> 90 then u + 32 else u)"

definition includes16 :: "utf16 \<Rightarrow> utf16 \<Rightarrow> bool" where
  "includes16 s t = list_ex (\<lambda>i. after_prefix t (drop i s) \<noteq> None) [0..<Suc (length s)]"

definition looks_like_error :: "utf16 \<Rightarrow> bool" where
  "looks_like_error s =
     (let t = map lower_unit (take 200 s) in list_ex (\<lambda>w. includes16 t (lit w)) [''error'', ''failed'', ''not found''])"

fun role_text :: "role \<Rightarrow> utf16" where
  "role_text User = lit ''user''"
| "role_text Assistant = lit ''assistant''"
| "role_text Tool_Result = lit ''toolResult''"

definition fallback_part :: "message \<Rightarrow> utf16 option" where
  "fallback_part m =
     (let s = extract_text m;
          limit = (if is_result m then (if looks_like_error s then 800 else 300) else if ms_role m = User then 600 else 400)
      in if s = [] then None
         else Some (role_text (ms_role m) @ lit '': '' @ (if length s > limit then take limit s @ lit ''...'' else s)))"

definition fallback_summarize :: "message list \<Rightarrow> utf16" where
  "fallback_summarize ms =
     lit ''[Compacted '' @ dec_text (length ms) @ lit '' messages]'' @ [10] @ join_with [10] (List.map_filter fallback_part ms)"

text \<open>One round of the chunking loop: the finished chunks, the current one and its tokens.\<close>

definition chunk_step :: "nat \<Rightarrow> int \<Rightarrow> message list list \<times> message list \<times> nat \<Rightarrow> message \<Rightarrow> message list list \<times> message list \<times> nat" where
  "chunk_step per budget = (\<lambda>(chunks, current, n) m.
     let t = tokens_of per m
     in if current \<noteq> [] \<and> int (n + t) > budget then (chunks @ [current], [m], t)
        else (chunks, current @ [m], n + t))"

definition chunks_of :: "nat \<Rightarrow> int \<Rightarrow> message list \<Rightarrow> message list list" where
  "chunks_of per budget head =
     (case foldl (chunk_step per budget) ([], [], 0) head of
        (chunks, current, n) \<Rightarrow> if current \<noteq> [] then chunks @ [current] else chunks)"

record breaker =
  br_failures :: int
  br_tripped :: bool

definition reset_circuit_breaker :: "breaker \<Rightarrow> breaker" where
  "reset_circuit_breaker b = \<lparr>br_failures = 0, br_tripped = False\<rparr>"

type_synonym summarizer = "message list \<Rightarrow> utf16 option \<Rightarrow> utf16 option"

fun fold_chunks :: "summarizer \<Rightarrow> int \<Rightarrow> message list \<Rightarrow> message list list \<Rightarrow> utf16 option \<Rightarrow> breaker \<Rightarrow> utf16 \<times> breaker" where
  "fold_chunks sf max_failures head [] summary b =
     ((case summary of Some s \<Rightarrow> s | None \<Rightarrow> fallback_summarize head), b)"
| "fold_chunks sf max_failures head (c # cs) summary b =
     (case sf c summary of
        Some s \<Rightarrow> fold_chunks sf max_failures head cs (Some s) (b\<lparr>br_failures := 0\<rparr>)
      | None \<Rightarrow>
          let b' = b\<lparr>br_failures := br_failures b + 1\<rparr>
          in if br_failures b' \<ge> max_failures then (fallback_summarize head, b'\<lparr>br_tripped := True\<rparr>)
             else
               let extract = fallback_summarize c
               in fold_chunks sf max_failures head cs
                    (Some (case summary of Some s \<Rightarrow> if s \<noteq> [] then s @ [10, 10] @ extract else extract
                           | None \<Rightarrow> extract)) b')"

definition summarize_head ::
    "summarizer option \<Rightarrow> nat \<Rightarrow> int \<Rightarrow> int \<Rightarrow> message list \<Rightarrow> utf16 option \<Rightarrow> breaker \<Rightarrow> utf16 \<times> breaker" where
  "summarize_head sf per budget max_failures head previous b =
     (if head = [] then (lit ''(summary unavailable)'', b)
      else
        (case sf of
           None \<Rightarrow> (fallback_summarize head, b)
         | Some f \<Rightarrow>
             if br_tripped b then (fallback_summarize head, b)
             else fold_chunks f max_failures head (chunks_of per budget head) previous b))"

section \<open>The facts are the facts\<close>

definition call_count :: "utf16 \<Rightarrow> block list \<Rightarrow> nat" where
  "call_count n bs = length (filter (\<lambda>b. bc_name b = n) bs)"

definition touches :: "utf16 list \<Rightarrow> utf16 \<Rightarrow> block \<Rightarrow> bool" where
  "touches names p b \<longleftrightarrow> bc_name b \<in> set names \<and> path_of (bc_args b) = Some p"

text \<open>What has been gathered from the calls \<open>bs\<close> so far.\<close>

definition gathered :: "block list \<Rightarrow> facts \<Rightarrow> bool" where
  "gathered bs fs \<longleftrightarrow>
     om_ok (fa_tools fs) \<and> om_ok (fa_files fs)
     \<and> (\<forall>n. om_get (fa_tools fs) n = (if call_count n bs = 0 then None else Some (call_count n bs)))
     \<and> (\<forall>p. om_get (fa_files fs) p =
          (if list_ex (touches (read_tools @ edit_tools) p) bs
           then Some \<lparr>ft_read = list_ex (touches read_tools p) bs, ft_edited = list_ex (touches edit_tools p) bs\<rparr>
           else None))"

lemma tools_disjoint: "n \<in> set read_tools \<Longrightarrow> n \<notin> set edit_tools"
  by (auto simp: read_tools_def edit_tools_def lit_def)

lemma touches_append:
  "list_ex (touches (xs @ ys) p) bs \<longleftrightarrow> list_ex (touches xs p) bs \<or> list_ex (touches ys p) bs"
  by (auto simp: list_ex_iff touches_def)

lemma collect_call_gathered:
  assumes "gathered bs fs"
  shows "gathered (bs @ [b]) (collect_call fs b)"
  using assms tools_disjoint [of "bc_name b"]
  by (auto simp: gathered_def collect_call_def touch_file_def touches_append touches_def call_count_def Let_def split: option.split)

lemma collect_message_gathered:
  assumes "gathered bs fs"
  shows "gathered (bs @ calls_of m) (collect_message fs m)"
proof -
  have "gathered (bs @ cs) (foldl collect_call fs cs)" for cs
  proof (induction cs rule: rev_induct)
    case (snoc c cs)
    then show ?case using collect_call_gathered [OF snoc, of c] by simp
  qed (simp add: assms)
  moreover have "gathered bs (fs\<lparr>fa_last_error := e\<rparr>)" for e using assms by (simp add: gathered_def)
  ultimately show ?thesis using assms
    by (auto simp: collect_message_def calls_of_def split: option.split)
qed

lemma gather_gathered: "gathered (concat (map calls_of ms)) (gather_facts ms)"
proof (induction ms rule: rev_induct)
  case Nil
  show ?case by (simp add: gather_facts_def gathered_def call_count_def)
next
  case (snoc m ms)
  then show ?case using collect_message_gathered [OF snoc, of m] by (simp add: gather_facts_def)
qed

lemma set_insert_by [simp]: "set (insert_by le x xs) = insert x (set xs)"
  by (induction xs) auto

lemma set_stable_sort [simp]: "set (stable_sort le xs) = set xs"
  by (induction xs) (simp_all add: stable_sort_def)

lemma om_ok_set_get: "om_ok m \<Longrightarrow> (k, v) \<in> set m \<longleftrightarrow> om_get m k = Some v"
  by (auto simp: om_ok_def dest: map_of_SomeD)

text \<open>C33: The block appended to a summary is true. It names exactly the tools the folded messages called, each
  with its number of calls, and exactly the files named in calls of a read or edit tool, each marked read and edited
  as it was, in whatever order names are collated.\<close>

theorem facts_are_true:
  fixes ms :: "message list" and le :: "utf16 \<Rightarrow> utf16 \<Rightarrow> bool"
  defines "bs \<equiv> concat (map calls_of ms)"
  shows "set (fa_tools (collect_compaction_facts le ms)) = {(n, c). c = call_count n bs \<and> c \<noteq> 0}
    \<and> set (fa_files (collect_compaction_facts le ms))
      = {(p, e). list_ex (touches (read_tools @ edit_tools) p) bs
          \<and> e = \<lparr>ft_read = list_ex (touches read_tools p) bs, ft_edited = list_ex (touches edit_tools p) bs\<rparr>}"
proof -
  have g: "gathered bs (gather_facts ms)" unfolding bs_def by (rule gather_gathered)
  have "(n, c) \<in> set (fa_tools (gather_facts ms)) \<longleftrightarrow> c = call_count n bs \<and> c \<noteq> 0" for n c
    using g om_ok_set_get [of "fa_tools (gather_facts ms)" n c] by (auto simp: gathered_def)
  moreover have "(p, e) \<in> set (fa_files (gather_facts ms)) \<longleftrightarrow> list_ex (touches (read_tools @ edit_tools) p) bs
      \<and> e = \<lparr>ft_read = list_ex (touches read_tools p) bs, ft_edited = list_ex (touches edit_tools p) bs\<rparr>" for p e
    using g om_ok_set_get [of "fa_files (gather_facts ms)" p e] by (auto simp: gathered_def)
  ultimately show ?thesis by (auto simp: collect_compaction_facts_def Let_def)
qed

section \<open>Chunks and the breaker\<close>

definition chunk_fits :: "nat \<Rightarrow> int \<Rightarrow> message list \<Rightarrow> bool" where
  "chunk_fits per budget c \<longleftrightarrow>
     c \<noteq> [] \<and> (length c = 1 \<or> int (estimate_message_array_tokens c per) \<le> budget)"

definition chunking :: "nat \<Rightarrow> int \<Rightarrow> message list \<Rightarrow> message list list \<times> message list \<times> nat \<Rightarrow> bool" where
  "chunking per budget head = (\<lambda>(chunks, current, n).
     concat chunks @ current = head \<and> list_all (chunk_fits per budget) chunks
     \<and> n = estimate_message_array_tokens current per \<and> (current = [] \<or> chunk_fits per budget current))"

lemma chunk_step_chunking:
  assumes "chunking per budget head s"
  shows "chunking per budget (head @ [m]) (chunk_step per budget s m)"
proof -
  obtain chunks current n where s: "s = (chunks, current, n)" by (cases s) auto
  show ?thesis using assms
    by (cases "current = []") (auto simp: s chunking_def chunk_step_def chunk_fits_def estimate_message_array_tokens_def Let_def)
qed

lemma chunks_of_spec: "concat (chunks_of per budget head) = head \<and> list_all (chunk_fits per budget) (chunks_of per budget head)"
proof -
  have "chunking per budget head (foldl (chunk_step per budget) ([], [], 0) head)"
  proof (induction head rule: rev_induct)
    case Nil
    show ?case by (simp add: chunking_def estimate_message_array_tokens_def)
  next
    case (snoc m head)
    then show ?case using chunk_step_chunking [OF snoc, of m] by simp
  qed
  then show ?thesis by (auto simp: chunks_of_def chunking_def split: prod.splits)
qed

text \<open>The running summary after one more chunk: what the model says, or the extract when it fails.\<close>

definition next_summary :: "summarizer \<Rightarrow> utf16 option \<Rightarrow> message list \<Rightarrow> utf16 option" where
  "next_summary sf summary c =
     (case sf c summary of
        Some s \<Rightarrow> Some s
      | None \<Rightarrow>
          Some (case summary of
                  Some s \<Rightarrow> if s \<noteq> [] then s @ [10, 10] @ fallback_summarize c else fallback_summarize c
                | None \<Rightarrow> fallback_summarize c))"

lemma fold_chunks_spec:
  assumes "\<not> br_tripped b"
  shows "fst (fold_chunks sf mx head cs summary b)
    = (if br_tripped (snd (fold_chunks sf mx head cs summary b)) then fallback_summarize head
       else (case foldl (next_summary sf) summary cs of Some s \<Rightarrow> s | None \<Rightarrow> fallback_summarize head))"
  using assms
proof (induction sf mx head cs summary b rule: fold_chunks.induct)
  case (2 sf mx head c cs summary b)
  then show ?case by (cases "sf c summary") (auto simp: Let_def next_summary_def)
qed simp

text \<open>No part of a folded head is left out of its summary. The chunks are the head, in order, each within the
  budget unless it is a single message; the summary is the left fold of the model over them, continuing the previous
  summary, a failed chunk standing as its extract; and once the breaker is open it is the extract of the whole head.\<close>

theorem summary_covers_head:
  fixes sf :: summarizer and per :: nat and budget mx :: int and b :: breaker and head :: "message list" and previous :: "utf16 option"
  assumes "head \<noteq> []"
  defines "r \<equiv> summarize_head (Some sf) per budget mx head previous b"
  shows "concat (chunks_of per budget head) = head \<and> list_all (chunk_fits per budget) (chunks_of per budget head)
    \<and> Some (fst r) = (if br_tripped (snd r) then Some (fallback_summarize head)
                      else foldl (next_summary sf) previous (chunks_of per budget head))"
proof -
  let ?cs = "chunks_of per budget head"
  have "?cs \<noteq> []" using assms(1) chunks_of_spec [of per budget head] by auto
  then obtain c cs where cs: "?cs = c # cs" by (cases ?cs) auto
  have some: "foldl (next_summary sf) (Some s) ds \<noteq> None" for s ds
    by (induction ds arbitrary: s) (auto simp: next_summary_def split: option.split)
  have "foldl (next_summary sf) previous ?cs \<noteq> None"
    using some by (auto simp: cs next_summary_def split: option.split)
  then show ?thesis
    using chunks_of_spec [of per budget head] assms(1) fold_chunks_spec [of b sf mx head ?cs previous]
    by (cases "br_tripped b") (auto simp: r_def summarize_head_def)
qed

text \<open>With the breaker open the previous summary is not continued but dropped.\<close>

theorem open_breaker_forgets:
  "fst (summarize_head sf per budget mx head previous (b\<lparr>br_tripped := True\<rparr>))
   = fst (summarize_head sf per budget mx head None (b\<lparr>br_tripped := True\<rparr>))"
  by (simp add: summarize_head_def split: option.split)

theorem summary_covers_head_witness:
  "concat (chunks_of 150 200 [user_message [] 0, user_message [] 1]) = [user_message [] 0, user_message [] 1]"
  using summary_covers_head [of "[user_message [] 0, user_message [] 1]" 150 200 "\<lambda>c s. None" 3 None "\<lparr>br_failures = 0, br_tripped = False\<rparr>"]
  by simp

end
