(* ===== verification/Session_Manager.thy ===== *)
theory Session_Manager
  imports Compaction_Facts
begin

text \<open>
  The class \<^verbatim>\<open>SessionManager\<close> (\<^verbatim>\<open>packages/agent-runtime/src/session-manager.ts\<close>): the sessions in memory, the store they are
  persisted to, and compaction. The store is the copy a persistence backend holds; \<open>io\<close> is the outcome of the two
  attempts of a save. A save is taken to end before the next operation, so \<^verbatim>\<open>pendingSaves\<close> is not modelled. What spans
  an \<^verbatim>\<open>await\<close> (the summary, the sweep for empty sessions) is cut there.
\<close>

datatype auto_tier = Economy | Standard | Premium

record session =
  se_messages :: "message list"
  se_summary :: "utf16 option"
  se_created_at :: int
  se_last_activity :: int
  se_total_messages :: int
  se_compaction_count :: nat
  se_auto_ceiling :: "auto_tier option"
  se_auto_ceiling_at :: "int option"
  se_stop_requested :: bool
  se_metadata :: "(utf16 \<times> json) list"

record manager_config =
  cf_session_ttl_seconds :: int
  cf_tokens_per_message :: nat
  cf_keep_recent :: int
  cf_empty_retention_days :: "int option"
  cf_pruning :: "pruning_config option"
  cf_context_window :: "int option"
  cf_max_output :: "int option"
  cf_buffer :: "int option"
  cf_chunk_tokens :: "int option"
  cf_max_failures :: "int option"
  cf_tail_budget :: "int option"
  cf_tail_ratio :: "rat option"
  cf_variant :: "string option"
  cf_min_keep :: "int option"

definition default_config :: manager_config where
  "default_config = \<lparr>cf_session_ttl_seconds = 3600, cf_tokens_per_message = 150, cf_keep_recent = 10,
     cf_empty_retention_days = Some 30, cf_pruning = Some default_pruning, cf_context_window = None, cf_max_output = None,
     cf_buffer = None, cf_chunk_tokens = None, cf_max_failures = None, cf_tail_budget = None, cf_tail_ratio = None,
     cf_variant = None, cf_min_keep = None\<rparr>"

text \<open>The environment variables read, numbers as they are read, \<^const>\<open>None\<close> when not finite.\<close>

record manager_env =
  en_turn_aware :: "utf16 option"
  en_autocompact_tokens :: "rat option"
  en_tail_ratio :: "rat option"
  en_variant :: "string option"

record manager =
  sm_sessions :: "(utf16, session) ordmap"
  sm_config :: manager_config
  sm_env :: manager_env
  sm_summarizer :: "summarizer option"
  sm_store :: "(utf16, session) ordmap option"
  sm_breaker :: breaker

type_synonym save_outcome = "bool \<times> bool"

section \<open>Budgets\<close>

definition resolve_tail_budget_ratio :: "rat option \<Rightarrow> rat" where
  "resolve_tail_budget_ratio raw = (case raw of Some q \<Rightarrow> if 0 < q \<and> q < 1 then q else 2 / 5 | None \<Rightarrow> 2 / 5)"

definition resolve_idle_compact_after_ms :: "rat option option \<Rightarrow> rat" where
  "resolve_idle_compact_after_ms raw =
     (case raw of
        None \<Rightarrow> 600000
      | Some None \<Rightarrow> 600000
      | Some (Some q) \<Rightarrow> if q < 0 then 600000 else if q = 0 then 0 else q * 60000)"

definition resolve_auto_compact_tokens :: "rat option \<Rightarrow> int option \<Rightarrow> int option \<Rightarrow> int option \<Rightarrow> int" where
  "resolve_auto_compact_tokens env window max_output buffer_tokens =
     (let cap = (case env of Some q \<Rightarrow> if q > 0 then \<lfloor>q\<rfloor> else 235000 | None \<Rightarrow> 235000);
          window_tokens = (case window of Some w \<Rightarrow> if w > 0 then w else 200000 | None \<Rightarrow> 200000);
          reserve = (case max_output of Some n \<Rightarrow> n | None \<Rightarrow> 16384) + (case buffer_tokens of Some n \<Rightarrow> n | None \<Rightarrow> 15000);
          room = window_tokens - reserve
      in if room > 0 then min room cap else room)"

definition context_window_tokens :: "manager \<Rightarrow> int" where
  "context_window_tokens m = (case cf_context_window (sm_config m) of Some n \<Rightarrow> n | None \<Rightarrow> 200000)"

definition set_context_window_tokens :: "int option \<Rightarrow> manager \<Rightarrow> manager" where
  "set_context_window_tokens n m =
     m\<lparr>sm_config := (sm_config m)\<lparr>cf_context_window := (case n of Some k \<Rightarrow> if k > 0 then Some k else None | None \<Rightarrow> None)\<rparr>\<rparr>"

definition autocompact_threshold :: "manager \<Rightarrow> int" where
  "autocompact_threshold m =
     resolve_auto_compact_tokens (en_autocompact_tokens (sm_env m)) (cf_context_window (sm_config m))
       (cf_max_output (sm_config m)) (cf_buffer (sm_config m))"

definition context_budget_chars :: "manager \<Rightarrow> int" where
  "context_budget_chars m = autocompact_threshold m * 4"

definition turn_keep_max_ratio :: rat where
  "turn_keep_max_ratio = 2 / 5"

definition max_safe_integer :: int where
  "max_safe_integer = 9007199254740991"

definition ratio_budget :: "int \<Rightarrow> rat option \<Rightarrow> rat option \<Rightarrow> int" where
  "ratio_budget threshold cfg env =
     (if threshold \<le> 0 then max_safe_integer
      else
        let r = (case cfg of Some q \<Rightarrow> q | None \<Rightarrow> resolve_tail_budget_ratio env)
        in max 1 \<lfloor>of_int threshold * (if 0 < r \<and> r < 1 then r else 2 / 5)\<rfloor>)"

definition compaction_tail_budget_tokens :: "manager \<Rightarrow> int" where
  "compaction_tail_budget_tokens m =
     (let auto = ratio_budget (autocompact_threshold m) (cf_tail_ratio (sm_config m)) (en_tail_ratio (sm_env m))
      in case cf_tail_budget (sm_config m) of Some n \<Rightarrow> if n \<noteq> 0 then n else auto | None \<Rightarrow> auto)"

section \<open>Sessions and the store\<close>

definition persist_session :: "save_outcome \<Rightarrow> utf16 \<Rightarrow> session \<Rightarrow> manager \<Rightarrow> manager" where
  "persist_session io i s m =
     (case sm_store m of
        None \<Rightarrow> m
      | Some st \<Rightarrow>
          if fst io \<or> snd io then m\<lparr>sm_store := Some (om_set i (s\<lparr>se_stop_requested := False\<rparr>) st)\<rparr> else m)"

definition put_session :: "utf16 \<Rightarrow> session \<Rightarrow> manager \<Rightarrow> manager" where
  "put_session i s m = m\<lparr>sm_sessions := om_set i s (sm_sessions m)\<rparr>"

definition save_session :: "save_outcome \<Rightarrow> utf16 \<Rightarrow> session \<Rightarrow> manager \<Rightarrow> manager" where
  "save_session io i s m = persist_session io i s (put_session i s m)"

definition get_session :: "utf16 \<Rightarrow> manager \<Rightarrow> session option" where
  "get_session i m = om_get (sm_sessions m) i"

definition new_session :: "int \<Rightarrow> session" where
  "new_session now = \<lparr>se_messages = [], se_summary = None, se_created_at = now, se_last_activity = now, se_total_messages = 0,
     se_compaction_count = 0, se_auto_ceiling = None, se_auto_ceiling_at = None, se_stop_requested = False, se_metadata = []\<rparr>"

definition get_or_create :: "int \<Rightarrow> utf16 \<Rightarrow> manager \<Rightarrow> session \<times> manager" where
  "get_or_create now i m =
     (case get_session i m of
        Some s \<Rightarrow> (s, m)
      | None \<Rightarrow> (new_session now, put_session i (new_session now) m))"

definition restore_one :: "utf16 \<times> session \<Rightarrow> manager \<Rightarrow> manager" where
  "restore_one = (\<lambda>(i, s) m. if get_session i m = None then put_session i (s\<lparr>se_stop_requested := False\<rparr>) m else m)"

definition restore_sessions :: "manager \<Rightarrow> manager" where
  "restore_sessions m = (case sm_store m of None \<Rightarrow> m | Some st \<Rightarrow> fold restore_one st m)"

definition load_session :: "utf16 \<Rightarrow> manager \<Rightarrow> manager" where
  "load_session i m =
     (case get_session i m of
        Some s \<Rightarrow> m
      | None \<Rightarrow>
          (case sm_store m of
             None \<Rightarrow> m
           | Some st \<Rightarrow> (case om_get st i of None \<Rightarrow> m | Some s \<Rightarrow> put_session i (s\<lparr>se_stop_requested := False\<rparr>) m)))"

definition get_or_create_async :: "int \<Rightarrow> utf16 \<Rightarrow> manager \<Rightarrow> manager" where
  "get_or_create_async now i m = snd (get_or_create now i (load_session i m))"

definition touch_session :: "int \<Rightarrow> utf16 \<Rightarrow> manager \<Rightarrow> manager" where
  "touch_session now i m =
     (case get_session i m of None \<Rightarrow> m | Some s \<Rightarrow> put_session i (s\<lparr>se_last_activity := now\<rparr>) m)"

definition idle_gap_ms :: "int \<Rightarrow> utf16 \<Rightarrow> manager \<Rightarrow> int" where
  "idle_gap_ms now i m = (case get_session i m of None \<Rightarrow> 0 | Some s \<Rightarrow> max 0 (now - se_last_activity s))"

definition estimate_tokens :: "manager \<Rightarrow> session \<Rightarrow> nat" where
  "estimate_tokens m s =
     (case se_summary s of None \<Rightarrow> 0 | Some t \<Rightarrow> ceil_quarter (length t))
     + estimate_message_array_tokens (se_messages s) (cf_tokens_per_message (sm_config m))"

definition needs_compaction :: "manager \<Rightarrow> session \<Rightarrow> bool" where
  "needs_compaction m s \<longleftrightarrow> int (estimate_tokens m s) > autocompact_threshold m"

definition add_messages :: "int \<Rightarrow> save_outcome \<Rightarrow> utf16 \<Rightarrow> message list \<Rightarrow> manager \<Rightarrow> manager \<times> bool" where
  "add_messages now io i msgs m =
     (case get_or_create now i m of
        (s, m1) \<Rightarrow>
          let s' = s\<lparr>se_messages := se_messages s @ msgs, se_last_activity := now,
                     se_total_messages := se_total_messages s + int (length msgs)\<rparr>
          in (save_session io i s' m1, needs_compaction m1 s'))"

text \<open>Messages are removed by identity: \<open>gone\<close> are the places of the given objects.\<close>

definition remove_messages :: "save_outcome \<Rightarrow> utf16 \<Rightarrow> nat set \<Rightarrow> manager \<Rightarrow> manager \<times> nat" where
  "remove_messages io i gone m =
     (case get_session i m of
        None \<Rightarrow> (m, 0)
      | Some s \<Rightarrow>
          let kept = nths (se_messages s) (- gone);
              removed = length (se_messages s) - length kept
          in if removed > 0
             then (save_session io i (s\<lparr>se_messages := kept, se_total_messages := max 0 (se_total_messages s - int removed)\<rparr>) m,
                   removed)
             else (m, 0))"

definition set_session_metadata :: "save_outcome \<Rightarrow> utf16 \<Rightarrow> (utf16 \<times> json) list \<Rightarrow> manager \<Rightarrow> manager" where
  "set_session_metadata io i patch m =
     (case get_session i m of
        None \<Rightarrow> m
      | Some s \<Rightarrow> save_session io i (s\<lparr>se_metadata := fold (\<lambda>(k, v). om_set k v) patch (se_metadata s)\<rparr>) m)"

definition repair_interrupted_tail :: "int \<Rightarrow> save_outcome \<Rightarrow> utf16 \<Rightarrow> manager \<Rightarrow> manager \<times> (utf16 \<times> utf16) list" where
  "repair_interrupted_tail now io i m =
     (case get_session i m of
        None \<Rightarrow> (m, [])
      | Some s \<Rightarrow>
          if se_messages s = [] then (m, [])
          else
            (case repair_interrupted_tail_messages now (se_messages s) of
               (ms, repaired) \<Rightarrow>
                 if repaired = [] then (m, []) else (save_session io i (s\<lparr>se_messages := ms\<rparr>) m, repaired)))"

definition interrupted_marker :: utf16 where
  "interrupted_marker = lit ''[interrupted here]''"

definition interrupted_partial_message :: "utf16 \<Rightarrow> utf16" where
  "interrupted_partial_message partial =
     (let s = rev (dropWhile js16_space (rev partial))
      in if s \<noteq> [] then s @ [10, 10] @ interrupted_marker else interrupted_marker)"

definition append_interrupted_partial :: "int \<Rightarrow> save_outcome \<Rightarrow> utf16 \<Rightarrow> utf16 \<Rightarrow> manager \<Rightarrow> manager \<times> bool" where
  "append_interrupted_partial now io i partial m =
     (let t = trim16 partial
      in case get_session i m of
           None \<Rightarrow> (m, False)
         | Some s \<Rightarrow>
             if t = [] then (m, False)
             else if se_messages s \<noteq> [] \<and> includes16 (extract_text (last (se_messages s))) t then (m, False)
             else
               let msg = \<lparr>ms_role = Assistant, ms_content = C_Blocks [B_Text (interrupted_partial_message t)], ms_call_id = [],
                     ms_tool_name = [], ms_error = False, ms_stop = lit ''stop'', ms_background_note = False,
                     ms_round_placeholder = False, ms_timestamp = now\<rparr>
               in (save_session io i (s\<lparr>se_messages := se_messages s @ [msg], se_last_activity := now,
                     se_total_messages := se_total_messages s + 1\<rparr>) m, True))"

definition set_auto_tier_ceiling :: "int \<Rightarrow> save_outcome \<Rightarrow> utf16 \<Rightarrow> auto_tier option \<Rightarrow> manager \<Rightarrow> manager" where
  "set_auto_tier_ceiling now io i tier m =
     (case (get_session i m, tier) of
        (Some s, Some t) \<Rightarrow>
          save_session io i (s\<lparr>se_auto_ceiling := Some t, se_auto_ceiling_at := Some now, se_last_activity := now\<rparr>) m
      | _ \<Rightarrow> m)"

definition clear_history :: "int \<Rightarrow> utf16 \<Rightarrow> manager \<Rightarrow> manager" where
  "clear_history now i m =
     (case get_session i m of
        None \<Rightarrow> m
      | Some s \<Rightarrow> put_session i (s\<lparr>se_messages := [], se_summary := None, se_last_activity := now\<rparr>) m)"

definition forget_session :: "utf16 \<Rightarrow> manager \<Rightarrow> manager" where
  "forget_session i m = m\<lparr>sm_sessions := om_delete i (sm_sessions m)\<rparr>"

text \<open>\<open>ok\<close>: the backend's delete succeeds.\<close>

definition delete_session :: "bool \<Rightarrow> utf16 \<Rightarrow> manager \<Rightarrow> manager \<times> bool" where
  "delete_session ok i m =
     (let m' = forget_session i m
      in ((if ok then m'\<lparr>sm_store := map_option (om_delete i) (sm_store m')\<rparr> else m'), get_session i m \<noteq> None))"

definition set_compacted_summary :: "int \<Rightarrow> save_outcome \<Rightarrow> utf16 \<Rightarrow> utf16 option \<Rightarrow> bool \<Rightarrow> manager \<Rightarrow> manager" where
  "set_compacted_summary now io i summary replace m =
     (case get_or_create now i m of
        (s, m1) \<Rightarrow>
          let t = (case summary of None \<Rightarrow> [] | Some u \<Rightarrow> trim16 u)
          in if t = [] then m1
             else if se_summary s \<noteq> None \<and> se_summary s \<noteq> Some [] \<and> \<not> replace then m1
             else save_session io i (s\<lparr>se_summary := Some t\<rparr>) m1)"

section \<open>Compaction\<close>

record compaction_result =
  cr_messages_before :: nat
  cr_messages_after :: nat
  cr_compacted_count :: int
  cr_summary :: utf16
  cr_folded_rounds :: nat

definition split_index_for_compaction_tokens :: "manager \<Rightarrow> message list \<Rightarrow> int \<Rightarrow> nat option" where
  "split_index_for_compaction_tokens m ms keep =
     (case split_index_for_token_budget ms (compaction_tail_budget_tokens m)
             (case cf_min_keep (sm_config m) of Some n \<Rightarrow> n | None \<Rightarrow> 2) keep (cf_tokens_per_message (sm_config m)) of
        Some i \<Rightarrow> Some i
      | None \<Rightarrow> split_index_for_compaction ms keep)"

definition summarize_head_of :: "manager \<Rightarrow> message list \<Rightarrow> utf16 option \<Rightarrow> utf16 \<times> manager" where
  "summarize_head_of m head previous =
     (case summarize_head (sm_summarizer m) (cf_tokens_per_message (sm_config m))
             (case cf_chunk_tokens (sm_config m) of Some n \<Rightarrow> n | None \<Rightarrow> 24000)
             (case cf_max_failures (sm_config m) of Some n \<Rightarrow> n | None \<Rightarrow> 3) head previous (sm_breaker m) of
        (s, b) \<Rightarrow> (s, m\<lparr>sm_breaker := b\<rparr>))"

definition fold_oversized_turn ::
    "int \<Rightarrow> save_outcome \<Rightarrow> utf16 \<Rightarrow> int option \<Rightarrow> manager \<Rightarrow> manager \<times> nat \<times> nat \<times> nat" where
  "fold_oversized_turn now io i from m =
     (case get_session i m of
        None \<Rightarrow> (m, 0, 0, 0)
      | Some s \<Rightarrow>
          let ms = se_messages s;
              start = (case from of Some n \<Rightarrow> n | None \<Rightarrow> int (last_turn_start ms));
              max_chars = \<lfloor>of_int (context_budget_chars m) * turn_keep_max_ratio\<rfloor>
          in if int (su_chars (summarise_turn ms start)) \<le> max_chars then (m, 0, length ms, length ms)
             else
               let r = fold_turn_middle now ms start max_chars None
               in if fr_folded_rounds r = 0 then (m, 0, length ms, length ms)
                  else (save_session io i (s\<lparr>se_messages := fr_messages r, se_last_activity := now\<rparr>) m,
                        fr_folded_rounds r, length ms, length (fr_messages r)))"

definition apply_compaction ::
    "(utf16 \<Rightarrow> utf16 \<Rightarrow> bool) \<Rightarrow> int \<Rightarrow> save_outcome \<Rightarrow> utf16 \<Rightarrow> utf16 \<Rightarrow> nat \<Rightarrow> utf16 option \<Rightarrow> bool \<Rightarrow> manager
      \<Rightarrow> manager \<times> compaction_result option" where
  "apply_compaction le now io i summary split extra replace m =
     (case get_session i m of
        None \<Rightarrow> (m, None)
      | Some s \<Rightarrow>
          if split = 0 \<or> length (se_messages s) \<le> split then (m, None)
          else
            let head = take split (se_messages s); tail = drop split (se_messages s);
                existing = (case se_summary s of Some t \<Rightarrow> if t \<noteq> [] \<and> \<not> replace then t @ [10, 10] else [] | None \<Rightarrow> []);
                kept = apply_variant_to_kept_tail
                  (resolve_compaction_variant (cf_variant (sm_config m)) (en_variant (sm_env m))) tail;
                facts = render_compaction_facts (collect_compaction_facts le head) (snd kept);
                suffix = (case extra of Some t \<Rightarrow> if t \<noteq> [] then [10, 10] @ t else [] | None \<Rightarrow> [])
            in (save_session io i
                  (s\<lparr>se_summary := Some (existing @ summary @ [10, 10] @ facts @ suffix), se_messages := fst kept,
                    se_compaction_count := Suc (se_compaction_count s), se_last_activity := now\<rparr>) m,
                Some \<lparr>cr_messages_before = length (se_messages s), cr_messages_after = length (fst kept),
                  cr_compacted_count = int (length head), cr_summary = summary, cr_folded_rounds = 0\<rparr>))"

text \<open>\<^verbatim>\<open>compact\<close> up to its \<^verbatim>\<open>await\<close>, and after it.\<close>

definition compact_split :: "manager \<Rightarrow> int option \<Rightarrow> session \<Rightarrow> nat option" where
  "compact_split m aggressive s =
     (let keep = (case aggressive of Some n \<Rightarrow> n | None \<Rightarrow> cf_keep_recent (sm_config m))
      in if turn_aware_enabled (en_turn_aware (sm_env m)) then turn_boundary_split (se_messages s) keep
         else split_index_for_compaction_tokens m (se_messages s) keep)"

definition compact_without_split :: "int \<Rightarrow> save_outcome \<Rightarrow> utf16 \<Rightarrow> manager \<Rightarrow> manager \<times> compaction_result option" where
  "compact_without_split now io i m =
     (case fold_oversized_turn now io i None m of
        (m', folded, before, after) \<Rightarrow>
          (m', if folded = 0 then None
               else Some \<lparr>cr_messages_before = before, cr_messages_after = after,
                 cr_compacted_count = int before - int after, cr_summary = [], cr_folded_rounds = folded\<rparr>))"

definition compact_finish ::
    "(utf16 \<Rightarrow> utf16 \<Rightarrow> bool) \<Rightarrow> int \<Rightarrow> save_outcome \<Rightarrow> utf16 \<Rightarrow> utf16 \<Rightarrow> nat \<Rightarrow> utf16 option \<Rightarrow> manager
      \<Rightarrow> manager \<times> compaction_result option" where
  "compact_finish le now io i summary split extra m =
     (case apply_compaction le now io i summary split extra False m of
        (m1, None) \<Rightarrow> (m1, None)
      | (m1, Some r) \<Rightarrow>
          (case fold_oversized_turn now io i None m1 of
             (m2, folded, before, after) \<Rightarrow>
               (m2, Some (if folded > 0
                          then r\<lparr>cr_messages_after := after, cr_compacted_count := int (cr_messages_before r) - int after,
                                 cr_folded_rounds := folded\<rparr>
                          else r))))"

definition compact ::
    "(utf16 \<Rightarrow> utf16 \<Rightarrow> bool) \<Rightarrow> int \<Rightarrow> save_outcome \<Rightarrow> utf16 \<Rightarrow> utf16 option \<Rightarrow> int option \<Rightarrow> manager
      \<Rightarrow> manager \<times> compaction_result option" where
  "compact le now io i extra aggressive m =
     (case get_session i m of
        None \<Rightarrow> (m, None)
      | Some s \<Rightarrow>
          (case compact_split m aggressive s of
             None \<Rightarrow> compact_without_split now io i m
           | Some k \<Rightarrow>
               (case summarize_head_of m (take k (se_messages s)) None of
                  (summary, m1) \<Rightarrow> compact_finish le now io i summary k extra m1)))"

definition summary_prefix_messages :: "int \<Rightarrow> utf16 \<Rightarrow> message list" where
  "summary_prefix_messages now summary =
     [user_message (lit ''[Previous conversation summary]'' @ [10] @ summary) now,
      (user_message [] now)\<lparr>ms_role := Assistant,
        ms_content := C_Blocks [B_Text (lit ''Understood, I have the context from our previous conversation.'')], ms_stop := lit ''stop''\<rparr>]"

definition build_history :: "int \<Rightarrow> utf16 \<Rightarrow> manager \<Rightarrow> message list" where
  "build_history now i m =
     (case get_session i m of
        None \<Rightarrow> []
      | Some s \<Rightarrow>
          let msgs = (case se_summary s of Some t \<Rightarrow> if t \<noteq> [] then summary_prefix_messages now t else [] | None \<Rightarrow> [])
                     @ se_messages s
          in case cf_pruning (sm_config m) of
               None \<Rightarrow> msgs
             | Some cfg \<Rightarrow> prune_tool_results (en_turn_aware (sm_env m)) cfg msgs)"

section \<open>Eviction and reclamation\<close>

definition prune_expired :: "int \<Rightarrow> manager \<Rightarrow> manager \<times> utf16 list" where
  "prune_expired now m =
     (let old = (\<lambda>(i, s). now - se_last_activity s > cf_session_ttl_seconds (sm_config m) * 1000)
      in (m\<lparr>sm_sessions := filter (\<lambda>e. \<not> old e) (sm_sessions m)\<rparr>, map fst (filter old (sm_sessions m))))"

text \<open>The sweep finds its candidates, then deletes them one by one. A backend that lists them itself (\<^verbatim>\<open>listMessageLessIds\<close>
  of \<^verbatim>\<open>sqlite-session-persistence.ts\<close>) goes by the second in which a row was written, \<open>written\<close>, and not by the
  session's own time.\<close>

definition list_message_less_ids :: "(utf16 \<Rightarrow> int) \<Rightarrow> int \<Rightarrow> (utf16, session) ordmap \<Rightarrow> utf16 list" where
  "list_message_less_ids written cutoff st =
     map fst (filter (\<lambda>(i, s). written i < cutoff div 1000 \<and> se_messages s = []) st)"

definition reclaim_candidates :: "(utf16 \<Rightarrow> int) option \<Rightarrow> int \<Rightarrow> manager \<Rightarrow> utf16 list" where
  "reclaim_candidates listing now m =
     (let days = (case cf_empty_retention_days (sm_config m) of Some d \<Rightarrow> d | None \<Rightarrow> 30);
          cutoff = now - days * 24 * 60 * 60 * 1000
      in case sm_store m of
           None \<Rightarrow> []
         | Some st \<Rightarrow>
             if days \<le> 0 then []
             else (case listing of
                     Some written \<Rightarrow> list_message_less_ids written cutoff st
                   | None \<Rightarrow> map fst (filter (\<lambda>(i, s). se_messages s = [] \<and> se_last_activity s \<le> cutoff) st)))"

definition reclaim_one :: "bool \<Rightarrow> utf16 \<Rightarrow> manager \<Rightarrow> manager" where
  "reclaim_one ok i m =
     (if ok then forget_session i (m\<lparr>sm_store := map_option (om_delete i) (sm_store m)\<rparr>) else m)"

section \<open>Basic facts\<close>

lemma get_session_put [simp]: "get_session j (put_session i s m) = (if j = i then Some s else get_session j m)"
  by (simp add: get_session_def put_session_def)

lemma persist_fields [simp]:
  "sm_sessions (persist_session io i s m) = sm_sessions m" "sm_config (persist_session io i s m) = sm_config m"
  "sm_env (persist_session io i s m) = sm_env m" "get_session j (persist_session io i s m) = get_session j m"
  by (simp_all add: persist_session_def get_session_def split: option.split)

lemma put_fields [simp]:
  "sm_config (put_session i s m) = sm_config m" "sm_env (put_session i s m) = sm_env m" "sm_store (put_session i s m) = sm_store m"
  by (simp_all add: put_session_def)

lemma save_fields [simp]:
  "get_session j (save_session io i s m) = (if j = i then Some s else get_session j m)"
  "sm_config (save_session io i s m) = sm_config m" "sm_env (save_session io i s m) = sm_env m"
  by (simp_all add: save_session_def)

lemma save_store:
  "sm_store m = Some st \<Longrightarrow> fst io \<or> snd io \<Longrightarrow>
   sm_store (save_session io i s m) = Some (om_set i (s\<lparr>se_stop_requested := False\<rparr>) st)"
  by (simp add: save_session_def persist_session_def)

definition valid_session :: "utf16 \<Rightarrow> manager \<Rightarrow> bool" where
  "valid_session i m \<longleftrightarrow> (case get_session i m of None \<Rightarrow> True | Some s \<Rightarrow> paired {} (se_messages s))"

lemma paired_hd: "paired {} ms \<Longrightarrow> ms \<noteq> [] \<Longrightarrow> \<not> is_result (ms ! 0)"
  by (cases ms) (auto split: if_splits)

lemma last_turn_start_no_result:
  assumes "paired {} ms" and "ms \<noteq> []"
  shows "\<not> is_result (ms ! last_turn_start ms)"
proof (cases "last_turn_start ms = 0")
  case True
  then show ?thesis using paired_hd [OF assms] by simp
next
  case False
  then have "is_turn_start (ms ! last_turn_start ms)" by (intro last_turn_start_is_start) simp
  then show ?thesis by (simp add: is_turn_start_def is_result_def)
qed

lemma fold_oversized_valid:
  assumes "valid_session i m"
  shows "valid_session i (fst (fold_oversized_turn now io i None m))"
proof (cases "get_session i m")
  case None
  then show ?thesis using assms by (simp add: fold_oversized_turn_def)
next
  case (Some s)
  let ?ms = "se_messages s"
  have p: "paired {} ?ms" using assms Some by (simp add: valid_session_def)
  have "paired {} (fr_messages (fold_turn_middle now ?ms (int (last_turn_start ?ms)) mx None))" for mx
  proof (cases "?ms = []")
    case True
    then show ?thesis by (simp add: fold_turn_middle_def rounds_of.simps)
  next
    case False
    then show ?thesis using p last_turn_start_less [OF False] last_turn_start_no_result [OF p False]
      by (intro fold_turn_paired) simp_all
  qed
  then show ?thesis using Some p by (simp add: fold_oversized_turn_def valid_session_def Let_def)
qed

lemma variant_paired: "paired {} (fst (apply_variant_to_kept_tail v ms)) = paired {} ms"
  by (auto simp: apply_variant_to_kept_tail_def dropped.layer_paired split: option.split)

lemma apply_compaction_valid:
  assumes "valid_session i m" and "\<And>s. get_session i m = Some s \<Longrightarrow> split < length (se_messages s) \<Longrightarrow> \<not> is_result (se_messages s ! split)"
  shows "valid_session i (fst (apply_compaction le now io i summary split extra replace m))"
proof (cases "get_session i m")
  case None
  then show ?thesis using assms(1) by (simp add: apply_compaction_def)
next
  case (Some s)
  then have p: "paired {} (se_messages s)" using assms(1) by (simp add: valid_session_def)
  have "paired {} (drop split (se_messages s))"
    by (rule paired_drop [of 0]) (use p assms(2) Some in simp_all)
  then show ?thesis using Some p by (simp add: apply_compaction_def valid_session_def variant_paired Let_def)
qed

lemma compact_without_split_valid:
  assumes "valid_session i m"
  shows "valid_session i (fst (compact_without_split now io i m))"
proof -
  obtain m' a b c where f: "fold_oversized_turn now io i None m = (m', a, b, c)" by (metis prod_cases4)
  show ?thesis using fold_oversized_valid [OF assms, of now io] f by (simp add: compact_without_split_def)
qed

lemma compact_finish_valid:
  assumes "valid_session i (fst (apply_compaction le now io i summary k extra False m))"
  shows "valid_session i (fst (compact_finish le now io i summary k extra m))"
proof -
  obtain m1 r where a: "apply_compaction le now io i summary k extra False m = (m1, r)" by fastforce
  obtain m2 x y z where f: "fold_oversized_turn now io i None m1 = (m2, x, y, z)" by (metis prod_cases4)
  have "valid_session i m2" using fold_oversized_valid [of i m1 now io] assms a f by simp
  then show ?thesis using assms a f by (simp add: compact_finish_def split: option.split)
qed

text \<open>C20: Turn-aware compaction never makes a session's history invalid: if every tool result follows its call before,
  it does after, whichever of the cut, the drop of results and the fold ran and whatever was saved.\<close>

theorem compact_keeps_valid:
  assumes "turn_aware_enabled (en_turn_aware (sm_env m))" and "valid_session i m"
  shows "valid_session i (fst (compact le now io i extra aggressive m))"
proof (cases "get_session i m")
  case None
  then show ?thesis using assms(2) by (simp add: compact_def)
next
  case (Some s)
  show ?thesis
  proof (cases "compact_split m aggressive s")
    case None
    then show ?thesis using Some
      by (simp add: compact_def compact_without_split_valid assms(2))
  next
    case k: (Some k)
    have start: "\<not> is_result (se_messages s ! k)"
      using k assms(1) turn_split_cases(3) by (fastforce simp: compact_split_def is_turn_start_def is_result_def)
    obtain summary m1 where m1: "summarize_head_of m (take k (se_messages s)) None = (summary, m1)" by fastforce
    then have same: "get_session j m1 = get_session j m" for j
      by (auto simp: summarize_head_of_def get_session_def split: prod.splits)
    then have "valid_session i (fst (apply_compaction le now io i summary k extra False m1))"
      using assms(2) start Some by (intro apply_compaction_valid) (simp_all add: valid_session_def)
    then show ?thesis using Some k m1 by (simp add: compact_def compact_finish_valid)
  qed
qed

text \<open>A manager with one session, a turn's share of whose context is a single character.\<close>

definition demo_manager :: "message list \<Rightarrow> manager" where
  "demo_manager ms =
     \<lparr>sm_sessions = [([], (new_session 0)\<lparr>se_messages := ms\<rparr>)],
       sm_config = default_config\<lparr>cf_context_window := Some 1, cf_max_output := Some 0, cf_buffer := Some 0\<rparr>,
       sm_env = \<lparr>en_turn_aware = None, en_autocompact_tokens = None, en_tail_ratio = None, en_variant = None\<rparr>,
       sm_summarizer = None, sm_store = Some [([], (new_session 0)\<lparr>se_messages := ms\<rparr>)],
       sm_breaker = \<lparr>br_failures = 0, br_tripped = False\<rparr>\<rparr>"

lemma demo_manager_session: "get_session [] (demo_manager ms) = Some ((new_session 0)\<lparr>se_messages := ms\<rparr>)"
  by (simp add: demo_manager_def get_session_def)

theorem compact_keeps_valid_witness:
  "valid_session [] (fst (compact (\<lambda>_ _. True) 5 (True, True) [] None None (demo_manager demo_turn)))"
  by (rule compact_keeps_valid)
    (simp_all add: demo_manager_session valid_session_def demo_paired, simp add: demo_manager_def turn_aware_enabled_def)

end
