(* ===== verification/Session_Durability.thy ===== *)
theory Session_Durability
  imports Session_Manager
begin

text \<open>
  What \<^verbatim>\<open>SessionManager\<close> promises its users: a conversation is changed by nothing but its own operations. The
  operations of the class are the events of a machine; the memory and the store stay in step under all of them but the
  few named in \<open>safe_op\<close>, and those lose messages.
\<close>

section \<open>The machine\<close>

datatype session_op =
    Op_Get int utf16
  | Op_Get_Async int utf16
  | Op_Load utf16
  | Op_Restore
  | Op_Touch int utf16
  | Op_Add int utf16 "message list"
  | Op_Remove utf16 "nat set"
  | Op_Metadata utf16 "(utf16 \<times> json) list"
  | Op_Repair int utf16
  | Op_Partial int utf16 utf16
  | Op_Ceiling int utf16 "auto_tier option"
  | Op_Summary int utf16 "utf16 option" bool
  | Op_Compact int utf16 "utf16 option" "int option"
  | Op_Fold int utf16 "int option"
  | Op_Window "int option"
  | Op_Clear int utf16
  | Op_Forget utf16
  | Op_Delete bool utf16
  | Op_Prune int
  | Op_Reclaim "(utf16 \<Rightarrow> int) option" int "utf16 \<Rightarrow> bool"

definition reclaim_empty_sessions :: "(utf16 \<Rightarrow> int) option \<Rightarrow> int \<Rightarrow> (utf16 \<Rightarrow> bool) \<Rightarrow> manager \<Rightarrow> manager" where
  "reclaim_empty_sessions listing now ok m = fold (\<lambda>i. reclaim_one (ok i) i) (reclaim_candidates listing now m) m"

fun op_step :: "(utf16 \<Rightarrow> utf16 \<Rightarrow> bool) \<Rightarrow> save_outcome \<Rightarrow> session_op \<Rightarrow> manager \<Rightarrow> manager" where
  "op_step le io (Op_Get now i) m = snd (get_or_create now i m)"
| "op_step le io (Op_Get_Async now i) m = get_or_create_async now i m"
| "op_step le io (Op_Load i) m = load_session i m"
| "op_step le io Op_Restore m = restore_sessions m"
| "op_step le io (Op_Touch now i) m = touch_session now i m"
| "op_step le io (Op_Add now i msgs) m = fst (add_messages now io i msgs m)"
| "op_step le io (Op_Remove i gone) m = fst (remove_messages io i gone m)"
| "op_step le io (Op_Metadata i patch) m = set_session_metadata io i patch m"
| "op_step le io (Op_Repair now i) m = fst (repair_interrupted_tail now io i m)"
| "op_step le io (Op_Partial now i t) m = fst (append_interrupted_partial now io i t m)"
| "op_step le io (Op_Ceiling now i c) m = set_auto_tier_ceiling now io i c m"
| "op_step le io (Op_Summary now i t r) m = set_compacted_summary now io i t r m"
| "op_step le io (Op_Compact now i extra keep) m = fst (compact le now io i extra keep m)"
| "op_step le io (Op_Fold now i from) m = fst (fold_oversized_turn now io i from m)"
| "op_step le io (Op_Window n) m = set_context_window_tokens n m"
| "op_step le io (Op_Clear now i) m = clear_history now i m"
| "op_step le io (Op_Forget i) m = forget_session i m"
| "op_step le io (Op_Delete ok i) m = fst (delete_session ok i m)"
| "op_step le io (Op_Prune now) m = fst (prune_expired now m)"
| "op_step le io (Op_Reclaim listing now ok) m = reclaim_empty_sessions listing now ok m"

fun op_target :: "session_op \<Rightarrow> utf16 option" where
  "op_target (Op_Get now i) = Some i"
| "op_target (Op_Get_Async now i) = Some i"
| "op_target (Op_Load i) = None"
| "op_target Op_Restore = None"
| "op_target (Op_Touch now i) = None"
| "op_target (Op_Add now i msgs) = Some i"
| "op_target (Op_Remove i gone) = Some i"
| "op_target (Op_Metadata i patch) = None"
| "op_target (Op_Repair now i) = Some i"
| "op_target (Op_Partial now i t) = Some i"
| "op_target (Op_Ceiling now i c) = None"
| "op_target (Op_Summary now i t r) = Some i"
| "op_target (Op_Compact now i extra keep) = Some i"
| "op_target (Op_Fold now i from) = Some i"
| "op_target (Op_Window n) = None"
| "op_target (Op_Clear now i) = Some i"
| "op_target (Op_Forget i) = Some i"
| "op_target (Op_Delete ok i) = Some i"
| "op_target (Op_Prune now) = None"
| "op_target (Op_Reclaim listing now ok) = None"

text \<open>What a turn of \<open>i\<close> would see: the loaded session, else the stored one.\<close>

type_synonym transcript = "message list \<times> utf16 option"

definition transcript_of :: "session \<Rightarrow> transcript" where
  "transcript_of s = (se_messages s, se_summary s)"

definition stored :: "utf16 \<Rightarrow> manager \<Rightarrow> transcript option" where
  "stored i m = (case sm_store m of None \<Rightarrow> None | Some st \<Rightarrow> map_option transcript_of (om_get st i))"

definition conversation :: "utf16 \<Rightarrow> manager \<Rightarrow> transcript option" where
  "conversation i m = (case get_session i m of Some s \<Rightarrow> Some (transcript_of s) | None \<Rightarrow> stored i m)"

text \<open>Every loaded session is the stored one, or new and empty.\<close>

definition synced :: "manager \<Rightarrow> bool" where
  "synced m \<longleftrightarrow>
     sm_store m \<noteq> None \<and> om_ok (sm_sessions m) \<and> (\<forall>st. sm_store m = Some st \<longrightarrow> om_ok st)
     \<and> (\<forall>i s. get_session i m = Some s \<longrightarrow>
          stored i m = Some (transcript_of s) \<or> (transcript_of s = ([], None) \<and> stored i m = None))"

text \<open>An operation that creates the session it is given must have it loaded first if it is stored; a cleared history
  is not saved; and one attempt of a save has to succeed.\<close>

fun safe_op :: "manager \<Rightarrow> save_outcome \<times> session_op \<Rightarrow> bool" where
  "safe_op m (io, e) =
     ((fst io \<or> snd io)
      \<and> (case e of
           Op_Get now i \<Rightarrow> get_session i m \<noteq> None \<or> stored i m = None
         | Op_Add now i msgs \<Rightarrow> get_session i m \<noteq> None \<or> stored i m = None
         | Op_Summary now i t r \<Rightarrow> get_session i m \<noteq> None \<or> stored i m = None
         | Op_Clear now i \<Rightarrow> get_session i m = None
         | Op_Delete ok i \<Rightarrow> ok
         | _ \<Rightarrow> True))"

fun run_ops :: "(utf16 \<Rightarrow> utf16 \<Rightarrow> bool) \<Rightarrow> (save_outcome \<times> session_op) list \<Rightarrow> manager \<Rightarrow> manager" where
  "run_ops le [] m = m"
| "run_ops le ((io, e) # es) m = run_ops le es (op_step le io e m)"

fun safe_run :: "(utf16 \<Rightarrow> utf16 \<Rightarrow> bool) \<Rightarrow> (save_outcome \<times> session_op) list \<Rightarrow> manager \<Rightarrow> bool" where
  "safe_run le [] m = True"
| "safe_run le ((io, e) # es) m = (safe_op m (io, e) \<and> safe_run le es (op_step le io e m))"

section \<open>One change at a time\<close>

text \<open>What an operation on \<open>i\<close> may do: put and save a session, or leave the stores as they are.\<close>

lemma stored_put [simp]: "stored j (put_session i s m) = stored j m"
  by (simp add: stored_def)

lemma conversation_put:
  "conversation j (put_session i s m) = (if j = i then Some (transcript_of s) else conversation j m)"
  by (simp add: conversation_def split: option.split)

lemma transcript_stop [simp]: "transcript_of (s\<lparr>se_stop_requested := b\<rparr>) = transcript_of s"
  by (simp add: transcript_of_def)

lemma stored_save:
  assumes "sm_store m \<noteq> None" and "fst io \<or> snd io"
  shows "stored j (save_session io i s m) = (if j = i then Some (transcript_of s) else stored j m)"
  using assms by (auto simp: stored_def save_session_def persist_session_def)

lemma store_save_other: "j \<noteq> i \<Longrightarrow> stored j (save_session io i s m) = stored j m"
  by (auto simp: stored_def save_session_def persist_session_def split: option.split)

lemma conversation_save:
  "conversation j (save_session io i s m) = (if j = i then Some (transcript_of s) else conversation j m)"
  by (auto simp: conversation_def store_save_other split: option.split)

lemma synced_save:
  assumes "synced m" and "fst io \<or> snd io"
  shows "synced (save_session io i s m)"
proof -
  have st: "sm_store m \<noteq> None" using assms(1) by (simp add: synced_def)
  have "om_ok (sm_sessions (save_session io i s m))"
    using assms(1) by (simp add: synced_def save_session_def put_session_def)
  moreover have "sm_store (save_session io i s m) \<noteq> None"
    "\<forall>st. sm_store (save_session io i s m) = Some st \<longrightarrow> om_ok st"
    using assms by (auto simp: synced_def save_session_def persist_session_def)
  moreover have "get_session j (save_session io i s m) = Some t \<Longrightarrow>
      stored j (save_session io i s m) = Some (transcript_of t)
      \<or> (transcript_of t = ([], None) \<and> stored j (save_session io i s m) = None)" for j t
    using assms(1) stored_save [OF st assms(2), of j i s] by (auto simp: synced_def split: if_splits)
  ultimately show ?thesis by (simp add: synced_def)
qed

lemma synced_put:
  assumes "synced m" and "stored i m = Some (transcript_of s) \<or> (transcript_of s = ([], None) \<and> stored i m = None)"
  shows "synced (put_session i s m)"
  using assms by (auto simp: synced_def put_session_def get_session_def stored_def)

text \<open>The operations that write one session: from the same sessions and store, by new sessions and saves of \<open>i\<close>.\<close>

inductive local_change :: "save_outcome \<Rightarrow> utf16 \<Rightarrow> manager \<Rightarrow> manager \<Rightarrow> bool" for io i m where
  lc_start: "local_change io i m m"
| lc_keep: "local_change io i m m' \<Longrightarrow> sm_sessions m'' = sm_sessions m' \<Longrightarrow> sm_store m'' = sm_store m' \<Longrightarrow> local_change io i m m''"
| lc_new: "local_change io i m m' \<Longrightarrow> stored i m' = None \<Longrightarrow> local_change io i m (put_session i (new_session now) m')"
| lc_save: "local_change io i m m' \<Longrightarrow> local_change io i m (save_session io i s m')"

declare lc_start [simp, intro]

lemma lc_trans: "local_change io i m1 m2 \<Longrightarrow> local_change io i m m1 \<Longrightarrow> local_change io i m m2"
  by (induction rule: local_change.induct) (auto intro: local_change.intros)

lemma same_stores:
  assumes "sm_sessions m' = sm_sessions m" and "sm_store m' = sm_store m"
  shows "get_session j m' = get_session j m" and "stored j m' = stored j m"
    and "conversation j m' = conversation j m" and "synced m' = synced m"
  using assms by (simp_all add: get_session_def stored_def conversation_def synced_def split: option.split)

lemma local_change_other: "local_change io i m m' \<Longrightarrow> j \<noteq> i \<Longrightarrow> conversation j m' = conversation j m"
proof (induction rule: local_change.induct)
  case (lc_keep m' m'')
  then show ?case using same_stores(3) [OF lc_keep(2,3)] by simp
qed (simp_all add: conversation_put conversation_save)

lemma local_change_synced: "local_change io i m m' \<Longrightarrow> synced m \<Longrightarrow> fst io \<or> snd io \<Longrightarrow> synced m'"
proof (induction rule: local_change.induct)
  case (lc_keep m' m'')
  then show ?case using same_stores(4) [OF lc_keep(2,3)] by simp
next
  case (lc_new m' now)
  then show ?case by (simp add: synced_put transcript_of_def new_session_def)
qed (simp_all add: synced_save)

section \<open>What each operation changes\<close>

lemma get_or_create_local:
  assumes "get_session i m \<noteq> None \<or> stored i m = None"
  shows "local_change io i m (snd (get_or_create now i m))"
  using assms by (auto simp: get_or_create_def intro: lc_new split: option.split)

lemma add_messages_local:
  assumes "get_session i m \<noteq> None \<or> stored i m = None"
  shows "local_change io i m (fst (add_messages now io i msgs m))"
  using get_or_create_local [OF assms, of io now]
  by (auto simp: add_messages_def Let_def intro: lc_save split: prod.split)

lemma set_compacted_summary_local:
  assumes "get_session i m \<noteq> None \<or> stored i m = None"
  shows "local_change io i m (set_compacted_summary now io i t r m)"
  using get_or_create_local [OF assms, of io now]
  by (auto simp: set_compacted_summary_def Let_def intro: lc_save split: prod.split)

lemma fold_oversized_local: "local_change io i m (fst (fold_oversized_turn now io i from m))"
  by (auto simp: fold_oversized_turn_def Let_def intro: lc_save split: option.split)

lemma apply_compaction_local: "local_change io i m (fst (apply_compaction le now io i summary k extra r m))"
  by (auto simp: apply_compaction_def Let_def intro: lc_save split: option.split)

lemma compact_without_split_local: "local_change io i m (fst (compact_without_split now io i m))"
  using fold_oversized_local [of io i m now None] by (auto simp: compact_without_split_def split: prod.split)

lemma compact_finish_local: "local_change io i m (fst (compact_finish le now io i summary k extra m))"
proof -
  obtain m1 r where a: "apply_compaction le now io i summary k extra False m = (m1, r)" by fastforce
  then have m1: "local_change io i m m1" using apply_compaction_local [of io i m le now summary k extra False] by simp
  obtain m2 x y z where f: "fold_oversized_turn now io i None m1 = (m2, x, y, z)" by (metis prod_cases4)
  then have "local_change io i m1 m2" using fold_oversized_local [of io i m1 now None] by simp
  then have "local_change io i m m2" using m1 by (rule lc_trans)
  then show ?thesis using a f m1 by (auto simp: compact_finish_def split: option.split)
qed

lemma summarize_head_of_local: "local_change io i m (snd (summarize_head_of m head previous))"
  by (auto simp: summarize_head_of_def intro!: lc_keep [OF lc_start] split: prod.split)

lemma compact_local: "local_change io i m (fst (compact le now io i extra keep m))"
proof (cases "get_session i m")
  case None
  then show ?thesis by (simp add: compact_def)
next
  case (Some s)
  show ?thesis
  proof (cases "compact_split m keep s")
    case None
    then show ?thesis using Some compact_without_split_local by (simp add: compact_def)
  next
    case k: (Some k)
    obtain summary m1 where m1: "summarize_head_of m (take k (se_messages s)) None = (summary, m1)" by fastforce
    then have "local_change io i m m1" using summarize_head_of_local [of io i m "take k (se_messages s)" None] by simp
    then show ?thesis using Some k m1 lc_trans [OF compact_finish_local] by (simp add: compact_def)
  qed
qed

lemma remove_messages_local: "local_change io i m (fst (remove_messages io i gone m))"
  by (auto simp: remove_messages_def Let_def intro: lc_save split: option.split)

lemma repair_local: "local_change io i m (fst (repair_interrupted_tail now io i m))"
  by (auto simp: repair_interrupted_tail_def intro: lc_save split: option.split prod.split)

lemma partial_local: "local_change io i m (fst (append_interrupted_partial now io i t m))"
  by (auto simp: append_interrupted_partial_def Let_def intro: lc_save split: option.split)

lemma metadata_local: "local_change io i m (set_session_metadata io i patch m)"
  by (auto simp: set_session_metadata_def intro: lc_save split: option.split)

lemma ceiling_local: "local_change io i m (set_auto_tier_ceiling now io i c m)"
  by (auto simp: set_auto_tier_ceiling_def intro: lc_save split: option.split)

text \<open>The rest keep what every conversation is, or remove one from the store.\<close>

lemma transcript_fields [simp]:
  "transcript_of (s\<lparr>se_last_activity := t\<rparr>) = transcript_of s"
  "transcript_of (s\<lparr>se_metadata := d\<rparr>) = transcript_of s"
  "transcript_of (s\<lparr>se_auto_ceiling := c\<rparr>) = transcript_of s"
  "transcript_of (s\<lparr>se_auto_ceiling_at := a\<rparr>) = transcript_of s"
  by (simp_all add: transcript_of_def)

lemma conversation_loaded: "get_session i m = Some s \<Longrightarrow> conversation i m = Some (transcript_of s)"
  by (simp add: conversation_def)

lemma touch_keeps:
  "conversation j (touch_session now i m) = conversation j m"
  "synced m \<Longrightarrow> synced (touch_session now i m)"
proof -
  show "conversation j (touch_session now i m) = conversation j m"
    by (auto simp: touch_session_def conversation_put conversation_loaded split: option.split)
  assume m: "synced m"
  show "synced (touch_session now i m)"
  proof (cases "get_session i m")
    case (Some s)
    then have "stored i m = Some (transcript_of s) \<or> (transcript_of s = ([], None) \<and> stored i m = None)"
      using m unfolding synced_def by blast
    then show ?thesis using m Some by (simp add: touch_session_def synced_put)
  qed (simp add: touch_session_def m)
qed

lemma metadata_keeps: "conversation j (set_session_metadata io i patch m) = conversation j m"
  by (auto simp: set_session_metadata_def conversation_save conversation_loaded split: option.split)

lemma ceiling_keeps: "conversation j (set_auto_tier_ceiling now io i c m) = conversation j m"
  by (auto simp: set_auto_tier_ceiling_def conversation_save conversation_loaded split: option.split)

lemma load_keeps:
  "conversation j (load_session i m) = conversation j m"
  "stored j (load_session i m) = stored j m"
  "synced m \<Longrightarrow> synced (load_session i m)"
  by (auto simp: load_session_def conversation_put conversation_def stored_def intro!: synced_put split: option.split)

lemma load_loads: "get_session i (load_session i m) \<noteq> None \<or> stored i (load_session i m) = None"
  by (auto simp: load_session_def stored_def split: option.split)

lemma restore_one_get:
  "get_session j (restore_one (i, s) m)
     = (if j = i \<and> get_session i m = None then Some (s\<lparr>se_stop_requested := False\<rparr>) else get_session j m)"
  by (simp add: restore_one_def)

lemma restore_get:
  "om_ok st \<Longrightarrow> get_session j (fold restore_one st m)
     = (case get_session j m of Some s \<Rightarrow> Some s | None \<Rightarrow> map_option (\<lambda>s. s\<lparr>se_stop_requested := False\<rparr>) (om_get st j))"
proof (induction st arbitrary: m)
  case (Cons e st)
  obtain i s where e: "e = (i, s)" by (cases e)
  have "om_get st i = None" "om_ok st" using Cons.prems by (auto simp: e om_ok_def map_of_eq_None_iff)
  then show ?case by (auto simp: e Cons.IH restore_one_get split: option.split)
qed (simp split: option.split)

lemma restore_store: "sm_store (fold restore_one st m) = sm_store m"
  by (induction st arbitrary: m) (auto simp: restore_one_def)

lemma restore_ok: "om_ok (sm_sessions m) \<Longrightarrow> om_ok (sm_sessions (fold restore_one st m))"
  by (induction st arbitrary: m) (auto simp: restore_one_def put_session_def)

lemma restore_keeps:
  assumes "synced m"
  shows "conversation j (restore_sessions m) = conversation j m" and "synced (restore_sessions m)"
proof -
  obtain st where st: "sm_store m = Some st" "om_ok st" using assms by (auto simp: synced_def)
  have g: "get_session j (restore_sessions m)
      = (case get_session j m of Some s \<Rightarrow> Some s | None \<Rightarrow> map_option (\<lambda>s. s\<lparr>se_stop_requested := False\<rparr>) (om_get st j))" for j
    using restore_get [OF st(2)] by (simp add: restore_sessions_def st)
  have s: "sm_store (restore_sessions m) = Some st" by (simp add: restore_sessions_def restore_store st)
  have same: "stored j (restore_sessions m) = stored j m" for j by (simp add: stored_def s st)
  show "conversation j (restore_sessions m) = conversation j m"
    by (auto simp: conversation_def same g stored_def [of j m] st split: option.split)
  have "om_ok (sm_sessions (restore_sessions m))"
    using assms restore_ok by (simp add: restore_sessions_def st synced_def)
  then show "synced (restore_sessions m)"
    using assms st by (auto simp: synced_def s same g stored_def [of _ m] split: option.splits)
qed

lemma forget_get [simp]: "get_session j (forget_session i m) = (if j = i then None else get_session j m)"
  by (simp add: forget_session_def get_session_def)

lemma forget_stored [simp]: "stored j (forget_session i m) = stored j m"
  by (simp add: forget_session_def stored_def)

lemma forget_keeps:
  "j \<noteq> i \<Longrightarrow> conversation j (forget_session i m) = conversation j m"
  "synced m \<Longrightarrow> synced (forget_session i m)"
  by (auto simp: conversation_def synced_def forget_session_def get_session_def stored_def split: option.split if_splits)

lemma delete_stored:
  "stored j (m\<lparr>sm_store := map_option (om_delete i) (sm_store m)\<rparr>) = (if j = i then None else stored j m)"
  by (auto simp: stored_def split: option.split)

lemma delete_get: "get_session j (m\<lparr>sm_store := x\<rparr>) = get_session j m"
  by (simp add: get_session_def)

lemma wipe_keeps:
  fixes m :: manager and i :: utf16
  defines "m' \<equiv> forget_session i (m\<lparr>sm_store := map_option (om_delete i) (sm_store m)\<rparr>)"
  shows "j \<noteq> i \<Longrightarrow> conversation j m' = conversation j m" and "synced m \<Longrightarrow> synced m'"
proof -
  have g: "get_session j m' = (if j = i then None else get_session j m)" for j by (simp add: m'_def delete_get)
  have s: "stored j m' = (if j = i then None else stored j m)" for j by (simp add: m'_def delete_stored)
  show "j \<noteq> i \<Longrightarrow> conversation j m' = conversation j m" by (simp add: conversation_def g s split: option.split)
  assume m: "synced m"
  then have "om_ok (sm_sessions m')" "sm_store m' \<noteq> None" "\<forall>st. sm_store m' = Some st \<longrightarrow> om_ok st"
    by (auto simp: synced_def m'_def forget_session_def)
  then show "synced m'" using m by (auto simp: synced_def g s)
qed

lemma delete_keeps:
  "j \<noteq> i \<Longrightarrow> conversation j (fst (delete_session True i m)) = conversation j m"
  "synced m \<Longrightarrow> synced (fst (delete_session True i m))"
proof -
  have "fst (delete_session True i m) = forget_session i (m\<lparr>sm_store := map_option (om_delete i) (sm_store m)\<rparr>)"
    by (simp add: delete_session_def forget_session_def)
  then show "j \<noteq> i \<Longrightarrow> conversation j (fst (delete_session True i m)) = conversation j m"
    "synced m \<Longrightarrow> synced (fst (delete_session True i m))"
    using wipe_keeps by simp_all
qed

lemma prune_get:
  assumes "synced m"
  shows "get_session j (fst (prune_expired now m))
    = (case get_session j m of
         None \<Rightarrow> None
       | Some s \<Rightarrow> if now - se_last_activity s > cf_session_ttl_seconds (sm_config m) * 1000 then None else Some s)"
  using assms by (auto simp: prune_expired_def get_session_def om_get_filter synced_def Let_def split: option.split)

lemma prune_stored [simp]: "stored j (fst (prune_expired now m)) = stored j m"
  by (simp add: prune_expired_def stored_def Let_def)

lemma synced_stored:
  assumes "synced m" and "conversation j m = Some (ms, sm)" and "ms \<noteq> []"
  shows "stored j m = Some (ms, sm)"
proof (cases "get_session j m")
  case (Some s)
  then have "transcript_of s = (ms, sm)" using assms(2) by (simp add: conversation_def)
  then show ?thesis using assms(1,3) Some unfolding synced_def by fastforce
qed (use assms(2) in \<open>simp add: conversation_def\<close>)

lemma prune_keeps:
  assumes "synced m"
  shows "synced (fst (prune_expired now m))"
    and "conversation j m = Some (ms, sm) \<Longrightarrow> ms \<noteq> [] \<Longrightarrow> conversation j (fst (prune_expired now m)) = Some (ms, sm)"
proof -
  have "om_ok (sm_sessions (fst (prune_expired now m)))" "sm_store (fst (prune_expired now m)) = sm_store m"
    using assms by (simp_all add: prune_expired_def synced_def Let_def)
  then show "synced (fst (prune_expired now m))"
    using assms prune_get [OF assms] by (auto simp: synced_def split: option.splits if_splits)
  show "conversation j m = Some (ms, sm) \<Longrightarrow> ms \<noteq> [] \<Longrightarrow> conversation j (fst (prune_expired now m)) = Some (ms, sm)"
    using synced_stored [OF assms, of j ms sm]
    by (auto simp: conversation_def prune_get [OF assms] split: option.splits)
qed

lemma reclaim_list_keeps:
  "j \<notin> set is \<Longrightarrow> conversation j (fold (\<lambda>i. reclaim_one (ok i) i) is m) = conversation j m"
  "synced m \<Longrightarrow> synced (fold (\<lambda>i. reclaim_one (ok i) i) is m)"
  by (induction "is" arbitrary: m) (auto simp: reclaim_one_def wipe_keeps)

lemma candidate_is_empty:
  assumes "synced m" and "conversation j m = Some (ms, sm)" and "ms \<noteq> []"
  shows "j \<notin> set (reclaim_candidates listing now m)"
proof
  assume "j \<in> set (reclaim_candidates listing now m)"
  moreover obtain st where st: "sm_store m = Some st" "om_ok st" using assms(1) by (auto simp: synced_def)
  ultimately obtain s where "(j, s) \<in> set st" and empty: "se_messages s = []"
    by (auto simp: reclaim_candidates_def list_message_less_ids_def Let_def split: if_splits option.splits)
  then have "stored j m = Some (transcript_of s)" using st by (simp add: stored_def om_ok_set_get)
  then show False using synced_stored [OF assms] empty assms(3) by (simp add: transcript_of_def)
qed

section \<open>A conversation outlives everything but its own operations\<close>

lemma clear_keeps:
  "j \<noteq> i \<Longrightarrow> conversation j (clear_history now i m) = conversation j m"
  by (auto simp: clear_history_def conversation_put split: option.split)

text \<open>The session an operation writes, for those that read or evict nothing else.\<close>

fun writes :: "session_op \<Rightarrow> utf16 option" where
  "writes (Op_Get now i) = Some i"
| "writes (Op_Add now i msgs) = Some i"
| "writes (Op_Remove i gone) = Some i"
| "writes (Op_Metadata i patch) = Some i"
| "writes (Op_Repair now i) = Some i"
| "writes (Op_Partial now i t) = Some i"
| "writes (Op_Ceiling now i c) = Some i"
| "writes (Op_Summary now i t r) = Some i"
| "writes (Op_Compact now i extra keep) = Some i"
| "writes (Op_Fold now i from) = Some i"
| "writes _ = None"

lemma writes_local:
  assumes "writes e = Some i" and "safe_op m (io, e)"
  shows "local_change io i m (op_step le io e m)"
  using assms
  by (cases e) (simp_all add: get_or_create_local add_messages_local set_compacted_summary_local fold_oversized_local
      compact_local remove_messages_local repair_local partial_local metadata_local ceiling_local)

lemma get_async_local: "local_change io i (load_session i m) (get_or_create_async now i m)"
  unfolding get_or_create_async_def by (rule get_or_create_local [OF load_loads])

lemma window_keeps:
  "conversation j (set_context_window_tokens n m) = conversation j m"
  "synced (set_context_window_tokens n m) = synced m"
  by (rule same_stores, simp_all add: set_context_window_tokens_def)+

lemma get_async_keeps:
  "j \<noteq> i \<Longrightarrow> conversation j (get_or_create_async now i m) = conversation j m"
  "synced m \<Longrightarrow> synced (get_or_create_async now i m)"
  using local_change_other [OF get_async_local, of j i] local_change_synced [OF get_async_local [where io = "(True, True)"]]
  by (auto simp: load_keeps)

lemma step_synced:
  assumes "synced m" and "safe_op m (io, e)"
  shows "synced (op_step le io e m)"
proof (cases "writes e")
  case None
  then show ?thesis using assms
    by (cases e) (simp_all add: get_async_keeps load_keeps restore_keeps touch_keeps window_keeps forget_keeps delete_keeps
        prune_keeps reclaim_list_keeps reclaim_empty_sessions_def clear_history_def)
next
  case (Some i)
  then show ?thesis using local_change_synced [OF writes_local [OF Some assms(2)]] assms by simp
qed

lemma step_keeps:
  assumes "synced m" and "safe_op m (io, e)" and "op_target e \<noteq> Some j"
    and "conversation j m = Some (ms, sm)" and "ms \<noteq> []"
  shows "conversation j (op_step le io e m) = Some (ms, sm)"
proof (cases "writes e = Some j \<or> writes e = None")
  case True
  then show ?thesis using assms candidate_is_empty [OF assms(1,4,5)]
    by (cases e) (simp_all add: get_async_keeps load_keeps restore_keeps touch_keeps window_keeps forget_keeps delete_keeps
        prune_keeps reclaim_list_keeps reclaim_empty_sessions_def clear_history_def metadata_keeps ceiling_keeps)
next
  case False
  then obtain i where i: "writes e = Some i" "i \<noteq> j" by auto
  then show ?thesis using local_change_other [OF writes_local [OF i(1) assms(2)], of j le] assms(4) by simp
qed

text \<open>C10: A conversation with messages is changed by no operation but its own. In any run of the manager in which a
  stored session is loaded before it is written to, no loaded history is cleared, saves (the first try or the retry) and deletions
  succeed, and a sweep is not interrupted, whatever is evicted for being idle, reclaimed for being empty, restored, reloaded,
  touched, compacted or deleted besides it, what its next turn would see stays the same, and memory stays in step with
  the store.\<close>

theorem conversation_survives:
  assumes "synced m" and "safe_run le es m" and "conversation j m = Some (ms, sm)" and "ms \<noteq> []"
    and "list_all (\<lambda>(io, e). op_target e \<noteq> Some j) es"
  shows "synced (run_ops le es m) \<and> conversation j (run_ops le es m) = Some (ms, sm)"
  using assms
proof (induction es arbitrary: m)
  case (Cons x es)
  obtain io e where x: "x = (io, e)" by (cases x)
  show ?case using Cons step_synced [of m io e le] step_keeps [of m io e j ms sm le] by (simp add: x)
qed simp

lemma demo_synced: "synced (demo_manager ms)"
  by (auto simp: synced_def demo_manager_def get_session_def stored_def om_ok_def transcript_of_def split: if_splits)

theorem conversation_survives_witness:
  defines "es \<equiv> [((False, True), Op_Add 5 (lit ''b'') [user_message [] 5]), ((True, True), Op_Prune 9000000),
    ((True, True), Op_Reclaim (Some (\<lambda>_. 0)) 9000000000 (\<lambda>_. True)), ((True, True), Op_Compact 9000001 (lit ''b'') None None)]"
  shows "conversation [] (run_ops (\<lambda>_ _. True) es (demo_manager demo_turn)) = Some (demo_turn, None)"
proof -
  let ?m = "demo_manager demo_turn"
  have one: "get_session i ?m = (if i = [] then Some ((new_session 0)\<lparr>se_messages := demo_turn\<rparr>) else None)"
    "stored i ?m = (if i = [] then Some (demo_turn, None) else None)" for i
    by (simp_all add: demo_manager_def get_session_def stored_def transcript_of_def new_session_def)
  have "conversation [] ?m = Some (demo_turn, None)"
    by (simp add: conversation_def one transcript_of_def new_session_def)
  then show ?thesis
    using demo_synced conversation_survives [of ?m "\<lambda>_ _. True" es "[]" demo_turn None] one by (simp add: es_def lit_def demo_turn_def)
qed

section \<open>What breaks the promise\<close>

text \<open>A turn that runs longer than the idle limit without a message is evicted under its own feet: the next message
  it adds starts a new session, which is saved over the stored conversation.\<close>

theorem eviction_mid_turn_overwrites:
  assumes "synced m" and "get_session i m = Some s"
    and "now - se_last_activity s > cf_session_ttl_seconds (sm_config m) * 1000" and "fst io \<or> snd io"
  shows "stored i (fst (add_messages later io i msgs (fst (prune_expired now m)))) = Some (msgs, None)"
proof -
  let ?m = "fst (prune_expired now m)"
  have "get_session i ?m = None" using assms prune_get by simp
  moreover have "sm_store ?m \<noteq> None" using prune_keeps(1) [OF assms(1)] by (simp add: synced_def)
  ultimately show ?thesis using assms(4)
    by (simp add: add_messages_def get_or_create_def stored_save transcript_of_def new_session_def Let_def)
qed

theorem eviction_mid_turn_overwrites_witness:
  "conversation [] (demo_manager demo_turn) = Some (demo_turn, None)
   \<and> stored [] (fst (add_messages 3600002 (True, True) [] [user_message [] 0] (fst (prune_expired 3600001 (demo_manager demo_turn)))))
     = Some ([user_message [] 0], None)"
proof (rule conjI)
  show "conversation [] (demo_manager demo_turn) = Some (demo_turn, None)"
    by (simp add: conversation_def demo_manager_session transcript_of_def new_session_def)
  show "stored [] (fst (add_messages 3600002 (True, True) [] [user_message [] 0]
      (fst (prune_expired 3600001 (demo_manager demo_turn))))) = Some ([user_message [] 0], None)"
    by (rule eviction_mid_turn_overwrites [OF demo_synced demo_manager_session])
      (simp_all add: demo_manager_def default_config_def new_session_def)
qed

text \<open>A message that arrives between the scan of a sweep and its deletion is deleted with the session.\<close>

theorem sweep_deletes_first_message:
  assumes "j \<in> set (reclaim_candidates listing now m)"
  shows "conversation j (fst (add_messages later io j msgs m)) \<noteq> None
    \<and> conversation j (reclaim_one True j (fst (add_messages later io j msgs m))) = None"
proof
  have "get_session j (fst (add_messages later io j msgs m)) \<noteq> None"
    by (simp add: add_messages_def get_or_create_def Let_def split: option.split)
  then show "conversation j (fst (add_messages later io j msgs m)) \<noteq> None"
    by (auto simp: conversation_def split: option.split)
  show "conversation j (reclaim_one True j (fst (add_messages later io j msgs m))) = None"
    by (simp add: conversation_def reclaim_one_def forget_session_def get_session_def stored_def split: option.split)
qed

text \<open>A cleared history is cleared in memory only: when the session is evicted, or the process starts again, before
  anything else saves it, the next load brings the whole conversation back.\<close>

theorem cleared_history_returns:
  assumes "synced m" and "conversation i m = Some (ms, sm)" and "ms \<noteq> []"
  shows "conversation i (load_session i ((clear_history now i m)\<lparr>sm_sessions := []\<rparr>)) = Some (ms, sm)"
proof -
  have "stored i ((clear_history now i m)\<lparr>sm_sessions := []\<rparr>) = stored i m"
    by (simp add: stored_def clear_history_def split: option.split)
  moreover have "get_session i ((clear_history now i m)\<lparr>sm_sessions := []\<rparr>) = None" by (simp add: get_session_def)
  ultimately show ?thesis using synced_stored [OF assms] unfolding load_keeps(1) by (simp add: conversation_def)
qed

theorem cleared_history_returns_witness:
  "conversation [] (load_session [] ((clear_history 1 [] (demo_manager demo_turn))\<lparr>sm_sessions := []\<rparr>)) = Some (demo_turn, None)"
  by (rule cleared_history_returns [OF demo_synced])
    (simp_all add: conversation_def demo_manager_session transcript_of_def new_session_def demo_turn_def)

section \<open>A crashed turn is put back once\<close>

lemma drop_rev_idem: "rev (dropWhile p (rev (rev (dropWhile p xs)))) = rev (dropWhile p xs)"
  by (induction xs) auto

lemma interrupted_has_text: "includes16 (interrupted_partial_message (trim16 t)) (trim16 t)"
proof -
  have same: "rev (dropWhile js16_space (rev (trim16 t))) = trim16 t"
    unfolding trim16_def by (rule drop_rev_idem)
  then obtain r where "interrupted_partial_message (trim16 t) = trim16 t @ r"
    by (cases "trim16 t = []") (auto simp: interrupted_partial_message_def Let_def)
  then have "after_prefix (trim16 t) (drop 0 (interrupted_partial_message (trim16 t))) \<noteq> None"
    by (simp add: after_prefix_def)
  then show ?thesis unfolding includes16_def list_ex_iff by (intro bexI [of _ 0]) auto
qed

text \<open>Recovering the streamed text of a crashed turn is idempotent: recovering it again, whenever and however
  the saves went, adds nothing.\<close>

theorem append_partial_idempotent:
  "append_interrupted_partial later io' i t (fst (append_interrupted_partial now io i t m))
   = (fst (append_interrupted_partial now io i t m), False)"
proof (cases "get_session i m")
  case None
  then show ?thesis by (simp add: append_interrupted_partial_def Let_def)
next
  case (Some s)
  then show ?thesis using interrupted_has_text [of t]
    by (simp add: append_interrupted_partial_def Let_def extract_text_def)
qed

section \<open>Turns a fold leaves behind\<close>

definition turn_share :: "manager \<Rightarrow> int" where
  "turn_share m = \<lfloor>of_int (context_budget_chars m) * turn_keep_max_ratio\<rfloor>"

lemma fold_oversized_folds:
  assumes "get_session i m = Some s" and "se_messages s = kept @ t" and "last_turn_start (kept @ t) = length kept"
    and "3 < length (rounds_of t 0)" and "turn_share m < int (total_chars t)"
  shows "\<exists>n. fold_oversized_turn now io i None m
    = (save_session io i (s\<lparr>se_messages := fr_messages (fold_turn_middle now t 0 (turn_share m) None), se_last_activity := now\<rparr>) m,
       Suc n, length (kept @ t), length (fr_messages (fold_turn_middle now t 0 (turn_share m) None)))"
proof -
  have long: "1 < length (rounds_of t 0)" and ne: "rounds_of t 0 \<noteq> []" using assms(4) by auto
  obtain k where "k \<le> 2" and "fold_loop now t 0 (rounds_of t 0) (turn_share m) 2 = fold_pass now t 0 (rounds_of t 0) k"
    using fold_loop_spec [of 2 now t 0 "rounds_of t 0" "turn_share m"] by blast
  then have "fr_folded_rounds (fold_turn_middle now t 0 (turn_share m) None) = length (rounds_of t 0) - 1 - k"
    using assms(4) by (simp add: fold_turn_middle_def Let_def fold_pass_count)
  then obtain n where n: "fr_folded_rounds (fold_turn_middle now t 0 (turn_share m) None) = Suc n"
    using assms(4) \<open>k \<le> 2\<close> by (cases "length (rounds_of t 0) - 1 - k") auto
  have big: "turn_share m < int (su_chars (summarise_turn (kept @ t) (int (length kept))))"
    using assms(5) by (simp add: summarise_chars clamp_start_def)
  show ?thesis
    using assms(1-3) n big fold_turn_append [OF long, of now kept "turn_share m" None]
    by (simp add: fold_oversized_turn_def Let_def turn_share_def [symmetric])
qed

lemma summarize_head_of_fields:
  "get_session j (snd (summarize_head_of m head previous)) = get_session j m"
  "sm_config (snd (summarize_head_of m head previous)) = sm_config m"
  "sm_env (snd (summarize_head_of m head previous)) = sm_env m"
  by (simp_all add: summarize_head_of_def get_session_def split: prod.split)

lemma turn_share_env: "sm_config m' = sm_config m \<Longrightarrow> sm_env m' = sm_env m \<Longrightarrow> turn_share m' = turn_share m"
  by (simp add: turn_share_def context_budget_chars_def autocompact_threshold_def)

text \<open>What compaction keeps beside an oversized last turn is lost. The cut keeps the turns \<open>kept\<close> and \<open>t\<close>, and only
  \<open>head\<close> is summarised; \<open>t\<close> is then folded and put in place of the whole history, so the turns of \<open>kept\<close> are neither
  among the messages nor in the summary.\<close>

theorem fold_drops_kept_turns:
  assumes "get_session i m = Some s" and "se_messages s = head @ kept @ t" and "se_summary s = None"
    and "compact_split m keep s = Some (length head)" and "head \<noteq> []" and "t \<noteq> []"
    and "last_turn_start (kept @ t) = length kept" and "3 < length (rounds_of t 0)" and "turn_share m < int (total_chars t)"
    and "resolve_compaction_variant (cf_variant (sm_config m)) (en_variant (sm_env m)) = Var_A"
  shows "conversation i (fst (compact le now io i None keep m))
    = Some (fr_messages (fold_turn_middle now t 0 (turn_share m) None),
        Some (fst (summarize_head_of m head None) @ [10, 10] @ render_compaction_facts (collect_compaction_facts le head) []))"
proof -
  obtain summary m1 where m1: "summarize_head_of m head None = (summary, m1)" by fastforce
  from summarize_head_of_fields [where m = m and head = head and previous = None] m1
  have env: "get_session i m1 = Some s" "sm_config m1 = sm_config m" "sm_env m1 = sm_env m" using assms(1) by simp_all
  define txt_all where "txt_all = summary @ [10, 10] @ render_compaction_facts (collect_compaction_facts le head) []"
  define s2 where "s2 = s\<lparr>se_summary := Some txt_all, se_messages := kept @ t, se_compaction_count := Suc (se_compaction_count s),
    se_last_activity := now\<rparr>"
  have keep: "apply_variant_to_kept_tail Var_A ms = (ms, [])" for ms by (simp add: apply_variant_to_kept_tail_def)
  have a: "\<exists>r. apply_compaction le now io i summary (length head) None False m1 = (save_session io i s2 m1, Some r)"
    using assms(2,3,5,6,10) env by (simp add: apply_compaction_def s2_def txt_all_def keep Let_def)
  have share: "turn_share (save_session io i s2 m1) = turn_share m" using env by (intro turn_share_env) simp_all
  obtain n where f: "fold_oversized_turn now io i None (save_session io i s2 m1)
    = (save_session io i (s2\<lparr>se_messages := fr_messages (fold_turn_middle now t 0 (turn_share m) None), se_last_activity := now\<rparr>)
         (save_session io i s2 m1),
       Suc n, length (kept @ t), length (fr_messages (fold_turn_middle now t 0 (turn_share m) None)))"
    using fold_oversized_folds [of i "save_session io i s2 m1" s2 kept t now io] assms(7-9) share by (auto simp: s2_def)
  have "take (length head) (se_messages s) = head" using assms(2) by simp
  then have "compact le now io i None keep m = compact_finish le now io i summary (length head) None m1"
    using assms(1,4) m1 by (simp add: compact_def)
  then show ?thesis using a f m1
    by (auto simp: compact_finish_def conversation_save transcript_of_def s2_def txt_all_def)
qed

text \<open>Three turns, the last of four rounds; keeping nine messages keeps the last two.\<close>

definition demo_long_turn :: "message list" where
  "demo_long_turn = demo_turn @ [demo_call ''d'', demo_result ''d'']"

definition demo_three_turns :: "message list" where
  "demo_three_turns = [user_message (lit ''one'') 0] @ [user_message (lit ''two'') 0] @ demo_long_turn"

theorem fold_drops_kept_turns_witness:
  "map_option fst (conversation [] (fst (compact (\<lambda>_ _. True) 7 (True, True) [] None (Some 11) (demo_manager demo_three_turns))))
    = Some (fr_messages (fold_turn_middle 7 demo_long_turn 0 (turn_share (demo_manager demo_three_turns)) None))"
proof -
  let ?m = "demo_manager demo_three_turns"
  have len: "length demo_long_turn = 10" "length demo_three_turns = 12"
    by (simp_all add: demo_long_turn_def demo_turn_def demo_three_turns_def)
  have starts: "last_turn_start ([user_message (lit ''two'') 0] @ demo_long_turn) = 1" "last_turn_start demo_three_turns = 2"
    "last_turn_start (take 2 demo_three_turns) = 1"
    by (simp_all add: last_turn_start_def demo_long_turn_def demo_turn_def demo_three_turns_def eval_nat_numeral)
  have rounds: "3 < length (rounds_of demo_long_turn 0)"
    by (simp add: demo_long_turn_def demo_turn_def rounds_of.simps round_end_def eval_nat_numeral)
  have "turn_boundary_split demo_three_turns 11 = Some 1"
    using starts len by (simp add: turn_boundary_split_def widen_split.simps inner_index_def)
  then have split: "compact_split ?m (Some 11) ((new_session 0)\<lparr>se_messages := demo_three_turns\<rparr>) = Some 1"
    by (simp add: compact_split_def demo_manager_def turn_aware_enabled_def)
  have "\<lfloor>8 / 5 :: rat\<rfloor> = 1" by (rule floor_unique) simp_all
  then have share: "turn_share ?m = 1"
    by (simp add: turn_share_def context_budget_chars_def autocompact_threshold_def resolve_auto_compact_tokens_def
        demo_manager_def turn_keep_max_ratio_def)
  have chars: "1 < total_chars demo_long_turn"
    by (simp add: demo_long_turn_def demo_turn_def total_chars_def message_chars_def user_message_def lit_def)
  have "resolve_compaction_variant None None = Var_A" by (simp add: resolve_compaction_variant_def js_trim_def)
  then have variant: "resolve_compaction_variant (cf_variant (sm_config ?m)) (en_variant (sm_env ?m)) = Var_A"
    by (simp add: demo_manager_def default_config_def)
  have "demo_long_turn \<noteq> []" by (simp add: demo_long_turn_def)
  then show ?thesis
    by (subst fold_drops_kept_turns [OF demo_manager_session, of _ "[user_message (lit ''one'') 0]" "[user_message (lit ''two'') 0]" demo_long_turn])
      (use starts rounds split share chars variant in \<open>simp_all add: demo_three_turns_def new_session_def\<close>)
qed

end
