(* ===== verification/Midturn_Compactor.thy ===== *)
theory Midturn_Compactor
  imports Session_Durability Stable_Compaction
begin

text \<open>
  The class \<^verbatim>\<open>MidTurnAutocompactor\<close> (\<^verbatim>\<open>packages/agent-runtime/src/midturn-autocompact.ts\<close>), which folds the head of
  the running turn's messages into a summary between two model calls, and its composition with the session manager as
  \<^verbatim>\<open>gateway.ts\<close> wires it. A message of the loop is an object: a number that stands for its identity, and its content.
  The two functions the class is given may change what they keep, the world \<open>'w\<close>; \<^const>\<open>None\<close> is a throw. Calls do not
  overlap (the loop awaits each), so \<^verbatim>\<open>compacting\<close> is false whenever it is read and is left out.
\<close>

section \<open>The class\<close>

type_synonym obj = "nat \<times> message"

record mid_options =
  mo_auto_compact_tokens :: int
  mo_keep_recent :: int
  mo_tail_budget :: "int option"
  mo_min_keep :: "int option"
  mo_overhead :: "int option"
  mo_min_delta :: "int option"
  mo_idle_after_ms :: "rat option"
  mo_idle_floor :: "int option"

record memo =
  me_summary :: utf16
  me_prefix :: "message list"
  me_tail_start :: nat
  me_tail_first :: "obj option"
  me_tail_count :: nat
  me_kept :: "obj list option"

record midturn =
  mt_memo :: "memo option"
  mt_base :: nat
  mt_last_tokens :: int
  mt_last_at :: int
  mt_manual :: bool

datatype mid_trigger = Tr_Auto | Tr_Manual

datatype mid_reason = Re_Cap | Re_Idle

record summarized_event =
  ev_trigger :: mid_trigger
  ev_reason :: mid_reason
  ev_tokens_before :: int
  ev_tokens_after :: int
  ev_messages_before :: nat
  ev_messages_after :: nat
  ev_summary_chars :: nat

definition new_midturn :: midturn where
  "new_midturn = \<lparr>mt_memo = None, mt_base = 0, mt_last_tokens = 0, mt_last_at = 0, mt_manual = False\<rparr>"

definition request_manual :: "midturn \<Rightarrow> midturn" where
  "request_manual st = st\<lparr>mt_manual := True\<rparr>"

definition at_index :: "'a list \<Rightarrow> nat \<Rightarrow> 'a option" where
  "at_index xs i = (if i < length xs then Some (xs ! i) else None)"

definition index_of :: "'a \<Rightarrow> 'a list \<Rightarrow> nat option" where
  "index_of x xs = (if x \<in> set xs then Some (length (takeWhile (\<lambda>y. y \<noteq> x) xs)) else None)"

definition memo_tail_start :: "memo \<Rightarrow> obj list \<Rightarrow> nat" where
  "memo_tail_start me ms =
     (if at_index ms (me_tail_start me) = me_tail_first me then me_tail_start me
      else
        (case Option.bind (me_tail_first me) (\<lambda>x. index_of x ms) of
           Some i \<Rightarrow> i
         | None \<Rightarrow> length ms - me_tail_count me))"

definition with_memo :: "memo \<Rightarrow> obj list \<Rightarrow> message list" where
  "with_memo me ms =
     (case me_kept me of
        None \<Rightarrow> me_prefix me @ map snd (drop (memo_tail_start me ms) ms)
      | Some kept \<Rightarrow> me_prefix me @ map snd kept @ map snd (drop (memo_tail_start me ms + length kept) ms))"

definition mid_wire :: "midturn \<Rightarrow> obj list \<Rightarrow> message list" where
  "mid_wire st ms = (case mt_memo st of None \<Rightarrow> map snd ms | Some me \<Rightarrow> with_memo me ms)"

definition mid_estimate :: "mid_options \<Rightarrow> message list \<Rightarrow> int" where
  "mid_estimate p ms =
     int (sum_list (map estimate_message_tokens ms)) + (case mo_overhead p of Some n \<Rightarrow> n | None \<Rightarrow> 0)"

definition idle_gap_over_threshold :: "mid_options \<Rightarrow> midturn \<Rightarrow> int \<Rightarrow> bool" where
  "idle_gap_over_threshold p st now =
     (let after = (case mo_idle_after_ms p of Some q \<Rightarrow> q | None \<Rightarrow> 0)
      in if after \<le> 0 \<or> mt_last_at st = 0 then False else of_int (now - mt_last_at st) > after)"

definition compaction_reason :: "mid_options \<Rightarrow> midturn \<Rightarrow> int \<Rightarrow> int \<Rightarrow> mid_reason option" where
  "compaction_reason p st now est =
     (if mt_manual st then Some Re_Cap
      else if idle_gap_over_threshold p st now \<and> est > (case mo_idle_floor p of Some n \<Rightarrow> n | None \<Rightarrow> 0) then Some Re_Idle
      else if est \<le> mo_auto_compact_tokens p then None
      else if mt_last_tokens st > 0
              \<and> est - mt_last_tokens st < (case mo_min_delta p of Some n \<Rightarrow> n | None \<Rightarrow> 40000) then None
      else Some Re_Cap)"

definition mid_split :: "mid_options \<Rightarrow> message list \<Rightarrow> nat option" where
  "mid_split p ms =
     (case (case mo_tail_budget p of
              Some b \<Rightarrow>
                if b \<noteq> 0
                then split_index_for_token_budget ms b (case mo_min_keep p of Some n \<Rightarrow> n | None \<Rightarrow> 1) (mo_keep_recent p) 0
                else None
            | None \<Rightarrow> None) of
        Some k \<Rightarrow> Some k
      | None \<Rightarrow> split_index_for_compaction ms (mo_keep_recent p))"

text \<open>\<^verbatim>\<open>messages.slice(this.baseIndex, splitIndex)\<close>\<close>

definition mid_head :: "midturn \<Rightarrow> nat \<Rightarrow> obj list \<Rightarrow> obj list" where
  "mid_head st k ms = drop (mt_base st) (take k ms)"

definition rewritten :: "obj list \<Rightarrow> obj list \<Rightarrow> bool" where
  "rewritten kept tail \<longleftrightarrow> list_ex (\<lambda>i. at_index tail i \<noteq> Some (kept ! i)) [0..<length kept]"

type_synonym 'w summarize_fn = "'w \<Rightarrow> message list \<Rightarrow> utf16 option \<Rightarrow> utf16 option \<times> 'w"
type_synonym 'w apply_fn = "'w \<Rightarrow> utf16 \<Rightarrow> nat \<Rightarrow> bool \<Rightarrow> (utf16 option \<times> obj list option) option \<times> 'w"

text \<open>What follows a successful \<^verbatim>\<open>apply\<close>: the memo, and the event; \<open>now\<close> stamps the prefix.\<close>

definition remember ::
    "mid_options \<Rightarrow> int \<Rightarrow> obj list \<Rightarrow> nat \<Rightarrow> mid_reason \<Rightarrow> message list \<Rightarrow> utf16 \<Rightarrow> utf16 option \<Rightarrow> obj list option \<Rightarrow> midturn
      \<Rightarrow> message list \<times> summarized_event \<times> midturn" where
  "remember p now ms k reason wire summary applied kept st =
     (let effective = (case applied of Some t \<Rightarrow> if t \<noteq> [] then t else summary | None \<Rightarrow> summary);
          tail = drop k ms;
          kept_tail = (case kept of Some os \<Rightarrow> if rewritten os tail then Some os else None | None \<Rightarrow> None);
          prefix = summary_prefix_messages now effective;
          emitted = prefix @ map snd (case kept_tail of Some os \<Rightarrow> os | None \<Rightarrow> tail);
          after = mid_estimate p emitted
      in (emitted,
          \<lparr>ev_trigger = (if mt_manual st then Tr_Manual else Tr_Auto), ev_reason = reason,
            ev_tokens_before = mid_estimate p wire, ev_tokens_after = after, ev_messages_before = length wire,
            ev_messages_after = length emitted, ev_summary_chars = length effective\<rparr>,
          st\<lparr>mt_memo := Some \<lparr>me_summary = effective, me_prefix = prefix, me_tail_start = k, me_tail_first = at_index ms k,
                me_tail_count = length ms - k, me_kept = kept_tail\<rparr>,
             mt_base := k, mt_last_tokens := after, mt_manual := False\<rparr>))"

definition transform_once ::
    "mid_options \<Rightarrow> 'w summarize_fn \<Rightarrow> 'w apply_fn \<Rightarrow> int \<Rightarrow> int \<Rightarrow> obj list \<Rightarrow> midturn \<Rightarrow> 'w
      \<Rightarrow> message list \<times> summarized_event option \<times> midturn \<times> 'w" where
  "transform_once p sf ap now stamp ms st w =
     (let wire = mid_wire st ms
      in case compaction_reason p st now (mid_estimate p wire) of
           None \<Rightarrow> (wire, None, st, w)
         | Some reason \<Rightarrow>
             let give_up = st\<lparr>mt_manual := False\<rparr>
             in case mid_split p (map snd ms) of
                  None \<Rightarrow> (wire, None, give_up, w)
                | Some k \<Rightarrow>
                    let head = mid_head st k ms
                    in if head = [] then (wire, None, give_up, w)
                       else
                         (case sf w (map snd head) (map_option me_summary (mt_memo st)) of
                            (None, w1) \<Rightarrow> (wire, None, give_up, w1)
                          | (Some summary, w1) \<Rightarrow>
                              if trim16 summary = [] then (wire, None, give_up, w1)
                              else
                                (case ap w1 summary (k - mt_base st) (mt_memo st \<noteq> None) of
                                   (None, w2) \<Rightarrow> (wire, None, give_up, w2)
                                 | (Some (applied, kept), w2) \<Rightarrow>
                                     (case remember p stamp ms k reason wire summary applied kept st of
                                        (out, ev, st') \<Rightarrow> (out, Some ev, st', w2)))))"

definition mid_transform ::
    "mid_options \<Rightarrow> 'w summarize_fn \<Rightarrow> 'w apply_fn \<Rightarrow> int \<Rightarrow> int \<Rightarrow> int \<Rightarrow> obj list \<Rightarrow> midturn \<Rightarrow> 'w
      \<Rightarrow> message list \<times> summarized_event option \<times> midturn \<times> 'w" where
  "mid_transform p sf ap now stamp later ms st w =
     (case transform_once p sf ap now stamp ms st w of
        (out, ev, st', w') \<Rightarrow> (out, ev, st'\<lparr>mt_last_at := later\<rparr>, w'))"

section \<open>The store behind it\<close>

text \<open>
  What the class needs of the two functions: \<open>held\<close> is the number of messages the store holds. A summary leaves them
  alone; applying one drops the first \<open>n\<close> and hands back the rest.
\<close>

definition mid_ready :: "midturn \<Rightarrow> obj list \<Rightarrow> bool" where
  "mid_ready st ms \<longleftrightarrow>
     (case mt_memo st of
        None \<Rightarrow> mt_base st = 0
      | Some me \<Rightarrow>
          me_tail_start me = mt_base st \<and> mt_base st < length ms \<and> me_tail_first me = Some (ms ! mt_base st)
          \<and> (case me_kept me of None \<Rightarrow> True | Some kept \<Rightarrow> mt_base st + length kept \<le> length ms))"

lemma at_index_less [simp]: "i < length xs \<Longrightarrow> at_index xs i = Some (xs ! i)"
  by (simp add: at_index_def)

lemma mid_wire_append: "mid_ready st ms \<Longrightarrow> mid_wire st (ms @ xs) = mid_wire st ms @ map snd xs"
  by (auto simp: mid_ready_def mid_wire_def with_memo_def memo_tail_start_def nth_append split: option.splits)

lemma mid_ready_append: "mid_ready st ms \<Longrightarrow> mid_ready st (ms @ xs)"
  by (auto simp: mid_ready_def nth_append split: option.splits)

lemma mid_fields [simp]:
  "mid_wire (st\<lparr>mt_manual := b\<rparr>) ms = mid_wire st ms" "mid_ready (st\<lparr>mt_manual := b\<rparr>) ms = mid_ready st ms"
  "mid_wire (st\<lparr>mt_last_at := t\<rparr>) ms = mid_wire st ms" "mid_ready (st\<lparr>mt_last_at := t\<rparr>) ms = mid_ready st ms"
  by (auto simp: mid_wire_def mid_ready_def split: option.splits)

lemma split_for_tokens_inner:
  assumes "split_index_for_token_budget ms b mn mx per = Some k"
  shows "0 < k \<and> k < length ms"
proof (cases "split_index_for_compaction ms mx")
  case None
  then show ?thesis using assms by (simp add: split_index_for_token_budget_def)
next
  case (Some c)
  then have "\<exists>j. (if 0 < j \<and> j < length ms then Some j else Some c) = Some k"
    using assms unfolding split_index_for_token_budget_def Some Let_def option.case by - (rule exI, assumption)
  then show ?thesis using count_split_inside [OF Some] by (auto split: if_splits)
qed

lemma mid_split_inner:
  assumes "mid_split p ms = Some k"
  shows "0 < k" and "k < length ms"
  using assms count_split_inside split_for_tokens_inner
  by (auto simp: mid_split_def split: option.splits if_splits)

text \<open>The memo emits what was just emitted, if the store handed back as many messages as the tail has.\<close>

lemma remember_spec:
  assumes "remember p now ms k reason wire summary applied kept st = (out, ev, st')" and "k < length ms"
    and "case kept of None \<Rightarrow> True | Some os \<Rightarrow> length os = length ms - k"
  shows "mid_ready st' ms \<and> out = mid_wire st' ms \<and> mt_base st' = k"
proof -
  define os where "os = (case kept of Some os \<Rightarrow> if rewritten os (drop k ms) then Some os else None | None \<Rightarrow> None)"
  define t where "t = (case applied of Some t \<Rightarrow> if t \<noteq> [] then t else summary | None \<Rightarrow> summary)"
  have len: "os = Some l \<Longrightarrow> length l = length ms - k" for l
    using assms(3) by (auto simp: os_def split: option.splits if_splits)
  have st': "mt_memo st' = Some \<lparr>me_summary = t, me_prefix = summary_prefix_messages now t, me_tail_start = k,
      me_tail_first = at_index ms k, me_tail_count = length ms - k, me_kept = os\<rparr>" "mt_base st' = k"
    and out: "out = summary_prefix_messages now t @ map snd (case os of Some l \<Rightarrow> l | None \<Rightarrow> drop k ms)"
    using assms(1) unfolding remember_def Let_def os_def [symmetric] t_def [symmetric] by auto
  show ?thesis using assms(2) st' out len
    by (cases os) (simp_all add: mid_ready_def mid_wire_def with_memo_def memo_tail_start_def)
qed

text \<open>One call either keeps the wire, \<open>view\<close> of the world being the same, or folds.\<close>

lemma transform_once_cases:
  assumes "transform_once p sf ap now stamp ms st w = (out, ev, st', w')"
    and sf_same: "\<And>u h q r u'. sf u h q = (r, u') \<Longrightarrow> view u' = view u"
    and ap_same: "\<And>u t n r u'. ap u t n r = (None, u') \<Longrightarrow> view u' = view u"
  obtains (quiet) "out = mid_wire st ms" "ev = None" "st' = st \<or> st' = st\<lparr>mt_manual := False\<rparr>" "view w' = view w"
  | (folded) reason k summary w1 applied kept ev' where
      "mid_split p (map snd ms) = Some k" "mid_head st k ms \<noteq> []" "view w1 = view w"
      "ap w1 summary (k - mt_base st) (mt_memo st \<noteq> None) = (Some (applied, kept), w')"
      "remember p stamp ms k reason (mid_wire st ms) summary applied kept st = (out, ev', st')" "ev = Some ev'"
proof (cases "compaction_reason p st now (mid_estimate p (mid_wire st ms))")
  case None
  then have same: "out = mid_wire st ms" "ev = None" "st' = st" "w' = w" using assms(1) by (auto simp: transform_once_def)
  show ?thesis by (rule quiet) (use same in simp_all)
next
  case (Some reason)
  note once = assms(1) [unfolded transform_once_def Let_def Some option.case]
  show ?thesis
  proof (cases "mid_split p (map snd ms)")
    case None
    then show ?thesis using quiet once by simp
  next
    case k: (Some k)
    obtain r1 w1 where sf: "sf w (map snd (mid_head st k ms)) (map_option me_summary (mt_memo st)) = (r1, w1)" by fastforce
    obtain r2 w2 where ap: "ap w1 (the r1) (k - mt_base st) (mt_memo st \<noteq> None) = (r2, w2)" by fastforce
    show ?thesis
    proof (cases "mid_head st k ms = [] \<or> r1 = None \<or> trim16 (the r1) = [] \<or> r2 = None")
      case True
      then consider (empty) "mid_head st k ms = []" | (failed) "mid_head st k ms \<noteq> []" "r1 = None"
        | (blank) s where "mid_head st k ms \<noteq> []" "r1 = Some s" "trim16 s = []"
        | (threw) s where "mid_head st k ms \<noteq> []" "r1 = Some s" "trim16 s \<noteq> []" "r2 = None"
        by (cases r1) auto
      then have "out = mid_wire st ms \<and> ev = None \<and> (st' = st \<or> st' = st\<lparr>mt_manual := False\<rparr>) \<and> view w' = view w"
        by cases (use once k sf ap sf_same [OF sf] ap_same in \<open>auto simp del: not_None_eq\<close>)
      then show ?thesis using quiet by blast
    next
      case False
      then obtain applied kept where some: "mid_head st k ms \<noteq> []" "r1 = Some (the r1)" "trim16 (the r1) \<noteq> []"
        "r2 = Some (applied, kept)" by auto
      obtain o1 e1 s1 where rem: "remember p stamp ms k reason (mid_wire st ms) (the r1) applied kept st = (o1, e1, s1)"
        by (metis prod_cases3)
      have "(case (r1, w1) of (None, w1) \<Rightarrow> z w1 | (Some s, w1) \<Rightarrow> f s w1) = f (the r1) w1" for z f
        using some(2) by (cases r1) auto
      then have res: "out = o1" "ev = Some e1" "st' = s1" "w' = w2"
        using once k sf ap some rem by (auto split: option.splits)
      show ?thesis by (rule folded) (use k sf_same [OF sf] ap some rem res in simp_all)
    qed
  qed
qed

locale summary_store =
  fixes sf :: "'w summarize_fn" and ap :: "'w apply_fn" and held :: "'w \<Rightarrow> nat"
  assumes sf_held: "sf w head previous = (r, w') \<Longrightarrow> held w' = held w"
    and ap_kept: "ap w summary n replace = (Some (t, Some kept), w') \<Longrightarrow> length kept + n = held w \<and> held w' = length kept"
    and ap_none: "ap w summary n replace = (Some (t, None), w') \<Longrightarrow> \<not> (0 < n \<and> n < held w)"
    and ap_throws: "ap w summary n replace = (None, w') \<Longrightarrow> held w' = held w"
begin

definition in_step :: "midturn \<Rightarrow> obj list \<Rightarrow> 'w \<Rightarrow> bool" where
  "in_step st ms w \<longleftrightarrow> mid_ready st ms \<and> held w + mt_base st = length ms"

lemma once_spec:
  assumes "in_step st ms w" and "transform_once p sf ap now stamp ms st w = (out, ev, st', w')"
  shows "in_step st' ms w' \<and> out = mid_wire st' ms \<and> (ev = None \<longrightarrow> out = mid_wire st ms)"
proof -
  have give_up: "in_step (st\<lparr>mt_manual := False\<rparr>) ms u" if "held u = held w" for u
    using assms(1) that by (simp add: in_step_def)
  show ?thesis
  proof (rule transform_once_cases [OF assms(2), where view = held])
    fix reason k summary w1 applied kept ev'
    assume f: "mid_split p (map snd ms) = Some k" "mid_head st k ms \<noteq> []" "held w1 = held w"
      "ap w1 summary (k - mt_base st) (mt_memo st \<noteq> None) = (Some (applied, kept), w')"
      "remember p stamp ms k reason (mid_wire st ms) summary applied kept st = (out, ev', st')" "ev = Some ev'"
    then have inner: "k < length ms" "mt_base st < k"
      using mid_split_inner [OF f(1)] by (auto simp: mid_head_def)
    have all: "held w + mt_base st = length ms" using assms(1) by (simp add: in_step_def)
    obtain os where os: "kept = Some os"
      using f(3,4) ap_none [of w1 summary "k - mt_base st" "mt_memo st \<noteq> None" applied w'] inner all
      by (cases kept) auto
    then have "length os + (k - mt_base st) = held w1" "held w' = length os" using f(4) ap_kept by auto
    then have len: "length os = length ms - k" "held w' + k = length ms" using inner all f(3) by simp_all
    then show ?thesis using remember_spec [OF f(5) inner(1)] os f(6) by (simp add: in_step_def)
  qed (use assms(1) sf_held ap_throws give_up [of w'] in \<open>auto simp: in_step_def\<close>)
qed

lemma transform_spec:
  assumes "in_step st ms w" and "mid_transform p sf ap now stamp later ms st w = (out, ev, st', w')"
  shows "in_step st' ms w'" and "out = mid_wire st' ms" and "ev = None \<Longrightarrow> out = mid_wire st ms"
proof -
  obtain st1 where "transform_once p sf ap now stamp ms st w = (out, ev, st1, w')" "st' = st1\<lparr>mt_last_at := later\<rparr>"
    using assms(2) by (auto simp: mid_transform_def split: prod.splits)
  then show "in_step st' ms w'" and "out = mid_wire st' ms" and "ev = None \<Longrightarrow> out = mid_wire st ms"
    using once_spec [OF assms(1)] by (auto simp: in_step_def)
qed

lemma loop_grows:
  assumes "in_step st ms w" and "held w' = held w + length xs"
  shows "in_step st (ms @ xs) w'"
  using assms by (simp add: in_step_def mid_ready_append)

lemma quiet_call_extends:
  assumes "in_step st ms w" and "mid_transform p sf ap now stamp later ms st w = (out, ev, st1, w1)"
    and "held w2 = held w1 + length xs"
    and "mid_transform p sf ap now' stamp' later' (ms @ xs) st1 w2 = (out', None, st2, w3)"
  shows "out' = out @ map snd xs"
proof -
  note first = transform_spec [OF assms(1,2)]
  have "out' = mid_wire st1 (ms @ xs)" by (rule transform_spec(3) [OF loop_grows [OF first(1) assms(3)] assms(4)]) simp
  then show ?thesis using first by (simp add: mid_wire_append in_step_def)
qed

end

section \<open>Wired to the session manager\<close>

text \<open>\<open>ids\<close> gives the objects a session's messages are; \<open>extra\<close> is the file state the gateway adds.\<close>

definition objects :: "(message list \<Rightarrow> nat \<Rightarrow> nat) \<Rightarrow> message list \<Rightarrow> obj list" where
  "objects ids ms = map (\<lambda>i. (ids ms i, ms ! i)) [0..<length ms]"

lemma objects_contents [simp]: "map snd (objects ids ms) = ms" "length (objects ids ms) = length ms"
  by (simp_all add: objects_def comp_def map_nth)

definition session_summarize :: "manager summarize_fn" where
  "session_summarize m head previous = (case summarize_head_of m head previous of (s, m') \<Rightarrow> (Some s, m'))"

definition session_apply ::
    "(message list \<Rightarrow> nat \<Rightarrow> nat) \<Rightarrow> (utf16 \<Rightarrow> utf16 \<Rightarrow> bool) \<Rightarrow> int \<Rightarrow> save_outcome \<Rightarrow> utf16 \<Rightarrow> utf16 option \<Rightarrow> manager apply_fn" where
  "session_apply ids le now io i extra m summary n replace =
     (case apply_compaction le now io i summary n extra replace m of
        (m', None) \<Rightarrow> (Some (None, None), m')
      | (m', Some r) \<Rightarrow>
          (case get_session i m' of
             None \<Rightarrow> (Some (None, None), m')
           | Some s \<Rightarrow> (Some (se_summary s, Some (objects ids (se_messages s))), m')))"

definition session_held :: "utf16 \<Rightarrow> manager \<Rightarrow> nat" where
  "session_held i m = (case get_session i m of None \<Rightarrow> 0 | Some s \<Rightarrow> length (se_messages s))"

lemma variant_length [simp]: "length (fst (apply_variant_to_kept_tail v ms)) = length ms"
  by (auto simp: apply_variant_to_kept_tail_def dropped.layer_length split: option.split)

lemma apply_compaction_held:
  assumes "apply_compaction le now io i summary n extra replace m = (m', r)"
  shows "r = None \<Longrightarrow> m' = m \<and> \<not> (0 < n \<and> n < session_held i m)"
    and "r \<noteq> None \<Longrightarrow> 0 < n \<and> n < session_held i m \<and> session_held i m' + n = session_held i m \<and> get_session i m' \<noteq> None"
  using assms by (auto simp: apply_compaction_def session_held_def Let_def split: option.splits if_splits)

interpretation session_store: summary_store session_summarize "session_apply ids le now io i extra" "session_held i"
  for ids le now io i extra
proof unfold_locales
  fix m head previous r m'
  assume "session_summarize m head previous = (r, m')"
  then show "session_held i m' = session_held i m"
    using summarize_head_of_fields(1) [of i m head previous]
    by (auto simp: session_summarize_def session_held_def split: prod.splits)
next
  fix m summary n replace t kept m'
  assume "session_apply ids le now io i extra m summary n replace = (Some (t, Some kept), m')"
  then show "length kept + n = session_held i m \<and> session_held i m' = length kept"
    using apply_compaction_held(2) [of le now io i summary n extra replace m]
    by (auto simp: session_apply_def session_held_def split: prod.splits option.splits)
next
  fix m summary n replace t m'
  assume "session_apply ids le now io i extra m summary n replace = (Some (t, None), m')"
  then show "\<not> (0 < n \<and> n < session_held i m)"
    using apply_compaction_held [of le now io i summary n extra replace m]
    by (auto simp: session_apply_def split: prod.splits option.splits)
next
  fix m summary n replace m'
  assume "session_apply ids le now io i extra m summary n replace = (None, m')"
  then show "session_held i m' = session_held i m"
    by (auto simp: session_apply_def split: prod.splits option.splits)
qed

section \<open>A turn\<close>

text \<open>
  One model call of a turn, as \<^verbatim>\<open>transformContext\<close> of \<^verbatim>\<open>gateway.ts\<close> makes it: the loop has appended the
  objects \<open>xs\<close> and the gateway has saved them; the stable layers and the image guard run over all of them; the compactor
  gets what they hand on. A message they leave alone is handed on as the object it was, another as a new object, whose
  number is the call's to choose. After a fold the layers' decisions are dropped. What the guard makes of the images of a
  message is an argument.
\<close>

definition scrub_invalid_images :: "(message \<Rightarrow> content) \<Rightarrow> message list \<Rightarrow> message list" where
  "scrub_invalid_images guard ms =
     map (\<lambda>m. if is_result m \<or> ms_role m = User \<and> (\<exists>bs. ms_content m = C_Blocks bs) then m\<lparr>ms_content := guard m\<rparr> else m) ms"

record gate =
  gt_raw :: "utf16 option"
  gt_chars :: int
  gt_tokens :: "int option"
  gt_images :: "message \<Rightarrow> content"

type_synonym turn_state = "obj list \<times> replacement_state \<times> midturn \<times> manager"

record model_call =
  mc_now :: int
  mc_stamp :: int
  mc_later :: int
  mc_io :: save_outcome
  mc_extra :: "utf16 option"
  mc_manual :: bool
  mc_fresh :: "nat \<Rightarrow> nat"
  mc_new :: "obj list"

definition as_objects :: "(nat \<Rightarrow> nat) \<Rightarrow> obj list \<Rightarrow> message list \<Rightarrow> obj list" where
  "as_objects fresh xs ms = map (\<lambda>i. if ms ! i = snd (xs ! i) then xs ! i else (fresh i, ms ! i)) [0..<length ms]"

definition call_wire :: "gate \<Rightarrow> replacement_state \<Rightarrow> model_call \<Rightarrow> obj list \<Rightarrow> obj list" where
  "call_wire g rs c xs =
     as_objects (mc_fresh c) xs
       (scrub_invalid_images (gt_images g)
         (sent_messages (stable_transform_context (gt_raw g) (gt_chars g) (gt_tokens g) rs (map snd xs))))"

definition turn_call ::
    "mid_options \<Rightarrow> gate \<Rightarrow> (message list \<Rightarrow> nat \<Rightarrow> nat) \<Rightarrow> (utf16 \<Rightarrow> utf16 \<Rightarrow> bool) \<Rightarrow> utf16 \<Rightarrow> model_call \<Rightarrow> turn_state
      \<Rightarrow> turn_state \<times> message list \<times> obj list" where
  "turn_call p g ids le i c = (\<lambda>(ms, rs, st, m).
     let xs = ms @ mc_new c;
         m0 = fst (add_messages (mc_now c) (mc_io c) i (map snd (mc_new c)) m);
         st0 = (if mc_manual c then request_manual st else st);
         rs1 = next_state (stable_transform_context (gt_raw g) (gt_chars g) (gt_tokens g) rs (map snd xs));
         wire = call_wire g rs c xs
     in case mid_transform p session_summarize (session_apply ids le (mc_now c) (mc_io c) i (mc_extra c))
               (mc_now c) (mc_stamp c) (mc_later c) wire st0 m0 of
          (out, ev, st1, m1) \<Rightarrow>
            ((xs, if ev = None then rs1 else create_replacement_state, st1, m1), out,
             if ev = None then [] else mid_head st (mt_base st1) wire))"

fun turn_run ::
    "mid_options \<Rightarrow> gate \<Rightarrow> (message list \<Rightarrow> nat \<Rightarrow> nat) \<Rightarrow> (utf16 \<Rightarrow> utf16 \<Rightarrow> bool) \<Rightarrow> utf16 \<Rightarrow> model_call list \<Rightarrow> turn_state
      \<Rightarrow> turn_state \<times> message list list \<times> obj list list" where
  "turn_run p g ids le i [] u = (u, [], [])"
| "turn_run p g ids le i (c # cs) u =
     (case turn_call p g ids le i c u of
        (u1, out, folded) \<Rightarrow> (case turn_run p g ids le i cs u1 of (u2, outs, heads) \<Rightarrow> (u2, out # outs, folded # heads)))"

text \<open>What is asked of a run, call by call: that every array handed on relates to the loop's, and that no cut leaves a
  tool result first (which the split does when the results of one message fill the tail).\<close>

fun along ::
    "(obj \<Rightarrow> obj \<Rightarrow> bool) \<Rightarrow> mid_options \<Rightarrow> gate \<Rightarrow> (message list \<Rightarrow> nat \<Rightarrow> nat) \<Rightarrow> (utf16 \<Rightarrow> utf16 \<Rightarrow> bool) \<Rightarrow> utf16
      \<Rightarrow> model_call list \<Rightarrow> turn_state \<Rightarrow> bool" where
  "along P p g ids le i [] u = True"
| "along P p g ids le i (c # cs) u =
     (list_all2 P (fst u @ mc_new c) (call_wire g (fst (snd u)) c (fst u @ mc_new c))
      \<and> along P p g ids le i cs (fst (turn_call p g ids le i c u)))"

definition clean_cut :: "midturn \<Rightarrow> bool" where
  "clean_cut st \<longleftrightarrow> (case mt_memo st of None \<Rightarrow> True
     | Some me \<Rightarrow> (case me_tail_first me of None \<Rightarrow> True | Some x \<Rightarrow> \<not> is_result (snd x)))"

fun clean_cuts ::
    "mid_options \<Rightarrow> gate \<Rightarrow> (message list \<Rightarrow> nat \<Rightarrow> nat) \<Rightarrow> (utf16 \<Rightarrow> utf16 \<Rightarrow> bool) \<Rightarrow> utf16 \<Rightarrow> model_call list \<Rightarrow> turn_state \<Rightarrow> bool" where
  "clean_cuts p g ids le i [] u = True"
| "clean_cuts p g ids le i (c # cs) u =
     (let u1 = fst (turn_call p g ids le i c u) in clean_cut (fst (snd (snd u1))) \<and> clean_cuts p g ids le i cs u1)"

definition results_only :: "gate \<Rightarrow> bool" where
  "results_only g \<longleftrightarrow> (\<forall>m. \<not> is_result m \<longrightarrow> gt_images g m = ms_content m)"

definition passed_on :: "obj \<Rightarrow> obj \<Rightarrow> bool" where
  "passed_on x y \<longleftrightarrow> same_shape (snd x) (snd y) \<and> (\<not> is_result (snd x) \<longrightarrow> y = x)"

lemma scrub_shape: "results_only g \<Longrightarrow> list_all2 same_shape ms (scrub_invalid_images (gt_images g) ms)"
  by (auto simp: scrub_invalid_images_def list_all2_conv_all_nth results_only_def same_shape_def)

lemma call_wire_passed:
  assumes "results_only g"
  shows "list_all2 passed_on xs (call_wire g rs c xs)"
proof -
  define out where "out = scrub_invalid_images (gt_images g)
    (sent_messages (stable_transform_context (gt_raw g) (gt_chars g) (gt_tokens g) rs (map snd xs)))"
  have "list_all2 same_shape (map snd xs) out"
    unfolding out_def by (rule shape_trans [OF stable_shape scrub_shape [OF assms]])
  then have "length out = length xs" "\<And>j. j < length xs \<Longrightarrow> same_shape (snd (xs ! j)) (out ! j)"
    by (auto simp: list_all2_conv_all_nth)
  then show ?thesis
    unfolding call_wire_def out_def [symmetric] as_objects_def
    by (auto simp: list_all2_conv_all_nth passed_on_def same_shape_def)
qed

lemma along_passed: "results_only g \<Longrightarrow> along passed_on p g ids le i cs u"
  by (induction cs arbitrary: u) (simp_all add: call_wire_passed)

lemma agrees_lengths: "list_all2 P (xs :: obj list) L \<Longrightarrow> length L = length xs"
  by (simp add: list_all2_lengthD)

lemma clean_fields [simp]: "clean_cut (st\<lparr>mt_manual := b\<rparr>) = clean_cut st" "clean_cut (st\<lparr>mt_last_at := t\<rparr>) = clean_cut st"
  by (simp_all add: clean_cut_def)

lemma not_rewritten:
  assumes "\<not> rewritten os tail" and "length os = length tail"
  shows "os = tail"
proof (rule nth_equalityI [OF assms(2)])
  fix j
  assume "j < length os"
  then show "os ! j = tail ! j" using assms by (simp add: rewritten_def list_ex_iff at_index_def)
qed

lemma summarize_session: "session_summarize m head previous = (r, m') \<Longrightarrow> get_session i m' = get_session i m"
  using summarize_head_of_fields(1) [of i m head previous] by (auto simp: session_summarize_def split: prod.splits)

lemma variant_shape: "list_all2 same_shape ms (fst (apply_variant_to_kept_tail v ms))"
  by (auto simp: apply_variant_to_kept_tail_def dropped.layer_shape list.rel_refl split: option.split)

lemma apply_session:
  assumes "session_apply ids le now io i extra m summary n replace = (Some (t, Some kept), m')"
  shows "\<exists>s s' u. get_session i m = Some s \<and> list_all2 same_shape (drop n (se_messages s)) (se_messages s')
    \<and> get_session i m' = Some s' \<and> kept = objects ids (se_messages s') \<and> t = Some u \<and> se_summary s' = Some u \<and> u \<noteq> []"
  using assms variant_shape
  by (auto simp: session_apply_def apply_compaction_def Let_def split: option.splits prod.splits if_splits)

lemma drop_take_pieces:
  assumes "a \<le> b" and "b \<le> c" and "b \<le> length xs"
  shows "drop a (take c (xs @ ys)) = drop a (take b xs) @ drop b (take c (xs @ ys))"
proof -
  have "take b (take c (xs @ ys)) = take b xs" using assms by (simp add: min_def)
  then have "take c (xs @ ys) = take b xs @ drop b (take c (xs @ ys))" by (metis append_take_drop_id)
  then have "drop a (take c (xs @ ys)) = drop a (take b xs @ drop b (take c (xs @ ys)))" by (rule arg_cong)
  moreover have "drop a (take b xs @ z) = drop a (take b xs) @ z" for z using assms by simp
  ultimately show ?thesis by (rule trans)
qed

definition unpruned :: "manager \<Rightarrow> manager" where
  "unpruned m = m\<lparr>sm_config := (sm_config m)\<lparr>cf_pruning := None\<rparr>\<rparr>"

section \<open>The loop and the session agree\<close>

text \<open>The session's messages as the memo shows them, for a likeness of messages: the same but for what was rewritten in
  tool results, or the very same when nothing was.\<close>

locale likeness =
  fixes R :: "message \<Rightarrow> message \<Rightarrow> bool"
  assumes R_refl: "R a a" and R_sym: "R a b \<Longrightarrow> R b a" and R_trans: "R a b \<Longrightarrow> R b c \<Longrightarrow> R a c"
    and R_shape: "R a b \<Longrightarrow> same_shape a b"
begin

definition like :: "obj \<Rightarrow> obj \<Rightarrow> bool" where
  "like x y \<longleftrightarrow> R (snd x) (snd y) \<and> (\<not> is_result (snd x) \<longrightarrow> y = x)"

definition shown :: "midturn \<Rightarrow> obj list \<Rightarrow> session \<Rightarrow> bool" where
  "shown st ms s \<longleftrightarrow>
     (case mt_memo st of
        None \<Rightarrow> se_summary s = None \<and> list_all2 R (map snd ms) (se_messages s)
      | Some me \<Rightarrow>
          (\<exists>t stamp. se_summary s = Some t \<and> t \<noteq> [] \<and> me_prefix me = summary_prefix_messages stamp t)
          \<and> (case me_kept me of
               None \<Rightarrow> list_all2 R (map snd (drop (mt_base st) ms)) (se_messages s)
             | Some kept \<Rightarrow> \<exists>rest. se_messages s = map snd kept @ rest
                 \<and> list_all2 R (map snd (drop (mt_base st + length kept) ms)) rest))"

definition agrees :: "utf16 \<Rightarrow> obj list \<Rightarrow> midturn \<Rightarrow> manager \<Rightarrow> bool" where
  "agrees i ms st m \<longleftrightarrow>
     mid_ready st ms \<and> clean_cut st \<and> mt_base st \<le> length ms
     \<and> (\<exists>s. get_session i m = Some s \<and> list_all2 same_shape (map snd (drop (mt_base st) ms)) (se_messages s) \<and> shown st ms s)"

definition history_like :: "utf16 \<Rightarrow> manager \<Rightarrow> message list \<Rightarrow> bool" where
  "history_like i m out \<longleftrightarrow> (\<exists>stamp. list_all2 R (build_history stamp i (unpruned m)) out)"

lemma refl2: "list_all2 R xs xs"
  by (simp add: list.rel_refl R_refl)

lemma sym2: "list_all2 R xs ys \<Longrightarrow> list_all2 R ys xs"
  by (auto simp: list_all2_conv_all_nth intro: R_sym)

lemma trans2: "list_all2 R xs ys \<Longrightarrow> list_all2 R ys zs \<Longrightarrow> list_all2 R xs zs"
  by (rule list_all2_trans [OF R_trans])

lemma like_contents: "list_all2 like xs L \<Longrightarrow> list_all2 R (map snd (drop k xs)) (map snd (drop k L))"
  by (auto simp: list_all2_conv_all_nth like_def)

lemma shown_fields [simp]:
  "shown (st\<lparr>mt_manual := b\<rparr>) ms s = shown st ms s" "shown (st\<lparr>mt_last_at := t\<rparr>) ms s = shown st ms s"
  by (auto simp: shown_def split: option.split)

lemma agrees_fields [simp]:
  "agrees i ms (st\<lparr>mt_manual := b\<rparr>) m = agrees i ms st m" "agrees i ms (st\<lparr>mt_last_at := t\<rparr>) m = agrees i ms st m"
  by (simp_all add: agrees_def)

lemma agrees_held: "agrees i ms st m \<Longrightarrow> session_held i m + mt_base st = length ms"
  by (auto simp: agrees_def session_held_def dest: list_all2_lengthD)

lemma add_agrees:
  assumes "agrees i ms st m"
  shows "agrees i (ms @ xs) st (fst (add_messages now io i (map snd xs) m))"
proof -
  obtain s where s: "mid_ready st ms" "clean_cut st" "get_session i m = Some s" "mt_base st \<le> length ms"
    "list_all2 same_shape (map snd (drop (mt_base st) ms)) (se_messages s)" "shown st ms s" using assms by (auto simp: agrees_def)
  define s' where "s' = s\<lparr>se_messages := se_messages s @ map snd xs, se_last_activity := now,
    se_total_messages := se_total_messages s + int (length (map snd xs))\<rparr>"
  have "get_session i (fst (add_messages now io i (map snd xs) m)) = Some s'"
    by (simp add: add_messages_def get_or_create_def s s'_def Let_def)
  moreover have "list_all2 same_shape (map snd (drop (mt_base st) (ms @ xs))) (se_messages s')"
    using s(4,5) list.rel_refl [of same_shape "map snd xs"] by (simp add: s'_def list_all2_appendI)
  moreover have "shown st (ms @ xs) s'"
  proof (cases "mt_memo st")
    case None
    then show ?thesis using s(6) refl2 [of "map snd xs"] by (simp add: shown_def s'_def list_all2_appendI)
  next
    case (Some me)
    show ?thesis
    proof (cases "me_kept me")
      case None
      then show ?thesis using s(4,6) Some refl2 [of "map snd xs"] by (simp add: shown_def s'_def list_all2_appendI)
    next
      case kept: (Some kept)
      then have "mt_base st + length kept \<le> length ms" using s(1) Some by (simp add: mid_ready_def)
      moreover obtain rest where "se_messages s = map snd kept @ rest"
        "list_all2 R (map snd (drop (mt_base st + length kept) ms)) rest" using s(6) Some kept by (auto simp: shown_def)
      ultimately show ?thesis using s(6) Some kept refl2 [of "map snd xs"]
        by (auto simp: shown_def s'_def list_all2_appendI intro!: exI [of _ "rest @ map snd xs"])
    qed
  qed
  ultimately show ?thesis using s(1,2,4) by (simp add: agrees_def mid_ready_append)
qed

lemma ready_wire:
  assumes "mid_ready st ms" and "clean_cut st" and "list_all2 like ms L"
  shows "mid_ready st L"
proof (cases "mt_memo st")
  case (Some me)
  have len: "length L = length ms" using assms(3) by (simp add: list_all2_lengthD)
  have "mt_base st < length ms" "me_tail_first me = Some (ms ! mt_base st)" using assms(1) Some by (auto simp: mid_ready_def)
  moreover then have "\<not> is_result (snd (ms ! mt_base st))" using assms(2) Some by (simp add: clean_cut_def)
  moreover have "like (ms ! mt_base st) (L ! mt_base st)" using assms(3) calculation(1) by (simp add: list_all2_conv_all_nth)
  ultimately have "me_tail_first me = Some (L ! mt_base st)" by (simp add: like_def)
  then show ?thesis using assms(1) Some len by (auto simp: mid_ready_def split: option.splits)
qed (use assms(1) in \<open>simp add: mid_ready_def\<close>)

lemma wire_history:
  assumes "agrees i ms st m" and "list_all2 like ms L"
  shows "history_like i m (mid_wire st L)"
proof -
  obtain s where s: "get_session i m = Some s" "mid_ready st ms" "clean_cut st" "shown st ms s" using assms(1) by (auto simp: agrees_def)
  have u: "get_session i (unpruned m) = Some s" using s(1) by (simp add: unpruned_def get_session_def)
  have ready: "mid_ready st L" by (rule ready_wire [OF s(2,3) assms(2)])
  have like: "list_all2 R msgs (map snd (drop k L))" if "list_all2 R (map snd (drop k ms)) msgs" for k msgs
    using trans2 [OF sym2 [OF that] like_contents [OF assms(2)]] .
  show ?thesis
  proof (cases "mt_memo st")
    case None
    then show ?thesis using s(4) u like [of 0 "se_messages s"]
      by (simp add: history_like_def build_history_def unpruned_def shown_def mid_wire_def)
  next
    case (Some me)
    then obtain t stamp where t: "se_summary s = Some t" "t \<noteq> []" "me_prefix me = summary_prefix_messages stamp t"
      using s(4) by (auto simp: shown_def)
    have start: "memo_tail_start me L = mt_base st" using ready Some by (auto simp: mid_ready_def memo_tail_start_def)
    have "list_all2 R (se_messages s) (case me_kept me of None \<Rightarrow> map snd (drop (mt_base st) L)
        | Some kept \<Rightarrow> map snd kept @ map snd (drop (mt_base st + length kept) L))"
    proof (cases "me_kept me")
      case None
      then show ?thesis using s(4) Some like by (simp add: shown_def)
    next
      case (Some kept)
      then obtain rest where "se_messages s = map snd kept @ rest" "list_all2 R (map snd (drop (mt_base st + length kept) ms)) rest"
        using s(4) \<open>mt_memo st = Some me\<close> by (auto simp: shown_def)
      then show ?thesis using Some like refl2 by (simp add: list_all2_appendI)
    qed
    then show ?thesis using u t Some start refl2 [of "summary_prefix_messages stamp t"]
      by (auto simp: history_like_def build_history_def unpruned_def mid_wire_def with_memo_def list_all2_appendI
          intro!: exI [of _ stamp] split: option.splits)
  qed
qed

lemma once_agrees:
  assumes agree: "agrees i ms st m" and L: "list_all2 like ms L"
    and once: "transform_once p session_summarize (session_apply ids le t io i extra) now stamp L st m = (out, ev, st', m')"
    and clean: "clean_cut st'"
  shows "agrees i ms st' m' \<and> history_like i m' out
    \<and> (if ev = None then mt_base st' = mt_base st else mt_base st < mt_base st')"
proof (rule transform_once_cases [OF once, where view = "\<lambda>m. (get_session i m, sm_config m)"])
  fix reason k summary m1 applied kept ev'
  assume f: "mid_split p (map snd L) = Some k" "mid_head st k L \<noteq> []" "(get_session i m1, sm_config m1) = (get_session i m, sm_config m)"
    "session_apply ids le t io i extra m1 summary (k - mt_base st) (mt_memo st \<noteq> None) = (Some (applied, kept), m')"
    "remember p stamp L k reason (mid_wire st L) summary applied kept st = (out, ev', st')" "ev = Some ev'"
  have len: "length L = length ms" using L by (simp add: list_all2_lengthD)
  have inner: "k < length L" "mt_base st < k" using mid_split_inner [OF f(1)] f(2) by (auto simp: mid_head_def)
  have "session_held i m1 + mt_base st = length ms"
    using agrees_held [OF agree] f(3) by (simp add: session_held_def)
  moreover then obtain os where os: "kept = Some os"
    using f(4) session_store.ap_none [of ids le t io i extra m1 summary "k - mt_base st" "mt_memo st \<noteq> None" applied m'] inner len
    by (cases kept) auto
  moreover have "length os + (k - mt_base st) = session_held i m1" "session_held i m' = length os"
    using session_store.ap_kept f(4) os by blast+
  ultimately have los: "length os = length L - k" using inner len by simp
  obtain s s' u where s: "get_session i m1 = Some s" "list_all2 same_shape (drop (k - mt_base st) (se_messages s)) (se_messages s')"
    and s': "get_session i m' = Some s'" "os = objects ids (se_messages s')" "applied = Some u"
    "se_summary s' = Some u" "u \<noteq> []" using apply_session f(4) os by blast
  have "list_all2 same_shape (map snd (drop (mt_base st) ms)) (se_messages s)"
    using agree s(1) f(3) by (auto simp: agrees_def)
  then have "list_all2 same_shape (drop (k - mt_base st) (map snd (drop (mt_base st) ms))) (drop (k - mt_base st) (se_messages s))"
    by (rule list_all2_dropI)
  then have shape: "list_all2 same_shape (map snd (drop k ms)) (se_messages s')"
    using list_all2_trans [OF _ _ s(2), of same_shape same_shape] same_shape_trans inner by (simp add: drop_map)
  have ready: "mid_ready st' L \<and> out = mid_wire st' L \<and> mt_base st' = k"
    by (rule remember_spec [OF f(5) inner(1)]) (simp add: os los)
  define kt where "kt = (if rewritten os (drop k L) then Some os else None)"
  have memo: "mt_memo st' = Some \<lparr>me_summary = u, me_prefix = summary_prefix_messages stamp u, me_tail_start = k,
      me_tail_first = Some (L ! k), me_tail_count = length L - k, me_kept = kt\<rparr>"
    using f(5) s'(3,5) inner(1) os by (auto simp: remember_def Let_def kt_def)
  have same: "L ! k = ms ! k"
  proof -
    have "like (ms ! k) (L ! k)" using L inner(1) len by (simp add: list_all2_conv_all_nth)
    moreover have "\<not> is_result (snd (L ! k))" using clean memo by (simp add: clean_cut_def)
    ultimately show ?thesis using same_shape_kind(1) [OF R_shape] by (auto simp: like_def)
  qed
  have base: "mt_base st' = k" and inside: "k < length ms" using ready inner(1) len by simp_all
  have "k + length l \<le> length ms" if "kt = Some l" for l using that los inside len by (auto simp: kt_def split: if_splits)
  then have "mid_ready st' ms"
    unfolding mid_ready_def memo base same using inside by (auto split: option.split)
  moreover have "shown st' ms s'"
  proof (cases "rewritten os (drop k L)")
    case True
    have "length os + k = length ms" using los inner len by simp
    then show ?thesis using True memo s'(2,4,5) ready by (auto simp: shown_def kt_def add.commute)
  next
    case False
    then have "os = drop k L" using not_rewritten [of os "drop k L"] los by simp
    then have "se_messages s' = map snd (drop k L)" using s'(2) objects_contents(1) by metis
    then show ?thesis using False memo s'(4,5) ready like_contents [OF L, of k] by (auto simp: shown_def kt_def)
  qed
  ultimately have a: "agrees i ms st' m'"
    using clean s'(1) shape ready inner len by (simp add: agrees_def)
  show ?thesis using a wire_history [OF a L] ready inner f(6) by simp
next
  assume q: "out = mid_wire st L" "ev = None" "st' = st \<or> st' = st\<lparr>mt_manual := False\<rparr>"
    "(get_session i m', sm_config m') = (get_session i m, sm_config m)"
  have "agrees i ms st' m'" using agree q(3,4) by (auto simp: agrees_def)
  moreover have "mid_wire st' L = mid_wire st L" "mt_base st' = mt_base st" using q(3) by auto
  ultimately show ?thesis using wire_history [OF _ L, of i st' m'] q(1,2) by simp
next
  show "session_summarize u h q = (r, u') \<Longrightarrow> (get_session i u', sm_config u') = (get_session i u, sm_config u)" for u h q r u'
    using summarize_head_of_fields [where m = u and head = h and previous = q]
    by (auto simp: session_summarize_def split: prod.splits)
  show "session_apply ids le t io i extra u a n b = (None, u') \<Longrightarrow> (get_session i u', sm_config u') = (get_session i u, sm_config u)"
    for u a n b u'
    by (auto simp: session_apply_def split: prod.splits option.splits)
qed

lemma call_agrees:
  assumes "agrees i ms st m" and "turn_call p g ids le i c (ms, rs, st, m) = ((ms', rs', st', m'), out, folded)"
    and "list_all2 like (ms @ mc_new c) (call_wire g rs c (ms @ mc_new c))" and "clean_cut st'"
  shows "agrees i ms' st' m'" and "history_like i m' out" and "ms' = ms @ mc_new c" and "mt_base st \<le> mt_base st'"
    and "folded = drop (mt_base st) (take (mt_base st') (call_wire g rs c ms'))"
proof -
  let ?m = "fst (add_messages (mc_now c) (mc_io c) i (map snd (mc_new c)) m)" and ?L = "call_wire g rs c (ms @ mc_new c)"
  let ?st = "if mc_manual c then request_manual st else st"
  obtain ev st1 where once: "transform_once p session_summarize
      (session_apply ids le (mc_now c) (mc_io c) i (mc_extra c)) (mc_now c) (mc_stamp c) ?L ?st ?m
      = (out, ev, st1, m')" and st': "st' = st1\<lparr>mt_last_at := mc_later c\<rparr>" "ms' = ms @ mc_new c"
    and folded: "folded = (if ev = None then [] else mid_head st (mt_base st') ?L)"
    using assms(2) by (auto simp: turn_call_def mid_transform_def Let_def split: prod.splits)
  have "agrees i (ms @ mc_new c) ?st ?m"
    using add_agrees [OF assms(1)] by (simp add: request_manual_def)
  moreover have "clean_cut st1" using assms(4) st'(1) by simp
  ultimately have a: "agrees i (ms @ mc_new c) st1 m' \<and> history_like i m' out
    \<and> (if ev = None then mt_base st1 = mt_base ?st else mt_base ?st < mt_base st1)"
    by (intro once_agrees [OF _ assms(3) once])
  have "mt_base ?st = mt_base st" by (simp add: request_manual_def)
  then show "agrees i ms' st' m'" and "history_like i m' out" and "ms' = ms @ mc_new c" and "mt_base st \<le> mt_base st'"
    and "folded = drop (mt_base st) (take (mt_base st') (call_wire g rs c ms'))"
    using a st' folded by (auto simp: mid_head_def split: if_splits)
qed

lemma run_agrees:
  assumes "agrees i ms st m" and "turn_run p g ids le i cs (ms, rs, st, m) = ((ms', rs', st', m'), outs, heads)"
    and "along like p g ids le i cs (ms, rs, st, m)" and "clean_cuts p g ids le i cs (ms, rs, st, m)"
  shows "agrees i ms' st' m' \<and> (outs = [] \<or> history_like i m' (last outs)) \<and> mt_base st \<le> mt_base st'
    \<and> list_all2 passed_on (drop (mt_base st) (take (mt_base st') ms')) (concat heads)
    \<and> ms' = ms @ concat (map mc_new cs) \<and> length outs = length cs"
  using assms
proof (induction cs arbitrary: ms rs st m outs heads)
  case (Cons c cs)
  obtain ms1 rs1 st1 m1 out folded where call: "turn_call p g ids le i c (ms, rs, st, m) = ((ms1, rs1, st1, m1), out, folded)"
    by (metis prod.collapse)
  obtain outs1 heads1 where run: "turn_run p g ids le i cs (ms1, rs1, st1, m1) = ((ms', rs', st', m'), outs1, heads1)"
    and eqs: "outs = out # outs1" "heads = folded # heads1"
    using Cons.prems(2) by (auto simp: call split: prod.splits)
  have L: "list_all2 like (ms @ mc_new c) (call_wire g rs c (ms @ mc_new c))" and clean: "clean_cut st1"
    and rest_ok: "along like p g ids le i cs (ms1, rs1, st1, m1)" "clean_cuts p g ids le i cs (ms1, rs1, st1, m1)"
    using Cons.prems(3,4) by (simp_all add: call Let_def)
  note one = call_agrees [OF Cons.prems(1) call L clean]
  have rest: "agrees i ms' st' m'" "outs1 = [] \<or> history_like i m' (last outs1)" "mt_base st1 \<le> mt_base st'"
    "list_all2 passed_on (drop (mt_base st1) (take (mt_base st') ms')) (concat heads1)"
    "ms' = ms1 @ concat (map mc_new cs)" "length outs1 = length cs"
    using Cons.IH [OF one(1) run rest_ok] by - (elim conjE, assumption)+
  have base: "mt_base st1 \<le> length ms1" using one(1) by (auto simp: agrees_def)
  have "list_all2 passed_on ms1 (call_wire g rs c ms1)"
    using L one(3) R_shape by (auto simp: list_all2_conv_all_nth like_def passed_on_def)
  then have "list_all2 passed_on (drop (mt_base st) (take (mt_base st1) ms1)) folded"
    unfolding one(5) by (intro list_all2_dropI list_all2_takeI)
  moreover have "drop (mt_base st) (take (mt_base st') ms')
      = drop (mt_base st) (take (mt_base st1) ms1) @ drop (mt_base st1) (take (mt_base st') ms')"
    unfolding rest(5) by (rule drop_take_pieces [OF one(4) rest(3) base])
  moreover have "outs1 = [] \<Longrightarrow> m' = m1" using run rest(6) by (cases cs) auto
  ultimately have "list_all2 passed_on (drop (mt_base st) (take (mt_base st') ms')) (concat heads)"
    using rest(4) eqs(2) by (simp only: concat.simps) (rule list_all2_appendI)
  moreover have "outs = [] \<or> history_like i m' (last outs)"
    using rest(2) one(2) eqs(1) \<open>outs1 = [] \<Longrightarrow> m' = m1\<close> by (auto simp: last_ConsL last_ConsR)
  ultimately show ?case using rest(1,3,5,6) one(3,4) eqs(1) by simp
qed simp

lemma fresh_agrees:
  assumes "get_session i m = Some s" and "se_messages s = map snd ms" and "se_summary s = None"
  shows "agrees i ms new_midturn m"
  using assms refl2 by (simp add: agrees_def new_midturn_def mid_ready_def shown_def clean_cut_def list.rel_refl)

end

interpretation shaped: likeness same_shape
proof unfold_locales
  fix a b c
  show "same_shape a b \<Longrightarrow> same_shape b a"
    by (auto simp: same_shape_def is_result_def intro: exI [of _ "ms_content a"])
  show "same_shape a b \<Longrightarrow> same_shape b c \<Longrightarrow> same_shape a c" by (rule same_shape_trans)
qed auto

interpretation exact: likeness "(=)"
  by unfold_locales auto

lemma shaped_like: "shaped.like = passed_on"
  by (intro ext) (simp add: shaped.like_def passed_on_def)

lemma along_mono: "along P p g ids le i cs u \<Longrightarrow> (\<And>x y. P x y \<Longrightarrow> Q x y) \<Longrightarrow> along Q p g ids le i cs u"
  by (induction cs arbitrary: u) (auto elim: list_all2_mono)

section \<open>What a turn sends, folds and keeps\<close>



section \<open>A session that already has a summary\<close>

text \<open>The loop of a later turn starts with the two messages that stand for the summary, which the session does not
  hold, and the first cut is counted from the loop's start. Two messages of the session, the last before the tail the cut
  should keep, are then neither in the head that is summarised nor in the session any more.\<close>

theorem cut_is_off_by_the_prefix:
  assumes "get_session i m = Some s" and "map snd pre = summary_prefix_messages stamp0 t" and "map snd body = se_messages s"
    and "mid_split p (map snd (pre @ body)) = Some k" and "2 \<le> k" and "k < length body"
    and "resolve_compaction_variant (cf_variant (sm_config m)) (en_variant (sm_env m)) = Var_A"
    and "mid_transform p session_summarize (session_apply ids le u io i extra) now stamp later (pre @ body) new_midturn m
      = (out, Some ev, st', m')"
  shows "\<exists>s' a b. get_session i m' = Some s'
    \<and> mid_head new_midturn k (pre @ body) = pre @ take (k - 2) body
    \<and> se_messages s = map snd (take (k - 2) body) @ [a, b] @ se_messages s'"
proof -
  have pre: "length pre = 2" using arg_cong [OF assms(2), of length] by (simp add: summary_prefix_messages_def)
  have head: "mid_head new_midturn k (pre @ body) = pre @ take (k - 2) body"
    using assms(5) pre by (simp add: mid_head_def new_midturn_def)
  obtain st1 where once: "transform_once p session_summarize (session_apply ids le u io i extra) now stamp (pre @ body) new_midturn m
    = (out, Some ev, st1, m')" using assms(8) by (auto simp: mid_transform_def split: prod.splits)
  define view where "view = (\<lambda>m. (get_session i m, sm_config m, sm_env m))"
  have messages: "\<exists>s'. get_session i m' = Some s' \<and> se_messages s' = drop k (se_messages s)"
  proof (rule transform_once_cases [OF once, where view = view])
    fix reason j summary m1 applied kept ev'
    assume f: "mid_split p (map snd (pre @ body)) = Some j" "view m1 = view m"
      "session_apply ids le u io i extra m1 summary (j - mt_base new_midturn) (mt_memo new_midturn \<noteq> None) = (Some (applied, kept), m')"
    have j: "j = k" "k < length (se_messages s)" using f(1) assms(3,4,6) by (simp_all, metis length_map)
    have keep: "apply_variant_to_kept_tail Var_A ms = (ms, [])" for ms by (simp add: apply_variant_to_kept_tail_def)
    have "fst (apply_compaction le u io i summary k extra False m1) = m'"
      using f(3) j by (auto simp: session_apply_def new_midturn_def split: prod.splits option.splits)
    moreover have "get_session i m1 = Some s" "sm_config m1 = sm_config m" "sm_env m1 = sm_env m"
      using f(2) assms(1) by (simp_all add: view_def)
    ultimately show ?thesis using j assms(5,7) by (auto simp: apply_compaction_def keep Let_def)
  next
    show "session_summarize a h q = (r, b) \<Longrightarrow> view b = view a" for a h q r b
      using summarize_head_of_fields [where m = a and head = h and previous = q]
      by (auto simp: session_summarize_def view_def split: prod.splits)
    show "session_apply ids le u io i extra a x n r = (None, b) \<Longrightarrow> view b = view a" for a x n r b
      by (auto simp: session_apply_def split: prod.splits option.splits)
  qed simp
  have "se_messages s = take (k - 2) (se_messages s) @ [se_messages s ! (k - 2), se_messages s ! (k - 1)] @ drop k (se_messages s)"
  proof -
    obtain n where n: "k = Suc (Suc n)" using assms(5) by (metis le_Suc_ex add_2_eq_Suc)
    moreover have "k < length (se_messages s)" using assms(3,6) by (metis length_map)
    ultimately have "drop (k - 2) (se_messages s) = se_messages s ! (k - 2) # se_messages s ! (k - 1) # drop k (se_messages s)"
      using Cons_nth_drop_Suc [of n "se_messages s"] Cons_nth_drop_Suc [of "Suc n" "se_messages s"] by simp
    then show ?thesis by (metis append_take_drop_id append_Cons append_Nil)
  qed
  then show ?thesis using messages head assms(3) by (metis take_map)
qed

section \<open>Instances\<close>

definition demo_options :: mid_options where
  "demo_options = \<lparr>mo_auto_compact_tokens = 0, mo_keep_recent = 4, mo_tail_budget = None, mo_min_keep = None, mo_overhead = Some 1,
     mo_min_delta = None, mo_idle_after_ms = None, mo_idle_floor = None\<rparr>"

definition demo_user :: "nat \<Rightarrow> obj" where
  "demo_user n = (n, user_message (lit ''go'') 0)"

definition demo_call_of :: "obj list \<Rightarrow> model_call" where
  "demo_call_of xs = \<lparr>mc_now = 1, mc_stamp = 1, mc_later = 2, mc_io = (True, True), mc_extra = None, mc_manual = False,
     mc_fresh = (\<lambda>j. 1000 + j), mc_new = xs\<rparr>"

definition demo_gate :: gate where
  "demo_gate = \<lparr>gt_raw = None, gt_chars = 1000, gt_tokens = Some 235000, gt_images = ms_content\<rparr>"

definition demo_loop :: "obj list" where
  "demo_loop = map demo_user [0..<7]"

lemma demo_loop_contents: "map snd demo_loop = replicate 7 (user_message (lit ''go'') 0)"
  by (simp add: demo_loop_def demo_user_def comp_def map_replicate_const)

definition demo_calls :: "model_call list" where
  "demo_calls = [demo_call_of [demo_user 7], demo_call_of [demo_user 8]]"

abbreviation demo_start :: turn_state where
  "demo_start \<equiv> (demo_loop, create_replacement_state, new_midturn, demo_manager (map snd demo_loop))"

definition demo_run :: "turn_state \<times> message list list \<times> obj list list" where
  "demo_run = turn_run demo_options demo_gate (\<lambda>_ j. j) (\<lambda>_ _. True) [] demo_calls demo_start"

lemma demo_run_obtains:
  obtains ms rs st m outs heads where
    "turn_run demo_options demo_gate (\<lambda>_ j. j) (\<lambda>_ _. True) [] demo_calls demo_start = ((ms, rs, st, m), outs, heads)"
    and "demo_run = ((ms, rs, st, m), outs, heads)"
  unfolding demo_run_def by (metis prod.collapse)

text \<open>A loop without tool results is handed on as it is, and no cut can leave one first.\<close>

lemma no_results_same:
  assumes "results_only g" and "list_all (\<lambda>x. \<not> is_result (snd x)) xs"
  shows "call_wire g rs c xs = xs"
  using call_wire_passed [OF assms(1), of xs rs c] assms(2)
  by (auto simp: list_all2_conv_all_nth list_all_length passed_on_def intro: nth_equalityI)

lemma once_clean:
  assumes "transform_once p sf ap now stamp L st w = (out, ev, st', w')" and "clean_cut st"
    and "list_all (\<lambda>x. \<not> is_result (snd x)) L"
  shows "clean_cut st'"
proof (rule transform_once_cases [OF assms(1), where view = "\<lambda>_. ()"])
  fix reason k summary w1 applied kept ev'
  assume "remember p stamp L k reason (mid_wire st L) summary applied kept st = (out, ev', st')"
  then show ?thesis using assms(3)
    by (auto simp: remember_def Let_def clean_cut_def at_index_def list_all_length)
qed (use assms(2) in auto)

lemma no_results_run:
  assumes "results_only g" and "clean_cut (fst (snd (snd u)))"
    and "list_all (\<lambda>x. \<not> is_result (snd x)) (fst u @ concat (map mc_new cs))"
  shows "clean_cuts p g ids le i cs u \<and> along (=) p g ids le i cs u"
  using assms(2,3)
proof (induction cs arbitrary: u)
  case (Cons c cs)
  obtain ms rs st m where u: "u = (ms, rs, st, m)" by (cases u)
  obtain ms1 rs1 st1 m1 out folded where call: "turn_call p g ids le i c u = ((ms1, rs1, st1, m1), out, folded)"
    by (metis prod.collapse)
  have none: "list_all (\<lambda>x. \<not> is_result (snd x)) (ms @ mc_new c)" using Cons.prems(2) by (simp add: u)
  note same = no_results_same [OF assms(1) none]
  obtain ev st2 where once: "transform_once p session_summarize (session_apply ids le (mc_now c) (mc_io c) i (mc_extra c))
      (mc_now c) (mc_stamp c) (ms @ mc_new c) (if mc_manual c then request_manual st else st)
      (fst (add_messages (mc_now c) (mc_io c) i (map snd (mc_new c)) m)) = (out, ev, st2, m1)"
    and st1: "st1 = st2\<lparr>mt_last_at := mc_later c\<rparr>" "ms1 = ms @ mc_new c"
    using call by (auto simp: u turn_call_def mid_transform_def same Let_def split: prod.splits)
  have "clean_cut (if mc_manual c then request_manual st else st)" using Cons.prems(1) by (simp add: u request_manual_def)
  then have "clean_cut st1" using once_clean [OF once _ none] st1(1) by simp
  then show ?case using Cons.IH [of "(ms1, rs1, st1, m1)"] Cons.prems(2) call same st1(2)
    by (simp add: u Let_def list.rel_eq)
qed simp

lemma demo_clean:
  "clean_cuts demo_options demo_gate (\<lambda>_ j. j) (\<lambda>_ _. True) [] demo_calls demo_start"
  "along (=) demo_options demo_gate (\<lambda>_ j. j) (\<lambda>_ _. True) [] demo_calls demo_start"
  "results_only demo_gate"
proof -
  show only: "results_only demo_gate" by (simp add: results_only_def demo_gate_def)
  have "\<not> is_result (user_message t n)" for t n by (simp add: user_message_def is_result_def)
  then have "list_all (\<lambda>x. \<not> is_result (snd x)) (fst demo_start @ concat (map mc_new demo_calls))"
    by (simp add: demo_calls_def demo_call_of_def demo_loop_def demo_user_def list_all_iff)
  then show "clean_cuts demo_options demo_gate (\<lambda>_ j. j) (\<lambda>_ _. True) [] demo_calls demo_start"
    "along (=) demo_options demo_gate (\<lambda>_ j. j) (\<lambda>_ _. True) [] demo_calls demo_start"
    using no_results_run [OF only] by (simp_all add: clean_cut_def new_midturn_def)
qed



text \<open>A session with a summary and seven messages; a call keeps four of the nine its loop holds.\<close>

definition demo_prefix :: "obj list" where
  "demo_prefix = map (Pair 100) (summary_prefix_messages 0 (lit ''old''))"

definition demo_summarised :: manager where
  "demo_summarised = put_session [] ((new_session 0)\<lparr>se_messages := map snd demo_loop, se_summary := Some (lit ''old'')\<rparr>)
     (demo_manager [])"

lemma demo_split: "mid_split demo_options (map snd (demo_prefix @ demo_loop)) = Some 5"
proof -
  have "map snd (demo_prefix @ demo_loop) = summary_prefix_messages 0 (lit ''old'') @ replicate 7 (user_message (lit ''go'') 0)"
    by (simp add: demo_prefix_def demo_loop_contents comp_def)
  then show ?thesis
    by (simp add: mid_split_def demo_options_def split_index_for_compaction_def skip_while_def inner_index_def user_message_def
        summary_prefix_messages_def eval_nat_numeral)
qed

lemma trim16_visible: "\<not> js16_space x \<Longrightarrow> trim16 (x # xs) \<noteq> []"
  by (simp add: trim16_def)

lemma fallback_visible: "trim16 (fallback_summarize ms) \<noteq> []"
  by (simp add: fallback_summarize_def lit_def trim16_visible js16_space_def)

lemma demo_folds:
  obtains out e st m' where
    "mid_transform demo_options session_summarize (session_apply (\<lambda>_ j. j) (\<lambda>_ _. True) 1 (True, True) [] None) 1 1 2
       (demo_prefix @ demo_loop) new_midturn demo_summarised = (out, Some e, st, m')"
proof -
  let ?ap = "session_apply (\<lambda>_ j. j) (\<lambda>_ _. True) 1 (True, True) [] None"
  let ?ms = "demo_prefix @ demo_loop"
  let ?head = "mid_head new_midturn 5 ?ms"
  have len: "length demo_prefix = 2" "length demo_loop = 7"
    by (simp_all add: demo_prefix_def summary_prefix_messages_def demo_loop_def)
  have s: "get_session [] demo_summarised = Some ((new_session 0)\<lparr>se_messages := map snd demo_loop, se_summary := Some (lit ''old'')\<rparr>)"
    by (simp add: demo_summarised_def)
  have "0 < mid_estimate demo_options (mid_wire new_midturn ?ms)"
    by (simp add: mid_estimate_def demo_options_def add_nonneg_pos)
  then have reason: "compaction_reason demo_options new_midturn 1 (mid_estimate demo_options (mid_wire new_midturn ?ms)) = Some Re_Cap"
    by (simp add: compaction_reason_def new_midturn_def demo_options_def idle_gap_over_threshold_def)
  have "demo_loop \<noteq> []" by (simp add: demo_loop_def)
  then have head: "?head \<noteq> []" by (simp add: mid_head_def new_midturn_def)
  have sum: "session_summarize demo_summarised (map snd ?head) None = (Some (fallback_summarize (map snd ?head)), demo_summarised)"
    using head by (simp add: session_summarize_def summarize_head_of_def summarize_head_def demo_summarised_def demo_manager_def put_session_def)
  obtain a b m2 where ap: "?ap demo_summarised (fallback_summarize (map snd ?head)) 5 False = (Some (a, b), m2)"
    by (auto simp: session_apply_def apply_compaction_def s len Let_def split: option.splits prod.splits)
  obtain o1 e1 s1 where rem: "remember demo_options 1 ?ms 5 Re_Cap (mid_wire new_midturn ?ms) (fallback_summarize (map snd ?head)) a b new_midturn
    = (o1, e1, s1)" by (metis prod_cases3)
  have memo: "mt_memo new_midturn = None" "mt_base new_midturn = 0" by (simp_all add: new_midturn_def)
  show thesis
    by (rule that, unfold mid_transform_def transform_once_def Let_def reason option.case demo_split)
      (use head sum ap rem memo fallback_visible in simp)
qed

theorem cut_is_off_by_the_prefix_witness:
  "\<exists>m' s' a b. get_session [] m' = Some s' \<and> map snd demo_loop = map snd (take 3 demo_loop) @ [a, b] @ se_messages s'"
proof (rule demo_folds)
  fix out e st m'
  assume run: "mid_transform demo_options session_summarize (session_apply (\<lambda>_ j. j) (\<lambda>_ _. True) 1 (True, True) [] None) 1 1 2
       (demo_prefix @ demo_loop) new_midturn demo_summarised = (out, Some e, st, m')"
  have s: "get_session [] demo_summarised = Some ((new_session 0)\<lparr>se_messages := map snd demo_loop, se_summary := Some (lit ''old'')\<rparr>)"
    by (simp add: demo_summarised_def)
  have "resolve_compaction_variant None None = Var_A" by (simp add: resolve_compaction_variant_def js_trim_def)
  then have variant: "resolve_compaction_variant (cf_variant (sm_config demo_summarised)) (en_variant (sm_env demo_summarised)) = Var_A"
    by (simp add: demo_summarised_def demo_manager_def default_config_def put_session_def)
  have "map snd demo_prefix = summary_prefix_messages 0 (lit ''old'')" by (simp add: demo_prefix_def comp_def)
  moreover have "length demo_loop = 7" by (simp add: demo_loop_def)
  ultimately have "\<exists>s' a b. get_session [] m' = Some s'
    \<and> mid_head new_midturn 5 (demo_prefix @ demo_loop) = demo_prefix @ take (5 - 2) demo_loop
    \<and> map snd demo_loop = map snd (take (5 - 2) demo_loop) @ [a, b] @ se_messages s'"
    using cut_is_off_by_the_prefix [OF s _ _ demo_split _ _ variant run, of 0 "lit ''old''"] by simp
  moreover have "(5::nat) - 2 = 3" by simp
  ultimately show ?thesis by metis
qed

end
