(* ===== verification/Path_Boundary.thy ===== *)
theory Path_Boundary
  imports Prelude
begin

text \<open>
  Which paths an agent may touch: \<^verbatim>\<open>packages/agent-runtime/src/path-boundary.ts\<close> and the workspace guard
  at the end of \<^verbatim>\<open>permission-engine.ts\<close>. A path is a \<^typ>\<open>string\<close>. The first section is Node's
  \<^verbatim>\<open>path\<close> module on a POSIX system; the computer the runtime is on (its file system, environment and
  directories) is a \<open>host\<close>, an argument of every definition that looks at it.
\<close>

section \<open>POSIX paths\<close>

fun split_slash :: "string \<Rightarrow> string list" where
  "split_slash [] = [[]]"
| "split_slash (c # s) =
     (if c = CHR ''/'' then [] # split_slash s
      else (case split_slash s of [] \<Rightarrow> [[c]] | x # xs \<Rightarrow> (c # x) # xs))"

fun join_slash :: "string list \<Rightarrow> string" where
  "join_slash [] = []"
| "join_slash [x] = x"
| "join_slash (x # y # xs) = x @ ''/'' @ join_slash (y # xs)"

text \<open>Empty and \<^verbatim>\<open>.\<close> segments go, \<^verbatim>\<open>..\<close> takes the segment before it with it; where there is none it
  stays when the path is relative (\<open>keep\<close>) and goes when it is absolute. \<open>st\<close> is the result so far, reversed.\<close>

fun collapse :: "bool \<Rightarrow> string list \<Rightarrow> string list \<Rightarrow> string list" where
  "collapse keep st [] = rev st"
| "collapse keep st (x # xs) =
     (if x = [] \<or> x = ''.'' then collapse keep st xs
      else if x = ''..''
      then (if st \<noteq> [] \<and> hd st \<noteq> ''..'' then collapse keep (tl st) xs
            else if keep then collapse keep (x # st) xs
            else collapse keep st xs)
      else collapse keep (x # st) xs)"

definition is_absolute :: "string \<Rightarrow> bool" where
  "is_absolute p \<longleftrightarrow> starts_with p ''/''"

definition path_normalize :: "string \<Rightarrow> string" where
  "path_normalize p =
     (if p = [] then ''.''
      else
        let absolute = is_absolute p;
            body = join_slash (collapse (\<not> absolute) [] (split_slash p));
            trailing = (last p = CHR ''/'')
        in if body = [] then (if absolute then ''/'' else if trailing then ''./'' else ''.'')
           else (if absolute then ''/'' else []) @ body @ (if trailing then ''/'' else []))"

definition path_join :: "string list \<Rightarrow> string" where
  "path_join ps =
     (let qs = filter (\<lambda>p. p \<noteq> []) ps in if qs = [] then ''.'' else path_normalize (join_slash qs))"

text \<open>\<^verbatim>\<open>path.resolve\<close> reads its arguments from the last to the first and stops at an absolute one; the
  current directory \<open>cwd\<close> stands before them all.\<close>

fun resolve_from :: "string \<Rightarrow> string list \<Rightarrow> string \<Rightarrow> string" where
  "resolve_from cwd [] acc = cwd @ ''/'' @ acc"
| "resolve_from cwd (a # as) acc =
     (if a = [] then resolve_from cwd as acc
      else if is_absolute a then a @ ''/'' @ acc
      else resolve_from cwd as (a @ ''/'' @ acc))"

definition resolved_segments :: "string \<Rightarrow> string list \<Rightarrow> string list" where
  "resolved_segments cwd args = collapse False [] (split_slash (resolve_from cwd (rev args) []))"

definition path_resolve :: "string \<Rightarrow> string list \<Rightarrow> string" where
  "path_resolve cwd args = CHR ''/'' # join_slash (resolved_segments cwd args)"

definition path_dirname :: "string \<Rightarrow> string" where
  "path_dirname p =
     (case p of
        [] \<Rightarrow> ''.''
      | c # t \<Rightarrow>
          let r = dropWhile (\<lambda>x. x \<noteq> CHR ''/'') (dropWhile (\<lambda>x. x = CHR ''/'') (rev t))
          in if r = [] then (if c = CHR ''/'' then ''/'' else ''.'')
             else if c = CHR ''/'' \<and> length r = 1 then ''//''
             else take (length r) p)"

fun strip_common :: "'a list \<Rightarrow> 'a list \<Rightarrow> 'a list \<times> 'a list" where
  "strip_common (x # xs) (y # ys) = (if x = y then strip_common xs ys else (x # xs, y # ys))"
| "strip_common xs ys = (xs, ys)"

definition path_relative :: "string \<Rightarrow> string \<Rightarrow> string \<Rightarrow> string" where
  "path_relative cwd a b =
     (if a = b then []
      else
        let (up, down) = strip_common (resolved_segments cwd [a]) (resolved_segments cwd [b])
        in join_slash (replicate (length up) ''..'' @ down))"

section \<open>The computer\<close>

text \<open>
  What the guards ask of the computer they run on. \<open>host_cwd\<close> and \<open>host_home\<close> are the segments of two
  absolute paths. \<open>realpath\<close> resolves every symbolic link and is \<open>None\<close> where the call throws. \<open>fold_case\<close>
  is \<^verbatim>\<open>CASE_INSENSITIVE_FS\<close>. \<^verbatim>\<open>LINKED_FOLDERS\<close> is unset (or empty), is no JSON, is JSON but no array, or
  is an array, in which an entry that is no string is \<open>None\<close>.
\<close>

datatype linked_env = Linked_unset | Linked_bad_json | Linked_no_array | Linked_array "string option list"

record host =
  host_cwd :: "string list"
  host_home :: "string list"
  fold_case :: bool
  realpath :: "string \<Rightarrow> string option"
  file_exists :: "string \<Rightarrow> bool"
  linked_env :: linked_env
  local_mode :: bool

definition cwd_path :: "host \<Rightarrow> string" where
  "cwd_path h = CHR ''/'' # join_slash (host_cwd h)"

definition homedir :: "host \<Rightarrow> string" where
  "homedir h = CHR ''/'' # join_slash (host_home h)"

abbreviation resolve :: "host \<Rightarrow> string list \<Rightarrow> string" where
  "resolve h args \<equiv> path_resolve (cwd_path h) args"

section \<open>Containment\<close>

definition normalize_for_compare :: "host \<Rightarrow> string \<Rightarrow> string" where
  "normalize_for_compare h p = (if fold_case h then js_lower p else p)"

definition is_within_root :: "host \<Rightarrow> string \<Rightarrow> string \<Rightarrow> bool" where
  "is_within_root h base candidate =
     (let normalized_root = normalize_for_compare h (resolve h [base]);
          normalized_candidate = normalize_for_compare h (resolve h [candidate])
      in if normalized_root = normalized_candidate then True
         else
           let rel = path_relative (cwd_path h) normalized_root normalized_candidate
           in if rel = [] then True
              else if rel = ''..'' \<or> starts_with rel ''../'' then False
              else \<not> is_absolute rel)"

definition is_within_any_root :: "host \<Rightarrow> string list \<Rightarrow> string \<Rightarrow> bool" where
  "is_within_any_root h roots candidate = list_ex (\<lambda>base. is_within_root h base candidate) roots"

text \<open>The walk up to the nearest directory that exists.\<close>

lemma dirname_shrinks:
  assumes ne: "path_dirname p \<noteq> p"
  shows "(if path_dirname p = ''.'' then 0 else Suc (length (path_dirname p)))
      < (if p = ''.'' then 0 else Suc (length p))"
proof (cases p)
  case Nil
  then show ?thesis by (simp add: path_dirname_def)
next
  case (Cons c t)
  define r where "r = dropWhile (\<lambda>x. x \<noteq> CHR ''/'') (dropWhile (\<lambda>x. x = CHR ''/'') (rev t))"
  have d: "path_dirname p =
      (if r = [] then (if c = CHR ''/'' then ''/'' else ''.'')
       else if c = CHR ''/'' \<and> length r = 1 then ''//'' else take (length r) p)"
    unfolding path_dirname_def Cons r_def Let_def list.case by (rule refl)
  have le: "length r \<le> length t"
    unfolding r_def by (metis length_dropWhile_le length_rev order_trans)
  have dot: "p \<noteq> ''.''"
    using ne by (auto simp: path_dirname_def)
  have short: "2 \<le> length t" if r1: "r \<noteq> []" "length r = 1"
  proof (rule ccontr)
    assume "\<not> 2 \<le> length t"
    with le r1 have "length t = 1" by linarith
    then obtain e where "t = [e]" by (auto simp: length_Suc_conv)
    with r1 show False by (cases "e = CHR ''/''") (simp_all add: r_def)
  qed
  have t: "t \<noteq> []" if "r = []" "c = CHR ''/''"
    using that d ne Cons by auto
  consider "r = []" | "r \<noteq> []" "c = CHR ''/'' \<and> length r = 1" | "r \<noteq> []" "\<not> (c = CHR ''/'' \<and> length r = 1)"
    by blast
  then show ?thesis
  proof cases
    case 1
    then show ?thesis using d t Cons dot by auto
  next
    case 2
    then show ?thesis using d short Cons dot by auto
  next
    case 3
    then show ?thesis using d le Cons dot by auto
  qed
qed

function nearest_existing :: "host \<Rightarrow> string \<Rightarrow> string \<Rightarrow> string \<times> string" where
  "nearest_existing h cur tail =
     (let up = path_dirname cur
      in if cur \<noteq> up \<and> \<not> file_exists h cur then nearest_existing h up (drop (length up) cur @ tail)
         else (cur, tail))"
  by pat_completeness auto
termination
proof (relation "measure (\<lambda>(_, cur, _). if cur = ''.'' then 0 else Suc (length cur))")
  fix h :: host and cur tail up
  assume "up = path_dirname cur" and "cur \<noteq> up \<and> \<not> file_exists h cur"
  then show "((h, up, drop (length up) cur @ tail), h, cur, tail)
      \<in> measure (\<lambda>(_, cur, _). if cur = ''.'' then 0 else Suc (length cur))"
    using dirname_shrinks [of cur] by auto
qed simp

declare nearest_existing.simps [simp del]

definition canonical_path :: "host \<Rightarrow> string \<Rightarrow> string" where
  "canonical_path h p =
     (let absolute = resolve h [p]
      in case realpath h absolute of
           Some r \<Rightarrow> r
         | None \<Rightarrow>
             (let (cur, tail) = nearest_existing h absolute []
              in case realpath h cur of Some r \<Rightarrow> r @ tail | None \<Rightarrow> absolute))"

definition is_within_any_canonical_root :: "host \<Rightarrow> string list \<Rightarrow> string \<Rightarrow> bool" where
  "is_within_any_canonical_root h roots candidate =
     (let c = canonical_path h candidate in list_ex (\<lambda>base. is_within_root h (canonical_path h base) c) roots)"

fun dedupe_from :: "host \<Rightarrow> string list \<Rightarrow> string list \<Rightarrow> string list" where
  "dedupe_from h seen [] = []"
| "dedupe_from h seen (base # roots) =
     (let key = normalize_for_compare h (resolve h [base])
      in if key \<in> set seen then dedupe_from h seen roots else base # dedupe_from h (key # seen) roots)"

definition dedupe_roots :: "host \<Rightarrow> string list \<Rightarrow> string list" where
  "dedupe_roots h roots = dedupe_from h [] roots"

section \<open>The workspace guard\<close>

datatype path_error =
    Symlink_outside_roots string
  | Outside_folders string "string list"
  | Outside_workspace string
  | Symlink_outside_workspace string
  | Realpath_failed

definition folder_entries :: "string option list \<Rightarrow> string list" where
  "folder_entries es = filter (\<lambda>p. p \<noteq> []) (List.map_filter id es)"

definition linked_folders :: "host \<Rightarrow> string list" where
  "linked_folders h = (case linked_env h of Linked_array es \<Rightarrow> folder_entries es | _ \<Rightarrow> [])"

definition assert_within_workspace :: "host \<Rightarrow> string \<Rightarrow> string \<Rightarrow> bool \<Rightarrow> path_error + string" where
  "assert_within_workspace h ws file unrestricted =
     (let resolved = resolve h [ws, file]
      in if unrestricted then Inr resolved
         else if linked_env h \<noteq> Linked_unset
         then
           (let roots = dedupe_roots h (map (\<lambda>r. resolve h [r]) (ws # linked_folders h));
                real_roots = dedupe_roots h (map (canonical_path h) roots);
                canonical = canonical_path h resolved
            in if \<not> is_within_any_root h real_roots canonical
               then (if is_within_any_root h roots resolved then Inl (Symlink_outside_roots file)
                     else Inl (Outside_folders file roots))
               else Inr resolved)
         else if local_mode h then Inr resolved
         else if \<not> is_within_root h ws resolved then Inl (Outside_workspace file)
         else if file_exists h resolved
         then
           (case (realpath h ws, realpath h resolved) of
              (Some real_workspace, Some real_file) \<Rightarrow>
                if \<not> is_within_root h real_workspace real_file \<and> \<not> is_within_root h ws real_file
                then Inl (Symlink_outside_workspace file)
                else Inr resolved
            | _ \<Rightarrow> Inl Realpath_failed)
         else Inr resolved)"

text \<open>Scratch paths: the second component is \<^verbatim>\<open>remappedFrom\<close>.\<close>

definition rewrite_scratch_path :: "string \<Rightarrow> string \<times> string option" where
  "rewrite_scratch_path p =
     (let normalized = map (\<lambda>c. if c = CHR 0x5C then CHR ''/'' else c) p
      in if normalized = ''/tmp'' \<or> starts_with normalized ''/tmp/''
         then
           (let rest = dropWhile (\<lambda>c. c = CHR ''/'') (drop 4 normalized)
            in (if rest \<noteq> [] then ''.tmp/'' @ rest else ''.tmp'', Some p))
         else (p, None))"

definition scratch_path_for_write :: "host \<Rightarrow> string \<Rightarrow> string \<Rightarrow> string \<times> string option" where
  "scratch_path_for_write h ws p =
     (let rewritten = rewrite_scratch_path p
      in if snd rewritten = None then rewritten
         else
           let roots = dedupe_roots h (map (\<lambda>r. resolve h [r]) (ws # linked_folders h))
           in if is_within_any_canonical_root h roots p then (p, None) else rewritten)"

section \<open>Segments\<close>

definition plain :: "string \<Rightarrow> bool" where
  "plain x \<longleftrightarrow> x \<noteq> [] \<and> x \<noteq> ''.'' \<and> x \<noteq> ''..'' \<and> CHR ''/'' \<notin> set x"

lemma split_slash_not_Nil [simp]: "split_slash s \<noteq> []"
  by (induction s) (auto split: list.split)

lemma split_slash_append [simp]: "split_slash (a @ CHR ''/'' # b) = split_slash a @ split_slash b"
  by (induction a) (auto split: list.split)

lemma split_slash_single: "CHR ''/'' \<notin> set x \<Longrightarrow> split_slash x = [x]"
  by (induction x) auto

lemma split_slash_free: "x \<in> set (split_slash s) \<Longrightarrow> CHR ''/'' \<notin> set x"
  by (induction s arbitrary: x) (auto split: if_splits list.splits)

lemma split_join:
  "xs \<noteq> [] \<Longrightarrow> \<forall>x \<in> set xs. CHR ''/'' \<notin> set x \<Longrightarrow> split_slash (join_slash xs) = xs"
  by (induction xs rule: join_slash.induct) (auto simp: split_slash_single)

lemma plain_free: "list_all plain xs \<Longrightarrow> \<forall>x \<in> set xs. CHR ''/'' \<notin> set x"
  by (auto simp: list_all_iff plain_def)

lemma list_all_tl: "list_all P xs \<Longrightarrow> list_all P (tl xs)"
  by (cases xs) auto

lemma collapse_plain:
  "list_all plain st \<Longrightarrow> \<forall>x \<in> set xs. CHR ''/'' \<notin> set x \<Longrightarrow> list_all plain (collapse False st xs)"
proof (induction xs arbitrary: st)
  case Nil
  then show ?case by (simp add: list_all_iff)
next
  case (Cons x xs)
  show ?case
  proof (cases "x = [] \<or> x = ''.'' \<or> x = ''..''")
    case True
    with Cons show ?thesis by (auto simp: list_all_tl)
  next
    case False
    with Cons.prems have "plain x" by (simp add: plain_def)
    with False Cons show ?thesis by simp
  qed
qed

lemma collapse_id: "list_all plain xs \<Longrightarrow> collapse keep st xs = rev st @ xs"
  by (induction xs arbitrary: st) (auto simp: plain_def)

lemma collapse_append: "collapse keep st (xs @ ys) = collapse keep (rev (collapse keep st xs)) ys"
  by (induction xs arbitrary: st) auto

lemma resolved_segments_plain: "list_all plain (resolved_segments cwd args)"
  unfolding resolved_segments_def by (rule collapse_plain) (auto dest: split_slash_free)

lemma collapse_join:
  "list_all plain xs \<Longrightarrow> collapse keep st (split_slash (join_slash xs)) = rev st @ xs"
  by (cases "xs = []") (simp_all add: split_join plain_free collapse_id)

lemma absolute_Cons [simp]: "is_absolute (CHR ''/'' # p)"
  by (simp add: is_absolute_def starts_with_def)

lemma resolved_segments_absolute:
  "resolved_segments cwd [CHR ''/'' # p] = collapse False [] (split_slash p)"
  by (simp add: resolved_segments_def collapse_append)

lemma resolved_segments_join:
  "list_all plain xs \<Longrightarrow> resolved_segments cwd [CHR ''/'' # join_slash xs] = xs"
  by (simp add: resolved_segments_absolute collapse_join)

lemma path_resolve_again [simp]: "path_resolve cwd' [path_resolve cwd args] = path_resolve cwd args"
  by (simp add: path_resolve_def resolved_segments_join resolved_segments_plain)

lemma segments_of_resolved [simp]: "resolved_segments cwd' [path_resolve cwd args] = resolved_segments cwd args"
  by (simp add: path_resolve_def resolved_segments_join resolved_segments_plain)

lemma join_slash_inj:
  assumes "list_all plain xs" "list_all plain ys" "join_slash xs = join_slash ys"
  shows "xs = ys"
proof -
  have "xs = collapse False [] (split_slash (join_slash xs))"
    using collapse_join [OF assms(1), of False "[]"] by simp
  also have "\<dots> = collapse False [] (split_slash (join_slash ys))"
    by (simp only: assms(3))
  also have "\<dots> = ys"
    using collapse_join [OF assms(2), of False "[]"] by simp
  finally show ?thesis .
qed

section \<open>Names up to case\<close>

lemma of_char_lower:
  fixes d :: char and n :: nat
  defines "n \<equiv> of_char d"
  shows "of_char (js_lower_char d) = (if (65 \<le> n \<and> n \<le> 90) \<or> (192 \<le> n \<and> n \<le> 222 \<and> n \<noteq> 215) then n + 32 else n)"
proof -
  have eq: "js_lower_char d = (if (65 \<le> n \<and> n \<le> 90) \<or> (192 \<le> n \<and> n \<le> 222 \<and> n \<noteq> 215) then char_of (n + 32) else d)"
    unfolding js_lower_char_def code_unit_def Let_def n_def by (rule refl)
  show ?thesis
  proof (cases "(65 \<le> n \<and> n \<le> 90) \<or> (192 \<le> n \<and> n \<le> 222 \<and> n \<noteq> 215)")
    case True
    then have small: "(n + 32) mod 256 = n + 32" by (intro mod_less) auto
    from eq [unfolded if_P [OF True]]
    have "of_char (js_lower_char d) = (of_char (char_of (n + 32) :: char) :: nat)" by (rule arg_cong)
    also have "\<dots> = n + 32" unfolding of_char_of by (rule small)
    finally show ?thesis unfolding if_P [OF True] .
  next
    case False
    from eq [unfolded if_not_P [OF False]]
    have "of_char (js_lower_char d) = n" unfolding n_def by (rule arg_cong)
    then show ?thesis unfolding if_not_P [OF False] .
  qed
qed

lemma js_lower_char_eq:
  assumes c: "of_char c < (65 :: nat)"
  shows "js_lower_char d = c \<longleftrightarrow> d = c"
proof -
  have "js_lower_char d = c \<longleftrightarrow> (of_char (js_lower_char d) :: nat) = of_char c"
    by simp
  also have "\<dots> \<longleftrightarrow> (of_char d :: nat) = of_char c"
    using c unfolding of_char_lower by (auto split: if_splits)
  finally show ?thesis by simp
qed

lemma js_lower_slash [simp]: "js_lower_char d = CHR ''/'' \<longleftrightarrow> d = CHR ''/''"
  by (rule js_lower_char_eq) simp

lemma js_lower_dot [simp]: "js_lower_char d = CHR ''.'' \<longleftrightarrow> d = CHR ''.''"
  by (rule js_lower_char_eq) simp

lemma js_lower_slash' [simp]: "CHR ''/'' = js_lower_char d \<longleftrightarrow> d = CHR ''/''"
  by (metis js_lower_slash)

lemma js_lower_join: "js_lower (join_slash xs) = join_slash (map js_lower xs)"
  by (induction xs rule: join_slash.induct) (auto simp: js_lower_def)

lemma fold_resolved:
  "normalize_for_compare h (path_resolve cwd args)
     = CHR ''/'' # join_slash (map (normalize_for_compare h) (resolved_segments cwd args))"
proof (cases "fold_case h")
  case True
  then have "normalize_for_compare h = js_lower" by (auto simp: normalize_for_compare_def)
  then show ?thesis by (simp add: path_resolve_def js_lower_join [symmetric]) (simp add: js_lower_def)
next
  case False
  then have "normalize_for_compare h = id" by (auto simp: normalize_for_compare_def)
  then show ?thesis by (simp add: path_resolve_def)
qed

lemma js_lower_slash_Cons [simp]: "js_lower_char CHR ''/'' = CHR ''/''"
  by simp

lemma plain_lower: "plain x \<Longrightarrow> plain (js_lower x)"
  unfolding plain_def js_lower_def by (simp del: js_lower_slash_Cons add: map_eq_Cons_conv image_iff)

lemma plain_fold: "plain x \<Longrightarrow> plain (normalize_for_compare h x)"
  by (simp add: normalize_for_compare_def plain_lower)

text \<open>Where a path leads, as segments, up to case where the file system ignores it.\<close>

definition location :: "host \<Rightarrow> string \<Rightarrow> string list" where
  "location h p = map (normalize_for_compare h) (resolved_segments (cwd_path h) [p])"

lemma location_plain: "list_all plain (location h p)"
  using resolved_segments_plain [of "cwd_path h" "[p]"]
  by (auto simp: location_def list_all_iff intro: plain_fold)

lemma normalize_resolve: "normalize_for_compare h (resolve h [p]) = CHR ''/'' # join_slash (location h p)"
  by (simp add: fold_resolved location_def)

lemma strip_common_split:
  "strip_common xs ys = (us, vs) \<Longrightarrow> \<exists>k. xs = k @ us \<and> ys = k @ vs \<and> (us = [] \<or> vs = [] \<or> hd us \<noteq> hd vs)"
proof (induction xs ys arbitrary: us vs rule: strip_common.induct)
  case (1 x xs y ys)
  show ?case
  proof (cases "x = y")
    case True
    with 1 obtain k where "xs = k @ us \<and> ys = k @ vs \<and> (us = [] \<or> vs = [] \<or> hd us \<noteq> hd vs)" by auto
    with True show ?thesis by (intro exI [of _ "x # k"]) simp
  next
    case False
    with 1 show ?thesis by auto
  qed
qed auto

lemma strip_common_prefix:
  assumes "strip_common xs ys = (us, vs)"
  shows "us = [] \<longleftrightarrow> prefix xs ys"
proof -
  from strip_common_split [OF assms] obtain k
    where k: "xs = k @ us" "ys = k @ vs" "us = [] \<or> vs = [] \<or> hd us \<noteq> hd vs" by blast
  then have "prefix xs ys \<longleftrightarrow> prefix us vs" by simp
  also have "\<dots> \<longleftrightarrow> us = []" using k by (cases us; cases vs) auto
  finally show ?thesis by simp
qed

section \<open>Containment is a prefix of locations\<close>

lemma join_plain_shape:
  assumes "list_all plain ds" "ds \<noteq> []"
  shows "join_slash ds \<noteq> []" "join_slash ds \<noteq> ''..''" "\<not> starts_with (join_slash ds) ''../''"
    "\<not> is_absolute (join_slash ds)"
proof -
  have split: "split_slash (join_slash ds) = ds"
    using assms by (simp add: split_join plain_free)
  have first: "plain (hd ds)" using assms by (cases ds) auto
  show "join_slash ds \<noteq> []" using split first by (auto simp: plain_def)
  show "join_slash ds \<noteq> ''..''" using split first by (auto simp: plain_def)
  show "\<not> starts_with (join_slash ds) ''../''"
  proof
    assume "starts_with (join_slash ds) ''../''"
    then obtain r where "join_slash ds = ''..'' @ CHR ''/'' # r"
      by (auto simp: starts_with_prefix prefix_def)
    then have "split_slash (join_slash ds) = [''..''] @ split_slash r"
      by (simp only: split_slash_append) simp
    with split first show False by (auto simp: plain_def)
  qed
  show "\<not> is_absolute (join_slash ds)"
  proof
    assume "is_absolute (join_slash ds)"
    then obtain r where "join_slash ds = [] @ CHR ''/'' # r"
      by (auto simp: is_absolute_def starts_with_prefix prefix_def)
    then have "split_slash (join_slash ds) = [[]] @ split_slash r"
      by (simp only: split_slash_append) simp
    with split first show False by (auto simp: plain_def)
  qed
qed

lemma join_up_shape:
  "join_slash (''..'' # ds) \<noteq> [] \<and>
   (join_slash (''..'' # ds) = ''..'' \<or> starts_with (join_slash (''..'' # ds)) ''../'')"
  by (cases ds) (simp_all add: starts_with_def)

lemma is_within_root_iff: "is_within_root h b c \<longleftrightarrow> prefix (location h b) (location h c)"
proof -
  let ?b = "location h b" and ?c = "location h c"
  obtain us vs where uv: "strip_common ?b ?c = (us, vs)" by fastforce
  obtain k where k: "?b = k @ us" "?c = k @ vs" using strip_common_split [OF uv] by blast
  have rel: "path_relative (cwd_path h) (CHR ''/'' # join_slash ?b) (CHR ''/'' # join_slash ?c)
      = (if ?b = ?c then [] else join_slash (replicate (length us) ''..'' @ vs))"
    using join_slash_inj [OF location_plain location_plain, of h b h c]
    by (auto simp: path_relative_def resolved_segments_join location_plain uv)
  have plain: "list_all plain vs"
    using location_plain [of h c] k(2) by simp
  show ?thesis
  proof (cases "?b = ?c")
    case True
    then show ?thesis by (simp add: is_within_root_def normalize_resolve)
  next
    case False
    then have ne: "join_slash ?b \<noteq> join_slash ?c"
      using join_slash_inj [OF location_plain location_plain] by blast
    show ?thesis
    proof (cases "us = []")
      case True
      with False k have "vs \<noteq> []" by auto
      with True ne plain rel False strip_common_prefix [OF uv] show ?thesis
        by (simp add: is_within_root_def normalize_resolve join_plain_shape)
    next
      case us: False
      then obtain n where "replicate (length us) ''..'' @ vs = ''..'' # (replicate n ''..'' @ vs)"
        by (cases us) auto
      with us ne rel False strip_common_prefix [OF uv] join_up_shape [of "replicate n ''..'' @ vs"] show ?thesis
        by (auto simp: is_within_root_def normalize_resolve)
    qed
  qed
qed

section \<open>The interface of containment\<close>

text \<open>What the guards rely on: containment is reflexive and transitive, and two roots that hold the same path
  are nested.\<close>

locale containment =
  fixes inside :: "'p \<Rightarrow> 'p \<Rightarrow> bool"
  assumes inside_refl: "inside a a"
    and inside_trans: "inside a b \<Longrightarrow> inside b c \<Longrightarrow> inside a c"
    and inside_nested: "inside a c \<Longrightarrow> inside b c \<Longrightarrow> inside a b \<or> inside b a"
begin

lemma any_covered:
  assumes "\<forall>r \<in> set rs. \<exists>r' \<in> set rs'. inside r' r"
  shows "list_ex (\<lambda>r. inside r c) rs \<Longrightarrow> list_ex (\<lambda>r. inside r c) rs'"
  using assms by (auto simp: list_ex_iff intro: inside_trans)

lemma any_same:
  assumes "set rs' \<subseteq> set rs" "\<forall>r \<in> set rs. \<exists>r' \<in> set rs'. inside r' r"
  shows "list_ex (\<lambda>r. inside r c) rs' = list_ex (\<lambda>r. inside r c) rs"
  using any_covered [OF assms(2), of c] assms(1) by (auto simp: list_ex_iff)

lemma below_member: "r \<in> set rs \<Longrightarrow> inside r c \<Longrightarrow> list_ex (\<lambda>r. inside r c) rs"
  by (auto simp: list_ex_iff)

lemma inner_root_decides:
  assumes "inside a c" "inside b c" "\<not> inside a b"
  shows "inside b a"
  using assms inside_nested by blast

end

interpretation paths: containment "is_within_root h" for h
  by unfold_locales (auto simp: is_within_root_iff dest: prefix_same_cases intro: prefix_order.trans)

lemma is_within_root_resolve [simp]:
  "is_within_root h (resolve h [b]) c = is_within_root h b c"
  "is_within_root h b (resolve h [c]) = is_within_root h b c"
  by (simp_all add: is_within_root_def)

lemma same_key_within:
  "normalize_for_compare h (resolve h [a]) = normalize_for_compare h (resolve h [b]) \<Longrightarrow> is_within_root h a b"
  by (simp add: is_within_root_def)

lemma dedupe_from_subset: "set (dedupe_from h seen rs) \<subseteq> set rs"
  by (induction rs arbitrary: seen) (auto simp: Let_def)

lemma dedupe_from_covers:
  "r \<in> set rs \<Longrightarrow>
   normalize_for_compare h (resolve h [r]) \<in> set seen \<or>
   (\<exists>r' \<in> set (dedupe_from h seen rs). normalize_for_compare h (resolve h [r']) = normalize_for_compare h (resolve h [r]))"
proof (induction rs arbitrary: seen)
  case Nil
  then show ?case by simp
next
  case (Cons x rs)
  show ?case
  proof (cases "r = x")
    case True
    then show ?thesis by (auto simp: Let_def)
  next
    case False
    with Cons.prems have "r \<in> set rs" by simp
    with Cons.IH [of seen] Cons.IH [of "normalize_for_compare h (resolve h [x]) # seen"] show ?thesis
      by (auto simp: Let_def)
  qed
qed

lemma dedupe_roots_covers: "r \<in> set rs \<Longrightarrow> \<exists>r' \<in> set (dedupe_roots h rs). is_within_root h r' r"
  using dedupe_from_covers [of r rs h "[]"] same_key_within unfolding dedupe_roots_def by fastforce

lemma dedupe_keeps_containment: "is_within_any_root h (dedupe_roots h rs) c = is_within_any_root h rs c"
  unfolding is_within_any_root_def
proof (rule paths.any_same)
  show "set (dedupe_roots h rs) \<subseteq> set rs"
    unfolding dedupe_roots_def by (rule dedupe_from_subset)
  show "\<forall>r \<in> set rs. \<exists>r' \<in> set (dedupe_roots h rs). is_within_root h r' r"
    by (blast dest: dedupe_roots_covers)
qed

lemma canonical_path_resolve [simp]: "canonical_path h (resolve h [p]) = canonical_path h p"
  by (simp add: canonical_path_def)

lemma linked_roots_decide:
  "is_within_any_root h (dedupe_roots h (map (canonical_path h) (dedupe_roots h (map (\<lambda>r. resolve h [r]) rs)))) c \<Longrightarrow>
   \<exists>b \<in> set rs. is_within_root h (canonical_path h b) c"
proof -
  assume "is_within_any_root h (dedupe_roots h (map (canonical_path h) (dedupe_roots h (map (\<lambda>r. resolve h [r]) rs)))) c"
  then obtain b where b: "b \<in> set (dedupe_roots h (map (\<lambda>r. resolve h [r]) rs))" "is_within_root h (canonical_path h b) c"
    unfolding dedupe_keeps_containment by (auto simp: is_within_any_root_def list_ex_iff)
  from b(1) have "b \<in> (\<lambda>r. resolve h [r]) ` set rs"
    unfolding dedupe_roots_def using dedupe_from_subset by fastforce
  then obtain a where "a \<in> set rs" "b = resolve h [a]"
    by blast
  with b show ?thesis by auto
qed

lemma linked_guard_accepts:
  assumes ok: "assert_within_workspace h ws file False = Inr r" and set: "linked_env h \<noteq> Linked_unset"
  shows "\<exists>b \<in> set (ws # linked_folders h). is_within_root h (canonical_path h b) (canonical_path h (resolve h [ws, file]))"
proof (rule linked_roots_decide)
  show "is_within_any_root h (dedupe_roots h (map (canonical_path h)
      (dedupe_roots h (map (\<lambda>r. resolve h [r]) (ws # linked_folders h)))))
    (canonical_path h (resolve h [ws, file]))"
    using ok set by (auto simp: assert_within_workspace_def Let_def split: if_splits)
qed

text \<open>The environment variable has no part in what a path means.\<close>

lemma linked_env_cwd [simp]: "cwd_path (h\<lparr>linked_env := e\<rparr>) = cwd_path h"
  by (simp add: cwd_path_def)

lemma linked_env_nearest [simp]: "nearest_existing (h\<lparr>linked_env := e\<rparr>) cur tail = nearest_existing h cur tail"
proof (induction h cur tail rule: nearest_existing.induct)
  case (1 h cur tail)
  then show ?case
    by (simp add: nearest_existing.simps [of h cur tail] nearest_existing.simps [of "h\<lparr>linked_env := e\<rparr>" cur tail] Let_def)
qed

lemma linked_env_canonical [simp]: "canonical_path (h\<lparr>linked_env := e\<rparr>) p = canonical_path h p"
  by (simp add: canonical_path_def Let_def split: option.split prod.split)

lemma linked_env_within [simp]: "is_within_root (h\<lparr>linked_env := e\<rparr>) b c = is_within_root h b c"
  by (simp add: is_within_root_def normalize_for_compare_def)

section \<open>What the guard promises\<close>

text \<open>C15: 
  A path the guard lets through is the one asked for, resolved against the workspace. With linked folders its
  canonical form lies inside the canonical form of the workspace or of a linked folder. Without them, outside
  local mode, it lies inside the workspace as written, and when a file is there its real path lies inside the
  workspace too.
\<close>

theorem workspace_guard_sound:
  assumes ok: "assert_within_workspace h ws file False = Inr r"
  shows "r = resolve h [ws, file]
    \<and> (linked_env h \<noteq> Linked_unset \<longrightarrow>
        (\<exists>b \<in> set (ws # linked_folders h).
           prefix (location h (canonical_path h b)) (location h (canonical_path h r))))
    \<and> (linked_env h = Linked_unset \<and> \<not> local_mode h \<longrightarrow>
        prefix (location h ws) (location h r) \<and>
        (file_exists h r \<longrightarrow>
          (\<exists>real_ws real_r. realpath h ws = Some real_ws \<and> realpath h r = Some real_r \<and>
             (prefix (location h real_ws) (location h real_r) \<or> prefix (location h ws) (location h real_r)))))"
proof -
  have r: "r = resolve h [ws, file]"
    using ok by (auto simp: assert_within_workspace_def Let_def split: if_splits option.splits)
  have linked: "\<exists>b \<in> set (ws # linked_folders h). is_within_root h (canonical_path h b) (canonical_path h r)"
    if "linked_env h \<noteq> Linked_unset"
    using linked_guard_accepts [OF ok that] r by simp
  have plain: "is_within_root h ws r \<and> (file_exists h r \<longrightarrow>
      (\<exists>real_ws real_r. realpath h ws = Some real_ws \<and> realpath h r = Some real_r \<and>
         (is_within_root h real_ws real_r \<or> is_within_root h ws real_r)))"
    if "linked_env h = Linked_unset \<and> \<not> local_mode h"
    using ok that r by (auto simp: assert_within_workspace_def Let_def split: if_splits option.splits)
  from r linked plain show ?thesis
    by (simp add: is_within_root_iff)
qed

text \<open>A computer on which \<^verbatim>\<open>/w/link\<close> is a symbolic link to \<^verbatim>\<open>/etc\<close>.\<close>

definition symlink_host :: host where
  "symlink_host =
     \<lparr>host_cwd = [''w''], host_home = [''home'', ''u''], fold_case = False,
      realpath = (\<lambda>p. if p \<in> {''/'', ''/w'', ''/etc''} then Some p else if p = ''/w/link'' then Some ''/etc'' else None),
      file_exists = (\<lambda>p. p = ''/'' \<or> p = ''/w'' \<or> p = ''/w/link'' \<or> p = ''/etc''),
      linked_env = Linked_unset, local_mode = False\<rparr>"

lemma symlink_host_simps [simp]:
  "host_cwd symlink_host = [''w'']" "host_home symlink_host = [''home'', ''u'']" "fold_case symlink_host = False"
  "linked_env symlink_host = Linked_unset" "local_mode symlink_host = False"
  by (simp_all add: symlink_host_def)

lemma symlink_host_paths [simp]:
  "resolve symlink_host [''/w'', ''link/new''] = ''/w/link/new''"
  "resolve symlink_host [''/w''] = ''/w''"
  by (simp_all add: path_resolve_def resolved_segments_def cwd_path_def is_absolute_def starts_with_def)

lemma symlink_host_canonical [simp]:
  "canonical_path symlink_host ''/w/link/new'' = ''/etc/new''"
  "canonical_path symlink_host ''/w'' = ''/w''"
proof -
  have self: "resolve symlink_host [''/w/link/new''] = ''/w/link/new''"
    by (simp add: path_resolve_def resolved_segments_def cwd_path_def is_absolute_def starts_with_def)
  have up: "path_dirname ''/w/link/new'' = ''/w/link''"
    by (simp add: path_dirname_def)
  have host: "realpath symlink_host ''/w/link/new'' = None" "realpath symlink_host ''/w/link'' = Some ''/etc''"
    "realpath symlink_host ''/w'' = Some ''/w''"
    "\<not> file_exists symlink_host ''/w/link/new''" "file_exists symlink_host ''/w/link''"
    by (simp_all add: symlink_host_def)
  have walk: "nearest_existing symlink_host ''/w/link/new'' [] = (''/w/link'', ''/new'')"
    using host by (simp add: nearest_existing.simps [of _ "''/w/link/new''"]
        nearest_existing.simps [of _ "''/w/link''"] up)
  show "canonical_path symlink_host ''/w/link/new'' = ''/etc/new''"
    by (simp add: canonical_path_def self host walk)
  show "canonical_path symlink_host ''/w'' = ''/w''"
    by (simp add: canonical_path_def host)
qed

text \<open>
  Without linked folders the guard looks at symbolic links only when the file is already there: a path below a
  link that leads out of the workspace passes as long as its last part is new, wherever it leads. The branch for
  linked folders refuses the same path.
\<close>

theorem new_file_follows_symlink:
  assumes unset: "linked_env h = Linked_unset" "\<not> local_mode h"
    and inside: "is_within_root h ws (resolve h [ws, file])"
    and fresh: "\<not> file_exists h (resolve h [ws, file])"
    and out: "\<not> is_within_root h (canonical_path h ws) (canonical_path h (resolve h [ws, file]))"
  shows "assert_within_workspace h ws file False = Inr (resolve h [ws, file]) \<and>
    (\<exists>e. assert_within_workspace (h\<lparr>linked_env := Linked_array []\<rparr>) ws file False = Inl e)"
proof
  show "assert_within_workspace h ws file False = Inr (resolve h [ws, file])"
    using unset inside fresh by (simp add: assert_within_workspace_def Let_def)
  let ?g = "h\<lparr>linked_env := Linked_array []\<rparr>"
  show "\<exists>e. assert_within_workspace ?g ws file False = Inl e"
  proof (cases "assert_within_workspace ?g ws file False")
    case (Inr r)
    have "linked_folders ?g = []"
      by (simp add: linked_folders_def folder_entries_def)
    with linked_guard_accepts [OF Inr] out have False by simp
    then show ?thesis ..
  qed auto
qed

lemma symlink_host_checks:
  "is_within_root symlink_host ''/w'' ''/w/link/new''"
  "\<not> file_exists symlink_host ''/w/link/new''"
  "\<not> is_within_root symlink_host ''/w'' ''/etc/new''"
proof -
  have "location symlink_host ''/w'' = [''w'']"
    "location symlink_host ''/w/link/new'' = [''w'', ''link'', ''new'']"
    "location symlink_host ''/etc/new'' = [''etc'', ''new'']"
    by (simp_all add: location_def resolved_segments_absolute normalize_for_compare_def)
  then show "is_within_root symlink_host ''/w'' ''/w/link/new''" "\<not> is_within_root symlink_host ''/w'' ''/etc/new''"
    by (simp_all add: is_within_root_iff)
  show "\<not> file_exists symlink_host ''/w/link/new''"
    by (simp add: symlink_host_def)
qed

theorem new_file_follows_symlink_witness:
  "assert_within_workspace symlink_host ''/w'' ''link/new'' False = Inr ''/w/link/new'' \<and>
   canonical_path symlink_host ''/w/link/new'' = ''/etc/new''"
  using new_file_follows_symlink [of symlink_host "''/w''" "''link/new''"] symlink_host_checks by simp

theorem workspace_guard_sound_witness:
  "prefix (location symlink_host ''/w'') (location symlink_host ''/w/link/new'')"
  using workspace_guard_sound [of symlink_host "''/w''" "''link/new''" "''/w/link/new''"] symlink_host_checks
  by (simp add: assert_within_workspace_def Let_def)

end
