(* ===== verification/Local_Access.thy ===== *)
theory Local_Access
  imports Path_Boundary
begin

text \<open>
  \<^verbatim>\<open>packages/agent-runtime/src/local-access.ts\<close>: which applications' data the agent may read or write, the
  folders it must keep out of, and whether it may drive the computer. A check answers \<open>None\<close> for
  \<^verbatim>\<open>ALLOWED\<close>, else why not; the wording of the reason and of its guidance is a function of that and of the
  check, and is left out. A value that came from \<^verbatim>\<open>JSON.parse\<close> is a \<open>js_value\<close>, with the keys of an object
  distinct. The home directory holds no \<^verbatim>\<open>$\<close> (the code hands it to \<^verbatim>\<open>replace\<close> as a replacement pattern).
\<close>

datatype js_value =
    Js_null
  | Js_bool bool
  | Js_number rat
  | Js_string string
  | Js_array "js_value list"
  | Js_object "(string \<times> js_value) list"

definition js_get :: "js_value \<Rightarrow> string \<Rightarrow> js_value option" where
  "js_get v k = (case v of Js_object es \<Rightarrow> map_of es k | _ \<Rightarrow> None)"

section \<open>Preferences and policy\<close>

datatype local_app = Mail | Messages | Notes | Whatsapp

datatype app_access = Access_off | Access_read | Access_readwrite

definition local_app_ids :: "local_app list" where
  "local_app_ids = [Mail, Messages, Notes, Whatsapp]"

fun app_id :: "local_app \<Rightarrow> string" where
  "app_id Mail = ''mail''"
| "app_id Messages = ''messages''"
| "app_id Notes = ''notes''"
| "app_id Whatsapp = ''whatsapp''"

fun access_text :: "app_access \<Rightarrow> string" where
  "access_text Access_off = ''off''"
| "access_text Access_read = ''read''"
| "access_text Access_readwrite = ''readwrite''"

record local_access_policy =
  lp_apps :: "local_app \<Rightarrow> app_access option"
  lp_remote_tools :: "bool option"
  lp_computer_use :: "bool option"
  lp_blocked :: "string list option"

record local_access_prefs =
  pf_apps :: "local_app \<Rightarrow> app_access"
  pf_remote_tools :: bool
  pf_computer_use :: bool
  pf_blocked :: "string list"
  pf_push_to_talk :: "string option"
  pf_hands_free :: "string option"

definition default_local_access_prefs :: local_access_prefs where
  "default_local_access_prefs =
     \<lparr>pf_apps = (\<lambda>_. Access_read), pf_remote_tools = False, pf_computer_use = False, pf_blocked = [],
      pf_push_to_talk = Some ''Fn'', pf_hands_free = None\<rparr>"

fun app_data_dirs :: "local_app \<Rightarrow> string list" where
  "app_data_dirs Mail = [''Library/Mail'', ''Library/Containers/com.apple.mail'']"
| "app_data_dirs Messages = [''Library/Messages'', ''Library/Containers/com.apple.iChat'']"
| "app_data_dirs Notes =
     [''Library/Group Containers/group.com.apple.notes'', ''Library/Containers/com.apple.Notes'']"
| "app_data_dirs Whatsapp =
     [''Library/Group Containers/group.net.whatsapp.WhatsApp.shared'', ''Library/Containers/net.whatsapp.WhatsApp'']"

fun app_script_names :: "local_app \<Rightarrow> string list" where
  "app_script_names Mail = [''Mail'']"
| "app_script_names Messages = [''Messages'']"
| "app_script_names Notes = [''Notes'']"
| "app_script_names Whatsapp = [''WhatsApp'']"

definition max_blocked_folders :: nat where
  "max_blocked_folders = 100"

definition max_shortcut_length :: nat where
  "max_shortcut_length = 64"

definition normalize_shortcut :: "js_value \<Rightarrow> string option \<Rightarrow> string option" where
  "normalize_shortcut v fallback =
     (case v of
        Js_null \<Rightarrow> None
      | Js_string s \<Rightarrow>
          (let trimmed = js_trim s
           in if trimmed = [] then None
              else if length trimmed \<le> max_shortcut_length then Some trimmed else fallback)
      | _ \<Rightarrow> fallback)"

definition access_of_value :: "js_value option \<Rightarrow> app_access option" where
  "access_of_value v =
     (if v = Some (Js_string ''off'') then Some Access_off
      else if v = Some (Js_string ''read'') then Some Access_read
      else if v = Some (Js_string ''readwrite'') then Some Access_readwrite
      else None)"

fun collect_blocked :: "string list \<Rightarrow> js_value list \<Rightarrow> string list" where
  "collect_blocked acc [] = acc"
| "collect_blocked acc (Js_string s # es) =
     (let trimmed = js_trim s;
          acc' = (if trimmed \<noteq> [] \<and> trimmed \<notin> set acc then acc @ [trimmed] else acc)
      in if max_blocked_folders \<le> length acc' then acc' else collect_blocked acc' es)"
| "collect_blocked acc (_ # es) = collect_blocked acc es"

definition shortcut_field :: "js_value option \<Rightarrow> string \<Rightarrow> string option \<Rightarrow> string option" where
  "shortcut_field dictation k fallback =
     (case dictation of
        Some d \<Rightarrow> (case js_get d k of Some v \<Rightarrow> normalize_shortcut v fallback | None \<Rightarrow> fallback)
      | None \<Rightarrow> fallback)"

definition bool_field :: "js_value option \<Rightarrow> bool \<Rightarrow> bool" where
  "bool_field v fallback = (case v of Some (Js_bool b) \<Rightarrow> b | _ \<Rightarrow> fallback)"

definition normalize_local_access_prefs :: "js_value \<Rightarrow> local_access_prefs" where
  "normalize_local_access_prefs raw =
     (let base = default_local_access_prefs;
          apps = js_get raw ''apps'';
          dictation = js_get raw ''dictation''
      in \<lparr>pf_apps = (\<lambda>a. case access_of_value (Option.bind apps (\<lambda>v. js_get v (app_id a))) of
                          Some x \<Rightarrow> x | None \<Rightarrow> pf_apps base a),
          pf_remote_tools = bool_field (js_get raw ''remoteTools'') (pf_remote_tools base),
          pf_computer_use = bool_field (js_get raw ''computerUse'') (pf_computer_use base),
          pf_blocked = (case js_get raw ''blockedFolders'' of Some (Js_array es) \<Rightarrow> collect_blocked [] es | _ \<Rightarrow> []),
          pf_push_to_talk = shortcut_field dictation ''pushToTalk'' (pf_push_to_talk base),
          pf_hands_free = shortcut_field dictation ''handsFree'' (pf_hands_free base)\<rparr>)"

definition to_local_access_policy :: "local_access_prefs \<Rightarrow> local_access_policy" where
  "to_local_access_policy p =
     \<lparr>lp_apps = (\<lambda>a. Some (pf_apps p a)), lp_remote_tools = Some (pf_remote_tools p),
      lp_computer_use = Some (pf_computer_use p), lp_blocked = Some (pf_blocked p)\<rparr>"

section \<open>File tools\<close>

datatype file_op = Op_read | Op_write | Op_delete

datatype access_denial =
    Folder_blocked
  | App_off local_app
  | App_read_only local_app
  | Computer_use_off

definition expand_home :: "string \<Rightarrow> string \<Rightarrow> string" where
  "expand_home p home =
     (if p = ''~'' then home else if starts_with p ''~/'' then path_join [home, drop 2 p] else p)"

fun first_denial :: "('a \<Rightarrow> 'b option) \<Rightarrow> 'a list \<Rightarrow> 'b option" where
  "first_denial f [] = None"
| "first_denial f (x # xs) = (case f x of Some d \<Rightarrow> Some d | None \<Rightarrow> first_denial f xs)"

definition blocked_folders :: "local_access_policy \<Rightarrow> string list" where
  "blocked_folders p = (case lp_blocked p of Some fs \<Rightarrow> fs | None \<Rightarrow> [])"

definition file_app_denial :: "host \<Rightarrow> local_access_policy \<Rightarrow> file_op \<Rightarrow> string \<Rightarrow> local_app \<Rightarrow> access_denial option" where
  "file_app_denial h p fop resolved a =
     (if lp_apps p a = None \<or> lp_apps p a = Some Access_readwrite then None
      else if \<not> list_ex (\<lambda>dir. is_within_root h (path_join [homedir h, dir]) resolved) (app_data_dirs a) then None
      else if lp_apps p a = Some Access_off then Some (App_off a)
      else if fop \<noteq> Op_read then Some (App_read_only a)
      else None)"

definition check_file_access ::
  "host \<Rightarrow> string \<Rightarrow> local_access_policy option \<Rightarrow> file_op \<Rightarrow> string \<Rightarrow> access_denial option" where
  "check_file_access h ws policy fop file =
     (case policy of
        None \<Rightarrow> None
      | Some p \<Rightarrow>
          if file = [] then None
          else
            let resolved = resolve h [ws, expand_home file (homedir h)]
            in if list_ex (\<lambda>folder. is_within_root h (resolve h [expand_home folder (homedir h)]) resolved)
                    (blocked_folders p)
               then Some Folder_blocked
               else first_denial (file_app_denial h p fop resolved) local_app_ids)"

section \<open>Shell commands\<close>

function replace_home :: "string \<Rightarrow> string \<Rightarrow> string" where
  "replace_home home s =
     (case s of
        [] \<Rightarrow> []
      | c # r \<Rightarrow>
          if starts_with s ''$HOME'' then home @ replace_home home (drop 5 s)
          else if starts_with s ''${HOME}'' then home @ replace_home home (drop 7 s)
          else c # replace_home home r)"
  by pat_completeness auto
termination by (relation "measure (\<lambda>(_, s). length s)") auto

declare replace_home.simps [simp del]

definition tilde_lead :: "char \<Rightarrow> bool" where
  "tilde_lead c \<longleftrightarrow> js_space c \<or> c = CHR 0x22 \<or> c = CHR 0x27 \<or> c = CHR ''=''"

text \<open>\<open>at_start\<close> is \<^verbatim>\<open>^\<close>: nothing of the command has been read yet.\<close>

function expand_tilde :: "string \<Rightarrow> bool \<Rightarrow> string \<Rightarrow> string" where
  "expand_tilde home at_start s =
     (case s of
        [] \<Rightarrow> []
      | c # r \<Rightarrow>
          if at_start \<and> starts_with s ''~/'' then home @ ''/'' @ expand_tilde home False (drop 2 s)
          else if tilde_lead c \<and> starts_with r ''~/'' then c # home @ ''/'' @ expand_tilde home False (drop 2 r)
          else c # expand_tilde home False r)"
  by pat_completeness auto
termination by (relation "measure (\<lambda>(_, _, s). length s)") auto

declare expand_tilde.simps [simp del]

definition normalize_command :: "host \<Rightarrow> string \<Rightarrow> string" where
  "normalize_command h command = expand_tilde (homedir h) True (replace_home (homedir h) command)"

definition word_char :: "char \<Rightarrow> bool" where
  "word_char c \<longleftrightarrow>
     (let n = code_unit c in (48 \<le> n \<and> n \<le> 57) \<or> (65 \<le> n \<and> n \<le> 90) \<or> (97 \<le> n \<and> n \<le> 122) \<or> n = 95)"

text \<open>\<^verbatim>\<open>\b\<close> behind a letter.\<close>

definition word_ends :: "string \<Rightarrow> bool" where
  "word_ends r \<longleftrightarrow> r = [] \<or> \<not> word_char (hd r)"

text \<open>\<^verbatim>\<open>\s+\<close> in front of what is neither a space nor empty.\<close>

definition skip_spaces :: "string \<Rightarrow> string option" where
  "skip_spaces s = (if s \<noteq> [] \<and> js_space (hd s) then Some (dropWhile js_space s) else None)"

definition mutating_word_at :: "string \<Rightarrow> bool" where
  "mutating_word_at s \<longleftrightarrow>
     list_ex (\<lambda>w. starts_with s w \<and> word_ends (drop (length w) s))
       [''rm'', ''mv'', ''cp'', ''touch'', ''tee'', ''chmod'', ''chown'', ''truncate'', ''dd'', ''sqlite3'', ''ln''] \<or>
     (starts_with s ''sed'' \<and>
      (case skip_spaces (drop 3 s) of Some r \<Rightarrow> starts_with r ''-i'' \<and> word_ends (drop 2 r) | None \<Rightarrow> False))"

definition redirect_at :: "string \<Rightarrow> bool" where
  "redirect_at s \<longleftrightarrow>
     dropWhile js_space s \<noteq> [] \<or> (starts_with s ''>'' \<and> dropWhile js_space (drop 1 s) \<noteq> [])"

definition command_lead :: "char \<Rightarrow> bool" where
  "command_lead c \<longleftrightarrow> js_space c \<or> c = CHR '';'' \<or> c = CHR ''&'' \<or> c = CHR ''|''"

fun mutates_from :: "bool \<Rightarrow> string \<Rightarrow> bool" where
  "mutates_from at_start [] = False"
| "mutates_from at_start (c # s) =
     ((at_start \<and> mutating_word_at (c # s)) \<or> (command_lead c \<and> mutating_word_at s) \<or>
      (c = CHR ''>'' \<and> redirect_at s) \<or> mutates_from False s)"

definition mutating_shell :: "string \<Rightarrow> bool" where
  "mutating_shell command = mutates_from True command"

definition starts_with_ci :: "string \<Rightarrow> string \<Rightarrow> bool" where
  "starts_with_ci s p \<longleftrightarrow> js_lower (take (length p) s) = js_lower p"

definition script_quote :: "char \<Rightarrow> bool" where
  "script_quote c \<longleftrightarrow> c = CHR 0x5C \<or> c = CHR 0x22 \<or> c = CHR 0x27"

text \<open>\<^verbatim>\<open>first\s+second\s+quotes name\b\<close>, ignoring case.\<close>

definition script_at :: "string \<Rightarrow> string \<Rightarrow> string \<Rightarrow> string \<Rightarrow> bool" where
  "script_at first second name s \<longleftrightarrow>
     starts_with_ci s first \<and>
     (case skip_spaces (drop (length first) s) of
        None \<Rightarrow> False
      | Some r \<Rightarrow>
          starts_with_ci r second \<and>
          (case skip_spaces (drop (length second) r) of
             None \<Rightarrow> False
           | Some q \<Rightarrow>
               (let q' = dropWhile script_quote q in starts_with_ci q' name \<and> word_ends (drop (length name) q'))))"

fun scripts_app :: "string \<Rightarrow> string \<Rightarrow> bool" where
  "scripts_app name [] = False"
| "scripts_app name (c # s) =
     (script_at ''tell'' ''application'' name (c # s) \<or> script_at ''open'' ''-a'' name (c # s) \<or> scripts_app name s)"

definition shell_app_denial :: "host \<Rightarrow> local_access_policy \<Rightarrow> string \<Rightarrow> local_app \<Rightarrow> access_denial option" where
  "shell_app_denial h p command a =
     (if lp_apps p a = None \<or> lp_apps p a = Some Access_readwrite then None
      else
        let normalized = normalize_command h command;
            touches_data = list_ex (\<lambda>dir. js_includes normalized (path_join [homedir h, dir])) (app_data_dirs a);
            scripts = list_ex (\<lambda>name. scripts_app name command) (app_script_names a)
        in if lp_apps p a = Some Access_off \<and> (touches_data \<or> scripts) then Some (App_off a)
           else if lp_apps p a = Some Access_read \<and> touches_data \<and> mutating_shell command then Some (App_read_only a)
           else None)"

definition check_shell_access :: "host \<Rightarrow> local_access_policy option \<Rightarrow> string \<Rightarrow> access_denial option" where
  "check_shell_access h policy command =
     (case policy of
        None \<Rightarrow> None
      | Some p \<Rightarrow>
          if command = [] then None
          else if list_ex (\<lambda>folder. js_includes (normalize_command h command)
                    (resolve h [expand_home folder (homedir h)])) (blocked_folders p)
          then Some Folder_blocked
          else first_denial (shell_app_denial h p command) local_app_ids)"

section \<open>Driving the computer\<close>

definition computer_use_servers :: "string list" where
  "computer_use_servers = [''computer-use'']"

definition check_computer_use :: "local_access_policy option \<Rightarrow> string \<Rightarrow> access_denial option" where
  "check_computer_use policy server =
     (if server \<notin> set computer_use_servers then None
      else case policy of
             None \<Rightarrow> None
           | Some p \<Rightarrow> if lp_computer_use p \<noteq> Some False then None else Some Computer_use_off)"

section \<open>What a file check decides\<close>

lemma first_denial_None: "first_denial f xs = None \<longleftrightarrow> (\<forall>x \<in> set xs. f x = None)"
  by (induction xs) (auto split: option.split)

lemma first_denial_Some: "first_denial f xs = Some d \<Longrightarrow> \<exists>x \<in> set xs. f x = Some d"
  by (induction xs) (auto split: option.splits)

lemma local_app_ids_all [simp]: "set local_app_ids = UNIV"
  using local_app.exhaust by (auto simp: local_app_ids_def)

text \<open>C31: 
  A file operation is allowed exactly when its path, with \<^verbatim>\<open>~\<close> expanded, lies in no blocked folder, and in the
  data of no application but those that are not configured, may be written, or may be read when it reads.
\<close>

theorem file_access_granted_iff:
  "check_file_access h ws (Some p) fop file = None \<longleftrightarrow>
     file = [] \<or>
     (let place = location h (resolve h [ws, expand_home file (homedir h)])
      in (\<forall>f \<in> set (blocked_folders p). \<not> prefix (location h (expand_home f (homedir h))) place) \<and>
         (\<forall>a. (\<exists>dir \<in> set (app_data_dirs a). prefix (location h (path_join [homedir h, dir])) place) \<longrightarrow>
              lp_apps p a = None \<or> lp_apps p a = Some Access_readwrite \<or>
              (lp_apps p a = Some Access_read \<and> fop = Op_read)))"
proof -
  have app: "file_app_denial h p fop r a = None \<longleftrightarrow>
      ((\<exists>dir \<in> set (app_data_dirs a). prefix (location h (path_join [homedir h, dir])) (location h r)) \<longrightarrow>
        lp_apps p a = None \<or> lp_apps p a = Some Access_readwrite \<or> (lp_apps p a = Some Access_read \<and> fop = Op_read))" for r a
    by (cases "lp_apps p a"; cases "the (lp_apps p a)") (auto simp: file_app_denial_def list_ex_iff is_within_root_iff)
  have folder: "location h (resolve h [q]) = location h q" for q
    by (simp add: location_def)
  show ?thesis
    by (simp add: check_file_access_def first_denial_None app list_ex_iff is_within_root_iff folder Let_def)
qed

text \<open>A policy that keeps the agent out of \<^verbatim>\<open>~/secret\<close> and lets it read mail.\<close>

definition sample_access :: local_access_policy where
  "sample_access =
     \<lparr>lp_apps = (\<lambda>a. if a = Mail then Some Access_read else None), lp_remote_tools = None, lp_computer_use = None,
      lp_blocked = Some [''~/secret'']\<rparr>"

lemma sample_paths:
  "location symlink_host (resolve symlink_host [''/w'', expand_home ''~/Library/Mail/x'' (homedir symlink_host)])
     = [''home'', ''u'', ''Library'', ''Mail'', ''x'']"
  "location symlink_host (expand_home ''~/secret'' (homedir symlink_host)) = [''home'', ''u'', ''secret'']"
  by (simp_all add: location_def homedir_def cwd_path_def expand_home_def starts_with_def path_join_def path_normalize_def
      path_resolve_def resolved_segments_def is_absolute_def normalize_for_compare_def)

theorem file_access_granted_iff_witness:
  "check_file_access symlink_host ''/w'' (Some sample_access) Op_read ''~/Library/Mail/x'' = None"
  by (subst file_access_granted_iff) (simp add: sample_paths sample_access_def blocked_folders_def Let_def)

section \<open>Stored preferences\<close>

lemma hd_dropWhile_self: "t \<noteq> [] \<Longrightarrow> \<not> P (hd t) \<Longrightarrow> dropWhile P t = t"
  by (cases t) auto

lemma js_trim_idem [simp]: "js_trim (js_trim s) = js_trim s"
proof -
  define u where "u = dropWhile js_space s"
  define t where "t = rev (dropWhile js_space (rev u))"
  have front: "dropWhile js_space t = t"
  proof (cases "t = []")
    case False
    have "suffix (dropWhile js_space (rev u)) (rev u)" by (rule suffix_dropWhile)
    then have "prefix t u" unfolding t_def by (metis rev_rev_ident suffix_to_prefix)
    with False have "hd t = hd u" "u \<noteq> []" by (auto simp: prefix_def)
    moreover have "\<not> js_space (hd u)"
      using \<open>u \<noteq> []\<close> unfolding u_def by (rule hd_dropWhile)
    ultimately show ?thesis using False by (simp add: hd_dropWhile_self)
  qed simp
  have "dropWhile js_space (rev t) = rev t"
    unfolding t_def by (simp add: dropWhile_idem)
  with front have "js_trim t = t" by (simp add: js_trim_def)
  then show ?thesis by (simp add: t_def u_def js_trim_def)
qed

definition shortcut_ok :: "string option \<Rightarrow> bool" where
  "shortcut_ok v \<longleftrightarrow> (\<forall>s. v = Some s \<longrightarrow> s \<noteq> [] \<and> js_trim s = s \<and> length s \<le> max_shortcut_length)"

definition blocked_ok :: "string list \<Rightarrow> bool" where
  "blocked_ok fs \<longleftrightarrow>
     distinct fs \<and> length fs \<le> max_blocked_folders \<and> list_all (\<lambda>f. f \<noteq> [] \<and> js_trim f = f) fs"

definition prefs_ok :: "local_access_prefs \<Rightarrow> bool" where
  "prefs_ok p \<longleftrightarrow>
     blocked_ok (pf_blocked p) \<and> shortcut_ok (pf_push_to_talk p) \<and> shortcut_ok (pf_hands_free p)"

text \<open>The preferences as the API stores and serves them.\<close>

definition shortcut_json :: "string option \<Rightarrow> js_value" where
  "shortcut_json v = (case v of None \<Rightarrow> Js_null | Some s \<Rightarrow> Js_string s)"

definition prefs_json :: "local_access_prefs \<Rightarrow> js_value" where
  "prefs_json p =
     Js_object
       [(''apps'', Js_object (map (\<lambda>a. (app_id a, Js_string (access_text (pf_apps p a)))) local_app_ids)),
        (''remoteTools'', Js_bool (pf_remote_tools p)),
        (''computerUse'', Js_bool (pf_computer_use p)),
        (''blockedFolders'', Js_array (map Js_string (pf_blocked p))),
        (''dictation'', Js_object [(''pushToTalk'', shortcut_json (pf_push_to_talk p)),
                                   (''handsFree'', shortcut_json (pf_hands_free p))])]"

lemma blocked_ok_snoc:
  "blocked_ok acc \<Longrightarrow> length acc < max_blocked_folders \<Longrightarrow>
   blocked_ok (if js_trim s \<noteq> [] \<and> js_trim s \<notin> set acc then acc @ [js_trim s] else acc)"
  by (simp add: blocked_ok_def)

lemma collect_blocked_ok:
  "blocked_ok acc \<Longrightarrow> length acc < max_blocked_folders \<Longrightarrow> blocked_ok (collect_blocked acc es)"
proof (induction acc es rule: collect_blocked.induct)
  case (2 acc s es)
  define acc' where "acc' = (if js_trim s \<noteq> [] \<and> js_trim s \<notin> set acc then acc @ [js_trim s] else acc)"
  have eq: "collect_blocked acc (Js_string s # es)
      = (if max_blocked_folders \<le> length acc' then acc' else collect_blocked acc' es)"
    by (simp add: acc'_def Let_def)
  have ok: "blocked_ok acc'"
    unfolding acc'_def by (rule blocked_ok_snoc [OF 2(2,3)])
  show ?case
  proof (cases "max_blocked_folders \<le> length acc'")
    case True
    with eq ok show ?thesis by simp
  next
    case False
    with "2.IH" [OF refl acc'_def] ok have "blocked_ok (collect_blocked acc' es)" by simp
    with eq False show ?thesis by simp
  qed
qed simp_all

lemma collect_blocked_same:
  "blocked_ok (acc @ fs) \<Longrightarrow> collect_blocked acc (map Js_string fs) = acc @ fs"
proof (induction fs arbitrary: acc)
  case (Cons f fs)
  then have f: "f \<noteq> []" "js_trim f = f" "f \<notin> set acc" and len: "length acc + Suc (length fs) \<le> max_blocked_folders"
    by (simp_all add: blocked_ok_def)
  show ?case
  proof (cases "fs = []")
    case True
    with f show ?thesis by (simp add: Let_def)
  next
    case False
    with len have "\<not> max_blocked_folders \<le> Suc (length acc)" by (cases fs) simp_all
    with f Cons show ?thesis by (simp add: Let_def)
  qed
qed simp

lemma normalize_shortcut_ok: "shortcut_ok fallback \<Longrightarrow> shortcut_ok (normalize_shortcut v fallback)"
  by (auto simp: shortcut_ok_def normalize_shortcut_def Let_def split: js_value.splits if_splits)

lemma normalize_shortcut_same: "shortcut_ok v \<Longrightarrow> normalize_shortcut (shortcut_json v) fallback = v"
  by (cases v) (auto simp: shortcut_ok_def shortcut_json_def normalize_shortcut_def)

lemma shortcut_field_ok: "shortcut_ok fallback \<Longrightarrow> shortcut_ok (shortcut_field d k fallback)"
  by (auto simp: shortcut_field_def normalize_shortcut_ok split: option.split)

lemma access_of_text [simp]: "access_of_value (Some (Js_string (access_text x))) = Some x"
  by (cases x) (simp_all add: access_of_value_def)

lemma map_of_app [simp]: "map_of (map (\<lambda>a. (app_id a, f a)) local_app_ids) (app_id b) = Some (f b)"
  by (cases b) (simp_all add: local_app_ids_def)

lemma normalize_ok: "prefs_ok (normalize_local_access_prefs raw)"
proof -
  have "shortcut_ok (Some ''Fn'')" "shortcut_ok None"
    by (simp_all add: shortcut_ok_def js_trim_def js_space_def code_unit_def max_shortcut_length_def)
  then show ?thesis
    using collect_blocked_ok [of "[]"]
    by (auto simp: blocked_ok_def [of "[]"] prefs_ok_def normalize_local_access_prefs_def default_local_access_prefs_def Let_def
        shortcut_field_ok max_blocked_folders_def split: option.split js_value.split)
qed

lemma normalize_same:
  assumes "prefs_ok p"
  shows "normalize_local_access_prefs (prefs_json p) = p"
proof -
  have "collect_blocked [] (map Js_string (pf_blocked p)) = pf_blocked p"
    using collect_blocked_same [of "[]" "pf_blocked p"] assms by (simp add: prefs_ok_def)
  with assms show ?thesis
    by (cases p) (simp add: normalize_local_access_prefs_def prefs_json_def js_get_def Let_def bool_field_def
        shortcut_field_def normalize_shortcut_same prefs_ok_def)
qed

text \<open>
  Whatever the stored value is, what comes out is well formed, and storing it and reading it back gives the same
  preferences, so a save of one field never changes another.
\<close>

theorem prefs_round_trip:
  "prefs_ok (normalize_local_access_prefs raw) \<and>
   normalize_local_access_prefs (prefs_json (normalize_local_access_prefs raw)) = normalize_local_access_prefs raw"
  using normalize_ok normalize_same by blast

end
