(* ===== verification/Permission_Policy.thy ===== *)
theory Permission_Policy
  imports Local_Access
begin

text \<open>
  The policy half of \<^verbatim>\<open>packages/agent-runtime/src/permission-engine.ts\<close>: pattern matching, per-tool action
  rules, the merge of a person's preference with a project's, and \<^verbatim>\<open>PermissionEngine.check\<close>, which decides
  for a tool call whether it runs, asks a person first, or is refused.

  A field of \<^verbatim>\<open>overrides\<close> that is absent is \<open>None\<close>, whether the field, its group or the whole object is
  missing: every reader goes through \<^verbatim>\<open>?.\<close> and sees the same. A tool name is no name of a member of
  \<^verbatim>\<open>Object.prototype\<close>. The wording of a verdict is a function of its reason and is left out. The host name of
  a URL (\<^verbatim>\<open>new URL(url).hostname\<close>, \<open>None\<close> when the constructor throws) is an argument.
\<close>

datatype security_mode = Strict | Balanced | Full_autonomy

datatype permission_category =
    Cat_shell | Cat_file_read | Cat_file_write | Cat_file_delete | Cat_network | Cat_mcp | Cat_system | Cat_project

datatype action_rule = Rule_allow | Rule_ask | Rule_block

text \<open>A value found in a rule table: a rule, or something else that JSON can hold.\<close>

datatype raw_rule = Well_formed action_rule | Malformed

record rule_set =
  rs_actions :: "string \<Rightarrow> raw_rule option"
  rs_shell_allow :: "string list option"
  rs_shell_deny :: "string list option"
  rs_file_allow :: "string list option"
  rs_file_deny :: "string list option"
  rs_domains :: "string list option"
  rs_auto_approve :: "string list option"

record preference =
  pr_mode :: security_mode
  pr_local :: "local_access_policy option"
  pr_rules :: rule_set
  pr_timeout :: "nat option"

record project_override =
  po_mode :: "security_mode option"
  po_rules :: rule_set

text \<open>The fields of a tool call's parameters the engine reads; \<open>tp_rest\<close> is everything else.\<close>

record tool_params =
  tp_command :: "string option"
  tp_path :: "string option"
  tp_name :: "string option"
  tp_url :: "string option"
  tp_query :: "string option"
  tp_rest :: "(string \<times> string) list"

datatype verdict = Allow | Ask | Deny

datatype check_reason =
    Never_runs | Needs_approval | No_rule | Rule_allows
  | Path_protected string | System_never
  | Shell_rule_denies | File_rule_denies | Local_access_denies access_denial
  | Strict_read | Agent_config | File_allowlisted | Strict_asks
  | Balanced_read | In_project | Outside_project | Delete_asks
  | Shell_allowlisted | Shell_asks | Domain_allowlisted | Search_query | Domain_asks
  | Mcp_allowlisted | Mcp_asks | Balanced_default | Autonomy_allows

record check_result =
  cr_action :: verdict
  cr_reason :: check_reason
  cr_category :: permission_category

text \<open>What an engine is built with, and the computer it runs on.\<close>

record guard =
  g_host :: host
  g_workspace :: string
  g_docker :: bool
  g_hostname :: "string \<Rightarrow> string option"
  g_actions_only :: bool
  g_no_defaults :: bool

definition or_empty :: "'a list option \<Rightarrow> 'a list" where
  "or_empty v = (case v of Some xs \<Rightarrow> xs | None \<Rightarrow> [])"

section \<open>Built-in lists\<close>

definition hard_blocked_prefixes :: "host \<Rightarrow> string list" where
  "hard_blocked_prefixes h =
     map (\<lambda>ps. path_join (homedir h # ps))
       [[''.ssh''], [''.gnupg''], [''.aws''], [''.config'', ''gcloud''], [''.env''], [''.bashrc''], [''.zshrc''],
        [''.profile''], [''Library'', ''Keychains'']] @
     [''/etc/shadow'', ''/etc/passwd'', ''/etc/sudoers'']"

definition default_shell_allowlist :: "string list" where
  "default_shell_allowlist =
     [''bun *'', ''npm *'', ''npx *'', ''yarn *'', ''pnpm *'',
      ''node *'', ''deno *'',
      ''git status*'', ''git log*'', ''git diff*'', ''git add *'', ''git commit *'',
      ''git branch*'', ''git checkout *'', ''git stash*'', ''git pull*'', ''git fetch*'',
      ''git show*'', ''git rev-parse*'', ''git remote*'',
      ''ls *'', ''ls'', ''cat *'', ''head *'', ''tail *'', ''wc *'', ''grep *'', ''find *'', ''tree *'',
      ''echo *'', ''printf *'',
      ''mkdir *'', ''cp *'', ''mv *'', ''touch *'',
      ''tsc *'', ''tsc'', ''eslint *'', ''prettier *'', ''vitest *'', ''jest *'', ''pytest *'',
      ''curl -s *'', ''curl --silent *'', ''wget -q *'',
      ''which *'', ''whoami'', ''pwd'', ''env'', ''printenv *'',
      ''cd *'', ''pushd *'', ''popd'']"

definition docker_class_shell_allowlist :: "string list" where
  "docker_class_shell_allowlist = [''docker *'', ''docker'', ''docker-compose *'', ''make *'', ''make'']"

definition get_default_shell_allowlist :: "guard \<Rightarrow> string list" where
  "get_default_shell_allowlist g =
     (if g_docker g then default_shell_allowlist @ docker_class_shell_allowlist else default_shell_allowlist)"

definition default_network_allowlist :: "string list" where
  "default_network_allowlist =
     [''npmjs.org'', ''registry.npmjs.org'', ''github.com'', ''api.github.com'', ''raw.githubusercontent.com'',
      ''pypi.org'', ''crates.io'', ''pkg.go.dev'', ''stackoverflow.com'']"

definition agent_config_files :: "string list" where
  "agent_config_files = [''AGENTS.md'', ''HEARTBEAT.md'', ''MEMORY.md'', ''TOOLS.md'', ''STACK.md'', ''config.json'']"

section \<open>Patterns\<close>

definition matches_glob_pattern :: "string \<Rightarrow> string \<Rightarrow> bool" where
  "matches_glob_pattern v pattern =
     (if pattern = ''*'' then True
      else if starts_with pattern ''*.'' then ends_with v (drop 1 pattern) \<or> v = drop 1 pattern
      else if 2 < length pattern \<and> starts_with pattern ''*'' \<and> ends_with pattern ''*''
      then js_includes v (butlast (drop 1 pattern))
      else if ends_with pattern '' *''
      then starts_with v (butlast pattern) \<or> v = take (length pattern - 2) pattern
      else if ends_with pattern ''*'' then starts_with v (butlast pattern)
      else v = pattern)"

definition matches_any_pattern :: "string \<Rightarrow> string list \<Rightarrow> bool" where
  "matches_any_pattern v patterns = list_ex (matches_glob_pattern v) patterns"

definition js_unique :: "'a list \<Rightarrow> 'a list" where
  "js_unique xs = rev (remdups (rev xs))"

definition merge_unique :: "'a list option \<Rightarrow> 'a list option \<Rightarrow> 'a list" where
  "merge_unique a b = js_unique (or_empty a @ or_empty b)"

section \<open>Action rules\<close>

definition default_action_rules :: "string \<Rightarrow> action_rule option" where
  "default_action_rules tool = (if tool = ''github_merge_pr'' then Some Rule_ask else None)"

fun action_rank :: "action_rule \<Rightarrow> nat" where
  "action_rank Rule_allow = 0"
| "action_rank Rule_ask = 1"
| "action_rank Rule_block = 2"

definition normalize_action_rules :: "(string \<Rightarrow> raw_rule option) \<Rightarrow> string \<Rightarrow> action_rule option" where
  "normalize_action_rules rules tool =
     (case rules tool of Some (Well_formed r) \<Rightarrow> if tool \<noteq> [] then Some r else None | _ \<Rightarrow> None)"

definition merge_action_rules ::
  "(string \<Rightarrow> raw_rule option) \<Rightarrow> (string \<Rightarrow> raw_rule option) \<Rightarrow> string \<Rightarrow> raw_rule option" where
  "merge_action_rules a b tool =
     map_option Well_formed
       (case normalize_action_rules b tool of
          None \<Rightarrow> normalize_action_rules a tool
        | Some rule \<Rightarrow>
            (case normalize_action_rules a tool of
               Some existing \<Rightarrow> Some (if action_rank rule \<le> action_rank existing then existing else rule)
             | None \<Rightarrow> Some rule))"

section \<open>Merging a project's settings\<close>

fun tier_rank :: "security_mode \<Rightarrow> nat" where
  "tier_rank Strict = 0"
| "tier_rank Balanced = 1"
| "tier_rank Full_autonomy = 2"

definition effective_mode :: "security_mode \<Rightarrow> security_mode option \<Rightarrow> security_mode" where
  "effective_mode user project =
     (let wanted = (case project of Some m \<Rightarrow> m | None \<Rightarrow> user)
      in if tier_rank wanted \<le> tier_rank user then wanted else user)"

definition merged_allow :: "string list option \<Rightarrow> string list option \<Rightarrow> string list option" where
  "merged_allow user project =
     (case (user, project) of
        (Some u, Some p) \<Rightarrow> Some (filter (\<lambda>a. a \<in> set p) u)
      | (Some u, None) \<Rightarrow> Some u
      | (None, _) \<Rightarrow> project)"

definition merge_rules :: "rule_set \<Rightarrow> rule_set \<Rightarrow> rule_set" where
  "merge_rules u p =
     \<lparr>rs_actions = merge_action_rules (rs_actions u) (rs_actions p),
      rs_shell_allow = merged_allow (rs_shell_allow u) (rs_shell_allow p),
      rs_shell_deny = Some (js_unique (or_empty (rs_shell_deny u) @ or_empty (rs_shell_deny p))),
      rs_file_allow = rs_file_allow u,
      rs_file_deny = Some (or_empty (rs_file_deny u) @ or_empty (rs_file_deny p)),
      rs_domains = rs_domains u,
      rs_auto_approve = rs_auto_approve u\<rparr>"

definition merge_policy :: "preference \<Rightarrow> project_override option \<Rightarrow> preference" where
  "merge_policy user project =
     (case project of
        None \<Rightarrow> user
      | Some p \<Rightarrow>
          \<lparr>pr_mode = effective_mode (pr_mode user) (po_mode p),
           pr_local = pr_local user,
           pr_rules = merge_rules (pr_rules user) (po_rules p),
           pr_timeout = pr_timeout user\<rparr>)"

section \<open>The check\<close>

definition action_rule_for :: "guard \<Rightarrow> preference \<Rightarrow> string \<Rightarrow> action_rule option" where
  "action_rule_for g pref tool =
     (case rs_actions (pr_rules pref) tool of
        Some (Well_formed r) \<Rightarrow> Some r
      | _ \<Rightarrow> if g_actions_only g \<or> g_no_defaults g then None else default_action_rules tool)"

definition result :: "verdict \<Rightarrow> check_reason \<Rightarrow> permission_category \<Rightarrow> check_result" where
  "result a r c = \<lparr>cr_action = a, cr_reason = r, cr_category = c\<rparr>"

lemma result_simps [simp]:
  "cr_action (result a r c) = a" "cr_reason (result a r c) = r" "cr_category (result a r c) = c"
  by (simp_all add: result_def)

definition check_action :: "guard \<Rightarrow> preference \<Rightarrow> permission_category \<Rightarrow> string \<Rightarrow> check_result option" where
  "check_action g pref c tool =
     (case action_rule_for g pref tool of
        Some Rule_block \<Rightarrow> Some (result Deny Never_runs c)
      | Some Rule_ask \<Rightarrow> Some (result Ask Needs_approval c)
      | _ \<Rightarrow> None)"

definition is_file_category :: "permission_category \<Rightarrow> bool" where
  "is_file_category c \<longleftrightarrow> c = Cat_file_read \<or> c = Cat_file_write \<or> c = Cat_file_delete"

definition param :: "string option \<Rightarrow> string" where
  "param v = (case v of Some s \<Rightarrow> s | None \<Rightarrow> [])"

definition check_hard_blocked :: "guard \<Rightarrow> permission_category \<Rightarrow> tool_params \<Rightarrow> check_result option" where
  "check_hard_blocked g c p =
     (let resolved = resolve (g_host g) [g_workspace g, param (tp_path p)];
          hit = (if is_file_category c
                 then List.find (\<lambda>blocked. starts_with resolved blocked \<or> resolved = blocked)
                        (hard_blocked_prefixes (g_host g))
                 else None)
      in case hit of
           Some blocked \<Rightarrow> Some (result Deny (Path_protected blocked) Cat_system)
         | None \<Rightarrow> if c = Cat_system then Some (result Deny System_never Cat_system) else None)"

fun file_op_of :: "permission_category \<Rightarrow> file_op" where
  "file_op_of Cat_file_read = Op_read"
| "file_op_of Cat_file_write = Op_write"
| "file_op_of _ = Op_delete"

definition check_deny_overrides ::
  "guard \<Rightarrow> preference \<Rightarrow> permission_category \<Rightarrow> tool_params \<Rightarrow> check_result option" where
  "check_deny_overrides g pref c p =
     (if c = Cat_shell
      then
        let command = param (tp_command p)
        in if matches_any_pattern command (or_empty (rs_shell_deny (pr_rules pref)))
           then Some (result Deny Shell_rule_denies c)
           else map_option (\<lambda>d. result Deny (Local_access_denies d) c)
                  (check_shell_access (g_host g) (pr_local pref) command)
      else if is_file_category c
      then
        let file = param (tp_path p)
        in if matches_any_pattern file (or_empty (rs_file_deny (pr_rules pref)))
           then Some (result Deny File_rule_denies c)
           else map_option (\<lambda>d. result Deny (Local_access_denies d) c)
                  (check_file_access (g_host g) (g_workspace g) (pr_local pref) (file_op_of c) file)
      else None)"

definition evaluate_strict :: "preference \<Rightarrow> permission_category \<Rightarrow> tool_params \<Rightarrow> check_result" where
  "evaluate_strict pref c p =
     (let file = param (tp_path p); change = (c = Cat_file_write \<or> c = Cat_file_delete)
      in if c = Cat_file_read then result Allow Strict_read c
         else if change \<and> list_ex (ends_with file) agent_config_files then result Allow Agent_config c
         else if change \<and> matches_any_pattern file (or_empty (rs_file_allow (pr_rules pref)))
         then result Allow File_allowlisted c
         else result Ask Strict_asks c)"

definition check_within_workspace :: "guard \<Rightarrow> tool_params \<Rightarrow> bool" where
  "check_within_workspace g p =
     is_within_any_canonical_root (g_host g) [g_workspace g] (resolve (g_host g) [g_workspace g, param (tp_path p)])"

definition url_or_query :: "tool_params \<Rightarrow> string" where
  "url_or_query p = (case truthy (tp_url p) of Some u \<Rightarrow> u | None \<Rightarrow> param (tp_query p))"

fun evaluate_balanced :: "guard \<Rightarrow> preference \<Rightarrow> permission_category \<Rightarrow> tool_params \<Rightarrow> check_result" where
  "evaluate_balanced g pref Cat_file_read p = result Allow Balanced_read Cat_file_read"
| "evaluate_balanced g pref Cat_file_write p =
     (if matches_any_pattern (param (tp_path p)) (or_empty (rs_file_allow (pr_rules pref)))
      then result Allow File_allowlisted Cat_file_write
      else if check_within_workspace g p then result Allow In_project Cat_file_write
      else result Ask Outside_project Cat_file_write)"
| "evaluate_balanced g pref Cat_file_delete p =
     (if matches_any_pattern (param (tp_path p)) (or_empty (rs_file_allow (pr_rules pref)))
      then result Allow File_allowlisted Cat_file_delete
      else result Ask Delete_asks Cat_file_delete)"
| "evaluate_balanced g pref Cat_shell p =
     (if matches_any_pattern (param (tp_command p))
           (get_default_shell_allowlist g @ or_empty (rs_shell_allow (pr_rules pref)))
      then result Allow Shell_allowlisted Cat_shell
      else result Ask Shell_asks Cat_shell)"
| "evaluate_balanced g pref Cat_network p =
     (let url = url_or_query p
      in case g_hostname g url of
           Some hostname \<Rightarrow>
             if list_ex (\<lambda>d. hostname = d \<or> ends_with hostname (CHR ''.'' # d))
                  (default_network_allowlist @ or_empty (rs_domains (pr_rules pref)))
             then result Allow Domain_allowlisted Cat_network
             else result Ask Domain_asks Cat_network
         | None \<Rightarrow>
             if \<not> starts_with url ''http'' then result Allow Search_query Cat_network
             else result Ask Domain_asks Cat_network)"
| "evaluate_balanced g pref Cat_mcp p =
     (if param (tp_name p) \<in> set (or_empty (rs_auto_approve (pr_rules pref)))
      then result Allow Mcp_allowlisted Cat_mcp
      else result Ask Mcp_asks Cat_mcp)"
| "evaluate_balanced g pref c p = result Allow Balanced_default c"

definition evaluate_mode :: "guard \<Rightarrow> preference \<Rightarrow> permission_category \<Rightarrow> tool_params \<Rightarrow> check_result" where
  "evaluate_mode g pref c p =
     (case pr_mode pref of
        Strict \<Rightarrow> evaluate_strict pref c p
      | Balanced \<Rightarrow> evaluate_balanced g pref c p
      | Full_autonomy \<Rightarrow> result Allow Autonomy_allows c)"

definition check :: "guard \<Rightarrow> preference \<Rightarrow> permission_category \<Rightarrow> string \<Rightarrow> tool_params \<Rightarrow> check_result" where
  "check g pref c tool p =
     (if g_actions_only g
      then
        (case check_deny_overrides g pref c p of
           Some r \<Rightarrow> r
         | None \<Rightarrow>
             (case check_action g pref c tool of Some r \<Rightarrow> r | None \<Rightarrow> result Allow No_rule c))
      else
        (case (if pr_mode pref \<noteq> Full_autonomy then check_hard_blocked g c p else None) of
           Some r \<Rightarrow> r
         | None \<Rightarrow>
             (case check_deny_overrides g pref c p of
                Some r \<Rightarrow> r
              | None \<Rightarrow>
                  if action_rule_for g pref tool \<noteq> None
                  then (case check_action g pref c tool of Some r \<Rightarrow> r | None \<Rightarrow> result Allow Rule_allows c)
                  else evaluate_mode g pref c p)))"

section \<open>What a call is refused for\<close>

lemma matches_any_append [simp]:
  "matches_any_pattern v (ps @ qs) \<longleftrightarrow> matches_any_pattern v ps \<or> matches_any_pattern v qs"
  by (simp add: matches_any_pattern_def)

lemma matches_any_Nil [simp]: "\<not> matches_any_pattern v []"
  by (simp add: matches_any_pattern_def)

lemma matches_any_mono: "set ps \<subseteq> set qs \<Longrightarrow> matches_any_pattern v ps \<Longrightarrow> matches_any_pattern v qs"
  by (auto simp: matches_any_pattern_def list_ex_iff)

lemma matches_any_member: "p \<in> set ps \<Longrightarrow> matches_glob_pattern v p \<Longrightarrow> matches_any_pattern v ps"
  by (auto simp: matches_any_pattern_def list_ex_iff)

lemma set_js_unique [simp]: "set (js_unique xs) = set xs"
  by (simp add: js_unique_def)

lemma distinct_js_unique [simp]: "distinct (js_unique xs)"
  by (simp add: js_unique_def)

lemma matches_js_unique [simp]: "matches_any_pattern v (js_unique xs) = matches_any_pattern v xs"
  by (simp add: matches_any_pattern_def list_ex_iff)

lemma or_empty_Some [simp]: "or_empty (Some xs) = xs" and or_empty_None [simp]: "or_empty None = []"
  by (simp_all add: or_empty_def)

lemma strict_never_denies: "cr_action (evaluate_strict pref c p) \<noteq> Deny"
  by (simp add: evaluate_strict_def Let_def)

lemma balanced_never_denies: "cr_action (evaluate_balanced g pref c p) \<noteq> Deny"
  by (cases c) (auto simp: Let_def split: option.split)

lemma deny_overrides_cong:
  assumes "pr_local a = pr_local b"
    and "set (or_empty (rs_shell_deny (pr_rules a))) = set (or_empty (rs_shell_deny (pr_rules b)))"
    and "set (or_empty (rs_file_deny (pr_rules a))) = set (or_empty (rs_file_deny (pr_rules b)))"
  shows "check_deny_overrides g a c p = check_deny_overrides g b c p"
  using assms by (simp add: check_deny_overrides_def Let_def matches_any_pattern_def list_ex_iff)

lemma mode_never_denies: "cr_action (evaluate_mode g pref c p) \<noteq> Deny"
  by (simp add: evaluate_mode_def strict_never_denies balanced_never_denies split: security_mode.split)

lemma hard_blocked_denies: "check_hard_blocked g c p = Some r \<Longrightarrow> cr_action r = Deny"
  by (auto simp: check_hard_blocked_def Let_def split: option.splits if_splits)

lemma deny_override_denies: "check_deny_overrides g pref c p = Some r \<Longrightarrow> cr_action r = Deny"
  by (auto simp: check_deny_overrides_def Let_def split: if_splits)

lemma check_action_denies:
  "(\<exists>r. check_action g pref c tool = Some r \<and> cr_action r = Deny) \<longleftrightarrow> action_rule_for g pref tool = Some Rule_block"
  by (cases "action_rule_for g pref tool"; cases "the (action_rule_for g pref tool)") (simp_all add: check_action_def)

text \<open>The three grounds for a refusal.\<close>

definition mode_refuses :: "guard \<Rightarrow> preference \<Rightarrow> permission_category \<Rightarrow> tool_params \<Rightarrow> bool" where
  "mode_refuses g pref c p \<longleftrightarrow>
     \<not> g_actions_only g \<and> pr_mode pref \<noteq> Full_autonomy \<and> check_hard_blocked g c p \<noteq> None"

lemma check_cases:
  "check g pref c tool p =
     (if mode_refuses g pref c p then the (check_hard_blocked g c p)
      else case check_deny_overrides g pref c p of
             Some r \<Rightarrow> r
           | None \<Rightarrow>
               (case action_rule_for g pref tool of
                  Some Rule_block \<Rightarrow> result Deny Never_runs c
                | Some Rule_ask \<Rightarrow> result Ask Needs_approval c
                | Some Rule_allow \<Rightarrow> result Allow (if g_actions_only g then No_rule else Rule_allows) c
                | None \<Rightarrow> if g_actions_only g then result Allow No_rule c else evaluate_mode g pref c p))"
  by (auto simp: check_def mode_refuses_def check_action_def split: option.splits action_rule.splits)

lemma denies_iff:
  "cr_action (check g pref c tool p) = Deny \<longleftrightarrow>
     mode_refuses g pref c p \<or> check_deny_overrides g pref c p \<noteq> None \<or> action_rule_for g pref tool = Some Rule_block"
proof (cases "mode_refuses g pref c p")
  case True
  then obtain r where "check_hard_blocked g c p = Some r" by (auto simp: mode_refuses_def)
  with True show ?thesis by (simp add: check_cases hard_blocked_denies)
next
  case False
  then show ?thesis
    by (cases "check_deny_overrides g pref c p")
      (auto simp: check_cases mode_never_denies deny_override_denies split: option.split action_rule.split)
qed

section \<open>Credential paths\<close>

lemma join_slash_prefix: "prefix xs ys \<Longrightarrow> prefix (join_slash xs) (join_slash ys)"
proof (induction xs arbitrary: ys rule: join_slash.induct)
  case (2 x)
  then show ?case by (cases "tl ys") (auto simp: prefix_def neq_Nil_conv)
next
  case (3 x y xs)
  then obtain zs where ys: "ys = x # y # zs" "prefix (y # xs) (y # zs)" by (auto simp: prefix_def)
  with "3.IH" [of "y # zs"] show ?case by simp
qed simp

lemma resolve_starts_with:
  "prefix (resolved_segments cwd [b]) (resolved_segments cwd' args) \<Longrightarrow>
   starts_with (path_resolve cwd' args) (path_resolve cwd [b])"
  by (simp add: path_resolve_def starts_with_prefix join_slash_prefix)

lemma join_absolute:
  assumes "ps \<noteq> []" "\<forall>q \<in> set ps. q \<noteq> []" "last (last ps) \<noteq> CHR ''/''"
  shows "path_resolve cwd [path_join (homedir h # ps)] = path_join (homedir h # ps)"
proof -
  define p where "p = join_slash (homedir h # ps)"
  have abs: "is_absolute p"
    using assms(1) by (cases ps) (simp_all add: p_def homedir_def)
  have last: "last (join_slash (q # qs)) = last (last (q # qs))" if "\<forall>x \<in> set (q # qs). x \<noteq> []" for q qs
    using that
  proof (induction qs arbitrary: q)
    case (Cons a qs)
    then have "join_slash (a # qs) \<noteq> []" by (cases qs) auto
    with Cons show ?case by simp
  qed simp
  have ne: "homedir h \<noteq> []" by (simp add: homedir_def)
  then have "last p \<noteq> CHR ''/''"
    unfolding p_def using assms by (subst last) auto
  moreover have "p \<noteq> []" using abs by (auto simp: is_absolute_def starts_with_def)
  ultimately have norm: "path_normalize p = CHR ''/'' # join_slash (collapse False [] (split_slash p))"
    using abs by (simp add: path_normalize_def Let_def)
  have "list_all plain (collapse False [] (split_slash p))"
    by (rule collapse_plain) (auto dest: split_slash_free)
  then have "path_resolve cwd [path_normalize p] = path_normalize p"
    by (simp add: norm path_resolve_def resolved_segments_join)
  moreover have "filter (\<lambda>p. p \<noteq> []) (homedir h # ps) = homedir h # ps"
    using assms(2) ne by (simp add: filter_id_conv)
  ultimately show ?thesis by (simp add: path_join_def p_def Let_def del: join_slash.simps)
qed

lemma hard_blocked_resolved: "b \<in> set (hard_blocked_prefixes h) \<Longrightarrow> path_resolve cwd [b] = b"
proof -
  assume "b \<in> set (hard_blocked_prefixes h)"
  then consider ps where "b = path_join (homedir h # ps)" "ps \<noteq> []" "\<forall>q \<in> set ps. q \<noteq> []" "last (last ps) \<noteq> CHR ''/''"
    | "b \<in> {''/etc/shadow'', ''/etc/passwd'', ''/etc/sudoers''}"
    by (auto simp: hard_blocked_prefixes_def)
  then show ?thesis
  proof cases
    case 1
    then show ?thesis by (simp add: join_absolute)
  next
    case 2
    then show ?thesis by (auto simp: path_resolve_def resolved_segments_absolute)
  qed
qed

lemma hard_blocked_below:
  assumes "is_file_category c" "b \<in> set (hard_blocked_prefixes (g_host g))"
    and "prefix (resolved_segments (cwd_path (g_host g)) [b])
           (resolved_segments (cwd_path (g_host g)) [g_workspace g, param (tp_path p)])"
  shows "check_hard_blocked g c p \<noteq> None"
proof -
  have "starts_with (resolve (g_host g) [g_workspace g, param (tp_path p)]) b"
    using resolve_starts_with [OF assms(3)] hard_blocked_resolved [OF assms(2)] by simp
  with assms(2) have "List.find (\<lambda>blocked. starts_with (resolve (g_host g) [g_workspace g, param (tp_path p)]) blocked \<or>
      resolve (g_host g) [g_workspace g, param (tp_path p)] = blocked) (hard_blocked_prefixes (g_host g)) \<noteq> None"
    by (auto simp: find_None_iff)
  with assms(1) show ?thesis by (auto simp: check_hard_blocked_def Let_def split: option.split)
qed

text \<open>C8: 
  In strict and balanced mode a file tool is refused every path that resolves to a credential path or below one,
  whatever the allow lists, the action rules and the local-access policy say.
\<close>

theorem credentials_refused:
  assumes "\<not> g_actions_only g" "pr_mode pref \<noteq> Full_autonomy" "is_file_category c"
    and "b \<in> set (hard_blocked_prefixes (g_host g))"
    and "prefix (resolved_segments (cwd_path (g_host g)) [b])
           (resolved_segments (cwd_path (g_host g)) [g_workspace g, param (tp_path p)])"
  shows "cr_action (check g pref c tool p) = Deny"
  using assms hard_blocked_below [of c b g p] by (simp add: denies_iff mode_refuses_def)

section \<open>A sample runtime\<close>

definition no_rules :: rule_set where
  "no_rules =
     \<lparr>rs_actions = (\<lambda>_. None), rs_shell_allow = None, rs_shell_deny = None, rs_file_allow = None,
      rs_file_deny = None, rs_domains = None, rs_auto_approve = None\<rparr>"

definition plain_preference :: "security_mode \<Rightarrow> preference" where
  "plain_preference m = \<lparr>pr_mode = m, pr_local = None, pr_rules = no_rules, pr_timeout = Some 30\<rparr>"

definition sample_guard :: guard where
  "sample_guard =
     \<lparr>g_host = symlink_host, g_workspace = ''/w'', g_docker = False, g_hostname = (\<lambda>_. None),
      g_actions_only = False, g_no_defaults = False\<rparr>"

definition no_params :: tool_params where
  "no_params = \<lparr>tp_command = None, tp_path = None, tp_name = None, tp_url = None, tp_query = None, tp_rest = []\<rparr>"

lemma sample_simps [simp]:
  "g_host sample_guard = symlink_host" "g_workspace sample_guard = ''/w''" "\<not> g_actions_only sample_guard"
  "\<not> g_no_defaults sample_guard" "g_docker sample_guard = False"
  "pr_mode (plain_preference m) = m" "pr_local (plain_preference m) = None" "pr_rules (plain_preference m) = no_rules"
  by (simp_all add: sample_guard_def plain_preference_def)

lemma no_rules_simps [simp]:
  "rs_actions no_rules = (\<lambda>_. None)" "rs_shell_allow no_rules = None" "rs_shell_deny no_rules = None"
  "rs_file_allow no_rules = None" "rs_file_deny no_rules = None" "rs_domains no_rules = None"
  "rs_auto_approve no_rules = None"
  by (simp_all add: no_rules_def)

lemma plain_no_denials [simp]: "check_deny_overrides g (plain_preference m) c p = None"
  by (simp add: check_deny_overrides_def check_shell_access_def check_file_access_def Let_def)

theorem credentials_refused_witness:
  "cr_action (check sample_guard (plain_preference Balanced) Cat_file_read ''read_file''
     (no_params\<lparr>tp_path := Some ''/home/u/.ssh/id_rsa''\<rparr>)) = Deny"
proof (rule credentials_refused [where b = "path_join [homedir symlink_host, ''.ssh'']"])
  show "path_join [homedir symlink_host, ''.ssh''] \<in> set (hard_blocked_prefixes (g_host sample_guard))"
    by (simp add: hard_blocked_prefixes_def)
  show "prefix (resolved_segments (cwd_path (g_host sample_guard)) [path_join [homedir symlink_host, ''.ssh'']])
      (resolved_segments (cwd_path (g_host sample_guard))
        [g_workspace sample_guard, param (tp_path (no_params\<lparr>tp_path := Some ''/home/u/.ssh/id_rsa''\<rparr>))])"
    by (simp add: resolved_segments_def cwd_path_def homedir_def path_join_def path_normalize_def is_absolute_def
        starts_with_def param_def)
qed (simp_all add: is_file_category_def)

section \<open>Merging never forgives\<close>

instantiation verdict :: linorder
begin

fun verdict_rank :: "verdict \<Rightarrow> nat" where
  "verdict_rank Allow = 0"
| "verdict_rank Ask = 1"
| "verdict_rank Deny = 2"

definition less_eq_verdict :: "verdict \<Rightarrow> verdict \<Rightarrow> bool" where
  "less_eq_verdict a b \<longleftrightarrow> verdict_rank a \<le> verdict_rank b"

definition less_verdict :: "verdict \<Rightarrow> verdict \<Rightarrow> bool" where
  "less_verdict a b \<longleftrightarrow> verdict_rank a < verdict_rank b"

instance
proof
  fix a b :: verdict
  show "a \<le> b \<Longrightarrow> b \<le> a \<Longrightarrow> a = b"
    by (cases a; cases b) (simp_all add: less_eq_verdict_def)
qed (auto simp: less_eq_verdict_def less_verdict_def)

end

lemma verdict_bounds [simp]: "Allow \<le> v" "v \<le> Deny"
  by (cases v; simp add: less_eq_verdict_def)+

lemma verdict_not_Deny: "v \<noteq> Deny \<Longrightarrow> v \<le> Ask"
  by (cases v) (simp_all add: less_eq_verdict_def)

lemma effective_mode_le: "tier_rank (effective_mode m p) \<le> tier_rank m"
  by (simp add: effective_mode_def Let_def)

lemma effective_mode_not_full: "m \<noteq> Full_autonomy \<Longrightarrow> effective_mode m p \<noteq> Full_autonomy"
  using effective_mode_le [of m p] by (cases m; cases "effective_mode m p") auto

lemma merge_policy_simps [simp]:
  "pr_mode (merge_policy u (Some p)) = effective_mode (pr_mode u) (po_mode p)"
  "pr_local (merge_policy u (Some p)) = pr_local u"
  "pr_rules (merge_policy u (Some p)) = merge_rules (pr_rules u) (po_rules p)"
  "merge_policy u None = u"
  by (simp_all add: merge_policy_def)

lemma merge_rules_simps [simp]:
  "rs_actions (merge_rules u p) = merge_action_rules (rs_actions u) (rs_actions p)"
  "rs_shell_allow (merge_rules u p) = merged_allow (rs_shell_allow u) (rs_shell_allow p)"
  "or_empty (rs_shell_deny (merge_rules u p)) = js_unique (or_empty (rs_shell_deny u) @ or_empty (rs_shell_deny p))"
  "rs_file_allow (merge_rules u p) = rs_file_allow u"
  "or_empty (rs_file_deny (merge_rules u p)) = or_empty (rs_file_deny u) @ or_empty (rs_file_deny p)"
  "rs_domains (merge_rules u p) = rs_domains u"
  "rs_auto_approve (merge_rules u p) = rs_auto_approve u"
  by (simp_all add: merge_rules_def)

lemma merged_deny_overrides:
  "check_deny_overrides g u c p \<noteq> None \<Longrightarrow> check_deny_overrides g (merge_policy u (Some q)) c p \<noteq> None"
  by (auto simp: check_deny_overrides_def Let_def split: if_splits)

lemma merged_rule_stricter:
  assumes "tool \<noteq> []" "action_rule_for g u tool = Some r" "rs_actions (pr_rules u) tool \<noteq> None"
  shows "\<exists>r'. action_rule_for g (merge_policy u (Some q)) tool = Some r' \<and>
    (rs_actions (pr_rules u) tool = Some (Well_formed r) \<longrightarrow> action_rank r \<le> action_rank r')"
  using assms
  by (auto simp: action_rule_for_def merge_action_rules_def normalize_action_rules_def default_action_rules_def
      split: option.splits raw_rule.splits if_splits)

lemma merged_block:
  assumes "tool \<noteq> []" "action_rule_for g u tool = Some Rule_block"
  shows "action_rule_for g (merge_policy u (Some q)) tool = Some Rule_block"
proof -
  have "rs_actions (pr_rules u) tool = Some (Well_formed Rule_block)"
    using assms(2) by (auto simp: action_rule_for_def default_action_rules_def split: option.splits raw_rule.splits if_splits)
  moreover from this obtain r' where "action_rule_for g (merge_policy u (Some q)) tool = Some r'"
    "action_rank Rule_block \<le> action_rank r'"
    using merged_rule_stricter [OF assms, of q] by auto
  ultimately show ?thesis by (cases r') auto
qed

lemma merge_refuses:
  assumes "tool \<noteq> []" "cr_action (check g u c tool p) = Deny"
  shows "cr_action (check g (merge_policy u q) c tool p) = Deny"
proof (cases q)
  case None
  with assms show ?thesis by simp
next
  case (Some o')
  have "mode_refuses g u c p \<Longrightarrow> mode_refuses g (merge_policy u (Some o')) c p"
    by (simp add: mode_refuses_def effective_mode_not_full)
  with assms Some show ?thesis
    using merged_deny_overrides [of g u c p o'] merged_block [of tool g u o'] by (auto simp: denies_iff)
qed

text \<open>What a project's settings refuse can only grow: a call the person's own preference refuses is refused
  under every project's settings.\<close>

theorem merge_keeps_refusals:
  assumes "tool \<noteq> []" "cr_action (check g user c tool p) = Deny"
  shows "cr_action (check g (merge_policy user project) c tool p) = Deny"
  using assms by (rule merge_refuses)

theorem merge_keeps_refusals_witness:
  "cr_action (check sample_guard
      (merge_policy (plain_preference Balanced)
         (Some \<lparr>po_mode = Some Full_autonomy, po_rules = no_rules\<rparr>)) Cat_system ''shutdown'' no_params) = Deny"
  by (rule merge_keeps_refusals) (simp_all add: denies_iff mode_refuses_def check_hard_blocked_def is_file_category_def)

text \<open>Settings that only tighten: no rule of them lets a tool run, and no shell allow list of them takes the
  place of a missing one of the person's.\<close>

definition only_tightens :: "preference \<Rightarrow> project_override \<Rightarrow> bool" where
  "only_tightens u q \<longleftrightarrow>
     (\<forall>tool. normalize_action_rules (rs_actions (po_rules q)) tool \<noteq> Some Rule_allow) \<and>
     (rs_shell_allow (pr_rules u) = None \<longrightarrow> rs_shell_allow (po_rules q) = None)"

lemma merged_rule_cases:
  assumes "tool \<noteq> []" "only_tightens u q"
  shows "action_rule_for g (merge_policy u (Some q)) tool = action_rule_for g u tool \<or>
    action_rule_for g (merge_policy u (Some q)) tool = Some Rule_ask \<or>
    action_rule_for g (merge_policy u (Some q)) tool = Some Rule_block"
proof -
  have "normalize_action_rules (rs_actions (po_rules q)) tool \<noteq> Some Rule_allow"
    using assms(2) by (simp add: only_tightens_def)
  then have proj: "normalize_action_rules (rs_actions (po_rules q)) tool \<in> {None, Some Rule_ask, Some Rule_block}"
    by (cases "normalize_action_rules (rs_actions (po_rules q)) tool"; cases "the (normalize_action_rules (rs_actions (po_rules q)) tool)")
      auto
  show ?thesis
  proof (cases "normalize_action_rules (rs_actions (po_rules q)) tool")
    case None
    with assms(1) show ?thesis
      by (auto simp: action_rule_for_def merge_action_rules_def normalize_action_rules_def
          split: option.splits raw_rule.splits)
  next
    case (Some r)
    with proj have "r = Rule_ask \<or> r = Rule_block" by auto
    with Some show ?thesis
      by (cases "normalize_action_rules (rs_actions (pr_rules u)) tool"; cases "the (normalize_action_rules (rs_actions (pr_rules u)) tool)")
        (auto simp: action_rule_for_def merge_action_rules_def)
  qed
qed

lemma merged_allow_subset:
  "only_tightens u q \<Longrightarrow>
   set (or_empty (merged_allow (rs_shell_allow (pr_rules u)) (rs_shell_allow (po_rules q))))
     \<subseteq> set (or_empty (rs_shell_allow (pr_rules u)))"
  by (auto simp: only_tightens_def merged_allow_def split: option.splits)

lemma balanced_merge:
  assumes "only_tightens u q"
  shows "cr_action (evaluate_balanced g u c p) \<le> cr_action (evaluate_balanced g (merge_policy u (Some q)) c p)"
proof (cases c)
  case Cat_shell
  have "matches_any_pattern v (or_empty (rs_shell_allow (pr_rules u)))"
    if "matches_any_pattern v (or_empty (merged_allow (rs_shell_allow (pr_rules u)) (rs_shell_allow (po_rules q))))" for v
    using matches_any_mono [OF merged_allow_subset [OF assms] that] .
  with Cat_shell show ?thesis by (auto simp: verdict_not_Deny)
qed (auto simp: Let_def split: option.split)

lemma strict_merge: "cr_action (evaluate_strict u c p) = cr_action (evaluate_strict (merge_policy u (Some q)) c p)"
  by (simp add: evaluate_strict_def Let_def)

text \<open>The files every mode but balanced lets an agent write by their name alone.\<close>

definition named_config :: "permission_category \<Rightarrow> tool_params \<Rightarrow> bool" where
  "named_config c p \<longleftrightarrow>
     (c = Cat_file_write \<or> c = Cat_file_delete) \<and> list_ex (ends_with (param (tp_path p))) agent_config_files"

lemma balanced_below_strict:
  "\<not> named_config c p \<Longrightarrow> cr_action (evaluate_balanced g u c p) \<le> cr_action (evaluate_strict u c p)"
  by (cases c) (auto simp: evaluate_strict_def named_config_def Let_def verdict_not_Deny split: option.split)

lemma mode_merge:
  assumes "only_tightens u q" "\<not> named_config c p"
  shows "cr_action (evaluate_mode g u c p) \<le> cr_action (evaluate_mode g (merge_policy u (Some q)) c p)"
proof (cases "pr_mode u")
  case Strict
  then have "effective_mode (pr_mode u) (po_mode q) = Strict"
    using effective_mode_le [of Strict "po_mode q"] by (cases "effective_mode Strict (po_mode q)") auto
  with Strict show ?thesis by (simp add: evaluate_mode_def strict_merge [of u c p q])
next
  case Balanced
  then consider "effective_mode (pr_mode u) (po_mode q) = Strict" | "effective_mode (pr_mode u) (po_mode q) = Balanced"
    using effective_mode_le [of Balanced "po_mode q"] by (cases "effective_mode Balanced (po_mode q)") auto
  then show ?thesis
    using Balanced balanced_merge [OF assms(1), of g c p] balanced_below_strict [OF assms(2), of g u]
    by cases (simp_all add: evaluate_mode_def strict_merge [of u c p q])
qed (simp add: evaluate_mode_def)

text \<open>C19: 
  Under settings that only tighten, a project makes no call easier, whatever the mode: what asked still asks, and
  what was refused is still refused. The tool must have a name, and the exception is a file operation on a file
  named like an agent's own configuration: strict mode lets those pass by their name.
\<close>

theorem merge_never_loosens:
  assumes "tool \<noteq> []" "only_tightens user project" "\<not> named_config c p"
  shows "cr_action (check g user c tool p) \<le> cr_action (check g (merge_policy user (Some project)) c tool p)"
proof (cases "cr_action (check g (merge_policy user (Some project)) c tool p) = Deny")
  case False
  let ?m = "merge_policy user (Some project)"
  have user: "cr_action (check g user c tool p) \<noteq> Deny"
    using False merge_refuses [OF assms(1)] by blast
  note open_user = user [unfolded denies_iff, simplified] and open_merged = False [unfolded denies_iff, simplified]
  show ?thesis
  proof (cases "action_rule_for g ?m tool = Some Rule_ask")
    case True
    with open_merged have "cr_action (check g ?m c tool p) = Ask" by (simp add: check_cases)
    with user show ?thesis by (simp add: verdict_not_Deny)
  next
    case False
    with open_merged merged_rule_cases [OF assms(1,2), of g] have "action_rule_for g ?m tool = action_rule_for g user tool"
      by auto
    with open_user open_merged mode_merge [OF assms(2,3), of g] show ?thesis
      by (auto simp: check_cases split: option.split action_rule.split)
  qed
qed simp

theorem merge_never_loosens_witness:
  "cr_action (check sample_guard (plain_preference Balanced) Cat_shell ''exec'' (no_params\<lparr>tp_command := Some ''rm x''\<rparr>))
     \<le> cr_action (check sample_guard
         (merge_policy (plain_preference Balanced) (Some \<lparr>po_mode = Some Strict, po_rules = no_rules\<rparr>))
         Cat_shell ''exec'' (no_params\<lparr>tp_command := Some ''rm x''\<rparr>))"
  by (rule merge_never_loosens) (simp_all add: only_tightens_def normalize_action_rules_def named_config_def)

section \<open>Where a verdict is looser than it reads\<close>

text \<open>
  A project's rule that lets a tool run is not held back when the person has no rule for that tool: the call the
  person's own mode would ask about runs unasked.
\<close>

theorem project_rule_unlocks:
  assumes "cr_action (check g user c tool p) = Ask" "tool \<noteq> []"
    and "rs_actions (pr_rules user) tool = None" "rs_actions (po_rules project) tool = Some (Well_formed Rule_allow)"
    and "po_mode project = None" "rs_shell_deny (po_rules project) = None" "rs_file_deny (po_rules project) = None"
  shows "cr_action (check g (merge_policy user (Some project)) c tool p) = Allow"
proof -
  let ?m = "merge_policy user (Some project)"
  have rule: "action_rule_for g ?m tool = Some Rule_allow"
    using assms(2-4) by (simp add: action_rule_for_def merge_action_rules_def normalize_action_rules_def)
  have "cr_action (check g user c tool p) \<noteq> Deny" using assms(1) by simp
  then have user: "\<not> mode_refuses g user c p" "check_deny_overrides g user c p = None"
    by (auto simp: denies_iff)
  have "mode_refuses g ?m c p = mode_refuses g user c p"
    using assms(5) by (simp add: mode_refuses_def effective_mode_def)
  moreover have "check_deny_overrides g ?m c p = check_deny_overrides g user c p"
    using assms(6,7) by (intro deny_overrides_cong) simp_all
  ultimately show ?thesis using rule user by (simp add: check_cases)
qed

theorem project_rule_unlocks_witness:
  "cr_action (check sample_guard
     (merge_policy (plain_preference Strict)
        (Some \<lparr>po_mode = None, po_rules = no_rules\<lparr>rs_actions := [''exec'' \<mapsto> Well_formed Rule_allow]\<rparr>\<rparr>))
     Cat_shell ''exec'' (no_params\<lparr>tp_command := Some ''rm -rf x''\<rparr>)) = Allow"
  by (rule project_rule_unlocks)
    (simp_all add: check_cases mode_refuses_def check_hard_blocked_def is_file_category_def action_rule_for_def
      default_action_rules_def evaluate_mode_def evaluate_strict_def)

lemma allowlist_entries: "list_all (\<lambda>e. \<not> starts_with e ''*'') default_shell_allowlist"
  by (simp add: default_shell_allowlist_def starts_with_def)

lemma allowlisted_start:
  assumes "w @ '' *'' \<in> set default_shell_allowlist"
  shows "matches_any_pattern (w @ '' '' @ rest) default_shell_allowlist"
proof (rule matches_any_member [OF assms])
  let ?e = "w @ '' *''"
  have star: "\<not> starts_with ?e ''*''"
    using assms allowlist_entries by (auto simp: list_all_iff)
  then have dot: "\<not> starts_with ?e ''*.''" "?e \<noteq> ''*''"
    by (auto simp: starts_with_prefix prefix_def)
  have "ends_with ?e '' *''" by (simp add: ends_with_def)
  moreover have "starts_with (w @ '' '' @ rest) (butlast ?e)"
    by (simp add: starts_with_prefix butlast_append)
  ultimately show "matches_glob_pattern (w @ '' '' @ rest) ?e"
    using star dot by (simp add: matches_glob_pattern_def)
qed

text \<open>
  In balanced mode, where neither a deny list nor local access refuses the command and no action rule speaks for the
  tool, a command that begins with a word \<open>w\<close> of the built-in list, listed there as \<open>w *\<close>, and a space runs unasked,
  whatever comes after the space: further commands after a semicolon, or a credential path that no file tool may
  open. (Words listed without the star match only a command that is that word.)
\<close>

theorem allowlist_ignores_the_rest:
  assumes "\<not> g_actions_only g" "pr_mode pref = Balanced" "action_rule_for g pref tool = None"
    and "check_deny_overrides g pref Cat_shell p = None"
    and "w @ '' *'' \<in> set default_shell_allowlist" "tp_command p = Some (w @ '' '' @ rest)"
  shows "cr_action (check g pref Cat_shell tool p) = Allow"
proof -
  have "matches_any_pattern (param (tp_command p))
      (get_default_shell_allowlist g @ or_empty (rs_shell_allow (pr_rules pref)))"
    using allowlisted_start [OF assms(5), of rest] assms(6) by (simp add: param_def get_default_shell_allowlist_def)
  with assms(1-4) show ?thesis
    by (simp add: check_cases mode_refuses_def check_hard_blocked_def is_file_category_def evaluate_mode_def)
qed

theorem allowlist_ignores_the_rest_witness:
  "cr_action (check sample_guard (plain_preference Balanced) Cat_shell ''exec''
     (no_params\<lparr>tp_command := Some ''cat /home/u/.ssh/id_rsa; rm -rf /home/u''\<rparr>)) = Allow"
  by (rule allowlist_ignores_the_rest [where w = "''cat''" and rest = "''/home/u/.ssh/id_rsa; rm -rf /home/u''"])
    (simp_all add: action_rule_for_def default_action_rules_def default_shell_allowlist_def)

text \<open>
  Strict mode lets an agent write and delete a file by the end of its name, in whatever directory it is, where
  balanced mode asks.
\<close>

theorem strict_trusts_the_name:
  assumes "\<not> g_actions_only g" "named_config c p" "action_rule_for g pref tool = None"
    and "check_hard_blocked g c p = None" "check_deny_overrides g pref c p = None"
    and "\<not> matches_any_pattern (param (tp_path p)) (or_empty (rs_file_allow (pr_rules pref)))"
    and "\<not> check_within_workspace g p"
  shows "cr_action (check g (pref\<lparr>pr_mode := Strict\<rparr>) c tool p) = Allow \<and>
    cr_action (check g (pref\<lparr>pr_mode := Balanced\<rparr>) c tool p) = Ask"
proof -
  have same: "action_rule_for g (pref\<lparr>pr_mode := m\<rparr>) tool = None" "check_deny_overrides g (pref\<lparr>pr_mode := m\<rparr>) c p = None" for m
    using assms(3,5) deny_overrides_cong [of "pref\<lparr>pr_mode := m\<rparr>" pref g c p] by (simp_all add: action_rule_for_def)
  have "evaluate_strict (pref\<lparr>pr_mode := Strict\<rparr>) c p = result Allow Agent_config c"
    using assms(2) by (auto simp: evaluate_strict_def named_config_def)
  moreover have "cr_action (evaluate_balanced g (pref\<lparr>pr_mode := Balanced\<rparr>) c p) = Ask"
    using assms(2,6,7) by (auto simp: named_config_def)
  ultimately show ?thesis
    using assms(1,4) same by (simp add: check_cases mode_refuses_def evaluate_mode_def)
qed

lemma docker_config_outside:
  "\<not> check_within_workspace sample_guard (no_params\<lparr>tp_path := Some ''/home/u/.docker/config.json''\<rparr>)"
proof -
  have abs: "resolve symlink_host [''/w'', ''/home/u/.docker/config.json''] = ''/home/u/.docker/config.json''"
    "resolve symlink_host [''/home/u/.docker/config.json''] = ''/home/u/.docker/config.json''"
    by (simp_all add: path_resolve_def resolved_segments_def cwd_path_def is_absolute_def starts_with_def)
  have up: "path_dirname ''/home/u/.docker/config.json'' = ''/home/u/.docker''"
    "path_dirname ''/home/u/.docker'' = ''/home/u''" "path_dirname ''/home/u'' = ''/home''" "path_dirname ''/home'' = ''/''"
    "path_dirname ''/'' = ''/''"
    by (simp_all add: path_dirname_def)
  have host: "\<not> file_exists symlink_host ''/home/u/.docker/config.json''" "\<not> file_exists symlink_host ''/home/u/.docker''"
    "\<not> file_exists symlink_host ''/home/u''" "\<not> file_exists symlink_host ''/home''"
    "realpath symlink_host ''/'' = Some ''/''" "realpath symlink_host ''/home/u/.docker/config.json'' = None"
    by (simp_all add: symlink_host_def)
  have "nearest_existing symlink_host ''/home/u/.docker/config.json'' [] = (''/'', ''home/u/.docker/config.json'')"
    by (simp add: nearest_existing.simps up host)
  then have canonical: "canonical_path symlink_host ''/home/u/.docker/config.json'' = ''/home/u/.docker/config.json''"
    by (simp add: canonical_path_def abs host)
  have "location symlink_host ''/w'' = [''w'']"
    "location symlink_host ''/home/u/.docker/config.json'' = [''home'', ''u'', ''.docker'', ''config.json'']"
    by (simp_all add: location_def resolved_segments_absolute normalize_for_compare_def)
  then show ?thesis
    by (simp add: check_within_workspace_def is_within_any_canonical_root_def param_def abs canonical is_within_root_iff)
qed

lemma docker_config_open:
  "check_hard_blocked sample_guard Cat_file_write (no_params\<lparr>tp_path := Some ''/home/u/.docker/config.json''\<rparr>) = None"
proof -
  have "resolve symlink_host [''/w'', ''/home/u/.docker/config.json''] = ''/home/u/.docker/config.json''"
    by (simp add: path_resolve_def resolved_segments_def cwd_path_def is_absolute_def starts_with_def)
  then show ?thesis
    by (simp add: check_hard_blocked_def hard_blocked_prefixes_def param_def homedir_def path_join_def path_normalize_def
        is_absolute_def starts_with_def is_file_category_def Let_def)
qed

theorem strict_trusts_the_name_witness:
  "cr_action (check sample_guard ((plain_preference Strict)\<lparr>pr_mode := Strict\<rparr>) Cat_file_write ''write_file''
      (no_params\<lparr>tp_path := Some ''/home/u/.docker/config.json''\<rparr>)) = Allow"
  using strict_trusts_the_name [of sample_guard Cat_file_write "no_params\<lparr>tp_path := Some ''/home/u/.docker/config.json''\<rparr>"
      "plain_preference Strict" "''write_file''"] docker_config_outside docker_config_open
  by (simp add: named_config_def agent_config_files_def ends_with_def param_def action_rule_for_def default_action_rules_def)

end
