(* ===== verification/Permission_Approval.thy ===== *)
theory Permission_Approval
  imports Permission_Policy
begin

text \<open>
  The approval half of \<^verbatim>\<open>packages/agent-runtime/src/permission-engine.ts\<close>: a person is asked, answers, is too
  late or cannot be reached; what an answer is worth for later calls; which rules outlive the process. And the
  gate on work another of the person's runtimes asks for, \<^verbatim>\<open>remote-device-guard.ts\<close>.

  An engine is a record, an operation maps it to the next. A call of \<^verbatim>\<open>requestApprovalOutcome\<close> is numbered in
  order; its number stands for its promise and for its timer, which is live while it is in \<open>en_timers\<close>. What
  the engine cannot know comes with the operation: the random id of a request, whether the stream takes an event
  (\<^verbatim>\<open>sendSseEvent\<close> throws when it does not), whether the rules file can be written and the time it is written
  at. \<open>en_disk\<close> is \<^verbatim>\<open>.shogo/permissions.json\<close>: its modification time and its rules, \<open>None\<close> when it holds no JSON
  object; anybody may write it. \<open>en_log\<close> is what an observer of the engine has seen.
\<close>

datatype approval_outcome = Approved | Denied | Timed_out | Unavailable

datatype approval_origin = Local_origin | Remote_origin

datatype approval_decision = Allow_once | Always_allow | Deny_once

record approval_request =
  ar_tool :: string
  ar_category :: permission_category
  ar_params :: tool_params
  ar_reason :: "check_reason option"
  ar_timeout :: nat

record pending_approval =
  pa_call :: nat
  pa_key :: "string option"
  pa_category :: permission_category
  pa_origin :: approval_origin
  pa_request :: approval_request

datatype happening =
    Asked nat string tool_params approval_origin
  | Shown nat approval_origin
  | Answered nat approval_decision
  | Settled nat approval_outcome
  | New_turn

record engine =
  en_guard :: guard
  en_pref :: preference
  en_sse :: "nat option"
  en_pending :: "(string, pending_approval) ordmap"
  en_queued :: "(string, pending_approval) ordmap"
  en_cache :: "(string, bool) ordmap"
  en_denials :: nat
  en_mtime :: int
  en_disk :: "(int \<times> rule_set option) option"
  en_timers :: "(nat, string \<times> approval_origin) ordmap"
  en_calls :: nat
  en_log :: "happening list"

section \<open>Preferences and persisted rules\<close>

definition empty_rules :: rule_set where
  "empty_rules = no_rules"

definition default_security_preference :: preference where
  "default_security_preference =
     \<lparr>pr_mode = Full_autonomy, pr_local = None, pr_rules = empty_rules, pr_timeout = Some 30\<rparr>"

definition default_cloud_security_preference :: preference where
  "default_cloud_security_preference =
     \<lparr>pr_mode = Full_autonomy, pr_local = None, pr_rules = empty_rules, pr_timeout = Some 900\<rparr>"

definition union_rules :: "rule_set \<Rightarrow> rule_set \<Rightarrow> rule_set" where
  "union_rules r persisted =
     \<lparr>rs_actions = merge_action_rules (rs_actions r) (rs_actions persisted),
      rs_shell_allow = Some (merge_unique (rs_shell_allow r) (rs_shell_allow persisted)),
      rs_shell_deny = Some (merge_unique (rs_shell_deny r) (rs_shell_deny persisted)),
      rs_file_allow = Some (merge_unique (rs_file_allow r) (rs_file_allow persisted)),
      rs_file_deny = Some (merge_unique (rs_file_deny r) (rs_file_deny persisted)),
      rs_domains = Some (merge_unique (rs_domains r) (rs_domains persisted)),
      rs_auto_approve = Some (merge_unique (rs_auto_approve r) (rs_auto_approve persisted))\<rparr>"

definition load_persisted_rules :: "engine \<Rightarrow> engine" where
  "load_persisted_rules e =
     (case en_disk e of
        None \<Rightarrow> e
      | Some (mtime, None) \<Rightarrow> e\<lparr>en_mtime := mtime\<rparr>
      | Some (mtime, Some rules) \<Rightarrow>
          e\<lparr>en_mtime := mtime, en_pref := (en_pref e)\<lparr>pr_rules := union_rules (pr_rules (en_pref e)) rules\<rparr>\<rparr>)"

definition persist_rules :: "int \<Rightarrow> bool \<Rightarrow> engine \<Rightarrow> engine" where
  "persist_rules now written e =
     (if written then e\<lparr>en_disk := Some (now, Some (pr_rules (en_pref e)))\<rparr> else e)"

definition new_engine :: "guard \<Rightarrow> preference \<Rightarrow> (int \<times> rule_set option) option \<Rightarrow> engine" where
  "new_engine g pref disk =
     load_persisted_rules
       \<lparr>en_guard = g, en_pref = pref, en_sse = None, en_pending = [], en_queued = [], en_cache = [],
        en_denials = 0, en_mtime = 0, en_disk = disk, en_timers = [], en_calls = 0, en_log = []\<rparr>"

definition update_preference ::
  "security_mode option \<Rightarrow> local_access_policy option option \<Rightarrow> rule_set option \<Rightarrow> nat option option \<Rightarrow> engine \<Rightarrow> engine" where
  "update_preference mode access rules timeout e =
     (let p = en_pref e
      in e\<lparr>en_pref :=
             \<lparr>pr_mode = (case mode of Some m \<Rightarrow> m | None \<Rightarrow> pr_mode p),
              pr_local = (case access of Some a \<Rightarrow> a | None \<Rightarrow> pr_local p),
              pr_rules = (case rules of Some r \<Rightarrow> r | None \<Rightarrow> pr_rules p),
              pr_timeout = (case timeout of Some t \<Rightarrow> t | None \<Rightarrow> pr_timeout p)\<rparr>\<rparr>)"

definition set_local_access :: "local_access_policy option \<Rightarrow> engine \<Rightarrow> engine" where
  "set_local_access policy e = e\<lparr>en_pref := (en_pref e)\<lparr>pr_local := policy\<rparr>\<rparr>"

section \<open>Asking\<close>

definition seen :: "happening \<Rightarrow> engine \<Rightarrow> engine" where
  "seen h e = e\<lparr>en_log := en_log e @ [h]\<rparr>"

definition clear_timeout :: "nat \<Rightarrow> engine \<Rightarrow> engine" where
  "clear_timeout c e = e\<lparr>en_timers := om_delete c (en_timers e)\<rparr>"

definition param_cache_key :: "tool_params \<Rightarrow> string" where
  "param_cache_key p =
     (case truthy (tp_command p) of
        Some s \<Rightarrow> s
      | None \<Rightarrow>
          (case truthy (tp_path p) of
             Some s \<Rightarrow> s
           | None \<Rightarrow> (case truthy (tp_name p) of Some s \<Rightarrow> s | None \<Rightarrow> param (tp_url p))))"

definition cache_key :: "string \<Rightarrow> tool_params \<Rightarrow> string" where
  "cache_key tool p = tool @ '':'' @ param_cache_key p"

definition max_denials_per_turn :: nat where
  "max_denials_per_turn = 5"

definition timeout_seconds :: "engine \<Rightarrow> string \<Rightarrow> nat option \<Rightarrow> nat" where
  "timeout_seconds e tool wanted =
     (let configured = (case pr_timeout (en_pref e) of Some t \<Rightarrow> t | None \<Rightarrow> 30);
          cloud = (case pr_timeout default_cloud_security_preference of Some t \<Rightarrow> t | None \<Rightarrow> 0)
      in case wanted of
           Some t \<Rightarrow> t
         | None \<Rightarrow>
             if action_rule_for (en_guard e) (en_pref e) tool = Some Rule_ask then max configured cloud
             else configured)"

definition request_approval_outcome ::
  "string \<Rightarrow> string \<Rightarrow> permission_category \<Rightarrow> tool_params \<Rightarrow> check_reason option \<Rightarrow> approval_origin \<Rightarrow> nat option \<Rightarrow> bool
     \<Rightarrow> engine \<Rightarrow> engine" where
  "request_approval_outcome rid tool c p reason origin wanted sent e0 =
     (let remote = (origin = Remote_origin);
          call = en_calls e0;
          e = seen (Asked call tool p origin) (e0\<lparr>en_calls := Suc call\<rparr>);
          key = (if remote then None else Some (cache_key tool p))
      in case Option.bind key (om_get (en_cache e)) of
           Some answer \<Rightarrow> seen (Settled call (if answer then Approved else Denied)) e
         | None \<Rightarrow>
             if \<not> remote \<and> max_denials_per_turn \<le> en_denials e then seen (Settled call Denied) e
             else
               let request = \<lparr>ar_tool = tool, ar_category = c, ar_params = p, ar_reason = reason,
                              ar_timeout = timeout_seconds e tool wanted\<rparr>;
                   entry = \<lparr>pa_call = call, pa_key = key, pa_category = c, pa_origin = origin, pa_request = request\<rparr>;
                   armed = e\<lparr>en_timers := om_set call (rid, origin) (en_timers e)\<rparr>
               in case en_sse e of
                    None \<Rightarrow>
                      if remote then armed\<lparr>en_queued := om_set rid entry (en_queued armed)\<rparr>
                      else seen (Settled call Unavailable) (clear_timeout call armed)
                  | Some cb \<Rightarrow>
                      let waiting = armed\<lparr>en_pending := om_set rid entry (en_pending armed)\<rparr>
                      in if sent then seen (Shown call origin) waiting
                         else seen (Settled call Unavailable)
                                ((clear_timeout call waiting)\<lparr>en_pending := om_delete rid (en_pending waiting)\<rparr>))"

text \<open>The timer of a call.\<close>

definition timer_fires :: "nat \<Rightarrow> engine \<Rightarrow> engine" where
  "timer_fires call e =
     (case om_get (en_timers e) call of
        None \<Rightarrow> e
      | Some (rid, origin) \<Rightarrow>
          let remote = (origin = Remote_origin)
          in seen (Settled call (if remote then Timed_out else Denied))
               ((clear_timeout call e)
                  \<lparr>en_pending := om_delete rid (en_pending e),
                   en_queued := om_delete rid (en_queued e),
                   en_denials := (if remote then en_denials e else Suc (en_denials e))\<rparr>))"

section \<open>Answering\<close>

definition remember_pattern :: "permission_category \<Rightarrow> string \<Rightarrow> rule_set \<Rightarrow> rule_set" where
  "remember_pattern c pattern r =
     (if is_file_category c then r\<lparr>rs_file_allow := Some (or_empty (rs_file_allow r) @ [pattern])\<rparr>
      else r\<lparr>rs_shell_allow := Some (or_empty (rs_shell_allow r) @ [pattern])\<rparr>)"

definition cache_answer :: "string option \<Rightarrow> bool \<Rightarrow> engine \<Rightarrow> engine" where
  "cache_answer key answer e = (case key of Some k \<Rightarrow> e\<lparr>en_cache := om_set k answer (en_cache e)\<rparr> | None \<Rightarrow> e)"

definition allow_always :: "pending_approval \<Rightarrow> string option \<Rightarrow> int \<Rightarrow> bool \<Rightarrow> engine \<Rightarrow> engine" where
  "allow_always pa pattern now written e =
     (case truthy pattern of
        Some pat \<Rightarrow>
          if pa_origin pa = Local_origin
          then persist_rules now written
                 (e\<lparr>en_pref := (en_pref e)\<lparr>pr_rules := remember_pattern (pa_category pa) pat (pr_rules (en_pref e))\<rparr>\<rparr>)
          else e
      | None \<Rightarrow> e)"

definition handle_approval_response ::
  "string \<Rightarrow> approval_decision \<Rightarrow> string option \<Rightarrow> int \<Rightarrow> bool \<Rightarrow> engine \<Rightarrow> engine" where
  "handle_approval_response rid d pattern now written e0 =
     (case (case om_get (en_pending e0) rid of Some pa \<Rightarrow> Some pa | None \<Rightarrow> om_get (en_queued e0) rid) of
        None \<Rightarrow> e0
      | Some pa \<Rightarrow>
          let call = pa_call pa;
              e = seen (Answered call d)
                    ((clear_timeout call e0)
                       \<lparr>en_pending := om_delete rid (en_pending e0), en_queued := om_delete rid (en_queued e0)\<rparr>)
          in case d of
               Allow_once \<Rightarrow> seen (Settled call Approved) (cache_answer (pa_key pa) True e)
             | Always_allow \<Rightarrow>
                 seen (Settled call Approved) (cache_answer (pa_key pa) True (allow_always pa pattern now written e))
             | Deny_once \<Rightarrow>
                 seen (Settled call Denied)
                   (cache_answer (pa_key pa) False
                      (if pa_origin pa = Local_origin then e\<lparr>en_denials := Suc (en_denials e)\<rparr> else e)))"

section \<open>Streams and turns\<close>

fun deliver_each :: "(string \<Rightarrow> bool) \<Rightarrow> (string \<times> pending_approval) list \<Rightarrow> engine \<Rightarrow> engine" where
  "deliver_each sent [] e = e"
| "deliver_each sent ((rid, pa) # rest) e =
     (let moved = e\<lparr>en_queued := om_delete rid (en_queued e), en_pending := om_set rid pa (en_pending e)\<rparr>
      in deliver_each sent rest
           (if sent rid then seen (Shown (pa_call pa) (pa_origin pa)) moved
            else seen (Settled (pa_call pa) Unavailable)
                   ((clear_timeout (pa_call pa) moved)\<lparr>en_pending := om_delete rid (en_pending moved)\<rparr>)))"

definition deliver_queued_approvals :: "(string \<Rightarrow> bool) \<Rightarrow> engine \<Rightarrow> engine" where
  "deliver_queued_approvals sent e = (if en_sse e = None then e else deliver_each sent (en_queued e) e)"

definition set_sse_callback :: "nat option \<Rightarrow> (string \<Rightarrow> bool) \<Rightarrow> engine \<Rightarrow> engine" where
  "set_sse_callback cb sent e =
     (let e' = e\<lparr>en_sse := cb\<rparr> in if cb \<noteq> None then deliver_queued_approvals sent e' else e')"

definition clear_sse_callback :: "nat \<Rightarrow> engine \<Rightarrow> engine" where
  "clear_sse_callback cb e = (if en_sse e = Some cb then e\<lparr>en_sse := None\<rparr> else e)"

definition list_queued_approvals :: "engine \<Rightarrow> approval_request list" where
  "list_queued_approvals e = map (\<lambda>(_, pa). pa_request pa) (en_queued e)"

fun drop_pending :: "(string \<times> pending_approval) list \<Rightarrow> engine \<Rightarrow> engine" where
  "drop_pending [] e = e"
| "drop_pending ((rid, pa) # rest) e =
     drop_pending rest
       (seen (Settled (pa_call pa) (if pa_origin pa = Remote_origin then Unavailable else Denied))
          (clear_timeout (pa_call pa) e))"

definition reset_turn :: "engine \<Rightarrow> engine" where
  "reset_turn e0 =
     (let e = (case en_disk e0 of
                 Some (mtime, _) \<Rightarrow> if mtime \<noteq> en_mtime e0 then load_persisted_rules e0 else e0
               | None \<Rightarrow> e0);
          cleared = seen New_turn (e\<lparr>en_cache := [], en_denials := 0\<rparr>)
      in (drop_pending (en_pending cleared) cleared)\<lparr>en_pending := []\<rparr>)"

section \<open>Operations as events\<close>

datatype approval_op =
    Op_request string string permission_category tool_params "check_reason option" approval_origin "nat option" bool
  | Op_respond string approval_decision "string option" int bool
  | Op_timer nat
  | Op_stream "nat option" "string \<Rightarrow> bool"
  | Op_drop_stream nat
  | Op_turn
  | Op_update "security_mode option" "local_access_policy option option" "rule_set option" "nat option option"
  | Op_local_access "local_access_policy option"
  | Op_rules_file "(int \<times> rule_set option) option"

fun approval_step :: "approval_op \<Rightarrow> engine \<Rightarrow> engine" where
  "approval_step (Op_request rid tool c p reason origin wanted sent) e =
     request_approval_outcome rid tool c p reason origin wanted sent e"
| "approval_step (Op_respond rid d pattern now written) e = handle_approval_response rid d pattern now written e"
| "approval_step (Op_timer call) e = timer_fires call e"
| "approval_step (Op_stream cb sent) e = set_sse_callback cb sent e"
| "approval_step (Op_drop_stream cb) e = clear_sse_callback cb e"
| "approval_step Op_turn e = reset_turn e"
| "approval_step (Op_update mode access rules timeout) e = update_preference mode access rules timeout e"
| "approval_step (Op_local_access policy) e = set_local_access policy e"
| "approval_step (Op_rules_file disk) e = e\<lparr>en_disk := disk\<rparr>"

section \<open>Gates\<close>

datatype gate = Action_gate | Category_gate permission_category

text \<open>The gates a tool is wrapped in, outermost first; a tool without any is not gated.\<close>

definition is_permission_gated :: "gate list \<Rightarrow> bool" where
  "is_permission_gated gs \<longleftrightarrow> gs \<noteq> []"

definition with_action_rules :: "gate list \<Rightarrow> gate list" where
  "with_action_rules gs = (if is_permission_gated gs then gs else Action_gate # gs)"

definition with_permission_gate :: "permission_category \<Rightarrow> gate list \<Rightarrow> gate list" where
  "with_permission_gate c gs = Category_gate c # gs"

fun gate_check :: "gate \<Rightarrow> guard \<Rightarrow> preference \<Rightarrow> string \<Rightarrow> tool_params \<Rightarrow> check_result option" where
  "gate_check Action_gate g pref tool p = check_action g pref Cat_project tool"
| "gate_check (Category_gate c) g pref tool p = Some (check g pref c tool p)"

datatype gate_verdict = Gate_runs | Gate_denied check_reason | Gate_asks permission_category check_reason

fun gate_verdict_of :: "gate \<Rightarrow> guard \<Rightarrow> preference \<Rightarrow> string \<Rightarrow> tool_params \<Rightarrow> gate_verdict" where
  "gate_verdict_of k g pref tool p =
     (case gate_check k g pref tool p of
        None \<Rightarrow> Gate_runs
      | Some r \<Rightarrow>
          (case cr_action r of
             Deny \<Rightarrow> Gate_denied (cr_reason r)
           | Ask \<Rightarrow> Gate_asks (case k of Category_gate c \<Rightarrow> c | Action_gate \<Rightarrow> Cat_project) (cr_reason r)
           | Allow \<Rightarrow> Gate_runs))"

section \<open>Work from another computer\<close>

definition remote_device_mutating_tools :: "string list" where
  "remote_device_mutating_tools = [''exec'', ''exec_wait'', ''exec_list'', ''write_file'', ''edit_file'', ''delete_file'']"

definition remote_device_approval_category :: "string \<Rightarrow> permission_category" where
  "remote_device_approval_category tool =
     (if tool = ''delete_file'' then Cat_file_delete
      else if tool = ''write_file'' \<or> tool = ''edit_file'' then Cat_file_write
      else Cat_shell)"

datatype remote_guard_code = Tools_disabled | Tool_denied | Approval_unavailable | Approval_timeout

definition remote_approval_timeout_seconds :: nat where
  "remote_approval_timeout_seconds = 60"

definition request_remote_device_approval :: "string \<Rightarrow> string \<Rightarrow> permission_category \<Rightarrow> tool_params \<Rightarrow> bool \<Rightarrow> engine \<Rightarrow> engine" where
  "request_remote_device_approval rid tool c p sent e =
     request_approval_outcome rid tool c p None Remote_origin (Some remote_approval_timeout_seconds) sent e"

text \<open>\<open>None\<close> is \<^verbatim>\<open>{ ok: true }\<close>; \<open>answer\<close> is looked at only when the person is asked.\<close>

definition guard_remote_device_call ::
  "string \<Rightarrow> local_access_policy option \<Rightarrow> approval_outcome \<Rightarrow> remote_guard_code option" where
  "guard_remote_device_call tool policy answer =
     (if Option.bind policy lp_remote_tools \<noteq> Some True then Some Tools_disabled
      else if tool \<notin> set remote_device_mutating_tools then None
      else case answer of
             Approved \<Rightarrow> None
           | Timed_out \<Rightarrow> Some Approval_timeout
           | Unavailable \<Rightarrow> Some Approval_unavailable
           | Denied \<Rightarrow> Some Tool_denied)"

end
