(* ===== verification/Approval_Facts.thy ===== *)
theory Approval_Facts
  imports Permission_Approval
begin

text \<open>
  What runs of the approval machine of \<^verbatim>\<open>Permission_Approval\<close> keep: the books (every call is settled once or has
  its timer running) and the answers (nothing is approved that no person said yes to). The invariants are stated
  on the fields they depend on, so that each operation keeps them by a few moves of the books.
\<close>

section \<open>The books\<close>

definition settled_calls :: "happening list \<Rightarrow> nat list" where
  "settled_calls l = List.map_filter (\<lambda>h. case h of Settled c _ \<Rightarrow> Some c | _ \<Rightarrow> None) l"

lemma settled_calls_simps [simp]:
  "settled_calls [] = []"
  "settled_calls (l @ l') = settled_calls l @ settled_calls l'"
  "settled_calls [Settled c r] = [c]" "settled_calls [Asked c tool p a] = []" "settled_calls [Shown c a] = []"
  "settled_calls [Answered c d] = []" "settled_calls [New_turn] = []"
  by (simp_all add: settled_calls_def map_filter_def)

definition entry_ok :: "(nat, string \<times> approval_origin) ordmap \<Rightarrow> string \<Rightarrow> pending_approval \<Rightarrow> bool" where
  "entry_ok T rid pa \<longleftrightarrow> om_get T (pa_call pa) = Some (rid, pa_origin pa)"

definition books_of ::
  "(string, pending_approval) ordmap \<Rightarrow> (string, pending_approval) ordmap \<Rightarrow> (nat, string \<times> approval_origin) ordmap
     \<Rightarrow> nat \<Rightarrow> happening list \<Rightarrow> bool" where
  "books_of P Q T n l \<longleftrightarrow>
     om_ok P \<and> om_ok Q \<and> om_ok T \<and>
     (\<forall>rid pa. om_get P rid = Some pa \<longrightarrow> entry_ok T rid pa) \<and>
     (\<forall>rid pa. om_get Q rid = Some pa \<longrightarrow> entry_ok T rid pa \<and> pa_origin pa = Remote_origin) \<and>
     (\<forall>rid p q. om_get P rid = Some p \<longrightarrow> om_get Q rid = Some q \<longrightarrow> pa_call p \<noteq> pa_call q) \<and>
     distinct (settled_calls l) \<and>
     (\<forall>c. (om_get T c \<noteq> None \<or> c \<in> set (settled_calls l)) = (c < n)) \<and>
     (\<forall>c. om_get T c \<noteq> None \<longrightarrow> c \<notin> set (settled_calls l))"

lemma books_ofD:
  assumes "books_of P Q T n l"
  shows "om_ok P" "om_ok Q" "om_ok T"
    "om_get P rid = Some pa \<Longrightarrow> entry_ok T rid pa"
    "om_get Q rid = Some pa \<Longrightarrow> entry_ok T rid pa"
    "om_get Q rid = Some pa \<Longrightarrow> pa_origin pa = Remote_origin"
    "om_get P rid = Some p \<Longrightarrow> om_get Q rid = Some q \<Longrightarrow> pa_call p \<noteq> pa_call q"
    "distinct (settled_calls l)"
    "om_get T c \<noteq> None \<or> c \<in> set (settled_calls l) \<longleftrightarrow> c < n"
    "om_get T c \<noteq> None \<Longrightarrow> c \<notin> set (settled_calls l)"
  using assms unfolding books_of_def by blast+

lemma books_log: "books_of P Q T n l \<Longrightarrow> settled_calls l' = [] \<Longrightarrow> books_of P Q T n (l @ l')"
  by (simp add: books_of_def)

lemma books_fresh:
  assumes "books_of P Q T n l"
  shows "om_get T n = None" "n \<notin> set (settled_calls l)"
  using books_ofD(9) [OF assms, of n] less_irrefl by blast+

lemma books_new_settled:
  assumes "books_of P Q T n l" "settled_calls l' = [n]"
  shows "books_of P Q T (Suc n) (l @ l')"
proof -
  note b = books_ofD [OF assms(1)] and fresh = books_fresh [OF assms(1)]
  have "(om_get T d \<noteq> None \<or> d \<in> set (settled_calls (l @ l'))) = (d < Suc n)" for d
    using b(9) [of d] assms(2) unfolding less_Suc_eq by (cases "d = n") (simp_all del: not_None_eq)
  moreover have "d \<notin> set (settled_calls (l @ l'))" if "om_get T d \<noteq> None" for d
    using that b(10) [of d] fresh assms(2) by (auto simp del: not_None_eq)
  moreover have "distinct (settled_calls (l @ l'))" using b(8) fresh assms(2) by simp
  ultimately show ?thesis
    unfolding books_of_def using b(1-7) by blast
qed

lemma books_arm:
  assumes "books_of P Q T n l" "settled_calls l' = []"
  shows "books_of P Q (om_set n x T) (Suc n) (l @ l')"
proof -
  note b = books_ofD [OF assms(1)]
  note fresh = books_fresh [OF assms(1)]
  have other: "entry_ok T rid pa \<Longrightarrow> entry_ok (om_set n x T) rid pa" for rid pa
    using fresh by (auto simp: entry_ok_def)
  show ?thesis
    using assms(1) fresh assms(2) other by (auto simp: books_of_def less_Suc_eq)
qed

text \<open>A call whose timer runs may get an entry; an entry is entered once.\<close>

lemma books_enter_pending:
  assumes "books_of P Q T n l" "entry_ok T rid pa" "\<And>q. om_get Q rid = Some q \<Longrightarrow> pa_call q \<noteq> pa_call pa"
  shows "books_of (om_set rid pa P) Q T n l"
  using assms by (auto simp: books_of_def)

lemma books_enter_queued:
  assumes "books_of P Q T n l" "entry_ok T rid pa" "pa_origin pa = Remote_origin"
    "\<And>q. om_get P rid = Some q \<Longrightarrow> pa_call q \<noteq> pa_call pa"
  shows "books_of P (om_set rid pa Q) T n l"
  using assms by (auto simp: books_of_def)

lemma books_move:
  assumes "books_of P Q T n l" "om_get Q rid = Some pa"
  shows "books_of (om_set rid pa P) (om_delete rid Q) T n l"
  using assms books_ofD(5) [OF assms] by (auto simp: books_of_def)

lemma books_finish:
  assumes "books_of P Q T n l" "om_get T c \<noteq> None" "settled_calls l' = [c]"
    and "om_ok P'" "\<And>rid pa. om_get P' rid = Some pa \<Longrightarrow> om_get P rid = Some pa \<and> pa_call pa \<noteq> c"
    and "om_ok Q'" "\<And>rid pa. om_get Q' rid = Some pa \<Longrightarrow> om_get Q rid = Some pa \<and> pa_call pa \<noteq> c"
  shows "books_of P' Q' (om_delete c T) n (l @ l')"
proof -
  note b = books_ofD [OF assms(1)]
  have c: "c \<notin> set (settled_calls l)" "c < n" using b(9,10) assms(2) by blast+
  have entry: "entry_ok (om_delete c T) rid pa" if "entry_ok T rid pa" "pa_call pa \<noteq> c" for rid pa
    using that by (simp add: entry_ok_def)
  show ?thesis
    unfolding books_of_def
  proof (intro conjI allI impI)
    show "om_ok P'" "om_ok Q'" "om_ok (om_delete c T)" using assms b by simp_all
    show "entry_ok (om_delete c T) rid pa" if "om_get P' rid = Some pa" for rid pa
      using assms(5) [OF that] b(4) entry by blast
    show "entry_ok (om_delete c T) rid pa" "pa_origin pa = Remote_origin" if "om_get Q' rid = Some pa" for rid pa
      using assms(7) [OF that] b(5,6) entry by blast+
    show "pa_call p \<noteq> pa_call q" if "om_get P' rid = Some p" "om_get Q' rid = Some q" for rid p q
      using assms(5) [OF that(1)] assms(7) [OF that(2)] b(7) by blast
    show "distinct (settled_calls (l @ l'))" using b(8) c assms(3) by simp
    show "(om_get (om_delete c T) d \<noteq> None \<or> d \<in> set (settled_calls (l @ l'))) = (d < n)" for d
      using b(9) [of d] c assms(3) by auto
    show "d \<notin> set (settled_calls (l @ l'))" if "om_get (om_delete c T) d \<noteq> None" for d
      using that b(10) [of d] assms(3) by (auto split: if_splits)
  qed
qed

lemma books_drop_id:
  assumes "books_of P Q T n l" "om_get T c = Some (rid, a)" "settled_calls l' = [c]"
  shows "books_of (om_delete rid P) (om_delete rid Q) (om_delete c T) n (l @ l')"
proof (rule books_finish [OF assms(1) _ assms(3)])
  note b = books_ofD [OF assms(1)]
  show "om_get T c \<noteq> None" using assms(2) by simp
  show "om_ok (om_delete rid P)" "om_ok (om_delete rid Q)" using b by simp_all
  fix r pa
  show "om_get P r = Some pa \<and> pa_call pa \<noteq> c" if "om_get (om_delete rid P) r = Some pa"
    using that b(4) [of r pa] assms(2) by (auto simp: entry_ok_def split: if_splits)
  show "om_get Q r = Some pa \<and> pa_call pa \<noteq> c" if "om_get (om_delete rid Q) r = Some pa"
    using that b(5) [of r pa] assms(2) by (auto simp: entry_ok_def split: if_splits)
qed

definition books :: "engine \<Rightarrow> bool" where
  "books e = books_of (en_pending e) (en_queued e) (en_timers e) (en_calls e) (en_log e)"

lemma seen_simps [simp]:
  "en_log (seen h e) = en_log e @ [h]" "en_pending (seen h e) = en_pending e" "en_queued (seen h e) = en_queued e"
  "en_timers (seen h e) = en_timers e" "en_calls (seen h e) = en_calls e" "en_cache (seen h e) = en_cache e"
  "en_denials (seen h e) = en_denials e" "en_pref (seen h e) = en_pref e" "en_guard (seen h e) = en_guard e"
  "en_sse (seen h e) = en_sse e" "en_disk (seen h e) = en_disk e" "en_mtime (seen h e) = en_mtime e"
  by (simp_all add: seen_def)

lemma clear_timeout_simps [simp]:
  "en_log (clear_timeout c e) = en_log e" "en_pending (clear_timeout c e) = en_pending e"
  "en_queued (clear_timeout c e) = en_queued e" "en_timers (clear_timeout c e) = om_delete c (en_timers e)"
  "en_calls (clear_timeout c e) = en_calls e" "en_cache (clear_timeout c e) = en_cache e"
  "en_denials (clear_timeout c e) = en_denials e" "en_pref (clear_timeout c e) = en_pref e"
  "en_guard (clear_timeout c e) = en_guard e" "en_sse (clear_timeout c e) = en_sse e"
  "en_disk (clear_timeout c e) = en_disk e"
  by (simp_all add: clear_timeout_def)

lemma cache_answer_simps [simp]:
  "en_log (cache_answer k b e) = en_log e" "en_pending (cache_answer k b e) = en_pending e"
  "en_queued (cache_answer k b e) = en_queued e" "en_timers (cache_answer k b e) = en_timers e"
  "en_calls (cache_answer k b e) = en_calls e" "en_denials (cache_answer k b e) = en_denials e"
  "en_pref (cache_answer k b e) = en_pref e" "en_disk (cache_answer k b e) = en_disk e"
  by (simp_all add: cache_answer_def split: option.split)

lemma allow_always_simps [simp]:
  "en_log (allow_always pa pat now w e) = en_log e" "en_pending (allow_always pa pat now w e) = en_pending e"
  "en_queued (allow_always pa pat now w e) = en_queued e" "en_timers (allow_always pa pat now w e) = en_timers e"
  "en_calls (allow_always pa pat now w e) = en_calls e" "en_cache (allow_always pa pat now w e) = en_cache e"
  "en_denials (allow_always pa pat now w e) = en_denials e"
  by (simp_all add: allow_always_def persist_rules_def split: option.split)

lemma load_simps [simp]:
  "en_log (load_persisted_rules e) = en_log e" "en_pending (load_persisted_rules e) = en_pending e"
  "en_queued (load_persisted_rules e) = en_queued e" "en_timers (load_persisted_rules e) = en_timers e"
  "en_calls (load_persisted_rules e) = en_calls e" "en_cache (load_persisted_rules e) = en_cache e"
  "en_denials (load_persisted_rules e) = en_denials e" "en_guard (load_persisted_rules e) = en_guard e"
  by (simp_all add: load_persisted_rules_def split: option.split prod.split)

lemma books_request:
  assumes "books e"
  shows "books (request_approval_outcome rid tool c p reason a wanted sent e)"
proof -
  let ?n = "en_calls e" and ?ask = "Asked (en_calls e) tool p a"
  have b: "books_of (en_pending e) (en_queued e) (en_timers e) ?n (en_log e)"
    using assms by (simp add: books_def)
  note settled = books_new_settled [OF b, of "[?ask, Settled ?n r]" for r]
  have armed: "books_of (en_pending e) (en_queued e) (om_set ?n (rid, a) (en_timers e)) (Suc ?n) (en_log e @ [?ask])"
    by (rule books_arm [OF b]) simp
  have old: "pa_call q \<noteq> ?n" if "om_get (en_pending e) r = Some q \<or> om_get (en_queued e) r = Some q" for r q
    using that books_ofD(4,5) [OF b, of r q] books_ofD(9) [OF b, of ?n] by (auto simp: entry_ok_def)
  have failed: "books_of P' (en_queued e) (om_delete ?n (om_set ?n (rid, a) (en_timers e))) (Suc ?n)
      ((en_log e @ [?ask]) @ [Settled ?n r])"
    if "P' = en_pending e \<or> (\<exists>pa. P' = om_delete rid (om_set rid pa (en_pending e)))" for P' r
  proof (rule books_finish [OF armed])
    show "om_ok P'" using that books_ofD(1) [OF b] by auto
    show "om_ok (en_queued e)" using books_ofD(2) [OF b] .
    show "om_get (en_pending e) x = Some pa \<and> pa_call pa \<noteq> ?n" if "om_get P' x = Some pa" for x pa
      using that old [of x pa] \<open>P' = en_pending e \<or> _\<close> by (auto split: if_splits)
    show "om_get (en_queued e) x = Some pa \<and> pa_call pa \<noteq> ?n" if "om_get (en_queued e) x = Some pa" for x pa
      using that old [of x pa] by auto
  qed simp_all
  have pend: "books_of (om_set rid pa (en_pending e)) (en_queued e) (om_set ?n (rid, a) (en_timers e)) (Suc ?n)
      ((en_log e @ [?ask]) @ [Shown ?n a])" if "pa_call pa = ?n" "pa_origin pa = a" for pa
    by (rule books_log, rule books_enter_pending [OF armed]) (use that old in \<open>auto simp: entry_ok_def\<close>)
  have queue: "books_of (en_pending e) (om_set rid pa (en_queued e)) (om_set ?n (rid, a) (en_timers e)) (Suc ?n)
      (en_log e @ [?ask])" if "pa_call pa = ?n" "pa_origin pa = a" "a = Remote_origin" for pa
    by (rule books_enter_queued [OF armed]) (use that old in \<open>auto simp: entry_ok_def\<close>)
  have settled': "books_of (en_pending e) (en_queued e) (en_timers e) (Suc ?n) (en_log e @ [?ask, Settled ?n r])" for r
    by (rule settled) (simp add: settled_calls_def map_filter_def)
  show ?thesis
    using settled' failed pend queue
    by (auto simp: request_approval_outcome_def books_def Let_def split: option.split)
qed

lemma books_timer:
  assumes "books e"
  shows "books (timer_fires call e)"
proof (cases "om_get (en_timers e) call")
  case None
  with assms show ?thesis by (simp add: timer_fires_def)
next
  case (Some x)
  obtain rid a where x: "x = (rid, a)" by (cases x)
  with assms Some show ?thesis
    by (simp add: timer_fires_def books_def Let_def books_drop_id)
qed

lemma books_response:
  assumes "books e"
  shows "books (handle_approval_response rid d pattern now written e)"
proof (cases "case om_get (en_pending e) rid of Some pa \<Rightarrow> Some pa | None \<Rightarrow> om_get (en_queued e) rid")
  case None
  then show ?thesis using assms by (simp add: handle_approval_response_def)
next
  case (Some pa)
  have b: "books_of (en_pending e) (en_queued e) (en_timers e) (en_calls e) (en_log e)"
    using assms by (simp add: books_def)
  have "om_get (en_timers e) (pa_call pa) = Some (rid, pa_origin pa)"
    using Some books_ofD(4,5) [OF b, of rid pa] by (auto simp: entry_ok_def split: option.splits)
  from books_drop_id [OF b this]
  have "books_of (om_delete rid (en_pending e)) (om_delete rid (en_queued e)) (om_delete (pa_call pa) (en_timers e))
      (en_calls e) (en_log e @ [Answered (pa_call pa) d', Settled (pa_call pa) r])" for d' r
    by (simp add: settled_calls_def map_filter_def)
  with Some show ?thesis
    by (simp add: handle_approval_response_def books_def Let_def split: approval_decision.split)
qed

lemma books_deliver: "books e \<Longrightarrow> en_queued e = L \<Longrightarrow> books (deliver_each sent L e)"
proof (induction sent L e rule: deliver_each.induct)
  case (2 sent rid pa rest e)
  have b: "books_of (en_pending e) ((rid, pa) # rest) (en_timers e) (en_calls e) (en_log e)"
    using 2 by (simp add: books_def)
  have rest: "om_delete rid ((rid, pa) # rest) = rest"
    using books_ofD(2) [OF b] by (simp add: om_ok_def delete_idem)
  have moved: "books_of (om_set rid pa (en_pending e)) rest (en_timers e) (en_calls e) (en_log e)"
    using books_move [OF b, of rid pa] rest by simp
  have timer: "om_get (en_timers e) (pa_call pa) = Some (rid, pa_origin pa)"
    using books_ofD(5) [OF b, of rid pa] by (simp add: entry_ok_def)
  have notin: "om_get rest rid = None"
    using books_ofD(2) [OF b] by (auto simp: om_ok_def map_of_eq_None_iff)
  have failed: "books_of (om_delete rid (om_set rid pa (en_pending e))) (om_delete rid rest)
      (om_delete (pa_call pa) (en_timers e)) (en_calls e) (en_log e @ [Settled (pa_call pa) Unavailable])"
    by (rule books_drop_id [OF moved timer]) simp
  have "om_delete rid rest = rest"
    using notin by (simp add: delete_idem map_of_eq_None_iff)
  with failed books_log [OF moved, of "[Shown (pa_call pa) (pa_origin pa)]"] 2 rest show ?case
    by (auto simp: books_def Let_def)
qed simp

lemma drop_pending_simps [simp]:
  "en_queued (drop_pending L e) = en_queued e" "en_calls (drop_pending L e) = en_calls e"
  "en_cache (drop_pending L e) = en_cache e" "en_denials (drop_pending L e) = en_denials e"
  "en_pref (drop_pending L e) = en_pref e" "en_disk (drop_pending L e) = en_disk e"
  "en_guard (drop_pending L e) = en_guard e"
  by (induction L e rule: drop_pending.induct) simp_all

lemma books_drop_pending:
  "books_of L (en_queued e) (en_timers e) (en_calls e) (en_log e) \<Longrightarrow>
   books_of [] (en_queued e) (en_timers (drop_pending L e)) (en_calls e) (en_log (drop_pending L e))"
proof (induction L e rule: drop_pending.induct)
  case (2 rid pa rest e)
  note b = 2(2)
  have timer: "om_get (en_timers e) (pa_call pa) = Some (rid, pa_origin pa)"
    using books_ofD(4) [OF b, of rid pa] by (simp add: entry_ok_def)
  have fresh: "om_get rest rid = None" and ok: "om_ok rest"
    using books_ofD(1) [OF b] by (auto simp: om_ok_def map_of_eq_None_iff)
  have "books_of rest (en_queued e) (om_delete (pa_call pa) (en_timers e)) (en_calls e)
      (en_log e @ [Settled (pa_call pa) r])" for r
  proof (rule books_finish [OF b])
    show "om_ok rest" by (rule ok)
    show "om_ok (en_queued e)" using books_ofD(2) [OF b] .
    show "om_get ((rid, pa) # rest) x = Some q \<and> pa_call q \<noteq> pa_call pa" if "om_get rest x = Some q" for x q
    proof -
      from that fresh have ne: "x \<noteq> rid" by auto
      with that have "om_get ((rid, pa) # rest) x = Some q" by simp
      with books_ofD(4) [OF b this] timer ne show ?thesis by (auto simp: entry_ok_def)
    qed
    show "om_get (en_queued e) x = Some q \<and> pa_call q \<noteq> pa_call pa" if "om_get (en_queued e) x = Some q" for x q
      using that books_ofD(5) [OF b that] books_ofD(7) [OF b, of x pa q] timer by (auto simp: entry_ok_def)
  qed (use timer in simp_all)
  with "2.IH" show ?case by simp
qed simp

lemma books_reset: "books e \<Longrightarrow> books (reset_turn e)"
proof -
  assume b: "books e"
  define r where "r = (case en_disk e of Some (mtime, _) \<Rightarrow> if mtime \<noteq> en_mtime e then load_persisted_rules e else e | None \<Rightarrow> e)"
  define q where "q = seen New_turn (r\<lparr>en_cache := [], en_denials := 0\<rparr>)"
  have "books_of (en_pending q) (en_queued q) (en_timers q) (en_calls q) (en_log q)"
    using b unfolding q_def r_def by (auto simp: books_def intro!: books_log split: option.split prod.split)
  from books_drop_pending [OF this] show ?thesis
    by (simp add: reset_turn_def books_def q_def r_def Let_def)
qed

lemma books_settings:
  "books e \<Longrightarrow> books (clear_sse_callback cb e)"
  "books e \<Longrightarrow> books (update_preference mode access rules timeout e)"
  "books e \<Longrightarrow> books (set_local_access policy e)"
  by (auto simp: books_def clear_sse_callback_def update_preference_def set_local_access_def Let_def)

lemma books_step: "books e \<Longrightarrow> books (approval_step x e)"
proof (cases x)
  case (Op_stream cb sent)
  assume b: "books e"
  then have "books (e\<lparr>en_sse := cb\<rparr>)" by (simp add: books_def)
  with Op_stream b books_deliver [of "e\<lparr>en_sse := cb\<rparr>" "en_queued e" sent] show ?thesis
    by (cases cb) (simp_all add: set_sse_callback_def deliver_queued_approvals_def Let_def)
qed (simp_all add: books_request books_response books_timer books_reset books_settings, simp add: books_def)

lemma books_new: "books (new_engine g pref disk)"
  by (simp add: books_def new_engine_def books_of_def)

interpretation approval_books: machine approval_step books
  by unfold_locales (rule books_step)

lemma count_list_distinct: "distinct xs \<Longrightarrow> count_list xs c = (if c \<in> set xs then 1 else 0)"
  by (induction xs) auto

lemma settled_once:
  assumes "books e" "c < en_calls e"
  shows "count_list (settled_calls (en_log e)) c = (if om_get (en_timers e) c = None then 1 else 0)"
proof -
  have b: "books_of (en_pending e) (en_queued e) (en_timers e) (en_calls e) (en_log e)"
    using assms by (simp add: books_def)
  show ?thesis
  proof (cases "om_get (en_timers e) c = None")
    case True
    with books_ofD(9) [OF b, of c] assms(2) have "c \<in> set (settled_calls (en_log e))" by blast
    with True books_ofD(8) [OF b] show ?thesis by (simp add: count_list_distinct)
  next
    case False
    with books_ofD(10) [OF b, of c] books_ofD(8) [OF b] show ?thesis by (simp add: count_list_distinct del: not_None_eq)
  qed
qed

text \<open>C11: 
  Every call is answered: after any operations a call that was made is settled exactly once, unless its timer is
  still running, and then it is not settled yet and the timer settles it.
\<close>

theorem every_call_answered:
  assumes run: "e = fold approval_step ops (new_engine g pref disk)" and "c < en_calls e"
  shows "count_list (settled_calls (en_log e)) c = (if om_get (en_timers e) c = None then 1 else 0) \<and>
    count_list (settled_calls (en_log (timer_fires c e))) c = 1"
proof -
  have e: "books e"
    unfolding run by (rule approval_books.run_inv [OF books_new])
  have "en_calls (timer_fires c e) = en_calls e" "om_get (en_timers (timer_fires c e)) c = None"
    by (simp_all add: timer_fires_def Let_def split: option.split prod.split)
  with settled_once [OF e assms(2)] settled_once [OF books_timer [OF e], of c] assms(2) show ?thesis by simp
qed

section \<open>The answers\<close>

definition asked_calls :: "happening list \<Rightarrow> nat list" where
  "asked_calls l = List.map_filter (\<lambda>h. case h of Asked c _ _ _ \<Rightarrow> Some c | _ \<Rightarrow> None) l"

lemma asked_calls_simps [simp]:
  "asked_calls [] = []" "asked_calls (l @ l') = asked_calls l @ asked_calls l'"
  "asked_calls [Asked c tool p a] = [c]" "asked_calls [Settled c r] = []" "asked_calls [Shown c a] = []"
  "asked_calls [Answered c d] = []" "asked_calls [New_turn] = []"
  by (simp_all add: asked_calls_def map_filter_def)

lemma asked_calls_member: "Asked c tool p a \<in> set l \<Longrightarrow> c \<in> set (asked_calls l)"
  by (force simp: asked_calls_def map_filter_def)

definition since_turn :: "happening list \<Rightarrow> happening list" where
  "since_turn l = rev (takeWhile (\<lambda>h. h \<noteq> New_turn) (rev l))"

lemma since_turn_snoc [simp]: "since_turn (l @ [h]) = (if h = New_turn then [] else since_turn l @ [h])"
  by (simp add: since_turn_def)

text \<open>A person said yes, in this turn, to a call of this computer's own agent with this key.\<close>

definition granted :: "happening list \<Rightarrow> string \<Rightarrow> bool" where
  "granted l k \<longleftrightarrow>
     (\<exists>c tool p d. Asked c tool p Local_origin \<in> set l \<and> cache_key tool p = k \<and> d \<noteq> Deny_once \<and>
        Answered c d \<in> set (since_turn l))"

definition said_yes :: "happening list \<Rightarrow> nat \<Rightarrow> bool" where
  "said_yes l c \<longleftrightarrow> (\<exists>d. d \<noteq> Deny_once \<and> Answered c d \<in> set l)"

definition justified :: "happening list \<Rightarrow> nat \<Rightarrow> bool" where
  "justified l c \<longleftrightarrow> said_yes l c \<or> (\<exists>tool p. Asked c tool p Local_origin \<in> set l \<and> granted l (cache_key tool p))"

definition approvals_ok :: "happening list \<Rightarrow> bool" where
  "approvals_ok l \<longleftrightarrow> (\<forall>xs c ys. l = xs @ Settled c Approved # ys \<longrightarrow> justified xs c)"

lemma approvals_ok_snoc:
  "approvals_ok (l @ [h]) \<longleftrightarrow> approvals_ok l \<and> (\<forall>c. h = Settled c Approved \<longrightarrow> justified l c)"
proof -
  have "(\<exists>xs ys. l @ [h] = xs @ Settled c Approved # ys \<and> \<not> justified xs c) \<longleftrightarrow>
      (\<exists>xs ys. l = xs @ Settled c Approved # ys \<and> \<not> justified xs c) \<or> (h = Settled c Approved \<and> \<not> justified l c)" for c
  proof
    assume "\<exists>xs ys. l @ [h] = xs @ Settled c Approved # ys \<and> \<not> justified xs c"
    then obtain xs ys where eq: "l @ [h] = xs @ Settled c Approved # ys" and no: "\<not> justified xs c" by blast
    then show "(\<exists>xs ys. l = xs @ Settled c Approved # ys \<and> \<not> justified xs c) \<or> (h = Settled c Approved \<and> \<not> justified l c)"
      by (cases ys rule: rev_cases) auto
  next
    assume "(\<exists>xs ys. l = xs @ Settled c Approved # ys \<and> \<not> justified xs c) \<or> (h = Settled c Approved \<and> \<not> justified l c)"
    then show "\<exists>xs ys. l @ [h] = xs @ Settled c Approved # ys \<and> \<not> justified xs c"
    proof
      assume "\<exists>xs ys. l = xs @ Settled c Approved # ys \<and> \<not> justified xs c"
      then obtain xs ys where "l = xs @ Settled c Approved # ys" "\<not> justified xs c" by blast
      then show ?thesis by (intro exI [of _ xs] exI [of _ "ys @ [h]"]) simp
    qed auto
  qed
  then show ?thesis unfolding approvals_ok_def by blast
qed

lemma granted_snoc: "granted l k \<Longrightarrow> h \<noteq> New_turn \<Longrightarrow> granted (l @ [h]) k"
  by (auto simp: granted_def)

definition entry_asked :: "happening list \<Rightarrow> pending_approval \<Rightarrow> bool" where
  "entry_asked l pa \<longleftrightarrow>
     (\<exists>tool p. Asked (pa_call pa) tool p (pa_origin pa) \<in> set l \<and>
        pa_key pa = (if pa_origin pa = Remote_origin then None else Some (cache_key tool p)))"

lemma entry_asked_snoc: "entry_asked l pa \<Longrightarrow> entry_asked (l @ l') pa"
  unfolding entry_asked_def set_append by blast

definition answers_of ::
  "(string, pending_approval) ordmap \<Rightarrow> (string, pending_approval) ordmap \<Rightarrow> (string, bool) ordmap \<Rightarrow> nat
     \<Rightarrow> happening list \<Rightarrow> bool" where
  "answers_of P Q K n l \<longleftrightarrow>
     (\<forall>rid pa. om_get P rid = Some pa \<longrightarrow> entry_asked l pa) \<and>
     (\<forall>rid pa. om_get Q rid = Some pa \<longrightarrow> entry_asked l pa) \<and>
     (\<forall>k. om_get K k = Some True \<longrightarrow> granted l k) \<and>
     approvals_ok l \<and> distinct (asked_calls l) \<and> (\<forall>c \<in> set (asked_calls l). c < n)"

lemma answers_log:
  assumes "answers_of P Q K n l" "asked_calls [h] = []" "h \<noteq> New_turn" "\<And>c. h = Settled c Approved \<Longrightarrow> justified l c"
  shows "answers_of P Q K n (l @ [h])"
  using assms granted_snoc [OF _ assms(3)] by (auto simp: answers_of_def approvals_ok_snoc intro: entry_asked_snoc)

lemma answers_ask:
  assumes "answers_of P Q K n l"
  shows "answers_of P Q K (Suc n) (l @ [Asked n tool p a])"
  using assms granted_snoc [of l _ "Asked n tool p a"]
  by (auto simp: answers_of_def approvals_ok_snoc intro: entry_asked_snoc)

lemma answers_turn: "answers_of P Q K n l \<Longrightarrow> answers_of P Q [] n (l @ [New_turn])"
  by (auto simp: answers_of_def approvals_ok_snoc intro: entry_asked_snoc)

lemma answers_pending: "answers_of P Q K n l \<Longrightarrow> entry_asked l pa \<Longrightarrow> answers_of (om_set rid pa P) Q K n l"
  by (simp add: answers_of_def)

lemma answers_queued: "answers_of P Q K n l \<Longrightarrow> entry_asked l pa \<Longrightarrow> answers_of P (om_set rid pa Q) K n l"
  by (simp add: answers_of_def)

lemma answers_drop:
  "answers_of P Q K n l \<Longrightarrow> answers_of (om_delete rid P) Q K n l"
  "answers_of P Q K n l \<Longrightarrow> answers_of P (om_delete rid Q) K n l"
  "answers_of P Q K n l \<Longrightarrow> answers_of [] Q K n l"
  by (simp_all add: answers_of_def)

lemma answers_yes: "answers_of P Q K n l \<Longrightarrow> granted l k \<Longrightarrow> answers_of P Q (om_set k True K) n l"
  by (simp add: answers_of_def)

lemma answers_no: "answers_of P Q K n l \<Longrightarrow> answers_of P Q (om_set k False K) n l"
  by (simp add: answers_of_def)

definition answers :: "engine \<Rightarrow> bool" where
  "answers e = answers_of (en_pending e) (en_queued e) (en_cache e) (en_calls e) (en_log e)"

lemma answers_request:
  assumes "answers e"
  shows "answers (request_approval_outcome rid tool c p reason a wanted sent e)"
proof -
  let ?n = "en_calls e" and ?l = "en_log e @ [Asked (en_calls e) tool p a]"
  have l: "answers_of (en_pending e) (en_queued e) (en_cache e) (Suc ?n) ?l"
    using answers_ask assms by (simp add: answers_def)
  have other: "answers_of (en_pending e) (en_queued e) (en_cache e) (Suc ?n) (?l @ [Settled ?n r])" if "r \<noteq> Approved" for r
    by (rule answers_log [OF l]) (use that in simp_all)
  have hit: "answers_of (en_pending e) (en_queued e) (en_cache e) (Suc ?n) (?l @ [Settled ?n Approved])"
    if "a = Local_origin" "om_get (en_cache e) (cache_key tool p) = Some True"
  proof (rule answers_log [OF l])
    have "granted ?l (cache_key tool p)"
      using l that(2) by (simp add: answers_of_def)
    with that(1) show "\<And>c. Settled ?n Approved = Settled c Approved \<Longrightarrow> justified ?l c"
      by (auto simp: justified_def)
  qed simp_all
  have entry: "entry_asked ?l pa"
    if "pa_call pa = ?n" "pa_origin pa = a" "pa_key pa = (if a = Remote_origin then None else Some (cache_key tool p))" for pa
    using that by (auto simp: entry_asked_def)
  have shown: "answers_of (om_set rid pa (en_pending e)) (en_queued e) (en_cache e) (Suc ?n) (?l @ [Shown ?n a])"
    if "entry_asked ?l pa" for pa
    by (rule answers_log [OF answers_pending [OF l that]]) simp_all
  have queue: "answers_of (en_pending e) (om_set rid pa (en_queued e)) (en_cache e) (Suc ?n) ?l"
    if "entry_asked ?l pa" for pa
    by (rule answers_queued [OF l that])
  have failed: "answers_of (om_delete rid (om_set rid pa (en_pending e))) (en_queued e) (en_cache e) (Suc ?n)
      (?l @ [Settled ?n Unavailable])" if "entry_asked ?l pa" for pa
    by (rule answers_log [OF answers_drop(1) [OF answers_pending [OF l that]]]) simp_all
  show ?thesis
    using other hit entry shown queue failed
    by (cases a) (auto simp: request_approval_outcome_def answers_def Let_def split: option.split)
qed

lemma answers_timer: "answers e \<Longrightarrow> answers (timer_fires call e)"
  by (auto simp: timer_fires_def answers_def Let_def split: option.split intro!: answers_log answers_drop)

definition with_answer :: "string option \<Rightarrow> bool \<Rightarrow> (string, bool) ordmap \<Rightarrow> (string, bool) ordmap" where
  "with_answer key answer K = (case key of Some k \<Rightarrow> om_set k answer K | None \<Rightarrow> K)"

lemma cache_answer_cache [simp]: "en_cache (cache_answer key b e) = with_answer key b (en_cache e)"
  by (simp add: cache_answer_def with_answer_def split: option.split)

lemma answers_response:
  assumes "answers e"
  shows "answers (handle_approval_response rid d pattern now written e)"
proof (cases "case om_get (en_pending e) rid of Some pa \<Rightarrow> Some pa | None \<Rightarrow> om_get (en_queued e) rid")
  case None
  then show ?thesis using assms by (simp add: handle_approval_response_def)
next
  case (Some pa)
  let ?l = "\<lambda>d. en_log e @ [Answered (pa_call pa) d]"
  have a: "answers_of (om_delete rid (en_pending e)) (om_delete rid (en_queued e)) (en_cache e) (en_calls e) (?l d)" for d
    by (intro answers_log answers_drop) (use assms in \<open>simp_all add: answers_def\<close>)
  have asked: "entry_asked (en_log e) pa"
    using assms Some by (auto simp: answers_def answers_of_def split: option.splits)
  have yes: "justified (?l d) (pa_call pa)" if "d \<noteq> Deny_once" for d
    using that by (auto simp: justified_def said_yes_def)
  have grant: "granted (?l d) k" if "d \<noteq> Deny_once" "pa_key pa = Some k" for d k
  proof -
    from asked that(2) obtain tool p where "Asked (pa_call pa) tool p Local_origin \<in> set (en_log e)" "k = cache_key tool p"
      by (cases "pa_origin pa") (auto simp: entry_asked_def)
    with that(1) show ?thesis
      unfolding granted_def by (intro exI [of _ "pa_call pa"] exI [of _ tool] exI [of _ p] exI [of _ d]) simp
  qed
  have ok: "answers_of (om_delete rid (en_pending e)) (om_delete rid (en_queued e))
      (with_answer (pa_key pa) True (en_cache e)) (en_calls e)
      (?l d @ [Settled (pa_call pa) Approved])" if "d \<noteq> Deny_once" for d
    by (rule answers_log) (use a grant that yes in \<open>auto simp: with_answer_def intro!: answers_yes split: option.split\<close>)
  have no: "answers_of (om_delete rid (en_pending e)) (om_delete rid (en_queued e))
      (with_answer (pa_key pa) False (en_cache e)) (en_calls e)
      (?l d @ [Settled (pa_call pa) Denied])" for d
    by (rule answers_log) (use a in \<open>auto simp: with_answer_def intro!: answers_no split: option.split\<close>)
  show ?thesis
    using Some ok no by (simp add: handle_approval_response_def answers_def Let_def split: approval_decision.split)
qed

lemma answers_deliver:
  "answers e \<Longrightarrow> \<forall>(rid, pa) \<in> set L. entry_asked (en_log e) pa \<Longrightarrow> answers (deliver_each sent L e)"
proof (induction sent L e rule: deliver_each.induct)
  case (2 sent rid pa rest e)
  have asked: "entry_asked (en_log e) pa" using 2(3) by simp
  have moved: "answers_of (om_set rid pa (en_pending e)) (om_delete rid (en_queued e)) (en_cache e) (en_calls e) (en_log e)"
    using 2(2) asked by (simp add: answers_def answers_pending answers_drop)
  have rest: "\<forall>(rid, pa) \<in> set rest. entry_asked (en_log e @ [h]) pa" for h
    using 2(3) by (auto intro: entry_asked_snoc)
  show ?case
    using 2(1) rest answers_log [OF moved, of "Shown (pa_call pa) (pa_origin pa)"]
      answers_log [OF answers_drop(1) [OF moved], of "Settled (pa_call pa) Unavailable" rid]
    by (simp add: answers_def Let_def)
qed simp

lemma answers_drop_pending:
  "answers_of P (en_queued e) (en_cache e) (en_calls e) (en_log e) \<Longrightarrow>
   answers_of P (en_queued e) (en_cache e) (en_calls e) (en_log (drop_pending L e))"
proof (induction L e rule: drop_pending.induct)
  case (2 rid pa rest e)
  have "answers_of P (en_queued e) (en_cache e) (en_calls e) (en_log e @ [Settled (pa_call pa) r])" if "r \<noteq> Approved" for r
    by (rule answers_log [OF 2(2)]) (use that in simp_all)
  with 2(1) show ?case by simp
qed simp

lemma answers_reset: "answers e \<Longrightarrow> answers (reset_turn e)"
proof -
  assume a: "answers e"
  define r where "r = (case en_disk e of Some (mtime, _) \<Rightarrow> if mtime \<noteq> en_mtime e then load_persisted_rules e else e | None \<Rightarrow> e)"
  define q where "q = seen New_turn (r\<lparr>en_cache := [], en_denials := 0\<rparr>)"
  have "answers_of (en_pending q) (en_queued q) (en_cache q) (en_calls q) (en_log q)"
    using a unfolding q_def r_def by (auto simp: answers_def intro!: answers_turn split: option.split prod.split)
  from answers_drop(3) [OF answers_drop_pending [OF this]] show ?thesis
    by (simp add: reset_turn_def answers_def q_def r_def Let_def)
qed

lemma answers_settings:
  "answers e \<Longrightarrow> answers (clear_sse_callback cb e)"
  "answers e \<Longrightarrow> answers (update_preference mode access rules timeout e)"
  "answers e \<Longrightarrow> answers (set_local_access policy e)"
  by (auto simp: answers_def clear_sse_callback_def update_preference_def set_local_access_def Let_def)

lemma answers_stream:
  assumes "answers e" "om_ok (en_queued e)"
  shows "answers (set_sse_callback cb sent e)"
proof -
  have "\<forall>(rid, pa) \<in> set (en_queued e). entry_asked (en_log e) pa"
    using assms by (auto simp: answers_def answers_of_def om_ok_def)
  with assms(1) have "answers (deliver_each sent (en_queued e) (e\<lparr>en_sse := cb\<rparr>))"
    by (intro answers_deliver) (simp_all add: answers_def)
  with assms(1) show ?thesis
    by (auto simp: set_sse_callback_def deliver_queued_approvals_def Let_def answers_def)
qed

definition approval_ok :: "engine \<Rightarrow> bool" where
  "approval_ok e \<longleftrightarrow> books e \<and> answers e"

lemma approval_ok_step: "approval_ok e \<Longrightarrow> approval_ok (approval_step x e)"
proof -
  assume ok: "approval_ok e"
  then have "om_ok (en_queued e)" by (simp add: approval_ok_def books_def books_of_def)
  with ok have "answers (approval_step x e)"
    by (cases x) (auto simp: approval_ok_def answers_request answers_response answers_timer answers_reset answers_settings
        answers_stream, simp add: answers_def)
  with ok show ?thesis by (simp add: approval_ok_def books_step)
qed

lemma approval_ok_new: "approval_ok (new_engine g pref disk)"
proof -
  have "en_pending (new_engine g pref disk) = []" "en_queued (new_engine g pref disk) = []"
    "en_cache (new_engine g pref disk) = []" "en_log (new_engine g pref disk) = []"
    by (simp_all add: new_engine_def)
  then have "answers (new_engine g pref disk)" by (simp add: answers_def answers_of_def approvals_ok_def)
  then show ?thesis by (simp add: approval_ok_def books_new)
qed

interpretation approvals: machine approval_step approval_ok
  by unfold_locales (rule approval_ok_step)

text \<open>C5: 
  Nobody's silence is a yes: when a call is settled as approved, a person had answered that very call with yes, or
  the call is this computer's own and a person had said yes, since the last turn began, to another of its own
  calls with the same cache key.
\<close>

theorem approval_needs_a_yes:
  assumes "en_log (fold approval_step ops (new_engine g pref disk)) = xs @ Settled c Approved # ys"
  shows "(\<exists>d. d \<noteq> Deny_once \<and> Answered c d \<in> set xs) \<or>
    (\<exists>tool p tool' p' c' d. Asked c tool p Local_origin \<in> set xs \<and> Asked c' tool' p' Local_origin \<in> set xs \<and>
       cache_key tool' p' = cache_key tool p \<and> d \<noteq> Deny_once \<and> Answered c' d \<in> set (since_turn xs))"
proof -
  have "approval_ok (fold approval_step ops (new_engine g pref disk))"
    by (rule approvals.run_inv [OF approval_ok_new])
  with assms have "justified xs c"
    by (simp add: approval_ok_def answers_def answers_of_def approvals_ok_def)
  then show ?thesis by (auto simp: justified_def said_yes_def granted_def) blast
qed

section \<open>A sample run\<close>

text \<open>A window is open, the agent asks to merge pull request 1, and the person allows it once.\<close>

definition merge_params :: "string \<Rightarrow> tool_params" where
  "merge_params n = no_params\<lparr>tp_rest := [(''number'', n)]\<rparr>"

definition merge_ops :: "approval_op list" where
  "merge_ops =
     [Op_stream (Some 0) (\<lambda>_. True),
      Op_request ''r1'' ''github_merge_pr'' Cat_project (merge_params ''1'') (Some Needs_approval) Local_origin None True,
      Op_respond ''r1'' Allow_once None 0 True]"

lemma merge_ops_run:
  fixes start defines "start \<equiv> new_engine sample_guard (plain_preference Balanced) None"
  shows "en_log (fold approval_step merge_ops start) =
      [Asked 0 ''github_merge_pr'' (merge_params ''1'') Local_origin, Shown 0 Local_origin, Answered 0 Allow_once] @
      Settled 0 Approved # []"
    "en_calls (fold approval_step merge_ops start) = 1" "en_timers (fold approval_step merge_ops start) = []"
  unfolding start_def merge_ops_def
  by (simp_all add: new_engine_def load_persisted_rules_def set_sse_callback_def deliver_queued_approvals_def
      request_approval_outcome_def handle_approval_response_def cache_answer_def clear_timeout_def seen_def Let_def
      max_denials_per_turn_def)

theorem every_call_answered_witness:
  "count_list (settled_calls (en_log (fold approval_step merge_ops
     (new_engine sample_guard (plain_preference Balanced) None)))) 0 = 1"
  using every_call_answered [OF refl, of 0 merge_ops sample_guard "plain_preference Balanced" None]
  by (simp add: merge_ops_run)

theorem approval_needs_a_yes_witness:
  "\<exists>d. d \<noteq> Deny_once \<and> Answered 0 d \<in> set [Asked 0 ''github_merge_pr'' (merge_params ''1'') Local_origin,
     Shown 0 Local_origin, Answered 0 Allow_once]"
  using approval_needs_a_yes [OF merge_ops_run(1)] by (auto simp: since_turn_def)

section \<open>Work from another computer\<close>

lemma map_filter_unique:
  "distinct (List.map_filter f l) \<Longrightarrow> x \<in> set l \<Longrightarrow> y \<in> set l \<Longrightarrow> f x = Some c \<Longrightarrow> f y = Some c \<Longrightarrow> x = y"
proof (induction l)
  case (Cons h l)
  have member: "z \<in> set l \<Longrightarrow> f z = Some c \<Longrightarrow> c \<in> set (List.map_filter f l)" for z
    by (force simp: map_filter_def)
  show ?case
    using Cons member by (cases "f h") (auto simp: map_filter_def)
qed simp

lemma asked_unique:
  "distinct (asked_calls l) \<Longrightarrow> Asked c tool p a \<in> set l \<Longrightarrow> Asked c tool' p' a' \<in> set l \<Longrightarrow> a' = a"
  using map_filter_unique [of "\<lambda>h. case h of Asked c _ _ _ \<Rightarrow> Some c | _ \<Rightarrow> None" l "Asked c tool p a" "Asked c tool' p' a'" c]
  by (simp add: asked_calls_def)

text \<open>C12: 
  A tool that changes something runs here for another computer only when the person has switched such work on and
  has said yes to this very call: no answer given to this computer's own agent, or to another call, stands in.
\<close>

theorem remote_work_needs_its_own_yes:
  assumes run: "e = fold approval_step ops (new_engine g pref disk)"
    and asked: "Asked c tool p Remote_origin \<in> set (en_log e)" and settled: "Settled c answer \<in> set (en_log e)"
    and tool: "tool \<in> set remote_device_mutating_tools" and ok: "guard_remote_device_call tool policy answer = None"
  shows "Option.bind policy lp_remote_tools = Some True \<and> (\<exists>d. d \<noteq> Deny_once \<and> Answered c d \<in> set (en_log e))"
proof
  show "Option.bind policy lp_remote_tools = Some True"
    using ok by (auto simp: guard_remote_device_call_def split: if_splits)
  have "answer = Approved"
    using ok tool by (auto simp: guard_remote_device_call_def split: if_splits approval_outcome.splits)
  with settled obtain xs ys where l: "en_log e = xs @ Settled c Approved # ys" by (auto simp: in_set_conv_decomp)
  have inv: "approval_ok e"
    unfolding run by (rule approvals.run_inv [OF approval_ok_new])
  with l have just: "justified xs c"
    by (simp add: approval_ok_def answers_def answers_of_def approvals_ok_def)
  have "Asked c tool' p' Local_origin \<notin> set xs" for tool' p'
    using inv asked l asked_unique [of "en_log e" c tool p Remote_origin tool' p' Local_origin]
    by (auto simp: approval_ok_def answers_def answers_of_def)
  with just l show "\<exists>d. d \<noteq> Deny_once \<and> Answered c d \<in> set (en_log e)"
    by (auto simp: justified_def said_yes_def)
qed

definition remote_ops :: "approval_op list" where
  "remote_ops =
     [Op_request ''r1'' ''exec'' Cat_shell no_params None Remote_origin (Some 60) True,
      Op_stream (Some 0) (\<lambda>_. True), Op_respond ''r1'' Always_allow (Some ''*'') 0 True]"

lemma remote_ops_run:
  "en_log (fold approval_step remote_ops (new_engine sample_guard (plain_preference Balanced) None)) =
     [Asked 0 ''exec'' no_params Remote_origin, Shown 0 Remote_origin, Answered 0 Always_allow, Settled 0 Approved]"
  unfolding remote_ops_def
  by (simp add: new_engine_def load_persisted_rules_def set_sse_callback_def deliver_queued_approvals_def
      request_approval_outcome_def handle_approval_response_def cache_answer_def allow_always_def
      clear_timeout_def seen_def Let_def)

theorem remote_work_needs_its_own_yes_witness:
  "\<exists>d. d \<noteq> Deny_once \<and> Answered 0 d \<in> set (en_log (fold approval_step remote_ops
     (new_engine sample_guard (plain_preference Balanced) None)))"
  using remote_work_needs_its_own_yes [OF refl, of 0 "''exec''" no_params remote_ops sample_guard "plain_preference Balanced"
      None Approved "Some (sample_access\<lparr>lp_remote_tools := Some True\<rparr>)"]
  by (simp add: remote_ops_run remote_device_mutating_tools_def guard_remote_device_call_def)

section \<open>The budget of denials\<close>

definition local_cards :: "happening list \<Rightarrow> nat" where
  "local_cards l = length (filter (\<lambda>h. case h of Shown _ Local_origin \<Rightarrow> True | _ \<Rightarrow> False) l)"

lemma local_cards_simps [simp]:
  "local_cards (l @ l') = local_cards l + local_cards l'"
  "local_cards (Asked c tool p a # l) = local_cards l" "local_cards (Settled c r # l) = local_cards l"
  "local_cards (Answered c d # l) = local_cards l" "local_cards (Shown c Remote_origin # l) = local_cards l"
  "local_cards (New_turn # l) = local_cards l" "local_cards [] = 0"
  by (simp_all add: local_cards_def)

lemma deliver_quiet:
  "\<forall>(rid, pa) \<in> set L. pa_origin pa = Remote_origin \<Longrightarrow>
   local_cards (en_log (deliver_each sent L e)) = local_cards (en_log e) \<and> en_denials (deliver_each sent L e) = en_denials e"
  by (induction sent L e rule: deliver_each.induct) (simp_all add: Let_def)

lemma spent_step:
  assumes "books e" "max_denials_per_turn \<le> en_denials e" "x \<noteq> Op_turn"
  shows "local_cards (en_log (approval_step x e)) = local_cards (en_log e) \<and> max_denials_per_turn \<le> en_denials (approval_step x e)"
proof (cases x)
  case (Op_request rid tool c p reason a wanted sent)
  show ?thesis
  proof (cases a)
    case Local_origin
    with Op_request assms(2) show ?thesis
      by (auto simp: request_approval_outcome_def Let_def split: option.split)
  next
    case Remote_origin
    with Op_request assms(2) show ?thesis
      by (auto simp: request_approval_outcome_def Let_def split: option.split)
  qed
next
  case (Op_respond rid d pattern now written)
  with assms(2) show ?thesis
    by (auto simp: handle_approval_response_def Let_def split: option.split approval_decision.split)
next
  case (Op_timer c)
  with assms(2) show ?thesis
    by (auto simp: timer_fires_def Let_def split: option.split)
next
  case (Op_stream cb sent)
  have "\<forall>(rid, pa) \<in> set (en_queued e). pa_origin pa = Remote_origin"
    using assms(1) by (auto simp: books_def books_of_def om_ok_def)
  from deliver_quiet [OF this] Op_stream assms(2) show ?thesis
    by (auto simp: set_sse_callback_def deliver_queued_approvals_def Let_def)
qed (use assms(2,3) in \<open>auto simp: clear_sse_callback_def update_preference_def set_local_access_def Let_def\<close>)

text \<open>C23: After five refusals in a turn the person is not asked again until the next: no operation but the start of a
  turn puts another card of this computer's own agent in front of them.\<close>

theorem five_denials_end_the_asking:
  assumes run: "e = fold approval_step ops (new_engine g pref disk)"
    and spent: "max_denials_per_turn \<le> en_denials e" and turn: "Op_turn \<notin> set later"
  shows "local_cards (en_log (fold approval_step later e)) = local_cards (en_log e)"
proof -
  have "books e" unfolding run by (rule approval_books.run_inv [OF books_new])
  then show ?thesis
    using spent turn
  proof (induction later arbitrary: e)
    case (Cons x later)
    then have "books (approval_step x e)" "max_denials_per_turn \<le> en_denials (approval_step x e)"
      "local_cards (en_log (approval_step x e)) = local_cards (en_log e)"
      using spent_step [of e x] books_step by auto
    with Cons show ?case by simp
  qed simp
qed

definition denying_ops :: "approval_op list" where
  "denying_ops =
     Op_stream (Some 0) (\<lambda>_. True) #
     concat (map (\<lambda>path. [Op_request path ''delete_file'' Cat_file_delete (no_params\<lparr>tp_path := Some path\<rparr>) None Local_origin None True,
                          Op_respond path Deny_once None 0 True])
       [''a'', ''b'', ''c'', ''d'', ''e''])"

lemma denying_ops_run:
  "en_denials (fold approval_step denying_ops (new_engine sample_guard (plain_preference Balanced) None)) = 5"
  "local_cards (en_log (fold approval_step denying_ops (new_engine sample_guard (plain_preference Balanced) None))) = 5"
  unfolding denying_ops_def
  by (simp_all add: new_engine_def load_persisted_rules_def set_sse_callback_def deliver_queued_approvals_def
      request_approval_outcome_def handle_approval_response_def cache_answer_def clear_timeout_def seen_def Let_def
      max_denials_per_turn_def cache_key_def param_cache_key_def no_params_def local_cards_def)

theorem five_denials_end_the_asking_witness:
  "local_cards (en_log (fold approval_step
      [Op_request ''f'' ''delete_file'' Cat_file_delete (no_params\<lparr>tp_path := Some ''f''\<rparr>) None Local_origin None True]
      (fold approval_step denying_ops (new_engine sample_guard (plain_preference Balanced) None)))) = 5"
  using five_denials_end_the_asking [OF refl, of denying_ops sample_guard "plain_preference Balanced" None
      "[Op_request ''f'' ''delete_file'' Cat_file_delete (no_params\<lparr>tp_path := Some ''f''\<rparr>) None Local_origin None True]"]
  by (simp only: denying_ops_run) (simp add: max_denials_per_turn_def)

section \<open>What a yes covers\<close>

lemma om_set_mem: "(k', v') \<in> set (om_set k v m) \<Longrightarrow> k' = k \<and> v' = v \<or> (k', v') \<in> set m"
  by (induction m) (auto split: if_splits)

lemma om_delete_mem: "(k', v') \<in> set (om_delete k m) \<Longrightarrow> k' \<noteq> k \<and> (k', v') \<in> set m"
  by (auto simp: AList.delete_eq)

definition keeps_yes :: "string \<Rightarrow> engine \<Rightarrow> bool" where
  "keeps_yes k e \<longleftrightarrow> om_get (en_cache e) k = Some True
     \<and> (\<forall>(rid, pa) \<in> set (en_pending e) \<union> set (en_queued e). pa_key pa \<noteq> Some k)"

lemma keeps_yes_pending:
  "keeps_yes k e \<Longrightarrow> om_get (en_pending e) rid = Some pa \<or> om_get (en_queued e) rid = Some pa \<Longrightarrow> pa_key pa \<noteq> Some k"
  by (auto simp: keeps_yes_def dest: map_of_SomeD)

lemma keeps_yes_delivered:
  "keeps_yes k e \<Longrightarrow> \<forall>(rid, pa) \<in> set L. pa_key pa \<noteq> Some k \<Longrightarrow> keeps_yes k (deliver_each sent L e)"
proof (induction sent L e rule: deliver_each.induct)
  case (2 sent rid pa rest e)
  define moved where "moved = e\<lparr>en_queued := om_delete rid (en_queued e), en_pending := om_set rid pa (en_pending e)\<rparr>"
  have m: "keeps_yes k moved"
    using 2(2,3) by (auto simp: keeps_yes_def moved_def dest!: om_set_mem om_delete_mem)
  have "keeps_yes k (seen (Shown (pa_call pa) (pa_origin pa)) moved)"
    "keeps_yes k (seen (Settled (pa_call pa) Unavailable)
       ((clear_timeout (pa_call pa) moved)\<lparr>en_pending := om_delete rid (en_pending moved)\<rparr>))"
    using m by (auto simp: keeps_yes_def dest!: om_delete_mem)
  with 2(1) [OF moved_def] 2(3) show ?case by (simp add: moved_def [symmetric])
qed simp

lemma keeps_yes_request: "keeps_yes k e \<Longrightarrow> keeps_yes k (request_approval_outcome rid tool c p reason a wanted sent e)"
  by (auto simp: keeps_yes_def request_approval_outcome_def Let_def dest!: om_set_mem om_delete_mem split: option.split)

lemma keeps_yes_response:
  assumes "keeps_yes k e"
  shows "keeps_yes k (handle_approval_response rid d pattern now written e)"
proof (cases "case om_get (en_pending e) rid of Some pa \<Rightarrow> Some pa | None \<Rightarrow> om_get (en_queued e) rid")
  case (Some pa)
  then have "pa_key pa \<noteq> Some k"
    using keeps_yes_pending [OF assms, of rid pa] by (auto split: option.splits)
  with Some assms show ?thesis
    by (auto simp: handle_approval_response_def keeps_yes_def with_answer_def Let_def dest!: om_delete_mem
        split: option.split approval_decision.split)
qed (use assms in \<open>simp add: handle_approval_response_def\<close>)

lemma keeps_yes_step: "keeps_yes k e \<Longrightarrow> x \<noteq> Op_turn \<Longrightarrow> keeps_yes k (approval_step x e)"
proof (cases x)
  case (Op_stream cb sent)
  assume "keeps_yes k e"
  then have "keeps_yes k (e\<lparr>en_sse := cb\<rparr>)" "\<forall>(rid, pa) \<in> set (en_queued e). pa_key pa \<noteq> Some k"
    by (auto simp: keeps_yes_def)
  then show ?thesis
    using Op_stream by (cases cb) (simp_all add: set_sse_callback_def deliver_queued_approvals_def Let_def keeps_yes_delivered)
next
  case (Op_timer call)
  assume "keeps_yes k e"
  then show ?thesis
    using Op_timer
    by (auto simp: timer_fires_def keeps_yes_def Let_def dest!: om_delete_mem split: option.split)
qed (simp_all add: keeps_yes_request keeps_yes_response clear_sse_callback_def update_preference_def
    set_local_access_def keeps_yes_def [of k "e\<lparr>en_sse := _\<rparr>"] keeps_yes_def [of k "e\<lparr>en_disk := _\<rparr>"]
    keeps_yes_def [of k "e\<lparr>en_pref := _\<rparr>"] keeps_yes_def [of k e] Let_def)

text \<open>C34: 
  A yes is kept under the tool and the first of command, path, name and URL, and nothing else of the call: when no
  other card or queued request waits under the same key, then until the next turn starts, whatever else is asked,
  answered or times out, every call of this computer's agent of the tool that agrees in that one field runs without
  a card, whatever its other parameters. A merge of a pull request has none of the four, so one yes to a merge covers
  every other merge of the turn. (A second card already waiting under the key may still be refused, and that refusal
  replaces the kept yes.)
\<close>

theorem one_yes_covers_other_calls:
  assumes "om_get (en_pending e) rid = Some pa" "pa_key pa = Some (cache_key tool p)" "d \<noteq> Deny_once"
    and alone: "\<forall>(rid', q) \<in> set (en_pending e) \<union> set (en_queued e). rid' \<noteq> rid \<longrightarrow> pa_key q \<noteq> Some (cache_key tool p)"
    and turn: "Op_turn \<notin> set later"
    and f: "f = fold approval_step later (handle_approval_response rid d pattern now written e)"
    and "param_cache_key p' = param_cache_key p"
  shows "en_log (request_approval_outcome rid' tool c p' reason Local_origin wanted sent f) =
    en_log f @ [Asked (en_calls f) tool p' Local_origin, Settled (en_calls f) Approved]"
proof -
  have "keeps_yes (cache_key tool p) (handle_approval_response rid d pattern now written e)"
    using assms(1-3) alone
    by (cases d) (auto simp: keeps_yes_def handle_approval_response_def with_answer_def Let_def dest!: om_delete_mem)
  then have "keeps_yes (cache_key tool p) f"
    using turn unfolding f by (induction later rule: rev_induct) (auto simp: keeps_yes_step)
  moreover have "cache_key tool p' = cache_key tool p"
    using assms(7) by (simp add: cache_key_def)
  ultimately show ?thesis by (simp add: keeps_yes_def request_approval_outcome_def Let_def)
qed

definition waiting_merge :: engine where
  "waiting_merge = fold approval_step (take 2 merge_ops) (new_engine sample_guard (plain_preference Balanced) None)"

lemma waiting_merge_entry:
  "\<exists>pa. en_pending waiting_merge = [(''r1'', pa)] \<and> en_queued waiting_merge = []
     \<and> pa_key pa = Some (cache_key ''github_merge_pr'' (merge_params ''1''))"
  unfolding waiting_merge_def merge_ops_def
  by (simp add: new_engine_def load_persisted_rules_def set_sse_callback_def deliver_queued_approvals_def
      request_approval_outcome_def clear_timeout_def seen_def Let_def max_denials_per_turn_def)

theorem one_yes_covers_other_calls_witness:
  "let f = fold approval_step
       [Op_request ''r2'' ''delete_file'' Cat_file_delete (no_params\<lparr>tp_path := Some ''a''\<rparr>) None Local_origin None True,
        Op_respond ''r2'' Deny_once None 0 True]
       (handle_approval_response ''r1'' Allow_once None 0 True waiting_merge)
   in Settled (en_calls f) Approved \<in> set (en_log
        (request_approval_outcome ''r3'' ''github_merge_pr'' Cat_project (merge_params ''2'') None Local_origin None True f))"
proof -
  obtain pa where "en_pending waiting_merge = [(''r1'', pa)]" "en_queued waiting_merge = []"
    "pa_key pa = Some (cache_key ''github_merge_pr'' (merge_params ''1''))"
    using waiting_merge_entry by blast
  moreover have "param_cache_key (merge_params ''2'') = param_cache_key (merge_params ''1'')"
    by (simp add: merge_params_def no_params_def param_cache_key_def)
  ultimately show ?thesis
    unfolding Let_def
    using one_yes_covers_other_calls [of waiting_merge "''r1''" pa "''github_merge_pr''" "merge_params ''1''" Allow_once
        "[Op_request ''r2'' ''delete_file'' Cat_file_delete (no_params\<lparr>tp_path := Some ''a''\<rparr>) None Local_origin None True,
          Op_respond ''r2'' Deny_once None 0 True]" _ None 0 True "merge_params ''2''"] by simp
qed

section \<open>Rules that outlive the process\<close>

lemma union_rules_simps [simp]:
  "rs_actions (union_rules r q) = merge_action_rules (rs_actions r) (rs_actions q)"
  "set (or_empty (rs_shell_allow (union_rules r q))) = set (or_empty (rs_shell_allow r)) \<union> set (or_empty (rs_shell_allow q))"
  "set (or_empty (rs_shell_deny (union_rules r q))) = set (or_empty (rs_shell_deny r)) \<union> set (or_empty (rs_shell_deny q))"
  "set (or_empty (rs_file_allow (union_rules r q))) = set (or_empty (rs_file_allow r)) \<union> set (or_empty (rs_file_allow q))"
  "set (or_empty (rs_file_deny (union_rules r q))) = set (or_empty (rs_file_deny r)) \<union> set (or_empty (rs_file_deny q))"
  by (simp_all add: union_rules_def merge_unique_def)

text \<open>A call that is not refused, has no rule and whose path a person allowed for good needs nobody.\<close>

lemma file_allowlisted_runs:
  assumes "\<not> g_actions_only g" "c = Cat_file_write \<or> c = Cat_file_delete" "action_rule_for g pref tool = None"
    and "cr_action (check g pref c tool p) \<noteq> Deny"
    and "matches_any_pattern (param (tp_path p)) (or_empty (rs_file_allow (pr_rules pref)))"
  shows "cr_action (check g pref c tool p) = Allow"
  using assms denies_iff [of g pref c tool p]
  by (auto simp: check_cases evaluate_mode_def evaluate_strict_def Let_def split: security_mode.split)

lemma shell_allowlisted_runs:
  assumes "\<not> g_actions_only g" "pr_mode pref = Balanced" "action_rule_for g pref tool = None"
    and "cr_action (check g pref Cat_shell tool p) \<noteq> Deny"
    and "matches_any_pattern (param (tp_command p)) (or_empty (rs_shell_allow (pr_rules pref)))"
  shows "cr_action (check g pref Cat_shell tool p) = Allow"
  using assms denies_iff [of g pref Cat_shell tool p] by (auto simp: check_cases evaluate_mode_def)

lemma new_engine_pref:
  "en_pref (new_engine g pref (Some (mtime, Some r))) = pref\<lparr>pr_rules := union_rules (pr_rules pref) r\<rparr>"
  by (simp add: new_engine_def load_persisted_rules_def)

text \<open>C28: 
  A person's answer \<^verbatim>\<open>always\<close> on a file outlives the process: an engine started later on the same workspace,
  with any preference, lets a write or delete of a matching path run, unless a rule speaks for the tool or the
  call is refused.
\<close>

theorem always_survives_restart:
  assumes "om_get (en_pending e) rid = Some pa" "pa_origin pa = Local_origin" "is_file_category (pa_category pa)" "pat \<noteq> []"
    and later: "new = new_engine g pref (en_disk (handle_approval_response rid Always_allow (Some pat) now True e))"
    and "\<not> g_actions_only g" "c = Cat_file_write \<or> c = Cat_file_delete" "action_rule_for g (en_pref new) tool = None"
    and "cr_action (check g (en_pref new) c tool p) \<noteq> Deny"
    and "matches_glob_pattern (param (tp_path p)) pat"
  shows "cr_action (check g (en_pref new) c tool p) = Allow"
proof (rule file_allowlisted_runs [OF assms(6-9)])
  have "en_disk (handle_approval_response rid Always_allow (Some pat) now True e)
      = Some (now, Some (remember_pattern (pa_category pa) pat (pr_rules (en_pref e))))"
    using assms(1-4) by (simp add: handle_approval_response_def allow_always_def persist_rules_def cache_answer_def
        seen_def clear_timeout_def Let_def split: option.split)
  then have "pat \<in> set (or_empty (rs_file_allow (pr_rules (en_pref new))))"
    using assms(3) by (simp add: later new_engine_pref remember_pattern_def)
  then show "matches_any_pattern (param (tp_path p)) (or_empty (rs_file_allow (pr_rules (en_pref new))))"
    using assms(10) by (rule matches_any_member)
qed

lemma sample_rule [simp]: "tool \<noteq> ''github_merge_pr'' \<Longrightarrow> rs_actions (pr_rules pref) tool = None \<Longrightarrow> action_rule_for g pref tool = None"
  by (simp add: action_rule_for_def default_action_rules_def)

lemma sample_workspace_file:
  "check_hard_blocked sample_guard c (no_params\<lparr>tp_path := Some ''.shogo/permissions.json''\<rparr>) = None"
  "check_hard_blocked sample_guard c (no_params\<lparr>tp_path := Some ''a.txt''\<rparr>) = None" if "is_file_category c"
proof -
  have "resolve symlink_host [''/w'', ''.shogo/permissions.json''] = ''/w/.shogo/permissions.json''"
    "resolve symlink_host [''/w'', ''a.txt''] = ''/w/a.txt''"
    by (simp_all add: path_resolve_def resolved_segments_def cwd_path_def is_absolute_def starts_with_def)
  moreover have "c \<noteq> Cat_system" using that by (auto simp: is_file_category_def)
  ultimately show "check_hard_blocked sample_guard c (no_params\<lparr>tp_path := Some ''.shogo/permissions.json''\<rparr>) = None"
    "check_hard_blocked sample_guard c (no_params\<lparr>tp_path := Some ''a.txt''\<rparr>) = None"
    by (simp_all add: check_hard_blocked_def hard_blocked_prefixes_def param_def homedir_def path_join_def path_normalize_def
        is_absolute_def starts_with_def Let_def)
qed

definition waiting_write :: engine where
  "waiting_write = fold approval_step
     [Op_stream (Some 0) (\<lambda>_. True),
      Op_request ''r1'' ''write_file'' Cat_file_write (no_params\<lparr>tp_path := Some ''a.txt''\<rparr>) (Some Strict_asks) Local_origin None True]
     (new_engine sample_guard (plain_preference Strict) None)"

lemma waiting_write_entry:
  "\<exists>pa. om_get (en_pending waiting_write) ''r1'' = Some pa \<and> pa_origin pa = Local_origin \<and> pa_category pa = Cat_file_write"
  "en_pref waiting_write = plain_preference Strict"
  unfolding waiting_write_def
  by (simp_all add: new_engine_def load_persisted_rules_def set_sse_callback_def deliver_queued_approvals_def
      request_approval_outcome_def clear_timeout_def seen_def Let_def max_denials_per_turn_def)

theorem always_survives_restart_witness:
  "cr_action (check sample_guard (en_pref (new_engine sample_guard (plain_preference Strict)
     (en_disk (handle_approval_response ''r1'' Always_allow (Some ''*.txt'') 7 True waiting_write))))
     Cat_file_write ''write_file'' (no_params\<lparr>tp_path := Some ''a.txt''\<rparr>)) = Allow"
proof -
  obtain pa where pa: "om_get (en_pending waiting_write) ''r1'' = Some pa" "pa_origin pa = Local_origin" "pa_category pa = Cat_file_write"
    using waiting_write_entry(1) by blast
  have disk: "en_disk (handle_approval_response ''r1'' Always_allow (Some ''*.txt'') 7 True waiting_write)
      = Some (7, Some (no_rules\<lparr>rs_file_allow := Some [''*.txt'']\<rparr>))"
    using pa waiting_write_entry(2) by (simp add: handle_approval_response_def allow_always_def persist_rules_def cache_answer_def
        seen_def clear_timeout_def Let_def remember_pattern_def is_file_category_def split: option.split)
  let ?new = "new_engine sample_guard (plain_preference Strict) (Some (7, Some (no_rules\<lparr>rs_file_allow := Some [''*.txt'']\<rparr>)))"
  have rule: "action_rule_for sample_guard (en_pref ?new) ''write_file'' = None"
    by (simp add: new_engine_pref merge_action_rules_def normalize_action_rules_def)
  have "check_deny_overrides sample_guard (en_pref ?new) c p = check_deny_overrides sample_guard (plain_preference Strict) c p" for c p
    by (rule deny_overrides_cong) (simp_all add: new_engine_pref)
  then have "cr_action (check sample_guard (en_pref ?new) Cat_file_write ''write_file'' (no_params\<lparr>tp_path := Some ''a.txt''\<rparr>)) \<noteq> Deny"
    using rule by (simp add: denies_iff mode_refuses_def sample_workspace_file is_file_category_def)
  with rule pa show ?thesis
    using always_survives_restart [of waiting_write "''r1''" pa "''*.txt''" "?new" sample_guard "plain_preference Strict" 7
        Cat_file_write "''write_file''" "no_params\<lparr>tp_path := Some ''a.txt''\<rparr>"]
    by (simp add: disk is_file_category_def param_def matches_glob_pattern_def starts_with_def ends_with_def)
qed

text \<open>C29: 
  The rules file lies in the workspace, where balanced mode lets the agent write unasked, and the next turn adds
  what it allows to the person's rules: the agent can write itself a rule under which a command runs unasked. What
  the rule does not lift are the refusals (the deny lists, what local access forbids) and the action rules: the
  write and the command must be calls that are not refused and for whose tools no action rule speaks.
\<close>

theorem agent_can_widen_its_rules:
  assumes "\<not> g_actions_only (en_guard e)" "pr_mode (en_pref e) = Balanced"
    and target: "tp_path w = Some ''.shogo/permissions.json''" "check_within_workspace (en_guard e) w"
    and wrote: "cr_action (check (en_guard e) (en_pref e) Cat_file_write writer w) \<noteq> Deny"
      "action_rule_for (en_guard e) (en_pref e) writer = None"
    and run: "cr_action (check (en_guard e) (en_pref e) Cat_shell tool p) \<noteq> Deny"
      "action_rule_for (en_guard e) (en_pref e) tool = None"
    and rules: "rules = no_rules\<lparr>rs_shell_allow := Some [''*'']\<rparr>" and fresh: "mtime \<noteq> en_mtime e"
    and after: "e' = approval_step Op_turn (approval_step (Op_rules_file (Some (mtime, Some rules))) e)"
  shows "cr_action (check (en_guard e) (en_pref e) Cat_file_write writer w) = Allow \<and>
    cr_action (check (en_guard e') (en_pref e') Cat_shell tool p) = Allow"
proof
  show "cr_action (check (en_guard e) (en_pref e) Cat_file_write writer w) = Allow"
    using assms(1,2) target(2) wrote denies_iff [of "en_guard e" "en_pref e" Cat_file_write writer w]
    by (auto simp: check_cases evaluate_mode_def)
  have pref: "en_pref e' = (en_pref e)\<lparr>pr_rules := union_rules (pr_rules (en_pref e)) rules\<rparr>" "en_guard e' = en_guard e"
    using fresh unfolding after by (simp_all add: reset_turn_def load_persisted_rules_def Let_def)
  have no_rule: "action_rule_for (en_guard e) (en_pref e') tool = None"
    using run(2) by (auto simp: pref rules action_rule_for_def merge_action_rules_def normalize_action_rules_def
        split: option.splits raw_rule.splits if_splits)
  have refused: "check_deny_overrides (en_guard e) (en_pref e') Cat_shell p = check_deny_overrides (en_guard e) (en_pref e) Cat_shell p"
    by (rule deny_overrides_cong) (simp_all add: pref rules)
  have "cr_action (check (en_guard e') (en_pref e') Cat_shell tool p) \<noteq> Deny"
    using run no_rule refused by (simp add: denies_iff mode_refuses_def pref)
  moreover have "matches_any_pattern (param (tp_command p)) (or_empty (rs_shell_allow (pr_rules (en_pref e'))))"
    by (rule matches_any_member [where p = "''*''"]) (simp_all add: pref rules matches_glob_pattern_def)
  ultimately show "cr_action (check (en_guard e') (en_pref e') Cat_shell tool p) = Allow"
    using assms(1,2) no_rule by (intro shell_allowlisted_runs) (simp_all add: pref)
qed

lemma rules_file_inside:
  "check_within_workspace sample_guard (no_params\<lparr>tp_path := Some ''.shogo/permissions.json''\<rparr>)"
proof -
  have abs: "resolve symlink_host [''/w'', ''.shogo/permissions.json''] = ''/w/.shogo/permissions.json''"
    "resolve symlink_host [''/w/.shogo/permissions.json''] = ''/w/.shogo/permissions.json''"
    by (simp_all add: path_resolve_def resolved_segments_def cwd_path_def is_absolute_def starts_with_def)
  have up: "path_dirname ''/w/.shogo/permissions.json'' = ''/w/.shogo''" "path_dirname ''/w/.shogo'' = ''/w''"
    by (simp_all add: path_dirname_def)
  have host: "\<not> file_exists symlink_host ''/w/.shogo/permissions.json''" "\<not> file_exists symlink_host ''/w/.shogo''"
    "file_exists symlink_host ''/w''" "realpath symlink_host ''/w'' = Some ''/w''"
    "realpath symlink_host ''/w/.shogo/permissions.json'' = None"
    by (simp_all add: symlink_host_def)
  have "nearest_existing symlink_host ''/w/.shogo/permissions.json'' [] = (''/w'', ''/.shogo/permissions.json'')"
    by (simp add: nearest_existing.simps [of _ "''/w/.shogo/permissions.json''"] nearest_existing.simps [of _ "''/w/.shogo''"]
        nearest_existing.simps [of _ "''/w''"] up host)
  then have canonical: "canonical_path symlink_host ''/w/.shogo/permissions.json'' = ''/w/.shogo/permissions.json''"
    by (simp add: canonical_path_def abs host)
  have "location symlink_host ''/w'' = [''w'']"
    "location symlink_host ''/w/.shogo/permissions.json'' = [''w'', ''.shogo'', ''permissions.json'']"
    by (simp_all add: location_def resolved_segments_absolute normalize_for_compare_def)
  then show ?thesis
    by (simp add: check_within_workspace_def is_within_any_canonical_root_def param_def abs canonical is_within_root_iff)
qed

lemma shell_not_hard_blocked: "check_hard_blocked g Cat_shell p = None"
  by (simp add: check_hard_blocked_def is_file_category_def)

definition fresh_engine :: engine where
  "fresh_engine = new_engine sample_guard (plain_preference Balanced) None"

lemma fresh_engine_simps [simp]:
  "en_guard fresh_engine = sample_guard" "en_pref fresh_engine = plain_preference Balanced" "en_mtime fresh_engine = 0"
  by (simp_all add: fresh_engine_def new_engine_def load_persisted_rules_def)

theorem agent_can_widen_its_rules_witness:
  "\<exists>e'. e' = approval_step Op_turn (approval_step
      (Op_rules_file (Some (7, Some (no_rules\<lparr>rs_shell_allow := Some [''*'']\<rparr>)))) fresh_engine) \<and>
    cr_action (check (en_guard e') (en_pref e') Cat_shell ''exec'' (no_params\<lparr>tp_command := Some ''rm -rf /home/u''\<rparr>)) = Allow"
proof (intro exI conjI)
  show "cr_action (check (en_guard (approval_step Op_turn (approval_step
      (Op_rules_file (Some (7, Some (no_rules\<lparr>rs_shell_allow := Some [''*'']\<rparr>)))) fresh_engine)))
      (en_pref (approval_step Op_turn (approval_step
      (Op_rules_file (Some (7, Some (no_rules\<lparr>rs_shell_allow := Some [''*'']\<rparr>)))) fresh_engine)))
      Cat_shell ''exec'' (no_params\<lparr>tp_command := Some ''rm -rf /home/u''\<rparr>)) = Allow"
    by (rule agent_can_widen_its_rules [where e = fresh_engine and w = "no_params\<lparr>tp_path := Some ''.shogo/permissions.json''\<rparr>"
          and writer = "''write_file''", OF _ _ _ _ _ _ _ _ refl _ refl, THEN conjunct2])
      (simp_all add: rules_file_inside denies_iff mode_refuses_def sample_workspace_file is_file_category_def shell_not_hard_blocked)
qed (rule refl)

text \<open>\<^verbatim>\<open>Always\<close> on a network or MCP request is filed under shell commands: the request it answered asks again in
  the next turn, and the pattern now lets commands run.\<close>

theorem always_on_network_opens_the_shell:
  assumes "om_get (en_pending e) rid = Some pa" "pa_origin pa = Local_origin" "pa_category pa = Cat_network" "pat \<noteq> []"
    and after: "e' = handle_approval_response rid Always_allow (Some pat) now written e"
    and "\<not> g_actions_only g" "pr_mode (en_pref e) = Balanced" "action_rule_for g (en_pref e) tool = None"
    and "cr_action (check g (en_pref e) Cat_shell tool p) \<noteq> Deny" "matches_glob_pattern (param (tp_command p)) pat"
  shows "(\<forall>q. check g (en_pref e') Cat_network tool q = check g (en_pref e) Cat_network tool q) \<and>
    cr_action (check g (en_pref e') Cat_shell tool p) = Allow"
proof -
  let ?r = "pr_rules (en_pref e)"
  have pref: "en_pref e' = (en_pref e)\<lparr>pr_rules := ?r\<lparr>rs_shell_allow := Some (or_empty (rs_shell_allow ?r) @ [pat])\<rparr>\<rparr>"
    using assms(1-4) unfolding after
    by (simp add: handle_approval_response_def allow_always_def persist_rules_def remember_pattern_def is_file_category_def Let_def)
  have rule: "action_rule_for g (en_pref e') t = action_rule_for g (en_pref e) t" for t
    by (simp add: pref action_rule_for_def)
  have refused: "check_deny_overrides g (en_pref e') c q = check_deny_overrides g (en_pref e) c q" for c q
    by (rule deny_overrides_cong) (simp_all add: pref)
  have mode: "mode_refuses g (en_pref e') c q = mode_refuses g (en_pref e) c q" for c q
    by (simp add: mode_refuses_def pref)
  have network: "evaluate_mode g (en_pref e') Cat_network q = evaluate_mode g (en_pref e) Cat_network q" for q
    by (simp add: evaluate_mode_def evaluate_strict_def pref Let_def split: security_mode.split option.split)
  have "check g (en_pref e') Cat_network tool q = check g (en_pref e) Cat_network tool q" for q
    unfolding check_cases rule refused mode network by (rule refl)
  moreover have "cr_action (check g (en_pref e') Cat_shell tool p) = Allow"
  proof (rule shell_allowlisted_runs)
    show "matches_any_pattern (param (tp_command p)) (or_empty (rs_shell_allow (pr_rules (en_pref e'))))"
      by (rule matches_any_member [OF _ assms(10)]) (simp add: pref)
    show "cr_action (check g (en_pref e') Cat_shell tool p) \<noteq> Deny"
      using assms(9) by (simp add: denies_iff rule refused mode)
  qed (use assms(6-8) rule in \<open>simp_all add: pref\<close>)
  ultimately show ?thesis by blast
qed

definition waiting_fetch :: engine where
  "waiting_fetch = fold approval_step
     [Op_stream (Some 0) (\<lambda>_. True),
      Op_request ''r1'' ''web'' Cat_network (no_params\<lparr>tp_url := Some ''http://x''\<rparr>) (Some Domain_asks) Local_origin None True]
     (new_engine sample_guard (plain_preference Balanced) None)"

lemma waiting_fetch_entry:
  "\<exists>pa. om_get (en_pending waiting_fetch) ''r1'' = Some pa \<and> pa_origin pa = Local_origin \<and> pa_category pa = Cat_network"
  "en_pref waiting_fetch = plain_preference Balanced"
  unfolding waiting_fetch_def
  by (simp_all add: new_engine_def load_persisted_rules_def set_sse_callback_def deliver_queued_approvals_def
      request_approval_outcome_def clear_timeout_def seen_def Let_def max_denials_per_turn_def)

theorem always_on_network_opens_the_shell_witness:
  "cr_action (check sample_guard (en_pref (handle_approval_response ''r1'' Always_allow (Some ''*'') 7 True waiting_fetch))
     Cat_shell ''web'' (no_params\<lparr>tp_command := Some ''rm x''\<rparr>)) = Allow"
proof -
  obtain pa where "om_get (en_pending waiting_fetch) ''r1'' = Some pa" "pa_origin pa = Local_origin" "pa_category pa = Cat_network"
    using waiting_fetch_entry(1) by blast
  then show ?thesis
    using always_on_network_opens_the_shell [of waiting_fetch "''r1''" pa "''*''" _ 7 True sample_guard "''web''"
        "no_params\<lparr>tp_command := Some ''rm x''\<rparr>"]
    by (simp add: waiting_fetch_entry(2) denies_iff mode_refuses_def check_hard_blocked_def is_file_category_def
        matches_glob_pattern_def)
qed

end
