(* ===== verification/Wake_Tasks.thy ===== *)
theory Wake_Tasks
  imports Js_Text
begin

text \<open>
  \<^verbatim>\<open>apps/api/src/services/background-tasks.service.ts\<close>: the tasks an agent session is woken by, and
  \<^verbatim>\<open>workspace-pause.service.ts\<close> as far as it reads the flag. The tables the service reads and writes are
  lists of records in one store \<open>wake_db\<close>, with the timers of the process; each operation takes the time of the
  call. \<^verbatim>\<open>updateMany\<close> is \<open>update_where\<close>, \<^verbatim>\<open>orderBy\<close> a stable \<open>sort_key\<close>, \<^verbatim>\<open>take\<close> is
  \<open>take\<close>. The JSON columns \<^verbatim>\<open>body\<close> and \<^verbatim>\<open>parts\<close> are carried as the values the code reads from them,
  and a row's uuid is a number, of which only equality and order matter.

  Arguments of the model (\<open>wake_env\<close>): the regular expressions of the host, whether an agent is running in a
  thread, a project's workspace and a workspace's first owner, the pause flags, which sessions are homed in this
  region, the records of project calls, which workspaces are copies of a desktop's, the age after which nothing is
  resumed, and what the chat route answers to a queued message: an error, or the id of the turn it started, and
  what its stop route answers when it cannot stop a turn. Links of tasks, long polling and its in-process signals are left out.
\<close>

section \<open>Constants\<close>

definition task_ttl_ms :: int where "task_ttl_ms = 24 * 60 * 60 * 1000"
definition card_task_ttl_ms :: int where "card_task_ttl_ms = 7 * task_ttl_ms"
definition output_cap :: nat where "output_cap = 64000"
definition tail_chars :: nat where "tail_chars = 2000"
definition max_consecutive_wakes :: nat where "max_consecutive_wakes = 3"
definition max_consecutive_card_wakes :: nat where "max_consecutive_card_wakes = 40"
definition wake_retry_backoff_ms :: "int list" where
  "wake_retry_backoff_ms = [0, 15000, 30000, 60000, 120000, 300000]"
definition max_wake_backoff_ms :: int where "max_wake_backoff_ms = last wake_retry_backoff_ms"
definition max_wake_attempts :: nat where "max_wake_attempts = 5"

text \<open>\<^verbatim>\<open>AGENT_REPLY_TIMEOUT_MS\<close> with its default of two hours.\<close>

definition agent_reply_timeout_ms :: int where "agent_reply_timeout_ms = 2 * 60 * 60000"
definition agent_reply_reconcile_ms :: int where "agent_reply_reconcile_ms = agent_reply_timeout_ms + 5 * 60000"
definition card_hold_ms :: int where "card_hold_ms = agent_reply_timeout_ms + 60000"

definition wake_paused :: utf16 where
  "wake_paused = lit ''Paused: background tasks finished several times in a row without anyone writing. Send a message to continue.''"

definition wake_workspace_paused :: utf16 where
  "wake_workspace_paused = lit ''Paused: agents are paused in this workspace. Resume them and this update will run.''"

definition wake_paused_markers :: "utf16 list" where
  "wake_paused_markers = [wake_paused, wake_workspace_paused]"

section \<open>Tables\<close>

datatype task_status = Task_running | Task_completed | Task_failed | Task_cancelled

definition status_text :: "task_status \<Rightarrow> utf16" where
  "status_text s = lit (case s of Task_running \<Rightarrow> ''running'' | Task_completed \<Rightarrow> ''completed''
     | Task_failed \<Rightarrow> ''failed'' | Task_cancelled \<Rightarrow> ''cancelled'')"

record bg_task =
  bt_id :: string
  bt_session :: string
  bt_source :: string
  bt_target :: string
  bt_title :: utf16
  bt_status :: task_status
  bt_output :: utf16
  bt_summary :: "utf16 option"
  bt_until :: "utf16 option"
  bt_note :: "utf16 option"
  bt_notify :: bool
  bt_consumed :: bool
  bt_notified :: "int option"
  bt_attempts :: nat
  bt_next :: "int option"
  bt_held :: "int option"
  bt_finished :: "int option"
  bt_expires :: int
  bt_created :: int

text \<open>A row of \<^verbatim>\<open>chat_queued_messages\<close>. A tool part is told apart only while its input is all there is. The body holds the wire text, the tasks of a wake with its marks,
  and how often a resume was tried; of the parts, the wake's and the resume's are told apart from the others.\<close>

datatype queue_status = Row_pending | Row_dispatching | Row_failed
datatype queue_kind = Kind_user | Kind_wake | Kind_resume
datatype wake_part = Text_part utf16 | Wake_part "string list" bool | Resume_part "utf16 option"
  | Running_tool_part utf16 | Interrupted_part int utf16 | Other_part

record wake_body =
  wb_text :: "utf16 option"
  wb_task_ids :: "string list"
  wb_reset :: bool
  wb_paused :: bool
  wb_resume_attempts :: int

record queue_row =
  qr_id :: nat
  qr_session :: string
  qr_user :: string
  qr_position :: int
  qr_status :: queue_status
  qr_kind :: queue_kind
  qr_content :: utf16
  qr_parts :: "wake_part list option"
  qr_body :: wake_body
  qr_error :: "utf16 option"
  qr_created :: int
  qr_updated :: int

record chat_message =
  cm_id :: nat
  cm_session :: string
  cm_from_user :: bool
  cm_content :: utf16
  cm_parts :: "wake_part list"
  cm_author :: "string option"
  cm_at :: int

record chat_row =
  ch_id :: string
  ch_project_context :: bool
  ch_context_id :: "string option"
  ch_workspace :: "string option"
  ch_created_by :: "string option"
  ch_created :: int
  ch_active :: "string option"
  ch_heartbeat :: "int option"

text \<open>A card: the category and the agent of the column it stands in, when it has one.\<close>

record card_row =
  ci_id :: string
  ci_archived :: bool
  ci_column :: "(string option \<times> string option) option"
  ci_assignee :: "string option"
  ci_thread :: "string option"

record wake_db =
  wd_tasks :: "bg_task list"
  wd_rows :: "queue_row list"
  wd_msgs :: "chat_message list"
  wd_chats :: "chat_row list"
  wd_cards :: "card_row list"
  wd_next_id :: nat
  wd_wake_timers :: "string list"
  wd_hold_timers :: "string list"

record call_record =
  cr_status :: string
  cr_reply :: "utf16 option"
  cr_error :: "utf16 option"

record wake_env =
  we_regex :: "utf16 \<Rightarrow> (utf16 \<Rightarrow> bool) option"
  we_busy :: "string \<Rightarrow> bool"
  we_project_workspace :: "string \<Rightarrow> string option"
  we_owner :: "string \<Rightarrow> string option"
  we_pause :: "string \<Rightarrow> bool"
  we_drain_hold :: bool
  we_home :: "string \<Rightarrow> bool"
  we_call :: "string \<Rightarrow> string \<Rightarrow> call_record option"
  we_hosted :: "string \<Rightarrow> bool"
  we_resume_minutes :: "int option"
  we_chat :: "queue_row \<Rightarrow> utf16 + string"
  we_stop :: "string \<Rightarrow> utf16 option"

section \<open>Reading and writing tables\<close>

definition update_where :: "('a \<Rightarrow> bool) \<Rightarrow> ('a \<Rightarrow> 'a) \<Rightarrow> 'a list \<Rightarrow> 'a list" where
  "update_where p f xs = map (\<lambda>x. if p x then f x else x) xs"

definition first_by :: "('a \<Rightarrow> 'k::linorder) \<Rightarrow> 'a list \<Rightarrow> 'a option" where
  "first_by k xs = (case sort_key k xs of [] \<Rightarrow> None | x # _ \<Rightarrow> Some x)"

fun first_seen :: "'a list \<Rightarrow> 'a list" where
  "first_seen [] = []"
| "first_seen (x # xs) = x # filter (\<lambda>y. y \<noteq> x) (first_seen xs)"

abbreviation upd_tasks :: "(bg_task \<Rightarrow> bool) \<Rightarrow> (bg_task \<Rightarrow> bg_task) \<Rightarrow> wake_db \<Rightarrow> wake_db" where
  "upd_tasks p f db \<equiv> db\<lparr>wd_tasks := update_where p f (wd_tasks db)\<rparr>"

abbreviation upd_rows :: "(queue_row \<Rightarrow> bool) \<Rightarrow> (queue_row \<Rightarrow> queue_row) \<Rightarrow> wake_db \<Rightarrow> wake_db" where
  "upd_rows p f db \<equiv> db\<lparr>wd_rows := update_where p f (wd_rows db)\<rparr>"

definition get_task :: "string \<Rightarrow> wake_db \<Rightarrow> bg_task option" where
  "get_task i db = find (\<lambda>t. bt_id t = i) (wd_tasks db)"

definition get_row :: "nat \<Rightarrow> wake_db \<Rightarrow> queue_row option" where
  "get_row i db = find (\<lambda>r. qr_id r = i) (wd_rows db)"

definition get_chat :: "string \<Rightarrow> wake_db \<Rightarrow> chat_row option" where
  "get_chat s db = find (\<lambda>c. ch_id c = s) (wd_chats db)"

definition get_card :: "string \<Rightarrow> wake_db \<Rightarrow> card_row option" where
  "get_card i db = find (\<lambda>c. ci_id c = i) (wd_cards db)"

definition is_final :: "task_status \<Rightarrow> bool" where
  "is_final s \<longleftrightarrow> s = Task_completed \<or> s = Task_failed \<or> s = Task_cancelled"

definition is_closed_category :: "string option \<Rightarrow> bool" where
  "is_closed_category c \<longleftrightarrow> c = Some ''done'' \<or> c = Some ''dismissed''"

definition cap_output :: "utf16 \<Rightarrow> utf16" where
  "cap_output s = (if length s > output_cap then slice_last output_cap s else s)"

definition truthy16 :: "utf16 option \<Rightarrow> utf16 option" where
  "truthy16 v = (case v of None \<Rightarrow> None | Some s \<Rightarrow> if s = [] then None else Some s)"

definition compile_until :: "wake_env \<Rightarrow> utf16 option \<Rightarrow> (utf16 \<Rightarrow> bool) option" where
  "compile_until env p = (case truthy16 p of None \<Rightarrow> None | Some s \<Rightarrow> we_regex env s)"

text \<open>The ids an operation accepts: at most 64 units long, the first 200 of them.\<close>

definition clean_ids :: "string list \<Rightarrow> string list" where
  "clean_ids ids = take 200 (filter (\<lambda>i. length i \<le> 64) ids)"

definition format_task_note :: "bg_task \<Rightarrow> utf16" where
  "format_task_note t =
     (case truthy16 (bt_note t) of
        Some n \<Rightarrow> n
      | None \<Rightarrow>
          (let outcome = (if bt_status t = Task_cancelled then lit ''was cancelled'' else status_text (bt_status t));
               head = lit ''[Task update] '' @ bt_title t @ lit '' ('' @ lit (bt_id t) @ lit '') '' @ outcome @ lit ''.'';
               src = (if bt_output t \<noteq> [] then bt_output t else (case truthy16 (bt_summary t) of Some s \<Rightarrow> s | None \<Rightarrow> []));
               tl16 = trim16 src
           in if tl16 = [] then head
              else head @ [10] @ lit ''Last output:'' @ [10] @
                   (if length tl16 > tail_chars then 8230 # slice_last tail_chars tl16 else tl16)))"

section \<open>Workspace pause\<close>

definition workspace_id_for_session :: "wake_env \<Rightarrow> chat_row \<Rightarrow> string option" where
  "workspace_id_for_session env c =
     (case truthy (ch_workspace c) of
        Some w \<Rightarrow> Some w
      | None \<Rightarrow>
          (case truthy (ch_context_id c) of
             Some p \<Rightarrow> if ch_project_context c then we_project_workspace env p else None
           | None \<Rightarrow> None))"

definition is_workspace_agents_paused :: "wake_env \<Rightarrow> string \<Rightarrow> bool" where
  "is_workspace_agents_paused env w \<longleftrightarrow> we_drain_hold env \<or> (w \<noteq> [] \<and> we_pause env w)"

definition is_session_workspace_paused :: "wake_env \<Rightarrow> chat_row \<Rightarrow> bool" where
  "is_session_workspace_paused env c =
     (case truthy (workspace_id_for_session env c) of Some w \<Rightarrow> is_workspace_agents_paused env w | None \<Rightarrow> False)"

definition is_chat_session_workspace_paused :: "wake_env \<Rightarrow> string \<Rightarrow> wake_db \<Rightarrow> bool" where
  "is_chat_session_workspace_paused env s db =
     (case get_chat s db of Some c \<Rightarrow> is_session_workspace_paused env c | None \<Rightarrow> False)"

section \<open>Timers, consumption, settling\<close>

definition schedule_task_wake :: "string \<Rightarrow> wake_db \<Rightarrow> wake_db" where
  "schedule_task_wake s db =
     (if s \<in> set (wd_wake_timers db) then db else db\<lparr>wd_wake_timers := wd_wake_timers db @ [s]\<rparr>)"

text \<open>A timer that is set already is cleared and set again: it stays in the list and runs from now.\<close>

definition schedule_hold_expiry :: "string \<Rightarrow> wake_db \<Rightarrow> wake_db" where
  "schedule_hold_expiry s db = db\<lparr>wd_hold_timers := filter (\<lambda>x. x \<noteq> s) (wd_hold_timers db) @ [s]\<rparr>"

definition consume_tasks :: "string list \<Rightarrow> wake_db \<Rightarrow> wake_db" where
  "consume_tasks ids db =
     upd_tasks (\<lambda>t. bt_id t \<in> set (clean_ids ids) \<and> \<not> (bt_source t = ''work_item'' \<and> bt_status t = Task_running))
       (\<lambda>t. t\<lparr>bt_consumed := True\<rparr>) db"

definition silence_session_tasks :: "string \<Rightarrow> wake_db \<Rightarrow> nat \<times> wake_db" where
  "silence_session_tasks s db =
     (let p = (\<lambda>t. bt_session t = s \<and> \<not> bt_consumed t);
          db = db\<lparr>wd_wake_timers := filter (\<lambda>x. x \<noteq> s) (wd_wake_timers db),
                   wd_hold_timers := filter (\<lambda>x. x \<noteq> s) (wd_hold_timers db)\<rparr>
      in (length (filter p (wd_tasks db)), upd_tasks p (\<lambda>t. t\<lparr>bt_consumed := True\<rparr>) db))"

definition cancel_task :: "int \<Rightarrow> string \<Rightarrow> wake_db \<Rightarrow> wake_db" where
  "cancel_task now i db =
     (case get_task i db of
        None \<Rightarrow> db
      | Some t \<Rightarrow>
          if is_final (bt_status t) then db
          else upd_tasks (\<lambda>u. bt_id u = i)
                 (\<lambda>u. u\<lparr>bt_status := Task_cancelled, bt_summary := Some (lit ''cancelled''),
                         bt_finished := Some now, bt_consumed := True\<rparr>) db)"

definition expire_stale :: "int \<Rightarrow> string option \<Rightarrow> wake_db \<Rightarrow> wake_db" where
  "expire_stale now s db =
     (let db = upd_tasks (\<lambda>t. bt_status t = Task_running \<and> bt_expires t < now \<and> (case truthy s of None \<Rightarrow> True | Some x \<Rightarrow> bt_session t = x))
                 (\<lambda>t. t\<lparr>bt_status := Task_failed, bt_summary := Some (lit ''Stopped tracking: it ran past its time limit.''),
                         bt_finished := Some now, bt_notify := False\<rparr>) db
      in db\<lparr>wd_tasks := filter (\<lambda>t. \<not> bt_expires t < now - task_ttl_ms) (wd_tasks db)\<rparr>)"

definition card_thread_busy :: "wake_env \<Rightarrow> string \<Rightarrow> wake_db \<Rightarrow> bool" where
  "card_thread_busy env i db =
     (case get_card i db of
        None \<Rightarrow> False
      | Some c \<Rightarrow> (case truthy (ci_thread c) of None \<Rightarrow> False | Some th \<Rightarrow> we_busy env th))"

definition hold_tasks :: "int \<Rightarrow> bg_task list \<Rightarrow> wake_db \<Rightarrow> wake_db" where
  "hold_tasks now rows db =
     (if rows = [] then db
      else fold schedule_hold_expiry (first_seen (map bt_session rows))
             (upd_tasks (\<lambda>t. bt_id t \<in> set (map bt_id rows)) (\<lambda>t. t\<lparr>bt_held := Some (now + card_hold_ms)\<rparr>) db))"

definition append_line :: "utf16 \<Rightarrow> utf16 \<Rightarrow> utf16" where
  "append_line out line = cap_output (if out = [] then line else out @ [10] @ line)"

definition release_tasks :: "bg_task list \<Rightarrow> utf16 option \<Rightarrow> wake_db \<Rightarrow> wake_db" where
  "release_tasks rows line db =
     fold schedule_task_wake (first_seen (map bt_session rows))
       (fold (\<lambda>row db. upd_tasks (\<lambda>t. bt_id t = bt_id row)
                (\<lambda>t. t\<lparr>bt_held := None,
                        bt_output := (case truthy16 line of None \<Rightarrow> bt_output row | Some l \<Rightarrow> append_line (bt_output row) l)\<rparr>) db)
          rows db)"

definition held_card_tasks :: "string \<Rightarrow> int option \<Rightarrow> wake_db \<Rightarrow> bg_task list" where
  "held_card_tasks i since db =
     take 50 (filter (\<lambda>t. bt_source t = ''work_item'' \<and> bt_target t = i \<and> bt_status t \<noteq> Task_running \<and>
       bt_notified t = None \<and> \<not> bt_consumed t \<and> bt_notify t \<and>
       (bt_held t \<noteq> None \<or> (case (since, bt_finished t) of (Some x, Some f) \<Rightarrow> x \<le> f | _ \<Rightarrow> False))) (wd_tasks db))"

definition settle_task :: "wake_env \<Rightarrow> int \<Rightarrow> string \<Rightarrow> task_status \<Rightarrow> utf16 option \<Rightarrow> wake_db \<Rightarrow> wake_db" where
  "settle_task env now i status summary db =
     (let db = upd_tasks (\<lambda>t. bt_id t = i)
                 (\<lambda>t. t\<lparr>bt_status := status,
                         bt_summary := Some (case summary of Some s \<Rightarrow> s | None \<Rightarrow> status_text status),
                         bt_finished := Some now\<rparr>) db
      in case get_task i db of
           None \<Rightarrow> db
         | Some t \<Rightarrow>
             if \<not> bt_notify t \<or> bt_consumed t then db
             else if bt_source t = ''work_item'' \<and> card_thread_busy env (bt_target t) db then hold_tasks now [t] db
             else schedule_task_wake (bt_session t) db)"

definition rearm_card_watch :: "int \<Rightarrow> bg_task \<Rightarrow> wake_db \<Rightarrow> wake_db" where
  "rearm_card_watch now row db =
     (if bt_source row \<noteq> ''work_item'' \<or> truthy16 (bt_until row) = None then db
      else if bt_expires row \<le> now then db
      else case find (\<lambda>c. ci_id c = bt_target row \<and> \<not> ci_archived c) (wd_cards db) of
             None \<Rightarrow> db
           | Some c \<Rightarrow>
               if is_closed_category (case ci_column c of None \<Rightarrow> None | Some (cat, _) \<Rightarrow> cat) then db
               else if truthy (case ci_assignee c of Some a \<Rightarrow> Some a
                               | None \<Rightarrow> (case ci_column c of None \<Rightarrow> None | Some (_, a) \<Rightarrow> a)) = None then db
               else upd_tasks (\<lambda>t. bt_id t = bt_id row)
                      (\<lambda>t. t\<lparr>bt_status := Task_running, bt_consumed := False, bt_notified := None, bt_attempts := 0,
                              bt_finished := None, bt_held := None, bt_summary := None, bt_output := []\<rparr>) db)"

section \<open>Events\<close>

record card_event =
  ce_category :: "string option"
  ce_terminal :: bool

record task_event =
  te_status :: "task_status option"
  te_line :: "utf16 option"
  te_summary :: "utf16 option"
  te_card :: "card_event option"
  te_from_agent :: "string option"

definition reply_event :: "string option \<Rightarrow> utf16 option \<Rightarrow> task_event" where
  "reply_event agent_status text =
     \<lparr>te_status = Some (if agent_status = Some ''error'' then Task_failed
                        else if agent_status = Some ''stopped'' then Task_cancelled else Task_completed),
      te_line = truthy16 (map_option trim16 text),
      te_summary = Some (lit (if agent_status = Some ''error'' then ''the agent hit an error'' else ''replied'')),
      te_card = None, te_from_agent = None\<rparr>"

definition apply_event :: "wake_env \<Rightarrow> int \<Rightarrow> bg_task \<Rightarrow> task_event \<Rightarrow> wake_db \<Rightarrow> wake_db" where
  "apply_event env now row ev db =
     (let out = (case truthy16 (te_line ev) of None \<Rightarrow> bt_output row | Some l \<Rightarrow> append_line (bt_output row) l);
          db = (if truthy16 (te_line ev) = None then db
                else upd_tasks (\<lambda>t. bt_id t = bt_id row) (\<lambda>t. t\<lparr>bt_output := out\<rparr>) db);
          closed = is_closed_category (case te_card ev of None \<Rightarrow> None | Some c \<Rightarrow> ce_category c)
      in case te_status ev of
           Some st \<Rightarrow> settle_task env now (bt_id row) st (te_summary ev) db
         | None \<Rightarrow>
             if (case te_card ev of Some c \<Rightarrow> ce_terminal c | None \<Rightarrow> False)
             then settle_task env now (bt_id row) Task_completed (Some (lit ''the card is closed'')) db
             else (case compile_until env (bt_until row) of
                     None \<Rightarrow> db
                   | Some matches \<Rightarrow>
                       if matches out
                       then settle_task env now (bt_id row) Task_completed
                              (Some (if closed then lit ''the card is closed''
                                     else lit ''matched '' @ (case bt_until row of Some u \<Rightarrow> u | None \<Rightarrow> []))) db
                       else db))"

definition agent_ref :: "chat_row \<Rightarrow> string" where
  "agent_ref c =
     (case truthy (ch_context_id c) of
        Some p \<Rightarrow> if ch_project_context c then ''project:'' @ p else ''workspace''
      | None \<Rightarrow> ''workspace'')"

definition watched_by_agent :: "bg_task list \<Rightarrow> string option \<Rightarrow> wake_db \<Rightarrow> string list" where
  "watched_by_agent rows agent db =
     (case truthy agent of
        None \<Rightarrow> []
      | Some a \<Rightarrow> map bt_id (filter (\<lambda>t. \<exists>c\<in>set (wd_chats db). ch_id c = bt_session t \<and> agent_ref c = a) rows))"

definition event_targets :: "string \<Rightarrow> string \<Rightarrow> wake_db \<Rightarrow> bg_task list" where
  "event_targets source target db =
     take 50 (filter (\<lambda>t. bt_source t = source \<and> bt_target t = target \<and>
       (bt_status t = Task_running \<or>
        (bt_status t = Task_completed \<and> bt_notify t \<and> \<not> bt_consumed t \<and> bt_notified t = None \<and> bt_until t \<noteq> None)))
       (wd_tasks db))"

definition emit_task_event :: "wake_env \<Rightarrow> int \<Rightarrow> string \<Rightarrow> string \<Rightarrow> task_event \<Rightarrow> wake_db \<Rightarrow> nat \<times> wake_db" where
  "emit_task_event env now source target ev db =
     (let rows = event_targets source target db;
          own = watched_by_agent rows (te_from_agent ev) db;
          heard = filter (\<lambda>t. bt_id t \<notin> set own) rows
      in (length heard, fold (\<lambda>t db. apply_event env now t ev db) heard db))"

section \<open>Registering tasks\<close>

datatype task_error = Invalid_id | Invalid_source | Invalid_target | Invalid_until

definition task_id_ok :: "string \<Rightarrow> bool" where
  "task_id_ok i \<longleftrightarrow>
     take 2 i = ''t_'' \<and> 4 \<le> length (drop 2 i) \<and> length (drop 2 i) \<le> 32 \<and>
     list_all (\<lambda>c. let n = code_unit c in (65 \<le> n \<and> n \<le> 90) \<or> (97 \<le> n \<and> n \<le> 122) \<or> (48 \<le> n \<and> n \<le> 57)) (drop 2 i)"

definition remote_sources :: "string list" where
  "remote_sources = [''project_call'', ''agent_reply'', ''work_item'']"

definition split_ref :: "string \<Rightarrow> string \<times> string" where
  "split_ref ref =
     (case dropWhile (\<lambda>c. c \<noteq> CHR '':'') (rev ref) of
        [] \<Rightarrow> (ref, [])
      | _ # before \<Rightarrow> (rev before, rev (takeWhile (\<lambda>c. c \<noteq> CHR '':'') (rev ref))))"

definition settle_if_already_done :: "wake_env \<Rightarrow> int \<Rightarrow> bg_task \<Rightarrow> wake_db \<Rightarrow> (bool \<times> wake_db)" where
  "settle_if_already_done env now row db =
     (if bt_source row \<noteq> ''project_call'' then (False, db)
      else let (pid, run) = split_ref (bt_target row)
           in if pid = [] \<or> run = [] then (False, db)
              else case we_call env pid run of
                     None \<Rightarrow> (False, db)
                   | Some r \<Rightarrow>
                       if cr_status r = ''running'' then (False, db)
                       else (True, apply_event env now row
                              \<lparr>te_status = Some (if cr_status r = ''completed'' then Task_completed else Task_failed),
                               te_line = (case cr_reply r of Some x \<Rightarrow> Some x | None \<Rightarrow> cr_error r),
                               te_summary = (if cr_status r = ''completed'' then Some (lit ''replied'') else cr_error r),
                               te_card = None, te_from_agent = None\<rparr> db))"

definition new_task :: "int \<Rightarrow> string \<Rightarrow> string \<Rightarrow> string \<Rightarrow> string \<Rightarrow> utf16 \<Rightarrow> utf16 option \<Rightarrow> bg_task" where
  "new_task now i s source target title until =
     \<lparr>bt_id = i, bt_session = s, bt_source = source, bt_target = take 500 (js_trim target),
      bt_title = take 300 (if title = [] then lit source else title), bt_status = Task_running, bt_output = [],
      bt_summary = None, bt_until = until, bt_note = None, bt_notify = True, bt_consumed = False, bt_notified = None,
      bt_attempts = 0, bt_next = None, bt_held = None, bt_finished = None,
      bt_expires = now + (if source = ''work_item'' \<or> source = ''project_call'' then card_task_ttl_ms else task_ttl_ms),
      bt_created = now\<rparr>"

definition create_task ::
  "wake_env \<Rightarrow> int \<Rightarrow> string \<Rightarrow> string \<Rightarrow> string \<Rightarrow> string \<Rightarrow> utf16 \<Rightarrow> utf16 option \<Rightarrow> wake_db \<Rightarrow> (task_error + unit) \<times> wake_db" where
  "create_task env now i s source target title until db =
     (if \<not> task_id_ok i then (Inl Invalid_id, db)
      else if source \<notin> set remote_sources then (Inl Invalid_source, db)
      else if js_trim target = [] then (Inl Invalid_target, db)
      else if truthy16 until \<noteq> None \<and> compile_until env until = None then (Inl Invalid_until, db)
      else let db = expire_stale now (Some s) db
           in case get_task i db of
                Some _ \<Rightarrow> (Inr (), db)
              | None \<Rightarrow>
                  let t = new_task now i s source target title until
                  in (Inr (), snd (settle_if_already_done env now t (db\<lparr>wd_tasks := wd_tasks db @ [t]\<rparr>))))"

text \<open>A task the runtime finished by itself. The status text is one of the runtime's; anything that is not final counts
  as completed.\<close>

record local_notice =
  ln_id :: string
  ln_source :: string
  ln_title :: utf16
  ln_status :: task_status
  ln_text :: utf16

definition notify_local_task :: "int \<Rightarrow> string \<Rightarrow> local_notice \<Rightarrow> nat \<times> wake_db \<Rightarrow> nat \<times> wake_db" where
  "notify_local_task now s n acc =
     (let (k, db) = acc; status = (if is_final (ln_status n) then ln_status n else Task_completed)
      in if \<not> task_id_ok (ln_id n) then acc
         else case get_task (ln_id n) db of
                Some t \<Rightarrow>
                  if bt_source t \<in> set remote_sources then acc
                  else if bt_status t = status \<and> (bt_notified t \<noteq> None \<or> bt_consumed t) then acc
                  else (k + 1, upd_tasks (\<lambda>u. bt_id u = ln_id n)
                          (\<lambda>u. u\<lparr>bt_status := status, bt_note := Some (take 8000 (ln_text n)), bt_finished := Some now\<rparr>) db)
              | None \<Rightarrow>
                  (k + 1, db\<lparr>wd_tasks := wd_tasks db @
                     [\<lparr>bt_id = ln_id n, bt_session = s,
                       bt_source = take 40 (if ln_source n = [] then ''shell'' else ln_source n),
                       bt_target = ln_id n, bt_title = take 300 (if ln_title n = [] then lit (ln_id n) else ln_title n),
                       bt_status = status, bt_output = [], bt_summary = Some (status_text status), bt_until = None,
                       bt_note = Some (take 8000 (ln_text n)), bt_notify = True, bt_consumed = False,
                       bt_notified = None, bt_attempts = 0, bt_next = None, bt_held = None, bt_finished = Some now,
                       bt_expires = now + task_ttl_ms, bt_created = now\<rparr>]\<rparr>))"

definition notify_local_tasks :: "int \<Rightarrow> string \<Rightarrow> local_notice list \<Rightarrow> wake_db \<Rightarrow> nat \<times> wake_db" where
  "notify_local_tasks now s notices db =
     (let (k, db') = fold (notify_local_task now s) (take 50 notices) (0, db)
      in (k, if k = 0 then db' else schedule_task_wake s db'))"

end
