(* ===== verification/Wake_Delivery.thy ===== *)
theory Wake_Delivery
  imports Wake_Tasks
begin

text \<open>
  The second half of \<^verbatim>\<open>background-tasks.service.ts\<close>: how a finished task becomes a queued wake message, what
  counts as a run of wakes, and how a wake that was not delivered is handed back, held or given up. Starting the
  dispatcher after queueing (\<^verbatim>\<open>void dispatchNext(...)\<close>) is left to the caller.
\<close>

section \<open>Reading wake messages\<close>

definition is_task_wake_message :: "wake_part list \<Rightarrow> bool" where
  "is_task_wake_message ps = list_ex (\<lambda>p. case p of Wake_part _ _ \<Rightarrow> True | _ \<Rightarrow> False) ps"

definition is_autonomous_user_message :: "wake_part list \<Rightarrow> bool" where
  "is_autonomous_user_message ps =
     list_ex (\<lambda>p. case p of Wake_part _ _ \<Rightarrow> True | Resume_part _ \<Rightarrow> True | _ \<Rightarrow> False) ps"

fun task_wake_ids_from_parts :: "wake_part list \<Rightarrow> string list" where
  "task_wake_ids_from_parts [] = []"
| "task_wake_ids_from_parts (Wake_part ids _ # ps) = ids"
| "task_wake_ids_from_parts (p # ps) = task_wake_ids_from_parts ps"

definition task_wake_resets_run :: "wake_part list \<Rightarrow> bool" where
  "task_wake_resets_run ps = list_ex (\<lambda>p. case p of Wake_part _ reset \<Rightarrow> reset | _ \<Rightarrow> False) ps"

section \<open>Runs of wakes\<close>

text \<open>The trailing run, newest first: resumes are passed over, a person's message ends it.\<close>

fun wake_run :: "chat_message list \<Rightarrow> chat_message list" where
  "wake_run [] = []"
| "wake_run (m # ms) =
     (if is_task_wake_message (cm_parts m) then m # wake_run ms
      else if is_autonomous_user_message (cm_parts m) then wake_run ms else [])"

definition task_started_at :: "wake_db \<Rightarrow> string \<Rightarrow> int" where
  "task_started_at db i = (case get_task i db of Some t \<Rightarrow> bt_created t | None \<Rightarrow> 0)"

fun count_waits :: "wake_db \<Rightarrow> chat_message list \<Rightarrow> nat" where
  "count_waits db [] = 0"
| "count_waits db [m] = 1"
| "count_waits db (m # older # ms) =
     (let ids = task_wake_ids_from_parts (cm_parts m);
          rearmed = list_ex (\<lambda>i. i \<in> set (task_wake_ids_from_parts (cm_parts older))) ids;
          newest = fold (\<lambda>i n. max n (task_started_at db i)) ids 0
      in (if rearmed \<or> newest > cm_at older then 1 else 0) + count_waits db (older # ms))"

definition recent_user_messages :: "string \<Rightarrow> nat \<Rightarrow> wake_db \<Rightarrow> chat_message list" where
  "recent_user_messages s limit db =
     take (limit * 2 + 2) (sort_key (\<lambda>m. - cm_at m) (filter (\<lambda>m. cm_session m = s \<and> cm_from_user m) (wd_msgs db)))"

definition consecutive_wake_waits :: "string \<Rightarrow> nat \<Rightarrow> wake_db \<Rightarrow> nat" where
  "consecutive_wake_waits s limit db =
     (case wake_run (recent_user_messages s limit db) of
        [] \<Rightarrow> 0
      | m # ms \<Rightarrow> if task_wake_resets_run (cm_parts m) then 1 else count_waits db (m # ms))"

section \<open>Queueing wakes\<close>

definition wake_user_for :: "wake_env \<Rightarrow> chat_row \<Rightarrow> wake_db \<Rightarrow> string option" where
  "wake_user_for env c db =
     (case truthy (ch_created_by c) of
        Some u \<Rightarrow> Some u
      | None \<Rightarrow>
          (case truthy (map_option qr_user (first_by (\<lambda>r. - qr_created r) (filter (\<lambda>r. qr_session r = ch_id c) (wd_rows db)))) of
             Some u \<Rightarrow> Some u
           | None \<Rightarrow> (case truthy (workspace_id_for_session env c) of None \<Rightarrow> None | Some w \<Rightarrow> we_owner env w)))"

definition wake_due :: "int \<Rightarrow> bg_task \<Rightarrow> bool" where
  "wake_due now t \<longleftrightarrow>
     bt_status t \<noteq> Task_running \<and> bt_notify t \<and> \<not> bt_consumed t \<and> bt_notified t = None \<and>
     (case bt_held t of None \<Rightarrow> True | Some h \<Rightarrow> h \<le> now)"

definition tail_position :: "string \<Rightarrow> wake_db \<Rightarrow> int" where
  "tail_position s db =
     (case map qr_position (filter (\<lambda>r. qr_session r = s) (wd_rows db)) of [] \<Rightarrow> -1 | p # ps \<Rightarrow> fold max ps p)"

definition wake_row :: "int \<Rightarrow> nat \<Rightarrow> string \<Rightarrow> string \<Rightarrow> int \<Rightarrow> bg_task \<Rightarrow> queue_row" where
  "wake_row now i s user pos t =
     \<lparr>qr_id = i, qr_session = s, qr_user = user, qr_position = pos, qr_status = Row_pending, qr_kind = Kind_wake,
      qr_content = format_task_note t,
      qr_parts = Some [Text_part (format_task_note t), Wake_part [bt_id t] False],
      qr_body = \<lparr>wb_text = Some (format_task_note t), wb_task_ids = [bt_id t], wb_reset = False, wb_paused = False,
                 wb_resume_attempts = 0\<rparr>,
      qr_error = None, qr_created = now, qr_updated = now\<rparr>"

text \<open>One task of the batch: claimed only while nobody has claimed it, read again, queued, and the watch of a card
  that is still open put back.\<close>

definition enqueue_one :: "int \<Rightarrow> string \<Rightarrow> string \<Rightarrow> bg_task \<Rightarrow> int \<times> nat \<times> wake_db \<Rightarrow> int \<times> nat \<times> wake_db" where
  "enqueue_one now s user task acc =
     (let (pos, queued, db) = acc
      in if \<not> list_ex (\<lambda>t. bt_id t = bt_id task \<and> bt_notified t = None) (wd_tasks db) then acc
         else
           (let db = upd_tasks (\<lambda>t. bt_id t = bt_id task \<and> bt_notified t = None) (\<lambda>t. t\<lparr>bt_notified := Some now\<rparr>) db;
                fresh = (case get_task (bt_id task) db of Some t \<Rightarrow> t | None \<Rightarrow> task);
                db = db\<lparr>wd_rows := wd_rows db @ [wake_row now (wd_next_id db) s user (pos + 1) fresh],
                        wd_next_id := wd_next_id db + 1\<rparr>
            in (pos + 1, queued + 1, rearm_card_watch now fresh db)))"

definition wake_batch :: "int \<Rightarrow> string \<Rightarrow> wake_db \<Rightarrow> bg_task list" where
  "wake_batch now s db =
     take 20 (sort_key (\<lambda>t. (case bt_finished t of Some f \<Rightarrow> f | None \<Rightarrow> 0))
       (sort_key bt_created (filter (\<lambda>t. bt_session t = s \<and> wake_due now t) (wd_tasks db))))"

definition enqueue_task_wake :: "wake_env \<Rightarrow> int \<Rightarrow> string \<Rightarrow> wake_db \<Rightarrow> bool \<times> wake_db" where
  "enqueue_task_wake env now s db =
     (case get_chat s db of
        None \<Rightarrow> (False, db)
      | Some c \<Rightarrow>
          if is_session_workspace_paused env c then (False, db)
          else if wake_batch now s db = [] then (False, db)
          else case truthy (wake_user_for env c db) of
                 None \<Rightarrow> (False, db)
               | Some user \<Rightarrow>
                   (let (_, queued, db') = fold (enqueue_one now s user) (wake_batch now s db) (tail_position s db, 0, db)
                    in (queued \<noteq> 0, db')))"

text \<open>The coalesce timer and the hold timer of a session run out.\<close>

definition wake_timer_fires :: "wake_env \<Rightarrow> int \<Rightarrow> string \<Rightarrow> wake_db \<Rightarrow> wake_db" where
  "wake_timer_fires env now s db =
     (if s \<in> set (wd_wake_timers db)
      then snd (enqueue_task_wake env now s (db\<lparr>wd_wake_timers := filter (\<lambda>x. x \<noteq> s) (wd_wake_timers db)\<rparr>)) else db)"

definition hold_timer_fires :: "string \<Rightarrow> wake_db \<Rightarrow> wake_db" where
  "hold_timer_fires s db =
     (if s \<in> set (wd_hold_timers db)
      then schedule_task_wake s (db\<lparr>wd_hold_timers := filter (\<lambda>x. x \<noteq> s) (wd_hold_timers db)\<rparr>) else db)"

section \<open>Handing wakes back\<close>

definition backoff_delay :: "nat \<Rightarrow> int" where
  "backoff_delay attempts = wake_retry_backoff_ms ! min attempts (length wake_retry_backoff_ms - 1)"

definition claimed_unseen :: "string list \<Rightarrow> bg_task \<Rightarrow> bool" where
  "claimed_unseen ids t \<longleftrightarrow> bt_id t \<in> set (clean_ids ids) \<and> \<not> bt_consumed t \<and> bt_notified t \<noteq> None"

definition release_one :: "int \<Rightarrow> bg_task \<Rightarrow> bg_task" where
  "release_one now t =
     (if bt_attempts t + 1 \<ge> max_wake_attempts
      then t\<lparr>bt_attempts := bt_attempts t + 1, bt_held := Some (bt_expires t)\<rparr>
      else t\<lparr>bt_notified := None, bt_held := None, bt_attempts := bt_attempts t + 1,
             bt_next := Some (now + backoff_delay (bt_attempts t))\<rparr>)"

definition release_task_wakes :: "int \<Rightarrow> string list \<Rightarrow> wake_db \<Rightarrow> (nat \<times> string list) \<times> wake_db" where
  "release_task_wakes now ids db =
     (let rows = filter (claimed_unseen ids) (wd_tasks db);
          capped = filter (\<lambda>t. bt_attempts t + 1 \<ge> max_wake_attempts) rows
      in ((length rows - length capped, map bt_id capped), upd_tasks (claimed_unseen ids) (release_one now) db))"

definition hold_task_wakes :: "string list \<Rightarrow> wake_db \<Rightarrow> nat \<times> wake_db" where
  "hold_task_wakes ids db =
     (length (filter (claimed_unseen ids) (wd_tasks db)),
      upd_tasks (claimed_unseen ids)
        (\<lambda>t. t\<lparr>bt_held := Some (bt_expires t), bt_attempts := (if bt_attempts t < 1 then 1 else bt_attempts t)\<rparr>) db)"

definition pause_held :: "int \<Rightarrow> bg_task \<Rightarrow> bool" where
  "pause_held now t \<longleftrightarrow>
     bt_status t \<noteq> Task_running \<and> bt_notify t \<and> \<not> bt_consumed t \<and> bt_notified t \<noteq> None \<and>
     (case bt_held t of Some h \<Rightarrow> now < h | None \<Rightarrow> False) \<and> now < bt_expires t \<and> bt_attempts t < max_wake_attempts"

definition pause_held_tasks :: "int \<Rightarrow> wake_db \<Rightarrow> bg_task list" where
  "pause_held_tasks now db =
     filter (\<lambda>t. bt_held t = Some (bt_expires t)) (take 500 (filter (pause_held now) (wd_tasks db)))"

definition wake_limit :: "bg_task list \<Rightarrow> nat" where
  "wake_limit ts = (if list_all (\<lambda>t. bt_source t = ''work_item'') ts then max_consecutive_card_wakes else max_consecutive_wakes)"

definition release_lifted_session :: "bg_task list \<Rightarrow> string \<Rightarrow> nat \<times> wake_db \<Rightarrow> nat \<times> wake_db" where
  "release_lifted_session held s acc =
     (let (n, db) = acc;
          rows = filter (\<lambda>t. bt_session t = s) held;
          limit = wake_limit rows;
          p = (\<lambda>t. bt_id t \<in> set (map bt_id rows) \<and> \<not> bt_consumed t)
      in if limit \<le> consecutive_wake_waits s limit db then acc
         else (n + length (filter p (wd_tasks db)),
               upd_tasks p (\<lambda>t. t\<lparr>bt_held := None, bt_notified := None\<rparr>) db))"

definition release_lifted_pause_holds :: "int \<Rightarrow> wake_db \<Rightarrow> nat \<times> wake_db" where
  "release_lifted_pause_holds now db =
     (let held = pause_held_tasks now db
      in fold (release_lifted_session held) (first_seen (map bt_session held)) (0, db))"

section \<open>Sweeps\<close>

definition sweep_due :: "int \<Rightarrow> bg_task \<Rightarrow> bool" where
  "sweep_due now t \<longleftrightarrow>
     wake_due now t \<and> now < bt_expires t \<and> (case bt_next t of None \<Rightarrow> True | Some n \<Rightarrow> n \<le> now)"

definition sweep_session :: "wake_env \<Rightarrow> int \<Rightarrow> string \<Rightarrow> nat \<times> wake_db \<Rightarrow> nat \<times> wake_db" where
  "sweep_session env now s acc =
     (let (n, db) = acc
      in if \<not> we_home env s then acc
         else if is_chat_session_workspace_paused env s db then acc
         else let (queued, db') = enqueue_task_wake env now s db in (if queued then n + 1 else n, db'))"

definition sweep_unnotified_wakes :: "wake_env \<Rightarrow> int \<Rightarrow> nat \<Rightarrow> wake_db \<Rightarrow> nat \<times> wake_db" where
  "sweep_unnotified_wakes env now limit db =
     (let db = snd (release_lifted_pause_holds now db);
          sessions = take limit (first_seen (map bt_session (filter (sweep_due now) (wd_tasks db))))
      in fold (sweep_session env now) sessions (0, db))"

definition reconcile_stuck_tasks :: "wake_env \<Rightarrow> int \<Rightarrow> wake_db \<Rightarrow> nat \<times> wake_db" where
  "reconcile_stuck_tasks env now db =
     (let stuck = take 50 (filter (\<lambda>t. bt_source t = ''agent_reply'' \<and> bt_status t = Task_running \<and>
                                      bt_created t < now - agent_reply_reconcile_ms) (wd_tasks db));
          db = fold (\<lambda>t db. settle_task env now (bt_id t) Task_failed
                              (Some (lit ''the agent run ended without reporting back'')) db) stuck db;
          calls = take 50 (filter (\<lambda>t. bt_source t = ''project_call'' \<and> bt_status t = Task_running \<and>
                                      bt_created t < now - 5 * 60000) (wd_tasks db))
      in fold (\<lambda>t acc. (let (settled, db') = settle_if_already_done env now t (snd acc)
                         in (if settled then fst acc + 1 else fst acc, db'))) calls (length stuck, db))"

text \<open>What a session is waiting to be told, read off its paused rows.\<close>

record wake_wait =
  ww_task :: string
  ww_source :: string
  ww_title :: utf16
  ww_finished :: "int option"

definition paused_rows :: "string \<Rightarrow> wake_db \<Rightarrow> queue_row list" where
  "paused_rows s db =
     take 50 (sort_key qr_position (sort_key qr_created (filter (\<lambda>r. qr_session r = s \<and> qr_kind r = Kind_wake \<and>
       qr_status r = Row_failed \<and> (case qr_error r of Some e \<Rightarrow> e \<in> set wake_paused_markers | None \<Rightarrow> False)) (wd_rows db))))"

definition wait_of :: "wake_db \<Rightarrow> queue_row \<Rightarrow> string \<Rightarrow> wake_wait" where
  "wait_of db r i =
     (case get_task i db of
        Some t \<Rightarrow> \<lparr>ww_task = i, ww_source = bt_source t, ww_title = bt_title t, ww_finished = bt_finished t\<rparr>
      | None \<Rightarrow> \<lparr>ww_task = i, ww_source = ''task'', ww_title = take 120 (takeWhile (\<lambda>u. u \<noteq> 10) (qr_content r)),
                 ww_finished = None\<rparr>)"

record wake_state =
  ws_paused :: bool
  ws_in_a_row :: nat
  ws_limit :: nat
  ws_waiting :: "wake_wait list"

definition session_wake_state :: "string \<Rightarrow> wake_db \<Rightarrow> wake_state" where
  "session_wake_state s db =
     (let rows = paused_rows s db;
          tasks = filter (\<lambda>t. bt_id t \<in> set (concat (map (\<lambda>r. wb_task_ids (qr_body r)) rows))) (wd_tasks db);
          waits = concat (map (\<lambda>r. map (\<lambda>i. wait_of db r i) (wb_task_ids (qr_body r))) rows);
          limit = (if tasks \<noteq> [] then wake_limit tasks else max_consecutive_wakes)
      in \<lparr>ws_paused = (rows \<noteq> []), ws_in_a_row = consecutive_wake_waits s limit db, ws_limit = limit,
          ws_waiting = fold (\<lambda>w acc. if list_ex (\<lambda>v. ww_task v = ww_task w) acc then acc else acc @ [w]) waits []\<rparr>)"

text \<open>A world for the concrete runs: nobody is paused, and the chat route refuses.\<close>

definition demo_host :: wake_env where
  "demo_host =
     \<lparr>we_regex = (\<lambda>_. None), we_busy = (\<lambda>_. False), we_project_workspace = (\<lambda>_. None), we_owner = (\<lambda>_. None),
      we_pause = (\<lambda>_. False), we_drain_hold = False, we_home = (\<lambda>_. True), we_call = (\<lambda>_ _. None),
      we_hosted = (\<lambda>_. False), we_resume_minutes = None, we_chat = (\<lambda>_. Inl [1]), we_stop = (\<lambda>_. None)\<rparr>"

end
