(* ===== verification/Chat_Resume.thy ===== *)
theory Chat_Resume
  imports Wake_Delivery
begin

text \<open>
  \<^verbatim>\<open>apps/api/src/services/chat-resume.service.ts\<close> with the wording of
  \<^verbatim>\<open>packages/shared-runtime/src/interrupted-turn.ts\<close>: what a transcript says of a turn that was cut off, and
  the one resume a session gets between two messages of a person. The dispatch that follows queueing is the
  caller's.
\<close>

section \<open>Wording\<close>

definition em_dash :: utf16 where "em_dash = [8212]"

definition interrupted_action :: "utf16 option \<Rightarrow> utf16" where
  "interrupted_action tool =
     (case truthy16 (map_option trim16 tool) of
        Some name \<Rightarrow> lit ''while running `'' @ name @ lit ''`''
      | None \<Rightarrow> lit ''while working'')"

definition interrupted_turn_note :: "utf16 option \<Rightarrow> bool \<Rightarrow> utf16" where
  "interrupted_turn_note tool resuming =
     lit ''I was interrupted '' @ interrupted_action tool @
     (if resuming then lit '' '' @ em_dash @ lit '' resuming.''
      else lit '' before the turn finished. The work so far is saved '' @ em_dash @
           lit '' send a message when you want me to pick it up.'')"

definition strip16 :: "utf16 \<Rightarrow> utf16 \<Rightarrow> utf16 option" where
  "strip16 p s = (if take (length p) s = p then Some (drop (length p) s) else None)"

text \<open>What follows the named step in a text of the note's shape: the capture of \<^verbatim>\<open>NOTE_PATTERN\<close>.\<close>

definition note_rest :: "utf16 \<Rightarrow> utf16 option" where
  "note_rest text =
     (case strip16 (lit ''I was interrupted '') text of
        None \<Rightarrow> None
      | Some r \<Rightarrow>
          (case strip16 (lit ''while running `'') r of
             Some q \<Rightarrow>
               (let name = takeWhile (\<lambda>u. u \<noteq> 96 \<and> u \<noteq> 10) q; after = drop (length name) q
                in if name \<noteq> [] \<and> after \<noteq> [] \<and> hd after = 96 then Some (tl after) else None)
           | None \<Rightarrow> strip16 (lit ''while working'') r))"

definition is_interrupted_turn_note :: "utf16 \<Rightarrow> bool \<Rightarrow> bool" where
  "is_interrupted_turn_note text resuming =
     (case note_rest (trim16 text) of
        None \<Rightarrow> False
      | Some rest \<Rightarrow> (strip16 (em_dash @ lit '' resuming'') (trim16 rest) \<noteq> None) = resuming)"

definition resume_instruction :: utf16 where
  "resume_instruction = lit ''Pick up exactly where you left off. Do not start over. Check the effect of the interrupted step before repeating it.''"

definition resume_max_age_minutes :: "int option \<Rightarrow> int" where
  "resume_max_age_minutes raw = (case raw of Some n \<Rightarrow> max 0 n | None \<Rightarrow> 360)"

definition note_dedupe_window_ms :: int where "note_dedupe_window_ms = 5 * 60000"

section \<open>Reading the transcript\<close>

definition newest_first :: "string \<Rightarrow> bool \<Rightarrow> wake_db \<Rightarrow> chat_message list" where
  "newest_first s from_user db =
     sort_key (\<lambda>m. - cm_at m) (filter (\<lambda>m. cm_session m = s \<and> cm_from_user m = from_user) (wd_msgs db))"

definition last_human_message_at :: "string \<Rightarrow> int \<Rightarrow> wake_db \<Rightarrow> int" where
  "last_human_message_at s created db =
     (case dropWhile (\<lambda>m. is_autonomous_user_message (cm_parts m)) (take 100 (newest_first s True db)) of
        m # _ \<Rightarrow> cm_at m
      | [] \<Rightarrow> created)"

definition has_resume_part :: "wake_part list \<Rightarrow> bool" where
  "has_resume_part ps = list_ex (\<lambda>p. case p of Resume_part _ \<Rightarrow> True | _ \<Rightarrow> False) ps"

definition resume_ran_since :: "string \<Rightarrow> int \<Rightarrow> wake_db \<Rightarrow> bool" where
  "resume_ran_since s since db =
     list_ex (\<lambda>m. has_resume_part (cm_parts m)) (take 100 (filter (\<lambda>m. since < cm_at m) (newest_first s True db)))"

definition in_flight_tool_name :: "wake_part list \<Rightarrow> utf16 option" where
  "in_flight_tool_name ps =
     (case List.map_filter (\<lambda>p. case p of Running_tool_part n \<Rightarrow> truthy16 (Some (trim16 n)) | _ \<Rightarrow> None) (rev ps) of
        [] \<Rightarrow> None
      | n # _ \<Rightarrow> Some n)"

definition is_interrupted_part :: "wake_part \<Rightarrow> bool" where
  "is_interrupted_part p = (case p of Interrupted_part _ _ \<Rightarrow> True | _ \<Rightarrow> False)"

definition has_text :: "wake_part \<Rightarrow> bool" where
  "has_text p = (case p of Text_part t \<Rightarrow> trim16 t \<noteq> [] | _ \<Rightarrow> False)"

section \<open>Stamping and resuming\<close>

text \<open>Result: whether the row was marked, and whether the note became its text.\<close>

definition stamp_turn_interrupted :: "int \<Rightarrow> string \<Rightarrow> utf16 \<Rightarrow> utf16 option \<Rightarrow> wake_db \<Rightarrow> (bool \<times> bool) \<times> wake_db" where
  "stamp_turn_interrupted now s reason note db =
     (case newest_first s False db of
        [] \<Rightarrow> ((False, False), db)
      | m # _ \<Rightarrow>
          if is_interrupted_turn_note (cm_content m) True \<or> is_interrupted_turn_note (cm_content m) False
          then ((False, False), db)
          else if list_ex is_interrupted_part (cm_parts m) then ((False, False), db)
          else
            (let empty = (trim16 (cm_content m) = [] \<and> \<not> list_ex has_text (cm_parts m));
                 text = (if empty then truthy16 (map_option trim16 note) else None);
                 parts = cm_parts m @ (case text of None \<Rightarrow> [] | Some t \<Rightarrow> [Text_part t]) @ [Interrupted_part now reason]
             in ((True, text \<noteq> None),
                 db\<lparr>wd_msgs := update_where (\<lambda>x. cm_id x = cm_id m)
                     (\<lambda>x. x\<lparr>cm_parts := parts, cm_content := (case text of None \<Rightarrow> cm_content x | Some t \<Rightarrow> t)\<rparr>) (wd_msgs db)\<rparr>)))"

datatype no_resume_reason = Already_resumed | Stale_session | No_user

definition workspace_owner_of :: "wake_env \<Rightarrow> chat_row \<Rightarrow> string option" where
  "workspace_owner_of env c = (case truthy (workspace_id_for_session env c) of None \<Rightarrow> None | Some w \<Rightarrow> we_owner env w)"

definition resume_refused :: "wake_env \<Rightarrow> int \<Rightarrow> chat_row \<Rightarrow> wake_db \<Rightarrow> no_resume_reason option" where
  "resume_refused env now c db =
     (let human = last_human_message_at (ch_id c) (ch_created c) db; age = resume_max_age_minutes (we_resume_minutes env)
      in if age = 0 \<or> now - human > age * 60000 then Some Stale_session
         else if resume_ran_since (ch_id c) human db then Some Already_resumed else None)"

definition interrupted_note_row :: "int \<Rightarrow> nat \<Rightarrow> string \<Rightarrow> utf16 \<Rightarrow> chat_message" where
  "interrupted_note_row now i s text =
     \<lparr>cm_id = i, cm_session = s, cm_from_user = False, cm_content = text, cm_parts = [Text_part text], cm_author = None,
      cm_at = now\<rparr>"

definition resume_row :: "int \<Rightarrow> nat \<Rightarrow> string \<Rightarrow> string \<Rightarrow> int \<Rightarrow> utf16 option \<Rightarrow> queue_row" where
  "resume_row now i s user pos tool =
     \<lparr>qr_id = i, qr_session = s, qr_user = user, qr_position = pos, qr_status = Row_pending, qr_kind = Kind_resume,
      qr_content = resume_instruction, qr_parts = Some [Text_part resume_instruction, Resume_part tool],
      qr_body = \<lparr>wb_text = Some resume_instruction, wb_task_ids = [], wb_reset = False, wb_paused = False,
                 wb_resume_attempts = 0\<rparr>,
      qr_error = None, qr_created = now, qr_updated = now\<rparr>"

record resume_result =
  rr_noted :: bool
  rr_queued :: bool
  rr_reason :: "no_resume_reason option"

definition queue_resume :: "wake_env \<Rightarrow> int \<Rightarrow> chat_row \<Rightarrow> utf16 option \<Rightarrow> bool \<Rightarrow> wake_db \<Rightarrow> resume_result \<times> wake_db" where
  "queue_resume env now c tool noted db =
     (case truthy (case ch_created_by c of Some u \<Rightarrow> Some u | None \<Rightarrow> workspace_owner_of env c) of
        None \<Rightarrow> (\<lparr>rr_noted = noted, rr_queued = False, rr_reason = Some No_user\<rparr>, db)
      | Some user \<Rightarrow>
          if list_ex (\<lambda>r. qr_session r = ch_id c \<and> qr_kind r = Kind_resume \<and> qr_status r \<noteq> Row_failed) (wd_rows db)
          then (\<lparr>rr_noted = noted, rr_queued = False, rr_reason = None\<rparr>, db)
          else (\<lparr>rr_noted = noted, rr_queued = True, rr_reason = None\<rparr>,
                db\<lparr>wd_rows := wd_rows db @ [resume_row now (wd_next_id db) (ch_id c) user (tail_position (ch_id c) db + 1) tool],
                    wd_next_id := wd_next_id db + 1\<rparr>))"

definition post_interrupted_resume ::
  "wake_env \<Rightarrow> int \<Rightarrow> string \<Rightarrow> bool \<Rightarrow> utf16 option \<Rightarrow> wake_db \<Rightarrow> resume_result \<times> wake_db" where
  "post_interrupted_resume env now s resume tool_name db =
     (case get_chat s db of
        None \<Rightarrow> (\<lparr>rr_noted = False, rr_queued = False, rr_reason = None\<rparr>, db)
      | Some c \<Rightarrow>
          if (case workspace_id_for_session env c of Some w \<Rightarrow> we_hosted env w | None \<Rightarrow> False)
          then (\<lparr>rr_noted = False, rr_queued = False, rr_reason = None\<rparr>, db)
          else
            (let latest = (case newest_first s False db of [] \<Rightarrow> None | m # _ \<Rightarrow> Some m);
                 refused = (if resume then resume_refused env now c db else None);
                 resuming = (resume \<and> refused = None);
                 tool = (case truthy16 (map_option trim16 tool_name) of
                           Some n \<Rightarrow> Some n
                         | None \<Rightarrow> in_flight_tool_name (case latest of Some m \<Rightarrow> cm_parts m | None \<Rightarrow> []));
                 note = interrupted_turn_note tool resuming;
                 recent = (case latest of
                             None \<Rightarrow> False
                           | Some m \<Rightarrow> now - note_dedupe_window_ms \<le> cm_at m \<and> is_interrupted_turn_note (cm_content m) resuming);
                 reason = (case tool of Some n \<Rightarrow> lit ''interrupted_'' @ n | None \<Rightarrow> lit ''interrupted'');
                 ((stamped, wrote), db) = stamp_turn_interrupted now s reason (if recent then None else Some note) db;
                 create = (\<not> recent \<and> \<not> wrote);
                 db = (if create
                       then db\<lparr>wd_msgs := wd_msgs db @ [interrupted_note_row now (wd_next_id db) s note],
                                wd_next_id := wd_next_id db + 1\<rparr> else db)
             in if resuming then queue_resume env now c tool (stamped \<or> create) db
                else (\<lparr>rr_noted = (stamped \<or> create), rr_queued = False, rr_reason = refused\<rparr>, db)))"

end
