(* ===== verification/Chat_Queue.thy ===== *)
theory Chat_Queue
  imports Chat_Resume "HOL-Library.Product_Lexorder"
begin

text \<open>
  \<^verbatim>\<open>apps/api/src/services/chat-queue-dispatcher.service.ts\<close>, the marker of a running turn
  (\<^verbatim>\<open>chat-turn-state.service.ts\<close>) and what a person does to the queue
  (\<^verbatim>\<open>routes/chat-queued-message-actions.ts\<close>, \<^verbatim>\<open>generated/chat-queued-message.hooks.ts\<close>). An operation is
  one function on the store \<open>wake_db\<close>: what runs between other starters' steps is in \<^verbatim>\<open>Queue_Races\<close>. The
  chat route is the argument \<open>we_chat\<close>: it answers an error, or the id of the turn, which it has marked as started.
\<close>

section \<open>Turns\<close>

definition mark_turn_started :: "int \<Rightarrow> string \<Rightarrow> string \<Rightarrow> wake_db \<Rightarrow> wake_db" where
  "mark_turn_started now s turn db =
     db\<lparr>wd_chats := update_where (\<lambda>c. ch_id c = s) (\<lambda>c. c\<lparr>ch_active := Some turn, ch_heartbeat := Some now\<rparr>) (wd_chats db)\<rparr>"

definition clear_turn :: "string \<Rightarrow> string \<Rightarrow> wake_db \<Rightarrow> wake_db" where
  "clear_turn s turn db =
     db\<lparr>wd_chats := update_where (\<lambda>c. ch_id c = s \<and> ch_active c = Some turn)
                     (\<lambda>c. c\<lparr>ch_active := None, ch_heartbeat := None\<rparr>) (wd_chats db)\<rparr>"

text \<open>Whether the queue is to be drained: only by the call that cleared the turn.\<close>

definition mark_turn_ended :: "string \<Rightarrow> string \<Rightarrow> wake_db \<Rightarrow> bool \<times> wake_db" where
  "mark_turn_ended s turn db =
     (list_ex (\<lambda>c. ch_id c = s \<and> ch_active c = Some turn) (wd_chats db), clear_turn s turn db)"

definition end_turn_and_drain :: "string \<Rightarrow> string option \<Rightarrow> wake_db \<Rightarrow> bool \<times> wake_db" where
  "end_turn_and_drain s turn db = (case truthy turn of None \<Rightarrow> (True, db) | Some t \<Rightarrow> mark_turn_ended s t db)"

definition heartbeat_turn :: "int \<Rightarrow> string \<Rightarrow> string \<Rightarrow> wake_db \<Rightarrow> wake_db" where
  "heartbeat_turn now s turn db =
     db\<lparr>wd_chats := update_where (\<lambda>c. ch_id c = s \<and> ch_active c = Some turn) (\<lambda>c. c\<lparr>ch_heartbeat := Some now\<rparr>) (wd_chats db)\<rparr>"

definition active_turn_stale_after_ms :: int where "active_turn_stale_after_ms = 10 * 60 * 1000"
definition dispatch_claim_stuck_after_ms :: int where "dispatch_claim_stuck_after_ms = 2 * 60 * 1000"
definition stale_task_wake_ms :: int where "stale_task_wake_ms = 6 * 60 * 60 * 1000"
definition stale_closed_card_wake_ms :: int where "stale_closed_card_wake_ms = 30 * 60 * 1000"
definition max_wakes_per_agent_per_tick :: nat where "max_wakes_per_agent_per_tick = 2"
definition max_wakes_per_tick :: nat where "max_wakes_per_tick = 8"

section \<open>Who may dispatch\<close>

definition chat_project_workspace :: "wake_env \<Rightarrow> chat_row \<Rightarrow> string option" where
  "chat_project_workspace env c = (case ch_context_id c of None \<Rightarrow> None | Some p \<Rightarrow> we_project_workspace env p)"

definition workspaces_of_chat :: "wake_env \<Rightarrow> chat_row \<Rightarrow> string list" where
  "workspaces_of_chat env c =
     (case truthy (ch_workspace c) of None \<Rightarrow> [] | Some w \<Rightarrow> [w]) @
     (case truthy (chat_project_workspace env c) of None \<Rightarrow> [] | Some w \<Rightarrow> [w])"

definition cloud_session_ids :: "wake_env \<Rightarrow> string list \<Rightarrow> wake_db \<Rightarrow> string list" where
  "cloud_session_ids env ids db =
     (let rows = filter (\<lambda>c. ch_id c \<in> set ids) (wd_chats db);
          blocked = filter (we_hosted env) (concat (map (workspaces_of_chat env) rows))
      in if blocked = [] then ids
         else map ch_id (filter (\<lambda>c. list_all (\<lambda>w. w \<notin> set blocked) (workspaces_of_chat env c)) rows))"

section \<open>Claims\<close>

definition live_claim :: "int \<Rightarrow> string \<Rightarrow> queue_row \<Rightarrow> bool" where
  "live_claim now s r \<longleftrightarrow>
     qr_session r = s \<and> qr_status r = Row_dispatching \<and> now - dispatch_claim_stuck_after_ms \<le> qr_updated r"

definition has_live_claim :: "int \<Rightarrow> string \<Rightarrow> nat option \<Rightarrow> wake_db \<Rightarrow> bool" where
  "has_live_claim now s except_row db = list_ex (\<lambda>r. live_claim now s r \<and> Some (qr_id r) \<noteq> except_row) (wd_rows db)"

definition is_session_idle :: "int \<Rightarrow> string \<Rightarrow> wake_db \<Rightarrow> bool \<times> wake_db" where
  "is_session_idle now s db =
     (if has_live_claim now s None db then (False, db)
      else case get_chat s db of
             None \<Rightarrow> (False, db)
           | Some c \<Rightarrow>
               (case truthy (ch_active c) of
                  None \<Rightarrow> (True, db)
                | Some turn \<Rightarrow>
                    if (case ch_heartbeat c of Some h \<Rightarrow> h | None \<Rightarrow> 0) > now - active_turn_stale_after_ms then (False, db)
                    else (True, clear_turn s turn db)))"

definition queue_place :: "queue_row \<Rightarrow> int \<times> int" where
  "queue_place r = (qr_position r, qr_created r)"

definition queue_rank :: "queue_row \<Rightarrow> int \<times> int \<times> nat" where
  "queue_rank r = (qr_position r, qr_created r, qr_id r)"

definition pending_rows :: "string \<Rightarrow> wake_db \<Rightarrow> queue_row list" where
  "pending_rows s db = filter (\<lambda>r. qr_session r = s \<and> qr_status r = Row_pending) (wd_rows db)"

definition next_candidate :: "string \<Rightarrow> wake_db \<Rightarrow> queue_row option" where
  "next_candidate s db = first_by queue_place (pending_rows s db)"

definition is_row :: "nat \<Rightarrow> string \<Rightarrow> queue_status \<Rightarrow> queue_row \<Rightarrow> bool" where
  "is_row i s st r \<longleftrightarrow> qr_id r = i \<and> qr_session r = s \<and> qr_status r = st"

text \<open>The conditional update \<^verbatim>\<open>pending\<close> to \<^verbatim>\<open>dispatching\<close>; \<^verbatim>\<open>updatedAt\<close> moves with every write.\<close>

definition try_claim :: "int \<Rightarrow> string \<Rightarrow> nat \<Rightarrow> wake_db \<Rightarrow> bool \<times> wake_db" where
  "try_claim now s i db =
     (length (filter (is_row i s Row_pending) (wd_rows db)) = 1,
      upd_rows (is_row i s Row_pending) (\<lambda>r. r\<lparr>qr_status := Row_dispatching, qr_error := None, qr_updated := now\<rparr>) db)"

definition give_back :: "int \<Rightarrow> string \<Rightarrow> nat \<Rightarrow> wake_db \<Rightarrow> wake_db" where
  "give_back now s i db =
     upd_rows (is_row i s Row_dispatching) (\<lambda>r. r\<lparr>qr_status := Row_pending, qr_updated := now\<rparr>) db"

definition earlier_live_claim :: "int \<Rightarrow> string \<Rightarrow> queue_row \<Rightarrow> wake_db \<Rightarrow> bool" where
  "earlier_live_claim now s cand db =
     list_ex (\<lambda>r. live_claim now s r \<and> qr_id r \<noteq> qr_id cand \<and> queue_rank r < queue_rank cand) (wd_rows db)"

definition claim_next :: "int \<Rightarrow> string \<Rightarrow> wake_db \<Rightarrow> queue_row option \<times> wake_db" where
  "claim_next now s db =
     (if has_live_claim now s None db then (None, db)
      else case next_candidate s db of
             None \<Rightarrow> (None, db)
           | Some cand \<Rightarrow>
               (let (ok, db) = try_claim now s (qr_id cand) db
                in if \<not> ok then (None, db)
                   else if earlier_live_claim now s cand db then (None, give_back now s (qr_id cand) db)
                   else (Some cand, db)))"

definition claim_row :: "int \<Rightarrow> string \<Rightarrow> nat \<Rightarrow> wake_db \<Rightarrow> queue_row option \<times> wake_db" where
  "claim_row now s i db =
     (case find (is_row i s Row_pending) (wd_rows db) of
        None \<Rightarrow> (None, db)
      | Some cand \<Rightarrow> (let (ok, db) = try_claim now s i db in (if ok then Some cand else None, db)))"

section \<open>Wakes nobody should run now\<close>

datatype wake_skip = Skip_consumed | Skip_stale | Skip_paused utf16

definition task_wake_skip_reason :: "wake_env \<Rightarrow> queue_row \<Rightarrow> wake_db \<Rightarrow> wake_skip option" where
  "task_wake_skip_reason env row db =
     (let ids = wb_task_ids (qr_body row);
          tasks = filter (\<lambda>t. bt_id t \<in> set ids) (wd_tasks db);
          cards_only = (ids \<noteq> [] \<and> list_all (\<lambda>t. bt_source t = ''work_item'') tasks);
          limit = (if cards_only then max_consecutive_card_wakes else max_consecutive_wakes)
      in if ids \<noteq> [] \<and> \<not> list_ex (\<lambda>t. \<not> bt_consumed t) tasks then Some Skip_consumed
         else if wb_reset (qr_body row) then None
         else if is_chat_session_workspace_paused env (qr_session row) db then Some (Skip_paused wake_workspace_paused)
         else if limit \<le> consecutive_wake_waits (qr_session row) limit db then Some (Skip_paused wake_paused)
         else None)"

definition is_stale_wake :: "int \<Rightarrow> queue_row \<Rightarrow> wake_db \<Rightarrow> bool" where
  "is_stale_wake now row db =
     (if wb_reset (qr_body row) then False
      else let age = now - qr_created row
           in if age > stale_task_wake_ms then True
              else if age \<le> stale_closed_card_wake_ms then False
              else let tasks = filter (\<lambda>t. bt_id t \<in> set (wb_task_ids (qr_body row))) (wd_tasks db);
                       refs = first_seen (map bt_target tasks);
                       items = filter (\<lambda>c. ci_id c \<in> set refs) (wd_cards db)
                   in if tasks = [] \<or> \<not> list_all (\<lambda>t. bt_source t = ''work_item'') tasks then False
                      else length items = length refs \<and>
                           list_all (\<lambda>c. ci_archived c \<or> is_closed_category (case ci_column c of None \<Rightarrow> None | Some (cat, _) \<Rightarrow> cat)) items)"

definition is_paused_marker :: "string \<Rightarrow> queue_row \<Rightarrow> bool" where
  "is_paused_marker s r \<longleftrightarrow>
     qr_session r = s \<and> qr_status r = Row_failed \<and> (case qr_error r of Some e \<Rightarrow> e \<in> set wake_paused_markers | None \<Rightarrow> False)"

definition clear_paused_wake_rows :: "string \<Rightarrow> nat option \<Rightarrow> wake_db \<Rightarrow> wake_db" where
  "clear_paused_wake_rows s keep db =
     db\<lparr>wd_rows := filter (\<lambda>r. \<not> (is_paused_marker s r \<and> Some (qr_id r) \<noteq> keep)) (wd_rows db)\<rparr>"

definition delete_row :: "nat \<Rightarrow> wake_db \<Rightarrow> wake_db" where
  "delete_row i db = db\<lparr>wd_rows := filter (\<lambda>r. qr_id r \<noteq> i) (wd_rows db)\<rparr>"

definition settle_skipped_wake :: "int \<Rightarrow> queue_row \<Rightarrow> wake_skip \<Rightarrow> wake_db \<Rightarrow> utf16 \<times> wake_db" where
  "settle_skipped_wake now row skip db =
     (case skip of
        Skip_consumed \<Rightarrow> (lit ''This update has already been delivered'', delete_row (qr_id row) db)
      | Skip_stale \<Rightarrow>
          (lit ''This update is too old to start a turn for'',
           delete_row (qr_id row) (consume_tasks (wb_task_ids (qr_body row)) db))
      | Skip_paused why \<Rightarrow>
          (why,
           snd (hold_task_wakes (wb_task_ids (qr_body row))
             (clear_paused_wake_rows (qr_session row) (Some (qr_id row))
               (upd_rows (\<lambda>r. qr_id r = qr_id row \<and> qr_status r = Row_dispatching)
                 (\<lambda>r. r\<lparr>qr_status := Row_failed, qr_error := Some why,
                         qr_body := (qr_body row)\<lparr>wb_paused := True\<rparr>, qr_updated := now\<rparr>) db)))))"

text \<open>Why the automatic drain does not start a claimed row; a person's message is never asked.\<close>

definition drain_skip :: "wake_env \<Rightarrow> int \<Rightarrow> queue_row \<Rightarrow> wake_db \<Rightarrow> wake_skip option" where
  "drain_skip env now row db =
     (if qr_kind row \<noteq> Kind_wake then None
      else case task_wake_skip_reason env row db of
             Some k \<Rightarrow> Some k
           | None \<Rightarrow> if is_stale_wake now row db then Some Skip_stale else None)"

text \<open>Rows of distinct ids, and the loop of the drain: each turn takes a row out of the queue.\<close>

lemma distinct_id_eq: "distinct (map qr_id xs) \<Longrightarrow> r \<in> set xs \<Longrightarrow> r' \<in> set xs \<Longrightarrow> qr_id r = qr_id r' \<Longrightarrow> r = r'"
  by (metis distinct_map inj_on_eq_iff)

lemma distinct_id_filter:
  assumes d: "distinct (map qr_id xs)" and r: "r \<in> set xs" "P r" and P: "\<And>x. P x \<Longrightarrow> qr_id x = qr_id r"
  shows "length (filter P xs) = 1"
proof -
  have "x = r" if "x \<in> set xs" "P x" for x
    using distinct_id_eq [OF d that(1) r(1) P [OF that(2)]] .
  with r have "set (filter P xs) = {r}"
    unfolding set_filter by blast
  moreover have "distinct (filter P xs)"
    using d by (simp add: distinct_map)
  ultimately show ?thesis
    by (simp flip: distinct_card)
qed

lemma length_filter_map_less:
  assumes "x \<in> set xs" "P x" "\<not> P (f x)" "\<And>y. y \<in> set xs \<Longrightarrow> P (f y) \<Longrightarrow> P y"
  shows "length (filter P (map f xs)) < length (filter P xs)"
  using assms
proof (induction xs)
  case (Cons y ys)
  have le: "length (filter P (map f zs)) \<le> length (filter P zs)" if "\<And>y. y \<in> set zs \<Longrightarrow> P (f y) \<Longrightarrow> P y" for zs
    using that by (induction zs) (auto simp: le_SucI)
  show ?case
  proof (cases "x = y")
    case True
    with Cons.prems le [of ys] show ?thesis by (auto simp: less_Suc_eq_le)
  next
    case False
    with Cons.prems Cons.IH show ?thesis by (auto simp: less_SucI)
  qed
qed simp

lemma first_by_mem: "first_by k xs = Some x \<Longrightarrow> x \<in> set xs"
  by (auto simp: first_by_def split: list.splits) (metis list.set_intros(1) set_sort)

lemma claim_next_pending:
  assumes "claim_next now s db = (Some row, db')"
  shows "length (pending_rows s db') < length (pending_rows s db)"
proof -
  from assms obtain ok where cand: "next_candidate s db = Some row"
    and claim: "try_claim now s (qr_id row) db = (ok, db')"
    by (auto simp: claim_next_def Let_def split: if_splits option.splits prod.splits)
  have "row \<in> set (pending_rows s db)"
    using cand by (auto simp: next_candidate_def dest: first_by_mem)
  then have row: "row \<in> set (wd_rows db)" "qr_session row = s" "qr_status row = Row_pending"
    by (auto simp: pending_rows_def)
  have db': "wd_rows db' = map (\<lambda>r. if is_row (qr_id row) s Row_pending r
      then r\<lparr>qr_status := Row_dispatching, qr_error := None, qr_updated := now\<rparr> else r) (wd_rows db)"
    using claim by (auto simp: try_claim_def update_where_def)
  show ?thesis
    unfolding pending_rows_def db'
    by (rule length_filter_map_less [OF row(1)]) (use row in \<open>auto simp: is_row_def split: if_splits\<close>)
qed

lemma length_filter_mono: "(\<And>x. Q x \<Longrightarrow> P x) \<Longrightarrow> length (filter Q xs) \<le> length (filter P xs)"
  by (induction xs) (auto simp: le_SucI)

lemma settle_skipped_pending:
  "length (pending_rows s (snd (settle_skipped_wake now row skip db))) \<le> length (pending_rows s db)"
  by (cases skip)
     (auto simp: settle_skipped_wake_def pending_rows_def delete_row_def consume_tasks_def hold_task_wakes_def
        clear_paused_wake_rows_def update_where_def filter_map o_def intro!: length_filter_mono split: if_splits)

function claim_next_dispatchable :: "wake_env \<Rightarrow> int \<Rightarrow> string \<Rightarrow> wake_db \<Rightarrow> queue_row option \<times> wake_db" where
  "claim_next_dispatchable env now s db =
     (case claim_next now s db of
        (None, db') \<Rightarrow> (None, db')
      | (Some row, db') \<Rightarrow>
          (case drain_skip env now row db' of
             None \<Rightarrow> (Some row, db')
           | Some skip \<Rightarrow> claim_next_dispatchable env now s (snd (settle_skipped_wake now row skip db'))))"
  by pat_completeness auto
termination
  by (relation "measure (\<lambda>(env, now, s, db). length (pending_rows s db))")
     (auto dest!: sym [of "(Some _, _)"] intro: le_less_trans [OF settle_skipped_pending claim_next_pending])

declare claim_next_dispatchable.simps [simp del]

section \<open>Starting a claimed row\<close>

datatype row_outcome = Row_started nat | Row_not_started nat utf16

definition message_of_row :: "int \<Rightarrow> queue_row \<Rightarrow> chat_message" where
  "message_of_row now row =
     \<lparr>cm_id = qr_id row, cm_session = qr_session row, cm_from_user = True, cm_content = qr_content row,
      cm_parts = (case qr_parts row of Some ps \<Rightarrow> ps | None \<Rightarrow> [Text_part (qr_content row)]),
      cm_author = (if qr_kind row = Kind_wake then None else Some (qr_user row)), cm_at = now\<rparr>"

definition persist_queued_user_message :: "int \<Rightarrow> queue_row \<Rightarrow> wake_db \<Rightarrow> wake_db" where
  "persist_queued_user_message now row db =
     (if list_ex (\<lambda>m. cm_id m = qr_id row) (wd_msgs db) then db
      else db\<lparr>wd_msgs := wd_msgs db @ [message_of_row now row]\<rparr>)"

definition dispatch_row :: "wake_env \<Rightarrow> int \<Rightarrow> queue_row \<Rightarrow> wake_db \<Rightarrow> utf16 option \<times> wake_db" where
  "dispatch_row env now row db =
     (case get_chat (qr_session row) db of
        None \<Rightarrow> (Some (lit ''Chat session no longer exists''), db)
      | Some c \<Rightarrow>
          if (ch_project_context c \<and> truthy (ch_context_id c) \<noteq> None) \<or> truthy (ch_workspace c) \<noteq> None
          then (case we_chat env row of
                  Inl e \<Rightarrow> (Some e, db)
                | Inr turn \<Rightarrow> (None, mark_turn_started now (qr_session row) turn db))
          else (Some (lit ''Chat session has no dispatchable project or workspace''), db))"

definition resume_attempts :: "wake_body \<Rightarrow> int" where
  "resume_attempts b = (if wb_resume_attempts b > 0 then wb_resume_attempts b else 0)"

definition resume_tool_name :: "wake_part list \<Rightarrow> utf16 option" where
  "resume_tool_name ps =
     (case List.map_filter (\<lambda>p. case p of Resume_part n \<Rightarrow> truthy16 (map_option trim16 n) | _ \<Rightarrow> None) ps of
        [] \<Rightarrow> None
      | n # _ \<Rightarrow> Some n)"

text \<open>The tasks of a wake that never ran go back; the message persisted for it goes, unless a turn is running.\<close>

definition release_task_wake :: "int \<Rightarrow> queue_row \<Rightarrow> wake_db \<Rightarrow> string list \<times> wake_db" where
  "release_task_wake now row db =
     (let ((_, capped), db) = release_task_wakes now (wb_task_ids (qr_body row)) db;
          running = (case get_chat (qr_session row) db of Some c \<Rightarrow> truthy (ch_active c) \<noteq> None | None \<Rightarrow> False)
      in (capped, if running then db else db\<lparr>wd_msgs := filter (\<lambda>m. cm_id m \<noteq> qr_id row) (wd_msgs db)\<rparr>))"

definition collapsible :: "string \<Rightarrow> nat \<Rightarrow> queue_row \<Rightarrow> bool" where
  "collapsible s keep r \<longleftrightarrow>
     qr_session r = s \<and> qr_kind r = Kind_wake \<and> qr_status r = Row_failed \<and> qr_id r \<noteq> keep \<and>
     \<not> (case qr_error r of Some e \<Rightarrow> e \<in> set wake_paused_markers | None \<Rightarrow> False)"

definition collapse_failed_wake_rows :: "string \<Rightarrow> nat \<Rightarrow> string list \<Rightarrow> wake_db \<Rightarrow> wake_db" where
  "collapse_failed_wake_rows s keep ids db =
     (let stale = map qr_id (filter (\<lambda>r. list_ex (\<lambda>i. i \<in> set ids) (wb_task_ids (qr_body r)))
                    (take 100 (filter (collapsible s keep) (wd_rows db))))
      in if ids = [] then db else db\<lparr>wd_rows := filter (\<lambda>r. qr_id r \<notin> set stale) (wd_rows db)\<rparr>)"

definition set_failed :: "int \<Rightarrow> nat \<Rightarrow> queue_status \<Rightarrow> utf16 \<Rightarrow> wake_db \<Rightarrow> wake_db" where
  "set_failed now i was err db =
     upd_rows (\<lambda>r. qr_id r = i \<and> qr_status r = was)
       (\<lambda>r. r\<lparr>qr_status := Row_failed, qr_error := Some (take 4000 err), qr_updated := now\<rparr>) db"

definition fail_wake :: "int \<Rightarrow> queue_row \<Rightarrow> utf16 \<Rightarrow> wake_db \<Rightarrow> wake_db" where
  "fail_wake now row err db =
     (let (capped, db) = release_task_wake now row db;
          db = collapse_failed_wake_rows (qr_session row) (qr_id row) (wb_task_ids (qr_body row)) db
      in if capped = [] then db
         else set_failed now (qr_id row) Row_failed (lit ''Could not deliver this update after 5 attempts: '' @ err) db)"

definition retry_resume :: "wake_env \<Rightarrow> int \<Rightarrow> queue_row \<Rightarrow> utf16 \<Rightarrow> wake_db \<Rightarrow> wake_db" where
  "retry_resume env now row err db =
     (let attempts = resume_attempts (qr_body row) + 1
      in if attempts < int max_wake_attempts
         then upd_rows (\<lambda>r. qr_id r = qr_id row \<and> qr_status r = Row_failed)
                (\<lambda>r. r\<lparr>qr_status := Row_pending, qr_error := Some (take 4000 err),
                        qr_body := (qr_body row)\<lparr>wb_resume_attempts := attempts\<rparr>, qr_updated := now\<rparr>) db
         else snd (post_interrupted_resume env now (qr_session row) False
                     (resume_tool_name (case qr_parts row of Some ps \<Rightarrow> ps | None \<Rightarrow> []))
                     (set_failed now (qr_id row) Row_failed
                        (lit ''Could not resume this turn after 5 attempts: '' @ err) db)))"

definition start_claimed_row :: "wake_env \<Rightarrow> int \<Rightarrow> queue_row \<Rightarrow> wake_db \<Rightarrow> row_outcome \<times> wake_db" where
  "start_claimed_row env now row db =
     (case dispatch_row env now row (persist_queued_user_message now row db) of
        (None, db) \<Rightarrow>
          (let db = (if qr_kind row = Kind_wake then consume_tasks (wb_task_ids (qr_body row)) db else db)
           in (Row_started (qr_id row), clear_paused_wake_rows (qr_session row) None (delete_row (qr_id row) db)))
      | (Some err, db) \<Rightarrow>
          (let db = set_failed now (qr_id row) Row_dispatching err db;
               db = (if qr_kind row = Kind_wake then fail_wake now row err db else db);
               db = (if qr_kind row = Kind_resume then retry_resume env now row err db else db)
           in (Row_not_started (qr_id row) err, db)))"

definition outcome_started :: "row_outcome \<Rightarrow> bool" where
  "outcome_started x = (case x of Row_started _ \<Rightarrow> True | Row_not_started _ _ \<Rightarrow> False)"

section \<open>Dispatching\<close>

definition dispatch_next :: "wake_env \<Rightarrow> int \<Rightarrow> string \<Rightarrow> wake_db \<Rightarrow> bool \<times> wake_db" where
  "dispatch_next env now s db =
     (if cloud_session_ids env [s] db = [] then (False, db)
      else if \<not> we_home env s then (False, db)
      else (let (idle, db) = is_session_idle now s db
            in if \<not> idle then (False, db)
               else case claim_next_dispatchable env now s db of
                      (None, db) \<Rightarrow> (False, db)
                    | (Some row, db) \<Rightarrow> (let (out, db) = start_claimed_row env now row db in (outcome_started out, db))))"

definition dispatch_queued_row :: "wake_env \<Rightarrow> int \<Rightarrow> string \<Rightarrow> nat \<Rightarrow> wake_db \<Rightarrow> row_outcome \<times> wake_db" where
  "dispatch_queued_row env now s i db =
     (if \<not> we_home env s then (Row_not_started i (lit ''This chat is served from another region '' @ em_dash @ lit '' try again there''), db)
      else if has_live_claim now s (Some i) db
      then (Row_not_started i (lit ''Another queued message in this chat is already starting '' @ em_dash @ lit '' try again in a moment''), db)
      else case claim_row now s i db of
             (Some row, db) \<Rightarrow>
               (case (if qr_kind row = Kind_wake then task_wake_skip_reason env row db else None) of
                  Some skip \<Rightarrow> (let (why, db) = settle_skipped_wake now row skip db in (Row_not_started i why, db))
                | None \<Rightarrow> start_claimed_row env now row db)
           | (None, db) \<Rightarrow>
               (case get_row i db of
                  None \<Rightarrow> (Row_started i, db)
                | Some r \<Rightarrow>
                    if qr_status r = Row_dispatching then (Row_started i, db)
                    else (Row_not_started i (case qr_error r of Some e \<Rightarrow> e | None \<Rightarrow> lit ''This message could not be started''), db)))"

definition reset_stuck_dispatching :: "wake_env \<Rightarrow> int \<Rightarrow> int \<Rightarrow> wake_db \<Rightarrow> nat \<times> wake_db" where
  "reset_stuck_dispatching env now older_than db =
     (let p = (\<lambda>r. qr_status r = Row_dispatching \<and> qr_updated r < older_than \<and> we_home env (qr_session r))
      in (length (filter p (wd_rows db)),
          upd_rows p (\<lambda>r. r\<lparr>qr_status := Row_pending,
                               qr_error := Some (lit ''Recovered after an interrupted dispatch''), qr_updated := now\<rparr>) db))"

definition agent_of :: "wake_db \<Rightarrow> string \<Rightarrow> string" where
  "agent_of db s =
     (case get_chat s db of
        None \<Rightarrow> s
      | Some c \<Rightarrow>
          (case (ch_project_context c, truthy (ch_context_id c)) of
             (True, Some p) \<Rightarrow> ''project:'' @ p
           | _ \<Rightarrow> ''workspace:'' @ (case ch_workspace c of Some w \<Rightarrow> w | None \<Rightarrow> s)))"

text \<open>The state of one tick: wakes started, the same by agent, sessions started, and the sessions tried, which the code
  does not keep.\<close>

record tick_state =
  tk_wakes :: nat
  tk_per_agent :: "(string, nat) ordmap"
  tk_dispatched :: nat
  tk_tried :: "string list"
  tk_started :: "(bool \<times> string) list"

definition wakes_of :: "string \<Rightarrow> tick_state \<Rightarrow> nat" where
  "wakes_of a k = (case om_get (tk_per_agent k) a of Some n \<Rightarrow> n | None \<Rightarrow> 0)"

definition tick_session ::
  "wake_env \<Rightarrow> int \<Rightarrow> (string \<Rightarrow> bool) \<Rightarrow> (string \<Rightarrow> string) \<Rightarrow> string \<Rightarrow> tick_state \<times> wake_db \<Rightarrow> tick_state \<times> wake_db" where
  "tick_session env now person agent s acc =
     (let (k, db) = acc
      in if \<not> person s \<and> (tk_wakes k \<ge> max_wakes_per_tick \<or> wakes_of (agent s) k \<ge> max_wakes_per_agent_per_tick)
         then acc
         else (let (started, db) = dispatch_next env now s db; k = k\<lparr>tk_tried := tk_tried k @ [s]\<rparr>
               in if \<not> started then (k, db)
                  else let k = k\<lparr>tk_dispatched := tk_dispatched k + 1, tk_started := tk_started k @ [(person s, s)]\<rparr>
                       in (if person s then k
                           else k\<lparr>tk_wakes := tk_wakes k + 1,
                                   tk_per_agent := om_set (agent s) (wakes_of (agent s) k + 1) (tk_per_agent k)\<rparr>, db)))"

definition tick_sessions :: "wake_env \<Rightarrow> wake_db \<Rightarrow> string list" where
  "tick_sessions env db =
     (let waiting = first_seen (map qr_session (filter (\<lambda>r. qr_status r = Row_pending \<and> we_home env (qr_session r)) (wd_rows db)));
          allowed = cloud_session_ids env waiting db
      in filter (\<lambda>s. s \<in> set allowed) waiting)"

definition has_person :: "wake_db \<Rightarrow> string \<Rightarrow> bool" where
  "has_person db s = list_ex (\<lambda>r. qr_session r = s \<and> qr_status r = Row_pending \<and> qr_kind r \<noteq> Kind_wake) (wd_rows db)"

definition empty_tick :: tick_state where
  "empty_tick = \<lparr>tk_wakes = 0, tk_per_agent = [], tk_dispatched = 0, tk_tried = [], tk_started = []\<rparr>"

definition dispatch_pending_sessions :: "wake_env \<Rightarrow> int \<Rightarrow> wake_db \<Rightarrow> tick_state \<times> wake_db" where
  "dispatch_pending_sessions env now db =
     fold (tick_session env now (has_person db) (agent_of db)) (tick_sessions env db) (empty_tick, db)"

text \<open>One pass of the queue worker (\<^verbatim>\<open>jobs/run-chat-queue-drain.ts\<close>), without the sweep of team-chat wakes.\<close>

definition run_chat_queue_drain :: "wake_env \<Rightarrow> int \<Rightarrow> wake_db \<Rightarrow> wake_db" where
  "run_chat_queue_drain env now db =
     (let db = snd (reconcile_stuck_tasks env now db);
          db = snd (sweep_unnotified_wakes env now 50 db);
          db = snd (reset_stuck_dispatching env now (now - dispatch_claim_stuck_after_ms) db)
      in snd (dispatch_pending_sessions env now db))"

section \<open>What a person does to the queue\<close>

text \<open>Access to the session has been checked, and the request stands in the home region.\<close>

datatype queue_reply =
  Re_ok | Re_not_found | Re_busy | Re_bad_request | Re_stop_failed utf16 | Re_dispatch_failed utf16

definition enqueue_user_message ::
  "int \<Rightarrow> string \<Rightarrow> string \<Rightarrow> utf16 \<Rightarrow> wake_part list option \<Rightarrow> wake_body \<Rightarrow> wake_db \<Rightarrow> wake_db" where
  "enqueue_user_message now s user content parts body db =
     db\<lparr>wd_rows := wd_rows db @
           [\<lparr>qr_id = wd_next_id db, qr_session = s, qr_user = user, qr_position = tail_position s db + 1,
             qr_status = Row_pending, qr_kind = Kind_user, qr_content = content, qr_parts = parts, qr_body = body,
             qr_error = None, qr_created = now, qr_updated = now\<rparr>],
        wd_next_id := wd_next_id db + 1\<rparr>"

definition patch_status :: "int \<Rightarrow> nat \<Rightarrow> queue_status \<Rightarrow> wake_db \<Rightarrow> queue_reply \<times> wake_db" where
  "patch_status now i st db =
     (case get_row i db of
        None \<Rightarrow> (Re_not_found, db)
      | Some r \<Rightarrow>
          if qr_status r = Row_dispatching then (Re_busy, db)
          else if st = Row_dispatching then (Re_bad_request, db)
          else (Re_ok, upd_rows (\<lambda>x. qr_id x = i)
                  (\<lambda>x. x\<lparr>qr_status := st, qr_error := (if st = Row_pending then None else qr_error x), qr_updated := now\<rparr>) db))"

definition remove_row :: "nat \<Rightarrow> wake_db \<Rightarrow> queue_reply \<times> wake_db" where
  "remove_row i db =
     (case get_row i db of
        None \<Rightarrow> (Re_not_found, db)
      | Some r \<Rightarrow> if qr_status r = Row_dispatching then (Re_busy, db) else (Re_ok, delete_row i db))"

definition queue_neighbor :: "bool \<Rightarrow> queue_row \<Rightarrow> wake_db \<Rightarrow> queue_row option" where
  "queue_neighbor up row db =
     (let rows = filter (\<lambda>r. qr_session r = qr_session row \<and> qr_status r \<noteq> Row_dispatching \<and>
                        (if up then qr_position r < qr_position row else qr_position row < qr_position r)) (wd_rows db)
      in first_by (\<lambda>r. (if up then - qr_position r else qr_position r, qr_created r)) rows)"

definition reorder_row :: "int \<Rightarrow> nat \<Rightarrow> bool \<Rightarrow> wake_db \<Rightarrow> queue_reply \<times> wake_db" where
  "reorder_row now i up db =
     (case get_row i db of
        None \<Rightarrow> (Re_not_found, db)
      | Some row \<Rightarrow>
          if qr_status row = Row_dispatching then (Re_busy, db)
          else case queue_neighbor up row db of
                 None \<Rightarrow> (Re_ok, db)
               | Some n \<Rightarrow>
                   (Re_ok,
                    upd_rows (\<lambda>r. qr_id r = qr_id n) (\<lambda>r. r\<lparr>qr_position := qr_position row, qr_updated := now\<rparr>)
                      (upd_rows (\<lambda>r. qr_id r = i) (\<lambda>r. r\<lparr>qr_position := qr_position n, qr_updated := now\<rparr>) db)))"

text \<open>Send now, up to the dispatch: the row goes to the head of the queue.\<close>

definition promote_row :: "int \<Rightarrow> queue_row \<Rightarrow> wake_db \<Rightarrow> wake_db" where
  "promote_row now row db =
     (let rows = filter (\<lambda>r. qr_session r = qr_session row \<and> qr_status r \<noteq> Row_dispatching) (wd_rows db);
          first = (case first_by queue_place rows of Some r \<Rightarrow> qr_position r | None \<Rightarrow> qr_position row)
      in upd_rows (\<lambda>r. qr_id r = qr_id row)
           (\<lambda>r. r\<lparr>qr_position := first - 1, qr_status := Row_pending, qr_error := None, qr_updated := now\<rparr>) db)"

definition send_now :: "wake_env \<Rightarrow> int \<Rightarrow> nat \<Rightarrow> wake_db \<Rightarrow> queue_reply \<times> wake_db" where
  "send_now env now i db =
     (case get_row i db of
        None \<Rightarrow> (Re_not_found, db)
      | Some row \<Rightarrow>
          if qr_status row = Row_dispatching then (Re_busy, db)
          else if has_live_claim now (qr_session row) (Some i) db then (Re_busy, db)
          else
            (let turn = (case get_chat (qr_session row) db of Some c \<Rightarrow> truthy (ch_active c) | None \<Rightarrow> None);
                 db = promote_row now row db
             in case (if turn = None then None else we_stop env (qr_session row)) of
                  Some e \<Rightarrow> (Re_stop_failed e, db)
                | None \<Rightarrow>
                    (let db = (case turn of None \<Rightarrow> db | Some t \<Rightarrow> clear_turn (qr_session row) t db);
                         (out, db) = dispatch_queued_row env now (qr_session row) i db
                     in (case out of Row_started _ \<Rightarrow> Re_ok | Row_not_started _ e \<Rightarrow> Re_dispatch_failed e, db))))"

definition reset_part :: "wake_part \<Rightarrow> wake_part" where
  "reset_part p = (case p of Wake_part ids _ \<Rightarrow> Wake_part ids True | _ \<Rightarrow> p)"

text \<open>Resume a paused update: pending again, with the mark that ends the run of wakes. The dispatch is the caller's.\<close>

definition resume_wake :: "int \<Rightarrow> nat \<Rightarrow> wake_db \<Rightarrow> queue_reply \<times> wake_db" where
  "resume_wake now i db =
     (case get_row i db of
        None \<Rightarrow> (Re_not_found, db)
      | Some row \<Rightarrow>
          if qr_kind row \<noteq> Kind_wake then (Re_bad_request, db)
          else if qr_status row = Row_dispatching then (Re_busy, db)
          else (Re_ok, upd_rows (\<lambda>r. qr_id r = i)
                 (\<lambda>r. r\<lparr>qr_status := Row_pending, qr_error := None,
                         qr_body := (qr_body row)\<lparr>wb_paused := False, wb_reset := True\<rparr>,
                         qr_parts := Some (map reset_part (case qr_parts row of Some ps \<Rightarrow> ps | None \<Rightarrow> [Text_part (qr_content row)])),
                         qr_updated := now\<rparr>) db))"

end
