(* ===== verification/Queue_Races.thy ===== *)
theory Queue_Races
  imports Chat_Queue
begin

text \<open>
  Several starters on one session's queue: the drain worker, the end of a turn, a new message, a click on Send now.
  \<^verbatim>\<open>claimNext\<close>, and \<^verbatim>\<open>dispatchQueuedRow\<close> up to its claim, are cut at their database calls; between two
  calls of one starter any other event may happen.
\<close>

section \<open>Starters\<close>

datatype starter =
  St_check | St_pick | St_claim queue_row | St_verify queue_row | St_back queue_row
| Sn_check nat | Sn_find nat | Sn_claim queue_row
| St_won queue_row | St_lost

definition starter_step :: "int \<Rightarrow> string \<Rightarrow> starter \<Rightarrow> wake_db \<Rightarrow> starter \<times> wake_db" where
  "starter_step now s st db =
     (case st of
        St_check \<Rightarrow> (if has_live_claim now s None db then St_lost else St_pick, db)
      | St_pick \<Rightarrow> (case next_candidate s db of None \<Rightarrow> St_lost | Some c \<Rightarrow> St_claim c, db)
      | St_claim c \<Rightarrow> (let (ok, db) = try_claim now s (qr_id c) db in (if ok then St_verify c else St_lost, db))
      | St_verify c \<Rightarrow> (if earlier_live_claim now s c db then St_back c else St_won c, db)
      | St_back c \<Rightarrow> (St_lost, give_back now s (qr_id c) db)
      | Sn_check i \<Rightarrow> (if has_live_claim now s (Some i) db then St_lost else Sn_find i, db)
      | Sn_find i \<Rightarrow> (case find (is_row i s Row_pending) (wd_rows db) of None \<Rightarrow> St_lost | Some c \<Rightarrow> Sn_claim c, db)
      | Sn_claim c \<Rightarrow> (let (ok, db) = try_claim now s (qr_id c) db in (if ok then St_won c else St_lost, db))
      | St_won c \<Rightarrow> (St_won c, db)
      | St_lost \<Rightarrow> (St_lost, db))"

record race =
  rc_db :: wake_db
  rc_starters :: "starter list"

text \<open>Besides the starters' steps: a message a person queues, the write of a click on Send now (the row as the click
  read it), and the row of a turn that has started being deleted.\<close>

datatype race_event =
  Ev_step int nat
| Ev_enqueue int string utf16 "wake_part list option" wake_body
| Ev_promote int queue_row
| Ev_delete nat

definition race_exec :: "string \<Rightarrow> race_event \<Rightarrow> race \<Rightarrow> race" where
  "race_exec s e w =
     (case e of
        Ev_step now p \<Rightarrow>
          if p < length (rc_starters w)
          then (let (st, db) = starter_step now s (rc_starters w ! p) (rc_db w)
                in w\<lparr>rc_db := db, rc_starters := (rc_starters w)[p := st]\<rparr>)
          else w
      | Ev_enqueue now user text parts body \<Rightarrow> w\<lparr>rc_db := enqueue_user_message now s user text parts body (rc_db w)\<rparr>
      | Ev_promote now row \<Rightarrow> w\<lparr>rc_db := promote_row now row (rc_db w)\<rparr>
      | Ev_delete i \<Rightarrow> w\<lparr>rc_db := delete_row i (rc_db w)\<rparr>)"

text \<open>The steps are the operation: a starter alone does what \<open>claim_next\<close> does.\<close>

definition alone :: "int \<Rightarrow> string \<Rightarrow> starter \<times> wake_db \<Rightarrow> starter \<times> wake_db" where
  "alone now s x = starter_step now s (fst x) (snd x)"

definition won_row :: "starter \<Rightarrow> queue_row option" where
  "won_row st = (case st of St_won c \<Rightarrow> Some c | _ \<Rightarrow> None)"

lemma alone_simps:
  "alone now s (St_check, db) = (if has_live_claim now s None db then St_lost else St_pick, db)"
  "alone now s (St_pick, db) = (case next_candidate s db of None \<Rightarrow> St_lost | Some c \<Rightarrow> St_claim c, db)"
  "alone now s (St_claim c, db) = (if fst (try_claim now s (qr_id c) db) then St_verify c else St_lost, snd (try_claim now s (qr_id c) db))"
  "alone now s (St_verify c, db) = (if earlier_live_claim now s c db then St_back c else St_won c, db)"
  "alone now s (St_back c, db) = (St_lost, give_back now s (qr_id c) db)"
  "alone now s (St_won c, db) = (St_won c, db)"
  "alone now s (St_lost, db) = (St_lost, db)"
  by (simp_all add: alone_def starter_step_def case_prod_unfold Let_def)

lemma claim_next_is_its_steps:
  "claim_next now s db =
     (let (st, db') = ((alone now s) ^^ 5) (St_check, db) in (won_row st, db'))"
  by (simp add: claim_next_def numeral_eq_Suc alone_simps won_row_def case_prod_unfold Let_def split: option.split)

section \<open>One starter wins\<close>

definition in_queue :: "string \<Rightarrow> queue_row \<Rightarrow> bool" where
  "in_queue s r \<longleftrightarrow> qr_session r = s \<and> qr_status r \<noteq> Row_failed"

text \<open>Row \<open>m\<close> stands strictly ahead of everything else in the queue of the session.\<close>

definition ahead_of_all :: "string \<Rightarrow> queue_row \<Rightarrow> wake_db \<Rightarrow> bool" where
  "ahead_of_all s m db \<longleftrightarrow>
     distinct (map qr_id (wd_rows db)) \<and>
     (\<forall>r\<in>set (wd_rows db). qr_id r < wd_next_id db) \<and>
     (\<forall>r\<in>set (wd_rows db). qr_id r \<noteq> qr_id m \<longrightarrow> in_queue s r \<longrightarrow> queue_place m < queue_place r) \<and>
     (\<exists>r\<in>set (wd_rows db). qr_id r = qr_id m \<and> qr_session r = s \<and> queue_place r = queue_place m)"

definition untouched_queue :: "string \<Rightarrow> wake_db \<Rightarrow> bool" where
  "untouched_queue s db \<longleftrightarrow> (\<forall>r\<in>set (wd_rows db). qr_session r = s \<longrightarrow> qr_status r \<noteq> Row_dispatching)"

definition before_claim :: "queue_row \<Rightarrow> starter \<Rightarrow> bool" where
  "before_claim m st \<longleftrightarrow> (case st of St_check \<Rightarrow> True | St_pick \<Rightarrow> True | St_claim c \<Rightarrow> queue_rank c = queue_rank m | _ \<Rightarrow> False)"

definition holds_head :: "queue_row \<Rightarrow> starter \<Rightarrow> bool" where
  "holds_head m st \<longleftrightarrow> (case st of St_verify c \<Rightarrow> queue_rank c = queue_rank m | St_won c \<Rightarrow> queue_rank c = queue_rank m | _ \<Rightarrow> False)"

definition behind_head :: "queue_row \<Rightarrow> starter \<Rightarrow> bool" where
  "behind_head m st \<longleftrightarrow>
     (case st of St_check \<Rightarrow> True | St_pick \<Rightarrow> True
      | St_claim c \<Rightarrow> queue_rank c = queue_rank m \<or> (qr_id c \<noteq> qr_id m \<and> queue_place m < queue_place c)
      | St_verify c \<Rightarrow> qr_id c \<noteq> qr_id m \<and> queue_place m < queue_place c
      | St_back c \<Rightarrow> qr_id c \<noteq> qr_id m
      | St_lost \<Rightarrow> True | _ \<Rightarrow> False)"

lemma first_by_least:
  assumes "first_by k xs = Some x" "y \<in> set xs"
  shows "k x \<le> k y"
proof -
  have "sorted (map k (sort_key k xs))" and "y \<in> set (sort_key k xs)"
    using assms(2) by simp_all
  then show ?thesis
    using assms(1) by (cases "sort_key k xs") (auto simp: first_by_def)
qed

lemma first_by_None: "first_by k xs = None \<longleftrightarrow> xs = []"
  by (auto simp: first_by_def split: list.splits) (metis set_empty set_sort)

lemma tail_position_ge:
  assumes "r \<in> set (wd_rows db)" "qr_session r = s"
  shows "qr_position r \<le> tail_position s db"
proof -
  have fold_max: "y \<in> set (x # ys) \<Longrightarrow> y \<le> fold max ys x" for y x :: int and ys
    by (simp only: Max.set_eq_fold [symmetric]) simp
  have "qr_position r \<in> set (map qr_position (filter (\<lambda>r. qr_session r = s) (wd_rows db)))"
    using assms by auto
  then show ?thesis
    unfolding tail_position_def by (cases "map qr_position (filter (\<lambda>r. qr_session r = s) (wd_rows db))") (auto intro: fold_max)
qed

definition keeps_place :: "string \<Rightarrow> (queue_row \<Rightarrow> queue_row) \<Rightarrow> bool" where
  "keeps_place s g \<longleftrightarrow>
     (\<forall>r. qr_id (g r) = qr_id r \<and> qr_session (g r) = qr_session r \<and> queue_place (g r) = queue_place r \<and>
          (in_queue s (g r) \<longrightarrow> in_queue s r))"

lemma ahead_map:
  assumes ahead: "ahead_of_all s m db" and g: "keeps_place s g"
  shows "ahead_of_all s m (db\<lparr>wd_rows := map g (wd_rows db)\<rparr>)"
proof -
  have ids: "qr_id \<circ> g = qr_id"
    using g by (auto simp: keeps_place_def)
  from ahead obtain r where "r \<in> set (wd_rows db)" "qr_id r = qr_id m" "qr_session r = s" "queue_place r = queue_place m"
    by (auto simp: ahead_of_all_def)
  with g have "\<exists>r\<in>set (map g (wd_rows db)). qr_id r = qr_id m \<and> qr_session r = s \<and> queue_place r = queue_place m"
    by (auto simp: keeps_place_def)
  with ahead g ids show ?thesis
    unfolding ahead_of_all_def by (auto simp: keeps_place_def)
qed

lemma keeps_place_claim: "keeps_place s (\<lambda>r. if is_row i s Row_pending r
    then r\<lparr>qr_status := Row_dispatching, qr_error := e, qr_updated := now\<rparr> else r)"
  and keeps_place_back: "keeps_place s (\<lambda>r. if is_row i s Row_dispatching r
    then r\<lparr>qr_status := Row_pending, qr_updated := now\<rparr> else r)"
  by (auto simp: keeps_place_def is_row_def in_queue_def queue_place_def)

lemma ahead_try_claim: "ahead_of_all s m db \<Longrightarrow> ahead_of_all s m (snd (try_claim now s i db))"
  unfolding try_claim_def update_where_def snd_conv by (rule ahead_map [OF _ keeps_place_claim])

lemma ahead_give_back: "ahead_of_all s m db \<Longrightarrow> ahead_of_all s m (give_back now s i db)"
  unfolding give_back_def update_where_def by (rule ahead_map [OF _ keeps_place_back])

lemma ahead_enqueue:
  assumes "ahead_of_all s m db"
  shows "ahead_of_all s m (enqueue_user_message now s user text parts body db)"
proof -
  from assms obtain r where r: "r \<in> set (wd_rows db)" "qr_id r = qr_id m" "qr_session r = s" "queue_place r = queue_place m"
    by (auto simp: ahead_of_all_def)
  have "qr_position m \<le> tail_position s db"
    using tail_position_ge [OF r(1,3)] r(4) by (simp add: queue_place_def)
  with assms show ?thesis
    by (auto simp: ahead_of_all_def enqueue_user_message_def queue_place_def less_Suc_eq)
qed

lemma aheadD:
  assumes "ahead_of_all s m db"
  shows "distinct (map qr_id (wd_rows db))"
    and "r \<in> set (wd_rows db) \<Longrightarrow> qr_id r \<noteq> qr_id m \<Longrightarrow> in_queue s r \<Longrightarrow> queue_place m < queue_place r"
    and "\<exists>r\<in>set (wd_rows db). qr_id r = qr_id m \<and> qr_session r = s \<and> queue_place r = queue_place m"
  using assms by (simp_all add: ahead_of_all_def)

lemma ahead_head_unique:
  "ahead_of_all s m db \<Longrightarrow> r \<in> set (wd_rows db) \<Longrightarrow> r' \<in> set (wd_rows db) \<Longrightarrow> qr_id r = qr_id m \<Longrightarrow> qr_id r' = qr_id m \<Longrightarrow> r = r'"
  by (rule distinct_id_eq [OF aheadD(1)]) simp_all

text \<open>Phase A: the head is pending and nobody has claimed. Phase B: one starter holds the head, the others stand behind it.\<close>

definition phase_a :: "string \<Rightarrow> queue_row \<Rightarrow> wake_db \<Rightarrow> starter list \<Rightarrow> bool" where
  "phase_a s m db sts \<longleftrightarrow>
     untouched_queue s db \<and> (\<exists>r\<in>set (wd_rows db). is_row (qr_id m) s Row_pending r) \<and> (\<forall>st\<in>set sts. before_claim m st)"

definition head_held :: "int \<Rightarrow> string \<Rightarrow> queue_row \<Rightarrow> wake_db \<Rightarrow> bool" where
  "head_held t0 s m db \<longleftrightarrow> (\<exists>r\<in>set (wd_rows db). is_row (qr_id m) s Row_dispatching r \<and> t0 \<le> qr_updated r \<and> queue_place r = queue_place m)"

definition phase_b :: "int \<Rightarrow> string \<Rightarrow> queue_row \<Rightarrow> wake_db \<Rightarrow> starter list \<Rightarrow> bool" where
  "phase_b t0 s m db sts \<longleftrightarrow>
     head_held t0 s m db \<and>
     (\<exists>p<length sts. holds_head m (sts ! p) \<and> (\<forall>q<length sts. q \<noteq> p \<longrightarrow> behind_head m (sts ! q)))"

definition race_inv :: "int \<Rightarrow> string \<Rightarrow> queue_row \<Rightarrow> race \<Rightarrow> bool" where
  "race_inv t0 s m w \<longleftrightarrow>
     ahead_of_all s m (rc_db w) \<and> (phase_a s m (rc_db w) (rc_starters w) \<or> phase_b t0 s m (rc_db w) (rc_starters w))"

lemma rank_of_place: "queue_place a < queue_place b \<Longrightarrow> queue_rank a < queue_rank b"
  "queue_rank a < queue_rank b \<Longrightarrow> queue_place a \<le> queue_place b"
  by (auto simp: queue_place_def queue_rank_def)

lemma rank_id: "queue_rank a = queue_rank b \<Longrightarrow> qr_id a = qr_id b \<and> queue_place a = queue_place b"
  by (auto simp: queue_place_def queue_rank_def)

lemma candidate_cases:
  assumes ahead: "ahead_of_all s m db" and c: "c \<in> set (pending_rows s db)"
  shows "queue_rank c = queue_rank m \<or> (qr_id c \<noteq> qr_id m \<and> queue_place m < queue_place c)"
proof (cases "qr_id c = qr_id m")
  case True
  from aheadD(3) [OF ahead] obtain r where r: "r \<in> set (wd_rows db)" "qr_id r = qr_id m" "queue_place r = queue_place m"
    by blast
  from c have "c \<in> set (wd_rows db)" by (simp add: pending_rows_def)
  with r True have "c = r" by (intro ahead_head_unique [OF ahead])
  with r show ?thesis by (simp add: queue_rank_def queue_place_def)
next
  case False
  then show ?thesis using aheadD(2) [OF ahead, of c] c by (simp add: pending_rows_def in_queue_def)
qed

lemma pick_head:
  assumes ahead: "ahead_of_all s m db" and m: "r \<in> set (wd_rows db)" "is_row (qr_id m) s Row_pending r"
  obtains c where "next_candidate s db = Some c" "queue_rank c = queue_rank m"
proof -
  have r: "r \<in> set (pending_rows s db)"
    using m by (simp add: pending_rows_def is_row_def)
  then obtain c where c: "next_candidate s db = Some c"
    using first_by_None [of queue_place "pending_rows s db"] by (cases "next_candidate s db") (auto simp: next_candidate_def)
  have "queue_rank r = queue_rank m"
    using candidate_cases [OF ahead r] m(2) by (simp add: is_row_def)
  moreover have "queue_place c \<le> queue_place r" "c \<in> set (pending_rows s db)"
    using c r by (auto simp: next_candidate_def intro: first_by_least first_by_mem)
  ultimately have "queue_rank c = queue_rank m"
    using candidate_cases [OF ahead, of c] rank_id [of r m] by auto
  with c show thesis by (rule that)
qed

lemma claim_pending_head:
  assumes "ahead_of_all s m db" "r \<in> set (wd_rows db)" "is_row (qr_id m) s Row_pending r" "t0 \<le> now"
  shows "fst (try_claim now s (qr_id m) db)" "head_held t0 s m (snd (try_claim now s (qr_id m) db))"
proof -
  have "length (filter (is_row (qr_id m) s Row_pending) (wd_rows db)) = 1"
  proof (rule distinct_id_filter)
    show "is_row (qr_id m) s Row_pending r" by (rule assms(3))
    show "qr_id x = qr_id r" if "is_row (qr_id m) s Row_pending x" for x
      using that assms(3) by (simp add: is_row_def)
  qed (use aheadD(1) [OF assms(1)] assms(2) in \<open>simp_all only:\<close>)
  then show "fst (try_claim now s (qr_id m) db)"
    by (simp add: try_claim_def)
  have "r \<in> set (pending_rows s db)"
    using assms(2,3) by (simp add: pending_rows_def is_row_def)
  from candidate_cases [OF assms(1) this] assms(3) have "queue_rank r = queue_rank m"
    by (simp add: is_row_def)
  from rank_id [OF this] have "queue_place r = queue_place m" by simp
  moreover let ?f = "\<lambda>x. if is_row (qr_id m) s Row_pending x
    then x\<lparr>qr_status := Row_dispatching, qr_error := None, qr_updated := now\<rparr> else x"
  have "?f r \<in> set (wd_rows (snd (try_claim now s (qr_id m) db)))"
    using assms(2) by (simp add: try_claim_def update_where_def)
  ultimately show "head_held t0 s m (snd (try_claim now s (qr_id m) db))"
    unfolding head_held_def using assms(3,4) by (intro bexI [of _ "?f r"]) (simp_all add: is_row_def queue_place_def)
qed

lemma claim_held_head:
  assumes "ahead_of_all s m db" "head_held t0 s m db"
  shows "\<not> fst (try_claim now s (qr_id m) db)" "head_held t0 s m (snd (try_claim now s i db))"
proof -
  from assms(2) obtain r where r: "r \<in> set (wd_rows db)" "is_row (qr_id m) s Row_dispatching r" "t0 \<le> qr_updated r"
    "queue_place r = queue_place m"
    by (auto simp: head_held_def)
  have "filter (is_row (qr_id m) s Row_pending) (wd_rows db) = []"
  proof -
    have "\<not> is_row (qr_id m) s Row_pending x" if "x \<in> set (wd_rows db)" for x
      using ahead_head_unique [OF assms(1) that r(1)] r(2) by (auto simp: is_row_def)
    then show ?thesis by (simp add: filter_empty_conv)
  qed
  then show "\<not> fst (try_claim now s (qr_id m) db)" by (simp add: try_claim_def)
  from r(1,2) have "r \<in> set (wd_rows (snd (try_claim now s i db)))"
    by (force simp: try_claim_def update_where_def is_row_def)
  with r(2-4) show "head_held t0 s m (snd (try_claim now s i db))"
    unfolding head_held_def by blast
qed

lemma give_back_other: "head_held t0 s m db \<Longrightarrow> i \<noteq> qr_id m \<Longrightarrow> head_held t0 s m (give_back now s i db)"
  by (force simp: head_held_def give_back_def update_where_def is_row_def)

lemma holder_verifies:
  assumes "ahead_of_all s m db" "queue_rank c = queue_rank m"
  shows "\<not> earlier_live_claim now s c db"
proof
  assume "earlier_live_claim now s c db"
  then obtain r where r: "r \<in> set (wd_rows db)" "live_claim now s r" "qr_id r \<noteq> qr_id c" "queue_rank r < queue_rank c"
    by (auto simp: earlier_live_claim_def list_ex_iff)
  with rank_id [OF assms(2)] have "queue_place m < queue_place r"
    by (intro aheadD(2) [OF assms(1)]) (simp_all add: live_claim_def in_queue_def)
  with r(4) assms(2) rank_of_place(2) [of r m] show False by auto
qed

lemma follower_backs_off:
  assumes "head_held t0 s m db" "qr_id c \<noteq> qr_id m" "queue_place m < queue_place c" "now \<le> t0 + dispatch_claim_stuck_after_ms"
  shows "earlier_live_claim now s c db"
proof -
  from assms(1) obtain r where r: "r \<in> set (wd_rows db)" "is_row (qr_id m) s Row_dispatching r" "t0 \<le> qr_updated r"
    "queue_place r = queue_place m"
    by (auto simp: head_held_def)
  with assms(2-4) have "live_claim now s r" "qr_id r \<noteq> qr_id c" "queue_rank r < queue_rank c"
    by (auto simp: live_claim_def is_row_def intro: rank_of_place)
  with r(1) show ?thesis by (auto simp: earlier_live_claim_def list_ex_iff)
qed

lemma untouched_no_claim: "untouched_queue s db \<Longrightarrow> \<not> has_live_claim now s e db"
  by (auto simp: untouched_queue_def has_live_claim_def live_claim_def list_ex_iff)

lemma set_upd_cases: "st \<in> set (xs[p := x]) \<Longrightarrow> st = x \<or> st \<in> set xs"
  using set_update_subset_insert by fastforce

lemma phase_a_step:
  assumes ahead: "ahead_of_all s m db" and a: "phase_a s m db sts" and p: "p < length sts" and t: "t0 \<le> now"
    and step: "starter_step now s (sts ! p) db = (st, db')"
  shows "phase_a s m db' (sts[p := st]) \<or> phase_b t0 s m db' (sts[p := st])"
proof -
  from a obtain r where r: "r \<in> set (wd_rows db)" "is_row (qr_id m) s Row_pending r"
    and free: "untouched_queue s db" and all: "\<And>st. st \<in> set sts \<Longrightarrow> before_claim m st"
    by (auto simp: phase_a_def)
  have stay: "phase_a s m db (sts[p := st'])" if "before_claim m st'" for st'
    using a that by (auto simp: phase_a_def dest: set_upd_cases)
  have "before_claim m (sts ! p)" using all p by simp
  then consider (check) "sts ! p = St_check" | (pick) "sts ! p = St_pick"
    | (claim) c where "sts ! p = St_claim c" "queue_rank c = queue_rank m"
    by (auto simp: before_claim_def split: starter.splits)
  then show ?thesis
  proof cases
    case check
    with step have "st = St_pick" "db' = db" by (auto simp: starter_step_def untouched_no_claim [OF free])
    with stay [of St_pick] show ?thesis by (simp add: before_claim_def)
  next
    case pick
    obtain c where "next_candidate s db = Some c" "queue_rank c = queue_rank m"
      by (rule pick_head [OF ahead r])
    with step pick have "st = St_claim c" "db' = db" by (auto simp: starter_step_def)
    with stay [of "St_claim c"] \<open>queue_rank c = queue_rank m\<close> show ?thesis by (simp add: before_claim_def)
  next
    case (claim c)
    have id: "qr_id c = qr_id m" using rank_id [OF claim(2)] by simp
    have "st = St_verify c" "db' = snd (try_claim now s (qr_id m) db)"
      using step claim(1) claim_pending_head(1) [OF ahead r t] by (auto simp: starter_step_def id Let_def case_prod_unfold)
    moreover have "behind_head m x" if "before_claim m x" for x
      using that by (auto simp: before_claim_def behind_head_def split: starter.splits)
    ultimately show ?thesis
      using claim_pending_head(2) [OF ahead r t] p all claim(2)
      by (intro disjI2) (auto simp: phase_b_def holds_head_def intro!: exI [of _ p])
  qed
qed

lemma behind_step:
  assumes ahead: "ahead_of_all s m db" and held: "head_held t0 s m db" and b: "behind_head m st"
    and t: "now \<le> t0 + dispatch_claim_stuck_after_ms"
    and step: "starter_step now s st db = (st', db')"
  shows "behind_head m st'" "head_held t0 s m db'"
proof -
  have "behind_head m st' \<and> head_held t0 s m db'"
  proof (cases st)
    case St_check
    with step held show ?thesis by (auto simp: starter_step_def behind_head_def)
  next
    case St_pick
    with step held candidate_cases [OF ahead] show ?thesis
      by (auto simp: starter_step_def behind_head_def next_candidate_def dest!: first_by_mem split: option.splits)
  next
    case (St_claim c)
    have h: "head_held t0 s m db'"
      using step St_claim claim_held_head(2) [OF ahead held] by (auto simp: starter_step_def Let_def case_prod_unfold)
    show ?thesis
    proof (cases "queue_rank c = queue_rank m")
      case True
      with step St_claim claim_held_head(1) [OF ahead held] rank_id [OF True] h show ?thesis
        by (auto simp: starter_step_def Let_def case_prod_unfold behind_head_def)
    next
      case False
      with step St_claim b h show ?thesis
        by (auto simp: starter_step_def Let_def case_prod_unfold behind_head_def split: if_splits)
    qed
  next
    case (St_verify c)
    with b have "qr_id c \<noteq> qr_id m" "queue_place m < queue_place c" by (auto simp: behind_head_def)
    with step St_verify held follower_backs_off [OF held _ _ t] show ?thesis
      by (auto simp: starter_step_def behind_head_def)
  next
    case (St_back c)
    with step b held show ?thesis by (auto simp: starter_step_def behind_head_def intro: give_back_other)
  qed (use step held b in \<open>auto simp: starter_step_def behind_head_def\<close>)
  then show "behind_head m st'" "head_held t0 s m db'" by simp_all
qed

lemma holder_step:
  assumes ahead: "ahead_of_all s m db" and held: "head_held t0 s m db" and h: "holds_head m st"
    and step: "starter_step now s st db = (st', db')"
  shows "holds_head m st' \<and> db' = db"
  using h step holder_verifies [OF ahead] by (cases st) (auto simp: holds_head_def starter_step_def)

lemma phase_b_step:
  assumes ahead: "ahead_of_all s m db" and b: "phase_b t0 s m db sts" and p: "p < length sts"
    and t: "now \<le> t0 + dispatch_claim_stuck_after_ms"
    and step: "starter_step now s (sts ! p) db = (st, db')"
  shows "phase_b t0 s m db' (sts[p := st])"
proof -
  from b obtain h where held: "head_held t0 s m db" and h: "h < length sts" "holds_head m (sts ! h)"
    and rest: "\<And>q. q < length sts \<Longrightarrow> q \<noteq> h \<Longrightarrow> behind_head m (sts ! q)"
    by (auto simp: phase_b_def)
  show ?thesis
  proof (cases "p = h")
    case True
    with holder_step [OF ahead held, of "sts ! p"] h step have "holds_head m st" "db' = db" by auto
    with True h held rest show ?thesis
      by (auto simp: phase_b_def nth_list_update intro!: exI [of _ h])
  next
    case False
    have "behind_head m st" "head_held t0 s m db'"
      using behind_step [OF ahead held rest [OF p False] t step] by simp_all
    moreover have "behind_head m (sts[p := st] ! q)" if "q < length sts" "q \<noteq> h" for q
      using that rest [OF that] \<open>behind_head m st\<close> by (cases "q = p") simp_all
    ultimately show ?thesis
      using False h by (auto simp: phase_b_def intro!: exI [of _ h])
  qed
qed

lemma starter_step_ahead: "ahead_of_all s m db \<Longrightarrow> starter_step now s st db = (st', db') \<Longrightarrow> ahead_of_all s m db'"
  by (cases st)
    (auto simp: starter_step_def Let_def case_prod_unfold ahead_give_back ahead_try_claim)

text \<open>Between \<open>t0\<close> and the moment its claims would count as stuck, starters step and people write.\<close>

definition calm :: "int \<Rightarrow> race_event \<Rightarrow> bool" where
  "calm t0 e \<longleftrightarrow>
     (case e of Ev_step now _ \<Rightarrow> t0 \<le> now \<and> now \<le> t0 + dispatch_claim_stuck_after_ms
      | Ev_enqueue _ _ _ _ _ \<Rightarrow> True | _ \<Rightarrow> False)"

lemma enqueue_rows: "set (wd_rows (enqueue_user_message now s user text parts body db)) \<supseteq> set (wd_rows db)"
  by (auto simp: enqueue_user_message_def)

lemma enqueue_untouched: "untouched_queue s db \<Longrightarrow> untouched_queue s (enqueue_user_message now s user text parts body db)"
  by (auto simp: untouched_queue_def enqueue_user_message_def)

lemma race_exec_inv:
  assumes inv: "race_inv t0 s m w" and e: "calm t0 e"
  shows "race_inv t0 s m (race_exec s e w)"
proof (cases e)
  case (Ev_step now p)
  show ?thesis
  proof (cases "p < length (rc_starters w)")
    case True
    obtain st db' where step: "starter_step now s (rc_starters w ! p) (rc_db w) = (st, db')"
      by fastforce
    from inv have ahead: "ahead_of_all s m (rc_db w)" by (simp add: race_inv_def)
    have t: "t0 \<le> now" "now \<le> t0 + dispatch_claim_stuck_after_ms" using e Ev_step by (simp_all add: calm_def)
    have "phase_a s m db' ((rc_starters w)[p := st]) \<or> phase_b t0 s m db' ((rc_starters w)[p := st])"
      using inv phase_a_step [OF ahead _ True t(1) step] phase_b_step [OF ahead _ True t(2) step]
      unfolding race_inv_def by blast
    with True Ev_step step starter_step_ahead [OF ahead step] show ?thesis
      by (simp add: race_exec_def race_inv_def)
  qed (use inv Ev_step in \<open>simp add: race_exec_def\<close>)
next
  case (Ev_enqueue now user content parts body)
  let ?db = "enqueue_user_message now s user content parts body (rc_db w)"
  have "phase_a s m (rc_db w) sts \<Longrightarrow> phase_a s m ?db sts" for sts
    using enqueue_rows enqueue_untouched unfolding phase_a_def by blast
  moreover have "phase_b t0 s m (rc_db w) sts \<Longrightarrow> phase_b t0 s m ?db sts" for sts
    using enqueue_rows unfolding phase_b_def head_held_def by blast
  ultimately show ?thesis
    using inv Ev_enqueue ahead_enqueue by (auto simp: race_exec_def race_inv_def)
qed (use e in \<open>simp_all add: calm_def\<close>)

definition calm_exec :: "int \<Rightarrow> string \<Rightarrow> race_event \<Rightarrow> race \<Rightarrow> race" where
  "calm_exec t0 s e w = (if calm t0 e then race_exec s e w else w)"

interpretation calm_race: machine "calm_exec t0 s" "race_inv t0 s m"
  by unfold_locales (simp add: calm_exec_def race_exec_inv)

lemma fold_calm: "\<forall>e\<in>set es. calm t0 e \<Longrightarrow> fold (race_exec s) es w = fold (calm_exec t0 s) es w"
  by (induction es arbitrary: w) (simp_all add: calm_exec_def)

lemma length_race_exec: "length (rc_starters (race_exec s e w)) = length (rc_starters w)"
  by (cases e) (simp_all add: race_exec_def case_prod_unfold Let_def)

lemma length_race_run: "length (rc_starters (fold (race_exec s) es w)) = length (rc_starters w)"
  by (induction es arbitrary: w) (simp_all add: length_race_exec)

definition finished :: "starter \<Rightarrow> bool" where
  "finished st \<longleftrightarrow> (case st of St_won _ \<Rightarrow> True | St_lost \<Rightarrow> True | _ \<Rightarrow> False)"

lemma phase_winners:
  assumes "phase_a s m db sts \<or> phase_b t0 s m db sts"
  shows "p < length sts \<Longrightarrow> q < length sts \<Longrightarrow> won_row (sts ! p) \<noteq> None \<Longrightarrow> won_row (sts ! q) \<noteq> None \<Longrightarrow> p = q"
    and "p < length sts \<Longrightarrow> won_row (sts ! p) = Some c \<Longrightarrow> qr_id c = qr_id m"
    and "sts \<noteq> [] \<Longrightarrow> \<forall>st\<in>set sts. finished st \<Longrightarrow> \<exists>p<length sts. won_row (sts ! p) \<noteq> None"
proof -
  have before: "\<not> finished st \<and> won_row st = None" if "before_claim m st" for st
    using that by (auto simp: before_claim_def finished_def won_row_def split: starter.splits)
  have behind: "won_row st = None" if "behind_head m st" for st
    using that by (auto simp: behind_head_def won_row_def split: starter.splits)
  have head: "qr_id c = qr_id m" if "holds_head m st" "won_row st = Some c" for st c
    using that rank_id [of c m] by (auto simp: holds_head_def won_row_def split: starter.splits)
  have won: "won_row st \<noteq> None" if "holds_head m st" "finished st" for st
    using that by (auto simp: holds_head_def won_row_def finished_def split: starter.splits)
  have "(p < length sts \<longrightarrow> q < length sts \<longrightarrow> won_row (sts ! p) \<noteq> None \<longrightarrow> won_row (sts ! q) \<noteq> None \<longrightarrow> p = q) \<and>
        (p < length sts \<longrightarrow> won_row (sts ! p) = Some c \<longrightarrow> qr_id c = qr_id m) \<and>
        (sts \<noteq> [] \<longrightarrow> (\<forall>st\<in>set sts. finished st) \<longrightarrow> (\<exists>p<length sts. won_row (sts ! p) \<noteq> None))"
    using assms
  proof
    assume "phase_a s m db sts"
    then have "\<not> finished st \<and> won_row st = None" if "st \<in> set sts" for st
      using that before by (simp add: phase_a_def)
    then have none: "won_row (sts ! q) = None" "\<not> finished (sts ! q)" if "q < length sts" for q
      using that by simp_all
    have "\<not> (\<forall>st\<in>set sts. finished st)" if "sts \<noteq> []"
    proof -
      from that have "0 < length sts" by simp
      with none(2) show ?thesis using nth_mem by blast
    qed
    with none show ?thesis by auto
  next
    assume "phase_b t0 s m db sts"
    then obtain h where h: "h < length sts" "holds_head m (sts ! h)"
      and rest: "\<forall>q<length sts. q \<noteq> h \<longrightarrow> behind_head m (sts ! q)"
      unfolding phase_b_def by blast
    have only: "q = h" if "q < length sts" "won_row (sts ! q) = Some d" for q d
    proof (rule ccontr)
      assume "q \<noteq> h"
      with rest that(1) have "behind_head m (sts ! q)" by blast
      from behind [OF this] that(2) show False by simp
    qed
    have "won_row (sts ! h) \<noteq> None" if "\<forall>st\<in>set sts. finished st"
      using won [OF h(2)] that h(1) by simp
    with h only head [OF h(2)] show ?thesis by blast
  qed
  then show "p < length sts \<Longrightarrow> q < length sts \<Longrightarrow> won_row (sts ! p) \<noteq> None \<Longrightarrow> won_row (sts ! q) \<noteq> None \<Longrightarrow> p = q"
    and "p < length sts \<Longrightarrow> won_row (sts ! p) = Some c \<Longrightarrow> qr_id c = qr_id m"
    and "sts \<noteq> [] \<Longrightarrow> \<forall>st\<in>set sts. finished st \<Longrightarrow> \<exists>p<length sts. won_row (sts ! p) \<noteq> None"
    by blast+
qed

lemma race_inv_start:
  assumes "ahead_of_all s m db" "untouched_queue s db" "m \<in> set (pending_rows s db)" "0 < n"
  shows "race_inv t0 s m \<lparr>rc_db = db, rc_starters = replicate n St_check\<rparr>"
proof -
  have "is_row (qr_id m) s Row_pending m" "m \<in> set (wd_rows db)"
    using assms(3) by (simp_all add: pending_rows_def is_row_def)
  with assms show ?thesis by (auto simp: race_inv_def phase_a_def before_claim_def)
qed

section \<open>One row, one starter\<close>

definition held_row :: "starter \<Rightarrow> nat option" where
  "held_row st = (case st of St_verify c \<Rightarrow> Some (qr_id c) | St_back c \<Rightarrow> Some (qr_id c) | St_won c \<Rightarrow> Some (qr_id c) | _ \<Rightarrow> None)"

definition ids_ok :: "wake_db \<Rightarrow> bool" where
  "ids_ok db \<longleftrightarrow> distinct (map qr_id (wd_rows db)) \<and> (\<forall>r\<in>set (wd_rows db). qr_id r < wd_next_id db)"

text \<open>A row somebody holds is not pending, and nobody else holds it. What a starter has read was in the table.\<close>

definition read_row :: "starter \<Rightarrow> nat option" where
  "read_row st = (case st of St_claim c \<Rightarrow> Some (qr_id c) | Sn_claim c \<Rightarrow> Some (qr_id c) | _ \<Rightarrow> None)"

definition excl_inv :: "race \<Rightarrow> bool" where
  "excl_inv w \<longleftrightarrow>
     ids_ok (rc_db w) \<and>
     (\<forall>p<length (rc_starters w). \<forall>i. held_row (rc_starters w ! p) = Some i \<longrightarrow>
        i < wd_next_id (rc_db w) \<and> (\<forall>r\<in>set (wd_rows (rc_db w)). qr_id r = i \<longrightarrow> qr_status r \<noteq> Row_pending)) \<and>
     (\<forall>p<length (rc_starters w). \<forall>q<length (rc_starters w). p \<noteq> q \<longrightarrow>
        held_row (rc_starters w ! p) \<noteq> None \<longrightarrow> held_row (rc_starters w ! p) \<noteq> held_row (rc_starters w ! q))"

definition not_pending :: "nat \<Rightarrow> wake_db \<Rightarrow> bool" where
  "not_pending i db \<longleftrightarrow> (\<forall>r\<in>set (wd_rows db). qr_id r = i \<longrightarrow> qr_status r \<noteq> Row_pending)"

text \<open>What a step may do: keep what is held and change no row to pending; give a held row back; take a pending one.\<close>

lemma step_cases:
  assumes step: "starter_step now s st db = (st', db')"
  obtains (same) "db' = db" "held_row st' = held_row st \<or> held_row st' = None"
  | (claim) i where "db' = snd (try_claim now s i db)" "held_row st = None" "held_row st' = Some i" "fst (try_claim now s i db)"
  | (miss) i where "db' = snd (try_claim now s i db)" "held_row st = None" "held_row st' = None" "\<not> fst (try_claim now s i db)"
  | (gave) i where "db' = give_back now s i db" "held_row st = Some i" "held_row st' = None"
  using step by (cases st) (auto simp: starter_step_def held_row_def Let_def case_prod_unfold split: if_splits option.splits)

lemma ids_ok_claim: "ids_ok db \<Longrightarrow> ids_ok (snd (try_claim now s i db))"
  and ids_ok_back: "ids_ok db \<Longrightarrow> ids_ok (give_back now s i db)"
proof -
  have ids: "map qr_id (update_where P f xs) = map qr_id xs" if "\<And>r. qr_id (f r) = qr_id r" for P f xs
    using that by (simp add: update_where_def o_def if_distrib [where f = qr_id])
  have "ids_ok (upd_rows P f db)" if ok: "ids_ok db" and f: "\<And>r. qr_id (f r) = qr_id r" for P f
  proof -
    have "distinct (map qr_id (update_where P f (wd_rows db)))"
      using ok by (simp add: ids [OF f] ids_ok_def)
    moreover have "\<forall>r\<in>set (update_where P f (wd_rows db)). qr_id r < wd_next_id db"
      using ok f by (auto simp: ids_ok_def update_where_def)
    ultimately show ?thesis by (simp add: ids_ok_def)
  qed
  then show "ids_ok db \<Longrightarrow> ids_ok (snd (try_claim now s i db))" "ids_ok db \<Longrightarrow> ids_ok (give_back now s i db)"
    by (simp_all add: try_claim_def give_back_def)
qed

lemma not_pending_claim:
  "not_pending j db \<Longrightarrow> not_pending j (snd (try_claim now s i db))"
  "j \<noteq> i \<Longrightarrow> not_pending j db \<Longrightarrow> not_pending j (give_back now s i db)"
  by (auto simp: not_pending_def try_claim_def give_back_def update_where_def is_row_def)

lemma claimed_not_pending:
  assumes "ids_ok db" "fst (try_claim now s i db)"
  shows "not_pending i (snd (try_claim now s i db))" "\<not> not_pending i db" "i < wd_next_id db"
proof -
  from assms(2) have "filter (is_row i s Row_pending) (wd_rows db) \<noteq> []"
    by (auto simp: try_claim_def)
  then obtain r where r: "r \<in> set (wd_rows db)" "is_row i s Row_pending r"
    by (auto simp: filter_empty_conv)
  have same: "x = r" if "x \<in> set (wd_rows db)" "qr_id x = i" for x
    using distinct_id_eq [of "wd_rows db" x r] assms(1) that r by (simp add: ids_ok_def is_row_def)
  have "qr_status x \<noteq> Row_pending" if "x \<in> set (wd_rows (snd (try_claim now s i db)))" "qr_id x = i" for x
  proof -
    from that obtain y where y: "y \<in> set (wd_rows db)"
      "x = (if is_row i s Row_pending y then y\<lparr>qr_status := Row_dispatching, qr_error := None, qr_updated := now\<rparr> else y)"
      by (auto simp: try_claim_def update_where_def)
    with that(2) have "qr_id y = i" by (auto split: if_splits)
    from same [OF y(1) this] y(2) r(2) show ?thesis by simp
  qed
  then show "not_pending i (snd (try_claim now s i db))" by (simp add: not_pending_def)
  show "\<not> not_pending i db" "i < wd_next_id db"
    using r assms(1) by (auto simp: not_pending_def ids_ok_def is_row_def)
qed

lemma excl_inv_alt:
  "excl_inv w \<longleftrightarrow> ids_ok (rc_db w) \<and>
     (\<forall>p<length (rc_starters w). \<forall>i. held_row (rc_starters w ! p) = Some i \<longrightarrow> i < wd_next_id (rc_db w) \<and> not_pending i (rc_db w)) \<and>
     (\<forall>p<length (rc_starters w). \<forall>q<length (rc_starters w). p \<noteq> q \<longrightarrow>
        held_row (rc_starters w ! p) \<noteq> None \<longrightarrow> held_row (rc_starters w ! p) \<noteq> held_row (rc_starters w ! q))"
  by (simp add: excl_inv_def not_pending_def)

lemma next_id_claim [simp]: "wd_next_id (snd (try_claim now s i db)) = wd_next_id db" "wd_next_id (give_back now s i db) = wd_next_id db"
  by (simp_all add: try_claim_def give_back_def)

text \<open>The starters as a family: \<open>h p\<close> is what starter \<open>p\<close> holds.\<close>

definition fam_ok :: "nat \<Rightarrow> (nat \<Rightarrow> nat option) \<Rightarrow> wake_db \<Rightarrow> bool" where
  "fam_ok n h db \<longleftrightarrow> ids_ok db \<and> (\<forall>p<n. \<forall>i. h p = Some i \<longrightarrow> i < wd_next_id db \<and> not_pending i db) \<and>
     (\<forall>p<n. \<forall>q<n. p \<noteq> q \<longrightarrow> h p \<noteq> None \<longrightarrow> h p \<noteq> h q)"

lemma excl_inv_fam: "excl_inv w \<longleftrightarrow> fam_ok (length (rc_starters w)) (\<lambda>p. held_row (rc_starters w ! p)) (rc_db w)"
  by (simp add: excl_inv_alt fam_ok_def)

lemma fam_drop: "fam_ok n h db \<Longrightarrow> fam_ok n (h(p := None)) db"
  by (auto simp: fam_ok_def)

lemma fam_claim:
  assumes "fam_ok n h db" "fst (try_claim now s i db)"
  shows "fam_ok n (h(p := Some i)) (snd (try_claim now s i db))"
proof -
  note c = claimed_not_pending [OF _ assms(2)]
  have ok: "ids_ok db" using assms(1) by (simp add: fam_ok_def)
  have free: "h q \<noteq> Some i" if "q < n" for q
    using assms(1) c(2) [OF ok] that by (auto simp: fam_ok_def)
  have "(h(p := Some i)) a \<noteq> (h(p := Some i)) b" if "a < n" "b < n" "a \<noteq> b" "(h(p := Some i)) a \<noteq> None" for a b
  proof (cases "a = p \<or> b = p")
    case True
    with that free [of a] free [of b] show ?thesis by (metis fun_upd_apply)
  next
    case False
    with that assms(1) show ?thesis by (simp add: fam_ok_def)
  qed
  with assms(1) c(1,3) [OF ok] show ?thesis
    unfolding fam_ok_def by (auto simp: ids_ok_claim not_pending_claim simp del: not_None_eq)
qed

lemma fam_back:
  assumes fam: "fam_ok n h db" and p: "p < n" "h p = Some i"
  shows "fam_ok n (h(p := None)) (give_back now s i db)"
proof -
  have "not_pending j (give_back now s i db)" "j < wd_next_id db" if "q < n" "(h(p := None)) q = Some j" for q j
  proof -
    from that have q: "q \<noteq> p" "h q = Some j" by (auto split: if_splits)
    with fam p that(1) have "h p \<noteq> h q" unfolding fam_ok_def by blast
    with p q have "j \<noteq> i" by auto
    with fam that(1) q show "not_pending j (give_back now s i db)" "j < wd_next_id db"
      by (auto simp: fam_ok_def intro: not_pending_claim(2))
  qed
  then show ?thesis
    using fam_drop [OF fam, of p] unfolding fam_ok_def by (auto simp: ids_ok_back)
qed

lemma fam_miss: "fam_ok n h db \<Longrightarrow> fam_ok n h (snd (try_claim now s i db))"
  by (auto simp: fam_ok_def ids_ok_claim not_pending_claim)

lemma fam_enqueue: "fam_ok n h db \<Longrightarrow> fam_ok n h (enqueue_user_message now s user content parts body db)"
  by (auto simp: fam_ok_def ids_ok_def not_pending_def enqueue_user_message_def less_Suc_eq)

lemma fam_delete: "fam_ok n h db \<Longrightarrow> fam_ok n h (delete_row i db)"
  by (auto simp: fam_ok_def ids_ok_def not_pending_def delete_row_def distinct_map_filter)

definition no_rewrite :: "race_event \<Rightarrow> bool" where
  "no_rewrite e \<longleftrightarrow> (case e of Ev_promote _ _ \<Rightarrow> False | _ \<Rightarrow> True)"

lemma race_exec_excl:
  assumes inv: "excl_inv w" and e: "no_rewrite e"
  shows "excl_inv (race_exec s e w)"
proof (cases e)
  case (Ev_step now p)
  show ?thesis
  proof (cases "p < length (rc_starters w)")
    case True
    let ?h = "\<lambda>p. held_row (rc_starters w ! p)" and ?n = "length (rc_starters w)"
    obtain st db' where step: "starter_step now s (rc_starters w ! p) (rc_db w) = (st, db')" by fastforce
    have fam: "fam_ok ?n ?h (rc_db w)" using inv by (simp add: excl_inv_fam)
    have upd: "(\<lambda>q. held_row ((rc_starters w)[p := st] ! q)) = ?h(p := held_row st)"
      using True by (auto simp: fun_eq_iff nth_list_update)
    have "fam_ok ?n (?h(p := held_row st)) db'"
      using step
    proof (cases rule: step_cases)
      case same
      have "?h(p := ?h p) = ?h" by (auto simp: fun_eq_iff)
      with same fam fam_drop [OF fam] show ?thesis by (metis (no_types, lifting))
    next
      case (claim i)
      with fam_claim [OF fam] show ?thesis by simp
    next
      case (miss i)
      with fam_miss [OF fam_drop [OF fam]] show ?thesis by simp
    next
      case (gave i)
      with fam_back [OF fam True] show ?thesis by simp
    qed
    with True Ev_step step upd show ?thesis by (simp add: race_exec_def excl_inv_fam)
  qed (use inv Ev_step in \<open>simp add: race_exec_def\<close>)
qed (use inv e in \<open>simp_all add: race_exec_def excl_inv_fam fam_enqueue fam_delete no_rewrite_def\<close>)

definition honest_exec :: "string \<Rightarrow> race_event \<Rightarrow> race \<Rightarrow> race" where
  "honest_exec s e w = (if no_rewrite e then race_exec s e w else w)"

interpretation honest_race: machine "honest_exec s" excl_inv
  by unfold_locales (simp add: honest_exec_def race_exec_excl)

lemma fold_honest: "\<forall>e\<in>set es. no_rewrite e \<Longrightarrow> fold (race_exec s) es w = fold (honest_exec s) es w"
  by (induction es arbitrary: w) (simp_all add: honest_exec_def)

section \<open>Claims\<close>

definition demo_row :: "nat \<Rightarrow> int \<Rightarrow> queue_row" where
  "demo_row i pos =
     \<lparr>qr_id = i, qr_session = ''s'', qr_user = ''u'', qr_position = pos, qr_status = Row_pending, qr_kind = Kind_user,
      qr_content = [], qr_parts = None,
      qr_body = \<lparr>wb_text = None, wb_task_ids = [], wb_reset = False, wb_paused = False, wb_resume_attempts = 0\<rparr>,
      qr_error = None, qr_created = 0, qr_updated = 0\<rparr>"

definition demo_db :: "queue_row list \<Rightarrow> wake_db" where
  "demo_db rows =
     \<lparr>wd_tasks = [], wd_rows = rows, wd_msgs = [], wd_chats = [], wd_cards = [], wd_next_id = length rows,
      wd_wake_timers = [], wd_hold_timers = []\<rparr>"

lemma demo_simps [simp]:
  "qr_id (demo_row i pos) = i" "qr_session (demo_row i pos) = ''s''" "qr_position (demo_row i pos) = pos"
  "qr_status (demo_row i pos) = Row_pending" "qr_created (demo_row i pos) = 0" "qr_kind (demo_row i pos) = Kind_user"
  "wd_rows (demo_db rows) = rows" "wd_next_id (demo_db rows) = length rows"
  by (simp_all add: demo_row_def demo_db_def)

lemmas race_eval =
  race_exec_def starter_step_def has_live_claim_def live_claim_def next_candidate_def pending_rows_def first_by_def
  queue_place_def queue_rank_def try_claim_def give_back_def earlier_live_claim_def is_row_def update_where_def
  dispatch_claim_stuck_after_ms_def won_row_def

text \<open>C32: Starters that all go through \<^verbatim>\<open>claimNext\<close> while the head of the queue stands ahead of every other
  row and no row is being dispatched: however their calls interleave within the two minutes a claim counts as live, and
  whatever people append meanwhile, at most one of them wins, it wins the head, and once all have finished one has won.\<close>

theorem one_starter_wins:
  assumes "ahead_of_all s m db" "untouched_queue s db" "m \<in> set (pending_rows s db)" "0 < n"
    and "\<forall>e\<in>set es. calm t0 e"
  shows "let sts = rc_starters (fold (race_exec s) es \<lparr>rc_db = db, rc_starters = replicate n St_check\<rparr>)
         in (\<forall>p<n. \<forall>q<n. won_row (sts ! p) \<noteq> None \<and> won_row (sts ! q) \<noteq> None \<longrightarrow> p = q) \<and>
            (\<forall>p<n. \<forall>c. won_row (sts ! p) = Some c \<longrightarrow> qr_id c = qr_id m) \<and>
            ((\<forall>st\<in>set sts. finished st) \<longrightarrow> (\<exists>p<n. won_row (sts ! p) \<noteq> None))"
proof -
  define sts where "sts = rc_starters (fold (race_exec s) es \<lparr>rc_db = db, rc_starters = replicate n St_check\<rparr>)"
  let ?w = "fold (race_exec s) es \<lparr>rc_db = db, rc_starters = replicate n St_check\<rparr>"
  have "race_inv t0 s m ?w"
    unfolding fold_calm [OF assms(5)] by (rule calm_race.run_inv [OF race_inv_start [OF assms(1-4)]])
  then have ph: "phase_a s m (rc_db ?w) sts \<or> phase_b t0 s m (rc_db ?w) sts"
    by (simp add: race_inv_def sts_def)
  have len: "length sts = n" by (simp add: sts_def length_race_run)
  with assms(4) have "sts \<noteq> []" by auto
  with phase_winners [OF ph] len show ?thesis
    unfolding Let_def sts_def [symmetric] by blast
qed

definition demo_events :: "race_event list" where
  "demo_events = [Ev_step 5 0, Ev_step 5 1, Ev_step 6 0, Ev_step 6 0, Ev_step 7 1, Ev_step 8 1, Ev_step 8 1, Ev_step 9 1, Ev_step 9 0]"

definition demo_two :: wake_db where
  "demo_two = demo_db [demo_row 0 0, demo_row 1 1]"

lemma demo_two_ahead:
  "ahead_of_all ''s'' (demo_row 0 0) demo_two" "untouched_queue ''s'' demo_two" "demo_row 0 0 \<in> set (pending_rows ''s'' demo_two)"
  by (simp_all add: demo_two_def ahead_of_all_def untouched_queue_def pending_rows_def queue_place_def)

lemma one_starter_wins_witness:
  "let sts = rc_starters (fold (race_exec ''s'') demo_events \<lparr>rc_db = demo_two, rc_starters = replicate 2 St_check\<rparr>)
   in sts = [St_won (demo_row 0 0), St_lost] \<and> (\<exists>p<2. won_row (sts ! p) \<noteq> None)"
proof -
  let ?sts = "rc_starters (fold (race_exec ''s'') demo_events \<lparr>rc_db = demo_two, rc_starters = replicate 2 St_check\<rparr>)"
  have calm: "\<forall>e\<in>set demo_events. calm 0 e"
    by (simp add: demo_events_def calm_def dispatch_claim_stuck_after_ms_def)
  have "(\<forall>st\<in>set ?sts. finished st) \<longrightarrow> (\<exists>p<2. won_row (?sts ! p) \<noteq> None)"
    using one_starter_wins [OF demo_two_ahead _ calm, of 2, unfolded Let_def] by simp
  moreover have run: "?sts = [St_won (demo_row 0 0), St_lost]"
    by (simp add: demo_events_def demo_two_def race_eval numeral_2_eq_2 insort_key_def)
  moreover have "\<forall>st\<in>set ?sts. finished st"
    by (simp add: run finished_def)
  ultimately show ?thesis by (simp only: Let_def simp_thms)
qed

text \<open>CX: A queued row belongs to one starter. However many drains and clicks on Send now step side by side, at
  whatever times, while messages are queued and started rows deleted, no two of them hold the same row, as long as no
  click writes a row it has read before.\<close>

theorem row_claimed_by_one:
  assumes "ids_ok db" "\<forall>st\<in>set sts. held_row st = None" "\<forall>e\<in>set es. no_rewrite e"
    and "p < length sts" "q < length sts" "p \<noteq> q"
  shows "let w = fold (race_exec s) es \<lparr>rc_db = db, rc_starters = sts\<rparr>
         in \<not> (\<exists>i. held_row (rc_starters w ! p) = Some i \<and> held_row (rc_starters w ! q) = Some i)"
proof -
  define w where "w = fold (race_exec s) es \<lparr>rc_db = db, rc_starters = sts\<rparr>"
  have "excl_inv \<lparr>rc_db = db, rc_starters = sts\<rparr>"
    using assms(1,2) by (auto simp: excl_inv_fam fam_ok_def)
  then have "excl_inv w"
    unfolding w_def fold_honest [OF assms(3)] by (rule honest_race.run_inv)
  moreover have "length (rc_starters w) = length sts"
    by (simp add: w_def length_race_run)
  ultimately have "held_row (rc_starters w ! p) \<noteq> None \<longrightarrow> held_row (rc_starters w ! p) \<noteq> held_row (rc_starters w ! q)"
    using assms(4-6) unfolding excl_inv_def by metis
  then show ?thesis
    unfolding Let_def w_def [symmetric] by (auto simp del: not_None_eq)
qed

definition demo_clicks :: "race_event list" where
  "demo_clicks = [Ev_step 1 0, Ev_step 1 1, Ev_step 2 0, Ev_step 2 1, Ev_step 3 1, Ev_step 3 0]"

lemma row_claimed_by_one_witness:
  "let sts = rc_starters (fold (race_exec ''s'') demo_clicks \<lparr>rc_db = demo_two, rc_starters = [Sn_check 0, Sn_check 0]\<rparr>)
   in sts = [St_lost, St_won (demo_row 0 0)] \<and>
      \<not> (\<exists>i. held_row (sts ! 0) = Some i \<and> held_row (sts ! 1) = Some i)"
proof -
  let ?sts = "rc_starters (fold (race_exec ''s'') demo_clicks \<lparr>rc_db = demo_two, rc_starters = [Sn_check 0, Sn_check 0]\<rparr>)"
  have "ids_ok demo_two" by (simp add: ids_ok_def demo_two_def)
  moreover have "\<forall>st\<in>set [Sn_check 0, Sn_check 0]. held_row st = None" "\<forall>e\<in>set demo_clicks. no_rewrite e"
    by (simp_all add: held_row_def demo_clicks_def no_rewrite_def)
  ultimately have "\<not> (\<exists>i. held_row (?sts ! 0) = Some i \<and> held_row (?sts ! 1) = Some i)"
    using row_claimed_by_one [of demo_two "[Sn_check 0, Sn_check 0]" demo_clicks 0 1 "''s''"] by (simp add: Let_def)
  moreover have "?sts = [St_lost, St_won (demo_row 0 0)]"
    by (simp add: demo_clicks_def demo_two_def race_eval)
  ultimately show ?thesis by (simp only: Let_def simp_thms)
qed

text \<open>CX: A click on Send now can put a second turn beside one that is starting, although it looks for a claim first
  and nothing is slow: it does not look again once it has claimed. And because the click writes its row back to
  pending without looking at the row's state, a row that the drain has just claimed is claimed a second time, and its
  message starts two turns.\<close>

theorem send_now_starts_a_second_turn:
  "(\<exists>db m es. ahead_of_all ''s'' m db \<and> untouched_queue ''s'' db \<and> m \<in> set (pending_rows ''s'' db) \<and> (\<forall>e\<in>set es. calm 0 e) \<and>
      (\<exists>a b. rc_starters (fold (race_exec ''s'') es \<lparr>rc_db = db, rc_starters = [St_check, Sn_check 1]\<rparr>)
              = [St_won a, St_won b] \<and> qr_id a \<noteq> qr_id b)) \<and>
   (\<exists>db row es. row \<in> set (pending_rows ''s'' db) \<and> ids_ok db \<and>
      (\<exists>a b. rc_starters (fold (race_exec ''s'') es \<lparr>rc_db = db, rc_starters = [St_check, Sn_check (qr_id row)]\<rparr>)
              = [St_won a, St_won b] \<and> qr_id a = qr_id b) \<and>
      (\<forall>e\<in>set es. no_rewrite e \<or> (\<exists>now. e = Ev_promote now row)))"
proof
  let ?es = "[Ev_step 1 1, Ev_step 1 0, Ev_step 2 0, Ev_step 2 0, Ev_step 3 0, Ev_step 3 1, Ev_step 3 1]"
  have "rc_starters (fold (race_exec ''s'') ?es \<lparr>rc_db = demo_two, rc_starters = [St_check, Sn_check 1]\<rparr>)
     = [St_won (demo_row 0 0), St_won (demo_row 1 1)]"
    by (simp add: demo_two_def race_eval insort_key_def)
  moreover have "\<forall>e\<in>set ?es. calm 0 e" by (simp add: calm_def dispatch_claim_stuck_after_ms_def)
  ultimately show "\<exists>db m es. ahead_of_all ''s'' m db \<and> untouched_queue ''s'' db \<and> m \<in> set (pending_rows ''s'' db) \<and> (\<forall>e\<in>set es. calm 0 e) \<and>
      (\<exists>a b. rc_starters (fold (race_exec ''s'') es \<lparr>rc_db = db, rc_starters = [St_check, Sn_check 1]\<rparr>)
              = [St_won a, St_won b] \<and> qr_id a \<noteq> qr_id b)"
    using demo_two_ahead by (intro exI [of _ demo_two] exI [of _ "demo_row 0 0"] exI [of _ ?es]) simp
next
  let ?row = "demo_row 0 0" and ?db = "demo_db [demo_row 0 0]"
  let ?es = "[Ev_step 1 0, Ev_step 2 0, Ev_step 2 0, Ev_step 3 0, Ev_promote 4 ?row, Ev_step 5 1, Ev_step 5 1, Ev_step 5 1]"
  have "\<exists>a b. rc_starters (fold (race_exec ''s'') ?es \<lparr>rc_db = ?db, rc_starters = [St_check, Sn_check (qr_id ?row)]\<rparr>)
     = [St_won a, St_won b] \<and> qr_id a = qr_id b"
    by (simp add: race_eval promote_row_def)
  moreover have "?row \<in> set (pending_rows ''s'' ?db)" "ids_ok ?db"
    by (simp_all add: pending_rows_def ids_ok_def)
  moreover have "\<forall>e\<in>set ?es. no_rewrite e \<or> (\<exists>now. e = Ev_promote now ?row)" by (simp add: no_rewrite_def)
  ultimately show "\<exists>db row es. row \<in> set (pending_rows ''s'' db) \<and> ids_ok db \<and>
      (\<exists>a b. rc_starters (fold (race_exec ''s'') es \<lparr>rc_db = db, rc_starters = [St_check, Sn_check (qr_id row)]\<rparr>)
              = [St_won a, St_won b] \<and> qr_id a = qr_id b) \<and>
      (\<forall>e\<in>set es. no_rewrite e \<or> (\<exists>now. e = Ev_promote now row))"
    by blast
qed

end
