(* ===== verification/Wake_Facts.thy ===== *)
theory Wake_Facts
  imports Chat_Queue
begin

text \<open>
  What holds of the delivery of wakes: when it is given up for good, how long it waits between two attempts, what a
  pause gives back, which updates are lost, and which runs of wakes are stopped.
\<close>

section \<open>Giving up\<close>

text \<open>Every operation on tasks that nobody asked for, at its time.\<close>

datatype wake_op =
  Wo_event int string string task_event | Wo_timer int string | Wo_hold_timer string | Wo_sweep int nat
| Wo_release int "string list" | Wo_hold "string list" | Wo_consume "string list" | Wo_silence string
| Wo_cancel int string | Wo_expire int | Wo_reconcile int | Wo_quiet "bg_task list" "utf16 option"

definition wake_step :: "wake_env \<Rightarrow> wake_op \<Rightarrow> wake_db \<Rightarrow> wake_db" where
  "wake_step env op db =
     (case op of
        Wo_event now source target ev \<Rightarrow> snd (emit_task_event env now source target ev db)
      | Wo_timer now s \<Rightarrow> wake_timer_fires env now s db
      | Wo_hold_timer s \<Rightarrow> hold_timer_fires s db
      | Wo_sweep now limit \<Rightarrow> snd (sweep_unnotified_wakes env now limit db)
      | Wo_release now ids \<Rightarrow> snd (release_task_wakes now ids db)
      | Wo_hold ids \<Rightarrow> snd (hold_task_wakes ids db)
      | Wo_consume ids \<Rightarrow> consume_tasks ids db
      | Wo_silence s \<Rightarrow> snd (silence_session_tasks s db)
      | Wo_cancel now i \<Rightarrow> cancel_task now i db
      | Wo_expire now \<Rightarrow> expire_stale now None db
      | Wo_reconcile now \<Rightarrow> snd (reconcile_stuck_tasks env now db)
      | Wo_quiet rows line \<Rightarrow> release_tasks rows line db)"

definition exhausted :: "bg_task \<Rightarrow> bool" where
  "exhausted t \<longleftrightarrow> max_wake_attempts \<le> bt_attempts t \<and> bt_notified t \<noteq> None"

definition given_up :: "string \<Rightarrow> wake_db \<Rightarrow> bool" where
  "given_up i db \<longleftrightarrow> (\<forall>t\<in>set (wd_tasks db). bt_id t = i \<longrightarrow> exhausted t)"

definition rows_for :: "string \<Rightarrow> wake_db \<Rightarrow> queue_row list" where
  "rows_for i db = filter (\<lambda>r. i \<in> set (wb_task_ids (qr_body r))) (wd_rows db)"

definition out_of_reach :: "string \<Rightarrow> queue_row list \<Rightarrow> wake_db \<Rightarrow> bool" where
  "out_of_reach i rows db \<longleftrightarrow> given_up i db \<and> rows_for i db = rows"

lemma out_of_reach_cong:
  "wd_tasks db' = wd_tasks db \<Longrightarrow> wd_rows db' = wd_rows db \<Longrightarrow> out_of_reach i rows db' = out_of_reach i rows db"
  by (simp add: out_of_reach_def given_up_def rows_for_def)

lemma out_of_reach_fields [simp]:
  "out_of_reach i rows (db\<lparr>wd_wake_timers := ts\<rparr>) = out_of_reach i rows db"
  "out_of_reach i rows (db\<lparr>wd_hold_timers := ts\<rparr>) = out_of_reach i rows db"
  "out_of_reach i rows (db\<lparr>wd_next_id := n\<rparr>) = out_of_reach i rows db"
  by (simp_all add: out_of_reach_def given_up_def rows_for_def)

lemma out_of_reach_upd:
  assumes "out_of_reach i rows db"
    and "\<And>t. bt_id (f t) = bt_id t" and "\<And>t. bt_id t = i \<Longrightarrow> exhausted t \<Longrightarrow> p t \<Longrightarrow> exhausted (f t)"
  shows "out_of_reach i rows (upd_tasks p f db)"
  using assms by (auto simp: out_of_reach_def given_up_def rows_for_def update_where_def)

lemma out_of_reach_fold:
  "out_of_reach i rows db \<Longrightarrow> (\<And>x db. x \<in> set xs \<Longrightarrow> out_of_reach i rows db \<Longrightarrow> out_of_reach i rows (f x db)) \<Longrightarrow>
   out_of_reach i rows (fold f xs db)"
  by (induction xs arbitrary: db) auto

lemma reach_fold_snd:
  "(\<And>x acc. out_of_reach i rows (snd acc) \<Longrightarrow> out_of_reach i rows (snd (f x acc))) \<Longrightarrow>
   out_of_reach i rows (snd acc) \<Longrightarrow> out_of_reach i rows (snd (fold f xs acc))"
  by (induction xs arbitrary: acc) simp_all

lemma reach_timers [intro]:
  "out_of_reach i rows db \<Longrightarrow> out_of_reach i rows (schedule_task_wake s db)"
  "out_of_reach i rows db \<Longrightarrow> out_of_reach i rows (schedule_hold_expiry s db)"
  by (simp_all add: schedule_task_wake_def schedule_hold_expiry_def)

lemma reach_hold_tasks: "out_of_reach i rows db \<Longrightarrow> out_of_reach i rows (hold_tasks now ts db)"
  unfolding hold_tasks_def
  by (auto intro!: out_of_reach_fold out_of_reach_upd simp: exhausted_def)

lemma reach_settle: "out_of_reach i rows db \<Longrightarrow> out_of_reach i rows (settle_task env now j status summary db)"
  unfolding settle_task_def Let_def
  by (auto intro!: reach_hold_tasks reach_timers out_of_reach_upd simp: exhausted_def split: option.split)

lemma reach_apply_event: "out_of_reach i rows db \<Longrightarrow> out_of_reach i rows (apply_event env now row ev db)"
  unfolding apply_event_def Let_def
  by (auto intro!: reach_settle out_of_reach_upd simp: exhausted_def split: option.split)

lemma reach_emit: "out_of_reach i rows db \<Longrightarrow> out_of_reach i rows (snd (emit_task_event env now source target ev db))"
  unfolding emit_task_event_def Let_def snd_conv by (rule out_of_reach_fold) (auto intro: reach_apply_event)

lemma rearm_rows [simp]: "wd_rows (rearm_card_watch now row db) = wd_rows db"
  by (simp add: rearm_card_watch_def split: option.split)

lemma reach_rearm: "out_of_reach i rows db \<Longrightarrow> bt_id row \<noteq> i \<Longrightarrow> out_of_reach i rows (rearm_card_watch now row db)"
  unfolding rearm_card_watch_def by (auto intro!: out_of_reach_upd split: option.split)

lemma get_task_id: "get_task i db = Some t \<Longrightarrow> bt_id t = i"
  by (auto simp: get_task_def find_Some_iff)

lemma reach_enqueue_one:
  assumes "out_of_reach i rows (snd (snd acc))"
  shows "out_of_reach i rows (snd (snd (enqueue_one now s user task acc)))"
proof -
  obtain pos queued db where acc: "acc = (pos, queued, db)" by (cases acc) auto
  show ?thesis
  proof (cases "list_ex (\<lambda>t. bt_id t = bt_id task \<and> bt_notified t = None) (wd_tasks db)")
    case True
    with assms acc have ne: "bt_id task \<noteq> i"
      by (auto simp: list_ex_iff out_of_reach_def given_up_def exhausted_def)
    let ?db = "upd_tasks (\<lambda>t. bt_id t = bt_id task \<and> bt_notified t = None) (\<lambda>t. t\<lparr>bt_notified := Some now\<rparr>) db"
    let ?fresh = "case get_task (bt_id task) ?db of Some t \<Rightarrow> t | None \<Rightarrow> task"
    have id: "bt_id ?fresh = bt_id task" by (auto split: option.split dest: get_task_id)
    have "out_of_reach i rows ?db"
      using assms acc by (auto intro!: out_of_reach_upd simp: exhausted_def)
    then have "out_of_reach i rows (?db\<lparr>wd_rows := wd_rows ?db @ [wake_row now (wd_next_id ?db) s user (pos + 1) ?fresh],
        wd_next_id := wd_next_id ?db + 1\<rparr>)"
      using ne id by (simp add: out_of_reach_def given_up_def rows_for_def wake_row_def)
    from reach_rearm [OF this, of ?fresh] True acc ne id show ?thesis
      by (simp add: enqueue_one_def Let_def)
  qed (use assms acc in \<open>simp add: enqueue_one_def Let_def\<close>)
qed

lemma reach_enqueue: "out_of_reach i rows db \<Longrightarrow> out_of_reach i rows (snd (enqueue_task_wake env now s db))"
proof -
  assume "out_of_reach i rows db"
  then have "out_of_reach i rows (snd (snd (fold (enqueue_one now s user) ts (pos, n, db))))" for user ts pos n
  proof (induction ts arbitrary: pos n db)
    case (Cons t ts)
    obtain pos' n' db' where acc: "enqueue_one now s user t (pos, n, db) = (pos', n', db')"
      by (cases "enqueue_one now s user t (pos, n, db)") auto
    have "out_of_reach i rows db'"
      using reach_enqueue_one [of i rows "(pos, n, db)" now s user t] Cons.prems acc by simp
    from Cons.IH [OF this] show ?case by (simp add: acc)
  qed simp
  with \<open>out_of_reach i rows db\<close> show ?thesis
    by (auto simp: enqueue_task_wake_def Let_def case_prod_unfold split: option.split)
qed

lemma reach_release: "out_of_reach i rows db \<Longrightarrow> out_of_reach i rows (snd (release_task_wakes now ids db))"
  unfolding release_task_wakes_def Let_def snd_conv
  by (rule out_of_reach_upd) (auto simp: release_one_def exhausted_def)

lemma reach_lifted:
  assumes "out_of_reach i rows db"
  shows "out_of_reach i rows (snd (release_lifted_pause_holds now db))"
proof -
  let ?held = "pause_held_tasks now db"
  have held: "i \<notin> bt_id ` set ?held"
    using assms by (auto simp: out_of_reach_def given_up_def exhausted_def pause_held_tasks_def pause_held_def dest!: in_set_takeD)
  have one: "out_of_reach i rows (snd (release_lifted_session ?held s acc))" if "out_of_reach i rows (snd acc)" for s acc
    using that held unfolding release_lifted_session_def case_prod_unfold Let_def
    by (auto intro!: out_of_reach_upd)
  show ?thesis
    unfolding release_lifted_pause_holds_def Let_def by (rule reach_fold_snd) (use one assms in simp_all)
qed

lemma reach_sweep: "out_of_reach i rows db \<Longrightarrow> out_of_reach i rows (snd (sweep_unnotified_wakes env now limit db))"
proof -
  have one: "out_of_reach i rows (snd (sweep_session env now s acc))" if "out_of_reach i rows (snd acc)" for s acc
    using that reach_enqueue [OF that, of env now s] by (auto simp: sweep_session_def Let_def case_prod_unfold)
  show "out_of_reach i rows db \<Longrightarrow> ?thesis"
    unfolding sweep_unnotified_wakes_def Let_def by (rule reach_fold_snd) (use one in \<open>simp_all add: reach_lifted\<close>)
qed

lemma reach_done: "out_of_reach i rows db \<Longrightarrow> out_of_reach i rows (snd (settle_if_already_done env now row db))"
  unfolding settle_if_already_done_def Let_def case_prod_unfold by (auto intro: reach_apply_event split: option.split)

lemma reach_reconcile: "out_of_reach i rows db \<Longrightarrow> out_of_reach i rows (snd (reconcile_stuck_tasks env now db))"
  unfolding reconcile_stuck_tasks_def Let_def
  by (rule reach_fold_snd) (auto simp: case_prod_unfold intro!: out_of_reach_fold reach_settle reach_done)

lemma reach_step: "out_of_reach i rows db \<Longrightarrow> out_of_reach i rows (wake_step env op db)"
proof (cases op)
  case (Wo_timer now s)
  then show "out_of_reach i rows db \<Longrightarrow> ?thesis"
    by (simp add: wake_step_def wake_timer_fires_def reach_enqueue)
next
  case (Wo_hold_timer s)
  then show "out_of_reach i rows db \<Longrightarrow> ?thesis"
    by (auto simp: wake_step_def hold_timer_fires_def)
next
  case (Wo_expire now)
  then show "out_of_reach i rows db \<Longrightarrow> ?thesis"
    by (auto simp: wake_step_def expire_stale_def Let_def out_of_reach_def given_up_def rows_for_def update_where_def exhausted_def)
next
  case (Wo_quiet ts line)
  then show "out_of_reach i rows db \<Longrightarrow> ?thesis"
    unfolding wake_step_def release_tasks_def
    by (auto intro!: out_of_reach_fold out_of_reach_upd simp: exhausted_def)
next
  case (Wo_hold ids)
  then show "out_of_reach i rows db \<Longrightarrow> ?thesis"
    by (auto simp: wake_step_def hold_task_wakes_def exhausted_def intro!: out_of_reach_upd)
next
  case (Wo_consume ids)
  then show "out_of_reach i rows db \<Longrightarrow> ?thesis"
    by (auto simp: wake_step_def consume_tasks_def exhausted_def intro!: out_of_reach_upd)
next
  case (Wo_silence s)
  then show "out_of_reach i rows db \<Longrightarrow> ?thesis"
    by (auto simp: wake_step_def silence_session_tasks_def Let_def exhausted_def out_of_reach_def given_up_def rows_for_def update_where_def)
next
  case (Wo_cancel now j)
  then show "out_of_reach i rows db \<Longrightarrow> ?thesis"
    by (auto simp: wake_step_def cancel_task_def exhausted_def intro!: out_of_reach_upd split: option.split)
qed (auto simp: wake_step_def reach_emit reach_sweep reach_release reach_reconcile)

interpretation wakes: latching_machine "wake_step env" "\<lambda>_. True" "out_of_reach i rows"
  by unfold_locales (simp_all add: reach_step)

definition demo_task :: bg_task where
  "demo_task =
     \<lparr>bt_id = ''t'', bt_session = ''s'', bt_source = ''agent_reply'', bt_target = ''m:ws'', bt_title = [],
      bt_status = Task_completed, bt_output = [], bt_summary = None, bt_until = None, bt_note = None, bt_notify = True,
      bt_consumed = False, bt_notified = Some 10, bt_attempts = 4, bt_next = Some 5, bt_held = None, bt_finished = Some 1,
      bt_expires = 1000000, bt_created = 0\<rparr>"

definition demo_wakes :: "bg_task list \<Rightarrow> wake_db" where
  "demo_wakes ts =
     \<lparr>wd_tasks = ts, wd_rows = [], wd_msgs = [], wd_chats = [], wd_cards = [], wd_next_id = 0,
      wd_wake_timers = [], wd_hold_timers = []\<rparr>"

text \<open>C40: A wake that was handed back for the fifth time is given up: no event, timer, sweep, pause or lifting of one
  ever queues another message for its task.\<close>

theorem fifth_failure_is_final:
  assumes "\<forall>t\<in>set (wd_tasks db). bt_id t = i \<longrightarrow> claimed_unseen ids t \<and> max_wake_attempts \<le> bt_attempts t + 1"
  shows "let db' = snd (release_task_wakes now ids db); db'' = fold (wake_step env) ops db'
         in rows_for i db'' = rows_for i db' \<and> (\<forall>t\<in>set (wd_tasks db''). bt_id t = i \<longrightarrow> \<not> wake_due later t)"
proof -
  let ?db = "snd (release_task_wakes now ids db)"
  have "out_of_reach i (rows_for i ?db) ?db"
    using assms by (auto simp: out_of_reach_def given_up_def release_task_wakes_def Let_def update_where_def
        release_one_def exhausted_def claimed_unseen_def)
  then have "out_of_reach i (rows_for i ?db) (fold (wake_step env) ops ?db)"
    by (rule wakes.run_latched [OF TrueI])
  then show ?thesis
    by (auto simp: Let_def out_of_reach_def given_up_def exhausted_def wake_due_def)
qed

lemma fifth_failure_is_final_witness:
  "let db' = snd (release_task_wakes 20 [''t''] (demo_wakes [demo_task]))
   in bt_attempts (hd (wd_tasks db')) = 5 \<and>
      rows_for ''t'' (fold (wake_step demo_host) [Wo_sweep 30 50, Wo_timer 40 ''s''] db') = rows_for ''t'' db'"
proof -
  have "\<forall>t\<in>set (wd_tasks (demo_wakes [demo_task])). bt_id t = ''t'' \<longrightarrow> claimed_unseen [''t''] t \<and> max_wake_attempts \<le> bt_attempts t + 1"
    by (simp add: demo_wakes_def demo_task_def claimed_unseen_def clean_ids_def max_wake_attempts_def)
  from fifth_failure_is_final [OF this, of 20 demo_host "[Wo_sweep 30 50, Wo_timer 40 ''s'']"]
  have "rows_for ''t'' (fold (wake_step demo_host) [Wo_sweep 30 50, Wo_timer 40 ''s''] (snd (release_task_wakes 20 [''t''] (demo_wakes [demo_task]))))
      = rows_for ''t'' (snd (release_task_wakes 20 [''t''] (demo_wakes [demo_task])))"
    unfolding Let_def by blast
  moreover have "bt_attempts (hd (wd_tasks (snd (release_task_wakes 20 [''t''] (demo_wakes [demo_task]))))) = 5"
    by (simp add: demo_wakes_def demo_task_def claimed_unseen_def clean_ids_def release_task_wakes_def Let_def update_where_def
        release_one_def max_wake_attempts_def)
  ultimately show ?thesis by (simp only: Let_def simp_thms)
qed

section \<open>Waiting\<close>

text \<open>CX: A wake that is handed back is due again after a minute at most, and at once the first time. The last two
  entries of the table of delays, two minutes and five, are never reached: by then the wake has been given up.\<close>

theorem wake_backoff_within_a_minute:
  assumes "t \<in> set (wd_tasks db)" "claimed_unseen ids t"
  shows "let t' = release_one now t
         in t' \<in> set (wd_tasks (snd (release_task_wakes now ids db))) \<and>
            (if bt_attempts t < 4
             then bt_notified t' = None \<and> (\<exists>d. bt_next t' = Some (now + d) \<and> 0 \<le> d \<and> d \<le> 60000 \<and> (bt_attempts t = 0 \<longrightarrow> d = 0))
             else bt_notified t' = bt_notified t \<and> bt_next t' = bt_next t) \<and>
            60000 < max_wake_backoff_ms"
proof -
  have "release_one now t \<in> set (wd_tasks (snd (release_task_wakes now ids db)))"
    using assms by (force simp: release_task_wakes_def Let_def update_where_def)
  moreover have "60000 < max_wake_backoff_ms"
    by (simp add: max_wake_backoff_ms_def wake_retry_backoff_ms_def)
  moreover have "bt_notified (release_one now t) = None \<and> (\<exists>d. bt_next (release_one now t) = Some (now + d) \<and> 0 \<le> d \<and>
      d \<le> 60000 \<and> (bt_attempts t = 0 \<longrightarrow> d = 0))" if "bt_attempts t < 4"
  proof -
    from that have "bt_attempts t \<in> {0, 1, 2, 3}" by auto
    then show ?thesis
      by (auto simp: release_one_def max_wake_attempts_def backoff_delay_def wake_retry_backoff_ms_def)
  qed
  ultimately show ?thesis by (simp add: Let_def release_one_def max_wake_attempts_def)
qed

lemma wake_backoff_within_a_minute_witness:
  "let t = demo_task\<lparr>bt_attempts := 3\<rparr>; t' = release_one 100 t
   in bt_next t' = Some 60100 \<and> t' \<in> set (wd_tasks (snd (release_task_wakes 100 [''t''] (demo_wakes [t]))))"
proof -
  have "demo_task\<lparr>bt_attempts := 3\<rparr> \<in> set (wd_tasks (demo_wakes [demo_task\<lparr>bt_attempts := 3\<rparr>]))"
    "claimed_unseen [''t''] (demo_task\<lparr>bt_attempts := 3\<rparr>)"
    by (simp_all add: demo_wakes_def demo_task_def claimed_unseen_def clean_ids_def)
  from wake_backoff_within_a_minute [OF this, of 100] show ?thesis
    by (simp add: Let_def release_one_def demo_task_def max_wake_attempts_def backoff_delay_def wake_retry_backoff_ms_def)
qed

section \<open>Pauses\<close>

lemma waits_cong:
  assumes "wd_msgs db' = wd_msgs db" "\<And>i. task_started_at db' i = task_started_at db i"
  shows "consecutive_wake_waits s limit db' = consecutive_wake_waits s limit db"
proof -
  have "task_started_at db' = task_started_at db" using assms(2) by (rule ext)
  then have "count_waits db' ms = count_waits db ms" for ms
    by (induction db ms rule: count_waits.induct) (simp_all add: Let_def)
  then have "count_waits db' = count_waits db" by (rule ext)
  then show ?thesis
    by (simp only: consecutive_wake_waits_def recent_user_messages_def assms(1))
qed

lemma started_upd:
  assumes "\<And>t. bt_id (f t) = bt_id t" "\<And>t. bt_created (f t) = bt_created t"
  shows "task_started_at (upd_tasks p f db) i = task_started_at db i"
proof -
  have "map_option bt_created (find (\<lambda>t. bt_id t = i) (update_where p f ts)) = map_option bt_created (find (\<lambda>t. bt_id t = i) ts)" for ts
    by (induction ts) (auto simp: update_where_def assms)
  from this [of "wd_tasks db"] show ?thesis
    by (cases "find (\<lambda>t. bt_id t = i) (update_where p f (wd_tasks db))"; cases "find (\<lambda>t. bt_id t = i) (wd_tasks db)")
      (simp_all add: task_started_at_def get_task_def)
qed

definition lift :: "bg_task \<Rightarrow> bg_task" where
  "lift t = t\<lparr>bt_held := None, bt_notified := None\<rparr>"

lemma lift_simps [simp]:
  "bt_id (lift t) = bt_id t" "bt_created (lift t) = bt_created t" "bt_session (lift t) = bt_session t"
  "bt_consumed (lift t) = bt_consumed t" "bt_held (lift t) = None" "bt_notified (lift t) = None"
  "bt_status (lift t) = bt_status t" "bt_notify (lift t) = bt_notify t"
  by (simp_all add: lift_def)

text \<open>One session's group: lifted, or left, by a test that no other group changes.\<close>

lemma release_lifted_session_eq:
  "snd (release_lifted_session held s acc) =
     (let rows = filter (\<lambda>t. bt_session t = s) held; limit = wake_limit rows
      in if limit \<le> consecutive_wake_waits s limit (snd acc) then snd acc
         else upd_tasks (\<lambda>t. bt_id t \<in> set (map bt_id rows) \<and> \<not> bt_consumed t) lift (snd acc))"
  unfolding lift_def [abs_def] by (simp add: release_lifted_session_def case_prod_unfold Let_def)

lemma release_lifted_session_waits:
  "consecutive_wake_waits s' l (snd (release_lifted_session held s acc)) = consecutive_wake_waits s' l (snd acc)"
  by (auto simp: release_lifted_session_eq Let_def intro!: waits_cong started_upd)

definition session_group :: "bg_task list \<Rightarrow> string \<Rightarrow> bg_task list" where
  "session_group held s = filter (\<lambda>t. bt_session t = s) held"

definition pause_over :: "bg_task list \<Rightarrow> wake_db \<Rightarrow> string \<Rightarrow> bool" where
  "pause_over held db s \<longleftrightarrow> \<not> wake_limit (session_group held s) \<le> consecutive_wake_waits s (wake_limit (session_group held s)) db"

lemma pause_over_step: "pause_over held (snd (release_lifted_session held s acc)) = pause_over held (snd acc)"
  by (simp add: pause_over_def release_lifted_session_waits fun_eq_iff)

lemma lift_lift [simp]: "lift (lift t) = lift t"
  by (simp add: lift_def)

lemma release_lifted_tasks:
  "wd_tasks (snd (fold (release_lifted_session held) ss acc)) =
     map (\<lambda>u. if (\<exists>s\<in>set ss. pause_over held (snd acc) s \<and> bt_id u \<in> bt_id ` set (session_group held s)) \<and> \<not> bt_consumed u then lift u else u)
       (wd_tasks (snd acc))"
proof (induction ss arbitrary: acc)
  case (Cons s ss)
  have one: "wd_tasks (snd (release_lifted_session held s acc)) =
      map (\<lambda>u. if pause_over held (snd acc) s \<and> bt_id u \<in> bt_id ` set (session_group held s) \<and> \<not> bt_consumed u then lift u else u) (wd_tasks (snd acc))"
    by (auto simp: release_lifted_session_eq Let_def pause_over_def session_group_def update_where_def)
  show ?case
    unfolding fold_simps Cons.IH pause_over_step one map_map by (rule map_cong) auto
qed (simp add: map_idI)

lemma first_seen_set [simp]: "set (first_seen xs) = set xs"
  by (induction xs) auto

lemma hold_one:
  assumes "distinct (map bt_id (wd_tasks db))" "t \<in> set (wd_tasks db)" "claimed_unseen [bt_id t] t"
  shows "t\<lparr>bt_held := Some (bt_expires t), bt_attempts := max 1 (bt_attempts t)\<rparr> \<in> set (wd_tasks (snd (hold_task_wakes [bt_id t] db)))"
proof -
  have "t\<lparr>bt_held := Some (bt_expires t), bt_attempts := (if bt_attempts t < 1 then 1 else bt_attempts t)\<rparr>
      \<in> set (wd_tasks (snd (hold_task_wakes [bt_id t] db)))"
    using assms(2,3) by (force simp: hold_task_wakes_def update_where_def)
  then show ?thesis by (simp add: max_def not_less le_Suc_eq split: if_splits)
qed

text \<open>CX: A pause keeps what it holds. The task of a wake that a pause did not let through is out of the sweep's reach;
  once the session's run of wakes is below the limit again, the next sweep has it due, and until then nothing changes.\<close>

theorem paused_update_comes_back:
  assumes "distinct (map bt_id (wd_tasks db))" "t \<in> set (wd_tasks db)" "claimed_unseen [bt_id t] t"
    and "bt_status t \<noteq> Task_running" "bt_notify t" "now < bt_expires t" "bt_attempts t < max_wake_attempts"
    and "length (filter (pause_held now) (wd_tasks (snd (hold_task_wakes [bt_id t] db)))) \<le> 500"
  shows "let db1 = snd (hold_task_wakes [bt_id t] db);
             t1 = t\<lparr>bt_held := Some (bt_expires t), bt_attempts := max 1 (bt_attempts t)\<rparr>;
             rows = filter (\<lambda>u. bt_session u = bt_session t) (pause_held_tasks now db1);
             db2 = snd (release_lifted_pause_holds now db1)
         in t1 \<in> set (wd_tasks db1) \<and> \<not> wake_due later t1 \<and>
            (if consecutive_wake_waits (bt_session t) (wake_limit rows) db1 < wake_limit rows
             then \<exists>t2\<in>set (wd_tasks db2). bt_id t2 = bt_id t \<and> bt_attempts t2 = bt_attempts t1 \<and> wake_due later t2
             else t1 \<in> set (wd_tasks db2))"
proof -
  define db1 where "db1 = snd (hold_task_wakes [bt_id t] db)"
  define t1 where "t1 = t\<lparr>bt_held := Some (bt_expires t), bt_attempts := max 1 (bt_attempts t)\<rparr>"
  define held where "held = pause_held_tasks now db1"
  have t1: "t1 \<in> set (wd_tasks db1)" "bt_id t1 = bt_id t" "bt_session t1 = bt_session t" "\<not> bt_consumed t1"
    using hold_one [OF assms(1-3)] assms(3) by (simp_all add: db1_def t1_def claimed_unseen_def)
  have "map bt_id (wd_tasks db1) = map bt_id (wd_tasks db)"
    by (simp add: db1_def hold_task_wakes_def update_where_def)
  with assms(1) have d: "distinct (map bt_id (wd_tasks db1))" by simp
  have "pause_held now t1"
    using assms(3-7) by (simp add: pause_held_def t1_def claimed_unseen_def max_wake_attempts_def)
  with t1(1) assms(8) have t1_held: "t1 \<in> set held"
    by (simp add: held_def pause_held_tasks_def db1_def [symmetric] t1_def)
  have same: "u = t1" if "u \<in> set held" "bt_id u = bt_id t1" for u
    using that d t1(1) by (auto simp: held_def pause_held_tasks_def distinct_map inj_on_def dest!: in_set_takeD)
  have reach: "(\<exists>s\<in>set (first_seen (map bt_session held)). pause_over held db1 s \<and> bt_id t1 \<in> bt_id ` set (session_group held s))
      \<longleftrightarrow> pause_over held db1 (bt_session t)"
  proof
    assume "\<exists>s\<in>set (first_seen (map bt_session held)). pause_over held db1 s \<and> bt_id t1 \<in> bt_id ` set (session_group held s)"
    then obtain s u where "pause_over held db1 s" "u \<in> set held" "bt_session u = s" "bt_id u = bt_id t1"
      by (auto simp: session_group_def)
    with same [of u] t1(3) show "pause_over held db1 (bt_session t)" by auto
  next
    assume over: "pause_over held db1 (bt_session t)"
    have "bt_session t1 \<in> set (first_seen (map bt_session held))" "t1 \<in> set (session_group held (bt_session t1))"
      using t1_held by (simp_all add: session_group_def)
    with over t1(3) show "\<exists>s\<in>set (first_seen (map bt_session held)). pause_over held db1 s \<and> bt_id t1 \<in> bt_id ` set (session_group held s)"
      by auto
  qed
  have "(if pause_over held db1 (bt_session t) then lift t1 else t1) \<in> set (wd_tasks (snd (release_lifted_pause_holds now db1)))"
    using t1(1,4) reach
    by (force simp: release_lifted_pause_holds_def Let_def release_lifted_tasks held_def [symmetric])
  moreover have "wake_due later (lift t1)" "\<not> wake_due later t1"
    using assms(3-5) by (simp_all add: wake_due_def lift_def t1_def claimed_unseen_def)
  moreover have "bt_id (lift t1) = bt_id t" "bt_attempts (lift t1) = bt_attempts t1"
    using t1(2) by (simp_all add: lift_def)
  ultimately show ?thesis
    using t1(1) unfolding Let_def db1_def [symmetric] t1_def [symmetric] held_def [symmetric]
    by (auto simp: pause_over_def session_group_def not_le split: if_splits intro!: bexI [of _ "lift t1"])
qed

lemma paused_update_comes_back_witness:
  "let t = demo_task\<lparr>bt_attempts := 0\<rparr>; db1 = snd (hold_task_wakes [''t''] (demo_wakes [t]))
   in \<exists>t2\<in>set (wd_tasks (snd (release_lifted_pause_holds 100 db1))). bt_id t2 = ''t'' \<and> bt_attempts t2 = 1 \<and> wake_due 100 t2"
proof -
  let ?t = "demo_task\<lparr>bt_attempts := 0\<rparr>"
  have t: "distinct (map bt_id (wd_tasks (demo_wakes [?t])))" "?t \<in> set (wd_tasks (demo_wakes [?t]))" "claimed_unseen [bt_id ?t] ?t"
    "bt_status ?t \<noteq> Task_running" "bt_notify ?t" "100 < bt_expires ?t" "bt_attempts ?t < max_wake_attempts"
    "length (filter (pause_held 100) (wd_tasks (snd (hold_task_wakes [bt_id ?t] (demo_wakes [?t]))))) \<le> 500"
    by (simp_all add: demo_wakes_def demo_task_def claimed_unseen_def clean_ids_def max_wake_attempts_def hold_task_wakes_def update_where_def)
  have "consecutive_wake_waits s l (snd (hold_task_wakes [bt_id ?t] (demo_wakes [?t]))) = 0" for s l
    by (simp add: consecutive_wake_waits_def recent_user_messages_def hold_task_wakes_def demo_wakes_def)
  moreover have "0 < wake_limit rows" for rows
    by (simp add: wake_limit_def max_consecutive_card_wakes_def max_consecutive_wakes_def)
  moreover have "bt_id ?t = ''t''" by (simp add: demo_task_def)
  ultimately show ?thesis
    using paused_update_comes_back [OF t, of 100] by (simp add: Let_def)
qed

section \<open>Watches that are put back\<close>

definition open_watch :: "int \<Rightarrow> wake_db \<Rightarrow> bg_task \<Rightarrow> bool" where
  "open_watch now db t \<longleftrightarrow>
     bt_source t = ''work_item'' \<and> truthy16 (bt_until t) \<noteq> None \<and> now < bt_expires t \<and>
     (case find (\<lambda>c. ci_id c = bt_target t \<and> \<not> ci_archived c) (wd_cards db) of
        None \<Rightarrow> False
      | Some c \<Rightarrow>
          \<not> is_closed_category (case ci_column c of None \<Rightarrow> None | Some (cat, _) \<Rightarrow> cat) \<and>
          truthy (case ci_assignee c of Some a \<Rightarrow> Some a
                  | None \<Rightarrow> (case ci_column c of None \<Rightarrow> None | Some (_, a) \<Rightarrow> a)) \<noteq> None)"

definition rearmed :: "bg_task \<Rightarrow> bg_task" where
  "rearmed t = t\<lparr>bt_status := Task_running, bt_consumed := False, bt_notified := None, bt_attempts := 0,
                 bt_finished := None, bt_held := None, bt_summary := None, bt_output := []\<rparr>"

lemma rearm_open:
  "open_watch now db row \<Longrightarrow> rearm_card_watch now row db = upd_tasks (\<lambda>t. bt_id t = bt_id row) rearmed db"
  unfolding open_watch_def rearm_card_watch_def rearmed_def [abs_def] by (auto split: option.splits)

lemma find_distinct_task:
  "distinct (map bt_id ts) \<Longrightarrow> t \<in> set ts \<Longrightarrow> find (\<lambda>u. bt_id u = bt_id t) ts = Some t"
  by (induction ts) auto

lemma enqueue_open_watch:
  fixes s user :: string and pos :: int
  assumes d: "distinct (map bt_id (wd_tasks db))" and t: "t \<in> set (wd_tasks db)" "wake_due now t" and w: "open_watch now db t"
  defines "row \<equiv> wake_row now (wd_next_id db) s user (pos + 1) (t\<lparr>bt_notified := Some now\<rparr>)"
  shows "enqueue_one now s user t (pos, n, db) =
    (pos + 1, n + 1, db\<lparr>wd_tasks := map (\<lambda>u. if bt_id u = bt_id t then rearmed u else u) (wd_tasks db),
                         wd_rows := wd_rows db @ [row], wd_next_id := wd_next_id db + 1\<rparr>)"
proof -
  let ?db = "upd_tasks (\<lambda>u. bt_id u = bt_id t \<and> bt_notified u = None) (\<lambda>u. u\<lparr>bt_notified := Some now\<rparr>) db"
  let ?t = "t\<lparr>bt_notified := Some now\<rparr>"
  have free: "list_ex (\<lambda>u. bt_id u = bt_id t \<and> bt_notified u = None) (wd_tasks db)"
    using t by (auto simp: list_ex_iff wake_due_def)
  have "map bt_id (wd_tasks ?db) = map bt_id (wd_tasks db)" "?t \<in> set (wd_tasks ?db)"
    using t by (force simp: update_where_def wake_due_def)+
  then have fresh: "get_task (bt_id t) ?db = Some ?t"
    using d find_distinct_task [of "wd_tasks ?db" ?t] by (simp add: get_task_def)
  let ?db' = "?db\<lparr>wd_rows := wd_rows ?db @ [row], wd_next_id := wd_next_id ?db + 1\<rparr>"
  have "open_watch now ?db' ?t" using w by (simp add: open_watch_def)
  note re = rearm_open [OF this]
  have "rearmed (u\<lparr>bt_notified := Some now\<rparr>) = rearmed u" for u by (simp add: rearmed_def)
  then have "wd_tasks (rearm_card_watch now ?t ?db') = map (\<lambda>u. if bt_id u = bt_id t then rearmed u else u) (wd_tasks db)"
    unfolding re by (simp add: update_where_def)
  then have "rearm_card_watch now ?t ?db' = db\<lparr>wd_tasks := map (\<lambda>u. if bt_id u = bt_id t then rearmed u else u) (wd_tasks db),
      wd_rows := wd_rows db @ [row], wd_next_id := wd_next_id db + 1\<rparr>"
    unfolding re by simp
  with free fresh show ?thesis
    by (simp add: enqueue_one_def Let_def row_def)
qed

text \<open>CX: An update of a card that is still open is lost when the session is paused. Its watch is put back the moment
  the message is queued, so the pause finds nothing to hold; when a person then writes, which is what the pause asks
  for, the marker is deleted, and nothing is left that would deliver the update.\<close>

theorem paused_card_update_is_lost:
  assumes "distinct (map bt_id (wd_tasks db))" "t \<in> set (wd_tasks db)" "wake_due now t" "open_watch now db t"
    and "\<forall>r\<in>set (wd_rows db). qr_id r < wd_next_id db"
  shows "let (_, _, db1) = enqueue_one now s user t (pos, n, db);
             row = wake_row now (wd_next_id db) s user (pos + 1) (t\<lparr>bt_notified := Some now\<rparr>);
             db2 = snd (try_claim later s (qr_id row) db1);
             db3 = snd (settle_skipped_wake later row (Skip_paused wake_paused) db2);
             db4 = clear_paused_wake_rows s None db3
         in row \<in> set (wd_rows db1) \<and> row \<in> set (pending_rows s db1) \<and> wb_task_ids (qr_body row) = [bt_id t] \<and>
            (\<exists>r\<in>set (wd_rows db3). qr_id r = qr_id row \<and> qr_error r = Some wake_paused) \<and>
            (\<forall>r\<in>set (wd_rows db4). qr_id r \<noteq> qr_id row) \<and>
            (\<forall>u\<in>set (wd_tasks db4). bt_id u = bt_id t \<longrightarrow> \<not> wake_due moment u \<and> \<not> pause_held moment u \<and> bt_output u = [])"
proof -
  let ?row = "wake_row now (wd_next_id db) s user (pos + 1) (t\<lparr>bt_notified := Some now\<rparr>)"
  let ?tasks = "map (\<lambda>u. if bt_id u = bt_id t then rearmed u else u) (wd_tasks db)"
  define db1 where "db1 = db\<lparr>wd_tasks := ?tasks, wd_rows := wd_rows db @ [?row], wd_next_id := wd_next_id db + 1\<rparr>"
  define db2 where "db2 = snd (try_claim later s (qr_id ?row) db1)"
  define db3 where "db3 = snd (settle_skipped_wake later ?row (Skip_paused wake_paused) db2)"
  have row: "qr_id ?row = wd_next_id db" "qr_session ?row = s" "qr_status ?row = Row_pending" "wb_task_ids (qr_body ?row) = [bt_id t]"
    by (simp_all add: wake_row_def)
  have old: "qr_id r \<noteq> qr_id ?row" if "r \<in> set (wd_rows db)" for r using assms(5) that row(1) by auto
  have tasks1: "\<not> wake_due moment u \<and> \<not> pause_held moment u \<and> bt_output u = [] \<and> \<not> claimed_unseen ids u"
    if "u \<in> set ?tasks" "bt_id u = bt_id t" for u ids moment
    using that by (auto simp: rearmed_def wake_due_def pause_held_def claimed_unseen_def split: if_splits)
  have tasks2: "wd_tasks db2 = ?tasks" by (simp add: db2_def db1_def try_claim_def)
  have rows2: "r \<in> set (wd_rows db2) \<Longrightarrow> qr_id r = qr_id ?row \<Longrightarrow> qr_session r = s \<and> qr_status r = Row_dispatching" for r
    using old row by (auto simp: db2_def db1_def try_claim_def update_where_def is_row_def split: if_splits)
  have row2: "?row\<lparr>qr_status := Row_dispatching, qr_error := None, qr_updated := later\<rparr> \<in> set (wd_rows db2)"
    using old row by (auto simp: db2_def db1_def try_claim_def update_where_def is_row_def split: if_splits)
  have "\<not> claimed_unseen [bt_id t] u" if "u \<in> set ?tasks" for u
    using tasks1 [OF that, of _ "[bt_id t]"] by (cases "bt_id u = bt_id t") (auto simp: claimed_unseen_def clean_ids_def split: if_splits)
  then have hold: "update_where (claimed_unseen [bt_id t]) f ?tasks = ?tasks" for f
    unfolding update_where_def by (intro map_idI) auto
  have tasks3: "wd_tasks db3 = ?tasks"
    by (simp add: db3_def settle_skipped_wake_def hold_task_wakes_def clear_paused_wake_rows_def row(4) tasks2 hold)
  have rows3: "qr_session r = s \<and> qr_status r = Row_failed \<and> qr_error r = Some wake_paused"
    if r: "r \<in> set (wd_rows db3)" "qr_id r = qr_id ?row" for r
  proof -
    from r(1) obtain y where y: "y \<in> set (wd_rows db2)" "r = (if qr_id y = qr_id ?row \<and> qr_status y = Row_dispatching
        then y\<lparr>qr_status := Row_failed, qr_error := Some wake_paused, qr_body := (qr_body ?row)\<lparr>wb_paused := True\<rparr>, qr_updated := later\<rparr> else y)"
      by (auto simp: db3_def settle_skipped_wake_def hold_task_wakes_def clear_paused_wake_rows_def update_where_def)
    with r(2) have "qr_id y = qr_id ?row" by (auto split: if_splits)
    with y rows2 [OF y(1)] show ?thesis by simp
  qed
  have "\<exists>r\<in>set (wd_rows db3). qr_id r = qr_id ?row \<and> qr_error r = Some wake_paused"
  proof -
    let ?f = "\<lambda>y. if qr_id y = qr_id ?row \<and> qr_status y = Row_dispatching
        then y\<lparr>qr_status := Row_failed, qr_error := Some wake_paused, qr_body := (qr_body ?row)\<lparr>wb_paused := True\<rparr>, qr_updated := later\<rparr> else y"
    let ?r = "?row\<lparr>qr_status := Row_dispatching, qr_error := None, qr_updated := later\<rparr>"
    have "wd_rows db3 = filter (\<lambda>r. \<not> (is_paused_marker s r \<and> Some (qr_id r) \<noteq> Some (qr_id ?row))) (map ?f (wd_rows db2))"
      by (simp add: db3_def settle_skipped_wake_def hold_task_wakes_def clear_paused_wake_rows_def update_where_def row(2))
    moreover have "?f ?r \<in> set (map ?f (wd_rows db2))"
      unfolding set_map using row2 by (rule imageI)
    moreover have "qr_id (?f ?r) = qr_id ?row" "qr_error (?f ?r) = Some wake_paused" by simp_all
    ultimately show ?thesis by (intro bexI [of _ "?f ?r"]) (simp_all only: set_filter mem_Collect_eq simp_thms)
  qed
  moreover have "\<forall>r\<in>set (wd_rows (clear_paused_wake_rows s None db3)). qr_id r \<noteq> qr_id ?row"
    using rows3 by (auto simp: clear_paused_wake_rows_def is_paused_marker_def wake_paused_markers_def)
  moreover have "\<forall>u\<in>set (wd_tasks (clear_paused_wake_rows s None db3)). bt_id u = bt_id t \<longrightarrow>
      \<not> wake_due moment u \<and> \<not> pause_held moment u \<and> bt_output u = []"
    using tasks1 by (auto simp: clear_paused_wake_rows_def tasks3)
  moreover have "?row \<in> set (wd_rows db1)" "?row \<in> set (pending_rows s db1)" "wb_task_ids (qr_body ?row) = [bt_id t]"
    by (simp_all add: db1_def pending_rows_def wake_row_def)
  ultimately show ?thesis
    unfolding enqueue_open_watch [OF assms(1-4)] Let_def case_prod_conv db1_def [symmetric] db2_def [symmetric] db3_def [symmetric]
    by blast
qed

definition demo_watch :: bg_task where
  "demo_watch = demo_task\<lparr>bt_source := ''work_item'', bt_target := ''c'', bt_until := Some [1], bt_notified := None, bt_output := [7]\<rparr>"

definition demo_card :: card_row where
  "demo_card = \<lparr>ci_id = ''c'', ci_archived = False, ci_column = None, ci_assignee = Some ''project:p'', ci_thread = None\<rparr>"

lemma paused_card_update_is_lost_witness:
  "let db = (demo_wakes [demo_watch])\<lparr>wd_cards := [demo_card]\<rparr>;
       (_, _, db1) = enqueue_one 20 ''s'' ''u'' demo_watch (0, 0, db);
       row = wake_row 20 0 ''s'' ''u'' 1 (demo_watch\<lparr>bt_notified := Some 20\<rparr>);
       db3 = snd (settle_skipped_wake 30 row (Skip_paused wake_paused) (snd (try_claim 30 ''s'' (qr_id row) db1)))
   in row \<in> set (wd_rows db1) \<and> (\<forall>r\<in>set (wd_rows (clear_paused_wake_rows ''s'' None db3)). qr_id r \<noteq> 0)"
proof -
  let ?db = "(demo_wakes [demo_watch])\<lparr>wd_cards := [demo_card]\<rparr>"
  have "distinct (map bt_id (wd_tasks ?db))" "demo_watch \<in> set (wd_tasks ?db)" "wake_due 20 demo_watch" "open_watch 20 ?db demo_watch"
    "\<forall>r\<in>set (wd_rows ?db). qr_id r < wd_next_id ?db"
    by (simp_all add: demo_wakes_def demo_watch_def demo_task_def demo_card_def wake_due_def open_watch_def truthy16_def
        is_closed_category_def)
  from paused_card_update_is_lost [OF this, of "''s''" "''u''" 0 0 30] show ?thesis
    by (simp add: Let_def case_prod_unfold demo_wakes_def wake_row_def)
qed

section \<open>Runs of wakes\<close>

lemma wake_is_autonomous: "is_task_wake_message ps \<Longrightarrow> is_autonomous_user_message ps"
  by (auto simp: is_task_wake_message_def is_autonomous_user_message_def list_ex_iff split: wake_part.splits)

lemma wake_run_autonomous:
  "\<forall>m\<in>set ms. is_autonomous_user_message (cm_parts m) \<Longrightarrow> wake_run ms = filter (\<lambda>m. is_task_wake_message (cm_parts m)) ms"
  by (induction ms) auto

lemma count_waits_same:
  "\<forall>m\<in>set ms. i \<in> set (task_wake_ids_from_parts (cm_parts m)) \<Longrightarrow> count_waits db ms = length ms"
  by (induction db ms rule: count_waits.induct) (auto simp: Let_def list_ex_iff)

lemma person_ends_run:
  "recent_user_messages s limit db = m # ms \<Longrightarrow> \<not> is_autonomous_user_message (cm_parts m) \<Longrightarrow> consecutive_wake_waits s limit db = 0"
  using wake_is_autonomous by (auto simp: consecutive_wake_waits_def)

definition limit_for :: "queue_row \<Rightarrow> wake_db \<Rightarrow> nat" where
  "limit_for row db =
     (if wb_task_ids (qr_body row) \<noteq> [] \<and> list_all (\<lambda>t. bt_source t = ''work_item'')
           (filter (\<lambda>t. bt_id t \<in> set (wb_task_ids (qr_body row))) (wd_tasks db))
      then max_consecutive_card_wakes else max_consecutive_wakes)"

text \<open>CX: An agent that keeps waking itself on one task is stopped. When nobody has written among the last messages,
  and as many of them as the limit are wakes for the same task, resumes of killed turns between them or not, the next
  wake is not started: not by the drain, and not by a click on Send now.\<close>

theorem self_waking_is_stopped:
  assumes "\<not> wb_reset (qr_body row)"
    and "\<forall>m\<in>set (recent_user_messages (qr_session row) (limit_for row db) db). is_autonomous_user_message (cm_parts m)"
    and "wakes = filter (\<lambda>m. is_task_wake_message (cm_parts m)) (recent_user_messages (qr_session row) (limit_for row db) db)"
    and "limit_for row db \<le> length wakes" "\<forall>m\<in>set wakes. i \<in> set (task_wake_ids_from_parts (cm_parts m))"
    and "\<not> task_wake_resets_run (cm_parts (hd wakes))"
    and "qr_kind row = Kind_wake" "find (is_row (qr_id row) (qr_session row) Row_pending) (wd_rows db) = Some row"
    and "distinct (map qr_id (wd_rows db))"
  shows "drain_skip env now row db \<noteq> None \<and>
         (\<forall>n. fst (dispatch_queued_row env now (qr_session row) (qr_id row) db) \<noteq> Row_started n)"
proof -
  have run: "wake_run (recent_user_messages (qr_session row) (limit_for row db) db) = wakes"
    using wake_run_autonomous [OF assms(2)] assms(3) by simp
  have "wakes \<noteq> []"
    using assms(4) by (auto simp: limit_for_def max_consecutive_card_wakes_def max_consecutive_wakes_def split: if_splits)
  then have "consecutive_wake_waits (qr_session row) (limit_for row db) db = length wakes"
    using run count_waits_same [OF assms(5)] assms(6) by (cases wakes) (simp_all add: consecutive_wake_waits_def)
  with assms(4) have over: "limit_for row db \<le> consecutive_wake_waits (qr_session row) (limit_for row db) db" by simp
  have skip: "task_wake_skip_reason env row db' \<noteq> None"
    if "wd_msgs db' = wd_msgs db" "wd_tasks db' = wd_tasks db" for db'
  proof -
    have "consecutive_wake_waits s l db' = consecutive_wake_waits s l db" for s l
      by (rule waits_cong) (simp_all add: that task_started_at_def get_task_def)
    with over assms(1) show ?thesis
      by (auto simp: task_wake_skip_reason_def Let_def limit_for_def that)
  qed
  have "drain_skip env now row db \<noteq> None"
    using skip [of db] assms(7) by (auto simp: drain_skip_def split: option.split)
  moreover have "fst (dispatch_queued_row env now (qr_session row) (qr_id row) db) \<noteq> Row_started n" for n
  proof -
    have mem: "row \<in> set (wd_rows db)" "is_row (qr_id row) (qr_session row) Row_pending row"
      using assms(8) by (auto simp: find_Some_iff)
    then have "length (filter (is_row (qr_id row) (qr_session row) Row_pending) (wd_rows db)) = 1"
      by (intro distinct_id_filter [OF assms(9) mem(1)]) (auto simp: is_row_def)
    then obtain db' where claim: "try_claim now (qr_session row) (qr_id row) db = (True, db')"
      by (simp add: try_claim_def)
    then have db': "wd_msgs db' = wd_msgs db" "wd_tasks db' = wd_tasks db"
      by (auto simp: try_claim_def)
    have "task_wake_skip_reason env row db' \<noteq> None"
      by (rule skip [OF db'])
    then show ?thesis
      using claim assms(7,8)
      by (auto simp: dispatch_queued_row_def claim_row_def Let_def case_prod_unfold)
  qed
  ultimately show ?thesis by blast
qed

definition demo_wake_message :: "nat \<Rightarrow> int \<Rightarrow> chat_message" where
  "demo_wake_message i time =
     \<lparr>cm_id = i, cm_session = ''s'', cm_from_user = True, cm_content = [], cm_parts = [Wake_part [''t''] False],
      cm_author = None, cm_at = time\<rparr>"

definition demo_waits :: wake_db where
  "demo_waits = (demo_wakes [demo_task])
     \<lparr>wd_msgs := [demo_wake_message 1 10, demo_wake_message 2 20, demo_wake_message 3 30],
      wd_rows := [wake_row 40 4 ''s'' ''u'' 0 demo_task], wd_next_id := 5\<rparr>"

lemma self_waking_is_stopped_witness:
  "drain_skip env 50 (wake_row 40 4 ''s'' ''u'' 0 demo_task) demo_waits \<noteq> None"
proof -
  let ?row = "wake_row 40 4 ''s'' ''u'' 0 demo_task"
  let ?ms = "[demo_wake_message 3 30, demo_wake_message 2 20, demo_wake_message 1 10]"
  have limit: "limit_for ?row demo_waits = 3"
    by (simp add: limit_for_def wake_row_def demo_waits_def demo_wakes_def demo_task_def max_consecutive_wakes_def)
  have recent: "recent_user_messages (qr_session ?row) 3 demo_waits = ?ms"
    by (simp add: recent_user_messages_def demo_waits_def demo_wake_message_def wake_row_def insort_key_def)
  have "\<not> wb_reset (qr_body ?row)" "\<forall>m\<in>set ?ms. is_autonomous_user_message (cm_parts m)"
    "?ms = filter (\<lambda>m. is_task_wake_message (cm_parts m)) ?ms" "3 \<le> length ?ms"
    "\<forall>m\<in>set ?ms. ''t'' \<in> set (task_wake_ids_from_parts (cm_parts m))" "\<not> task_wake_resets_run (cm_parts (hd ?ms))"
    "qr_kind ?row = Kind_wake" "find (is_row (qr_id ?row) (qr_session ?row) Row_pending) (wd_rows demo_waits) = Some ?row"
    "distinct (map qr_id (wd_rows demo_waits))"
    by (simp_all add: wake_row_def demo_wake_message_def is_autonomous_user_message_def is_task_wake_message_def
        task_wake_resets_run_def demo_waits_def is_row_def)
  then show ?thesis
    using self_waking_is_stopped [of ?row demo_waits ?ms "''t''" env 50, unfolded limit recent] by blast
qed

end
