(* ===== verification/Queue_Facts.thy ===== *)
theory Queue_Facts
  imports Chat_Queue
begin

text \<open>
  What one pass of the queue worker may start, what it leaves behind, and what becomes of a row that has been claimed.
\<close>

section \<open>Recovery\<close>

text \<open>CX: Recovery and claims agree on which claims count. Read at one moment, resetting stuck rows takes no live
  claim away and leaves no dead one behind: every row of this region that is still being dispatched is a live claim,
  and every row that was reset is pending again, at its place in the queue.\<close>

theorem recovery_spares_live_claims:
  "let db' = snd (reset_stuck_dispatching env now (now - dispatch_claim_stuck_after_ms) db)
   in has_live_claim now s except_row db' = has_live_claim now s except_row db \<and>
      (\<forall>r\<in>set (wd_rows db'). we_home env (qr_session r) \<and> qr_status r = Row_dispatching \<longrightarrow> live_claim now (qr_session r) r) \<and>
      map queue_rank (wd_rows db') = map queue_rank (wd_rows db) \<and>
      (\<forall>r\<in>set (wd_rows db). qr_status r \<noteq> Row_dispatching \<longrightarrow> r \<in> set (wd_rows db'))"
  unfolding Let_def
proof (intro conjI)
  define f :: "queue_row \<Rightarrow> queue_row" where "f r = (if qr_status r = Row_dispatching \<and> qr_updated r < now - dispatch_claim_stuck_after_ms \<and> we_home env (qr_session r)
    then r\<lparr>qr_status := Row_pending, qr_error := Some (lit ''Recovered after an interrupted dispatch''), qr_updated := now\<rparr> else r)" for r
  let ?db = "snd (reset_stuck_dispatching env now (now - dispatch_claim_stuck_after_ms) db)"
  have rows: "wd_rows ?db = map f (wd_rows db)"
    by (simp add: reset_stuck_dispatching_def Let_def update_where_def f_def)
  have f: "live_claim now s (f r) = live_claim now s r" "qr_id (f r) = qr_id r" "queue_rank (f r) = queue_rank r"
    "we_home env (qr_session (f r)) \<Longrightarrow> qr_status (f r) = Row_dispatching \<Longrightarrow> live_claim now (qr_session (f r)) (f r)"
    "qr_status r \<noteq> Row_dispatching \<Longrightarrow> f r = r" for r
    by (auto simp: f_def live_claim_def queue_rank_def)
  show "has_live_claim now s except_row ?db = has_live_claim now s except_row db"
    unfolding has_live_claim_def rows list_ex_iff by (simp add: f)
  show "\<forall>r\<in>set (wd_rows ?db). we_home env (qr_session r) \<and> qr_status r = Row_dispatching \<longrightarrow> live_claim now (qr_session r) r"
    unfolding rows by (auto intro: f)
  show "map queue_rank (wd_rows ?db) = map queue_rank (wd_rows db)"
    unfolding rows by (simp add: f)
  show "\<forall>r\<in>set (wd_rows db). qr_status r \<noteq> Row_dispatching \<longrightarrow> r \<in> set (wd_rows ?db)"
    unfolding rows using f(5) by (metis image_eqI list.set_map)
qed

section \<open>One tick\<close>

definition tick_ok :: "(string \<Rightarrow> bool) \<Rightarrow> (string \<Rightarrow> string) \<Rightarrow> tick_state \<Rightarrow> bool" where
  "tick_ok person agent k \<longleftrightarrow>
     tk_wakes k \<le> max_wakes_per_tick \<and>
     tk_wakes k = length (filter (\<lambda>(p, s). \<not> p) (tk_started k)) \<and>
     tk_dispatched k = length (tk_started k) \<and>
     (\<forall>(p, s)\<in>set (tk_started k). p = person s) \<and>
     (\<forall>a. wakes_of a k \<le> max_wakes_per_agent_per_tick \<and>
          wakes_of a k = length (filter (\<lambda>(p, s). \<not> p \<and> agent s = a) (tk_started k)))"

lemma tick_session_ok: "tick_ok person agent (fst acc) \<Longrightarrow> tick_ok person agent (fst (tick_session env now person agent s acc))"
  by (auto simp: tick_session_def tick_ok_def wakes_of_def Let_def case_prod_unfold split: option.splits)

lemma tick_sessions_ok: "tick_ok person agent (fst acc) \<Longrightarrow> tick_ok person agent (fst (fold (tick_session env now person agent) ss acc))"
  by (induction ss arbitrary: acc) (simp_all add: tick_session_ok)

lemma tick_tried_mono: "set (tk_tried (fst acc)) \<subseteq> set (tk_tried (fst (tick_session env now person agent s acc)))"
  by (auto simp: tick_session_def Let_def case_prod_unfold)

lemma tick_tried_person: "person s \<Longrightarrow> s \<in> set (tk_tried (fst (tick_session env now person agent s acc)))"
  by (auto simp: tick_session_def Let_def case_prod_unfold)

lemma ticks_tried:
  "set (tk_tried (fst acc)) \<subseteq> set (tk_tried (fst (fold (tick_session env now person agent) ss acc))) \<and>
   (\<forall>s\<in>set ss. person s \<longrightarrow> s \<in> set (tk_tried (fst (fold (tick_session env now person agent) ss acc))))"
proof (induction ss arbitrary: acc)
  case (Cons s ss)
  from Cons.IH [of "tick_session env now person agent s acc"] tick_tried_mono [of acc env now person agent s]
    tick_tried_person [of person s env now agent acc]
  show ?case by auto
qed simp

text \<open>CX: A restart with a backlog does not start everything at once: one tick starts at most eight sessions that only
  have wakes waiting, and at most two of one agent; and no session a person's message waits in is held back by that, each
  is tried in the same tick.\<close>

theorem tick_is_bounded:
  "let k = fst (dispatch_pending_sessions env now db)
   in length (filter (\<lambda>(person, s). \<not> person) (tk_started k)) \<le> 8 \<and>
      (\<forall>a. length (filter (\<lambda>(person, s). \<not> person \<and> agent_of db s = a) (tk_started k)) \<le> 2) \<and>
      (\<forall>(person, s)\<in>set (tk_started k). person = has_person db s) \<and>
      (\<forall>s\<in>set (tick_sessions env db). has_person db s \<longrightarrow> s \<in> set (tk_tried k))"
proof -
  let ?k = "fst (dispatch_pending_sessions env now db)"
  have "tick_ok (has_person db) (agent_of db) (fst (empty_tick, db))"
    by (simp add: tick_ok_def empty_tick_def wakes_of_def)
  then have ok: "tick_ok (has_person db) (agent_of db) ?k"
    unfolding dispatch_pending_sessions_def by (rule tick_sessions_ok)
  have "length (filter (\<lambda>(person, s). \<not> person) (tk_started ?k)) \<le> 8"
    using ok by (simp add: tick_ok_def max_wakes_per_tick_def)
  moreover have "length (filter (\<lambda>(person, s). \<not> person \<and> agent_of db s = a) (tk_started ?k)) \<le> 2" for a
  proof -
    from ok have "wakes_of a ?k \<le> 2" "wakes_of a ?k = length (filter (\<lambda>(person, s). \<not> person \<and> agent_of db s = a) (tk_started ?k))"
      unfolding tick_ok_def max_wakes_per_agent_per_tick_def by blast+
    then show ?thesis by simp
  qed
  moreover have "\<forall>(person, s)\<in>set (tk_started ?k). person = has_person db s"
    using ok by (simp add: tick_ok_def)
  moreover have "\<forall>s\<in>set (tick_sessions env db). has_person db s \<longrightarrow> s \<in> set (tk_tried ?k)"
    using ticks_tried [where ss = "tick_sessions env db"] by (simp add: dispatch_pending_sessions_def)
  ultimately show ?thesis by (simp add: Let_def)
qed

section \<open>The queue is drained in order\<close>

definition quiet :: "string \<Rightarrow> wake_db \<Rightarrow> bool" where
  "quiet s db \<longleftrightarrow> distinct (map qr_id (wd_rows db)) \<and> (\<forall>r\<in>set (wd_rows db). qr_session r = s \<longrightarrow> qr_status r \<noteq> Row_dispatching)"

lemma first_by_least_mem: "first_by k xs = Some x \<Longrightarrow> y \<in> set xs \<Longrightarrow> k x \<le> k y"
proof -
  assume x: "first_by k xs = Some x" and y: "y \<in> set xs"
  have "sorted (map k (sort_key k xs))" and "y \<in> set (sort_key k xs)" using y by simp_all
  then show ?thesis using x by (cases "sort_key k xs") (auto simp: first_by_def)
qed

lemma first_by_Nil: "first_by k xs = None \<longleftrightarrow> xs = []"
  by (auto simp: first_by_def split: list.splits) (metis set_empty set_sort)

definition claimed :: "int \<Rightarrow> string \<Rightarrow> nat \<Rightarrow> queue_row \<Rightarrow> queue_row" where
  "claimed now s i r = (if is_row i s Row_pending r then r\<lparr>qr_status := Row_dispatching, qr_error := None, qr_updated := now\<rparr> else r)"

lemma try_claim_rows: "wd_rows (snd (try_claim now s i db)) = map (claimed now s i) (wd_rows db)"
  by (simp add: try_claim_def update_where_def claimed_def [abs_def])

lemma claimed_simps [simp]:
  "qr_id (claimed now s i r) = qr_id r" "qr_session (claimed now s i r) = qr_session r" "queue_rank (claimed now s i r) = queue_rank r"
  by (simp_all add: claimed_def queue_rank_def)

lemma candidate_row:
  "next_candidate s db = Some c \<Longrightarrow> c \<in> set (wd_rows db) \<and> is_row (qr_id c) s Row_pending c \<and> c \<in> set (pending_rows s db)"
  by (auto simp: next_candidate_def pending_rows_def is_row_def dest!: first_by_mem)

lemma claim_next_quiet:
  assumes "quiet s db"
  shows "claim_next now s db = (case next_candidate s db of None \<Rightarrow> (None, db) | Some c \<Rightarrow> (Some c, snd (try_claim now s (qr_id c) db)))"
proof (cases "next_candidate s db")
  case None
  with assms show ?thesis by (auto simp: claim_next_def has_live_claim_def live_claim_def list_ex_iff quiet_def)
next
  case (Some c)
  note c = candidate_row [OF Some]
  have free: "\<not> has_live_claim now s None db"
    using assms by (auto simp: has_live_claim_def live_claim_def list_ex_iff quiet_def)
  have "length (filter (is_row (qr_id c) s Row_pending) (wd_rows db)) = 1"
  proof (rule distinct_id_filter)
    show "distinct (map qr_id (wd_rows db))" using assms by (simp only: quiet_def)
    show "c \<in> set (wd_rows db)" "is_row (qr_id c) s Row_pending c" using c by blast+
    show "qr_id x = qr_id c" if "is_row (qr_id c) s Row_pending x" for x using that by (simp only: is_row_def)
  qed
  then obtain db' where claim: "try_claim now s (qr_id c) db = (True, db')"
    by (simp add: try_claim_def)
  then have rows: "wd_rows db' = map (claimed now s (qr_id c)) (wd_rows db)"
    using try_claim_rows [of now s "qr_id c" db] by simp
  have "\<not> earlier_live_claim now s c db'"
  proof
    assume "earlier_live_claim now s c db'"
    then obtain y where y: "y \<in> set (wd_rows db)" "live_claim now s (claimed now s (qr_id c) y)" "qr_id y \<noteq> qr_id c"
      unfolding earlier_live_claim_def rows list_ex_iff by auto
    from y(3) have "claimed now s (qr_id c) y = y" by (simp add: claimed_def is_row_def)
    with y(1,2) assms show False unfolding live_claim_def quiet_def by metis
  qed
  with free Some claim show ?thesis by (simp add: claim_next_def)
qed

lemma pending_after:
  assumes "\<And>r. r \<in> set rs \<Longrightarrow> qr_id r \<noteq> i \<or> qr_session r \<noteq> s \<Longrightarrow> g r = r"
    and "\<And>r. r \<in> set rs \<Longrightarrow> qr_id r = i \<Longrightarrow> qr_session r = s \<Longrightarrow> qr_status (g r) \<noteq> Row_pending"
  shows "filter (\<lambda>r. qr_session r = s \<and> qr_status r = Row_pending) (map g rs) =
    filter (\<lambda>r. qr_id r \<noteq> i) (filter (\<lambda>r. qr_session r = s \<and> qr_status r = Row_pending) rs)"
  using assms
proof (induction rs)
  case (Cons r rs)
  from Cons.prems(1) [of r] Cons.prems(2) [of r] Cons.IH Cons.prems show ?case
    by (cases "qr_id r = i \<and> qr_session r = s") auto
qed simp

lemma pending_claimed:
  "pending_rows s (snd (try_claim now s i db)) = filter (\<lambda>r. qr_id r \<noteq> i) (pending_rows s db)"
  unfolding pending_rows_def try_claim_rows
  by (rule pending_after) (auto simp: claimed_def is_row_def)

lemma quiet_ids: "quiet s db \<Longrightarrow> r \<in> set (wd_rows db) \<Longrightarrow> r' \<in> set (wd_rows db) \<Longrightarrow> qr_id r = qr_id r' \<Longrightarrow> r = r'"
  unfolding quiet_def using distinct_id_eq by blast

text \<open>A claimed wake that is skipped leaves the queue, and the queue is quiet again.\<close>

definition settled_row :: "int \<Rightarrow> queue_row \<Rightarrow> utf16 \<Rightarrow> queue_row \<Rightarrow> queue_row" where
  "settled_row now c why r =
     (if qr_id r = qr_id c \<and> qr_status r = Row_dispatching
      then r\<lparr>qr_status := Row_failed, qr_error := Some why, qr_body := (qr_body c)\<lparr>wb_paused := True\<rparr>, qr_updated := now\<rparr> else r)"

lemma settled_rows:
  "wd_rows (snd (settle_skipped_wake now c skip db)) =
     (case skip of
        Skip_paused why \<Rightarrow> filter (\<lambda>r. \<not> (is_paused_marker (qr_session c) r \<and> qr_id r \<noteq> qr_id c)) (map (settled_row now c why) (wd_rows db))
      | _ \<Rightarrow> filter (\<lambda>r. qr_id r \<noteq> qr_id c) (wd_rows db))"
  by (auto simp: settle_skipped_wake_def delete_row_def consume_tasks_def hold_task_wakes_def clear_paused_wake_rows_def
      update_where_def settled_row_def [abs_def] split: wake_skip.split)

lemma filter_paused_pending:
  "filter (\<lambda>r. qr_session r = s \<and> qr_status r = Row_pending) (filter (\<lambda>r. \<not> (is_paused_marker s' r \<and> qr_id r \<noteq> i)) rs) =
   filter (\<lambda>r. qr_session r = s \<and> qr_status r = Row_pending) rs"
  by (auto simp: is_paused_marker_def intro!: filter_cong)

lemma settle_claimed:
  fixes now :: int and skip :: wake_skip
  assumes q: "quiet s db" and c: "next_candidate s db = Some c"
  defines "db2 \<equiv> snd (settle_skipped_wake now c skip (snd (try_claim now s (qr_id c) db)))"
  shows "quiet s db2" "pending_rows s db2 = filter (\<lambda>r. qr_id r \<noteq> qr_id c) (pending_rows s db)"
proof -
  note cr = candidate_row [OF c]
  let ?db1 = "snd (try_claim now s (qr_id c) db)"
  have sess: "qr_session c = s" using cr by (simp add: is_row_def)
  have rows1: "wd_rows ?db1 = map (claimed now s (qr_id c)) (wd_rows db)" by (rule try_claim_rows)
  have ids1: "distinct (map qr_id (wd_rows ?db1))"
    using q by (simp add: rows1 quiet_def o_def)
  have other: "qr_status r \<noteq> Row_dispatching" if "r \<in> set (wd_rows ?db1)" "qr_session r = s" "qr_id r \<noteq> qr_id c" for r
  proof -
    from that(1) obtain y where y: "y \<in> set (wd_rows db)" "r = claimed now s (qr_id c) y" unfolding rows1 by auto
    with that(3) have "\<not> is_row (qr_id c) s Row_pending y" by (simp add: is_row_def)
    with y(2) have "r = y" by (simp add: claimed_def)
    with y(1) that(2) q show ?thesis unfolding quiet_def by blast
  qed
  have mine: "settled_row now c why r = r" if "qr_id r \<noteq> qr_id c" for r why using that by (simp add: settled_row_def)
  have id2: "qr_id (settled_row now c why r) = qr_id r" "qr_session (settled_row now c why r) = qr_session r" for r why
    by (simp_all add: settled_row_def)
  have gone: "qr_status (settled_row now c why r) \<noteq> Row_dispatching" if "r \<in> set (wd_rows ?db1)" "qr_session r = s" for r why
    using other [OF that] by (cases "qr_id r = qr_id c") (auto simp: settled_row_def)
  show "quiet s db2"
    using ids1 other gone
    by (cases skip) (auto simp: db2_def quiet_def settled_rows id2 o_def distinct_map_filter)
  have own: "qr_session r = s" if "r \<in> set (wd_rows ?db1)" "qr_id r = qr_id c" for r
  proof -
    from that(1) obtain y where y: "y \<in> set (wd_rows db)" "r = claimed now s (qr_id c) y" unfolding rows1 by auto
    with that(2) have "y = c" using quiet_ids [OF q y(1), of c] cr by simp
    with y(2) sess show ?thesis by simp
  qed
  have claimed_not: "qr_status r \<noteq> Row_pending" if "r \<in> set (wd_rows ?db1)" "qr_session r = s" "qr_id r = qr_id c" for r
  proof -
    from that(1) obtain y where y: "r = claimed now s (qr_id c) y" unfolding rows1 by auto
    with that(2,3) have "qr_id y = qr_id c" "qr_session y = s" by simp_all
    then show ?thesis unfolding y claimed_def is_row_def by (cases "qr_status y = Row_pending") simp_all
  qed
  have P: "pending_rows s ?db1 = filter (\<lambda>r. qr_id r \<noteq> qr_id c) (pending_rows s db)" by (rule pending_claimed)
  show "pending_rows s db2 = filter (\<lambda>r. qr_id r \<noteq> qr_id c) (pending_rows s db)"
  proof (cases skip)
    case (Skip_paused why)
    have "filter (\<lambda>r. qr_session r = s \<and> qr_status r = Row_pending) (map (settled_row now c why) (wd_rows ?db1)) =
        filter (\<lambda>r. qr_id r \<noteq> qr_id c) (pending_rows s ?db1)"
      unfolding pending_rows_def
    proof (rule pending_after)
      show "settled_row now c why r = r" if "r \<in> set (wd_rows ?db1)" "qr_id r \<noteq> qr_id c \<or> qr_session r \<noteq> s" for r
        using that(2) own [OF that(1)] by (intro mine) blast
      show "qr_status (settled_row now c why r) \<noteq> Row_pending" if "r \<in> set (wd_rows ?db1)" "qr_id r = qr_id c" "qr_session r = s" for r
        using claimed_not [OF that(1,3,2)] by (simp add: settled_row_def)
    qed
    also have "... = filter (\<lambda>r. qr_id r \<noteq> qr_id c) (pending_rows s db)"
      unfolding P filter_filter by simp
    finally show ?thesis
      unfolding db2_def Skip_paused pending_rows_def [of s "snd (settle_skipped_wake _ _ _ _)"] settled_rows wake_skip.case
        filter_paused_pending .
  next
    case Skip_consumed
    have "pending_rows s db2 = filter (\<lambda>r. qr_id r \<noteq> qr_id c) (pending_rows s ?db1)"
      by (simp add: db2_def Skip_consumed settled_rows pending_rows_def conj_ac)
    with P show ?thesis by simp
  next
    case Skip_stale
    have "pending_rows s db2 = filter (\<lambda>r. qr_id r \<noteq> qr_id c) (pending_rows s ?db1)"
      by (simp add: db2_def Skip_stale settled_rows pending_rows_def conj_ac)
    with P show ?thesis by simp
  qed
qed

text \<open>C36: An idle session's queue is drained in order and nothing a person wrote is lost on the way. The drain drops or
  holds wakes that nobody should run, but a person's message that waits stays where it is until it is claimed; what is
  claimed stands no later in the queue than any of them; and the drain stops without a claim only when the queue is
  empty.\<close>

theorem drain_keeps_what_people_wrote:
  assumes "quiet s db"
  shows "let (res, db') = claim_next_dispatchable env now s db
         in (\<forall>r\<in>set (pending_rows s db). qr_kind r \<noteq> Kind_wake \<longrightarrow>
               res = Some r \<or> (r \<in> set (pending_rows s db') \<and> (\<exists>c. res = Some c \<and> queue_place c \<le> queue_place r))) \<and>
            (\<forall>c. res = Some c \<longrightarrow> c \<in> set (pending_rows s db) \<and> c \<notin> set (pending_rows s db')) \<and>
            (res = None \<longrightarrow> pending_rows s db' = [])"
  using assms
proof (induction env now s db rule: claim_next_dispatchable.induct)
  case (1 env now s db)
  note step = claim_next_dispatchable.simps [of env now s db] and quiet = claim_next_quiet [OF 1(2), of now]
  show ?case
  proof (cases "next_candidate s db")
    case None
    then have "pending_rows s db = []" by (simp add: next_candidate_def first_by_Nil)
    with None show ?thesis by (simp add: step quiet)
  next
    case (Some c)
    let ?db1 = "snd (try_claim now s (qr_id c) db)"
    have claim: "claim_next now s db = (Some c, ?db1)" by (simp add: quiet Some)
    have c: "c \<in> set (pending_rows s db)" using candidate_row [OF Some] by simp
    have first: "queue_place c \<le> queue_place r" if "r \<in> set (pending_rows s db)" for r
      using Some that by (auto simp: next_candidate_def intro: first_by_least_mem)
    have id: "r = c" if "r \<in> set (pending_rows s db)" "qr_id r = qr_id c" for r
      using quiet_ids [OF 1(2), of r c] that c by (simp add: pending_rows_def)
    show ?thesis
    proof (cases "drain_skip env now c ?db1")
      case None
      then have "claim_next_dispatchable env now s db = (Some c, ?db1)" by (simp add: step claim)
      moreover have "r = c \<or> r \<in> set (pending_rows s ?db1)" if "r \<in> set (pending_rows s db)" for r
        using that id by (auto simp: pending_claimed)
      moreover have "c \<notin> set (pending_rows s ?db1)" by (simp add: pending_claimed)
      ultimately show ?thesis using c first by auto
    next
      case (Some skip)
      let ?db2 = "snd (settle_skipped_wake now c skip ?db1)"
      note settled = settle_claimed [OF 1(2) \<open>next_candidate s db = Some c\<close>, of now skip]
      have wake: "qr_kind c = Kind_wake" using Some by (simp add: drain_skip_def split: if_splits)
      have again: "claim_next_dispatchable env now s db = claim_next_dispatchable env now s ?db2"
        by (simp add: step claim Some)
      have "r \<in> set (pending_rows s ?db2)" if "r \<in> set (pending_rows s db)" "qr_kind r \<noteq> Kind_wake" for r
        using that id wake by (auto simp: settled(2))
      moreover have "set (pending_rows s ?db2) \<subseteq> set (pending_rows s db)" by (auto simp: settled(2))
      ultimately show ?thesis
        using 1(1) [OF claim [symmetric] refl Some settled(1)] unfolding again Let_def case_prod_unfold by blast
    qed
  qed
qed

definition demo_queued :: "nat \<Rightarrow> int \<Rightarrow> queue_kind \<Rightarrow> queue_row" where
  "demo_queued i pos kind =
     \<lparr>qr_id = i, qr_session = ''s'', qr_user = ''u'', qr_position = pos, qr_status = Row_pending, qr_kind = kind,
      qr_content = [], qr_parts = None,
      qr_body = \<lparr>wb_text = None, wb_task_ids = (if kind = Kind_wake then [''t''] else []), wb_reset = False, wb_paused = False,
                 wb_resume_attempts = 0\<rparr>,
      qr_error = None, qr_created = 0, qr_updated = 0\<rparr>"

definition demo_queue :: "queue_row list \<Rightarrow> wake_db" where
  "demo_queue rows =
     \<lparr>wd_tasks = [], wd_rows = rows, wd_msgs = [],
      wd_chats = [\<lparr>ch_id = ''s'', ch_project_context = False, ch_context_id = None, ch_workspace = Some ''w'',
                   ch_created_by = Some ''u'', ch_created = 0, ch_active = None, ch_heartbeat = None\<rparr>],
      wd_cards = [], wd_next_id = 10, wd_wake_timers = [], wd_hold_timers = []\<rparr>"

lemmas queue_eval =
  demo_queued_def demo_queue_def pending_rows_def next_candidate_def first_by_def queue_place_def quiet_def insort_key_def

text \<open>A wake whose task is gone stands ahead of a person's message: the wake is dropped, the message claimed.\<close>

lemma drain_keeps_what_people_wrote_witness:
  "let db = demo_queue [demo_queued 0 0 Kind_wake, demo_queued 1 1 Kind_user];
       (res, db') = claim_next_dispatchable demo_host 5 ''s'' db
   in res = Some (demo_queued 1 1 Kind_user) \<or> demo_queued 1 1 Kind_user \<in> set (pending_rows ''s'' db')"
proof -
  let ?db = "demo_queue [demo_queued 0 0 Kind_wake, demo_queued 1 1 Kind_user]"
  have "quiet ''s'' ?db" "demo_queued 1 1 Kind_user \<in> set (pending_rows ''s'' ?db)" "qr_kind (demo_queued 1 1 Kind_user) \<noteq> Kind_wake"
    by (simp_all add: queue_eval)
  with drain_keeps_what_people_wrote [of "''s''" ?db demo_host 5] show ?thesis
    unfolding Let_def case_prod_unfold by blast
qed

lemma recovery_spares_live_claims_witness:
  "let r = (demo_queued 0 0 Kind_user)\<lparr>qr_status := Row_dispatching, qr_updated := 100000\<rparr>;
       db' = snd (reset_stuck_dispatching demo_host 200000 (200000 - dispatch_claim_stuck_after_ms) (demo_queue [r, demo_queued 1 1 Kind_user]))
   in has_live_claim 200000 ''s'' None db' \<and> demo_queued 1 1 Kind_user \<in> set (wd_rows db')"
proof -
  let ?r = "(demo_queued 0 0 Kind_user)\<lparr>qr_status := Row_dispatching, qr_updated := 100000\<rparr>"
  have "has_live_claim 200000 ''s'' None (demo_queue [?r, demo_queued 1 1 Kind_user])"
    "demo_queued 1 1 Kind_user \<in> set (wd_rows (demo_queue [?r, demo_queued 1 1 Kind_user]))"
    "qr_status (demo_queued 1 1 Kind_user) \<noteq> Row_dispatching"
    by (simp_all add: has_live_claim_def live_claim_def queue_eval dispatch_claim_stuck_after_ms_def)
  with recovery_spares_live_claims [of demo_host 200000 "demo_queue [?r, demo_queued 1 1 Kind_user]" "''s''" None]
  show ?thesis unfolding Let_def by blast
qed

lemma tick_is_bounded_witness:
  "let db = demo_queue [demo_queued 1 1 Kind_user]
   in has_person db ''s'' \<and> ''s'' \<in> set (tk_tried (fst (dispatch_pending_sessions demo_host 5 db)))"
proof -
  let ?db = "demo_queue [demo_queued 1 1 Kind_user]"
  have "has_person ?db ''s''" "''s'' \<in> set (tick_sessions demo_host ?db)"
    by (simp_all add: has_person_def tick_sessions_def Let_def queue_eval demo_host_def cloud_session_ids_def workspaces_of_chat_def chat_project_workspace_def)
  with tick_is_bounded [of demo_host 5 ?db] show ?thesis unfolding Let_def by blast
qed

section \<open>What becomes of a claimed row\<close>

lemma dispatch_row_rows: "wd_rows (snd (dispatch_row env now row db)) = wd_rows db"
  "wd_tasks (snd (dispatch_row env now row db)) = wd_tasks db" "wd_msgs (snd (dispatch_row env now row db)) = wd_msgs db"
  by (auto simp: dispatch_row_def mark_turn_started_def split: option.split sum.split)

lemma dispatch_row_failed: "dispatch_row env now row db = (Some e, db') \<Longrightarrow> db' = db"
  by (auto simp: dispatch_row_def split: option.splits sum.splits if_splits)

lemma stamp_rows: "wd_rows (snd (stamp_turn_interrupted now s reason note db)) = wd_rows db"
  by (auto simp: stamp_turn_interrupted_def Let_def split: list.split)

lemma note_only_rows: "wd_rows (snd (post_interrupted_resume env now s False tool db)) = wd_rows db"
  by (auto simp: post_interrupted_resume_def Let_def case_prod_unfold stamp_rows split: option.split)

definition row_is :: "nat \<Rightarrow> (queue_row \<Rightarrow> bool) \<Rightarrow> wake_db \<Rightarrow> bool" where
  "row_is i P db \<longleftrightarrow> (\<exists>r\<in>set (wd_rows db). qr_id r = i \<and> P r)"

lemma row_is_upd:
  assumes "row_is i P db" "\<And>r. P r \<Longrightarrow> qr_id r = i \<Longrightarrow> p r \<Longrightarrow> qr_id (f r) = i \<and> Q (f r)" "\<And>r. P r \<Longrightarrow> qr_id r = i \<Longrightarrow> \<not> p r \<Longrightarrow> Q r"
  shows "row_is i Q (upd_rows p f db)"
proof -
  from assms(1) obtain r where r: "r \<in> set (wd_rows db)" "qr_id r = i" "P r" by (auto simp: row_is_def)
  have "(if p r then f r else r) \<in> set (wd_rows (upd_rows p f db))"
    using r(1) by (simp add: update_where_def)
  with r assms(2,3) show ?thesis unfolding row_is_def by (cases "p r") auto
qed

lemma row_is_mono: "row_is i P db \<Longrightarrow> (\<And>r. P r \<Longrightarrow> Q r) \<Longrightarrow> row_is i Q db"
  by (auto simp: row_is_def)

lemma row_is_cong: "wd_rows db' = wd_rows db \<Longrightarrow> row_is i P db' = row_is i P db"
  by (simp add: row_is_def)

abbreviation settled_with_error :: "queue_row \<Rightarrow> bool" where
  "settled_with_error r \<equiv> qr_status r \<noteq> Row_dispatching \<and> qr_error r \<noteq> None"

lemma set_failed_row:
  "row_is i (\<lambda>r. qr_status r = was) db \<Longrightarrow> row_is i (\<lambda>r. qr_status r = Row_failed \<and> qr_error r \<noteq> None) (set_failed now i was err db)"
  unfolding set_failed_def by (erule row_is_upd) auto

lemma set_failed_again:
  "row_is i (\<lambda>r. qr_status r = Row_failed \<and> qr_error r \<noteq> None) db \<Longrightarrow>
   row_is i (\<lambda>r. qr_status r = Row_failed \<and> qr_error r \<noteq> None) (set_failed now j Row_failed err db)"
  unfolding set_failed_def by (erule row_is_upd) auto

lemma release_task_wake_rows: "wd_rows (snd (release_task_wake now row db)) = wd_rows db"
  by (auto simp: release_task_wake_def release_task_wakes_def Let_def case_prod_unfold)

lemma collapse_keeps: "row_is i P db \<Longrightarrow> row_is i P (collapse_failed_wake_rows s i ids db)"
  by (auto simp: row_is_def collapse_failed_wake_rows_def Let_def collapsible_def dest!: in_set_takeD)

lemma fail_wake_row:
  assumes "row_is (qr_id row) (\<lambda>r. qr_status r = Row_failed \<and> qr_error r \<noteq> None) db"
  shows "row_is (qr_id row) (\<lambda>r. qr_status r = Row_failed \<and> qr_error r \<noteq> None) (fail_wake now row err db)"
proof -
  have "row_is (qr_id row) (\<lambda>r. qr_status r = Row_failed \<and> qr_error r \<noteq> None) (snd (release_task_wake now row db))"
    using assms by (simp add: row_is_cong [OF release_task_wake_rows])
  from collapse_keeps [OF this] show ?thesis
    by (simp add: fail_wake_def Let_def case_prod_unfold set_failed_again del: not_None_eq)
qed

lemma retry_resume_row:
  assumes "row_is (qr_id row) (\<lambda>r. qr_status r = Row_failed \<and> qr_error r \<noteq> None) db"
  shows "row_is (qr_id row) settled_with_error (retry_resume env now row err db)"
proof (cases "resume_attempts (qr_body row) + 1 < int max_wake_attempts")
  case True
  then show ?thesis unfolding retry_resume_def Let_def using assms by (auto intro!: row_is_upd [OF assms])
next
  case False
  have "row_is (qr_id row) settled_with_error (set_failed now (qr_id row) Row_failed
      (lit ''Could not resume this turn after 5 attempts: '' @ err) db)"
    by (rule row_is_mono [OF set_failed_again [OF assms]]) simp
  with False show ?thesis
    by (simp add: retry_resume_def Let_def row_is_cong [OF note_only_rows])
qed

text \<open>C39: A claimed row is settled, whatever the chat route answers. When its turn starts, the row is gone, its message
  is in the transcript, and the tasks of a wake count as seen; when it does not, the row is still there, out of the
  claimed state and with the reason on it, and no row is ever dropped in between.\<close>

theorem claimed_row_is_settled:
  assumes "row_is (qr_id row) (\<lambda>r. qr_status r = Row_dispatching) db"
  shows "case start_claimed_row env now row db of
           (Row_started i, db') \<Rightarrow>
             i = qr_id row \<and> (\<forall>r\<in>set (wd_rows db'). qr_id r \<noteq> i) \<and> (\<exists>m\<in>set (wd_msgs db'). cm_id m = i) \<and>
             (qr_kind row = Kind_wake \<longrightarrow> (\<forall>t\<in>set (wd_tasks db').
                bt_id t \<in> set (clean_ids (wb_task_ids (qr_body row))) \<and> bt_status t \<noteq> Task_running \<longrightarrow> bt_consumed t))
         | (Row_not_started i err, db') \<Rightarrow>
             i = qr_id row \<and> (\<exists>r\<in>set (wd_rows db'). qr_id r = i \<and> qr_status r \<noteq> Row_dispatching \<and> qr_error r \<noteq> None)"
proof -
  let ?db0 = "persist_queued_user_message now row db"
  have msg: "\<exists>m\<in>set (wd_msgs ?db0). cm_id m = qr_id row"
    by (auto simp: persist_queued_user_message_def list_ex_iff message_of_row_def)
  obtain out db1 where d: "dispatch_row env now row ?db0 = (out, db1)" by fastforce
  then have same: "wd_rows db1 = wd_rows ?db0" "wd_tasks db1 = wd_tasks ?db0" "wd_msgs db1 = wd_msgs ?db0"
    using dispatch_row_rows [of env now row ?db0] by simp_all
  show ?thesis
  proof (cases out)
    case None
    with d msg same show ?thesis
      by (auto simp: start_claimed_row_def Let_def consume_tasks_def clear_paused_wake_rows_def delete_row_def update_where_def split: if_splits)
  next
    case (Some err)
    have "wd_rows db1 = wd_rows db" using same(1) by (simp add: persist_queued_user_message_def)
    then have "row_is (qr_id row) (\<lambda>r. qr_status r = Row_dispatching) db1"
      using assms by (simp add: row_is_def)
    note failed = set_failed_row [OF this, of now err]
    have fin: "row_is (qr_id row) settled_with_error
       (if qr_kind row = Kind_resume
        then retry_resume env now row err (if qr_kind row = Kind_wake then fail_wake now row err (set_failed now (qr_id row) Row_dispatching err db1)
                                           else set_failed now (qr_id row) Row_dispatching err db1)
        else (if qr_kind row = Kind_wake then fail_wake now row err (set_failed now (qr_id row) Row_dispatching err db1)
              else set_failed now (qr_id row) Row_dispatching err db1))"
      using retry_resume_row [OF failed] fail_wake_row [OF failed, of now err] failed
      by (cases "qr_kind row") (auto simp: row_is_def)
    with d Some show ?thesis
      by (simp add: start_claimed_row_def Let_def row_is_def)
  qed
qed

lemma claimed_row_is_settled_witness:
  "let row = demo_queued 0 0 Kind_user; db = demo_queue [row\<lparr>qr_status := Row_dispatching\<rparr>];
       (out, db') = start_claimed_row demo_host 5 row db
   in out = Row_not_started 0 [1] \<and> (\<exists>r\<in>set (wd_rows db'). qr_id r = 0 \<and> qr_error r \<noteq> None)"
proof -
  let ?row = "demo_queued 0 0 Kind_user"
  let ?db = "demo_queue [?row\<lparr>qr_status := Row_dispatching\<rparr>]"
  have "row_is (qr_id ?row) (\<lambda>r. qr_status r = Row_dispatching) ?db"
    by (simp add: row_is_def queue_eval)
  note settled = claimed_row_is_settled [OF this, of demo_host 5]
  have "fst (start_claimed_row demo_host 5 ?row ?db) = Row_not_started 0 [1]"
    by (simp add: start_claimed_row_def dispatch_row_def get_chat_def persist_queued_user_message_def Let_def demo_host_def queue_eval truthy_def)
  with settled show ?thesis
    by (auto simp: Let_def case_prod_unfold)
qed

end
