(* ===== verification/Spec2Isabelle.thy ===== *)
theory Spec2Isabelle
  imports Authz Billing_Admission Billing_Regions Stream_Replay Slot_Queue Slot_Local Gc_Policy Concurrency
    Pty_Protocol Osc_Decoder Loop_Detector Tool_Orchestration Stable_Compaction Midturn_Compactor
    Approval_Facts Queue_Races Wake_Facts Queue_Facts
begin

text \<open>
  A model of the core logic of Shogo (TypeScript): who may do what, what a call costs and which region writes it
  down, which agent reply runs now, how a turn's output reaches every reader exactly once, how terminal output
  is framed and parsed, when an agent that goes in circles is stopped, what an agent remembers of a conversation that
  outgrows the model's window, which of its tool calls run, ask a person or are refused, when an agent is woken and whose message of a chat's queue
  starts the next turn, and how the bare-metal agent shares its machine. Paths are relative to \<^verbatim>\<open>src/\<close>. Every
  theory opens with what it models; the definitions stand in the order of the code, the lemmas after them, the claims
  (C1 to C40) last, each with a concrete run where it has hypotheses.

  \<^bold>\<open>Theories and code.\<close>
  \<^item> \<^verbatim>\<open>Prelude\<close>: JavaScript strings, dates, arrays and insertion-ordered maps; the interfaces \<open>machine\<close>,
    \<open>latching_machine\<close> (an operation preserves an invariant, a fact once true stays true) and \<open>ranked\<close> (an
    enumeration compared through numbers), interpreted by the components.
  \<^item> \<^verbatim>\<open>Authz\<close>: \<^verbatim>\<open>packages/authz/src\<close>. Roles and permissions, \<^verbatim>\<open>resolveAccess\<close> and the rules on giving
    roles. Access is proved equal to a list of sources of entitlement; nobody can give more than they hold.
  \<^item> \<^verbatim>\<open>Usage_Plans\<close>, \<^verbatim>\<open>Billing_Store\<close>, \<^verbatim>\<open>Billing_Wallet\<close>, \<^verbatim>\<open>Billing_Consume\<close>, \<^verbatim>\<open>Billing_Meter\<close>,
    \<^verbatim>\<open>Billing_Admission\<close>: \<^verbatim>\<open>apps/api/src/config/usage-plans.ts\<close>, \<^verbatim>\<open>stripe-prices.ts\<close> and
    \<^verbatim>\<open>apps/api/src/services/billing.service.ts\<close>. The store is a record of maps from ids to rows (wallets,
    members, subscriptions, grants, events); an operation maps the store to the new store and a result, and a
    database transaction is one step. Windows are never exceeded, every debit is recorded once and charged to one
    place, a refusal changes nothing, at most one overage block is outstanding however claims and webhooks
    interleave, and what preflight admits the debit accepts.
  \<^item> \<^verbatim>\<open>Billing_Regions\<close>: the calls between regions (\<^verbatim>\<open>routes/internal.ts\<close>, \<^verbatim>\<open>region-peer-proxy.ts\<close>,
    \<^verbatim>\<open>region.ts\<close>) on top of the debit: one writer per workspace, one event per accepted call.
  \<^item> \<^verbatim>\<open>Reply_Slots\<close>, \<^verbatim>\<open>Slot_Queue\<close>, \<^verbatim>\<open>Slot_Local\<close>: \<^verbatim>\<open>apps/api/src/services/agent-reply-slots.ts\<close>. The
    Redis scripts on sorted sets and the in-process queue, as steps between which anything may interleave; both
    interpret the contract \<open>admission_queue\<close>. Admission in order of arrival, the limit, no leaked slot, and the
    waiter that is lost for good when its lease lapses.
  \<^item> \<^verbatim>\<open>Scrollback\<close>, \<^verbatim>\<open>Stream_Buffer\<close>, \<^verbatim>\<open>Stream_Replay\<close>: \<^verbatim>\<open>packages/pty-core/src/scrollback-ring.ts\<close> and
    \<^verbatim>\<open>packages/core/src/stream-buffer.ts\<close>. Buffers live on a heap and are aliased by the store's maps and by
    replay streams; a stream receives the frames it asked for in order and once, under any interleaving.
  \<^item> \<^verbatim>\<open>Js_Text\<close>, \<^verbatim>\<open>Json\<close>, \<^verbatim>\<open>Json_Trip\<close>: the standard library the sources use: UTF-16 strings, UTF-8
    encoding and the decoder of the Encoding standard, \<^verbatim>\<open>JSON.stringify\<close> and \<^verbatim>\<open>JSON.parse\<close>, and their
    round trips.
  \<^item> \<^verbatim>\<open>Pty_Protocol\<close>, \<^verbatim>\<open>Osc_Decoder\<close>: \<^verbatim>\<open>packages/pty-core/src/pty-protocol.ts\<close> and
    \<^verbatim>\<open>osc-decoder.ts\<close>. Frames survive the wire; marks do not depend on how the stream is cut, the text does in
    one case, which is stated exactly.
  \<^item> \<^verbatim>\<open>Loop_Detector\<close>: \<^verbatim>\<open>packages/agent/src/loop-detector.ts\<close>, classification of outputs included.
  \<^item> \<^verbatim>\<open>Tool_Orchestration\<close>: \<^verbatim>\<open>packages/agent/src/tool-orchestration.ts\<close> and
    \<^verbatim>\<open>tool-arg-guard.ts\<close>. The limits on tools executing side by side hold in every schedule, and no
    schedule wedges them when the limit is positive; a limit of 0 does.
  \<^item> \<^verbatim>\<open>Messages\<close>, \<^verbatim>\<open>Turn_Boundary\<close>: a conversation as the code sees it (the message type of the library
    \<^verbatim>\<open>pi-ai\<close> as far as the sources read it) and \<^verbatim>\<open>packages/agent/src/turn-boundary.ts\<close>: where turns start, what may
    be touched, and the folding of one turn that is too large.
  \<^item> \<^verbatim>\<open>Compaction_Layers\<close>, \<^verbatim>\<open>Stable_Compaction\<close>: the cheap layers (\<^verbatim>\<open>pruneToolResults\<close>,
    \<^verbatim>\<open>applyToolResultBudget\<close>, \<^verbatim>\<open>snipConsumedResults\<close> of \<^verbatim>\<open>session-manager.ts\<close>, \<^verbatim>\<open>microcompact.ts\<close>,
    \<^verbatim>\<open>compaction-drop.ts\<close>), all five interpreting the contract \<open>layer\<close> (only the contents of old tool results
    change), and the write-once bookkeeping around them (\<^verbatim>\<open>stable-compaction.ts\<close>).
  \<^item> \<^verbatim>\<open>Session_Split\<close>, \<^verbatim>\<open>Compaction_Facts\<close>, \<^verbatim>\<open>Session_Manager\<close>, \<^verbatim>\<open>Session_Durability\<close>:
    \<^verbatim>\<open>packages/agent-runtime/src/session-manager.ts\<close> and \<^verbatim>\<open>compaction-facts.ts\<close>: where a history is cut, what the
    summary says, the class with its store, and its operations as a machine. Compaction keeps histories well formed, and a
    conversation survives everything but its own operations; the runs in which messages are lost are stated.
  \<^item> \<^verbatim>\<open>Midturn_Compactor\<close>: \<^verbatim>\<open>packages/agent-runtime/src/midturn-autocompact.ts\<close> over the contract \<open>summary_store\<close>,
    interpreted on the session manager as \<^verbatim>\<open>gateway.ts\<close> wires it, and the hook of \<^verbatim>\<open>gateway.ts\<close> in which it runs:
    each model call of a turn passes the stable layers and the image guard first. A turn's loop is taken to append. A
    message these two leave alone is the same object to the compactor, another is a new one; what the guard makes of
    images is an argument. For a session without a summary at the start of the turn, what is sent is the session and each
    message is folded once; the first cut of a session that already has a summary is two messages off.
  \<^item> \<^verbatim>\<open>Path_Boundary\<close>, \<^verbatim>\<open>Local_Access\<close>, \<^verbatim>\<open>Permission_Policy\<close>: \<^verbatim>\<open>path-boundary.ts\<close>,
    \<^verbatim>\<open>local-access.ts\<close> and the policy of \<^verbatim>\<open>permission-engine.ts\<close> (all in \<^verbatim>\<open>packages/agent-runtime/src\<close>), on
    Node's \<^verbatim>\<open>path\<close> for POSIX and a \<open>host\<close> that stands for the file system. Containment is a prefix of
    segments and satisfies the contract \<open>containment\<close>; what a file check allows, what the policy refuses and how
    a project's settings merge are stated exactly, and so are the calls whose verdict is looser than it reads.
  \<^item> \<^verbatim>\<open>Permission_Approval\<close>, \<^verbatim>\<open>Approval_Facts\<close>: the approvals of \<^verbatim>\<open>permission-engine.ts\<close>, its gates and
    \<^verbatim>\<open>remote-device-guard.ts\<close>, as a machine over requests, answers, timers, streams, turns and the rules file,
    interpreting \<open>machine\<close> twice. Every call is answered once, nothing is approved without a yes, and the runs in
    which a yes is worth more than the person was asked are stated.
  \<^item> \<^verbatim>\<open>Wake_Tasks\<close>, \<^verbatim>\<open>Wake_Delivery\<close>, \<^verbatim>\<open>Wake_Facts\<close>:
    \<^verbatim>\<open>apps/api/src/services/background-tasks.service.ts\<close> and \<^verbatim>\<open>workspace-pause.service.ts\<close> over \<open>wake_db\<close>, the
    tables they share with the queue (tasks, queued rows, messages, chats, cards) and the timers. An event settles
    tasks; a finished task becomes a queued wake; a wake that fails is released with a delay, held by a pause, or given
    up. The record \<open>wake_env\<close> answers for the world: home regions, owners, workspaces, the chat route's verdict,
    regular expressions. The fifth failure is final, a pause gives back what it holds, a run of wakes is stopped; which
    updates are lost is stated.
  \<^item> \<^verbatim>\<open>Chat_Resume\<close>: \<^verbatim>\<open>chat-resume.service.ts\<close> and \<^verbatim>\<open>packages/shared-runtime/src/interrupted-turn.ts\<close>: what is
    noted of a killed turn, and when its resume is queued.
  \<^item> \<^verbatim>\<open>Chat_Queue\<close>, \<^verbatim>\<open>Queue_Races\<close>, \<^verbatim>\<open>Queue_Facts\<close>: \<^verbatim>\<open>chat-queue-dispatcher.service.ts\<close>,
    \<^verbatim>\<open>chat-turn-state.service.ts\<close>, \<^verbatim>\<open>routes/chat-queued-message-actions.ts\<close>,
    \<^verbatim>\<open>generated/chat-queued-message.hooks.ts\<close> and \<^verbatim>\<open>jobs/run-chat-queue-drain.ts\<close>. \<open>Chat_Queue\<close> has the operations,
    each a step; \<open>Queue_Races\<close> cuts the starters of a session at their database calls and interleaves them as a
    \<open>machine\<close>. One starter wins the head of a queue, a drain loses no message of a person, a claimed row is settled; a
    click on Send now can start a second turn, which is stated with its runs.
  \<^item> \<^verbatim>\<open>Gc_Policy\<close>, \<^verbatim>\<open>Concurrency\<close>: \<^verbatim>\<open>apps/metal-agent/src/gc-policy.ts\<close> and \<^verbatim>\<open>concurrency.ts\<close>.

  \<^bold>\<open>Conventions.\<close> A record is the state a class or a module keeps, an operation a function on it. Asynchronous
  code is cut at its \<^verbatim>\<open>await\<close>s: what runs between two is one step, and claims hold for every sequence of steps.
  Time, random ids, the network's verdict, the answers of Stripe and of the capacity lookup, the model that summarises and
  the collation of names are arguments. Money
  and percentages are exact rationals (IEEE rounding is not modelled, but for the share of 0.7 the layers keep, where it
  shows); bytes, code units and the protocol's
  shifts are words; counters are naturals or integers. No definition uses fuel: loops are structural or
  terminate by a measure (the shrinking queue, the remaining input, the free slots).

  \<^bold>\<open>Not modelled.\<close> Route wiring and rendering, the LLM gateway and its tools, process and VM control, Stripe and
  Prisma themselves, price lookup by API, the throttled publication of queue snapshots,
  the session manager's timers, statistics and draining of saves at shutdown, what the image guard does to a picture,
  the turn-complete frame encoder, the encoding of the security policy in an environment variable, paths on Windows,
  replication between regions, links of background tasks and the long poll on them, wakes of team chats, the
  publication of queue and turn events: code whose effect is I/O or a call to a service the sources do not contain.
  A save of a session with its retry, a sweep of the session store and a settlement of an overage block are one step
  each; parameters of a tool call are strings, and the lists of a rules file are lists.
\<close>

end
